(* ===== verification/Prelude.thy ===== *)
theory Prelude
  imports Complex_Main "HOL-Library.AList" "HOL-Library.Char_ord" "HOL-Library.List_Lexorder" "HOL-Library.Multiset" "HOL-Library.Product_Lexorder"
    "HOL-Library.Sublist" "HOL-Library.Word"
begin

text \<open>
  Shared vocabulary of the development: Python exceptions as values of a sum type, the
  insertion-ordered dictionary, list slices and their grouping into windows, the sliding
  window of a bounded deque, and the reachability predicate every state machine of the
  development uses.  Python floats are read as real numbers (rounding is not modelled); the
  few places of the program where an infinite or undefined float can occur use the type
  \<open>pyfloat\<close> below.
\<close>

named_theorems res_simps \<open>evaluation of the exception monad\<close>
named_theorems dict_simps \<open>reading a dictionary after a write\<close>

section \<open>Exceptions as values\<close>

text \<open>The exception classes the modelled code raises; their message strings are dropped.\<close>

datatype py_error =
    ValueError | AssertionError | RuntimeError | IndexError | KeyError
  | MemoryError | OSError | TypeError | AttributeError | ZeroDivisionError

type_synonym 'a res = "py_error + 'a"

definition rbind :: "'a res \<Rightarrow> ('a \<Rightarrow> 'b res) \<Rightarrow> 'b res" where
  "rbind m f = (case m of Inl e \<Rightarrow> Inl e | Inr x \<Rightarrow> f x)"

definition raise_if :: "bool \<Rightarrow> py_error \<Rightarrow> unit res" where
  "raise_if b e = (if b then Inl e else Inr ())"

text \<open>A sequence of guards: the first that holds raises.\<close>

fun raise_first :: "(bool \<times> py_error) list \<Rightarrow> unit res" where
  "raise_first [] = Inr ()"
| "raise_first ((b, e) # gs) = (if b then Inl e else raise_first gs)"

text \<open>A loop whose body may raise.\<close>

fun rfold :: "('s \<Rightarrow> 'a \<Rightarrow> 's res) \<Rightarrow> 's \<Rightarrow> 'a list \<Rightarrow> 's res" where
  "rfold f s [] = Inr s"
| "rfold f s (x # xs) = rbind (f s x) (\<lambda>s'. rfold f s' xs)"

text \<open>A list comprehension whose body may raise.\<close>

fun rmap :: "('a \<Rightarrow> 'b res) \<Rightarrow> 'a list \<Rightarrow> 'b list res" where
  "rmap f [] = Inr []"
| "rmap f (x # xs) = rbind (f x) (\<lambda>y. rbind (rmap f xs) (\<lambda>ys. Inr (y # ys)))"

lemma rbind_simps [simp, res_simps]:
  "rbind (Inl e) f = Inl e" "rbind (Inr x) f = f x"
  by (simp_all add: rbind_def)

lemma rbind_Inr_iff [res_simps]:
  "rbind m f = Inr y \<longleftrightarrow> (\<exists>x. m = Inr x \<and> f x = Inr y)"
  by (cases m) auto

lemma rbind_Inl_iff [res_simps]:
  "rbind m f = Inl e \<longleftrightarrow> m = Inl e \<or> (\<exists>x. m = Inr x \<and> f x = Inl e)"
  by (cases m) auto

lemma raise_if_Inr_iff [simp, res_simps]: "raise_if b e = Inr u \<longleftrightarrow> \<not> b"
  by (simp add: raise_if_def)

lemma raise_if_Inl_iff [simp, res_simps]: "raise_if b e = Inl e' \<longleftrightarrow> b \<and> e' = e"
  by (auto simp: raise_if_def)

lemma raise_if_simps [simp]: "raise_if True e = Inl e" "raise_if False e = Inr ()"
  by (simp_all add: raise_if_def)

lemma if_raise_Inr_iff [simp]: "((if b then Inl e else m) = Inr u) \<longleftrightarrow> \<not> b \<and> m = Inr u"
  by simp

lemma raise_first_Inr_iff [simp, res_simps]:
  "raise_first gs = Inr u \<longleftrightarrow> (\<forall>g \<in> set gs. \<not> fst g)"
  by (induction gs rule: raise_first.induct) auto

lemma rfold_append:
  "rfold f s (xs @ ys) = rbind (rfold f s xs) (\<lambda>s'. rfold f s' ys)"
proof (induction xs arbitrary: s)
  case (Cons x xs)
  then show ?case by (cases "f s x") auto
qed simp

text \<open>The loop rule: an invariant the body keeps holds after the loop.\<close>

lemma rfold_invariant:
  assumes "rfold f s xs = Inr s'" and "P s"
    and "\<And>s x s'. P s \<Longrightarrow> x \<in> set xs \<Longrightarrow> f s x = Inr s' \<Longrightarrow> P s'"
  shows "P s'"
  using assms
proof (induction xs arbitrary: s)
  case (Cons x xs)
  from Cons.prems(1) obtain t where t: "f s x = Inr t" "rfold f t xs = Inr s'"
    by (auto simp: rbind_Inr_iff)
  have "P t" using Cons.prems(2,3) t(1) by auto
  then show ?case using Cons.IH [OF t(2)] Cons.prems(3) by (meson list.set_intros(2))
qed simp

lemma rmap_Inr_conv:
  "rmap f xs = Inr ys \<Longrightarrow> length ys = length xs \<and> (\<forall>i < length xs. f (xs ! i) = Inr (ys ! i))"
proof (induction xs arbitrary: ys)
  case (Cons x xs)
  then obtain y ys' where "f x = Inr y" "rmap f xs = Inr ys'" "ys = y # ys'"
    by (auto simp: rbind_Inr_iff)
  with Cons.IH show ?case by (auto simp: nth_Cons split: nat.split)
qed simp

lemma rmap_Inr_set:
  "rmap f xs = Inr ys \<Longrightarrow> y \<in> set ys \<Longrightarrow> \<exists>x \<in> set xs. f x = Inr y"
  by (metis in_set_conv_nth rmap_Inr_conv)

section \<open>Stateful code that may raise\<close>

text \<open>
  A method that changes its object and may raise returns its outcome together with the object
  as it left it: Python does not undo the writes made before an exception.
\<close>

type_synonym ('s, 'a) py = "'s \<Rightarrow> 'a res \<times> 's"

definition py_return :: "'a \<Rightarrow> ('s, 'a) py" where
  "py_return x = (\<lambda>s. (Inr x, s))"

definition py_raise :: "py_error \<Rightarrow> ('s, 'a) py" where
  "py_raise e = (\<lambda>s. (Inl e, s))"

definition py_bind :: "('s, 'a) py \<Rightarrow> ('a \<Rightarrow> ('s, 'b) py) \<Rightarrow> ('s, 'b) py" where
  "py_bind m f = (\<lambda>s. case m s of (Inl e, s') \<Rightarrow> (Inl e, s') | (Inr x, s') \<Rightarrow> f x s')"

definition py_update :: "('s \<Rightarrow> 's) \<Rightarrow> ('s, unit) py" where
  "py_update f = (\<lambda>s. (Inr (), f s))"

text \<open>A \<open>for\<close> loop: an exception in the body leaves the loop.\<close>

fun py_for :: "'a list \<Rightarrow> ('a \<Rightarrow> ('s, unit) py) \<Rightarrow> ('s, unit) py" where
  "py_for [] f = py_return ()"
| "py_for (x # xs) f = py_bind (f x) (\<lambda>_. py_for xs f)"

named_theorems py_simps \<open>evaluation of stateful code\<close>

lemma py_basic [py_simps]:
  "py_return x s = (Inr x, s)" "py_raise e s = (Inl e, s)" "py_update g s = (Inr (), g s)"
  "py_bind m k s = (case m s of (Inl e, s') \<Rightarrow> (Inl e, s') | (Inr y, s') \<Rightarrow> k y s')"
  by (simp_all add: py_return_def py_raise_def py_update_def py_bind_def)

lemma snd_py_update [simp]: "snd (py_update g s) = g s"
  by (simp add: py_update_def)

text \<open>Whatever every body keeps, the sequence and the loop keep, also when they raise.\<close>

lemma py_bind_keeps:
  assumes "P s" and "\<And>s. P s \<Longrightarrow> P (snd (m s))" and "\<And>x s. P s \<Longrightarrow> P (snd (f x s))"
  shows "P (snd (py_bind m f s))"
  using assms by (auto simp: py_basic split: prod.splits sum.splits) (metis snd_conv)+

lemma py_bind_cases:
  assumes "py_bind m f s = (r, s')"
  obtains (stop) e where "m s = (Inl e, s')" "r = Inl e"
    | (go) a t where "m s = (Inr a, t)" "f a t = (r, s')"
  using assms by (auto simp: py_basic split: prod.splits sum.splits)

lemma py_for_keeps:
  assumes "P s" and "\<And>x s. x \<in> set xs \<Longrightarrow> P s \<Longrightarrow> P (snd (f x s))"
  shows "P (snd (py_for xs f s))"
  using assms
proof (induction xs arbitrary: s)
  case (Cons x xs)
  have 1: "P (snd (f x s))" using Cons.prems by simp
  obtain r s' where f: "f x s = (r, s')" by fastforce
  then show ?case using 1 Cons.IH [of s'] Cons.prems(2)
    by (cases r) (simp_all add: py_basic)
qed (simp add: py_basic)

section \<open>Floats\<close>

text \<open>
  A Python float that may be infinite or undefined (\<open>math.isfinite\<close> in the source).
\<close>

datatype pyfloat = Fin real | PInf | NInf | NaN

fun isfinite :: "pyfloat \<Rightarrow> bool" where
  "isfinite (Fin _) = True"
| "isfinite _ = False"

fun fin_val :: "pyfloat \<Rightarrow> real" where
  "fin_val (Fin x) = x"
| "fin_val _ = 0"

text \<open>\<open>int(x)\<close> truncates towards zero; \<open>round(x)\<close> rounds half to even.\<close>

definition py_int :: "real \<Rightarrow> int" where
  "py_int x = (if x < 0 then \<lceil>x\<rceil> else \<lfloor>x\<rfloor>)"

definition py_round :: "real \<Rightarrow> int" where
  "py_round x =
     (let f = \<lfloor>x\<rfloor>; d = x - of_int f
      in if d < 1 / 2 then f else if d > 1 / 2 then f + 1
         else if even f then f else f + 1)"

lemma py_int_nonneg [simp]: "0 \<le> x \<Longrightarrow> py_int x = \<lfloor>x\<rfloor>"
  by (simp add: py_int_def)

lemma py_round_bounds: "x - 1 / 2 \<le> of_int (py_round x) \<and> of_int (py_round x) \<le> x + 1 / 2"
  unfolding py_round_def Let_def by (auto; linarith)

section \<open>Dictionaries\<close>

text \<open>
  A dictionary is an association list in insertion order: \<open>AList.update\<close> overwrites in
  place or appends, \<open>AList.delete\<close> removes, \<open>map_of\<close> is \<open>dict.get\<close>.
\<close>

type_synonym ('k, 'v) dict = "('k \<times> 'v) list"

abbreviation dict_ok :: "('k, 'v) dict \<Rightarrow> bool" where
  "dict_ok d \<equiv> distinct (map fst d)"

abbreviation dget :: "('k, 'v) dict \<Rightarrow> 'k \<Rightarrow> 'v option" where
  "dget d k \<equiv> map_of d k"

abbreviation dset :: "'k \<Rightarrow> 'v \<Rightarrow> ('k, 'v) dict \<Rightarrow> ('k, 'v) dict" where
  "dset k v d \<equiv> AList.update k v d"

abbreviation ddel :: "'k \<Rightarrow> ('k, 'v) dict \<Rightarrow> ('k, 'v) dict" where
  "ddel k d \<equiv> AList.delete k d"

definition dget_or :: "('k, 'v) dict \<Rightarrow> 'k \<Rightarrow> 'v \<Rightarrow> 'v" where
  "dget_or d k v = (case dget d k of None \<Rightarrow> v | Some w \<Rightarrow> w)"

declare map_of_eq_Some_iff [simp del] Some_eq_map_of_iff [simp del]

lemma dget_dset [simp, dict_simps]: "dget (dset k v d) k' = (if k' = k then Some v else dget d k')"
  by (simp add: update_conv)

lemma dget_ddel [simp, dict_simps]: "dget (ddel k d) k' = (if k' = k then None else dget d k')"
  by (simp add: delete_conv)

lemma dget_or_dset [simp, dict_simps]:
  "dget_or (dset k v d) k' w = (if k' = k then v else dget_or d k' w)"
  by (simp add: dget_or_def)

lemma dget_or_ddel [simp, dict_simps]:
  "dget_or (ddel k d) k' w = (if k' = k then w else dget_or d k' w)"
  by (simp add: dget_or_def)

lemma dict_ok_dset [simp]: "dict_ok d \<Longrightarrow> dict_ok (dset k v d)"
  by (rule distinct_update)

lemma dict_ok_ddel [simp]: "dict_ok d \<Longrightarrow> dict_ok (ddel k d)"
  by (rule distinct_delete)

text \<open>A quantity summed over the entries of a dictionary.\<close>

definition dsum :: "('v \<Rightarrow> 'a::comm_monoid_add) \<Rightarrow> ('k, 'v) dict \<Rightarrow> 'a" where
  "dsum f d = sum_list (map (\<lambda>kv. f (snd kv)) d)"

lemma dsum_Nil [simp]: "dsum f [] = 0"
  by (simp add: dsum_def)

lemma dsum_Cons [simp]: "dsum f ((k, v) # d) = f v + dsum f d"
  by (simp add: dsum_def)

lemma dsum_dset:
  "dsum f (dset k v d) + (case dget d k of None \<Rightarrow> 0 | Some w \<Rightarrow> f w) = dsum f d + f v"
  by (induction d) (auto simp: ac_simps split: option.splits)

lemma ddel_notin: "k \<notin> fst ` set d \<Longrightarrow> ddel k d = d"
  by (simp add: delete_id)

lemma dsum_ddel:
  "dict_ok d \<Longrightarrow>
     dsum f (ddel k d) + (case dget d k of None \<Rightarrow> 0 | Some w \<Rightarrow> f w) = dsum f d"
proof (induction d)
  case (Cons kv d)
  obtain k' v' where kv: "kv = (k', v')" by force
  show ?case
  proof (cases "k' = k")
    case True
    with Cons.prems kv have "ddel k d = d" by (intro ddel_notin) auto
    with True kv show ?thesis by (simp add: AList.delete_eq ac_simps)
  next
    case False
    with Cons kv show ?thesis by (auto simp: AList.delete_eq ac_simps split: option.splits)
  qed
qed (simp add: AList.delete_eq)

lemma keys_dset: "map fst (dset k v d) = (if k \<in> fst ` set d then map fst d else map fst d @ [k])"
  by (simp add: update_keys)

definition dkeys :: "('k, 'v) dict \<Rightarrow> 'k multiset" where
  "dkeys d = mset (map fst d)"

lemma dkeys_Nil [simp]: "dkeys [] = {#}"
  by (simp add: dkeys_def)

lemma dkeys_dset:
  "dkeys (dset k v d) = (if dget d k = None then dkeys d + {#k#} else dkeys d)"
  unfolding dkeys_def keys_dset by (simp add: map_of_eq_None_iff)

lemma dkeys_ddel: "dict_ok d \<Longrightarrow> dkeys (ddel k d) = dkeys d - {#k#}"
  unfolding dkeys_def by (induction d) (auto simp: AList.delete_eq ddel_notin)

lemma in_dkeys: "k \<in># dkeys d \<longleftrightarrow> dget d k \<noteq> None"
  by (auto simp: dkeys_def map_of_eq_None_iff)

lemma dsum_dom: "dict_ok d \<Longrightarrow> dsum f d = (\<Sum>k \<in> fst ` set d. f (the (dget d k)))"
proof (induction d)
  case (Cons kv d)
  have "(\<Sum>k \<in> fst ` set d. f (the (dget (kv # d) k))) = (\<Sum>k \<in> fst ` set d. f (the (dget d k)))"
    using Cons.prems by (intro sum.cong) (auto simp: image_iff)
  with Cons show ?case by (cases kv) (auto simp: image_iff)
qed simp

lemma dsum_cong:
  assumes "dict_ok d" and "dict_ok d'"
    and "\<And>k. map_option f (dget d k) = map_option f (dget d' k)"
  shows "dsum f d = dsum f d'"
proof -
  have "k \<in> fst ` set d \<longleftrightarrow> k \<in> fst ` set d'" for k
    using assms(3) [of k] map_of_eq_None_iff [of d k] map_of_eq_None_iff [of d' k]
    by (cases "dget d k"; cases "dget d' k") simp_all
  then have keys: "fst ` set d = fst ` set d'" by blast
  have "f (the (dget d k)) = f (the (dget d' k))" if k: "k \<in> fst ` set d" for k
  proof -
    obtain v v' where "dget d k = Some v" "dget d' k = Some v'"
      using k keys by (metis map_of_eq_None_iff not_None_eq)
    then show ?thesis using assms(3) [of k] by simp
  qed
  then show ?thesis by (simp add: dsum_dom assms(1,2) keys)
qed

lemma dsum_const: "dsum (\<lambda>_. c) d = int (length d) * c"
  by (induction d) (auto simp: algebra_simps)

lemma distinct_submset: "mset xs \<subseteq># mset ys \<Longrightarrow> distinct ys \<Longrightarrow> distinct xs"
  by (metis distinct_append mset_append mset_eq_imp_distinct_iff
      ex_mset subset_mset.le_iff_add)

lemma dget_set: "dget d k = Some v \<Longrightarrow> (k, v) \<in> set d"
  by (rule map_of_SomeD)

lemma dget_iff: "dict_ok d \<Longrightarrow> dget d k = Some v \<longleftrightarrow> (k, v) \<in> set d"
  by (metis map_of_SomeD map_of_is_SomeI)

section \<open>Lists\<close>

text \<open>The index a Python slice bound denotes in a list of length \<open>n\<close>.\<close>

definition slice_bound :: "nat \<Rightarrow> int \<Rightarrow> nat" where
  "slice_bound n i = nat (if i < 0 then max 0 (int n + i) else min i (int n))"

definition slice_from :: "'a list \<Rightarrow> int \<Rightarrow> 'a list" where
  "slice_from xs i = drop (slice_bound (length xs) i) xs"

definition slice_to :: "'a list \<Rightarrow> int \<Rightarrow> 'a list" where
  "slice_to xs i = take (slice_bound (length xs) i) xs"

definition slice :: "'a list \<Rightarrow> int \<Rightarrow> int \<Rightarrow> 'a list" where
  "slice xs i j = drop (slice_bound (length xs) i) (take (slice_bound (length xs) j) xs)"

lemma slice_from_nonneg [simp]: "0 \<le> i \<Longrightarrow> slice_from xs i = drop (nat i) xs"
  by (cases "i \<le> int (length xs)") (auto simp: slice_from_def slice_bound_def min_def)

lemma slice_to_nonneg [simp]: "0 \<le> i \<Longrightarrow> slice_to xs i = take (nat i) xs"
  by (cases "i \<le> int (length xs)") (auto simp: slice_to_def slice_bound_def min_def)

text \<open>\<open>[xs[i : i + n] for i in range(0, len(xs), n)]\<close> for a positive \<open>n\<close>.\<close>

function windows :: "nat \<Rightarrow> 'a list \<Rightarrow> 'a list list" where
  "windows n xs = (if n = 0 \<or> xs = [] then [] else take n xs # windows n (drop n xs))"
  by pat_completeness auto
termination by (relation "measure (\<lambda>(n, xs). length xs)") auto

declare windows.simps [simp del]

lemma windows_Nil [simp]: "windows n [] = []"
  by (simp add: windows.simps)

lemma concat_windows: "0 < n \<Longrightarrow> concat (windows n xs) = xs"
proof (induction n xs rule: windows.induct)
  case (1 n xs)
  then show ?case by (cases "xs = []") (auto simp: windows.simps [of n xs])
qed

lemma windows_bounded: "ys \<in> set (windows n xs) \<Longrightarrow> 0 < length ys \<and> length ys \<le> n"
proof (induction n xs rule: windows.induct)
  case (1 n xs)
  then show ?case by (auto simp: windows.simps [of n xs] split: if_splits)
qed

text \<open>\<open>deque(maxlen=n).append(x)\<close>.\<close>

definition push_window :: "nat \<Rightarrow> 'a \<Rightarrow> 'a list \<Rightarrow> 'a list" where
  "push_window n x xs = (let ys = xs @ [x] in drop (length ys - n) ys)"

lemma length_push_window: "length (push_window n x xs) = min n (Suc (length xs))"
  by (auto simp: push_window_def Let_def)

lemma set_push_window: "set (push_window n x xs) \<subseteq> insert x (set xs)"
  unfolding push_window_def Let_def by (metis empty_set insert_is_Un list.simps(15)
      set_append set_drop_subset sup_commute)

lemma sum_list_map_le:
  fixes f g :: "'a \<Rightarrow> 'b::ordered_comm_monoid_add"
  shows "(\<And>x. x \<in> set xs \<Longrightarrow> f x \<le> g x) \<Longrightarrow> sum_list (map f xs) \<le> sum_list (map g xs)"
  by (rule sum_list_mono)

section \<open>Reachable states\<close>

text \<open>The states a machine reaches from its initial states by its steps.\<close>

inductive reaches :: "('s \<Rightarrow> bool) \<Rightarrow> ('s \<Rightarrow> 's \<Rightarrow> bool) \<Rightarrow> 's \<Rightarrow> bool"
  for init :: "'s \<Rightarrow> bool" and step :: "'s \<Rightarrow> 's \<Rightarrow> bool" where
  reaches_init: "init s \<Longrightarrow> reaches init step s"
| reaches_step: "reaches init step s \<Longrightarrow> step s t \<Longrightarrow> reaches init step t"

text \<open>The contract of an inductive invariant: it holds initially and every step keeps it.\<close>

locale invariant_system =
  fixes init :: "'s \<Rightarrow> bool"
    and step :: "'s \<Rightarrow> 's \<Rightarrow> bool"
    and inv :: "'s \<Rightarrow> bool"
  assumes init_inv: "init s \<Longrightarrow> inv s"
    and step_inv: "inv s \<Longrightarrow> step s t \<Longrightarrow> inv t"
begin

lemma reaches_inv: "reaches init step s \<Longrightarrow> inv s"
  by (induction rule: reaches.induct) (auto intro: init_inv step_inv)

end

end
