(* ===== verification/KVPool.thy ===== *)
theory KVPool
  imports Prelude
begin

text \<open>
  The GPU memory both sides of the system share: the slot allocator (\<open>mem_cache/allocator.py\<close>,
  page size 1), the request-to-token table (\<open>mem_cache/memory_pool.py\<close>), allocation and release
  for a request under the chunk cache (\<open>mem_cache/common.py\<close>, \<open>mem_cache/chunk_cache.py\<close>), the
  Drafter's local rollback (\<open>drafter/spectre_kv_rollbacker.py\<close>) and the tombstoning of a sealed
  prefix by the Target.  Slot 0 is the padding slot: it is never handed out, and a table entry
  0 marks a token whose KV is not on the GPU.  The main result is conservation on the Drafter:
  every slot is free or held by exactly one request, and every release succeeds.  The Target,
  which also seals and tombstones, has its own theory (\<open>SealRuntime\<close>).
\<close>

section \<open>The slot allocator\<close>

record kv_allocator =
  ka_size :: nat
  ka_need_sort :: bool
  ka_free_pages :: "nat list"
  ka_release_pages :: "nat list"
  ka_is_not_in_free_group :: bool
  ka_free_group :: "nat list list"

definition allocator_new :: "nat \<Rightarrow> bool \<Rightarrow> kv_allocator" where
  "allocator_new n need_sort =
     \<lparr>ka_size = n, ka_need_sort = need_sort, ka_free_pages = [1..<n + 1],
      ka_release_pages = [], ka_is_not_in_free_group = True, ka_free_group = []\<rparr>"

definition available_size :: "kv_allocator \<Rightarrow> nat" where
  "available_size a = length (ka_free_pages a) + length (ka_release_pages a)"

definition merge_and_sort_free :: "kv_allocator \<Rightarrow> kv_allocator" where
  "merge_and_sort_free a =
     (if ka_release_pages a = [] then a
      else a\<lparr>ka_free_pages := sort (ka_free_pages a @ ka_release_pages a), ka_release_pages := []\<rparr>)"

definition kv_alloc :: "nat \<Rightarrow> kv_allocator \<Rightarrow> nat list option \<times> kv_allocator" where
  "kv_alloc need a =
     (let b = (if ka_need_sort a \<and> length (ka_free_pages a) < need then merge_and_sort_free a else a)
      in if length (ka_free_pages b) < need then (None, b)
         else (Some (take need (ka_free_pages b)), b\<lparr>ka_free_pages := drop need (ka_free_pages b)\<rparr>))"

definition kv_free :: "nat list \<Rightarrow> kv_allocator \<Rightarrow> kv_allocator" where
  "kv_free ix a =
     (if ix = [] then a
      else if ka_is_not_in_free_group a
      then if ka_need_sort a then a\<lparr>ka_release_pages := ka_release_pages a @ ix\<rparr>
           else a\<lparr>ka_free_pages := ka_free_pages a @ ix\<rparr>
      else a\<lparr>ka_free_group := ka_free_group a @ [ix]\<rparr>)"

definition free_group_begin :: "kv_allocator \<Rightarrow> kv_allocator" where
  "free_group_begin a = a\<lparr>ka_is_not_in_free_group := False, ka_free_group := []\<rparr>"

definition free_group_end :: "kv_allocator \<Rightarrow> kv_allocator" where
  "free_group_end a =
     (let b = a\<lparr>ka_is_not_in_free_group := True\<rparr>
      in if ka_free_group b = [] then b else kv_free (concat (ka_free_group b)) b)"

section \<open>Requests and the request-to-token table\<close>

text \<open>The memory fields of a request (\<open>managers/schedule_batch.py\<close>, class \<open>Req\<close>).\<close>

record kv_req =
  kr_rid :: string
  kr_is_draft :: bool
  kr_fill_ids :: "int list"
  kr_prefix_indices :: "nat list"
  kr_extend_input_len :: nat
  kr_is_chunked :: int
  kr_req_pool_idx :: "nat option"
  kr_kv_committed_len :: nat
  kr_kv_allocated_len :: nat
  kr_kv_committed_freed :: bool
  kr_kv_overallocated_freed :: bool
  kr_stream_enabled :: bool

record req_pool =
  rp_size :: nat
  rp_max_context_len :: nat
  rp_req_to_token :: "nat list list"
  rp_free_slots :: "nat list"

definition req_pool_new :: "nat \<Rightarrow> nat \<Rightarrow> req_pool" where
  "req_pool_new n max_len =
     \<lparr>rp_size = n, rp_max_context_len = max_len,
      rp_req_to_token = replicate n (replicate max_len 0), rp_free_slots = [0..<n]\<rparr>"

text \<open>\<open>write((row, slice(lo, lo + len(vals))), vals)\<close> inside the table.\<close>

definition write_row :: "nat \<Rightarrow> nat list \<Rightarrow> nat list \<Rightarrow> nat list" where
  "write_row lo vals row = take lo row @ vals @ drop (lo + length vals) row"

definition pool_write :: "nat \<Rightarrow> nat \<Rightarrow> nat list \<Rightarrow> req_pool \<Rightarrow> req_pool" where
  "pool_write i lo vals p =
     p\<lparr>rp_req_to_token := (rp_req_to_token p)[i := write_row lo vals (rp_req_to_token p ! i)]\<rparr>"

text \<open>\<open>req_to_token[i, lo:hi]\<close>.\<close>

definition pool_read :: "nat \<Rightarrow> nat \<Rightarrow> nat \<Rightarrow> req_pool \<Rightarrow> nat list" where
  "pool_read i lo hi p = drop lo (take hi (rp_req_to_token p ! i))"

text \<open>
  \<open>ReqToTokenPool.alloc\<close>: requests that own a row keep it, the others get the first free rows
  in order.  The requests live in a store, so that a batch is a list of their identities.
\<close>

type_synonym 'a heap = "(nat, 'a) dict"

abbreviation obj :: "'a heap \<Rightarrow> nat \<Rightarrow> 'a" where
  "obj h i \<equiv> the (dget h i)"

fun assign_rows :: "nat list \<Rightarrow> nat list \<Rightarrow> 'a kv_req_scheme heap \<Rightarrow> 'a kv_req_scheme heap" where
  "assign_rows [] sel h = h"
| "assign_rows (i # ids) sel h =
     (case kr_req_pool_idx (obj h i) of
        Some _ \<Rightarrow> assign_rows ids sel h
      | None \<Rightarrow> assign_rows ids (tl sel) (dset i ((obj h i)\<lparr>kr_req_pool_idx := Some (hd sel)\<rparr>) h))"

definition req_pool_alloc ::
    "nat list \<Rightarrow> 'a kv_req_scheme heap \<Rightarrow> req_pool \<Rightarrow> ('a kv_req_scheme heap \<times> req_pool) option res" where
  "req_pool_alloc ids h p =
     (let reusing = filter (\<lambda>i. kr_req_pool_idx (obj h i) \<noteq> None) ids;
          need = length ids - length reusing
      in if \<exists>i \<in> set reusing. \<not> (0 < kr_is_chunked (obj h i) \<or> 0 < kr_kv_committed_len (obj h i))
         then Inl AssertionError
         else if length (rp_free_slots p) < need then Inr None
         else Inr (Some (assign_rows ids (take need (rp_free_slots p)) h,
                         p\<lparr>rp_free_slots := drop need (rp_free_slots p)\<rparr>)))"

definition req_pool_free :: "'a kv_req_scheme \<Rightarrow> req_pool \<Rightarrow> ('a kv_req_scheme \<times> req_pool) res" where
  "req_pool_free r p =
     (case kr_req_pool_idx r of
        None \<Rightarrow> Inl AssertionError
      | Some i \<Rightarrow> Inr (r\<lparr>kr_req_pool_idx := None\<rparr>, p\<lparr>rp_free_slots := rp_free_slots p @ [i]\<rparr>))"

record kv_mem =
  km_alloc :: kv_allocator
  km_pool :: req_pool

section \<open>Allocation for a batch\<close>

text \<open>\<open>alloc_token_slots\<close>; the chunk cache has nothing to evict.\<close>

definition alloc_token_slots :: "nat \<Rightarrow> kv_mem \<Rightarrow> (nat list \<times> kv_mem) res" where
  "alloc_token_slots n m =
     (case kv_alloc n (km_alloc m) of
        (None, _) \<Rightarrow> Inl RuntimeError
      | (Some out, a) \<Rightarrow> Inr (out, m\<lparr>km_alloc := a\<rparr>))"

text \<open>\<open>alloc_req_slots\<close> for the requests of the batch that are not drafts with a row.\<close>

definition alloc_req_slots ::
    "nat list \<Rightarrow> 'a kv_req_scheme heap \<Rightarrow> kv_mem \<Rightarrow> ('a kv_req_scheme heap \<times> kv_mem) res" where
  "alloc_req_slots ids h m =
     (let need = filter (\<lambda>i. \<not> (kr_req_pool_idx (obj h i) \<noteq> None \<and> kr_is_draft (obj h i))) ids in
      if need = [] then Inr (h, m)
      else rbind (req_pool_alloc need h (km_pool m)) (\<lambda>res.
        case res of None \<Rightarrow> Inl RuntimeError
        | Some (h', p) \<Rightarrow> Inr (h', m\<lparr>km_pool := p\<rparr>)))"

text \<open>
  \<open>write_cache_indices\<close> and the bookkeeping loop of \<open>prepare_for_extend\<close>: each request writes its
  prefix and its share of the new slots into its row and records the new lengths.
\<close>

fun extend_loop ::
    "nat list \<Rightarrow> nat list \<Rightarrow> 'a kv_req_scheme heap \<Rightarrow> req_pool \<Rightarrow> ('a kv_req_scheme heap \<times> req_pool) res" where
  "extend_loop [] out h p = Inr (h, p)"
| "extend_loop (i # ids) out h p =
     (let r = obj h i; pre = length (kr_prefix_indices r); seq = length (kr_fill_ids r);
          row = the (kr_req_pool_idx r);
          p1 = pool_write row 0 (kr_prefix_indices r) p;
          p2 = pool_write row pre (take (kr_extend_input_len r) out) p1
      in if seq - pre \<noteq> kr_extend_input_len r \<or> seq < pre then Inl AssertionError
         else extend_loop ids (drop (kr_extend_input_len r) out)
                (dset i (r\<lparr>kr_kv_committed_len := seq, kr_kv_allocated_len := seq\<rparr>) h) p2)"

definition prepare_for_extend ::
    "nat list \<Rightarrow> 'a kv_req_scheme heap \<Rightarrow> kv_mem \<Rightarrow> ('a kv_req_scheme heap \<times> kv_mem) res" where
  "prepare_for_extend ids h m =
     rbind (alloc_req_slots ids h m) (\<lambda>(h1, m1).
     rbind (alloc_token_slots
        (sum_list (map (\<lambda>i. length (drop (length (kr_prefix_indices (obj h i))) (kr_fill_ids (obj h i)))) ids)) m1)
       (\<lambda>(out, m2).
     rbind (extend_loop ids out h1 (km_pool m2)) (\<lambda>(h3, p3).
     Inr (h3, m2\<lparr>km_pool := p3\<rparr>))))"

text \<open>
  \<open>prepare_for_decode\<close> with \<open>alloc_for_decode(token_per_req=1)\<close>: one new slot per request,
  written at its current length.  With a speculative algorithm configured (\<open>spec_none\<close> false) the
  method returns before it touches any memory; the Drafter is configured without one.
\<close>

fun decode_loop ::
    "nat list \<Rightarrow> nat list \<Rightarrow> 'a kv_req_scheme heap \<Rightarrow> req_pool \<Rightarrow> 'a kv_req_scheme heap \<times> req_pool" where
  "decode_loop [] out h p = (h, p)"
| "decode_loop (i # ids) out h p =
     (let r = obj h i in
      decode_loop ids (tl out)
        (dset i (r\<lparr>kr_kv_committed_len := kr_kv_committed_len r + 1,
                    kr_kv_allocated_len := kr_kv_allocated_len r + 1\<rparr>) h)
        (pool_write (the (kr_req_pool_idx r)) (kr_kv_committed_len r) [hd out] p))"

definition prepare_for_decode ::
    "bool \<Rightarrow> nat list \<Rightarrow> 'a kv_req_scheme heap \<Rightarrow> kv_mem \<Rightarrow> ('a kv_req_scheme heap \<times> kv_mem) res" where
  "prepare_for_decode spec_none ids h m =
     (if \<not> spec_none then Inr (h, m)
      else rbind (alloc_token_slots (length ids) m) (\<lambda>(out, m1).
        case decode_loop ids out h (km_pool m1) of (h', p') \<Rightarrow> Inr (h', m1\<lparr>km_pool := p'\<rparr>)))"

section \<open>Release and rollback\<close>

text \<open>\<open>ChunkCache.cache_finished_req\<close> with \<open>Req.pop_committed_kv_cache\<close>.\<close>

definition cache_finished_req :: "'a kv_req_scheme \<Rightarrow> kv_mem \<Rightarrow> ('a kv_req_scheme \<times> kv_mem) res" where
  "cache_finished_req r m =
     (if kr_kv_committed_freed r then Inl AssertionError
      else let kv = pool_read (the (kr_req_pool_idx r)) 0 (kr_kv_committed_len r) (km_pool m);
               live = (if kr_stream_enabled r then filter (\<lambda>s. s \<noteq> 0) kv else kv)
           in Inr (r\<lparr>kr_kv_committed_freed := True\<rparr>, m\<lparr>km_alloc := kv_free live (km_alloc m)\<rparr>))"

text \<open>
  \<open>release_kv_cache\<close> with \<open>Req.pop_overallocated_kv_cache\<close>, for the chunk cache and page size 1;
  \<open>spec\<close> tells whether a speculative algorithm is configured.
\<close>

definition release_kv_cache :: "bool \<Rightarrow> 'a kv_req_scheme \<Rightarrow> kv_mem \<Rightarrow> ('a kv_req_scheme \<times> kv_mem) res" where
  "release_kv_cache spec r m =
     (case kr_req_pool_idx r of
        None \<Rightarrow> Inl AssertionError
      | Some i \<Rightarrow>
         rbind (cache_finished_req r m) (\<lambda>(r1, m1).
           if kr_kv_overallocated_freed r1 then Inl AssertionError
           else
             let r2 = r1\<lparr>kr_kv_overallocated_freed := True\<rparr>;
                 lo = kr_kv_committed_len r2; hi = kr_kv_allocated_len r2
             in if \<not> spec \<and> lo \<noteq> hi then Inl AssertionError
                else
                  let m2 = (if lo < hi
                            then m1\<lparr>km_alloc := kv_free (pool_read i lo hi (km_pool m1)) (km_alloc m1)\<rparr>
                            else m1)
                  in rbind (req_pool_free r2 (km_pool m2)) (\<lambda>(r3, p). Inr (r3, m2\<lparr>km_pool := p\<rparr>))))"

definition get_prefix_len :: "'a kv_req_scheme \<Rightarrow> int" where
  "get_prefix_len r = int (length (kr_prefix_indices r))"

definition can_local_rollback :: "int \<Rightarrow> 'a kv_req_scheme \<Rightarrow> int \<Rightarrow> bool" where
  "can_local_rollback page_size r fork_point \<longleftrightarrow> \<not> 1 < page_size \<and> get_prefix_len r \<le> fork_point"

definition local_rollback ::
    "int \<Rightarrow> 'a kv_req_scheme \<Rightarrow> int \<Rightarrow> int \<Rightarrow> kv_mem \<Rightarrow> bool \<times> 'a kv_req_scheme \<times> kv_mem" where
  "local_rollback page_size r fork_point current_kv_len m =
     (if 1 < page_size then (False, r, m)
      else case kr_req_pool_idx r of
        None \<Rightarrow> (False, r, m)
      | Some i \<Rightarrow>
         if current_kv_len \<le> fork_point then (False, r, m)
         else if fork_point < get_prefix_len r then (False, r, m)
         else let max_len = int (rp_max_context_len (km_pool m));
                  start = min fork_point max_len; stop = min current_kv_len max_len
              in if stop \<le> start then (False, r, m)
                 else (True,
                       r\<lparr>kr_kv_committed_len := nat fork_point, kr_kv_allocated_len := nat fork_point\<rparr>,
                       m\<lparr>km_alloc := kv_free (pool_read i (nat start) (nat stop) (km_pool m)) (km_alloc m)\<rparr>))"

text \<open>
  The Target frees the live slots of a prefix that is in CPU history and overwrites its table
  entries with 0 (\<open>_poll_pending_seals\<close> and \<open>after_extend\<close> of \<open>specstream/verifier.py\<close>).
\<close>

definition free_and_tombstone :: "nat list \<Rightarrow> nat \<Rightarrow> nat \<Rightarrow> nat \<Rightarrow> kv_mem \<Rightarrow> kv_mem" where
  "free_and_tombstone slots i lo hi m =
     m\<lparr>km_alloc := kv_free slots (km_alloc m),
       km_pool := pool_write i lo (replicate (hi - lo) 0) (km_pool m)\<rparr>"


section \<open>Conservation of slots\<close>

text \<open>Every slot the allocator has back, those of an open free group included.\<close>

definition all_free :: "kv_allocator \<Rightarrow> nat multiset" where
  "all_free a = mset (ka_free_pages a) + mset (ka_release_pages a)
     + (if ka_is_not_in_free_group a then {#} else mset (concat (ka_free_group a)))"

lemma all_free_free [simp]: "all_free (kv_free ix a) = all_free a + mset ix"
  by (simp add: all_free_def kv_free_def)

lemma free_fields [simp]:
  "ka_size (kv_free ix a) = ka_size a"
  "ka_is_not_in_free_group (kv_free ix a) = ka_is_not_in_free_group a"
  by (simp_all add: kv_free_def)

lemma all_free_merge [simp]: "all_free (merge_and_sort_free a) = all_free a"
  by (simp add: all_free_def merge_and_sort_free_def)

lemma merge_fields [simp]:
  "ka_size (merge_and_sort_free a) = ka_size a"
  "ka_is_not_in_free_group (merge_and_sort_free a) = ka_is_not_in_free_group a"
  by (simp_all add: merge_and_sort_free_def)

lemma alloc_splits:
  assumes "kv_alloc n a = (Some out, b)"
  shows "all_free a = mset out + all_free b" and "length out = n" and "ka_size b = ka_size a"
    and "ka_is_not_in_free_group b = ka_is_not_in_free_group a"
proof -
  define c where "c = (if ka_need_sort a \<and> length (ka_free_pages a) < n then merge_and_sort_free a else a)"
  have c: "all_free c = all_free a" "ka_size c = ka_size a"
    "ka_is_not_in_free_group c = ka_is_not_in_free_group a" by (simp_all add: c_def)
  from assms have b: "n \<le> length (ka_free_pages c)" "out = take n (ka_free_pages c)"
    "b = c\<lparr>ka_free_pages := drop n (ka_free_pages c)\<rparr>"
    by (auto simp: kv_alloc_def Let_def c_def [symmetric] not_less split: if_splits)
  have "mset (ka_free_pages c) = mset out + mset (drop n (ka_free_pages c))"
    unfolding b(2) by (metis append_take_drop_id mset_append)
  then have "all_free c = mset out + all_free b" using b(3) by (simp add: all_free_def ac_simps)
  with c b show "all_free a = mset out + all_free b" "length out = n" "ka_size b = ka_size a"
    "ka_is_not_in_free_group b = ka_is_not_in_free_group a" by auto
qed

lemma all_free_group:
  "ka_is_not_in_free_group a \<Longrightarrow> all_free (free_group_begin a) = all_free a"
  "\<not> ka_is_not_in_free_group a \<Longrightarrow> all_free (free_group_end a) = all_free a"
  by (auto simp: all_free_def free_group_begin_def free_group_end_def kv_free_def Let_def)

subsection \<open>Rows of the table\<close>

definition shape_ok :: "req_pool \<Rightarrow> bool" where
  "shape_ok p \<longleftrightarrow> length (rp_req_to_token p) = rp_size p
     \<and> (\<forall>row \<in> set (rp_req_to_token p). length row = rp_max_context_len p)"

abbreviation row :: "req_pool \<Rightarrow> nat \<Rightarrow> nat list" where
  "row p i \<equiv> rp_req_to_token p ! i"

lemma row_length: "shape_ok p \<Longrightarrow> i < rp_size p \<Longrightarrow> length (row p i) = rp_max_context_len p"
  by (simp add: shape_ok_def)

lemma write_row_length: "lo + length vs \<le> length xs \<Longrightarrow> length (write_row lo vs xs) = length xs"
  by (simp add: write_row_def)

lemma take_write_row: "lo + length vs \<le> length xs \<Longrightarrow> take (lo + length vs) (write_row lo vs xs) = take lo xs @ vs"
  by (simp add: write_row_def)

lemma pool_write_fields [simp]:
  "rp_size (pool_write i lo vs p) = rp_size p"
  "rp_max_context_len (pool_write i lo vs p) = rp_max_context_len p"
  "rp_free_slots (pool_write i lo vs p) = rp_free_slots p"
  by (simp_all add: pool_write_def)

lemma pool_write_row:
  "length (rp_req_to_token p) = rp_size p \<Longrightarrow> i < rp_size p \<Longrightarrow>
     row (pool_write i lo vs p) j = (if j = i then write_row lo vs (row p i) else row p j)"
  by (simp add: pool_write_def)

lemma pool_write_other [simp]: "j \<noteq> i \<Longrightarrow> row (pool_write i lo vs p) j = row p j"
  by (simp add: pool_write_def)

lemma shape_write:
  assumes "shape_ok p" and "i < rp_size p" and "lo + length vs \<le> rp_max_context_len p"
  shows "shape_ok (pool_write i lo vs p)"
proof -
  have "length (write_row lo vs (row p i)) = rp_max_context_len p"
    using assms row_length [OF assms(1,2)] by (simp add: write_row_length)
  with assms(1) show ?thesis
    by (auto simp: shape_ok_def pool_write_def dest!: set_update_subset_insert [THEN subsetD])
qed

subsection \<open>What a request holds\<close>

definition held_n :: "nat \<Rightarrow> req_pool \<Rightarrow> 'a kv_req_scheme \<Rightarrow> nat multiset" where
  "held_n n p r = (case kr_req_pool_idx r of None \<Rightarrow> {#}
     | Some x \<Rightarrow> mset (filter (\<lambda>s. s \<noteq> 0) (take n (row p x))))"

abbreviation held :: "req_pool \<Rightarrow> 'a kv_req_scheme \<Rightarrow> nat multiset" where
  "held p r \<equiv> held_n (kr_kv_allocated_len r) p r"

definition row_of :: "'a kv_req_scheme \<Rightarrow> nat multiset" where
  "row_of r = (case kr_req_pool_idx r of None \<Rightarrow> {#} | Some i \<Rightarrow> {#i#})"

text \<open>
  The state of a request that owns a row: lengths in order and in range, not yet released, no
  tombstone unless it streams, none ever beyond the committed prefix.
\<close>

definition req_ok :: "req_pool \<Rightarrow> 'a kv_req_scheme \<Rightarrow> bool" where
  "req_ok p r \<longleftrightarrow> (case kr_req_pool_idx r of None \<Rightarrow> True
     | Some x \<Rightarrow> kr_kv_committed_len r \<le> kr_kv_allocated_len r
        \<and> kr_kv_allocated_len r \<le> rp_max_context_len p
        \<and> \<not> kr_kv_committed_freed r \<and> \<not> kr_kv_overallocated_freed r
        \<and> (\<not> kr_stream_enabled r \<longrightarrow> 0 \<notin> set (take (kr_kv_allocated_len r) (row p x)))
        \<and> 0 \<notin> set (drop (kr_kv_committed_len r) (take (kr_kv_allocated_len r) (row p x))))"

text \<open>A request inside \<open>prepare_for_extend\<close>: it holds its prefix only.\<close>

definition pending_ok :: "req_pool \<Rightarrow> 'a kv_req_scheme \<Rightarrow> bool" where
  "pending_ok p r \<longleftrightarrow> 0 \<notin> set (kr_prefix_indices r)
     \<and> \<not> kr_kv_committed_freed r \<and> \<not> kr_kv_overallocated_freed r
     \<and> length (kr_fill_ids r) \<le> rp_max_context_len p
     \<and> (case kr_req_pool_idx r of None \<Rightarrow> kr_prefix_indices r = []
        | Some x \<Rightarrow> take (length (kr_prefix_indices r)) (row p x) = kr_prefix_indices r)"

abbreviation ids :: "'a heap \<Rightarrow> nat set" where
  "ids h \<equiv> fst ` set h"

definition held_at :: "nat set \<Rightarrow> req_pool \<Rightarrow> nat \<Rightarrow> 'a kv_req_scheme \<Rightarrow> nat multiset" where
  "held_at pend p i r =
     held_n (if i \<in> pend then length (kr_prefix_indices r) else kr_kv_allocated_len r) p r"

text \<open>
  The invariant, with \<open>L\<close> the slots and \<open>X\<close> the rows that an operation under way has taken and
  not yet given to a request, and \<open>pend\<close> the requests of the batch it is still to serve.
\<close>

definition kv_inv ::
    "nat set \<Rightarrow> nat multiset \<Rightarrow> nat multiset \<Rightarrow> 'a kv_req_scheme heap \<Rightarrow> kv_mem \<Rightarrow> bool" where
  "kv_inv pend L X h m \<longleftrightarrow>
     all_free (km_alloc m) + L + (\<Sum>i \<in> ids h. held_at pend (km_pool m) i (obj h i))
       = mset [1..<ka_size (km_alloc m) + 1]
     \<and> mset (rp_free_slots (km_pool m)) + X + (\<Sum>i \<in> ids h. row_of (obj h i))
       = mset [0..<rp_size (km_pool m)]
     \<and> shape_ok (km_pool m)
     \<and> (\<forall>i r. dget h i = Some r \<longrightarrow>
          (if i \<in> pend then pending_ok (km_pool m) r else req_ok (km_pool m) r))"

abbreviation kv_ok :: "'a kv_req_scheme heap \<Rightarrow> kv_mem \<Rightarrow> bool" where
  "kv_ok \<equiv> kv_inv {} {#} {#}"

lemma kv_invD:
  assumes "kv_inv pend L X h m"
  shows "all_free (km_alloc m) + L + (\<Sum>i \<in> ids h. held_at pend (km_pool m) i (obj h i))
       = mset [1..<ka_size (km_alloc m) + 1]"
    and "mset (rp_free_slots (km_pool m)) + X + (\<Sum>i \<in> ids h. row_of (obj h i))
       = mset [0..<rp_size (km_pool m)]"
    and "shape_ok (km_pool m)"
    and "dget h i = Some r \<Longrightarrow> i \<in> pend \<Longrightarrow> pending_ok (km_pool m) r"
    and "dget h i = Some r \<Longrightarrow> i \<notin> pend \<Longrightarrow> req_ok (km_pool m) r"
  using assms unfolding kv_inv_def by (blast, blast, blast, metis, metis)

lemma in_ids: "dget h i = Some r \<Longrightarrow> i \<in> ids h"
  by (metis dget_set fst_conv image_eqI)

lemma ids_dget: "i \<in> ids h \<Longrightarrow> \<exists>r. dget h i = Some r"
  using map_of_eq_None_iff [of h i] by (cases "dget h i") auto

lemma ids_dset: "dget h i = Some r \<Longrightarrow> ids (dset i r' h) = ids h"
  using in_ids [of h i r] by (auto simp: dom_update)

text \<open>Changing what one request contributes to a sum over all of them.\<close>

lemma sum_ids_change:
  fixes f g :: "nat \<Rightarrow> 'b::comm_monoid_add"
  assumes "finite K" and "i \<in> K" and "\<And>j. j \<in> K \<Longrightarrow> j \<noteq> i \<Longrightarrow> g j = f j"
  shows "sum g K + f i = sum f K + g i"
proof -
  have "sum g (K - {i}) = sum f (K - {i})" using assms(3) by (intro sum.cong) auto
  then show ?thesis using sum.remove [OF assms(1,2), of g] sum.remove [OF assms(1,2), of f]
    by (simp add: ac_simps)
qed

lemma balance:
  fixes a b c d s t :: "'b::cancel_comm_monoid_add"
  assumes "a + d = b + c" and "s + c = t + d"
  shows "a + s = b + t"
proof -
  have "(a + s) + (c + d) = (a + d) + (s + c)" by (simp add: ac_simps)
  also have "\<dots> = (b + t) + (c + d)" unfolding assms by (simp add: ac_simps)
  finally show ?thesis by simp
qed

lemma rows_bound:
  assumes "kv_inv pend L X h m" and "dget h i = Some r" and "kr_req_pool_idx r = Some x"
  shows "x < rp_size (km_pool m)"
proof -
  have "(\<Sum>k \<in> ids h. row_of (obj h k)) = row_of r + (\<Sum>k \<in> ids h - {i}. row_of (obj h k))"
    using in_ids [OF assms(2)] assms(2) by (simp add: sum.remove [of _ i])
  then have "x \<in># (\<Sum>k \<in> ids h. row_of (obj h k))" using assms(3) by (simp add: row_of_def)
  then have "x \<in># mset [0..<rp_size (km_pool m)]"
    unfolding kv_invD(2) [OF assms(1), symmetric] by simp
  then show ?thesis by simp
qed

lemma rows_distinct:
  assumes "kv_inv pend L X h m" and "dget h i = Some r" and "dget h j = Some s" and "i \<noteq> j"
    and "kr_req_pool_idx r = Some x" and "kr_req_pool_idx s = Some y"
  shows "x \<noteq> y"
proof
  assume xy: "x = y"
  let ?p = "km_pool m"
  have "(\<Sum>k \<in> ids h. row_of (obj h k)) = row_of r + (row_of s + (\<Sum>k \<in> ids h - {i} - {j}. row_of (obj h k)))"
    using in_ids [OF assms(2)] in_ids [OF assms(3)] assms(2,3,4)
    by (simp add: sum.remove [of _ i] sum.remove [of _ j])
  then have "count (\<Sum>k \<in> ids h. row_of (obj h k)) x \<ge> 2" using assms(5,6) xy by (simp add: row_of_def)
  moreover have "count (mset [0..<rp_size ?p]) x \<le> 1"
    using distinct_count_atmost_1 [of "[0..<rp_size ?p]"] by (auto simp: le_Suc_eq)
  moreover have "count (mset (rp_free_slots ?p)) x + count X x + count (\<Sum>k \<in> ids h. row_of (obj h k)) x
      = count (mset [0..<rp_size ?p]) x" unfolding kv_invD(2) [OF assms(1), symmetric] by simp
  ultimately show False by linarith
qed

lemma row_free_or_limbo:
  assumes "kv_inv pend L X h m" and "x \<in># X" and "dget h i = Some r"
  shows "kr_req_pool_idx r \<noteq> Some x"
proof
  assume x: "kr_req_pool_idx r = Some x"
  have "(\<Sum>k \<in> ids h. row_of (obj h k)) = row_of r + (\<Sum>k \<in> ids h - {i}. row_of (obj h k))"
    using in_ids [OF assms(3)] assms(3) by (simp add: sum.remove [of _ i])
  then have "count (\<Sum>k \<in> ids h. row_of (obj h k)) x \<ge> 1" using x by (simp add: row_of_def)
  moreover have "count X x \<ge> 1" using assms(2) by simp
  moreover have "count (mset [0..<rp_size (km_pool m)]) x \<le> 1"
    using distinct_count_atmost_1 [of "[0..<rp_size (km_pool m)]"] by (auto simp: le_Suc_eq)
  moreover have "count (mset (rp_free_slots (km_pool m))) x + count X x
        + count (\<Sum>k \<in> ids h. row_of (obj h k)) x = count (mset [0..<rp_size (km_pool m)]) x"
    unfolding kv_invD(2) [OF assms(1), symmetric] by simp
  ultimately show False by linarith
qed

text \<open>
  The step lemma: an operation that changes one request, touches no row of another and keeps
  the two balances keeps the invariant.
\<close>

lemma kv_inv_update:
  assumes inv: "kv_inv pend L X h m" and r: "dget h i = Some r" and pend: "pend' - {i} = pend - {i}"
    and slots: "all_free (km_alloc m') + L' + held_at pend' (km_pool m') i r'
        = all_free (km_alloc m) + L + held_at pend (km_pool m) i r"
    and rows: "mset (rp_free_slots (km_pool m')) + X' + row_of r' = mset (rp_free_slots (km_pool m)) + X + row_of r"
    and same: "ka_size (km_alloc m') = ka_size (km_alloc m)" "rp_size (km_pool m') = rp_size (km_pool m)"
        "rp_max_context_len (km_pool m') = rp_max_context_len (km_pool m)" "shape_ok (km_pool m')"
    and others: "\<And>j s x. j \<noteq> i \<Longrightarrow> dget h j = Some s \<Longrightarrow> kr_req_pool_idx s = Some x \<Longrightarrow>
        row (km_pool m') x = row (km_pool m) x"
    and own: "if i \<in> pend' then pending_ok (km_pool m') r' else req_ok (km_pool m') r'"
  shows "kv_inv pend' L' X' (dset i r' h) m'"
proof -
  let ?p = "km_pool m" and ?p' = "km_pool m'" and ?h = "dset i r' h"
  have mem: "j \<in> pend' \<longleftrightarrow> j \<in> pend" if "j \<noteq> i" for j using pend that by blast
  have held: "held_at pend' ?p' j s = held_at pend ?p j s" if "j \<noteq> i" "dget h j = Some s" for j s
    using others [OF that] mem [OF that(1)] by (auto simp: held_at_def held_n_def split: option.splits)
  have okj: "if j \<in> pend' then pending_ok ?p' s else req_ok ?p' s" if "j \<noteq> i" "dget h j = Some s" for j s
    using others [OF that] mem [OF that(1)] kv_invD(4,5) [OF inv that(2)] same(3)
    by (auto simp: pending_ok_def req_ok_def split: option.splits)
  have K: "ids ?h = ids h" "finite (ids h)" "i \<in> ids h" using ids_dset [OF r] in_ids [OF r] by auto
  have "held_at pend' ?p' j (obj ?h j) = held_at pend ?p j (obj h j)" if "j \<in> ids h" "j \<noteq> i" for j
    using ids_dget [OF that(1)] held [OF that(2)] that(2) by auto
  then have "(\<Sum>j \<in> ids h. held_at pend' ?p' j (obj ?h j)) + held_at pend ?p i (obj h i)
      = (\<Sum>j \<in> ids h. held_at pend ?p j (obj h j)) + held_at pend' ?p' i (obj ?h i)"
    by (rule sum_ids_change [OF K(2,3)])
  from balance [OF slots, of "\<Sum>j \<in> ids h. held_at pend' ?p' j (obj ?h j)"] this r
  have s: "all_free (km_alloc m') + L' + (\<Sum>j \<in> ids h. held_at pend' ?p' j (obj ?h j))
      = mset [1..<ka_size (km_alloc m) + 1]"
    unfolding kv_invD(1) [OF inv, symmetric] by simp
  have "row_of (obj ?h j) = row_of (obj h j)" if "j \<in> ids h" "j \<noteq> i" for j using that(2) by simp
  then have "(\<Sum>j \<in> ids h. row_of (obj ?h j)) + row_of (obj h i)
      = (\<Sum>j \<in> ids h. row_of (obj h j)) + row_of (obj ?h i)" by (rule sum_ids_change [OF K(2,3)])
  from balance [OF rows, of "\<Sum>j \<in> ids h. row_of (obj ?h j)"] this r
  have t: "mset (rp_free_slots ?p') + X' + (\<Sum>j \<in> ids h. row_of (obj ?h j))
      = mset [0..<rp_size ?p]" unfolding kv_invD(2) [OF inv, symmetric] by simp
  have "\<forall>j s. dget ?h j = Some s \<longrightarrow> (if j \<in> pend' then pending_ok ?p' s else req_ok ?p' s)"
    using okj own by auto
  then show ?thesis unfolding kv_inv_def K(1) using s t same by simp
qed

text \<open>An operation that only moves slots between the free list and the limbo.\<close>

lemma kv_inv_alloc:
  assumes "kv_inv pend L X h m" and "all_free a + L' = all_free (km_alloc m) + L"
    and "ka_size a = ka_size (km_alloc m)"
  shows "kv_inv pend L' X h (m\<lparr>km_alloc := a\<rparr>)"
  using assms unfolding kv_inv_def by simp

lemma free_slots_indep [simp]:
  "held_n n (p\<lparr>rp_free_slots := fs\<rparr>) r = held_n n p r"
  "held_at pend (p\<lparr>rp_free_slots := fs\<rparr>) i r = held_at pend p i r"
  "req_ok (p\<lparr>rp_free_slots := fs\<rparr>) r = req_ok p r"
  "pending_ok (p\<lparr>rp_free_slots := fs\<rparr>) r = pending_ok p r"
  "shape_ok (p\<lparr>rp_free_slots := fs\<rparr>) = shape_ok p"
  by (simp_all add: held_at_def held_n_def req_ok_def pending_ok_def shape_ok_def split: option.split)

lemma kv_inv_rows:
  assumes "kv_inv pend L X h m" and "mset fs + X' = mset (rp_free_slots (km_pool m)) + X"
  shows "kv_inv pend L X' h (m\<lparr>km_pool := (km_pool m)\<lparr>rp_free_slots := fs\<rparr>\<rparr>)"
  using assms unfolding kv_inv_def by simp

lemma alloc_token_slots_inv:
  assumes "kv_inv pend L X h m" and "alloc_token_slots n m = Inr (out, m')"
  shows "kv_inv pend (L + mset out) X h m'" and "length out = n" and "km_pool m' = km_pool m"
proof -
  obtain a where a: "kv_alloc n (km_alloc m) = (Some out, a)" "m' = m\<lparr>km_alloc := a\<rparr>"
    using assms(2) by (auto simp: alloc_token_slots_def split: prod.splits option.splits)
  note al = alloc_splits [OF a(1)]
  show "kv_inv pend (L + mset out) X h m'"
    unfolding a(2) by (rule kv_inv_alloc [OF assms(1)]) (simp_all add: al ac_simps)
  show "length out = n" "km_pool m' = km_pool m" using a(2) al by auto
qed

text \<open>Slots in the limbo are real slots.\<close>

lemma limbo_nonzero:
  assumes "kv_inv pend L X h m"
  shows "0 \<notin># L"
proof
  assume "0 \<in># L"
  then have "0 \<in># mset [1..<ka_size (km_alloc m) + 1]"
    unfolding kv_invD(1) [OF assms, symmetric] by simp
  then have "0 \<in> set [1..<ka_size (km_alloc m) + 1]" by (simp only: set_mset_mset)
  then show False by (auto simp del: upt_Suc)
qed


subsection \<open>Prefill\<close>

lemma assign_rows_inv:
  assumes "kv_inv pend L (mset sel) h m" and "set bs \<subseteq> pend" and "distinct bs"
    and "\<forall>i \<in> set bs. dget h i \<noteq> None"
    and "length sel = length (filter (\<lambda>i. kr_req_pool_idx (obj h i) = None) bs)"
  shows "kv_inv pend L {#} (assign_rows bs sel h) m"
  using assms
proof (induction bs arbitrary: sel h)
  case (Cons i bs)
  obtain r where r: "dget h i = Some r" using Cons.prems(4) by auto
  have i: "i \<in> pend" using Cons.prems(2) by simp
  show ?case
  proof (cases "kr_req_pool_idx r")
    case (Some x)
    with Cons r show ?thesis by auto
  next
    case None
    with Cons.prems(5) r obtain x sel' where sel: "sel = x # sel'" by (cases sel) auto
    let ?r = "r\<lparr>kr_req_pool_idx := Some x\<rparr>" and ?h = "dset i (r\<lparr>kr_req_pool_idx := Some x\<rparr>) h"
    have pk: "pending_ok (km_pool m) r" by (rule kv_invD(4) [OF Cons.prems(1) r i])
    then have pre: "kr_prefix_indices r = []" using None by (simp add: pending_ok_def)
    have inv: "kv_inv pend L (mset sel') ?h m"
      by (rule kv_inv_update [OF Cons.prems(1) r])
        (use pk pre None i kv_invD(3) [OF Cons.prems(1)] in
          \<open>simp_all add: sel held_at_def held_n_def row_of_def pending_ok_def\<close>)
    have obj: "obj ?h j = obj h j" if "j \<in> set bs" for j using that Cons.prems(3) by auto
    have "filter (\<lambda>j. kr_req_pool_idx (obj ?h j) = None) bs = filter (\<lambda>j. kr_req_pool_idx (obj h j) = None) bs"
      using obj by (intro filter_cong) auto
    then have "kv_inv pend L {#} (assign_rows bs sel' ?h) m"
      using Cons.prems None r sel by (intro Cons.IH [OF inv]) auto
    then show ?thesis using None r sel by simp
  qed
qed simp

lemma assign_rows_ids: "dget h j \<noteq> None \<Longrightarrow> dget (assign_rows bs sel h) j \<noteq> None"
  by (induction bs sel h rule: assign_rows.induct) (auto split: option.splits)

lemma assign_rows_fields:
  assumes "distinct bs" and "\<forall>i \<in> set bs. dget h i \<noteq> None" and "dget h j = Some r"
  shows "\<exists>x. dget (assign_rows bs sel h) j = Some (r\<lparr>kr_req_pool_idx := x\<rparr>)
    \<and> (j \<in> set bs \<longrightarrow> x \<noteq> None) \<and> (j \<notin> set bs \<or> kr_req_pool_idx r \<noteq> None \<longrightarrow> x = kr_req_pool_idx r)"
  using assms
proof (induction bs arbitrary: sel h r)
  case Nil
  then show ?case by (intro exI [of _ "kr_req_pool_idx r"]) simp
next
  case (Cons i bs)
  obtain s where s: "dget h i = Some s" using Cons.prems(2) by auto
  show ?case
  proof (cases "kr_req_pool_idx s")
    case (Some x)
    with s have "assign_rows (i # bs) sel h = assign_rows bs sel h" by simp
    with Cons.IH [of h r sel] Cons.prems s Some show ?thesis by auto
  next
    case None
    let ?h = "dset i (s\<lparr>kr_req_pool_idx := Some (hd sel)\<rparr>) h"
    have eq: "assign_rows (i # bs) sel h = assign_rows bs (tl sel) ?h" using None s by simp
    show ?thesis
    proof (cases "j = i")
      case True
      then have "dget ?h j = Some (r\<lparr>kr_req_pool_idx := Some (hd sel)\<rparr>)" using s Cons.prems(3) by simp
      from Cons.IH [OF _ _ this, of "tl sel"] Cons.prems True show ?thesis unfolding eq
        using None s by auto
    next
      case False
      then have "dget ?h j = Some r" using Cons.prems(3) by simp
      from Cons.IH [OF _ _ this, of "tl sel"] Cons.prems False show ?thesis unfolding eq by auto
    qed
  qed
qed

lemma extend_loop_inv:
  assumes "extend_loop bs out h (km_pool m) = Inr (h', p')"
    and "kv_inv (set bs) (mset out) {#} h m" and "distinct bs"
    and "\<forall>i \<in> set bs. \<exists>r. dget h i = Some r \<and> kr_req_pool_idx r \<noteq> None"
    and "length out = sum_list (map (\<lambda>i. length (kr_fill_ids (obj h i)) - length (kr_prefix_indices (obj h i))) bs)"
  shows "kv_ok h' (m\<lparr>km_pool := p'\<rparr>)"
  using assms
proof (induction bs arbitrary: out h m)
  case Nil
  then show ?case by auto
next
  case (Cons i bs)
  obtain r x where r: "dget h i = Some r" and x: "kr_req_pool_idx r = Some x"
    using Cons.prems(4) by auto
  define pre ext seq where "pre = length (kr_prefix_indices r)" and "ext = kr_extend_input_len r"
    and "seq = length (kr_fill_ids r)"
  let ?p = "km_pool m"
  define p2 where "p2 = pool_write x pre (take ext out) (pool_write x 0 (kr_prefix_indices r) ?p)"
  define r' where "r' = r\<lparr>kr_kv_committed_len := seq, kr_kv_allocated_len := seq\<rparr>"
  let ?m = "m\<lparr>km_pool := p2\<rparr>"
  have eq: "seq = pre + ext" and rest: "extend_loop bs (drop ext out) (dset i r' h) p2 = Inr (h', p')"
    using Cons.prems(1) r x
    by (auto simp: Let_def p2_def r'_def pre_def ext_def seq_def split: if_splits)
  have pk: "pending_ok ?p r" by (rule kv_invD(4) [OF Cons.prems(2) r]) simp
  have xb: "x < rp_size ?p" by (rule rows_bound [OF Cons.prems(2) r x])
  note sh = kv_invD(3) [OF Cons.prems(2)]
  have len: "seq \<le> length (row ?p x)" using pk row_length [OF sh xb] by (simp add: pending_ok_def seq_def)
  have out: "ext \<le> length out" using Cons.prems(5) r eq by (simp add: pre_def ext_def seq_def)
  have w1: "row (pool_write x 0 (kr_prefix_indices r) ?p) x = write_row 0 (kr_prefix_indices r) (row ?p x)"
    using sh xb by (simp add: pool_write_row shape_ok_def)
  have sh1: "shape_ok (pool_write x 0 (kr_prefix_indices r) ?p)"
    using shape_write [OF sh xb, of 0] pk eq by (simp add: pending_ok_def seq_def pre_def)
  have sh2: "shape_ok p2" unfolding p2_def using shape_write [OF sh1] pk eq xb out
    by (simp add: pending_ok_def seq_def [symmetric])
  have "row p2 x = write_row pre (take ext out) (write_row 0 (kr_prefix_indices r) (row ?p x))"
    using sh1 xb w1 by (simp add: p2_def pool_write_row shape_ok_def)
  moreover have "take pre (write_row 0 (kr_prefix_indices r) (row ?p x)) = kr_prefix_indices r"
    by (simp add: write_row_def pre_def)
  moreover have "length (write_row 0 (kr_prefix_indices r) (row ?p x)) = length (row ?p x)"
    using len eq by (intro write_row_length) (simp add: pre_def)
  ultimately have row2: "take seq (row p2 x) = kr_prefix_indices r @ take ext out"
    using take_write_row [of pre "take ext out" "write_row 0 (kr_prefix_indices r) (row ?p x)"] len eq out
    by simp
  have nz: "0 \<notin> set (take ext out)"
    using limbo_nonzero [OF Cons.prems(2)] by (auto dest: in_set_takeD)
  have nz0: "0 \<notin> set (kr_prefix_indices r)" using pk by (simp add: pending_ok_def)
  have f: "filter (\<lambda>s. s \<noteq> 0) xs = xs" if "0 \<notin> set xs" for xs :: "nat list"
    using that by (intro filter_True) (metis)
  have hold: "held_at (set bs) p2 i r' = mset (kr_prefix_indices r) + mset (take ext out)"
    using Cons.prems(3) x row2 f [OF nz] f [OF nz0] by (simp add: held_at_def held_n_def r'_def)
  have holdo: "held_at (set (i # bs)) ?p i r = mset (kr_prefix_indices r)"
    using pk x f [OF nz0] by (simp add: held_at_def held_n_def pending_ok_def)
  have split: "mset out = mset (take ext out) + mset (drop ext out)"
    by (metis append_take_drop_id mset_append)
  have own: "req_ok p2 r'"
    using x pk row2 nz nz0
    by (auto simp: req_ok_def pending_ok_def r'_def seq_def p2_def dest: in_set_dropD)
  have others: "row p2 y = row ?p y" if "j \<noteq> i" "dget h j = Some s" "kr_req_pool_idx s = Some y" for j s y
    using rows_distinct [OF Cons.prems(2) r that(2) _ x that(3)] that(1) by (simp add: p2_def)
  have inv: "kv_inv (set bs) (mset (drop ext out)) {#} (dset i r' h) ?m"
    by (rule kv_inv_update [OF Cons.prems(2) r])
      (use Cons.prems(3) hold holdo split sh2 own others x in
        \<open>simp_all add: ac_simps row_of_def r'_def p2_def\<close>)
  have ob: "obj (dset i r' h) j = obj h j" if "j \<in> set bs" for j using that Cons.prems(3) by auto
  have "kv_ok h' (?m\<lparr>km_pool := p'\<rparr>)"
  proof (rule Cons.IH [OF _ inv])
    show "extend_loop bs (drop ext out) (dset i r' h) (km_pool ?m) = Inr (h', p')" using rest by simp
    show "\<forall>j \<in> set bs. \<exists>r. dget (dset i r' h) j = Some r \<and> kr_req_pool_idx r \<noteq> None"
      using Cons.prems(3,4) by auto
    have "sum_list (map (\<lambda>j. length (kr_fill_ids (obj (dset i r' h) j)) - length (kr_prefix_indices (obj (dset i r' h) j))) bs)
        = sum_list (map (\<lambda>j. length (kr_fill_ids (obj h j)) - length (kr_prefix_indices (obj h j))) bs)"
      using ob by (intro arg_cong [where f = sum_list] map_cong) auto
    then show "length (drop ext out) = sum_list (map (\<lambda>j. length (kr_fill_ids (obj (dset i r' h) j))
        - length (kr_prefix_indices (obj (dset i r' h) j))) bs)"
      using Cons.prems(5) r eq by (simp add: pre_def ext_def seq_def)
  qed (use Cons.prems(3) in simp)
  then show ?case by simp
qed


text \<open>What the scheduler owes for a prefill batch: fresh requests, or chunked ones that hold exactly their prefix.\<close>

definition ready :: "req_pool \<Rightarrow> 'a kv_req_scheme \<Rightarrow> bool" where
  "ready p r \<longleftrightarrow> pending_ok p r
     \<and> (kr_req_pool_idx r \<noteq> None \<longrightarrow> kr_kv_allocated_len r = length (kr_prefix_indices r))"

lemma pend_start:
  assumes "kv_ok h m" and "\<And>i r. i \<in> set bs \<Longrightarrow> dget h i = Some r \<Longrightarrow> ready (km_pool m) r"
  shows "kv_inv (set bs) {#} {#} h m"
proof -
  have "held_at (set bs) (km_pool m) i (obj h i) = held_at {} (km_pool m) i (obj h i)"
    if i: "i \<in> ids h" for i
  proof -
    obtain r where r: "dget h i = Some r" using ids_dget [OF i] by blast
    show ?thesis
    proof (cases "i \<in> set bs")
      case True
      from assms(2) [OF this r] r show ?thesis
        by (cases "kr_req_pool_idx r") (simp_all add: held_at_def held_n_def ready_def)
    qed (simp add: held_at_def)
  qed
  then have "(\<Sum>i \<in> ids h. held_at (set bs) (km_pool m) i (obj h i))
      = (\<Sum>i \<in> ids h. held_at {} (km_pool m) i (obj h i))" by (intro sum.cong) auto
  moreover have "if i \<in> set bs then pending_ok (km_pool m) r else req_ok (km_pool m) r"
    if "dget h i = Some r" for i r
    using assms(2) [OF _ that] kv_invD(5) [OF assms(1) that] by (simp add: ready_def)
  ultimately show ?thesis using kv_invD(1,2,3) [OF assms(1)] unfolding kv_inv_def by simp
qed

lemma alloc_req_slots_inv:
  assumes "alloc_req_slots bs h m = Inr (h', m')" and "kv_inv (set bs) L {#} h m" and "distinct bs"
    and "\<forall>i \<in> set bs. dget h i \<noteq> None"
  shows "kv_inv (set bs) L {#} h' m'"
    and "dget h i = Some r \<Longrightarrow> \<exists>x. dget h' i = Some (r\<lparr>kr_req_pool_idx := x\<rparr>) \<and> (i \<in> set bs \<longrightarrow> x \<noteq> None)"
proof -
  let ?P = "\<lambda>i. \<not> (kr_req_pool_idx (obj h i) \<noteq> None \<and> kr_is_draft (obj h i))"
  define need where "need = filter ?P bs"
  have sub: "set need \<subseteq> set bs" "distinct need" "\<forall>i \<in> set need. dget h i \<noteq> None"
    using assms(3,4) by (auto simp: need_def)
  have kept: "kr_req_pool_idx r \<noteq> None" if "dget h i = Some r" "i \<in> set bs" "i \<notin> set need" for i r
    using that by (auto simp: need_def)
  show "kv_inv (set bs) L {#} h' m'"
    and "dget h i = Some r \<Longrightarrow> \<exists>x. dget h' i = Some (r\<lparr>kr_req_pool_idx := x\<rparr>) \<and> (i \<in> set bs \<longrightarrow> x \<noteq> None)"
  proof (atomize (full), cases "need = []")
    case True
    then have "h' = h" "m' = m" using assms(1)
      unfolding alloc_req_slots_def Let_def need_def [symmetric] by simp_all
    moreover have "\<exists>x. Some r = Some (r\<lparr>kr_req_pool_idx := x\<rparr>) \<and> (i \<in> set bs \<longrightarrow> x \<noteq> None)"
      if "dget h i = Some r"
      using kept [OF that] True by (intro exI [of _ "kr_req_pool_idx r"]) auto
    ultimately show "kv_inv (set bs) L {#} h' m'
      \<and> (dget h i = Some r \<longrightarrow> (\<exists>x. dget h' i = Some (r\<lparr>kr_req_pool_idx := x\<rparr>) \<and> (i \<in> set bs \<longrightarrow> x \<noteq> None)))"
      using assms(2) by auto
  next
    case False
    define k where "k = length need - length (filter (\<lambda>i. kr_req_pool_idx (obj h i) \<noteq> None) need)"
    let ?fs = "rp_free_slots (km_pool m)"
    from assms(1) False have fs: "k \<le> length ?fs" "h' = assign_rows need (take k ?fs) h"
      "m' = m\<lparr>km_pool := (km_pool m)\<lparr>rp_free_slots := drop k ?fs\<rparr>\<rparr>"
      unfolding alloc_req_slots_def req_pool_alloc_def Let_def need_def [symmetric] k_def [symmetric]
      by (auto simp: rbind_Inr_iff split: if_splits)
    have k: "k = length (filter (\<lambda>i. kr_req_pool_idx (obj h i) = None) need)"
      using sum_length_filter_compl [of "\<lambda>i. kr_req_pool_idx (obj h i) = None" need]
      by (simp add: k_def)
    have ms: "mset ?fs = mset (take k ?fs) + mset (drop k ?fs)" by (metis append_take_drop_id mset_append)
    have "kv_inv (set bs) L (mset (take k ?fs)) h m'"
      unfolding fs(3) by (rule kv_inv_rows [OF assms(2)]) (simp add: ms ac_simps)
    from assign_rows_inv [OF this sub] fs k have "kv_inv (set bs) L {#} h' m'" by simp
    moreover have "\<exists>x. dget h' i = Some (r\<lparr>kr_req_pool_idx := x\<rparr>) \<and> (i \<in> set bs \<longrightarrow> x \<noteq> None)"
      if "dget h i = Some r"
      using assign_rows_fields [OF sub(2,3) that, of "take k ?fs"] kept [OF that] unfolding fs(2) by blast
    ultimately show "kv_inv (set bs) L {#} h' m'
      \<and> (dget h i = Some r \<longrightarrow> (\<exists>x. dget h' i = Some (r\<lparr>kr_req_pool_idx := x\<rparr>) \<and> (i \<in> set bs \<longrightarrow> x \<noteq> None)))"
      by blast
  qed
qed

lemma prepare_for_extend_ok:
  assumes run: "prepare_for_extend bs h m = Inr (h', m')" and ok: "kv_ok h m" and d: "distinct bs"
    and bs: "\<forall>i \<in> set bs. \<exists>r. dget h i = Some r \<and> ready (km_pool m) r"
  shows "kv_ok h' m'"
proof -
  let ?n = "sum_list (map (\<lambda>i. length (drop (length (kr_prefix_indices (obj h i))) (kr_fill_ids (obj h i)))) bs)"
  obtain h1 m1 out m2 p3 where
      s1: "alloc_req_slots bs h m = Inr (h1, m1)" and s2: "alloc_token_slots ?n m1 = Inr (out, m2)"
    and s3: "extend_loop bs out h1 (km_pool m2) = Inr (h', p3)" and m': "m' = m2\<lparr>km_pool := p3\<rparr>"
    using run unfolding prepare_for_extend_def by (auto simp: rbind_Inr_iff split: prod.splits)
  have ex: "\<forall>i \<in> set bs. dget h i \<noteq> None" using bs by auto
  have "kv_inv (set bs) {#} {#} h m" using pend_start [OF ok] bs by fastforce
  note i1 = alloc_req_slots_inv [OF s1 this d ex]
  note i2 = alloc_token_slots_inv [OF i1(1) s2]
  have fields: "\<exists>r1. dget h1 i = Some r1 \<and> kr_req_pool_idx r1 \<noteq> None \<and> kr_fill_ids r1 = kr_fill_ids (obj h i)
      \<and> kr_prefix_indices r1 = kr_prefix_indices (obj h i)" if "i \<in> set bs" for i
    using bs that i1(2) [of i] by fastforce
  have "map (\<lambda>i. length (drop (length (kr_prefix_indices (obj h i))) (kr_fill_ids (obj h i)))) bs
      = map (\<lambda>i. length (kr_fill_ids (obj h1 i)) - length (kr_prefix_indices (obj h1 i))) bs"
    by (rule map_cong [OF refl]) (use fields in fastforce)
  then have "length out = sum_list (map (\<lambda>i. length (kr_fill_ids (obj h1 i)) - length (kr_prefix_indices (obj h1 i))) bs)"
    unfolding i2(2) by (rule arg_cong)
  moreover have "\<forall>i \<in> set bs. \<exists>r. dget h1 i = Some r \<and> kr_req_pool_idx r \<noteq> None" using fields by blast
  ultimately show ?thesis using i2(1) unfolding m' by (intro extend_loop_inv [OF s3 _ d]) auto
qed


subsection \<open>Decode, rollback, release and tombstones\<close>

lemma decode_loop_inv:
  assumes "decode_loop bs out h (km_pool m) = (h', p')"
    and "kv_inv {} (mset out) {#} h m" and "distinct bs" and "length out = length bs"
    and "\<forall>i \<in> set bs. \<exists>r. dget h i = Some r \<and> kr_req_pool_idx r \<noteq> None
        \<and> kr_kv_committed_len r = kr_kv_allocated_len r
        \<and> kr_kv_allocated_len r < rp_max_context_len (km_pool m)"
  shows "kv_ok h' (m\<lparr>km_pool := p'\<rparr>)"
  using assms
proof (induction bs arbitrary: out h m)
  case Nil
  then show ?case by auto
next
  case (Cons i bs)
  obtain r x where r: "dget h i = Some r" and x: "kr_req_pool_idx r = Some x"
    and n: "kr_kv_committed_len r = kr_kv_allocated_len r"
      "kr_kv_allocated_len r < rp_max_context_len (km_pool m)" using Cons.prems(5) by auto
  obtain v vs where out: "out = v # vs" using Cons.prems(4) by (cases out) auto
  let ?p = "km_pool m" and ?n = "kr_kv_allocated_len r"
  define p2 where "p2 = pool_write x ?n [v] ?p"
  define r' where "r' = r\<lparr>kr_kv_committed_len := ?n + 1, kr_kv_allocated_len := ?n + 1\<rparr>"
  let ?m = "m\<lparr>km_pool := p2\<rparr>"
  have rest: "decode_loop bs vs (dset i r' h) p2 = (h', p')"
    using Cons.prems(1) r x n(1) out by (simp add: Let_def p2_def r'_def)
  note sh = kv_invD(3) [OF Cons.prems(2)] and ok = kv_invD(5) [OF Cons.prems(2) r]
  have xb: "x < rp_size ?p" by (rule rows_bound [OF Cons.prems(2) r x])
  have sh2: "shape_ok p2" unfolding p2_def using shape_write [OF sh xb] n(2) by simp
  have "row p2 x = write_row ?n [v] (row ?p x)" using sh xb by (simp add: p2_def pool_write_row shape_ok_def)
  then have row2: "take (Suc ?n) (row p2 x) = take ?n (row ?p x) @ [v]"
    using take_write_row [of ?n "[v]" "row ?p x"] n(2) row_length [OF sh xb] by simp
  have v: "v \<noteq> 0" using limbo_nonzero [OF Cons.prems(2)] out by auto
  have hold: "held_at {} p2 i r' = held_at {} ?p i r + {#v#}"
    using x row2 v by (simp add: held_at_def held_n_def r'_def)
  have own: "req_ok p2 r'"
    using x ok row2 v n by (simp add: req_ok_def r'_def p2_def)
  have others: "row p2 y = row ?p y" if "j \<noteq> i" "dget h j = Some s" "kr_req_pool_idx s = Some y" for j s y
    using rows_distinct [OF Cons.prems(2) r that(2) _ x that(3)] that(1) by (simp add: p2_def)
  have inv: "kv_inv {} (mset vs) {#} (dset i r' h) ?m"
    by (rule kv_inv_update [OF Cons.prems(2) r])
      (use hold sh2 own others out x in \<open>simp_all add: ac_simps row_of_def r'_def p2_def\<close>)
  have "\<forall>j \<in> set bs. \<exists>s. dget (dset i r' h) j = Some s \<and> kr_req_pool_idx s \<noteq> None
      \<and> kr_kv_committed_len s = kr_kv_allocated_len s \<and> kr_kv_allocated_len s < rp_max_context_len (km_pool ?m)"
    using Cons.prems(3,5) by (auto simp: p2_def)
  with Cons.IH [OF _ inv] rest Cons.prems(3,4) out have "kv_ok h' (?m\<lparr>km_pool := p'\<rparr>)" by simp
  then show ?case by simp
qed

lemma prepare_for_decode_cases:
  assumes "prepare_for_decode spec_none bs h m = Inr (h', m')"
  obtains "\<not> spec_none" "h' = h" "m' = m"
  | out m1 p' where "alloc_token_slots (length bs) m = Inr (out, m1)"
      "decode_loop bs out h (km_pool m1) = (h', p')" "m' = m1\<lparr>km_pool := p'\<rparr>"
proof (cases spec_none)
  case True
  then obtain out m1 where a: "alloc_token_slots (length bs) m = Inr (out, m1)"
    using assms by (auto simp: prepare_for_decode_def rbind_Inr_iff)
  with True assms that(2) [OF a] show thesis
    by (cases "decode_loop bs out h (km_pool m1)") (simp add: prepare_for_decode_def)
qed (use assms that(1) in \<open>simp add: prepare_for_decode_def\<close>)

lemma prepare_for_decode_ok:
  assumes run: "prepare_for_decode spec_none bs h m = Inr (h', m')" and ok: "kv_ok h m" and d: "distinct bs"
    and bs: "\<forall>i \<in> set bs. \<exists>r. dget h i = Some r \<and> kr_req_pool_idx r \<noteq> None
        \<and> kr_kv_committed_len r = kr_kv_allocated_len r
        \<and> kr_kv_allocated_len r < rp_max_context_len (km_pool m)"
  shows "kv_ok h' m'"
  using run
proof (cases rule: prepare_for_decode_cases)
  case 1
  with ok show ?thesis by simp
next
  case (2 out m1 p')
  note al = alloc_token_slots_inv [OF ok 2(1)]
  from decode_loop_inv [OF 2(2) _ d] al bs 2(3) show ?thesis by simp
qed

text \<open>The slots in a range of a row that has no tombstone there.\<close>

lemma take_split: "lo \<le> hi \<Longrightarrow> take hi xs = take lo xs @ drop lo (take hi xs)"
  by (metis append_take_drop_id min.absorb1 take_take)

lemma mset_range:
  assumes "lo \<le> hi" and "0 \<notin> set (drop lo (take hi xs))"
  shows "mset (filter (\<lambda>s. s \<noteq> (0::nat)) (take hi xs))
    = mset (filter (\<lambda>s. s \<noteq> 0) (take lo xs)) + mset (drop lo (take hi xs))"
proof -
  have f: "filter (\<lambda>s. s \<noteq> 0) (drop lo (take hi xs)) = drop lo (take hi xs)"
    using assms(2) by (intro filter_True) metis
  show ?thesis by (subst take_split [OF assms(1)]) (simp only: filter_append mset_append f)
qed

lemma local_rollback_ok:
  assumes run: "local_rollback ps r fork cur m = (True, r', m')" and ok: "kv_ok h m"
    and r: "dget h i = Some r" and len: "int (kr_kv_allocated_len r) = cur" and ns: "\<not> kr_stream_enabled r"
  shows "kv_ok (dset i r' h) m'"
    and "all_free (km_alloc m') = all_free (km_alloc m)
      + mset (pool_read (the (kr_req_pool_idx r)) (nat fork) (kr_kv_allocated_len r) (km_pool m))"
    and "kr_kv_allocated_len r' = nat fork"
proof -
  let ?p = "km_pool m" and ?n = "kr_kv_allocated_len r"
  obtain x where x: "kr_req_pool_idx r = Some x"
    using run by (cases "kr_req_pool_idx r") (auto simp: local_rollback_def split: if_splits)
  note rk = kv_invD(5) [OF ok r] and sh = kv_invD(3) [OF ok]
  have max: "?n \<le> rp_max_context_len ?p" using rk x by (simp add: req_ok_def)
  have g: "get_prefix_len r \<le> fork" "fork < cur" using run x by (auto simp: local_rollback_def Let_def split: if_splits)
  then have fork: "0 \<le> fork" "nat fork < ?n" using len by (auto simp: get_prefix_len_def)
  have mn: "min fork (int (rp_max_context_len ?p)) = fork" "min cur (int (rp_max_context_len ?p)) = cur"
    using max len g(2) by auto
  have eqs: "r' = r\<lparr>kr_kv_committed_len := nat fork, kr_kv_allocated_len := nat fork\<rparr>"
    "m' = m\<lparr>km_alloc := kv_free (pool_read x (nat fork) ?n ?p) (km_alloc m)\<rparr>"
    using run x g mn len by (auto simp: local_rollback_def Let_def split: if_splits)
  have nz: "0 \<notin> set (take ?n (row ?p x))" using rk x ns by (simp add: req_ok_def)
  then have "0 \<notin> set (drop (nat fork) (take ?n (row ?p x)))" by (meson in_set_dropD)
  from mset_range [OF less_imp_le [OF fork(2)] this]
  have bal: "held ?p r = held ?p r' + mset (pool_read x (nat fork) ?n ?p)"
    using x by (simp add: held_n_def eqs(1) pool_read_def)
  have "take (nat fork) (row ?p x) = take (nat fork) (take ?n (row ?p x))" using fork(2) by (simp add: min_def)
  then have nz': "0 \<notin> set (take (nat fork) (row ?p x))" using nz by (metis in_set_takeD)
  show "kv_ok (dset i r' h) m'"
    by (rule kv_inv_update [OF ok r])
      (use bal sh x rk nz' fork(2) in \<open>simp_all add: eqs held_at_def row_of_def req_ok_def ac_simps\<close>)
  show "all_free (km_alloc m') = all_free (km_alloc m)
      + mset (pool_read (the (kr_req_pool_idx r)) (nat fork) (kr_kv_allocated_len r) (km_pool m))"
    "kr_kv_allocated_len r' = nat fork"
    using x by (simp_all add: eqs)
qed

lemma release_kv_cache_ok:
  assumes ok: "kv_ok h m" and r: "dget h i = Some r" and x: "kr_req_pool_idx r = Some x"
    and spec: "spec \<or> kr_kv_committed_len r = kr_kv_allocated_len r"
  shows "\<exists>r' m'. release_kv_cache spec r m = Inr (r', m') \<and> kv_ok (dset i r' h) m'
    \<and> kr_req_pool_idx r' = None
    \<and> all_free (km_alloc m') = all_free (km_alloc m) + held (km_pool m) r"
proof -
  let ?p = "km_pool m" and ?c = "kr_kv_committed_len r" and ?n = "kr_kv_allocated_len r"
  let ?xs = "row ?p x"
  define live where "live = (if kr_stream_enabled r then filter (\<lambda>s. s \<noteq> 0) (take ?c ?xs) else take ?c ?xs)"
  define a where "a = kv_free live (km_alloc m)"
  define a2 where "a2 = (if ?c < ?n then kv_free (drop ?c (take ?n ?xs)) a else a)"
  note rk = kv_invD(5) [OF ok r] and sh = kv_invD(3) [OF ok]
  have c: "?c \<le> ?n" "\<not> kr_kv_committed_freed r" "\<not> kr_kv_overallocated_freed r"
    "\<not> kr_stream_enabled r \<Longrightarrow> 0 \<notin> set (take ?n ?xs)" "0 \<notin> set (drop ?c (take ?n ?xs))"
    using rk x by (simp_all add: req_ok_def)
  define r' where "r' = r\<lparr>kr_kv_committed_freed := True, kr_kv_overallocated_freed := True, kr_req_pool_idx := None\<rparr>"
  define m' where "m' = m\<lparr>km_alloc := a2, km_pool := ?p\<lparr>rp_free_slots := rp_free_slots ?p @ [x]\<rparr>\<rparr>"
  have run: "release_kv_cache spec r m = Inr (r', m')"
    using x c spec
    by (auto simp: release_kv_cache_def cache_finished_req_def req_pool_free_def pool_read_def Let_def
        r'_def m'_def a2_def a_def live_def)
  have keep: "filter (\<lambda>s. s \<noteq> 0) (take ?c ?xs) = take ?c ?xs" if "\<not> kr_stream_enabled r"
  proof (rule filter_True, rule ballI)
    fix s assume "s \<in> set (take ?c ?xs)"
    then have "s \<in> set (take ?n ?xs)" using c(1) by (meson set_take_subset_set_take subsetD)
    with c(4) [OF that] show "s \<noteq> 0" by metis
  qed
  have "mset live = mset (filter (\<lambda>s. s \<noteq> 0) (take ?c ?xs))"
  proof (cases "kr_stream_enabled r")
    case False
    then show ?thesis unfolding keep [OF False] by (simp add: live_def)
  qed (simp add: live_def)
  then have bal: "all_free a2 = all_free (km_alloc m) + held ?p r"
  proof -
    have "all_free a2 = all_free a + mset (drop ?c (take ?n ?xs))"
      using c(1) by (cases "?c < ?n") (simp_all add: a2_def)
    moreover have "held ?p r = mset (filter (\<lambda>s. s \<noteq> 0) (take ?n ?xs))" using x by (simp add: held_n_def)
    ultimately show ?thesis unfolding a_def mset_range [OF c(1,5)] all_free_free
      \<open>mset live = _\<close> by (simp only: ac_simps)
  qed
  have "kv_ok (dset i r' h) m'"
    by (rule kv_inv_update [OF ok r])
      (use bal sh x in \<open>simp_all add: m'_def r'_def held_at_def held_n_def row_of_def req_ok_def a2_def a_def\<close>)
  with run bal show ?thesis by (auto simp: m'_def r'_def)
qed

lemma free_and_tombstone_ok:
  assumes ok: "kv_ok h m" and r: "dget h i = Some r" and x: "kr_req_pool_idx r = Some x"
    and slots: "slots = filter (\<lambda>s. s \<noteq> 0) (pool_read x lo hi (km_pool m))"
    and rng: "lo \<le> hi" "hi \<le> kr_kv_committed_len r"
  shows "kv_ok (dset i (r\<lparr>kr_stream_enabled := True\<rparr>) h) (free_and_tombstone slots x lo hi m)"
proof -
  let ?p = "km_pool m" and ?n = "kr_kv_allocated_len r" and ?c = "kr_kv_committed_len r"
  let ?xs = "row ?p x" and ?r = "r\<lparr>kr_stream_enabled := True\<rparr>"
  define p2 where "p2 = pool_write x lo (replicate (hi - lo) 0) ?p"
  note rk = kv_invD(5) [OF ok r] and sh = kv_invD(3) [OF ok]
  have c: "?c \<le> ?n" "?n \<le> rp_max_context_len ?p" "0 \<notin> set (drop ?c (take ?n ?xs))"
    using rk x by (simp_all add: req_ok_def)
  have xb: "x < rp_size ?p" by (rule rows_bound [OF ok r x])
  have sh2: "shape_ok p2" unfolding p2_def using shape_write [OF sh xb] rng c by simp
  have row2: "row p2 x = take lo ?xs @ replicate (hi - lo) 0 @ drop hi ?xs"
    using sh xb rng by (simp add: p2_def pool_write_row shape_ok_def write_row_def)
  have xs: "take ?n ?xs = take lo ?xs @ drop lo (take hi ?xs) @ drop hi (take ?n ?xs)"
    using take_split [of lo hi ?xs] take_split [of hi ?n ?xs] rng c(1)
    by (metis append_assoc order_trans)
  have hi: "hi \<le> length ?xs" using row_length [OF sh xb] rng c by simp
  then have "take ?n (row p2 x) = take lo ?xs @ replicate (hi - lo) 0 @ drop hi (take ?n ?xs)"
    using rng c(1) unfolding row2 by (simp add: take_drop)
  note tk = this
  let ?f = "\<lambda>ys. mset (filter (\<lambda>s. s \<noteq> (0::nat)) ys)"
  have "?f (take ?n ?xs) = ?f (take lo ?xs) + ?f (drop lo (take hi ?xs)) + ?f (drop hi (take ?n ?xs))"
    by (subst xs) simp
  then have "held_at {} p2 i ?r + mset slots = held_at {} ?p i r"
    using x by (simp add: held_at_def held_n_def slots pool_read_def tk ac_simps)
  moreover have "drop ?c (take ?n (row p2 x)) = drop (?c - hi) (drop hi (take ?n ?xs))"
    unfolding tk using rng hi by (simp add: min_absorb2)
  then have "drop ?c (take ?n (row p2 x)) = drop ?c (take ?n ?xs)" using rng(2) by simp
  then have "req_ok p2 ?r" using rk x c(3) by (simp add: req_ok_def p2_def)
  moreover have "row p2 y = row ?p y" if "j \<noteq> i" "dget h j = Some s" "kr_req_pool_idx s = Some y" for j s y
    using rows_distinct [OF ok r that(2) _ x that(3)] that(1) by (simp add: p2_def)
  ultimately show ?thesis
    unfolding free_and_tombstone_def p2_def [symmetric]
    by (intro kv_inv_update [OF ok r]) (use sh2 in \<open>simp_all add: row_of_def p2_def ac_simps\<close>)
qed


subsection \<open>Every run conserves the slots\<close>

type_synonym kv_world = "kv_req heap \<times> kv_mem"

definition kv_init :: "kv_world \<Rightarrow> bool" where
  "kv_init w \<longleftrightarrow> (\<exists>n srt rows len. w = ([], \<lparr>km_alloc = allocator_new n srt, km_pool = req_pool_new rows len\<rparr>))"

text \<open>
  The steps of the Drafter's memory, in any order: a request arrives; the scheduler edits the
  prefill fields of a request, and anything at all while it owns no row (which covers the reset of
  a re-queued or retracted request); a prefill batch of fresh requests, or of chunked ones that
  hold exactly their prefix; a decode batch of requests with a row below the context length; a
  rollback to any fork point from the length the request holds; a release; a free group opens and
  closes.  Drafter requests do not stream: nothing on the Drafter sets the flag.  An operation
  that raises out of the event loop (an exhausted pool in \<open>prepare_for_extend\<close> or
  \<open>prepare_for_decode\<close>) ends the process, so it has no successor state here.
\<close>

inductive draft_kv_step :: "kv_world \<Rightarrow> kv_world \<Rightarrow> bool" where
  kv_arrive: "i \<notin> ids h \<Longrightarrow> kr_req_pool_idx r = None \<Longrightarrow> \<not> kr_stream_enabled r \<Longrightarrow>
     draft_kv_step (h, m) (dset i r h, m)"
| kv_edit: "dget h i = Some r \<Longrightarrow>
     r' = r\<lparr>kr_fill_ids := fill, kr_prefix_indices := pre, kr_extend_input_len := ext, kr_is_chunked := ch\<rparr>
       \<or> kr_req_pool_idx r = None \<and> kr_req_pool_idx r' = None \<and> \<not> kr_stream_enabled r' \<Longrightarrow>
     draft_kv_step (h, m) (dset i r' h, m)"
| kv_extend: "distinct bs \<Longrightarrow> \<forall>i \<in> set bs. \<exists>r. dget h i = Some r \<and> ready (km_pool m) r \<Longrightarrow>
     prepare_for_extend bs h m = Inr (h', m') \<Longrightarrow> draft_kv_step (h, m) (h', m')"
| kv_decode: "distinct bs \<Longrightarrow> \<forall>i \<in> set bs. \<exists>r. dget h i = Some r \<and> kr_req_pool_idx r \<noteq> None
        \<and> kr_kv_allocated_len r < rp_max_context_len (km_pool m) \<Longrightarrow>
     prepare_for_decode spec_none bs h m = Inr (h', m') \<Longrightarrow> draft_kv_step (h, m) (h', m')"
| kv_rollback: "dget h i = Some r \<Longrightarrow>
     local_rollback ps r fork (int (kr_kv_allocated_len r)) m = (b, r', m') \<Longrightarrow>
     draft_kv_step (h, m) (dset i r' h, m')"
| kv_release: "dget h i = Some r \<Longrightarrow> release_kv_cache spec r m = Inr (r', m') \<Longrightarrow>
     draft_kv_step (h, m) (dset i r' h, m')"
| kv_group_begin: "ka_is_not_in_free_group (km_alloc m) \<Longrightarrow>
     draft_kv_step (h, m) (h, m\<lparr>km_alloc := free_group_begin (km_alloc m)\<rparr>)"
| kv_group_end: "\<not> ka_is_not_in_free_group (km_alloc m) \<Longrightarrow>
     draft_kv_step (h, m) (h, m\<lparr>km_alloc := free_group_end (km_alloc m)\<rparr>)"

lemma kv_init_ok: "kv_init w \<Longrightarrow> kv_ok (fst w) (snd w)"
  by (auto simp: kv_init_def kv_inv_def allocator_new_def req_pool_new_def all_free_def shape_ok_def)

lemma kv_same_ok:
  assumes ok: "kv_ok h m" and r: "dget h i = Some r"
    and eq: "held (km_pool m) r' = held (km_pool m) r" "row_of r' = row_of r" "req_ok (km_pool m) r'"
  shows "kv_ok (dset i r' h) m"
  by (rule kv_inv_update [OF ok r]) (use eq kv_invD(3) [OF ok] in \<open>simp_all add: held_at_def\<close>)

text \<open>The memory invariant sees a heap only through its lookups.\<close>

lemma kv_inv_cong:
  assumes "\<And>i. dget h' i = dget h i" and "kv_inv pend L X h m"
  shows "kv_inv pend L X h' m"
proof -
  have "i \<in> ids h' \<longleftrightarrow> i \<in> ids h" for i using assms(1) [of i] in_ids ids_dget by metis
  then have "ids h' = ids h" by blast
  with assms show ?thesis unfolding kv_inv_def by simp
qed

text \<open>The fields of a request the memory invariant reads.\<close>

definition kv_part :: "'a kv_req_scheme \<Rightarrow> nat option \<times> nat \<times> nat \<times> bool \<times> bool \<times> bool" where
  "kv_part r = (kr_req_pool_idx r, kr_kv_committed_len r, kr_kv_allocated_len r,
     kr_kv_committed_freed r, kr_kv_overallocated_freed r, kr_stream_enabled r)"

lemma kv_part_ok:
  assumes "kv_ok h m" and "dget h i = Some r" and "kv_part r' = kv_part r \<or> kr_req_pool_idx r = None \<and> kr_req_pool_idx r' = None"
  shows "kv_ok (dset i r' h) m"
  using assms(3) kv_invD(5) [OF assms(1,2)]
  by (intro kv_same_ok [OF assms(1,2)])
    (auto simp: kv_part_def held_n_def row_of_def req_ok_def split: option.splits)

lemma kv_arrive_ok:
  assumes ok: "kv_ok h m" and i: "i \<notin> ids h" and r: "kr_req_pool_idx r = None"
  shows "kv_ok (dset i r h) m"
proof -
  have ob: "obj (dset i r h) j = obj h j" if "j \<in> ids h" for j using that i by auto
  have K: "ids (dset i r h) = insert i (ids h)" by (auto simp: dom_update)
  have e: "held_at {} (km_pool m) i r = {#}" "row_of r = {#}" using r by (simp_all add: held_at_def held_n_def row_of_def)
  have a: "(\<Sum>j \<in> ids h. held_at {} (km_pool m) j (obj (dset i r h) j)) = (\<Sum>j \<in> ids h. held_at {} (km_pool m) j (obj h j))"
    "(\<Sum>j \<in> ids h. row_of (obj (dset i r h) j)) = (\<Sum>j \<in> ids h. row_of (obj h j))"
    using ob by (auto intro!: sum.cong)
  have "req_ok (km_pool m) r" using r by (simp add: req_ok_def)
  with kv_invD [OF ok] show ?thesis unfolding kv_inv_def K using i e a by auto
qed

lemma release_Inr_idx: "release_kv_cache spec r m = Inr z \<Longrightarrow> kr_req_pool_idx r \<noteq> None
    \<and> (spec \<or> kr_kv_committed_len r = kr_kv_allocated_len r)"
  by (auto simp: release_kv_cache_def cache_finished_req_def rbind_Inr_iff Let_def
      split: option.splits if_splits)

lemma release_pool:
  "release_kv_cache spec r m = Inr (r', m') \<Longrightarrow> kr_req_pool_idx r = Some x \<Longrightarrow>
     km_pool m' = (km_pool m)\<lparr>rp_free_slots := rp_free_slots (km_pool m) @ [x]\<rparr>"
  by (auto simp: release_kv_cache_def cache_finished_req_def req_pool_free_def Let_def split: if_splits)

lemma release_size:
  "release_kv_cache spec r m = Inr (r', m') \<Longrightarrow> kr_req_pool_idx r = Some x \<Longrightarrow>
     ka_size (km_alloc m') = ka_size (km_alloc m)"
  by (auto simp: release_kv_cache_def cache_finished_req_def req_pool_free_def Let_def split: if_splits)

text \<open>On the Drafter no request streams and a request with a row has committed all it allocated.\<close>

definition plain_req :: "'a kv_req_scheme \<Rightarrow> bool" where
  "plain_req r \<longleftrightarrow> \<not> kr_stream_enabled r
     \<and> (kr_req_pool_idx r \<noteq> None \<longrightarrow> kr_kv_committed_len r = kr_kv_allocated_len r)"

definition all_plain :: "'a kv_req_scheme heap \<Rightarrow> bool" where
  "all_plain h \<longleftrightarrow> (\<forall>i r. dget h i = Some r \<longrightarrow> plain_req r)"

lemma all_plainD: "all_plain h \<Longrightarrow> dget h i = Some r \<Longrightarrow> plain_req r"
  by (simp add: all_plain_def)

lemma all_plain_dset: "all_plain h \<Longrightarrow> plain_req r \<Longrightarrow> all_plain (dset i r h)"
  by (simp add: all_plain_def)

lemma assign_rows_plain:
  assumes "\<forall>i \<in> set bs. dget h i \<noteq> None"
    and "\<forall>i r. dget h i = Some r \<longrightarrow> \<not> kr_stream_enabled r \<and> (i \<notin> set cs \<longrightarrow> plain_req r)"
    and "set bs \<subseteq> set cs"
  shows "\<forall>i r. dget (assign_rows bs sel h) i = Some r \<longrightarrow> \<not> kr_stream_enabled r \<and> (i \<notin> set cs \<longrightarrow> plain_req r)"
  using assms
proof (induction bs arbitrary: sel h)
  case (Cons i bs)
  then obtain r where r: "dget h i = Some r" by auto
  show ?case
  proof (cases "kr_req_pool_idx r")
    case (Some x)
    then have "assign_rows (i # bs) sel h = assign_rows bs sel h" using r by simp
    moreover have "\<forall>i \<in> set bs. dget h i \<noteq> None" "set bs \<subseteq> set cs" using Cons.prems(1,3) by simp_all
    ultimately show ?thesis using Cons.IH [OF _ Cons.prems(2), of sel] by metis
  next
    case None
    let ?h = "dset i (r\<lparr>kr_req_pool_idx := Some (hd sel)\<rparr>) h"
    have p: "\<forall>j r'. dget ?h j = Some r' \<longrightarrow> \<not> kr_stream_enabled r' \<and> (j \<notin> set cs \<longrightarrow> plain_req r')"
      using Cons.prems(2,3) r by auto
    have e: "\<forall>j \<in> set bs. dget ?h j \<noteq> None" and sub: "set bs \<subseteq> set cs" using Cons.prems(1,3) by simp_all
    have "assign_rows (i # bs) sel h = assign_rows bs (tl sel) ?h" using None r by simp
    with Cons.IH [OF e p sub, of "tl sel"] show ?thesis by (simp only:)
  qed
qed simp

lemma extend_loop_plain:
  assumes "extend_loop bs out h p = Inr (h', p')" and "\<forall>i \<in> set bs. dget h i \<noteq> None"
    and "\<forall>i r. dget h i = Some r \<longrightarrow> \<not> kr_stream_enabled r \<and> (i \<notin> set bs \<longrightarrow> plain_req r)"
  shows "all_plain h'"
  using assms
proof (induction bs arbitrary: out h p)
  case Nil
  then show ?case by (simp add: all_plain_def)
next
  case (Cons i bs)
  then obtain r where r: "dget h i = Some r" by auto
  let ?r = "r\<lparr>kr_kv_committed_len := length (kr_fill_ids r), kr_kv_allocated_len := length (kr_fill_ids r)\<rparr>"
  obtain out2 p2 where rest: "extend_loop bs out2 (dset i ?r h) p2 = Inr (h', p')"
    using Cons.prems(1) r by (auto simp: Let_def split: if_splits)
  have "\<forall>j r'. dget (dset i ?r h) j = Some r' \<longrightarrow> \<not> kr_stream_enabled r' \<and> (j \<notin> set bs \<longrightarrow> plain_req r')"
    using Cons.prems(3) r by (auto simp: plain_req_def)
  from Cons.IH [OF rest _ this] Cons.prems(2) show ?case by simp
qed

lemma prepare_for_extend_plain:
  assumes run: "prepare_for_extend bs h m = Inr (h', m')" and ex: "\<forall>i \<in> set bs. dget h i \<noteq> None"
    and plain: "all_plain h"
  shows "all_plain h'"
proof -
  obtain h1 m1 out m2 p3 where s1: "alloc_req_slots bs h m = Inr (h1, m1)"
    and s3: "extend_loop bs out h1 (km_pool m2) = Inr (h', p3)"
    and m': "m' = m2\<lparr>km_pool := p3\<rparr>"
    using run unfolding prepare_for_extend_def by (auto simp: rbind_Inr_iff split: prod.splits)
  define need where "need = filter (\<lambda>i. \<not> (kr_req_pool_idx (obj h i) \<noteq> None \<and> kr_is_draft (obj h i))) bs"
  obtain sel where h1: "h1 = h \<or> h1 = assign_rows need sel h"
    using s1 unfolding alloc_req_slots_def req_pool_alloc_def Let_def need_def [symmetric]
    by (auto simp: rbind_Inr_iff split: if_splits)
  have base: "\<forall>i r. dget h i = Some r \<longrightarrow> \<not> kr_stream_enabled r \<and> (i \<notin> set bs \<longrightarrow> plain_req r)"
    using plain by (auto simp: all_plain_def plain_req_def)
  have "\<forall>i \<in> set need. dget h i \<noteq> None" and sub: "set need \<subseteq> set bs" using ex by (simp_all add: need_def)
  note rows = assign_rows_plain [OF this(1) base sub, of sel]
  have "\<forall>i r. dget h1 i = Some r \<longrightarrow> \<not> kr_stream_enabled r \<and> (i \<notin> set bs \<longrightarrow> plain_req r)"
    using h1 base rows by metis
  moreover have "\<forall>i \<in> set bs. dget h1 i \<noteq> None" using h1 ex assign_rows_ids [of h _ need sel] by metis
  ultimately show ?thesis by (intro extend_loop_plain [OF s3])
qed

lemma decode_loop_plain:
  assumes "decode_loop bs out h p = (h', p')" and "\<forall>i \<in> set bs. dget h i \<noteq> None" and "all_plain h"
  shows "all_plain h'"
  using assms
proof (induction bs arbitrary: out h p)
  case (Cons i bs)
  then obtain r where r: "dget h i = Some r" by auto
  let ?r = "r\<lparr>kr_kv_committed_len := kr_kv_committed_len r + 1, kr_kv_allocated_len := kr_kv_allocated_len r + 1\<rparr>"
  obtain p2 where rest: "decode_loop bs (tl out) (dset i ?r h) p2 = (h', p')"
    using Cons.prems(1) r by (auto simp: Let_def)
  have "plain_req ?r" using all_plainD [OF Cons.prems(3) r] by (auto simp: plain_req_def)
  then have "all_plain (dset i ?r h)" by (rule all_plain_dset [OF Cons.prems(3)])
  from Cons.IH [OF rest _ this] Cons.prems(2) show ?case by simp
qed simp

lemma local_rollback_plain:
  "local_rollback ps r fork cur m = (b, r', m') \<Longrightarrow> plain_req r \<Longrightarrow> plain_req r'"
  by (auto simp: local_rollback_def Let_def plain_req_def split: if_splits option.splits)

lemma release_plain: "release_kv_cache spec r m = Inr (r', m') \<Longrightarrow> plain_req r \<Longrightarrow> plain_req r'"
  by (auto simp: release_kv_cache_def cache_finished_req_def req_pool_free_def rbind_Inr_iff Let_def
      plain_req_def split: option.splits if_splits)

lemma draft_kv_step_plain:
  assumes "draft_kv_step w v" and "all_plain (fst w)"
  shows "all_plain (fst v)"
  using assms
proof (cases rule: draft_kv_step.cases)
  case (kv_edit h i r r' fill pre ext ch m)
  then have "plain_req r'" using all_plainD [of h i r] assms(2) by (auto simp: plain_req_def)
  with kv_edit assms(2) show ?thesis by (simp add: all_plain_dset)
next
  case (kv_extend bs h m h' m')
  then show ?thesis using prepare_for_extend_plain [OF kv_extend(5)] assms(2) by fastforce
next
  case (kv_decode bs h m spec_none h' m')
  from kv_decode(5) have "all_plain h'"
    by (cases rule: prepare_for_decode_cases) (use decode_loop_plain [of bs] kv_decode(1,4) assms(2) in fastforce)+
  with kv_decode show ?thesis by simp
next
  case (kv_rollback h i r ps fork m b r' m')
  then show ?thesis using local_rollback_plain [OF kv_rollback(4)] all_plainD [of h i r] assms(2)
    by (simp add: all_plain_dset)
next
  case (kv_release h i r spec m r' m')
  then show ?thesis using release_plain [OF kv_release(4)] all_plainD [of h i r] assms(2)
    by (simp add: all_plain_dset)
qed (auto simp: plain_req_def intro!: all_plain_dset)

lemma draft_kv_step_ok:
  assumes ok: "kv_ok (fst w) (snd w)" and plain: "all_plain (fst w)" and "draft_kv_step w v"
  shows "kv_ok (fst v) (snd v)"
  using assms(3)
proof cases
  case (kv_arrive i h r m)
  with ok kv_arrive_ok show ?thesis by simp
next
  case (kv_edit h i r r' fill pre ext ch m)
  from kv_edit(4) have "held (km_pool m) r' = held (km_pool m) r" "row_of r' = row_of r" "req_ok (km_pool m) r'"
    using kv_invD(5) [of "{}" "{#}" "{#}" h m i r] ok kv_edit(1,3)
    by (auto simp: held_n_def row_of_def req_ok_def split: option.splits)
  with kv_same_ok [of h m i r r'] ok kv_edit show ?thesis by simp
next
  case (kv_extend bs h m h' m')
  with ok prepare_for_extend_ok [OF kv_extend(5)] show ?thesis by simp
next
  case (kv_decode bs h m spec_none h' m')
  have "\<forall>i \<in> set bs. \<exists>r. dget h i = Some r \<and> kr_req_pool_idx r \<noteq> None
      \<and> kr_kv_committed_len r = kr_kv_allocated_len r \<and> kr_kv_allocated_len r < rp_max_context_len (km_pool m)"
    using kv_decode(1,4) plain by (fastforce simp: all_plain_def plain_req_def)
  with kv_decode ok prepare_for_decode_ok [OF kv_decode(5)] show ?thesis by simp
next
  case (kv_rollback h i r ps fork m b r' m')
  show ?thesis
  proof (cases b)
    case True
    have "\<not> kr_stream_enabled r" using all_plainD [of h i r] plain kv_rollback by (simp add: plain_req_def)
    with True kv_rollback ok local_rollback_ok(1) [of ps r fork "int (kr_kv_allocated_len r)" m r' m' h i]
    show ?thesis by simp
  next
    case False
    then have "r' = r" "m' = m" using kv_rollback(4)
      by (auto simp: local_rollback_def Let_def split: if_splits option.splits)
    with kv_same_ok [of h m i r r] ok kv_rollback kv_invD(5) [of "{}" "{#}" "{#}" h m i r]
    show ?thesis by simp
  qed
next
  case (kv_release h i r spec m r' m')
  from release_Inr_idx [OF kv_release(4)] obtain x where "kr_req_pool_idx r = Some x"
    "spec \<or> kr_kv_committed_len r = kr_kv_allocated_len r" by auto
  with release_kv_cache_ok [of h m i r x spec] ok kv_release show ?thesis by auto
next
  case (kv_group_begin m h)
  with ok kv_inv_alloc [of "{}" "{#}" "{#}" h m "free_group_begin (km_alloc m)" "{#}"] all_free_group(1)
  show ?thesis by (simp add: free_group_begin_def)
next
  case (kv_group_end m h)
  have "ka_size (free_group_end (km_alloc m)) = ka_size (km_alloc m)"
    by (simp add: free_group_end_def Let_def)
  with kv_group_end ok kv_inv_alloc [of "{}" "{#}" "{#}" h m "free_group_end (km_alloc m)" "{#}"] all_free_group(2)
  show ?thesis by simp
qed

interpretation draft_memory: invariant_system kv_init draft_kv_step "\<lambda>w. kv_ok (fst w) (snd w) \<and> all_plain (fst w)"
proof
  fix w assume "kv_init w"
  then show "kv_ok (fst w) (snd w) \<and> all_plain (fst w)"
    using kv_init_ok [of w] by (auto simp: kv_init_def all_plain_def)
next
  fix w v assume "kv_ok (fst w) (snd w) \<and> all_plain (fst w)" and "draft_kv_step w v"
  then show "kv_ok (fst v) (snd v) \<and> all_plain (fst v)"
    using draft_kv_step_ok [of w v] draft_kv_step_plain [of w v] by simp
qed


text \<open>A prefill of two tokens and a decode step, in a pool of four slots.\<close>

definition ex_req :: kv_req where
  "ex_req = \<lparr>kr_rid = ''a'', kr_is_draft = True, kr_fill_ids = [7, 8], kr_prefix_indices = [],
     kr_extend_input_len = 2, kr_is_chunked = 0, kr_req_pool_idx = None, kr_kv_committed_len = 0,
     kr_kv_allocated_len = 0, kr_kv_committed_freed = False, kr_kv_overallocated_freed = False,
     kr_stream_enabled = False\<rparr>"

definition ex_mem :: kv_mem where
  "ex_mem = \<lparr>km_alloc = allocator_new 4 False, km_pool = req_pool_new 1 3\<rparr>"


text \<open>
  C33: a local rollback on the Drafter returns exactly the slots of the tokens after the fork
  point, keeps every other slot with its owner, and leaves the request with \<open>fork_point\<close> cached
  tokens; it refuses, changing nothing, when the fork point is inside the shared prefix.
\<close>

theorem rollback_frees_suffix:
  assumes "kv_ok h m" and "dget h i = Some r" and "\<not> kr_stream_enabled r" and "kr_req_pool_idx r = Some x"
    and "0 \<le> fork" and "fork < int (kr_kv_allocated_len r)"
  shows "case local_rollback 1 r fork (int (kr_kv_allocated_len r)) m of (b, r', m') \<Rightarrow>
    (b \<longleftrightarrow> get_prefix_len r \<le> fork)
    \<and> (if b then kv_ok (dset i r' h) m' \<and> kr_kv_allocated_len r' = nat fork
         \<and> all_free (km_alloc m') = all_free (km_alloc m)
             + mset (pool_read x (nat fork) (kr_kv_allocated_len r) (km_pool m))
         \<and> held (km_pool m') r' = mset (take (nat fork) (row (km_pool m) x))
       else r' = r \<and> m' = m)"
proof -
  obtain b r' m' where run: "local_rollback 1 r fork (int (kr_kv_allocated_len r)) m = (b, r', m')"
    by (cases "local_rollback 1 r fork (int (kr_kv_allocated_len r)) m") auto
  note rk = kv_invD(5) [OF assms(1,2)]
  have n: "kr_kv_allocated_len r \<le> rp_max_context_len (km_pool m)"
    and nz: "0 \<notin> set (take (kr_kv_allocated_len r) (row (km_pool m) x))"
    using rk assms(3,4) by (simp_all add: req_ok_def)
  have b: "b \<longleftrightarrow> get_prefix_len r \<le> fork" "\<not> b \<Longrightarrow> r' = r \<and> m' = m"
    "b \<Longrightarrow> km_pool m' = km_pool m \<and> kr_req_pool_idx r' = Some x"
    using run assms(4-6) n by (auto simp: local_rollback_def Let_def split: if_splits)
  have "set (take (nat fork) (row (km_pool m) x)) \<subseteq> set (take (kr_kv_allocated_len r) (row (km_pool m) x))"
    using assms(5,6) by (intro set_take_subset_set_take) linarith
  then have "filter (\<lambda>s. s \<noteq> 0) (take (nat fork) (row (km_pool m) x)) = take (nat fork) (row (km_pool m) x)"
    using nz by (intro filter_True) (metis subsetD)
  then have "held (km_pool m') r' = mset (take (nat fork) (row (km_pool m) x))" if b
    using b(3) [OF that] local_rollback_ok(3) [OF run [unfolded eqTrueI [OF that]] assms(1,2) refl assms(3)]
    by (simp only: held_n_def option.case)
  with b run local_rollback_ok [OF _ assms(1,2) refl assms(3), of 1 fork r' m'] assms(4) show ?thesis
    by auto
qed

definition ex_held :: kv_req where
  "ex_held = ex_req\<lparr>kr_req_pool_idx := Some 0, kr_kv_committed_len := 2, kr_kv_allocated_len := 2\<rparr>"

definition ex_mem2 :: kv_mem where
  "ex_mem2 = \<lparr>km_alloc = (allocator_new 4 False)\<lparr>ka_free_pages := [3, 4]\<rparr>,
     km_pool = \<lparr>rp_size = 1, rp_max_context_len = 3, rp_req_to_token = [[1, 2, 0]], rp_free_slots = []\<rparr>\<rparr>"

theorem rollback_frees_suffix_witness:
  "case local_rollback 1 ex_held 1 2 ex_mem2 of (b, r', m') \<Rightarrow>
     b \<and> all_free (km_alloc m') = {#2, 3, 4#} \<and> held (km_pool m') r' = {#1#}"
proof -
  have ok: "kv_ok [(0, ex_held)] ex_mem2"
    by (simp add: kv_inv_def all_free_def held_at_def held_n_def row_of_def shape_ok_def req_ok_def
        ex_held_def ex_mem2_def ex_req_def allocator_new_def upt_rec numeral_eq_Suc)
  have "case local_rollback 1 ex_held 1 (int (kr_kv_allocated_len ex_held)) ex_mem2 of (b, r', m') \<Rightarrow>
    (b \<longleftrightarrow> get_prefix_len ex_held \<le> 1)
    \<and> (if b then kv_ok (dset 0 r' [(0, ex_held)]) m' \<and> kr_kv_allocated_len r' = nat 1
         \<and> all_free (km_alloc m') = all_free (km_alloc ex_mem2)
             + mset (pool_read 0 (nat 1) (kr_kv_allocated_len ex_held) (km_pool ex_mem2))
         \<and> held (km_pool m') r' = mset (take (nat 1) (row (km_pool ex_mem2) 0))
       else r' = ex_held \<and> m' = ex_mem2)"
    by (rule rollback_frees_suffix [OF ok]) (simp_all add: ex_held_def ex_req_def)
  then show ?thesis
    by (auto simp: get_prefix_len_def ex_held_def ex_req_def ex_mem2_def pool_read_def all_free_def
        allocator_new_def split: prod.splits)
qed

end
