(* ===== verification/Protocol.thy ===== *)
theory Protocol
  imports Prelude
begin

text \<open>
  The messages of the SPECTRE protocol (\<open>speculative/spectre/spectre_protocol.py\<close>): the
  actions, the request record with the defaults of its dataclass, and the health-check test.
  Wall-clock times are reals and sampling parameters are a type variable, because no modelled
  operation looks inside them.
\<close>

datatype spectre_action = DRAFT | FINISH | ABORT | REJECT | GRANT | PAUSE | GRANT_ACK

datatype spec_type = NORMAL | DRAFT_REQUEST | DRAFT_RESPONSE

record 'p spectre_request =
  sr_request_id :: string
  sr_spec_cnt :: "int option"
  sr_action :: spectre_action
  sr_spec_type :: spec_type
  sr_draft_token_ids :: "int list option"
  sr_target_send_time :: real
  sr_target_recv_time :: real
  sr_input_ids :: "int list option"
  sr_output_ids :: "int list option"
  sr_num_draft_tokens :: "int option"
  sr_sampling_params :: "'p option"
  sr_grammar :: "string option"
  sr_draft_logprobs :: "real list option"
  sr_draft_recv_time :: real
  sr_draft_send_time :: real
  sr_grant_epoch :: "int option"
  sr_grant_tokens :: "int option"
  sr_tpc_low :: "int option"
  sr_tpc_high :: "int option"
  sr_deadline_us :: "int option"
  sr_placement_id :: "int option"
  sr_grant_state :: "string option"
  sr_draft_step_ms :: "real option"

text \<open>\<open>SpectreRequest(request_id=..., action=..., spec_type=...)\<close>, other fields default.\<close>

definition request_new :: "string \<Rightarrow> spectre_action \<Rightarrow> spec_type \<Rightarrow> 'p spectre_request" where
  "request_new rid act ty =
     \<lparr>sr_request_id = rid, sr_spec_cnt = None, sr_action = act, sr_spec_type = ty,
      sr_draft_token_ids = None, sr_target_send_time = -1, sr_target_recv_time = -1,
      sr_input_ids = None, sr_output_ids = None, sr_num_draft_tokens = None,
      sr_sampling_params = None, sr_grammar = None, sr_draft_logprobs = None,
      sr_draft_recv_time = -1, sr_draft_send_time = -1, sr_grant_epoch = None,
      sr_grant_tokens = None, sr_tpc_low = None, sr_tpc_high = None, sr_deadline_us = None,
      sr_placement_id = None, sr_grant_state = None, sr_draft_step_ms = None\<rparr>"

text \<open>\<open>int(x or 0)\<close> on an optional integer.\<close>

definition int_or0 :: "int option \<Rightarrow> int" where
  "int_or0 x = (case x of None \<Rightarrow> 0 | Some n \<Rightarrow> n)"

definition is_health_check_req :: "string \<Rightarrow> bool" where
  "is_health_check_req rid \<longleftrightarrow> take 12 rid = ''HEALTH_CHECK''"

lemma int_or0_simps [simp]: "int_or0 None = 0" "int_or0 (Some n) = n"
  by (simp_all add: int_or0_def)

end
