(* ===== verification/GrantTable.thy ===== *)
theory GrantTable
  imports Protocol
begin

text \<open>
  The Drafter's grant table (\<open>specstream/gpu_grant.py\<close>): a grant is permission for one Draft
  token; the table keeps the latest round and epoch it has seen of each request and at most
  one grant to be used.  \<open>now\<close> is the value of the monotonic clock where the source reads it.
\<close>

record execution_grant =
  eg_request_id :: string
  eg_spec_cnt :: int
  eg_grant_epoch :: int
  eg_grant_tokens :: int
  eg_tpc_low :: int
  eg_tpc_high :: int
  eg_deadline_us :: "int option"
  eg_placement_id :: int
  eg_grant_state :: string

text \<open>\<open>__post_init__\<close>: the constructor validates.\<close>

definition grant_new :: "execution_grant \<Rightarrow> execution_grant res" where
  "grant_new g = rbind (raise_first
     [(eg_request_id g = [], ValueError), (eg_spec_cnt g < 0, ValueError),
      (eg_grant_epoch g < 1, ValueError), (eg_grant_tokens g \<noteq> 1, ValueError),
      (eg_tpc_low g < 0 \<or> eg_tpc_high g \<le> eg_tpc_low g, ValueError),
      (case eg_deadline_us g of None \<Rightarrow> False | Some d \<Rightarrow> d < 0, ValueError),
      (eg_placement_id g < 0, ValueError)]) (\<lambda>_. Inr g)"

definition grant_expired :: "int \<Rightarrow> execution_grant \<Rightarrow> bool" where
  "grant_expired now g \<longleftrightarrow> (case eg_deadline_us g of None \<Rightarrow> False | Some d \<Rightarrow> d \<le> now)"

record apply_result =
  ar_accepted :: bool
  ar_reason :: string

record grant_table =
  gt_active :: "(string, execution_grant) dict"
  gt_latest_epoch :: "(string, int) dict"
  gt_latest_spec_cnt :: "(string, int) dict"

definition table_new :: grant_table where
  "table_new = \<lparr>gt_active = [], gt_latest_epoch = [], gt_latest_spec_cnt = []\<rparr>"

definition table_apply :: "execution_grant \<Rightarrow> grant_table \<Rightarrow> apply_result \<times> grant_table" where
  "table_apply g tb =
     (let rid = eg_request_id g;
          latest_spec_cnt = dget_or (gt_latest_spec_cnt tb) rid (-1);
          latest_epoch = dget_or (gt_latest_epoch tb) rid 0
      in if eg_spec_cnt g < latest_spec_cnt
         then (\<lparr>ar_accepted = False, ar_reason = ''stale_spec_cnt''\<rparr>, tb)
         else if eg_spec_cnt g = latest_spec_cnt \<and> eg_grant_epoch g \<le> latest_epoch
         then (\<lparr>ar_accepted = False, ar_reason = ''stale_epoch''\<rparr>, tb)
         else (\<lparr>ar_accepted = True, ar_reason = ''accepted''\<rparr>,
               \<lparr>gt_active = dset rid g (gt_active tb),
                gt_latest_epoch = dset rid (eg_grant_epoch g) (gt_latest_epoch tb),
                gt_latest_spec_cnt = dset rid (eg_spec_cnt g) (gt_latest_spec_cnt tb)\<rparr>))"

definition table_pause ::
    "string \<Rightarrow> int option \<Rightarrow> int option \<Rightarrow> grant_table \<Rightarrow> bool \<times> grant_table" where
  "table_pause rid spec_cnt grant_epoch tb =
     (case dget (gt_active tb) rid of
        None \<Rightarrow> (False, tb)
      | Some cur \<Rightarrow>
         if (case spec_cnt of None \<Rightarrow> False | Some n \<Rightarrow> n < eg_spec_cnt cur) then (False, tb)
         else if (case grant_epoch of None \<Rightarrow> False | Some n \<Rightarrow> n < eg_grant_epoch cur)
         then (False, tb)
         else (True, tb\<lparr>gt_active := ddel rid (gt_active tb)\<rparr>))"

definition table_release :: "string \<Rightarrow> grant_table \<Rightarrow> grant_table" where
  "table_release rid tb =
     \<lparr>gt_active = ddel rid (gt_active tb), gt_latest_epoch = ddel rid (gt_latest_epoch tb),
      gt_latest_spec_cnt = ddel rid (gt_latest_spec_cnt tb)\<rparr>"

definition table_active ::
    "string \<Rightarrow> int option \<Rightarrow> int \<Rightarrow> grant_table \<Rightarrow> execution_grant option" where
  "table_active rid spec_cnt now tb =
     (case dget (gt_active tb) rid of
        None \<Rightarrow> None
      | Some g \<Rightarrow>
         if (case spec_cnt of None \<Rightarrow> False | Some n \<Rightarrow> eg_spec_cnt g \<noteq> n) then None
         else if grant_expired now g then None
         else Some g)"

definition table_pop_expired ::
    "string \<Rightarrow> int option \<Rightarrow> int \<Rightarrow> grant_table \<Rightarrow> execution_grant option \<times> grant_table" where
  "table_pop_expired rid spec_cnt now tb =
     (case dget (gt_active tb) rid of
        None \<Rightarrow> (None, tb)
      | Some g \<Rightarrow>
         if (case spec_cnt of None \<Rightarrow> False | Some n \<Rightarrow> eg_spec_cnt g \<noteq> n) then (None, tb)
         else if \<not> grant_expired now g then (None, tb)
         else (Some g, tb\<lparr>gt_active := ddel rid (gt_active tb)\<rparr>))"

fun table_active_for ::
    "(string \<times> int) list \<Rightarrow> int \<Rightarrow> grant_table \<Rightarrow> (string, execution_grant) dict
      \<Rightarrow> (string, execution_grant) dict" where
  "table_active_for [] now tb acc = acc"
| "table_active_for ((rid, n) # ks) now tb acc =
     table_active_for ks now tb
       (case table_active rid (Some n) now tb of None \<Rightarrow> acc | Some g \<Rightarrow> dset rid g acc)"

definition table_consume_one ::
    "string \<Rightarrow> int \<Rightarrow> int \<Rightarrow> grant_table \<Rightarrow> bool \<times> grant_table" where
  "table_consume_one rid spec_cnt grant_epoch tb =
     (case dget (gt_active tb) rid of
        None \<Rightarrow> (False, tb)
      | Some g \<Rightarrow>
         if eg_spec_cnt g \<noteq> spec_cnt \<or> eg_grant_epoch g \<noteq> grant_epoch then (False, tb)
         else (True, tb\<lparr>gt_active := ddel rid (gt_active tb)\<rparr>))"

lemmas table_defs = table_apply_def table_pause_def table_release_def table_active_def
  table_pop_expired_def table_consume_one_def

section \<open>Grants are used in order, each at most once\<close>

text \<open>The position of a grant in the order the table accepts, and the position reached.\<close>

definition grant_pos :: "execution_grant \<Rightarrow> int \<times> int" where
  "grant_pos g = (eg_spec_cnt g, eg_grant_epoch g)"

definition table_mark :: "grant_table \<Rightarrow> string \<Rightarrow> int \<times> int" where
  "table_mark tb rid =
     (dget_or (gt_latest_spec_cnt tb) rid (-1), dget_or (gt_latest_epoch tb) rid 0)"

lemma apply_accepted_iff:
  "ar_accepted (fst (table_apply g tb)) \<longleftrightarrow> table_mark tb (eg_request_id g) < grant_pos g"
  by (auto simp: table_apply_def table_mark_def grant_pos_def Let_def less_prod_def)

lemma table_apply_accepted:
  "table_mark tb (eg_request_id g) < grant_pos g \<Longrightarrow> snd (table_apply g tb) =
      \<lparr>gt_active = dset (eg_request_id g) g (gt_active tb),
       gt_latest_epoch = dset (eg_request_id g) (eg_grant_epoch g) (gt_latest_epoch tb),
       gt_latest_spec_cnt = dset (eg_request_id g) (eg_spec_cnt g) (gt_latest_spec_cnt tb)\<rparr>"
  by (auto simp: table_apply_def table_mark_def grant_pos_def Let_def less_prod_def)

lemma table_apply_refused:
  "\<not> table_mark tb (eg_request_id g) < grant_pos g \<Longrightarrow> snd (table_apply g tb) = tb"
  by (auto simp: table_apply_def table_mark_def grant_pos_def Let_def less_prod_def)

lemma table_mark_apply:
  "table_mark (snd (table_apply g tb)) rid =
     (if rid = eg_request_id g \<and> table_mark tb rid < grant_pos g then grant_pos g
      else table_mark tb rid)"
  by (cases "table_mark tb (eg_request_id g) < grant_pos g")
     (auto simp: table_apply_accepted table_apply_refused, auto simp: table_mark_def grant_pos_def)

lemma table_mark_other:
  "table_mark (snd (table_pause rid s e tb)) = table_mark tb"
  "table_mark (snd (table_pop_expired rid s now tb)) = table_mark tb"
  "table_mark (snd (table_consume_one rid n ep tb)) = table_mark tb"
  by (auto simp: table_mark_def table_defs fun_eq_iff split: option.splits)

text \<open>A grant the table holds belongs to its request and is not beyond the mark.\<close>

definition table_ok :: "grant_table \<Rightarrow> bool" where
  "table_ok tb \<longleftrightarrow> dict_ok (gt_active tb) \<and>
     (\<forall>rid g. dget (gt_active tb) rid = Some g \<longrightarrow>
        eg_request_id g = rid \<and> grant_pos g = table_mark tb rid)"

lemma table_ok_new: "table_ok table_new"
  by (simp add: table_ok_def table_new_def)

lemma table_ok_apply: "table_ok tb \<Longrightarrow> table_ok (snd (table_apply g tb))"
  by (cases "table_mark tb (eg_request_id g) < grant_pos g")
     (auto simp: table_ok_def table_apply_accepted table_apply_refused,
      auto simp: table_mark_def grant_pos_def)

lemma table_ok_other:
  assumes "table_ok tb"
  shows "table_ok (snd (table_pause rid s e tb))" and "table_ok (snd (table_pop_expired rid s now tb))"
    and "table_ok (snd (table_consume_one rid n ep tb))" and "table_ok (table_release rid tb)"
  using assms
  by (auto simp: table_ok_def table_defs table_mark_def grant_pos_def split: option.splits if_splits)

section \<open>The table as a one-shot gate\<close>

text \<open>
  The contract of a gate that hands out single-use permits: a permit is accepted only beyond
  every permit accepted before, and one that is held can be taken out once, by a use or by a
  refusal.  Whatever the sequence of arrivals, repetitions and removals, the permits used are
  then strictly increasing, so none is used twice.
\<close>

datatype ('g, 'p, 'r) gate_event = Arrive 'g | Use 'p | Remove 'r

fun gate_used ::
    "('s \<Rightarrow> 'g option) \<Rightarrow> ('g \<Rightarrow> 'p) \<Rightarrow> ('s \<Rightarrow> ('g, 'p, 'r) gate_event \<Rightarrow> 's) \<Rightarrow> 's
      \<Rightarrow> ('g, 'p, 'r) gate_event list \<Rightarrow> 'g list" where
  "gate_used held pos step s [] = []"
| "gate_used held pos step s (e # es) =
     (case (e, held s) of (Use p, Some g) \<Rightarrow> (if pos g = p then [g] else []) | _ \<Rightarrow> [])
     @ gate_used held pos step (step s e) es"

locale one_shot_gate =
  fixes mine :: "'g \<Rightarrow> bool"
    and pos :: "'g \<Rightarrow> 'p::linorder"
    and held :: "'s \<Rightarrow> 'g option"
    and mark :: "'s \<Rightarrow> 'p"
    and step :: "'s \<Rightarrow> ('g, 'p, 'r) gate_event \<Rightarrow> 's"
  assumes arrive_held:
      "held (step s (Arrive g)) = (if mine g \<and> mark s < pos g then Some g else held s)"
    and arrive_mark:
      "mark (step s (Arrive g)) = (if mine g \<and> mark s < pos g then pos g else mark s)"
    and use_held: "held s = Some g \<Longrightarrow> held (step s (Use p)) = (if pos g = p then None else held s)"
    and use_none: "held s = None \<Longrightarrow> held (step s (Use p)) = None"
    and use_mark: "mark (step s (Use p)) = mark s"
    and remove_held: "held (step s (Remove r)) = None \<or> held (step s (Remove r)) = held s"
    and remove_mark: "mark (step s (Remove r)) = mark s"
begin

definition gate_ok :: "'s \<Rightarrow> bool" where
  "gate_ok s \<longleftrightarrow> (\<forall>g. held s = Some g \<longrightarrow> pos g = mark s)"

lemma gate_ok_step: "gate_ok s \<Longrightarrow> gate_ok (step s e)"
proof (cases e)
  case (Remove r)
  then show "gate_ok s \<Longrightarrow> gate_ok (step s e)"
    using remove_held [of s r] by (auto simp: gate_ok_def remove_mark)
next
  case (Use p)
  then show "gate_ok s \<Longrightarrow> gate_ok (step s e)"
    using use_held [of s] use_none [of s p]
    by (cases "held s") (auto simp: gate_ok_def use_mark split: if_splits)
qed (auto simp: gate_ok_def arrive_held arrive_mark)

lemma used_beyond:
  assumes "gate_ok s"
  shows "sorted_wrt (<) (map pos (gate_used held pos step s es))
    \<and> (\<forall>g \<in> set (gate_used held pos step s es). mark s < pos g \<or> held s = Some g)"
  using assms
proof (induction es arbitrary: s)
  case (Cons e es)
  have ok: "gate_ok (step s e)" by (rule gate_ok_step [OF Cons.prems])
  note ih = Cons.IH [OF ok]
  show ?case
  proof (cases e)
    case (Arrive g)
    with ih show ?thesis
      by (auto simp: arrive_held arrive_mark split: if_splits dest: order.strict_trans)
  next
    case (Use p)
    with ih Cons.prems use_held [of s] use_none [of s p] show ?thesis
      by (cases "held s") (auto simp: use_mark gate_ok_def split: if_splits)
  next
    case (Remove r)
    with ih remove_held [of s r] show ?thesis by (auto simp: remove_mark)
  qed
qed simp

end

datatype removal = Paused "int option" "int option" | Expired "int option" int

fun table_step ::
    "string \<Rightarrow> grant_table \<Rightarrow> (execution_grant, int \<times> int, removal) gate_event \<Rightarrow> grant_table" where
  "table_step rid tb (Arrive g) = snd (table_apply g tb)"
| "table_step rid tb (Use p) = snd (table_consume_one rid (fst p) (snd p) tb)"
| "table_step rid tb (Remove (Paused n e)) = snd (table_pause rid n e tb)"
| "table_step rid tb (Remove (Expired n now)) = snd (table_pop_expired rid n now tb)"

lemma table_apply_held:
  "dget (gt_active (snd (table_apply g tb))) rid =
     (if eg_request_id g = rid \<and> table_mark tb rid < grant_pos g then Some g
      else dget (gt_active tb) rid)"
  by (cases "table_mark tb (eg_request_id g) < grant_pos g")
     (auto simp: table_apply_accepted table_apply_refused)

lemma table_consume_held:
  "dget (gt_active (snd (table_consume_one r n e tb))) rid =
     (case dget (gt_active tb) rid of None \<Rightarrow> None
      | Some g \<Rightarrow> if r = rid \<and> grant_pos g = (n, e) then None else Some g)"
  by (auto simp: table_consume_one_def grant_pos_def split: option.splits)

lemma table_remove_held:
  "dget (gt_active (snd (table_pause r n e tb))) rid \<in> {None, dget (gt_active tb) rid}"
  "dget (gt_active (snd (table_pop_expired r n now tb))) rid \<in> {None, dget (gt_active tb) rid}"
  by (auto simp: table_defs split: option.splits)

interpretation grant_gate: one_shot_gate "\<lambda>g. eg_request_id g = rid" grant_pos
  "\<lambda>tb. dget (gt_active tb) rid" "\<lambda>tb. table_mark tb rid" "table_step rid"
  for rid
proof
  fix tb :: grant_table and r :: removal
  show "dget (gt_active (table_step rid tb (Remove r))) rid = None
      \<or> dget (gt_active (table_step rid tb (Remove r))) rid = dget (gt_active tb) rid"
    using table_remove_held [of rid _ _ tb rid] by (cases r) auto
  show "table_mark (table_step rid tb (Remove r)) rid = table_mark tb rid"
    by (cases r) (simp_all add: table_mark_other)
qed (auto simp: table_apply_held table_mark_apply table_consume_held table_mark_other)

text \<open>
  C16: whatever grants reach a fresh table, in whatever order and however often, and whatever
  pauses and expiries happen in between, the grants of a request that are consumed have
  strictly increasing (round, epoch) pairs: no grant authorises two Draft steps and none is
  used after a later one.
\<close>

theorem grants_consumed_once:
  "sorted_wrt (<) (map grant_pos
     (gate_used (\<lambda>tb. dget (gt_active tb) rid) grant_pos (table_step rid) table_new es))"
proof -
  have "grant_gate.gate_ok rid table_new"
    by (simp add: grant_gate.gate_ok_def table_new_def)
  then show ?thesis using grant_gate.used_beyond by blast
qed

end
