(* ===== verification/ResourceProfile.thy ===== *)
theory ResourceProfile
  imports Prelude
begin

text \<open>
  The offline resource profile (\<open>specstream/resource_profile.py\<close>): measured costs of Draft
  steps on a number of TPCs and the selection of an entry that is safe for the Target.  A JSON
  object is a record of optional, already typed fields (a missing key is \<open>None\<close>); reading the
  file and converting JSON values of other types are not modelled.  The shape names
  \<open>verify_bs<n>_q<n>_ctx<label>\<close> that \<open>_register_grant_reqs\<close> of \<open>verifier.py\<close> prints and the
  validation of \<open>from_dict\<close> parses are modelled on strings.
\<close>

section \<open>Decimal numbers and shape names\<close>

definition digit_char :: "nat \<Rightarrow> char" where
  "digit_char d = char_of (48 + d)"

definition is_digit :: "char \<Rightarrow> bool" where
  "is_digit c \<longleftrightarrow> 48 \<le> (of_char c :: nat) \<and> (of_char c :: nat) \<le> 57"

function show_nat :: "nat \<Rightarrow> string" where
  "show_nat n = (if n < 10 then [digit_char n] else show_nat (n div 10) @ [digit_char (n mod 10)])"
  by pat_completeness auto
termination by (relation "measure id") auto

declare show_nat.simps [simp del]

definition read_nat :: "string \<Rightarrow> nat" where
  "read_nat ds = foldl (\<lambda>n c. 10 * n + (of_char c - 48)) 0 ds"

definition strip_prefix :: "string \<Rightarrow> string \<Rightarrow> string option" where
  "strip_prefix p s = (if prefix p s then Some (drop (length p) s) else None)"

definition show_int :: "int \<Rightarrow> string" where
  "show_int i = (if i < 0 then CHR ''-'' # show_nat (nat (- i)) else show_nat (nat i))"

text \<open>\<open>f"verify_bs{batch_size}_q{q}_ctx{ctx_bucket}"\<close>.\<close>

definition target_shape_name :: "nat \<Rightarrow> int \<Rightarrow> string \<Rightarrow> string" where
  "target_shape_name bs q ctx =
     ''verify_bs'' @ show_nat bs @ ''_q'' @ show_int q @ ''_ctx'' @ ctx"

text \<open>
  \<open>re.fullmatch(r"verify_bs(\d+)_q(\d+)_ctx(.+)", s)\<close>: a run of digits is followed by an
  underscore, so the greedy match is the only one; the dot matches no newline.
\<close>

definition parse_shape :: "string \<Rightarrow> (nat \<times> nat \<times> string) option" where
  "parse_shape s =
     (case strip_prefix ''verify_bs'' s of None \<Rightarrow> None | Some s1 \<Rightarrow>
      let bs = takeWhile is_digit s1 in
      if bs = [] then None else
      case strip_prefix ''_q'' (dropWhile is_digit s1) of None \<Rightarrow> None | Some s2 \<Rightarrow>
      let q = takeWhile is_digit s2 in
      if q = [] then None else
      case strip_prefix ''_ctx'' (dropWhile is_digit s2) of None \<Rightarrow> None | Some ctx \<Rightarrow>
      if ctx = [] \<or> CHR 0x0A \<in> set ctx then None else Some (read_nat bs, read_nat q, ctx))"

lemma of_char_digit: "d < 10 \<Longrightarrow> of_char (digit_char d) = 48 + d"
  by (simp add: digit_char_def)

lemma is_digit_digit [simp]: "d < 10 \<Longrightarrow> is_digit (digit_char d)"
  by (simp add: is_digit_def of_char_digit)

lemma show_nat_digits: "show_nat n \<noteq> [] \<and> (\<forall>c \<in> set (show_nat n). is_digit c)"
proof (induction n rule: show_nat.induct)
  case (1 n)
  then show ?case by (auto simp: show_nat.simps [of n])
qed

lemma read_show_nat: "read_nat (show_nat n) = n"
proof (induction n rule: show_nat.induct)
  case (1 n)
  then show ?case
    by (cases "n < 10") (auto simp: show_nat.simps [of n] read_nat_def of_char_digit)
qed

lemma takeWhile_show: "\<not> is_digit c \<Longrightarrow> takeWhile is_digit (show_nat n @ c # r) = show_nat n"
  using show_nat_digits [of n] by (simp add: takeWhile_append2)

lemma dropWhile_show: "\<not> is_digit c \<Longrightarrow> dropWhile is_digit (show_nat n @ c # r) = c # r"
  using show_nat_digits [of n] by (simp add: dropWhile_append2)

lemma strip_prefix_append [simp]: "strip_prefix p (p @ s) = Some s"
  by (simp add: strip_prefix_def)

lemma underscore_no_digit [simp]: "\<not> is_digit CHR ''_''"
  by (simp add: is_digit_def)

text \<open>
  C31: the shape name the Target prints for a round is parsed back by the profile validation
  into the same batch size, draft length and context bucket, for a draft length that is not
  negative and a context bucket that is neither empty nor contains a line break.
\<close>

theorem shape_name_roundtrip:
  assumes "ctx \<noteq> []" and "CHR 0x0A \<notin> set ctx"
  shows "parse_shape (target_shape_name bs (int q) ctx) = Some (bs, q, ctx)"
proof -
  let ?s2 = "show_nat q @ CHR ''_'' # ''ctx'' @ ctx"
  let ?s1 = "show_nat bs @ CHR ''_'' # ''q'' @ ?s2"
  have "strip_prefix ''verify_bs'' (target_shape_name bs (int q) ctx) = Some ?s1"
    using strip_prefix_append [of "''verify_bs''" ?s1]
    by (simp add: target_shape_name_def show_int_def)
  moreover have "takeWhile is_digit ?s1 = show_nat bs" "takeWhile is_digit ?s2 = show_nat q"
    by (simp_all only: takeWhile_show underscore_no_digit not_False_eq_True)
  moreover have "strip_prefix ''_q'' (dropWhile is_digit ?s1) = Some ?s2"
    using strip_prefix_append [of "''_q''" ?s2]
    by (simp only: dropWhile_show underscore_no_digit not_False_eq_True append_Cons append_Nil)
  moreover have "strip_prefix ''_ctx'' (dropWhile is_digit ?s2) = Some ctx"
    using strip_prefix_append [of "''_ctx''" ctx]
    by (simp only: dropWhile_show underscore_no_digit not_False_eq_True append_Cons append_Nil)
  ultimately show ?thesis
    using assms show_nat_digits [of bs] show_nat_digits [of q]
    by (simp add: parse_shape_def Let_def read_show_nat)
qed

theorem shape_name_roundtrip_witness:
  "parse_shape (target_shape_name 16 4 ''64k+'') = Some (16, 4, ''64k+'')"
  using shape_name_roundtrip [of "''64k+''" 16 4] by simp

section \<open>Profile entries\<close>

record profile_entry =
  pe_target_shape :: string
  pe_draft_bs :: int
  pe_draft_ctx_bucket :: string
  pe_draft_tpcs :: int
  pe_draft_step_ms :: real
  pe_target_slowdown :: real
  pe_target_baseline_ms :: real

record raw_entry =
  re_target_shape :: "string option"
  re_draft_bs :: "int option"
  re_draft_ctx_bucket :: "string option"
  re_draft_tpcs :: "int option"
  re_draft_step_ms :: "pyfloat option"
  re_target_slowdown :: "pyfloat option"
  re_target_baseline_ms :: "pyfloat option"

definition need :: "'a option \<Rightarrow> 'a res" where
  "need x = (case x of None \<Rightarrow> Inl KeyError | Some v \<Rightarrow> Inr v)"

text \<open>\<open>not math.isfinite(x) or x < bound\<close>, for a strict or a weak bound at zero.\<close>

definition bad_positive :: "pyfloat \<Rightarrow> bool" where
  "bad_positive x \<longleftrightarrow> \<not> isfinite x \<or> fin_val x \<le> 0"

definition bad_nonneg :: "pyfloat \<Rightarrow> bool" where
  "bad_nonneg x \<longleftrightarrow> \<not> isfinite x \<or> fin_val x < 0"

definition shape_mismatch :: "string \<Rightarrow> int \<Rightarrow> string \<Rightarrow> bool" where
  "shape_mismatch shape bs ctx =
     (case parse_shape shape of None \<Rightarrow> False | Some (n, _, c) \<Rightarrow> int n \<noteq> bs \<or> c \<noteq> ctx)"

definition entry_from_dict :: "raw_entry \<Rightarrow> profile_entry res" where
  "entry_from_dict v =
     rbind (need (re_target_shape v)) (\<lambda>shape.
     rbind (need (re_draft_bs v)) (\<lambda>bs.
     rbind (need (re_draft_ctx_bucket v)) (\<lambda>ctx.
     rbind (need (re_draft_tpcs v)) (\<lambda>tpcs.
     rbind (need (re_draft_step_ms v)) (\<lambda>step.
     rbind (need (re_target_slowdown v)) (\<lambda>slow.
     let base = (case re_target_baseline_ms v of None \<Rightarrow> Fin 0 | Some b \<Rightarrow> b) in
     rbind (raise_first
       [(shape = [], ValueError), (bs < 1 \<or> tpcs < 1, ValueError),
        (bad_positive step, ValueError), (bad_nonneg slow, ValueError),
        (bad_nonneg base, ValueError), (shape_mismatch shape bs ctx, ValueError)]) (\<lambda>_.
     Inr \<lparr>pe_target_shape = shape, pe_draft_bs = bs, pe_draft_ctx_bucket = ctx,
          pe_draft_tpcs = tpcs, pe_draft_step_ms = fin_val step,
          pe_target_slowdown = fin_val slow, pe_target_baseline_ms = fin_val base\<rparr>)))))))"

record resource_profile =
  rp_gpu :: string
  rp_draft_model :: string
  rp_target_model :: string
  rp_total_tpcs :: int
  rp_entries :: "profile_entry list"

record raw_profile =
  rw_schema_version :: "int option"
  rw_entries :: "raw_entry list"
  rw_total_tpcs :: "int option"
  rw_gpu :: "string option"
  rw_draft_model :: "string option"
  rw_target_model :: "string option"

definition entry_key :: "profile_entry \<Rightarrow> string \<times> int \<times> string \<times> int" where
  "entry_key e = (pe_target_shape e, pe_draft_bs e, pe_draft_ctx_bucket e, pe_draft_tpcs e)"

definition or_empty :: "string option \<Rightarrow> string" where
  "or_empty x = (case x of None \<Rightarrow> [] | Some s \<Rightarrow> s)"

definition profile_from_dict :: "raw_profile \<Rightarrow> resource_profile res" where
  "profile_from_dict v =
     (if (case rw_schema_version v of None \<Rightarrow> 1 | Some n \<Rightarrow> n) \<noteq> 1 then Inl ValueError
      else rbind (rmap entry_from_dict (rw_entries v)) (\<lambda>entries.
        if entries = [] then Inl ValueError
        else if card (set (map entry_key entries)) \<noteq> length entries then Inl ValueError
        else
         let most = Max (set (map pe_draft_tpcs entries));
             total = (case rw_total_tpcs v of None \<Rightarrow> most | Some n \<Rightarrow> if n = 0 then most else n)
         in if total < most then Inl ValueError
            else Inr \<lparr>rp_gpu = or_empty (rw_gpu v), rp_draft_model = or_empty (rw_draft_model v),
                      rp_target_model = or_empty (rw_target_model v), rp_total_tpcs = total,
                      rp_entries = entries\<rparr>))"

section \<open>Selection\<close>

text \<open>
  \<open>load\<close>: \<open>read\<close> is reading the file and parsing its JSON, without a result when the file is missing,
  unreadable or no JSON.
\<close>

definition profile_load :: "(string \<Rightarrow> raw_profile option) \<Rightarrow> string \<Rightarrow> resource_profile res" where
  "profile_load read path = (case read path of None \<Rightarrow> Inl RuntimeError | Some v \<Rightarrow> profile_from_dict v)"

definition matching :: "resource_profile \<Rightarrow> string \<Rightarrow> int \<Rightarrow> string \<Rightarrow> profile_entry list" where
  "matching p shape bs ctx =
     (let exact = filter (\<lambda>e. pe_target_shape e = shape \<and> pe_draft_bs e = bs
                              \<and> pe_draft_ctx_bucket e = ctx) (rp_entries p)
      in if exact \<noteq> [] then exact
         else filter (\<lambda>e. pe_target_shape e \<in> {shape, ''*''} \<and> pe_draft_bs e = bs
                          \<and> pe_draft_ctx_bucket e \<in> {ctx, ''*''}) (rp_entries p))"

definition entry_safe :: "real \<Rightarrow> real option \<Rightarrow> real \<Rightarrow> profile_entry \<Rightarrow> bool" where
  "entry_safe budget slack guard e \<longleftrightarrow>
     \<not> budget < pe_target_slowdown e
     \<and> (case slack of None \<Rightarrow> True | Some s \<Rightarrow> \<not> s < pe_draft_step_ms e * 1000 + guard)"

definition safe_entries ::
    "resource_profile \<Rightarrow> string \<Rightarrow> int \<Rightarrow> string \<Rightarrow> real \<Rightarrow> real option \<Rightarrow> real
      \<Rightarrow> profile_entry list" where
  "safe_entries p shape bs ctx budget slack guard =
     sort_key pe_draft_tpcs (filter (entry_safe budget slack guard) (matching p shape bs ctx))"

definition select_safe ::
    "resource_profile \<Rightarrow> string \<Rightarrow> int \<Rightarrow> string \<Rightarrow> real \<Rightarrow> real \<Rightarrow> real
      \<Rightarrow> profile_entry option" where
  "select_safe p shape bs ctx budget slack guard =
     (let safe = safe_entries p shape bs ctx budget (Some slack) guard
      in if safe = [] then None else Some (last safe))"

text \<open>\<open>max(matches, key=..., default=None)\<close>: the first of the entries with the most TPCs.\<close>

fun max_tpcs :: "profile_entry list \<Rightarrow> profile_entry option" where
  "max_tpcs [] = None"
| "max_tpcs (e # es) =
     (case max_tpcs es of None \<Rightarrow> Some e
      | Some b \<Rightarrow> if pe_draft_tpcs e < pe_draft_tpcs b then Some b else Some e)"

definition select_catchup ::
    "resource_profile \<Rightarrow> string \<Rightarrow> int \<Rightarrow> string \<Rightarrow> profile_entry option" where
  "select_catchup p shape bs ctx = max_tpcs (matching p shape bs ctx)"

definition context_bucket :: "int \<Rightarrow> string" where
  "context_bucket n =
     (let c = max n 0 in
      if c \<le> 2048 then ''2k'' else if c \<le> 4096 then ''4k'' else if c \<le> 8192 then ''8k''
      else if c \<le> 16384 then ''16k'' else if c \<le> 32768 then ''32k''
      else if c \<le> 65536 then ''64k'' else ''64k+'')"

section \<open>Lemmas\<close>

lemma need_Inr_iff [simp]: "need x = Inr v \<longleftrightarrow> x = Some v"
  by (simp add: need_def split: option.splits)

definition entry_ok :: "profile_entry \<Rightarrow> bool" where
  "entry_ok e \<longleftrightarrow> pe_target_shape e \<noteq> [] \<and> 1 \<le> pe_draft_bs e \<and> 1 \<le> pe_draft_tpcs e
     \<and> 0 < pe_draft_step_ms e \<and> 0 \<le> pe_target_slowdown e \<and> 0 \<le> pe_target_baseline_ms e
     \<and> \<not> shape_mismatch (pe_target_shape e) (pe_draft_bs e) (pe_draft_ctx_bucket e)"

lemma entry_from_dict_ok: "entry_from_dict v = Inr e \<Longrightarrow> entry_ok e"
  by (auto simp: entry_from_dict_def entry_ok_def rbind_Inr_iff Let_def bad_positive_def
      bad_nonneg_def)

definition profile_ok :: "resource_profile \<Rightarrow> bool" where
  "profile_ok p \<longleftrightarrow> rp_entries p \<noteq> [] \<and> distinct (map entry_key (rp_entries p))
     \<and> (\<forall>e \<in> set (rp_entries p). entry_ok e \<and> pe_draft_tpcs e \<le> rp_total_tpcs p)"

lemma profile_from_dict_ok:
  assumes "profile_from_dict v = Inr p"
  shows "profile_ok p"
proof -
  obtain es where es: "rmap entry_from_dict (rw_entries v) = Inr es" "rp_entries p = es"
      "es \<noteq> []" "card (set (map entry_key es)) = length es"
      "\<not> rp_total_tpcs p < Max (set (map pe_draft_tpcs es))"
    using assms by (auto simp: profile_from_dict_def rbind_Inr_iff Let_def split: if_splits)
  have "distinct (map entry_key es)" using es(4) by (intro card_distinct) simp
  moreover have "\<forall>e \<in> set es. entry_ok e" using rmap_Inr_set [OF es(1)] entry_from_dict_ok by blast
  moreover have "\<forall>e \<in> set es. pe_draft_tpcs e \<le> rp_total_tpcs p"
  proof
    fix e assume "e \<in> set es"
    then have "pe_draft_tpcs e \<le> Max (set (map pe_draft_tpcs es))" by (intro Max_ge) auto
    with es(5) show "pe_draft_tpcs e \<le> rp_total_tpcs p" by linarith
  qed
  ultimately show ?thesis using es(2,3) by (simp add: profile_ok_def)
qed

definition entry_matches :: "string \<Rightarrow> int \<Rightarrow> string \<Rightarrow> profile_entry \<Rightarrow> bool" where
  "entry_matches shape bs ctx e \<longleftrightarrow> pe_target_shape e \<in> {shape, ''*''} \<and> pe_draft_bs e = bs
     \<and> pe_draft_ctx_bucket e \<in> {ctx, ''*''}"

lemma set_matching:
  "e \<in> set (matching p shape bs ctx) \<Longrightarrow> e \<in> set (rp_entries p) \<and> entry_matches shape bs ctx e"
  by (auto simp: matching_def Let_def entry_matches_def split: if_splits)

lemma set_safe_entries:
  "set (safe_entries p shape bs ctx b s g) =
     {e \<in> set (matching p shape bs ctx). entry_safe b s g e}"
  by (auto simp: safe_entries_def)

lemma sorted_last_max:
  "sorted (map f xs) \<Longrightarrow> x \<in> set xs \<Longrightarrow> f x \<le> f (last xs)"
  by (induction xs) auto

lemma select_safe_Some:
  assumes "select_safe p shape bs ctx b s g = Some e"
  shows "e \<in> set (matching p shape bs ctx)" and "entry_safe b (Some s) g e"
    and "\<forall>e' \<in> set (matching p shape bs ctx). entry_safe b (Some s) g e'
           \<longrightarrow> pe_draft_tpcs e' \<le> pe_draft_tpcs e"
proof -
  let ?safe = "safe_entries p shape bs ctx b (Some s) g"
  have ne: "?safe \<noteq> []" and e: "e = last ?safe"
    using assms by (auto simp: select_safe_def Let_def split: if_splits)
  then have "e \<in> set ?safe" by simp
  then show "e \<in> set (matching p shape bs ctx)" "entry_safe b (Some s) g e"
    by (auto simp: set_safe_entries)
  have "sorted (map pe_draft_tpcs ?safe)" by (simp add: safe_entries_def)
  then show "\<forall>e' \<in> set (matching p shape bs ctx). entry_safe b (Some s) g e'
      \<longrightarrow> pe_draft_tpcs e' \<le> pe_draft_tpcs e"
    using sorted_last_max [of pe_draft_tpcs ?safe] e by (auto simp: set_safe_entries)
qed

lemma select_safe_None:
  "select_safe p shape bs ctx b s g = None \<longleftrightarrow>
     (\<forall>e \<in> set (matching p shape bs ctx). \<not> entry_safe b (Some s) g e)"
proof -
  have "select_safe p shape bs ctx b s g = None \<longleftrightarrow>
      set (safe_entries p shape bs ctx b (Some s) g) = {}"
    by (simp add: select_safe_def Let_def)
  then show ?thesis by (auto simp: set_safe_entries)
qed

lemma max_tpcs_Some:
  "max_tpcs es = Some e \<Longrightarrow> e \<in> set es \<and> (\<forall>e' \<in> set es. pe_draft_tpcs e' \<le> pe_draft_tpcs e)"
proof (induction es arbitrary: e)
  case (Cons a es)
  then show ?case
  proof (cases "max_tpcs es")
    case None
    then have "es = []" by (cases es) (auto split: option.splits if_splits)
    with Cons.prems show ?thesis by simp
  next
    case (Some b)
    with Cons.IH [OF Some] Cons.prems show ?thesis by (auto split: if_splits)
  qed
qed simp

end
