(* ===== verification/GrantController.thy ===== *)
theory GrantController
  imports ResourceProfile
begin

text \<open>
  The Target-priority gate (\<open>specstream/gpu_grant_controller.py\<close>) and the complementary TPC
  split (\<open>specstream/tpc_partition.py\<close>): whether a Draft step may run, on which TPCs, and which
  TPCs that leaves to the Target.
\<close>

section \<open>Decisions\<close>

datatype grant_state = TARGET_EXCLUSIVE | SLACK_FILL | DRAFT_CATCHUP

fun grant_state_value :: "grant_state \<Rightarrow> string" where
  "grant_state_value TARGET_EXCLUSIVE = ''TARGET_EXCLUSIVE''"
| "grant_state_value SLACK_FILL = ''SLACK_FILL''"
| "grant_state_value DRAFT_CATCHUP = ''DRAFT_CATCHUP''"

record grant_decision =
  gd_state :: grant_state
  gd_reason :: string
  gd_tpc_low :: int
  gd_tpc_high :: int
  gd_deadline_us :: "int option"
  gd_profile_entry :: "profile_entry option"

definition decision_exclusive :: "string \<Rightarrow> grant_decision" where
  "decision_exclusive reason =
     \<lparr>gd_state = TARGET_EXCLUSIVE, gd_reason = reason, gd_tpc_low = 0, gd_tpc_high = 0,
      gd_deadline_us = None, gd_profile_entry = None\<rparr>"

definition allows_draft :: "grant_decision \<Rightarrow> bool" where
  "allows_draft d \<longleftrightarrow> gd_state d \<noteq> TARGET_EXCLUSIVE"

record grant_controller =
  gc_profile :: "resource_profile option"
  gc_target_slowdown_budget :: real
  gc_guard_us :: real
  gc_calibration_tpcs :: int
  gc_calibration_allow_overlap :: bool
  gc_force_exclusive :: bool
  gc_force_reason :: string

definition controller_new ::
    "resource_profile option \<Rightarrow> real \<Rightarrow> real \<Rightarrow> int \<Rightarrow> bool \<Rightarrow> grant_controller res" where
  "controller_new profile budget guard cal_tpcs cal_overlap =
     rbind (raise_first
       [(\<not> (0 \<le> budget \<and> budget \<le> 1), ValueError), (guard < 0, ValueError),
        (cal_tpcs < 0, ValueError), (profile = None \<and> cal_tpcs < 1, ValueError)]) (\<lambda>_.
     Inr \<lparr>gc_profile = profile, gc_target_slowdown_budget = budget, gc_guard_us = guard,
          gc_calibration_tpcs = cal_tpcs, gc_calibration_allow_overlap = cal_overlap,
          gc_force_exclusive = False, gc_force_reason = []\<rparr>)"

definition record_overlap_slowdown :: "real \<Rightarrow> grant_controller \<Rightarrow> grant_controller" where
  "record_overlap_slowdown slowdown c =
     (if gc_target_slowdown_budget c < slowdown
      then c\<lparr>gc_force_exclusive := True,
             gc_force_reason := ''observed_target_slowdown_over_budget''\<rparr>
      else c)"

definition clear_slowdown_latch :: "grant_controller \<Rightarrow> grant_controller" where
  "clear_slowdown_latch c = c\<lparr>gc_force_exclusive := False, gc_force_reason := []\<rparr>"

text \<open>The arguments of \<open>decide\<close>.\<close>

record decide_args =
  da_target_shape :: string
  da_draft_bs :: int
  da_draft_ctx_bucket :: string
  da_predicted_slack_us :: real
  da_target_waiting :: bool
  da_deadline_us :: "int option"

definition decide :: "grant_controller \<Rightarrow> decide_args \<Rightarrow> grant_decision res" where
  "decide c a =
     (let grant = (\<lambda>st reason tpcs entry.
            \<lparr>gd_state = st, gd_reason = reason, gd_tpc_low = 0, gd_tpc_high = tpcs,
             gd_deadline_us = da_deadline_us a, gd_profile_entry = entry\<rparr>)
      in
      if 0 < gc_calibration_tpcs c then
        Inr (if da_target_waiting a
             then grant DRAFT_CATCHUP ''calibration_fixed_tpc_target_wait''
                    (gc_calibration_tpcs c) None
             else if gc_calibration_allow_overlap c
             then grant SLACK_FILL ''calibration_fixed_tpc_overlap''
                    (gc_calibration_tpcs c) None
             else decision_exclusive ''calibration_wait_only'')
      else if da_target_waiting a then
        (case gc_profile c of
           None \<Rightarrow> Inl AssertionError
         | Some p \<Rightarrow>
            Inr (case select_catchup p (da_target_shape a) (da_draft_bs a)
                        (da_draft_ctx_bucket a) of
                   None \<Rightarrow> decision_exclusive ''no_calibrated_catchup_entry''
                 | Some e \<Rightarrow> grant DRAFT_CATCHUP ''target_waiting_for_draft''
                               (pe_draft_tpcs e) (Some e)))
      else if gc_force_exclusive c then Inr (decision_exclusive (gc_force_reason c))
      else if da_predicted_slack_us a \<le> 0 then
        Inr (decision_exclusive ''no_predicted_slack'')
      else
        (case gc_profile c of
           None \<Rightarrow> Inl AssertionError
         | Some p \<Rightarrow>
            Inr (case select_safe p (da_target_shape a) (da_draft_bs a)
                        (da_draft_ctx_bucket a) (gc_target_slowdown_budget c)
                        (da_predicted_slack_us a) (gc_guard_us c) of
                   None \<Rightarrow> decision_exclusive ''no_measured_safe_profile_entry''
                 | Some e \<Rightarrow> grant SLACK_FILL ''measured_safe_slack''
                               (pe_draft_tpcs e) (Some e))))"

section \<open>What a decision guarantees\<close>

definition controller_ok :: "grant_controller \<Rightarrow> bool" where
  "controller_ok c \<longleftrightarrow> (gc_profile c = None \<longrightarrow> 1 \<le> gc_calibration_tpcs c)
     \<and> (\<forall>p. gc_profile c = Some p \<longrightarrow> profile_ok p)
     \<and> 0 \<le> gc_calibration_tpcs c \<and> 0 \<le> gc_guard_us c"

lemma controller_new_ok:
  "controller_new p b g ct co = Inr c \<Longrightarrow> (\<And>q. p = Some q \<Longrightarrow> profile_ok q) \<Longrightarrow> controller_ok c"
  by (auto simp: controller_new_def controller_ok_def rbind_Inr_iff)

lemma controller_ok_latch:
  "controller_ok c \<Longrightarrow> controller_ok (record_overlap_slowdown s c)"
  "controller_ok c \<Longrightarrow> controller_ok (clear_slowdown_latch c)"
  by (auto simp: controller_ok_def record_overlap_slowdown_def clear_slowdown_latch_def)

lemma decide_total: "controller_ok c \<Longrightarrow> \<exists>d. decide c a = Inr d"
  by (auto simp: decide_def controller_ok_def Let_def split: option.splits)

text \<open>A decision that admits the Draft has a non-empty prefix range of TPCs.\<close>

lemma decide_range:
  assumes "controller_ok c" and "decide c a = Inr d" and "allows_draft d"
  shows "gd_tpc_low d = 0 \<and> 1 \<le> gd_tpc_high d \<and> gd_deadline_us d = da_deadline_us a"
proof -
  have entry: "1 \<le> pe_draft_tpcs e" if "gc_profile c = Some p" "e \<in> set (matching p s b x)" for p e s b x
    using assms(1) that set_matching [OF that(2)]
    by (auto simp: controller_ok_def profile_ok_def entry_ok_def)
  have safe: "1 \<le> pe_draft_tpcs e" if "gc_profile c = Some p" "select_safe p s b x g h k = Some e"
    for p s b x g h k e
    using entry [OF that(1)] select_safe_Some(1) [OF that(2)] by blast
  have catchup: "1 \<le> pe_draft_tpcs e" if "gc_profile c = Some p" "select_catchup p s b x = Some e"
    for p s b x e
    using entry [OF that(1)] max_tpcs_Some that(2) unfolding select_catchup_def by blast
  show ?thesis
    using assms(2,3)
    by (auto simp: decide_def Let_def allows_draft_def decision_exclusive_def
        intro: safe catchup split: if_splits option.splits)
qed

text \<open>
  C17: outside calibration the Draft may overlap a running Target only under a measured
  guarantee: the slowdown latch is open, the slack is positive, and the decision carries a
  profile entry recorded for this shape (or a wildcard), batch size and context bucket whose
  measured Target slowdown is within budget and whose step fits the slack with the guard;
  no other admissible entry uses more TPCs.
\<close>

theorem overlap_only_if_measured_safe:
  assumes "gc_calibration_tpcs c = 0" and "decide c a = Inr d" and "gd_state d = SLACK_FILL"
  shows "\<not> gc_force_exclusive c \<and> \<not> da_target_waiting a \<and> 0 < da_predicted_slack_us a
    \<and> (\<exists>p e. gc_profile c = Some p \<and> gd_profile_entry d = Some e
        \<and> e \<in> set (rp_entries p)
        \<and> entry_matches (da_target_shape a) (da_draft_bs a) (da_draft_ctx_bucket a) e
        \<and> pe_target_slowdown e \<le> gc_target_slowdown_budget c
        \<and> pe_draft_step_ms e * 1000 + gc_guard_us c \<le> da_predicted_slack_us a
        \<and> gd_tpc_low d = 0 \<and> gd_tpc_high d = pe_draft_tpcs e
        \<and> (\<forall>e' \<in> set (matching p (da_target_shape a) (da_draft_bs a) (da_draft_ctx_bucket a)).
              entry_safe (gc_target_slowdown_budget c) (Some (da_predicted_slack_us a))
                (gc_guard_us c) e' \<longrightarrow> pe_draft_tpcs e' \<le> pe_draft_tpcs e))"
proof -
  obtain p e where p: "gc_profile c = Some p" and e: "select_safe p (da_target_shape a)
      (da_draft_bs a) (da_draft_ctx_bucket a) (gc_target_slowdown_budget c)
      (da_predicted_slack_us a) (gc_guard_us c) = Some e"
    and d: "gd_profile_entry d = Some e" "gd_tpc_low d = 0" "gd_tpc_high d = pe_draft_tpcs e"
    and g: "\<not> gc_force_exclusive c" "\<not> da_target_waiting a" "0 < da_predicted_slack_us a"
    using assms
    by (auto simp: decide_def Let_def decision_exclusive_def split: if_splits option.splits)
  note sel = select_safe_Some [OF e]
  show ?thesis
    using p d g sel set_matching [OF sel(1)] by (auto simp: entry_safe_def)
qed

definition ex_entry :: "int \<Rightarrow> real \<Rightarrow> real \<Rightarrow> profile_entry" where
  "ex_entry tpcs step slow =
     \<lparr>pe_target_shape = ''*'', pe_draft_bs = 1, pe_draft_ctx_bucket = ''2k'',
      pe_draft_tpcs = tpcs, pe_draft_step_ms = step, pe_target_slowdown = slow,
      pe_target_baseline_ms = 10\<rparr>"

definition ex_profile :: resource_profile where
  "ex_profile = \<lparr>rp_gpu = [], rp_draft_model = [], rp_target_model = [], rp_total_tpcs = 16,
     rp_entries = [ex_entry 4 1 0, ex_entry 8 1 (1 / 50), ex_entry 16 1 (1 / 2)]\<rparr>"

definition ex_controller :: grant_controller where
  "ex_controller = \<lparr>gc_profile = Some ex_profile, gc_target_slowdown_budget = 1 / 20,
     gc_guard_us = 200, gc_calibration_tpcs = 0, gc_calibration_allow_overlap = False,
     gc_force_exclusive = False, gc_force_reason = []\<rparr>"

definition ex_args :: decide_args where
  "ex_args = \<lparr>da_target_shape = ''verify_bs1_q4_ctx2k'', da_draft_bs = 1,
     da_draft_ctx_bucket = ''2k'', da_predicted_slack_us = 5000, da_target_waiting = False,
     da_deadline_us = None\<rparr>"

lemmas ex_ctl_simps = ex_entry_def ex_profile_def ex_controller_def ex_args_def decide_def
  select_safe_def safe_entries_def matching_def entry_safe_def Let_def decision_exclusive_def

theorem overlap_only_if_measured_safe_witness:
  "\<exists>d. decide ex_controller ex_args = Inr d \<and> gd_state d = SLACK_FILL \<and> gd_tpc_high d = 8
     \<and> (\<exists>e. gd_profile_entry d = Some e \<and> pe_target_slowdown e \<le> 1 / 20)"
proof -
  obtain d where d: "decide ex_controller ex_args = Inr d" "gd_state d = SLACK_FILL"
      "gd_tpc_high d = 8"
    by (simp add: ex_ctl_simps)
  have "gc_calibration_tpcs ex_controller = 0" by (simp add: ex_controller_def)
  from overlap_only_if_measured_safe [OF this d(1,2)] d show ?thesis
    by (auto simp: ex_controller_def)
qed

section \<open>The complementary partition\<close>

record tpc_partition =
  tp_total_tpcs :: int
  tp_draft_low :: int
  tp_draft_high :: int
  tp_target_low :: int
  tp_target_high :: int

definition draft_tpcs :: "tpc_partition \<Rightarrow> int" where
  "draft_tpcs p = tp_draft_high p - tp_draft_low p"

definition target_tpcs :: "tpc_partition \<Rightarrow> int" where
  "target_tpcs p = tp_target_high p - tp_target_low p"

definition normalize_range :: "int \<Rightarrow> int \<times> int \<Rightarrow> (int \<times> int) res" where
  "normalize_range tot r =
     (case r of (low, high) \<Rightarrow>
       if low < 0 \<or> high \<le> low \<or> tot < high then Inl ValueError
       else if low \<noteq> 0 then Inl ValueError
       else Inr (low, high))"

definition build_complementary_tpc_partition ::
    "int \<Rightarrow> (int \<times> int) list \<Rightarrow> tpc_partition option res" where
  "build_complementary_tpc_partition tot ranges =
     (if tot < 2 then Inl ValueError
      else rbind (rmap (normalize_range tot) ranges) (\<lambda>normalized.
        if normalized = [] then Inr None
        else
         let draft_high = Max (set (map snd normalized)) in
         if tot \<le> draft_high then Inl ValueError
         else Inr (Some \<lparr>tp_total_tpcs = tot, tp_draft_low = 0, tp_draft_high = draft_high,
                         tp_target_low = draft_high, tp_target_high = tot\<rparr>)))"

lemma normalize_range_Inr:
  "normalize_range tot r = Inr q \<longleftrightarrow> q = r \<and> fst r = 0 \<and> 0 < snd r \<and> snd r \<le> tot"
  by (auto simp: normalize_range_def split: prod.splits)

lemma rmap_id: "(\<And>x y. f x = Inr y \<Longrightarrow> y = x) \<Longrightarrow> rmap f xs = Inr ys \<Longrightarrow> ys = xs"
  by (induction xs arbitrary: ys) (auto simp: rbind_Inr_iff)

lemma partition_split:
  assumes "build_complementary_tpc_partition tot ranges = Inr (Some p)"
  shows "{tp_draft_low p ..< tp_draft_high p} \<inter> {tp_target_low p ..< tp_target_high p} = {}
    \<and> {tp_draft_low p ..< tp_draft_high p} \<union> {tp_target_low p ..< tp_target_high p} = {0 ..< tot}
    \<and> 0 < draft_tpcs p \<and> 0 < target_tpcs p
    \<and> (\<forall>(low, high) \<in> set ranges. {low ..< high} \<subseteq> {tp_draft_low p ..< tp_draft_high p})"
proof -
  obtain n where n: "rmap (normalize_range tot) ranges = Inr n" "n \<noteq> []"
      "\<not> tot \<le> Max (set (map snd n))"
    and p: "p = \<lparr>tp_total_tpcs = tot, tp_draft_low = 0, tp_draft_high = Max (set (map snd n)),
      tp_target_low = Max (set (map snd n)), tp_target_high = tot\<rparr>"
    using assms
    by (auto simp: build_complementary_tpc_partition_def rbind_Inr_iff Let_def split: if_splits)
  have same: "n = ranges" by (rule rmap_id [OF _ n(1)]) (simp add: normalize_range_Inr)
  have each: "fst r = 0 \<and> 0 < snd r" if "r \<in> set ranges" for r
    using rmap_Inr_set [OF n(1)] that same by (auto simp: normalize_range_Inr)
  define h where "h = Max (set (map snd ranges))"
  have ph: "p = \<lparr>tp_total_tpcs = tot, tp_draft_low = 0, tp_draft_high = h, tp_target_low = h,
      tp_target_high = tot\<rparr>" and lt: "h < tot"
    using p n(3) unfolding same h_def by simp_all
  have le: "snd r \<le> h" if "r \<in> set ranges" for r
    unfolding h_def using that by (intro Max_ge) auto
  obtain r where r: "r \<in> set ranges" using n(2) same by (cases ranges) auto
  have pos: "0 < h" using each [OF r] le [OF r] by linarith
  have "\<forall>(low, high) \<in> set ranges. {low ..< high} \<subseteq> {0 ..< h}"
    using each le by fastforce
  moreover have "{0 ..< h} \<union> {h ..< tot} = {0 ..< tot}" using pos lt by auto
  moreover have "{0 ..< h} \<inter> {h ..< tot} = {}" by auto
  ultimately show ?thesis
    using pos lt by (simp only: ph tpc_partition.simps draft_tpcs_def target_tpcs_def) simp
qed

text \<open>
  A complementary partition gives the Draft and the Target disjoint, non-empty TPC ranges
  that together are all TPCs, and every outstanding Draft grant lies inside the Draft range.
\<close>

theorem partition_complementary:
  assumes "build_complementary_tpc_partition tot ranges = Inr (Some p)"
  shows "{tp_draft_low p ..< tp_draft_high p} \<inter> {tp_target_low p ..< tp_target_high p} = {}
    \<and> {tp_draft_low p ..< tp_draft_high p} \<union> {tp_target_low p ..< tp_target_high p} = {0 ..< tot}
    \<and> 0 < draft_tpcs p \<and> 0 < target_tpcs p
    \<and> (\<forall>(low, high) \<in> set ranges. {low ..< high} \<subseteq> {tp_draft_low p ..< tp_draft_high p})"
  using assms by (rule partition_split)

theorem partition_complementary_witness:
  "\<exists>p. build_complementary_tpc_partition 16 [(0, 4), (0, 6)] = Inr (Some p)
     \<and> tp_draft_high p = 6 \<and> 0 < target_tpcs p
     \<and> {tp_draft_low p ..< tp_draft_high p} \<inter> {tp_target_low p ..< tp_target_high p} = {}"
proof -
  obtain p where p: "build_complementary_tpc_partition 16 [(0, 4), (0, 6)] = Inr (Some p)"
      "tp_draft_high p = 6"
    by (simp add: build_complementary_tpc_partition_def normalize_range_def)
  from partition_complementary [OF p(1)] p show ?thesis by blast
qed

end
