(* ===== verification/CoexecRuntime.thy ===== *)
theory CoexecRuntime
  imports GrantTable GrantController
begin

text \<open>
  The Target's grant sequencer (\<open>TargetGrantRuntime\<close>, \<open>specstream/coexec_runtime.py\<close>) and its
  callers in \<open>SpecStreamTargetRuntime\<close> (\<open>specstream/verifier.py\<close>): one-token grants per
  request and round, at most one of them outstanding.  \<open>now\<close> is the monotonic clock in
  microseconds and \<open>perf\<close> the performance counter in seconds, where the source reads them.
\<close>

section \<open>State\<close>

record round_grant =
  rg_request_id :: string
  rg_spec_cnt :: int
  rg_desired_q :: int
  rg_target_shape :: string
  rg_draft_bs :: int
  rg_draft_ctx_bucket :: string
  rg_predicted_slack_us :: real
  rg_issued :: int
  rg_acked :: int
  rg_outstanding_epoch :: "int option"
  rg_outstanding_since :: real
  rg_last_grant_wait_ms :: real
  rg_last_decision :: "grant_decision option"
  rg_overlap_open :: bool
  rg_overlap_blocked :: bool
  rg_overlap_tpc_low :: int
  rg_overlap_tpc_high :: int
  rg_overlap_deadline_us :: "int option"
  rg_overlap_grants_issued :: int
  rg_catchup_grants_issued :: int

type_synonym round_key = "string \<times> int"

record grant_runtime =
  gr_controller :: grant_controller
  gr_rounds :: "(round_key, round_grant) dict"
  gr_epochs :: "(string, int) dict"
  gr_active_overlap_baselines_ms :: "real list"

definition runtime_new :: "grant_controller \<Rightarrow> grant_runtime" where
  "runtime_new c = \<lparr>gr_controller = c, gr_rounds = [], gr_epochs = [],
     gr_active_overlap_baselines_ms = []\<rparr>"

section \<open>Operations\<close>

definition round_new ::
    "string \<Rightarrow> int \<Rightarrow> int \<Rightarrow> string \<Rightarrow> int \<Rightarrow> string \<Rightarrow> real \<Rightarrow> round_grant" where
  "round_new rid n q shape bs ctx slack =
     \<lparr>rg_request_id = rid, rg_spec_cnt = n, rg_desired_q = q, rg_target_shape = shape,
      rg_draft_bs = bs, rg_draft_ctx_bucket = ctx, rg_predicted_slack_us = max slack 0,
      rg_issued = 0, rg_acked = 0, rg_outstanding_epoch = None, rg_outstanding_since = 0,
      rg_last_grant_wait_ms = 0, rg_last_decision = None, rg_overlap_open = False,
      rg_overlap_blocked = False, rg_overlap_tpc_low = 0, rg_overlap_tpc_high = 0,
      rg_overlap_deadline_us = None, rg_overlap_grants_issued = 0,
      rg_catchup_grants_issued = 0\<rparr>"

definition register_round ::
    "string \<Rightarrow> int \<Rightarrow> int \<Rightarrow> string \<Rightarrow> int \<Rightarrow> string \<Rightarrow> real \<Rightarrow> grant_runtime
      \<Rightarrow> grant_runtime res" where
  "register_round rid n q shape bs ctx slack rt =
     (if q < 1 then Inl ValueError
      else Inr (rt\<lparr>gr_rounds := dset (rid, n) (round_new rid n q shape bs ctx slack)
                                  (gr_rounds rt)\<rparr>))"

definition next_epoch :: "string \<Rightarrow> grant_runtime \<Rightarrow> int \<times> grant_runtime" where
  "next_epoch rid rt =
     (let epoch = dget_or (gr_epochs rt) rid 0 + 1
      in (epoch, rt\<lparr>gr_epochs := dset rid epoch (gr_epochs rt)\<rparr>))"

text \<open>The deadline of a grant whose decision is \<open>d\<close>.\<close>

definition effective_deadline ::
    "grant_controller \<Rightarrow> int \<Rightarrow> round_grant \<Rightarrow> grant_decision \<Rightarrow> int option \<Rightarrow> int option" where
  "effective_deadline c now st d deadline =
     (if gd_state d = SLACK_FILL \<and> deadline = None
         \<and> \<not> (0 < gc_calibration_tpcs c \<and> gc_calibration_allow_overlap c)
      then Some (now + py_int (max (rg_predicted_slack_us st - gc_guard_us c) 1))
      else deadline)"

definition note_issue ::
    "grant_decision \<Rightarrow> int option \<Rightarrow> int \<Rightarrow> real \<Rightarrow> round_grant \<Rightarrow> round_grant" where
  "note_issue d eff epoch perf st =
     (let st1 =
        (case gd_state d of
           SLACK_FILL \<Rightarrow>
             (if rg_overlap_open st then st
              else st\<lparr>rg_overlap_open := True, rg_overlap_tpc_low := gd_tpc_low d,
                      rg_overlap_tpc_high := gd_tpc_high d, rg_overlap_deadline_us := eff\<rparr>)
             \<lparr>rg_overlap_grants_issued := rg_overlap_grants_issued st + 1\<rparr>
         | DRAFT_CATCHUP \<Rightarrow> st\<lparr>rg_catchup_grants_issued := rg_catchup_grants_issued st + 1\<rparr>
         | TARGET_EXCLUSIVE \<Rightarrow> st)
      in st1\<lparr>rg_issued := rg_issued st + 1, rg_outstanding_epoch := Some epoch,
             rg_outstanding_since := perf\<rparr>)"

definition grant_message :: "execution_grant \<Rightarrow> 'p spectre_request" where
  "grant_message g =
     (request_new (eg_request_id g) GRANT DRAFT_REQUEST)
       \<lparr>sr_spec_cnt := Some (eg_spec_cnt g), sr_grant_epoch := Some (eg_grant_epoch g),
        sr_grant_tokens := Some (eg_grant_tokens g), sr_tpc_low := Some (eg_tpc_low g),
        sr_tpc_high := Some (eg_tpc_high g), sr_deadline_us := eg_deadline_us g,
        sr_placement_id := Some (eg_placement_id g),
        sr_grant_state := Some (eg_grant_state g)\<rparr>"

definition put_round :: "round_key \<Rightarrow> round_grant \<Rightarrow> grant_runtime \<Rightarrow> grant_runtime" where
  "put_round key st rt = rt\<lparr>gr_rounds := dset key st (gr_rounds rt)\<rparr>"

definition issue ::
    "int \<Rightarrow> real \<Rightarrow> round_key \<Rightarrow> round_grant \<Rightarrow> bool \<Rightarrow> int option \<Rightarrow> grant_decision option
      \<Rightarrow> grant_runtime \<Rightarrow> execution_grant option res \<times> grant_runtime" where
  "issue now perf key st waiting deadline override rt =
     (if rg_outstanding_epoch st \<noteq> None \<or> rg_desired_q st \<le> rg_issued st then (Inr None, rt)
      else
       case (case override of Some d \<Rightarrow> Inr d
             | None \<Rightarrow> decide (gr_controller rt)
                 \<lparr>da_target_shape = rg_target_shape st, da_draft_bs = rg_draft_bs st,
                  da_draft_ctx_bucket = rg_draft_ctx_bucket st,
                  da_predicted_slack_us = rg_predicted_slack_us st,
                  da_target_waiting = waiting, da_deadline_us = deadline\<rparr>) of
         Inl e \<Rightarrow> (Inl e, rt)
       | Inr d \<Rightarrow>
          (let st1 = st\<lparr>rg_last_decision := Some d\<rparr>; rt1 = put_round key st1 rt in
           if \<not> allows_draft d then (Inr None, rt1)
           else
            let eff = effective_deadline (gr_controller rt) now st1 d deadline;
                (epoch, rt2) = next_epoch (rg_request_id st) rt1
            in case grant_new
                  \<lparr>eg_request_id = rg_request_id st, eg_spec_cnt = rg_spec_cnt st,
                   eg_grant_epoch = epoch, eg_grant_tokens = 1, eg_tpc_low = gd_tpc_low d,
                   eg_tpc_high = gd_tpc_high d, eg_deadline_us = eff, eg_placement_id = 0,
                   eg_grant_state = grant_state_value (gd_state d)\<rparr> of
                 Inl e \<Rightarrow> (Inl e, rt2)
               | Inr g \<Rightarrow> (Inr (Some g), put_round key (note_issue d eff epoch perf st1) rt2)))"

text \<open>A loop over keys that collects the grants issued and stops at the first exception.\<close>

fun grant_loop ::
    "(round_key \<Rightarrow> grant_runtime \<Rightarrow> execution_grant option res \<times> grant_runtime)
      \<Rightarrow> round_key list \<Rightarrow> grant_runtime \<Rightarrow> execution_grant list res \<times> grant_runtime" where
  "grant_loop f [] rt = (Inr [], rt)"
| "grant_loop f (k # ks) rt =
     (case f k rt of
        (Inl e, rt1) \<Rightarrow> (Inl e, rt1)
      | (Inr m, rt1) \<Rightarrow>
         (case grant_loop f ks rt1 of
            (Inl e, rt2) \<Rightarrow> (Inl e, rt2)
          | (Inr ms, rt2) \<Rightarrow> (Inr (case m of None \<Rightarrow> ms | Some g \<Rightarrow> g # ms), rt2)))"

definition note_baseline :: "round_key \<Rightarrow> grant_runtime \<Rightarrow> grant_runtime" where
  "note_baseline key rt =
     (case dget (gr_rounds rt) key of
        None \<Rightarrow> rt
      | Some st \<Rightarrow>
         (case rg_last_decision st of
            None \<Rightarrow> rt
          | Some d \<Rightarrow>
             (case gd_profile_entry d of
                None \<Rightarrow> rt
              | Some e \<Rightarrow>
                 if 0 < pe_target_baseline_ms e
                 then rt\<lparr>gr_active_overlap_baselines_ms :=
                           gr_active_overlap_baselines_ms rt @ [pe_target_baseline_ms e]\<rparr>
                 else rt)))"

definition initial_one ::
    "int \<Rightarrow> real \<Rightarrow> round_key \<Rightarrow> grant_runtime \<Rightarrow> execution_grant option res \<times> grant_runtime" where
  "initial_one now perf key rt =
     (case dget (gr_rounds rt) key of
        None \<Rightarrow> (Inr None, rt)
      | Some st \<Rightarrow>
         if rg_spec_cnt st \<le> 0
         then (Inr None, put_round key
                (st\<lparr>rg_last_decision := Some (decision_exclusive ''initial_prefill_wait_only'')\<rparr>) rt)
         else
          (case issue now perf key st False None None rt of
             (Inr (Some g), rt1) \<Rightarrow> (Inr (Some g), note_baseline key rt1)
           | (r, rt1) \<Rightarrow> (r, rt1)))"

definition initial_grants ::
    "int \<Rightarrow> real \<Rightarrow> round_key list \<Rightarrow> grant_runtime \<Rightarrow> execution_grant list res \<times> grant_runtime" where
  "initial_grants now perf keys rt =
     grant_loop (initial_one now perf) keys (rt\<lparr>gr_active_overlap_baselines_ms := []\<rparr>)"

definition record_target_forward :: "real \<Rightarrow> grant_runtime \<Rightarrow> grant_runtime" where
  "record_target_forward elapsed_ms rt =
     (case gr_active_overlap_baselines_ms rt of
        [] \<Rightarrow> rt
      | bs \<Rightarrow>
         let slowdown = max (elapsed_ms / Min (set bs) - 1) 0
         in rt\<lparr>gr_controller := record_overlap_slowdown slowdown (gr_controller rt),
               gr_active_overlap_baselines_ms := []\<rparr>)"

definition frozen_decision :: "round_grant \<Rightarrow> grant_decision" where
  "frozen_decision st =
     \<lparr>gd_state = SLACK_FILL, gd_reason = ''continuous_slack_fill'',
      gd_tpc_low = rg_overlap_tpc_low st, gd_tpc_high = rg_overlap_tpc_high st,
      gd_deadline_us = rg_overlap_deadline_us st,
      gd_profile_entry = (case rg_last_decision st of None \<Rightarrow> None
                          | Some d \<Rightarrow> gd_profile_entry d)\<rparr>"

definition overlap_one ::
    "int \<Rightarrow> real \<Rightarrow> round_key \<Rightarrow> grant_runtime \<Rightarrow> execution_grant option res \<times> grant_runtime" where
  "overlap_one now perf key rt =
     (case dget (gr_rounds rt) key of
        None \<Rightarrow> (Inr None, rt)
      | Some st \<Rightarrow>
         if \<not> rg_overlap_open st \<or> rg_overlap_blocked st then (Inr None, rt)
         else if rg_outstanding_epoch st \<noteq> None \<or> rg_desired_q st \<le> rg_issued st
         then (Inr None, rt)
         else if (case rg_overlap_deadline_us st of None \<Rightarrow> False | Some d \<Rightarrow> d \<le> now)
         then (Inr None, rt)
         else issue now perf key st False (rg_overlap_deadline_us st)
                (Some (frozen_decision st)) rt)"

definition overlap_grants ::
    "int \<Rightarrow> real \<Rightarrow> round_key list \<Rightarrow> grant_runtime \<Rightarrow> execution_grant list res \<times> grant_runtime" where
  "overlap_grants now perf keys rt = grant_loop (overlap_one now perf) keys rt"

definition waiting_one ::
    "int \<Rightarrow> real \<Rightarrow> int \<Rightarrow> round_key \<Rightarrow> grant_runtime
      \<Rightarrow> execution_grant option res \<times> grant_runtime" where
  "waiting_one now perf deadline key rt =
     (case dget (gr_rounds rt) key of
        None \<Rightarrow> (Inr None, rt)
      | Some st \<Rightarrow> issue now perf key st True (Some deadline) None rt)"

definition waiting_grants ::
    "int \<Rightarrow> real \<Rightarrow> int \<Rightarrow> round_key list \<Rightarrow> grant_runtime
      \<Rightarrow> execution_grant list res \<times> grant_runtime" where
  "waiting_grants now perf deadline keys rt = grant_loop (waiting_one now perf deadline) keys rt"

definition acknowledge :: "real \<Rightarrow> 'p spectre_request \<Rightarrow> grant_runtime \<Rightarrow> bool \<times> grant_runtime" where
  "acknowledge perf msg rt =
     (if sr_action msg \<noteq> GRANT_ACK then (False, rt)
      else
       let key = (sr_request_id msg, int_or0 (sr_spec_cnt msg)) in
       case dget (gr_rounds rt) key of
         None \<Rightarrow> (False, rt)
       | Some st \<Rightarrow>
          (case rg_outstanding_epoch st of
             None \<Rightarrow> (False, rt)
           | Some epoch \<Rightarrow>
              if int_or0 (sr_grant_epoch msg) \<noteq> epoch then (False, rt)
              else
               let ack_tokens = int_or0 (sr_grant_tokens msg) in
               if ack_tokens \<notin> {0, 1} then (False, rt)
               else
                let st1 = st\<lparr>rg_last_grant_wait_ms :=
                               max ((perf - rg_outstanding_since st) * 1000) 0,
                             rg_outstanding_epoch := None, rg_outstanding_since := 0\<rparr>
                in (True, put_round key
                     (if ack_tokens = 0
                      then st1\<lparr>rg_issued := max (rg_issued st - 1) (rg_acked st),
                               rg_overlap_blocked := True\<rparr>
                      else st1\<lparr>rg_acked := rg_acked st + 1\<rparr>) rt)))"

definition pause_message :: "round_key \<Rightarrow> grant_runtime \<Rightarrow> 'p spectre_request" where
  "pause_message key rt =
     (request_new (fst key) PAUSE DRAFT_REQUEST)
       \<lparr>sr_spec_cnt := Some (snd key), sr_grant_epoch := Some (dget_or (gr_epochs rt) (fst key) 0)\<rparr>"

fun pause_messages ::
    "round_key list \<Rightarrow> grant_runtime \<Rightarrow> 'p spectre_request list \<times> grant_runtime" where
  "pause_messages [] rt = ([], rt)"
| "pause_messages (k # ks) rt =
     (case dget (gr_rounds rt) k of
        None \<Rightarrow> pause_messages ks rt
      | Some st \<Rightarrow>
         (case pause_messages ks (put_round k
                 (st\<lparr>rg_outstanding_epoch := None, rg_outstanding_since := 0\<rparr>) rt) of
            (ms, rt1) \<Rightarrow> (pause_message k rt # ms, rt1)))"

definition release_rounds :: "string \<Rightarrow> grant_runtime \<Rightarrow> grant_runtime" where
  "release_rounds rid rt =
     rt\<lparr>gr_rounds := filter (\<lambda>kv. fst (fst kv) \<noteq> rid) (gr_rounds rt),
        gr_epochs := ddel rid (gr_epochs rt)\<rparr>"

definition state_for :: "string \<Rightarrow> int \<Rightarrow> grant_runtime \<Rightarrow> round_grant option" where
  "state_for rid n rt = dget (gr_rounds rt) (rid, n)"

section \<open>The quota of a round\<close>

text \<open>
  What the sequencer's bookkeeping says about a round, without its timing and placement data:
  identity, desired length, grants issued and acknowledged, and the outstanding epoch.
\<close>

type_synonym quota = "string \<times> int \<times> int \<times> int \<times> int \<times> int option"

definition quota_of :: "round_grant \<Rightarrow> quota" where
  "quota_of st = (rg_request_id st, rg_spec_cnt st, rg_desired_q st, rg_issued st, rg_acked st,
     rg_outstanding_epoch st)"

definition quotas :: "grant_runtime \<Rightarrow> round_key \<Rightarrow> quota option" where
  "quotas rt k = map_option quota_of (dget (gr_rounds rt) k)"

definition epoch_of :: "grant_runtime \<Rightarrow> string \<Rightarrow> int" where
  "epoch_of rt rid = dget_or (gr_epochs rt) rid 0"

lemma quotas_put [simp]: "quotas (put_round k st rt) = (quotas rt)(k \<mapsto> quota_of st)"
  by (auto simp: quotas_def put_round_def fun_eq_iff)

lemma epoch_put [simp]: "epoch_of (put_round k st rt) = epoch_of rt"
  by (simp add: epoch_of_def put_round_def fun_eq_iff)

lemma quotas_epochs [simp]:
  "quotas (rt\<lparr>gr_epochs := e\<rparr>) = quotas rt" "quotas (rt\<lparr>gr_active_overlap_baselines_ms := b\<rparr>) = quotas rt"
  "epoch_of (rt\<lparr>gr_active_overlap_baselines_ms := b\<rparr>) = epoch_of rt"
  "quotas (rt\<lparr>gr_controller := c\<rparr>) = quotas rt" "epoch_of (rt\<lparr>gr_controller := c\<rparr>) = epoch_of rt"
  by (simp_all add: quotas_def epoch_of_def fun_eq_iff)

lemma quota_last_decision [simp]: "quota_of (st\<lparr>rg_last_decision := d\<rparr>) = quota_of st"
  by (simp add: quota_of_def)

lemma quota_same_upd: "quotas rt k = Some q \<Longrightarrow> (quotas rt)(k \<mapsto> q) = quotas rt"
  by auto

lemma next_epoch_simps [simp]:
  "fst (next_epoch rid rt) = epoch_of rt rid + 1"
  "quotas (snd (next_epoch rid rt)) = quotas rt"
  "epoch_of (snd (next_epoch rid rt)) = (epoch_of rt)(rid := epoch_of rt rid + 1)"
  by (simp_all add: next_epoch_def epoch_of_def Let_def fun_eq_iff)

lemma quota_note_issue:
  "quota_of (note_issue d eff ep perf st) =
     (rg_request_id st, rg_spec_cnt st, rg_desired_q st, rg_issued st + 1, rg_acked st, Some ep)"
  by (cases "gd_state d") (simp_all add: note_issue_def quota_of_def Let_def)

text \<open>The outcome of one attempt to issue a grant for the round \<open>key\<close>.\<close>

definition issue_effect ::
    "round_key \<Rightarrow> grant_runtime \<Rightarrow> execution_grant option res \<Rightarrow> grant_runtime \<Rightarrow> bool" where
  "issue_effect key rt r rt' \<longleftrightarrow>
     (case r of
        Inr (Some g) \<Rightarrow>
          (\<exists>rid n q i a. quotas rt key = Some (rid, n, q, i, a, None) \<and> i < q
            \<and> quotas rt' = (quotas rt)(key \<mapsto> (rid, n, q, i + 1, a, Some (epoch_of rt rid + 1)))
            \<and> epoch_of rt' = (epoch_of rt)(rid := epoch_of rt rid + 1)
            \<and> eg_request_id g = rid \<and> eg_spec_cnt g = n
            \<and> eg_grant_epoch g = epoch_of rt rid + 1)
      | _ \<Rightarrow> quotas rt' = quotas rt \<and> (\<forall>rid. epoch_of rt rid \<le> epoch_of rt' rid))"

lemma grant_new_Inr: "grant_new g = Inr g' \<Longrightarrow> g' = g"
  by (auto simp: grant_new_def rbind_Inr_iff)

lemma issue_effect_issue:
  assumes st: "dget (gr_rounds rt) key = Some st"
    and iss: "issue now perf key st w dl ov rt = (r, rt')"
  shows "issue_effect key rt r rt'"
proof -
  have q: "quotas rt key = Some (quota_of st)" using st by (simp add: quotas_def)
  show ?thesis
  proof (cases "rg_outstanding_epoch st \<noteq> None \<or> rg_desired_q st \<le> rg_issued st")
    case True
    with iss show ?thesis by (auto simp: issue_def issue_effect_def)
  next
    case False
    define dec where "dec = (case ov of Some d \<Rightarrow> Inr d
             | None \<Rightarrow> decide (gr_controller rt)
                 \<lparr>da_target_shape = rg_target_shape st, da_draft_bs = rg_draft_bs st,
                  da_draft_ctx_bucket = rg_draft_ctx_bucket st,
                  da_predicted_slack_us = rg_predicted_slack_us st,
                  da_target_waiting = w, da_deadline_us = dl\<rparr>)"
    show ?thesis
    proof (cases dec)
      case (Inl e)
      then have "(r, rt') = (Inl e, rt)"
        using iss False unfolding issue_def dec_def [symmetric] by (simp add: dec_def)
      then show ?thesis by (simp add: issue_effect_def)
    next
      case (Inr d)
      define st1 where "st1 = st\<lparr>rg_last_decision := Some d\<rparr>"
      define rt1 where "rt1 = put_round key st1 rt"
      define rt2 where "rt2 = snd (next_epoch (rg_request_id st) rt1)"
      have q1: "quotas rt1 = quotas rt" "epoch_of rt1 = epoch_of rt"
        using quota_same_upd [OF q] by (simp_all add: rt1_def st1_def)
      have e2: "next_epoch (rg_request_id st) rt1 = (epoch_of rt (rg_request_id st) + 1, rt2)"
        using next_epoch_simps(1) [of "rg_request_id st" rt1]
        by (simp add: rt2_def q1 prod_eq_iff)
      have q2: "quotas rt2 = quotas rt"
          "epoch_of rt2 = (epoch_of rt)(rg_request_id st := epoch_of rt (rg_request_id st) + 1)"
        by (simp_all add: rt2_def q1)
      define eff where "eff = effective_deadline (gr_controller rt) now st1 d dl"
      define g where "g = \<lparr>eg_request_id = rg_request_id st, eg_spec_cnt = rg_spec_cnt st,
                   eg_grant_epoch = epoch_of rt (rg_request_id st) + 1, eg_grant_tokens = 1,
                   eg_tpc_low = gd_tpc_low d, eg_tpc_high = gd_tpc_high d,
                   eg_deadline_us = eff, eg_placement_id = 0,
                   eg_grant_state = grant_state_value (gd_state d)\<rparr>"
      have run: "(r, rt') = (if \<not> allows_draft d then (Inr None, rt1)
          else case grant_new g of Inl e \<Rightarrow> (Inl e, rt2)
             | Inr g' \<Rightarrow> (Inr (Some g'), put_round key
                 (note_issue d eff (epoch_of rt (rg_request_id st) + 1) perf st1) rt2))"
        using iss [symmetric] False Inr e2
        unfolding issue_def dec_def [symmetric]
        by (cases "allows_draft d") (simp_all add: Let_def st1_def rt1_def eff_def g_def split: sum.split)
      have nt: "quota_of (note_issue d eff ep perf st1) = (rg_request_id st, rg_spec_cnt st,
          rg_desired_q st, rg_issued st + 1, rg_acked st, Some ep)" for ep
        by (simp add: quota_note_issue st1_def)
      show ?thesis
        using run False q q1 q2 nt
        by (auto simp: issue_effect_def quota_of_def g_def dest!: grant_new_Inr
            split: if_splits sum.splits)
    qed
  qed
qed

lemma note_baseline_simps [simp]:
  "quotas (note_baseline k rt) = quotas rt" "epoch_of (note_baseline k rt) = epoch_of rt"
  by (auto simp: note_baseline_def split: option.splits)

lemma issue_effect_none: "issue_effect key rt (Inr None) rt"
  by (simp add: issue_effect_def)

lemma initial_one_effect: "initial_one now perf key rt = (r, rt') \<Longrightarrow> issue_effect key rt r rt'"
proof (cases "dget (gr_rounds rt) key")
  case (Some st)
  assume run: "initial_one now perf key rt = (r, rt')"
  show ?thesis
  proof (cases "rg_spec_cnt st \<le> 0")
    case True
    have "quotas rt key = Some (quota_of st)" using Some by (simp add: quotas_def)
    with True Some run quota_same_upd [of rt key "quota_of st"] show ?thesis
      by (auto simp: initial_one_def issue_effect_def)
  next
    case False
    obtain r1 rt1 where i: "issue now perf key st False None None rt = (r1, rt1)" by force
    note eff = issue_effect_issue [OF Some i]
    have "r = r1" "rt' = rt1 \<or> rt' = note_baseline key rt1"
      using run Some False i by (auto simp: initial_one_def split: sum.splits option.splits)
    with eff show ?thesis by (auto simp: issue_effect_def split: sum.splits option.splits)
  qed
qed (auto simp: initial_one_def issue_effect_none)

lemma overlap_one_effect: "overlap_one now perf key rt = (r, rt') \<Longrightarrow> issue_effect key rt r rt'"
  by (auto simp: overlap_one_def issue_effect_none split: option.splits if_splits
      dest: issue_effect_issue)

lemma waiting_one_effect: "waiting_one now perf dl key rt = (r, rt') \<Longrightarrow> issue_effect key rt r rt'"
  by (auto simp: waiting_one_def issue_effect_none split: option.splits dest: issue_effect_issue)

lemma acknowledge_effect:
  assumes "acknowledge perf m rt = (b, rt')"
  shows "epoch_of rt' = epoch_of rt"
    and "if b then \<exists>rid n q i a e. sr_action m = GRANT_ACK
           \<and> quotas rt (sr_request_id m, int_or0 (sr_spec_cnt m)) = Some (rid, n, q, i, a, Some e)
           \<and> int_or0 (sr_grant_epoch m) = e
           \<and> ((int_or0 (sr_grant_tokens m) = 0
               \<and> quotas rt' = (quotas rt)((sr_request_id m, int_or0 (sr_spec_cnt m)) \<mapsto>
                                 (rid, n, q, max (i - 1) a, a, None)))
             \<or> (int_or0 (sr_grant_tokens m) = 1
               \<and> quotas rt' = (quotas rt)((sr_request_id m, int_or0 (sr_spec_cnt m)) \<mapsto>
                                 (rid, n, q, i, a + 1, None))))
         else quotas rt' = quotas rt"
  using assms unfolding acknowledge_def Let_def
  by (auto simp: quotas_def quota_of_def put_round_def epoch_of_def fun_eq_iff
      split: if_splits option.splits)

definition clear_outstanding :: "quota \<Rightarrow> quota" where
  "clear_outstanding x = (case x of (rid, n, q, i, a, _) \<Rightarrow> (rid, n, q, i, a, None))"

lemma pause_messages_effect:
  fixes ms :: "'p spectre_request list"
  shows "pause_messages ks rt = (ms, rt') \<Longrightarrow> epoch_of rt' = epoch_of rt
     \<and> (\<forall>k. quotas rt' k = quotas rt k \<or> quotas rt' k = map_option clear_outstanding (quotas rt k))"
proof (induction ks arbitrary: rt ms)
  case (Cons k ks)
  show ?case
  proof (cases "dget (gr_rounds rt) k")
    case None
    with Cons show ?thesis by simp
  next
    case (Some st)
    let ?rt1 = "put_round k (st\<lparr>rg_outstanding_epoch := None, rg_outstanding_since := 0\<rparr>) rt"
    obtain ms1 :: "'p spectre_request list" where "pause_messages ks ?rt1 = (ms1, rt')"
      using Cons.prems Some by (cases "pause_messages ks ?rt1 :: 'p spectre_request list \<times> _") auto
    note ih = Cons.IH [OF this]
    have q1: "quotas ?rt1 = (quotas rt)(k := map_option clear_outstanding (quotas rt k))"
      using Some by (simp add: quotas_def [of rt] quota_of_def clear_outstanding_def)
    have twice: "map_option clear_outstanding (map_option clear_outstanding x)
        = map_option clear_outstanding x" for x
      by (cases x) (auto simp: clear_outstanding_def)
    have "quotas rt' j = quotas rt j \<or> quotas rt' j = map_option clear_outstanding (quotas rt j)" for j
      using ih [THEN conjunct2, THEN spec, of j] unfolding q1 by (cases "j = k") (auto simp: twice)
    with ih show ?thesis by simp
  qed
qed simp

lemma register_effect:
  "register_round rid n q shape bs ctx slack rt = Inr rt' \<Longrightarrow>
     1 \<le> q \<and> epoch_of rt' = epoch_of rt
     \<and> quotas rt' = (quotas rt)((rid, n) \<mapsto> (rid, n, q, 0, 0, None))"
  by (auto simp: register_round_def quotas_def epoch_of_def quota_of_def round_new_def fun_eq_iff)

text \<open>A loop over keys is a sequence of single attempts.\<close>

lemma grant_loop_invariant:
  assumes "grant_loop f ks rt = (r, rt')" and "P rt"
    and "\<And>k rt r1 rt1. k \<in> set ks \<Longrightarrow> P rt \<Longrightarrow> f k rt = (r1, rt1) \<Longrightarrow> P rt1"
  shows "P rt'"
  using assms
proof (induction ks arbitrary: rt r rt')
  case (Cons k ks)
  obtain r1 rt1 where f: "f k rt = (r1, rt1)" by force
  have "P rt1" by (rule Cons.prems(3) [OF _ Cons.prems(2) f]) simp
  moreover obtain r2 rt2 where l: "grant_loop f ks rt1 = (r2, rt2)" by force
  ultimately have "P rt2" using Cons.IH Cons.prems(3) by (meson list.set_intros(2))
  with \<open>P rt1\<close> Cons.prems(1) f l show ?case by (auto split: sum.splits)
qed simp

lemma grant_loop_messages:
  assumes "grant_loop f ks rt = (Inr ms, rt')" and "g \<in> set ms" and "P rt"
    and "\<And>k rt r1 rt1. k \<in> set ks \<Longrightarrow> P rt \<Longrightarrow> f k rt = (r1, rt1) \<Longrightarrow> P rt1"
    and "\<And>k rt g rt1. k \<in> set ks \<Longrightarrow> P rt \<Longrightarrow> f k rt = (Inr (Some g), rt1) \<Longrightarrow> Q g"
  shows "Q g"
  using assms
proof (induction ks arbitrary: rt ms)
  case (Cons k ks)
  obtain m rt1 ms1 where f: "f k rt = (Inr m, rt1)" and l: "grant_loop f ks rt1 = (Inr ms1, rt')"
    and ms: "ms = (case m of None \<Rightarrow> ms1 | Some g \<Rightarrow> g # ms1)"
    using Cons.prems(1) by (auto split: prod.splits sum.splits)
  have "P rt1" by (rule Cons.prems(4) [OF _ Cons.prems(3) f]) simp
  show ?case
  proof (cases "g \<in> set ms1")
    case True
    show ?thesis using Cons.IH [OF l True \<open>P rt1\<close>] Cons.prems(4,5) by (meson list.set_intros(2))
  next
    case False
    then have "m = Some g" using Cons.prems(2) ms by (auto split: option.splits)
    then show ?thesis using Cons.prems(5) [OF _ Cons.prems(3)] f by (meson list.set_intros(1))
  qed
qed simp

section \<open>The overlap window is frozen\<close>

definition window_of :: "round_grant \<Rightarrow> bool \<times> bool \<times> int \<times> int \<times> int option" where
  "window_of st = (rg_overlap_open st, rg_overlap_blocked st, rg_overlap_tpc_low st,
     rg_overlap_tpc_high st, rg_overlap_deadline_us st)"

definition overlap_windows ::
    "grant_runtime \<Rightarrow> round_key \<Rightarrow> (bool \<times> bool \<times> int \<times> int \<times> int option) option" where
  "overlap_windows rt k = map_option window_of (dget (gr_rounds rt) k)"

lemma windows_put [simp]:
  "overlap_windows (put_round k st rt) = (overlap_windows rt)(k \<mapsto> window_of st)"
  by (auto simp: overlap_windows_def put_round_def fun_eq_iff)

lemma windows_next_epoch [simp]:
  "overlap_windows (snd (next_epoch rid rt)) = overlap_windows rt"
  by (simp add: overlap_windows_def next_epoch_def Let_def fun_eq_iff)

lemma window_note_issue:
  "rg_overlap_open st \<Longrightarrow> window_of (note_issue d eff ep perf st) = window_of st"
  by (cases "gd_state d") (simp_all add: note_issue_def window_of_def Let_def)

lemma issue_frozen:
  assumes st: "dget (gr_rounds rt) key = Some st" and op: "rg_overlap_open st"
    and iss: "issue now perf key st False (rg_overlap_deadline_us st) (Some (frozen_decision st)) rt
      = (r, rt')"
  shows "overlap_windows rt' = overlap_windows rt"
    and "r = Inr (Some g) \<Longrightarrow> eg_tpc_low g = rg_overlap_tpc_low st
           \<and> eg_tpc_high g = rg_overlap_tpc_high st"
    and "r = Inr (Some g) \<Longrightarrow> rg_overlap_deadline_us st \<noteq> None \<Longrightarrow>
           eg_deadline_us g = rg_overlap_deadline_us st"
proof -
  have w: "(overlap_windows rt)(key \<mapsto> window_of st) = overlap_windows rt"
    using st by (auto simp: overlap_windows_def)
  have w1: "window_of (st\<lparr>rg_last_decision := d\<rparr>) = window_of st" for d
    by (simp add: window_of_def)
  obtain ep rt2 where ne: "next_epoch (rg_request_id st) (put_round key
      (st\<lparr>rg_last_decision := Some (frozen_decision st)\<rparr>) rt) = (ep, rt2)" by force
  have w2: "overlap_windows rt2 = overlap_windows rt"
    using windows_next_epoch [of "rg_request_id st" "put_round key
      (st\<lparr>rg_last_decision := Some (frozen_decision st)\<rparr>) rt"] ne w by (simp add: w1)
  show "overlap_windows rt' = overlap_windows rt"
    using iss op ne w w2
    by (auto simp: issue_def Let_def w1 window_note_issue split: if_splits sum.splits)
  show "r = Inr (Some g) \<Longrightarrow> eg_tpc_low g = rg_overlap_tpc_low st
      \<and> eg_tpc_high g = rg_overlap_tpc_high st"
    using iss ne
    by (auto simp: issue_def Let_def frozen_decision_def dest!: grant_new_Inr
        split: if_splits sum.splits)
  show "r = Inr (Some g) \<Longrightarrow> rg_overlap_deadline_us st \<noteq> None \<Longrightarrow>
      eg_deadline_us g = rg_overlap_deadline_us st"
    using iss ne
    by (auto simp: issue_def Let_def frozen_decision_def effective_deadline_def dest!: grant_new_Inr
        split: if_splits sum.splits)
qed

lemma overlap_one_frozen:
  assumes "overlap_one now perf key rt = (r, rt')"
  shows "overlap_windows rt' = overlap_windows rt"
    and "r = Inr (Some g) \<Longrightarrow> \<exists>low high dl. overlap_windows rt key = Some (True, False, low, high, dl)
           \<and> eg_tpc_low g = low \<and> eg_tpc_high g = high
           \<and> (dl \<noteq> None \<longrightarrow> eg_deadline_us g = dl \<and> \<not> grant_expired now g)"
proof -
  show "overlap_windows rt' = overlap_windows rt"
    using assms by (auto simp: overlap_one_def split: option.splits if_splits dest: issue_frozen(1))
  show "r = Inr (Some g) \<Longrightarrow> \<exists>low high dl. overlap_windows rt key = Some (True, False, low, high, dl)
      \<and> eg_tpc_low g = low \<and> eg_tpc_high g = high
      \<and> (dl \<noteq> None \<longrightarrow> eg_deadline_us g = dl \<and> \<not> grant_expired now g)"
    using assms
    by (auto simp: overlap_one_def overlap_windows_def window_of_def grant_expired_def
        split: option.splits if_splits dest: issue_frozen(2,3))
qed

text \<open>
  The history of a run, to name the grant that opened a window: the \<open>SLACK_FILL\<close> grants issued,
  in order, those of a round being dropped when it is registered anew or its request released.
\<close>

definition grant_key :: "execution_grant \<Rightarrow> round_key" where
  "grant_key g = (eg_request_id g, eg_spec_cnt g)"

definition round_log :: "round_key \<Rightarrow> execution_grant list \<Rightarrow> execution_grant list" where
  "round_log key lg = filter (\<lambda>g. grant_key g = key) lg"

lemma round_log_simps:
  "round_log key [] = []" "round_log key (lg @ gs) = round_log key lg @ round_log key gs"
  "round_log key (filter (\<lambda>g. grant_key g \<noteq> k) lg) = (if key = k then [] else round_log key lg)"
  "round_log key (filter (\<lambda>g. eg_request_id g \<noteq> rid) lg) = (if fst key = rid then [] else round_log key lg)"
  by (induction lg) (auto simp: round_log_def grant_key_def)

lemma round_log_other: "\<forall>g \<in> set gs. grant_key g \<noteq> key \<Longrightarrow> round_log key (lg @ gs) = round_log key lg"
  by (simp add: round_log_def filter_empty_conv)

definition slack_grants :: "execution_grant option res \<Rightarrow> execution_grant list" where
  "slack_grants r = (case r of Inr (Some g) \<Rightarrow>
       if eg_grant_state g = grant_state_value SLACK_FILL then [g] else []
     | _ \<Rightarrow> [])"

type_synonym overlap_run = "grant_runtime \<times> execution_grant list"

definition overlap_init :: "overlap_run \<Rightarrow> bool" where
  "overlap_init s \<longleftrightarrow> (\<exists>c. s = (runtime_new c, []))"

inductive overlap_step :: "overlap_run \<Rightarrow> overlap_run \<Rightarrow> bool" where
  ov_register: "register_round rid n q shape bs ctx slack rt = Inr rt' \<Longrightarrow>
     overlap_step (rt, lg) (rt', filter (\<lambda>g. grant_key g \<noteq> (rid, n)) lg)"
| ov_issue: "f \<in> {initial_one now perf, overlap_one now perf, waiting_one now perf dl} \<Longrightarrow>
     f key rt = (r, rt') \<Longrightarrow> overlap_step (rt, lg) (rt', lg @ slack_grants r)"
| ov_forward: "overlap_step (rt, lg) (record_target_forward ms rt, lg)"
| ov_baselines: "overlap_step (rt, lg) (rt\<lparr>gr_active_overlap_baselines_ms := []\<rparr>, lg)"
| ov_acknowledge: "acknowledge perf (m :: unit spectre_request) rt = (b, rt') \<Longrightarrow> overlap_step (rt, lg) (rt', lg)"
| ov_pause: "pause_messages keys rt = (ms :: unit spectre_request list, rt') \<Longrightarrow> overlap_step (rt, lg) (rt', lg)"
| ov_release: "overlap_step (rt, lg) (release_rounds rid rt, filter (\<lambda>g. eg_request_id g \<noteq> rid) lg)"

definition calibrating :: "grant_controller \<Rightarrow> bool" where
  "calibrating c \<longleftrightarrow> 0 < gc_calibration_tpcs c \<and> gc_calibration_allow_overlap c"

text \<open>A round's window is the range and the deadline of its first \<open>SLACK_FILL\<close> grant.\<close>

definition window_ok :: "grant_controller \<Rightarrow> execution_grant list \<Rightarrow> round_key \<Rightarrow> round_grant \<Rightarrow> bool" where
  "window_ok c lg key st \<longleftrightarrow> key = (rg_request_id st, rg_spec_cnt st)
     \<and> (case round_log key lg of
          [] \<Rightarrow> \<not> rg_overlap_open st
        | g # _ \<Rightarrow> rg_overlap_open st \<and> eg_tpc_low g = rg_overlap_tpc_low st
            \<and> eg_tpc_high g = rg_overlap_tpc_high st \<and> eg_deadline_us g = rg_overlap_deadline_us st
            \<and> (rg_overlap_deadline_us st = None \<longrightarrow> calibrating c))"

definition overlap_ok :: "overlap_run \<Rightarrow> bool" where
  "overlap_ok s \<longleftrightarrow> (\<forall>key st. dget (gr_rounds (fst s)) key = Some st \<longrightarrow>
     window_ok (gr_controller (fst s)) (snd s) key st)"

lemma overlap_okD: "overlap_ok (rt, lg) \<Longrightarrow> dget (gr_rounds rt) key = Some st \<Longrightarrow> window_ok (gr_controller rt) lg key st"
  unfolding overlap_ok_def by (metis fst_conv snd_conv)

lemma overlap_okI:
  "(\<And>key st. dget (gr_rounds rt) key = Some st \<Longrightarrow> window_ok (gr_controller rt) lg key st) \<Longrightarrow> overlap_ok (rt, lg)"
  unfolding overlap_ok_def by simp

lemma window_ok_log: "round_log key lg' = round_log key lg \<Longrightarrow> window_ok c lg' key st = window_ok c lg key st"
  unfolding window_ok_def by simp

text \<open>What the window of a round is kept of: the fields it is read from.\<close>

definition window_view :: "round_grant \<Rightarrow> string \<times> int \<times> bool \<times> int \<times> int \<times> int option" where
  "window_view st = (rg_request_id st, rg_spec_cnt st, rg_overlap_open st, rg_overlap_tpc_low st,
     rg_overlap_tpc_high st, rg_overlap_deadline_us st)"

lemma window_ok_cong:
  "window_view st' = window_view st \<Longrightarrow> window_ok c lg key st' = window_ok c lg key st"
  by (simp add: window_ok_def window_view_def split: list.splits)

lemma overlap_ok_views:
  assumes "overlap_ok (rt, lg)" and "calibrating (gr_controller rt') = calibrating (gr_controller rt)"
    and "\<And>k st. dget (gr_rounds rt') k = Some st \<Longrightarrow>
       \<exists>st0. dget (gr_rounds rt) k = Some st0 \<and> window_view st = window_view st0"
  shows "overlap_ok (rt', lg)"
proof -
  have "window_ok (gr_controller rt') lg k st" if "dget (gr_rounds rt') k = Some st" for k st
  proof -
    from assms(3) [OF that] obtain st0 where st0: "dget (gr_rounds rt) k = Some st0"
      and v: "window_view st = window_view st0" by blast
    have "window_ok (gr_controller rt) lg k st"
      unfolding window_ok_cong [OF v] by (rule overlap_okD [OF assms(1) st0])
    with assms(2) show ?thesis unfolding window_ok_def by (simp split: list.splits)
  qed
  then show ?thesis by (rule overlap_okI)
qed

lemma note_issue_view:
  "window_view (note_issue d eff ep perf st) =
     (if gd_state d = SLACK_FILL \<and> \<not> rg_overlap_open st
      then (rg_request_id st, rg_spec_cnt st, True, gd_tpc_low d, gd_tpc_high d, eff) else window_view st)"
  by (cases "gd_state d") (simp_all add: note_issue_def window_view_def Let_def)

lemma state_value_slack [simp]:
  "grant_state_value s = ''SLACK_FILL'' \<longleftrightarrow> s = SLACK_FILL"
  "''SLACK_FILL'' = grant_state_value s \<longleftrightarrow> s = SLACK_FILL"
  by (cases s; simp)+

lemma next_epoch_fields [simp]:
  "gr_rounds (snd (next_epoch rid rt)) = gr_rounds rt" "gr_controller (snd (next_epoch rid rt)) = gr_controller rt"
  by (simp_all add: next_epoch_def Let_def)

lemma put_round_fields [simp]:
  "gr_rounds (put_round k st rt) = dset k st (gr_rounds rt)" "gr_controller (put_round k st rt) = gr_controller rt"
  by (simp_all add: put_round_def)

definition no_grant :: "execution_grant option res \<Rightarrow> bool" where
  "no_grant r \<longleftrightarrow> r = Inr None \<or> (\<exists>e. r = Inl e)"

lemma no_grant_slack: "no_grant r \<Longrightarrow> slack_grants r = []"
  by (auto simp: no_grant_def slack_grants_def)

lemma issue_cases:
  assumes "issue now perf key st waiting deadline override rt = (r, rt')"
  obtains "no_grant r" "rt' = rt"
  | d where "no_grant r" "gr_controller rt' = gr_controller rt"
      "gr_rounds rt' = dset key (st\<lparr>rg_last_decision := Some d\<rparr>) (gr_rounds rt)"
  | d ep eff g where "r = Inr (Some g)" "gr_controller rt' = gr_controller rt"
      "eff = effective_deadline (gr_controller rt) now (st\<lparr>rg_last_decision := Some d\<rparr>) d deadline"
      "gr_rounds rt' = dset key (note_issue d eff ep perf (st\<lparr>rg_last_decision := Some d\<rparr>)) (gr_rounds rt)"
      "grant_key g = (rg_request_id st, rg_spec_cnt st)" "eg_tpc_low g = gd_tpc_low d"
      "eg_tpc_high g = gd_tpc_high d" "eg_deadline_us g = eff"
      "eg_grant_state g = grant_state_value (gd_state d)" "override = Some d \<or> override = None"
proof -
  consider "rg_outstanding_epoch st \<noteq> None \<or> rg_desired_q st \<le> rg_issued st"
    | "\<not> (rg_outstanding_epoch st \<noteq> None \<or> rg_desired_q st \<le> rg_issued st)" by blast
  then show thesis
  proof cases
    case 1
    with assms that(1) show ?thesis by (auto simp: issue_def no_grant_def)
  next
    case 2
    define dec where "dec = (case override of Some d \<Rightarrow> Inr d
             | None \<Rightarrow> decide (gr_controller rt)
                 \<lparr>da_target_shape = rg_target_shape st, da_draft_bs = rg_draft_bs st,
                  da_draft_ctx_bucket = rg_draft_ctx_bucket st,
                  da_predicted_slack_us = rg_predicted_slack_us st,
                  da_target_waiting = waiting, da_deadline_us = deadline\<rparr>)"
    show ?thesis
    proof (cases dec)
      case (Inl e)
      with assms 2 that(1) show ?thesis
        unfolding issue_def dec_def [symmetric] by (auto simp: no_grant_def)
    next
      case (Inr d)
      let ?st = "st\<lparr>rg_last_decision := Some d\<rparr>" and ?rt = "put_round key (st\<lparr>rg_last_decision := Some d\<rparr>) rt"
      let ?eff = "effective_deadline (gr_controller rt) now ?st d deadline"
      have ov: "override = Some d \<or> override = None" using Inr by (auto simp: dec_def split: option.splits)
      show ?thesis
      proof (cases "allows_draft d")
        case False
        with assms 2 Inr have "r = Inr None" "rt' = ?rt"
          unfolding issue_def dec_def [symmetric] by (simp_all add: Let_def)
        with that(2) [of d] show ?thesis by (simp add: no_grant_def)
      next
        case True
        obtain ep rt2 where ne: "next_epoch (rg_request_id st) ?rt = (ep, rt2)" by force
        have f2: "gr_rounds rt2 = dset key ?st (gr_rounds rt)" "gr_controller rt2 = gr_controller rt"
          using next_epoch_fields [of "rg_request_id st" ?rt] by (simp_all add: ne)
        let ?g = "\<lparr>eg_request_id = rg_request_id st, eg_spec_cnt = rg_spec_cnt st,
                   eg_grant_epoch = ep, eg_grant_tokens = 1, eg_tpc_low = gd_tpc_low d,
                   eg_tpc_high = gd_tpc_high d, eg_deadline_us = ?eff, eg_placement_id = 0,
                   eg_grant_state = grant_state_value (gd_state d)\<rparr>"
        show ?thesis
        proof (cases "grant_new ?g")
          case (Inl e)
          with assms 2 Inr True ne have "r = Inl e" "rt' = rt2"
            unfolding issue_def dec_def [symmetric] by (simp_all add: Let_def)
          with f2 that(2) [of d] show ?thesis by (simp add: no_grant_def)
        next
          case g: (Inr g)
          then have "g = ?g" by (rule grant_new_Inr)
          moreover from g assms 2 Inr True ne have "r = Inr (Some g)" "rt' = put_round key (note_issue d ?eff ep perf ?st) rt2"
            unfolding issue_def dec_def [symmetric] by (simp_all add: Let_def)
          moreover have "dset key v (dset key w D) = dset key v D" for v w and D :: "(round_key, round_grant) dict"
            by simp
          ultimately show ?thesis using f2 ov by (intro that(3) [of g ?eff d ep]) (simp_all add: grant_key_def)
        qed
      qed
    qed
  qed
qed

lemma overlap_ok_put:
  assumes ok: "overlap_ok (rt, lg)" and rounds: "\<And>k. k \<noteq> key \<Longrightarrow> dget (gr_rounds rt') k = dget (gr_rounds rt) k"
    and c: "gr_controller rt' = gr_controller rt" and new: "\<forall>g \<in> set gs. grant_key g = key"
    and own: "\<And>st. dget (gr_rounds rt') key = Some st \<Longrightarrow> window_ok (gr_controller rt) (lg @ gs) key st"
  shows "overlap_ok (rt', lg @ gs)"
proof -
  have "window_ok (gr_controller rt) (lg @ gs) k st" if "k \<noteq> key" "dget (gr_rounds rt) k = Some st" for k st
  proof -
    have "round_log k (lg @ gs) = round_log k lg" using new that(1) by (intro round_log_other) auto
    from window_ok_log [OF this] overlap_okD [OF ok that(2)] show ?thesis by simp
  qed
  with rounds c own show ?thesis by (intro overlap_okI) metis
qed

lemma issue_ok:
  assumes ok: "overlap_ok (rt, lg)" and st: "dget (gr_rounds rt) key = Some st"
    and iss: "issue now perf key st waiting deadline override rt = (r, rt')"
  shows "overlap_ok (rt', lg @ slack_grants r)" and "gr_controller rt' = gr_controller rt"
  using iss
proof (atomize (full), cases rule: issue_cases)
  case 1
  with ok show "overlap_ok (rt', lg @ slack_grants r) \<and> gr_controller rt' = gr_controller rt"
    by (simp add: no_grant_slack)
next
  case (2 d)
  have "overlap_ok (rt', lg)"
    by (rule overlap_ok_views [OF ok]) (use 2 st in \<open>auto simp: window_view_def split: if_splits\<close>)
  with 2 show "overlap_ok (rt', lg @ slack_grants r) \<and> gr_controller rt' = gr_controller rt"
    by (simp add: no_grant_slack)
next
  case (3 d ep eff g)
  note w = overlap_okD [OF ok st]
  have key: "key = (rg_request_id st, rg_spec_cnt st)" using w by (simp add: window_ok_def)
  let ?st = "note_issue d eff ep perf (st\<lparr>rg_last_decision := Some d\<rparr>)"
  have eff: "gd_state d = SLACK_FILL \<Longrightarrow> eff = None \<Longrightarrow> calibrating (gr_controller rt)"
    using 3(3) by (auto simp: effective_deadline_def calibrating_def split: if_splits)
  have v: "window_view ?st = (if gd_state d = SLACK_FILL \<and> \<not> rg_overlap_open st
      then (rg_request_id st, rg_spec_cnt st, True, gd_tpc_low d, gd_tpc_high d, eff) else window_view st)"
    using note_issue_view [of d eff ep perf "st\<lparr>rg_last_decision := Some d\<rparr>"] by (simp add: window_view_def)
  have own: "window_ok (gr_controller rt) (lg @ slack_grants r) key ?st"
  proof (cases "gd_state d = SLACK_FILL")
    case False
    then have "slack_grants r = []" "window_view ?st = window_view st" using 3(1,9) v by (simp_all add: slack_grants_def)
    with w window_ok_cong [of ?st st "gr_controller rt" lg key] show ?thesis by simp
  next
    case True
    then have sl: "slack_grants r = [g]" using 3(1,9) by (simp add: slack_grants_def)
    show ?thesis
    proof (cases "rg_overlap_open st")
      case op: True
      then obtain h hs where "round_log key lg = h # hs"
        using w by (auto simp: window_ok_def split: list.splits)
      moreover have "window_view ?st = window_view st" using v op by simp
      ultimately show ?thesis
        using w window_ok_cong [of ?st st "gr_controller rt" "lg @ [g]" key]
        by (simp add: sl window_ok_def round_log_simps)
    next
      case op: False
      then have "round_log key lg = []" using w by (auto simp: window_ok_def split: list.splits)
      then show ?thesis
        using v op True 3(5-8) key eff
        by (simp add: sl window_ok_def window_view_def round_log_simps) (simp add: round_log_def)
    qed
  qed
  have "overlap_ok (rt', lg @ slack_grants r)"
  proof (rule overlap_ok_put [OF ok, of key])
    show "dget (gr_rounds rt') k = dget (gr_rounds rt) k" if "k \<noteq> key" for k
      using that by (simp add: 3(4))
    show "\<forall>g \<in> set (slack_grants r). grant_key g = key"
      using 3(5) by (simp add: 3(1) slack_grants_def key [symmetric])
    show "window_ok (gr_controller rt) (lg @ slack_grants r) key s" if "dget (gr_rounds rt') key = Some s" for s
      using that own by (simp add: 3(4))
  qed (rule 3(2))
  with 3(2) show "overlap_ok (rt', lg @ slack_grants r) \<and> gr_controller rt' = gr_controller rt" by simp
qed

lemma slack_none [simp]: "slack_grants (Inr None) = []"
  by (simp add: slack_grants_def)

lemma note_baseline_fields [simp]:
  "gr_rounds (note_baseline k rt) = gr_rounds rt" "gr_controller (note_baseline k rt) = gr_controller rt"
  by (simp_all add: note_baseline_def split: option.splits)

lemma initial_one_ok:
  assumes ok: "overlap_ok (rt, lg)" and run: "initial_one now perf key rt = (r, rt')"
  shows "overlap_ok (rt', lg @ slack_grants r)"
proof (cases "dget (gr_rounds rt) key")
  case None
  with ok run show ?thesis by (auto simp: initial_one_def)
next
  case (Some st)
  show ?thesis
  proof (cases "rg_spec_cnt st \<le> 0")
    case True
    let ?st = "st\<lparr>rg_last_decision := Some (decision_exclusive ''initial_prefill_wait_only'')\<rparr>"
    have "overlap_ok (put_round key ?st rt, lg)"
      by (rule overlap_ok_views [OF ok]) (use Some in \<open>auto simp: window_view_def split: if_splits\<close>)
    with True run Some show ?thesis by (auto simp: initial_one_def)
  next
    case False
    obtain r1 rt1 where i: "issue now perf key st False None None rt = (r1, rt1)" by force
    note k = issue_ok [OF ok Some i]
    have "overlap_ok (note_baseline key rt1, lg @ slack_grants r1)"
      by (rule overlap_ok_views [OF k(1)]) simp_all
    with k(1) i False run Some show ?thesis
      by (auto simp: initial_one_def split: sum.splits option.splits)
  qed
qed

lemma waiting_one_ok:
  "overlap_ok (rt, lg) \<Longrightarrow> waiting_one now perf dl key rt = (r, rt') \<Longrightarrow> overlap_ok (rt', lg @ slack_grants r)"
  by (auto simp: waiting_one_def issue_ok(1) split: option.splits)

lemma overlap_one_ok:
  "overlap_ok (rt, lg) \<Longrightarrow> overlap_one now perf key rt = (r, rt') \<Longrightarrow> overlap_ok (rt', lg @ slack_grants r)"
  by (auto simp: overlap_one_def issue_ok(1) split: option.splits if_splits)

lemma pause_views:
  "pause_messages keys rt = (ms, rt') \<Longrightarrow> gr_controller rt' = gr_controller rt
     \<and> (\<forall>k st. dget (gr_rounds rt') k = Some st \<longrightarrow>
          (\<exists>st0. dget (gr_rounds rt) k = Some st0 \<and> window_view st = window_view st0))"
proof (induction keys arbitrary: rt ms)
  case (Cons k keys)
  show ?case
  proof (cases "dget (gr_rounds rt) k")
    case None
    with Cons show ?thesis by simp
  next
    case (Some st)
    let ?rt = "put_round k (st\<lparr>rg_outstanding_epoch := None, rg_outstanding_since := 0\<rparr>) rt"
    obtain ms1 rt1 where p1: "pause_messages keys ?rt = (ms1 :: 'a spectre_request list, rt1)" by force
    then have p: "pause_messages keys ?rt = (ms1, rt')" using Cons.prems Some by simp
    from Cons.IH [OF p] show ?thesis
    proof (intro conjI allI impI)
      fix j s assume "dget (gr_rounds rt') j = Some s"
      with Cons.IH [OF p] obtain s0 where "dget (gr_rounds ?rt) j = Some s0" "window_view s = window_view s0" by blast
      then show "\<exists>st0. dget (gr_rounds rt) j = Some st0 \<and> window_view s = window_view st0"
        using Some by (auto simp: window_view_def split: if_splits)
    qed simp
  qed
qed simp

lemma acknowledge_views:
  assumes "acknowledge perf m rt = (b, rt')"
  shows "gr_controller rt' = gr_controller rt"
    and "dget (gr_rounds rt') k = Some st \<Longrightarrow> \<exists>st0. dget (gr_rounds rt) k = Some st0 \<and> window_view st = window_view st0"
  using assms
  by (auto simp: acknowledge_def Let_def window_view_def split: option.splits if_splits)

lemma dget_filter_rid: "dget (filter (\<lambda>kv. fst (fst kv) \<noteq> rid) d) k = (if fst k = rid then None else dget d k)"
  by (induction d) auto

lemma overlap_step_ok: "overlap_ok s \<Longrightarrow> overlap_step s s' \<Longrightarrow> overlap_ok s'"
proof (erule overlap_step.cases)
  fix rid n q shape bs ctx slack rt rt' lg
  assume ok: "overlap_ok s" and eq: "s = (rt, lg)" "s' = (rt', filter (\<lambda>g. grant_key g \<noteq> (rid, n)) lg)"
    and reg: "register_round rid n q shape bs ctx slack rt = Inr rt'"
  have rt': "rt' = rt\<lparr>gr_rounds := dset (rid, n) (round_new rid n q shape bs ctx slack) (gr_rounds rt)\<rparr>"
    using reg by (simp add: register_round_def split: if_splits)
  have "window_ok (gr_controller rt) (filter (\<lambda>g. grant_key g \<noteq> (rid, n)) lg) k st"
    if "dget (dset (rid, n) (round_new rid n q shape bs ctx slack) (gr_rounds rt)) k = Some st" for k st
  proof (cases "k = (rid, n)")
    case True
    with that show ?thesis by (auto simp: window_ok_def round_log_simps round_new_def)
  next
    case False
    then have "round_log k (filter (\<lambda>g. grant_key g \<noteq> (rid, n)) lg) = round_log k lg" by (simp add: round_log_simps)
    from window_ok_log [OF this] overlap_okD [OF ok [unfolded eq(1)]] that False show ?thesis by simp
  qed
  then show "overlap_ok s'" unfolding eq(2) rt' by (intro overlap_okI) simp
next
  fix f now perf dl key rt r rt' lg
  assume ok: "overlap_ok s" and eq: "s = (rt, lg)" "s' = (rt', lg @ slack_grants r)"
    and f: "f \<in> {initial_one now perf, overlap_one now perf, waiting_one now perf dl}" and run: "f key rt = (r, rt')"
  from f consider "f = initial_one now perf" | "f = overlap_one now perf" | "f = waiting_one now perf dl" by blast
  then show "overlap_ok s'"
    using initial_one_ok [of rt lg now perf key r rt'] overlap_one_ok [of rt lg now perf key r rt']
      waiting_one_ok [of rt lg now perf dl key r rt'] ok run
    by cases (simp_all add: eq)
next
  fix rt lg ms
  assume ok: "overlap_ok s" and eq: "s = (rt, lg)" "s' = (record_target_forward ms rt, lg)"
  have "overlap_ok (record_target_forward ms rt, lg)"
    by (rule overlap_ok_views [OF ok [unfolded eq(1)]])
      (auto simp: record_target_forward_def Let_def calibrating_def record_overlap_slowdown_def split: list.splits)
  then show "overlap_ok s'" by (simp add: eq)
next
  fix rt lg
  assume "overlap_ok s" "s = (rt, lg)" "s' = (rt\<lparr>gr_active_overlap_baselines_ms := []\<rparr>, lg)"
  then show "overlap_ok s'" using overlap_okD [of rt lg] by (auto intro: overlap_okI)
next
  fix perf rt b rt' lg and m :: "unit spectre_request"
  assume ok: "overlap_ok s" and eq: "s = (rt, lg)" "s' = (rt', lg)" and a: "acknowledge perf m rt = (b, rt')"
  have "overlap_ok (rt', lg)"
    by (rule overlap_ok_views [OF ok [unfolded eq(1)]]) (use acknowledge_views [OF a] in simp_all)
  then show "overlap_ok s'" by (simp add: eq)
next
  fix keys rt rt' lg and ms :: "unit spectre_request list"
  assume ok: "overlap_ok s" and eq: "s = (rt, lg)" "s' = (rt', lg)" and a: "pause_messages keys rt = (ms, rt')"
  have "overlap_ok (rt', lg)"
    by (rule overlap_ok_views [OF ok [unfolded eq(1)]]) (use pause_views [OF a] in \<open>simp, blast\<close>)
  then show "overlap_ok s'" by (simp add: eq)
next
  fix rt lg rid
  assume ok: "overlap_ok s" and eq: "s = (rt, lg)" "s' = (release_rounds rid rt, filter (\<lambda>g. eg_request_id g \<noteq> rid) lg)"
  have "window_ok (gr_controller rt) (filter (\<lambda>g. eg_request_id g \<noteq> rid) lg) k st"
    if "dget (filter (\<lambda>kv. fst (fst kv) \<noteq> rid) (gr_rounds rt)) k = Some st" for k st
  proof -
    have k: "fst k \<noteq> rid" "dget (gr_rounds rt) k = Some st"
      using that by (auto simp: dget_filter_rid split: if_splits)
    have "round_log k (filter (\<lambda>g. eg_request_id g \<noteq> rid) lg) = round_log k lg"
      using k(1) by (simp add: round_log_simps)
    from window_ok_log [OF this] overlap_okD [OF ok [unfolded eq(1)] k(2)] show ?thesis by simp
  qed
  then show "overlap_ok s'" unfolding eq(2) release_rounds_def by (intro overlap_okI) simp
qed

interpretation overlap_protocol: invariant_system overlap_init overlap_step overlap_ok
proof
  fix s assume "overlap_init s"
  then show "overlap_ok s" by (auto simp: overlap_init_def runtime_new_def intro: overlap_okI)
next
  fix s s' assume "overlap_ok s" "overlap_step s s'"
  then show "overlap_ok s'" by (rule overlap_step_ok)
qed

text \<open>A continuation grant, in a state that satisfies the invariant.\<close>

lemma overlap_one_first:
  assumes ok: "overlap_ok (rt, lg)" and run: "overlap_one now perf key rt = (Inr (Some g), rt')"
  shows "grant_key g = key \<and> (\<exists>st g0 rest. dget (gr_rounds rt) key = Some st \<and> \<not> rg_overlap_blocked st
      \<and> round_log key lg = g0 # rest
      \<and> eg_tpc_low g = eg_tpc_low g0 \<and> eg_tpc_high g = eg_tpc_high g0
      \<and> eg_deadline_us g = eg_deadline_us g0 \<and> \<not> grant_expired now g)"
proof -
  obtain st where st: "dget (gr_rounds rt) key = Some st" "rg_overlap_open st" "\<not> rg_overlap_blocked st"
    and live: "\<not> (case rg_overlap_deadline_us st of None \<Rightarrow> False | Some d \<Rightarrow> d \<le> now)"
    and iss: "issue now perf key st False (rg_overlap_deadline_us st) (Some (frozen_decision st)) rt = (Inr (Some g), rt')"
    using run by (auto simp: overlap_one_def split: option.splits if_splits)
  note w = overlap_okD [OF ok st(1)]
  from iss show ?thesis
  proof (cases rule: issue_cases)
    case (3 d ep eff h)
    then have d: "d = frozen_decision st" "h = g" by simp_all
    obtain g0 rest where f: "round_log key lg = g0 # rest"
      "eg_tpc_low g0 = rg_overlap_tpc_low st" "eg_tpc_high g0 = rg_overlap_tpc_high st"
      "eg_deadline_us g0 = rg_overlap_deadline_us st"
      "rg_overlap_deadline_us st = None \<longrightarrow> calibrating (gr_controller rt)"
      using w st(2) by (auto simp: window_ok_def split: list.splits)
    have "eff = rg_overlap_deadline_us st"
      using 3(3) f(5) d by (auto simp: effective_deadline_def calibrating_def frozen_decision_def)
    then show ?thesis
      using 3 d f st w live by (auto simp: frozen_decision_def grant_expired_def window_ok_def split: option.splits)
  qed (simp_all add: no_grant_def)
qed

lemma continuation_first:
  assumes ok: "overlap_ok (rt, lg)" and later: "overlap_ok (s, lg @ new)"
    and win: "overlap_windows s = overlap_windows rt"
    and run: "overlap_one now perf key s = (Inr (Some g), s1)"
  shows "grant_key g = key \<and> (\<exists>st g0 rest. dget (gr_rounds rt) key = Some st \<and> \<not> rg_overlap_blocked st
      \<and> round_log key lg = g0 # rest
      \<and> eg_tpc_low g = eg_tpc_low g0 \<and> eg_tpc_high g = eg_tpc_high g0
      \<and> eg_deadline_us g = eg_deadline_us g0 \<and> \<not> grant_expired now g)"
proof -
  from overlap_one_first [OF later run] obtain st g1 rest1 where k: "grant_key g = key"
    and st: "dget (gr_rounds s) key = Some st" "\<not> rg_overlap_blocked st"
    and f1: "round_log key (lg @ new) = g1 # rest1"
    and g: "eg_tpc_low g = eg_tpc_low g1" "eg_tpc_high g = eg_tpc_high g1"
      "eg_deadline_us g = eg_deadline_us g1" "\<not> grant_expired now g" by blast
  have "overlap_windows rt key = Some (window_of st)" using win st(1) by (metis overlap_windows_def option.map(2))
  then obtain st0 where st0: "dget (gr_rounds rt) key = Some st0" "window_of st0 = window_of st"
    by (auto simp: overlap_windows_def)
  have "rg_overlap_open st" using overlap_okD [OF later st(1)] f1 by (simp add: window_ok_def)
  then have "rg_overlap_open st0" "\<not> rg_overlap_blocked st0" using st0(2) st(2) by (simp_all add: window_of_def)
  moreover obtain g0 rest where "round_log key lg = g0 # rest"
    using overlap_okD [OF ok st0(1)] calculation(1) by (auto simp: window_ok_def split: list.splits)
  ultimately show ?thesis using k st0(1) f1 g by (auto simp: round_log_simps)
qed

text \<open>
  C22: while the Target forward runs, continuation grants never widen, move or prolong the overlap
  window of their round.  In every run of the sequencer (registrations, grants of all three kinds,
  acknowledgements, pauses, measured forwards and releases, in any order), each grant \<open>g\<close> that
  \<open>overlap_grants\<close> issues is for a round it was asked for, whose window is not blocked and for
  which a \<open>SLACK_FILL\<close> grant was issued since the round was registered; \<open>g\<close> has exactly the TPC
  range and the absolute deadline of the first such grant of its own round, and is issued before
  that deadline.  The windows of all rounds are left unchanged.
\<close>

theorem overlap_window_frozen:
  assumes "reaches overlap_init overlap_step (rt, lg)"
    and "overlap_grants now perf keys rt = (Inr gs, rt')" and "g \<in> set gs"
  shows "overlap_windows rt' = overlap_windows rt \<and> grant_key g \<in> set keys
    \<and> (\<exists>st g0 rest. dget (gr_rounds rt) (grant_key g) = Some st \<and> \<not> rg_overlap_blocked st
        \<and> round_log (grant_key g) lg = g0 # rest
        \<and> eg_tpc_low g = eg_tpc_low g0 \<and> eg_tpc_high g = eg_tpc_high g0
        \<and> eg_deadline_us g = eg_deadline_us g0 \<and> \<not> grant_expired now g)"
proof -
  have ok: "overlap_ok (rt, lg)" using assms(1) by (rule overlap_protocol.reaches_inv)
  note loop = assms(2) [unfolded overlap_grants_def]
  let ?P = "\<lambda>s. overlap_windows s = overlap_windows rt"
  have keep: "?P s1" if "?P s" "overlap_one now perf k s = (r1, s1)" for k s r1 s1
    using overlap_one_frozen(1) [OF that(2)] that(1) by simp
  have win: "?P rt'" by (rule grant_loop_invariant [OF loop, of ?P]) (rule refl, erule (1) keep)
  let ?Q = "\<lambda>s. \<exists>new. overlap_ok (s, lg @ new) \<and> ?P s"
  let ?G = "\<lambda>h. grant_key h \<in> set keys \<and> (\<exists>st g0 rest. dget (gr_rounds rt) (grant_key h) = Some st
      \<and> \<not> rg_overlap_blocked st \<and> round_log (grant_key h) lg = g0 # rest
      \<and> eg_tpc_low h = eg_tpc_low g0 \<and> eg_tpc_high h = eg_tpc_high g0
      \<and> eg_deadline_us h = eg_deadline_us g0 \<and> \<not> grant_expired now h)"
  have step: "?Q s1" if "?Q s" "overlap_one now perf k s = (r1, s1)" for k s r1 s1
    using that overlap_one_ok [OF _ that(2)] keep [OF _ that(2)] by (metis append_assoc)
  have "?G g"
  proof (rule grant_loop_messages [OF loop assms(3), of ?Q])
    show "?Q rt" using ok by (intro exI [of _ "[]"]) simp
  next
    fix k s h s1
    assume k: "k \<in> set keys" and s: "?Q s" and h: "overlap_one now perf k s = (Inr (Some h), s1)"
    obtain new where "overlap_ok (s, lg @ new)" "?P s" using s by blast
    from continuation_first [OF ok this h] k show "?G h" by auto
  qed (erule (1) step)
  with win show ?thesis by blast
qed

text \<open>A round of four tokens under a calibration that may overlap: its second grant is a continuation.\<close>

definition ex_overlap :: grant_controller where
  "ex_overlap = ex_controller\<lparr>gc_calibration_tpcs := 4, gc_calibration_allow_overlap := True\<rparr>"

definition ex_first :: execution_grant where
  "ex_first = \<lparr>eg_request_id = ''r'', eg_spec_cnt = 2, eg_grant_epoch = 1, eg_grant_tokens = 1, eg_tpc_low = 0,
     eg_tpc_high = 4, eg_deadline_us = None, eg_placement_id = 0, eg_grant_state = ''SLACK_FILL''\<rparr>"

definition ex_ack :: "unit spectre_request" where
  "ex_ack = (request_new ''r'' GRANT_ACK DRAFT_RESPONSE)\<lparr>sr_spec_cnt := Some 2, sr_grant_epoch := Some 1,
     sr_grant_tokens := Some 1\<rparr>"

definition ex_registered :: grant_runtime where
  "ex_registered = (runtime_new ex_overlap)
     \<lparr>gr_rounds := [((''r'', 2), round_new ''r'' 2 4 ''verify_bs1_q4_ctx2k'' 1 ''2k'' 5000)]\<rparr>"

lemmas ex_overlap_defs = ex_overlap_def ex_first_def ex_ack_def ex_registered_def ex_controller_def runtime_new_def
  round_new_def decide_def allows_draft_def effective_deadline_def next_epoch_def put_round_def dget_or_def
  grant_new_def note_issue_def note_baseline_def issue_def Let_def

lemma ex_overlap_run:
  "\<exists>rt1 rt2 g rt'. initial_one 10 0 (''r'', 2) ex_registered = (Inr (Some ex_first), rt1)
     \<and> acknowledge 1 ex_ack rt1 = (True, rt2) \<and> overlap_grants 100 2 [(''r'', 2)] rt2 = (Inr [g], rt')"
  by (simp add: initial_one_def acknowledge_def overlap_grants_def overlap_one_def frozen_decision_def
      request_new_def ex_overlap_defs)

theorem overlap_window_frozen_witness:
  "\<exists>rt lg g rt'. reaches overlap_init overlap_step (rt, lg) \<and> overlap_grants 100 2 [(''r'', 2)] rt = (Inr [g], rt')
     \<and> eg_tpc_low g = 0 \<and> eg_tpc_high g = 4 \<and> eg_deadline_us g = None
     \<and> overlap_windows rt' = overlap_windows rt"
proof -
  obtain rt1 rt2 g rt' where i: "initial_one 10 0 (''r'', 2) ex_registered = (Inr (Some ex_first), rt1)"
    and a: "acknowledge 1 ex_ack rt1 = (True, rt2)" and run: "overlap_grants 100 2 [(''r'', 2)] rt2 = (Inr [g], rt')"
    using ex_overlap_run by blast
  have "overlap_init (runtime_new ex_overlap, [])" by (auto simp: overlap_init_def)
  then have "reaches overlap_init overlap_step (runtime_new ex_overlap, [])" by (rule reaches_init)
  moreover have "overlap_step (runtime_new ex_overlap, []) (ex_registered, [])"
    using ov_register [of "''r''" 2 4 "''verify_bs1_q4_ctx2k''" 1 "''2k''" 5000 "runtime_new ex_overlap" ex_registered "[]"]
    by (simp add: register_round_def ex_registered_def runtime_new_def)
  moreover have "overlap_step (ex_registered, []) (rt1, [ex_first])"
    using ov_issue [of "initial_one 10 0" 10 0 0 "(''r'', 2)" ex_registered "Inr (Some ex_first)" rt1 "[]"] i
    by (simp add: slack_grants_def ex_first_def)
  moreover have "overlap_step (rt1, [ex_first]) (rt2, [ex_first])" using a by (rule ov_acknowledge)
  ultimately have reach: "reaches overlap_init overlap_step (rt2, [ex_first])" by (meson reaches_step)
  from overlap_window_frozen [OF reach run, of g] obtain g0 rest where
    "round_log (grant_key g) [ex_first] = g0 # rest" "eg_tpc_low g = eg_tpc_low g0"
    "eg_tpc_high g = eg_tpc_high g0" "eg_deadline_us g = eg_deadline_us g0" "overlap_windows rt' = overlap_windows rt2"
    by auto
  moreover from this(1) have "g0 = ex_first" by (auto simp: round_log_def split: if_splits)
  ultimately show ?thesis using reach run by (auto simp: ex_first_def)
qed

end
