(* ===== verification/GrantProtocol.thy ===== *)
theory GrantProtocol
  imports CoexecRuntime
begin

text \<open>
  The grant protocol end to end: the Target's sequencer, the Drafter's table and the messages
  between them.  The Drafter side is the grant handling of
  \<open>drafter/spectre_draft_scheduler_mixin.py\<close>: it rebuilds a grant from a message, applies it to
  its table, and \<open>_prefill_draft_reqs\<close>, the one live consumer of the table, launches the prefill of
  a waiting request under a \<open>DRAFT_CATCHUP\<close> grant and acknowledges it with one token, or
  acknowledges with zero when the grant expired or the prefill was deferred.  (Decode steps run
  under \<open>DraftGrantGate\<close>, see \<open>DraftGate\<close>.)  The network may lose, duplicate and reorder
  messages: whatever was sent once may be delivered any number of times, at any later time.
\<close>

section \<open>The Drafter's side\<close>

text \<open>\<open>_process_control_message\<close>, action \<open>GRANT\<close>: the grant the message carries.\<close>

definition grant_of_message :: "'p spectre_request \<Rightarrow> execution_grant res" where
  "grant_of_message m =
     grant_new \<lparr>eg_request_id = sr_request_id m, eg_spec_cnt = int_or0 (sr_spec_cnt m),
       eg_grant_epoch = int_or0 (sr_grant_epoch m), eg_grant_tokens = int_or0 (sr_grant_tokens m),
       eg_tpc_low = int_or0 (sr_tpc_low m), eg_tpc_high = int_or0 (sr_tpc_high m),
       eg_deadline_us = sr_deadline_us m, eg_placement_id = int_or0 (sr_placement_id m),
       eg_grant_state = (case sr_grant_state m of None \<Rightarrow> [] | Some s \<Rightarrow> s)\<rparr>"

definition receive_grant :: "'p spectre_request \<Rightarrow> grant_table \<Rightarrow> grant_table" where
  "receive_grant m tb =
     (case grant_of_message m of Inl _ \<Rightarrow> tb | Inr g \<Rightarrow> snd (table_apply g tb))"

definition receive_pause :: "'p spectre_request \<Rightarrow> grant_table \<Rightarrow> grant_table" where
  "receive_pause m tb =
     snd (table_pause (sr_request_id m) (sr_spec_cnt m) (sr_grant_epoch m) tb)"

text \<open>\<open>_send_grant_ack\<close>.\<close>

definition grant_ack :: "execution_grant \<Rightarrow> int \<Rightarrow> real \<Rightarrow> string option \<Rightarrow> 'p spectre_request" where
  "grant_ack g tokens elapsed_ms gstate =
     (request_new (eg_request_id g) GRANT_ACK DRAFT_RESPONSE)
       \<lparr>sr_spec_cnt := Some (eg_spec_cnt g), sr_grant_epoch := Some (eg_grant_epoch g),
        sr_grant_tokens := Some tokens, sr_tpc_low := Some (eg_tpc_low g),
        sr_tpc_high := Some (eg_tpc_high g), sr_draft_step_ms := Some elapsed_ms,
        sr_grant_state := Some (case gstate of Some s \<Rightarrow> if s = [] then eg_grant_state g else s
                                | None \<Rightarrow> eg_grant_state g)\<rparr>"

text \<open>\<open>_ack_expired_grant\<close>.\<close>

definition ack_expired ::
    "int \<Rightarrow> string \<Rightarrow> int \<Rightarrow> grant_table
      \<Rightarrow> (execution_grant \<times> 'p spectre_request \<times> grant_table) option" where
  "ack_expired now rid n tb =
     (case table_pop_expired rid (Some n) now tb of
        (None, _) \<Rightarrow> None
      | (Some g, tb') \<Rightarrow> Some (g, grant_ack g 0 0 (Some ''EXPIRED''), tb'))"

text \<open>
  The screening loop of \<open>_prefill_draft_reqs\<close> over the waiting queue: each entry is the clock at
  the look-up, the clock at a possible expiry, the request and its round.  A request without a
  usable grant is left out (an expired grant is acknowledged with zero tokens), a grant that is
  not for the Target's wait phase is consumed and acknowledged with zero tokens, and the others
  are candidates.  Result: the candidates, the grants acknowledged with zero, the table.
\<close>

fun screen_waiting ::
    "(int \<times> int \<times> string \<times> int) list \<Rightarrow> grant_table
      \<Rightarrow> (string \<times> int) list \<times> (execution_grant \<times> 'p spectre_request) list \<times> grant_table" where
  "screen_waiting [] tb = ([], [], tb)"
| "screen_waiting ((now, later, rid, n) # ws) tb =
     (case table_active rid (Some n) now tb of
        None \<Rightarrow>
         (case ack_expired later rid n tb of
            None \<Rightarrow> screen_waiting ws tb
          | Some (g, m, tb1) \<Rightarrow>
             (case screen_waiting ws tb1 of (gr, zs, tb2) \<Rightarrow> (gr, (g, m) # zs, tb2)))
      | Some g \<Rightarrow>
         if eg_grant_state g \<noteq> ''DRAFT_CATCHUP'' then
           (case table_consume_one rid n (eg_grant_epoch g) tb of
              (False, _) \<Rightarrow> screen_waiting ws tb
            | (True, tb1) \<Rightarrow>
               (case screen_waiting ws tb1 of (gr, zs, tb2) \<Rightarrow>
                  (gr, (g, grant_ack g 0 0 (Some ''PREFILL_DEFERRED'')) # zs, tb2)))
         else (case screen_waiting ws tb of (gr, zs, tb2) \<Rightarrow> ((rid, n) # gr, zs, tb2)))"

text \<open>
  After the prefill of the admitted requests has run: each consumes its grant and acknowledges one
  token; a grant that is no longer there raises.  Result: the acknowledgements sent, the outcome.
\<close>

fun consume_admitted ::
    "real \<Rightarrow> (string, execution_grant) dict \<Rightarrow> (string \<times> int) list \<Rightarrow> grant_table
      \<Rightarrow> 'p spectre_request list \<times> unit res \<times> grant_table" where
  "consume_admitted elapsed_ms grants [] tb = ([], Inr (), tb)"
| "consume_admitted elapsed_ms grants ((rid, n) # ks) tb =
     (case dget grants rid of
        None \<Rightarrow> consume_admitted elapsed_ms grants ks tb
      | Some g \<Rightarrow>
         (case table_consume_one rid n (eg_grant_epoch g) tb of
            (False, tb1) \<Rightarrow> ([], Inl RuntimeError, tb1)
          | (True, tb1) \<Rightarrow>
             (case consume_admitted elapsed_ms grants ks tb1 of (ms, r, tb2) \<Rightarrow>
                (grant_ack g 1 elapsed_ms None # ms, r, tb2))))"

record 'p prefill_result =
  pf_launched :: "execution_grant list"
  pf_zero :: "execution_grant list"
  pf_acks :: "'p spectre_request list"
  pf_outcome :: "unit res"
  pf_table :: grant_table

text \<open>
  The grant handling of one call of \<open>_prefill_draft_reqs\<close>.  \<open>admit\<close> stands for the prefill adder,
  which picks some of the candidates, and for the SM gate, which may send all of them back.
\<close>

definition prefill_draft_reqs ::
    "(int \<times> int \<times> string \<times> int) list \<Rightarrow> ((string \<times> int) list \<Rightarrow> (string \<times> int) list) \<Rightarrow> int \<Rightarrow> real
      \<Rightarrow> grant_table \<Rightarrow> 'p prefill_result" where
  "prefill_draft_reqs ws admit now elapsed_ms tb =
     (case screen_waiting ws tb of (candidates, zs, tb1) \<Rightarrow>
      let admitted = admit candidates; grants = table_active_for admitted now tb1 [] in
      if candidates = [] \<or> length grants \<noteq> length admitted \<or> admitted = []
      then \<lparr>pf_launched = [], pf_zero = map fst zs, pf_acks = map snd zs, pf_outcome = Inr (), pf_table = tb1\<rparr>
      else case consume_admitted elapsed_ms grants admitted tb1 of (ms, r, tb2) \<Rightarrow>
        \<lparr>pf_launched = map (\<lambda>(rid, n). the (dget grants rid)) admitted, pf_zero = map fst zs,
         pf_acks = map snd zs @ ms, pf_outcome = r, pf_table = tb2\<rparr>)"

text \<open>What the adder and the gate do: they pick candidates, no request twice.\<close>

definition picks :: "((string \<times> int) list \<Rightarrow> (string \<times> int) list) \<Rightarrow> bool" where
  "picks admit \<longleftrightarrow> (\<forall>ks. set (admit ks) \<subseteq> set ks \<and> distinct (map fst (admit ks)))"

section \<open>The system\<close>

text \<open>
  \<open>gs_used\<close> are the grants under which a prefill was launched and \<open>gs_zero\<close> those acknowledged with
  zero tokens; \<open>gs_void\<close> are the epochs whose zero acknowledgement the Target has accepted, and
  \<open>gs_base\<close> is the epoch counter at the latest registration of a round.  These four only
  observe the run.
\<close>

record grant_system =
  gs_runtime :: grant_runtime
  gs_table :: grant_table
  gs_sent :: "execution_grant list"
  gs_acks :: "unit spectre_request list"
  gs_used :: "execution_grant list"
  gs_zero :: "execution_grant list"
  gs_void :: "(string \<times> int) set"
  gs_base :: "round_key \<Rightarrow> int"

definition system_init :: "grant_system \<Rightarrow> bool" where
  "system_init s \<longleftrightarrow> (\<exists>c. s = \<lparr>gs_runtime = runtime_new c, gs_table = table_new, gs_sent = [],
     gs_acks = [], gs_used = [], gs_zero = [], gs_void = {}, gs_base = (\<lambda>_. 0)\<rparr>)"

inductive system_step :: "grant_system \<Rightarrow> grant_system \<Rightarrow> bool" where
  sys_register: "register_round rid n q shape bs ctx slack (gs_runtime s) = Inr rt' \<Longrightarrow>
     system_step s (s\<lparr>gs_runtime := rt',
       gs_base := (gs_base s)((rid, n) := epoch_of (gs_runtime s) rid)\<rparr>)"
| sys_issue: "f \<in> {initial_one now perf, overlap_one now perf, waiting_one now perf dl} \<Longrightarrow>
     f key (gs_runtime s) = (r, rt') \<Longrightarrow>
     system_step s (s\<lparr>gs_runtime := rt',
       gs_sent := gs_sent s @ (case r of Inr (Some g) \<Rightarrow> [g] | _ \<Rightarrow> [])\<rparr>)"
| sys_forward: "system_step s (s\<lparr>gs_runtime := record_target_forward ms (gs_runtime s)\<rparr>)"
| sys_pause: "pause_messages keys (gs_runtime s) = (msgs :: unit spectre_request list, rt') \<Longrightarrow>
     system_step s (s\<lparr>gs_runtime := rt'\<rparr>)"
| sys_deliver_grant: "g \<in> set (gs_sent s) \<Longrightarrow>
     system_step s (s\<lparr>gs_table := receive_grant (grant_message g :: unit spectre_request) (gs_table s)\<rparr>)"
| sys_deliver_pause: "system_step s (s\<lparr>gs_table := receive_pause (m :: unit spectre_request) (gs_table s)\<rparr>)"
| sys_prefill: "picks admit \<Longrightarrow>
     (prefill_draft_reqs ws admit now ms (gs_table s) :: unit prefill_result) = r \<Longrightarrow>
     system_step s (s\<lparr>gs_table := pf_table r, gs_used := gs_used s @ pf_launched r,
       gs_zero := gs_zero s @ pf_zero r, gs_acks := gs_acks s @ pf_acks r\<rparr>)"
| sys_deliver_ack: "m \<in> set (gs_acks s) \<Longrightarrow> acknowledge perf m (gs_runtime s) = (b, rt') \<Longrightarrow>
     system_step s (s\<lparr>gs_runtime := rt',
       gs_void := gs_void s \<union> (if b \<and> int_or0 (sr_grant_tokens m) = 0
         then {(sr_request_id m, int_or0 (sr_grant_epoch m))} else {})\<rparr>)"

section \<open>The invariant\<close>

definition grant_id :: "execution_grant \<Rightarrow> string \<times> int" where
  "grant_id g = (eg_request_id g, eg_grant_epoch g)"

text \<open>The grants of the current registration of a round that count against its quota.\<close>

definition live :: "grant_system \<Rightarrow> round_key \<Rightarrow> execution_grant set" where
  "live s k = {g \<in> set (gs_sent s). grant_key g = k \<and> gs_base s k < eg_grant_epoch g
     \<and> grant_id g \<notin> gs_void s}"

definition quota_ok :: "grant_system \<Rightarrow> round_key \<Rightarrow> quota \<Rightarrow> bool" where
  "quota_ok s k x \<longleftrightarrow> (case x of (rid, n, q, i, a, out) \<Rightarrow>
     k = (rid, n) \<and> 0 \<le> a \<and> a \<le> i \<and> i \<le> q \<and> int (card (live s k)) \<le> i
     \<and> (\<forall>e. out = Some e \<longrightarrow> a < i \<and> gs_base s k < e \<and> e \<le> epoch_of (gs_runtime s) rid
          \<and> (rid, e) \<notin> gs_void s
          \<and> (\<forall>g \<in> set (gs_sent s). grant_id g = (rid, e) \<longrightarrow> grant_key g = k)))"

definition rounds_ok :: "grant_system \<Rightarrow> bool" where
  "rounds_ok s \<longleftrightarrow> (\<forall>k x. quotas (gs_runtime s) k = Some x \<longrightarrow> quota_ok s k x)"

definition wire_ok :: "grant_system \<Rightarrow> bool" where
  "wire_ok s \<longleftrightarrow>
     (\<forall>g \<in> set (gs_sent s). eg_grant_epoch g \<le> epoch_of (gs_runtime s) (eg_request_id g))
     \<and> inj_on grant_id (set (gs_sent s)) \<and> (\<forall>k. gs_base s k \<le> epoch_of (gs_runtime s) (fst k))
     \<and> gs_void s \<subseteq> grant_id ` set (gs_zero s)
     \<and> (\<forall>m \<in> set (gs_acks s). \<exists>g \<in> set (gs_used s) \<union> set (gs_zero s).
          sr_request_id m = eg_request_id g \<and> sr_spec_cnt m = Some (eg_spec_cnt g)
          \<and> sr_grant_epoch m = Some (eg_grant_epoch g)
          \<and> (int_or0 (sr_grant_tokens m) = 0 \<longrightarrow> g \<in> set (gs_zero s)))"

definition drafter_ok :: "grant_system \<Rightarrow> bool" where
  "drafter_ok s \<longleftrightarrow> table_ok (gs_table s)
     \<and> (\<forall>rid g. dget (gt_active (gs_table s)) rid = Some g \<longrightarrow>
          g \<in> set (gs_sent s) \<and> g \<notin> set (gs_used s) \<union> set (gs_zero s))
     \<and> set (gs_used s) \<union> set (gs_zero s) \<subseteq> set (gs_sent s)
     \<and> set (gs_used s) \<inter> set (gs_zero s) = {} \<and> distinct (gs_used s)
     \<and> (\<forall>g \<in> set (gs_used s). eg_grant_state g = ''DRAFT_CATCHUP'')
     \<and> (\<forall>g \<in> set (gs_used s) \<union> set (gs_zero s).
          grant_pos g \<le> table_mark (gs_table s) (eg_request_id g))"

definition system_ok :: "grant_system \<Rightarrow> bool" where
  "system_ok s \<longleftrightarrow> rounds_ok s \<and> wire_ok s \<and> drafter_ok s"

lemma rounds_okD: "rounds_ok s \<Longrightarrow> quotas (gs_runtime s) k = Some x \<Longrightarrow> quota_ok s k x"
  unfolding rounds_ok_def by blast

lemma live_finite [simp]: "finite (live s k)"
  by (rule finite_subset [of _ "set (gs_sent s)"]) (auto simp: live_def)

lemma live_cong:
  "gs_sent s' = gs_sent s \<Longrightarrow> gs_base s' = gs_base s \<Longrightarrow> gs_void s' = gs_void s \<Longrightarrow>
     live s' k = live s k"
  by (simp add: live_def)

lemma system_init_ok: "system_init s \<Longrightarrow> system_ok s"
  by (auto simp: system_init_def system_ok_def rounds_ok_def wire_ok_def drafter_ok_def
      quotas_def runtime_new_def table_ok_new epoch_of_def dget_or_def, simp add: table_new_def)

text \<open>Steps that touch neither the sent grants nor the Drafter.\<close>

lemma rounds_ok_mono:
  assumes "rounds_ok s" and "gs_sent s' = gs_sent s" "gs_base s' = gs_base s" "gs_void s' = gs_void s"
    and "quotas (gs_runtime s') = quotas (gs_runtime s)"
    and "\<And>rid. epoch_of (gs_runtime s) rid \<le> epoch_of (gs_runtime s') rid"
  shows "rounds_ok s'"
  using assms(1) unfolding rounds_ok_def quota_ok_def assms(5) live_cong [OF assms(2-4)]
  by (fastforce simp: assms(2,3,4) intro: order_trans [OF _ assms(6)])


lemma wire_ok_mono:
  assumes "wire_ok s" and "gs_sent s' = gs_sent s" "gs_base s' = gs_base s" "gs_void s' = gs_void s"
    and "gs_acks s' = gs_acks s" "gs_used s' = gs_used s" "gs_zero s' = gs_zero s"
    and "\<And>rid. epoch_of (gs_runtime s) rid \<le> epoch_of (gs_runtime s') rid"
  shows "wire_ok s'"
  using assms(1) unfolding wire_ok_def assms(2-7) by (meson assms(8) order_trans)

lemma step_register:
  assumes ok: "system_ok s" and reg: "register_round rid n q shape bs ctx slack (gs_runtime s) = Inr rt'"
  shows "system_ok (s\<lparr>gs_runtime := rt',
       gs_base := (gs_base s)((rid, n) := epoch_of (gs_runtime s) rid)\<rparr>)" (is "system_ok ?s")
proof -
  note eff = register_effect [OF reg]
  have empty: "live ?s (rid, n) = {}"
    using ok by (auto simp: live_def system_ok_def wire_ok_def grant_key_def)
  have other: "live ?s k = live s k" if "k \<noteq> (rid, n)" for k
    using that by (simp add: live_def)
  have "rounds_ok ?s"
    unfolding rounds_ok_def
  proof (intro allI impI)
    fix k x assume x: "quotas (gs_runtime ?s) k = Some x"
    show "quota_ok ?s k x"
    proof (cases "k = (rid, n)")
      case True
      then show ?thesis using x eff empty by (auto simp: quota_ok_def)
    next
      case False
      then have "quota_ok s k x" using x eff ok by (auto simp: system_ok_def intro: rounds_okD)
      then show ?thesis using False eff other [OF False] by (auto simp: quota_ok_def)
    qed
  qed
  moreover have "wire_ok ?s" using ok eff by (auto simp: system_ok_def wire_ok_def)
  moreover have "drafter_ok ?s" using ok by (simp add: system_ok_def drafter_ok_def)
  ultimately show ?thesis by (simp add: system_ok_def)
qed

lemma void_epochs:
  assumes "system_ok s" and "(rid, e) \<in> gs_void s"
  shows "e \<le> epoch_of (gs_runtime s) rid"
proof -
  obtain g where "g \<in> set (gs_zero s)" "(rid, e) = grant_id g"
    using assms by (auto simp: system_ok_def wire_ok_def)
  then show ?thesis using assms(1) by (auto simp: system_ok_def wire_ok_def drafter_ok_def grant_id_def)
qed

lemma step_issue_granted:
  assumes ok: "system_ok s" and eff: "issue_effect key (gs_runtime s) (Inr (Some g)) rt'"
  shows "system_ok (s\<lparr>gs_runtime := rt', gs_sent := gs_sent s @ [g]\<rparr>)" (is "system_ok ?s")
proof -
  obtain rid n q i a where old: "quotas (gs_runtime s) key = Some (rid, n, q, i, a, None)" "i < q"
    and new: "quotas rt' = (quotas (gs_runtime s))(key \<mapsto>
        (rid, n, q, i + 1, a, Some (epoch_of (gs_runtime s) rid + 1)))"
    and ep: "epoch_of rt' = (epoch_of (gs_runtime s))(rid := epoch_of (gs_runtime s) rid + 1)"
    and g: "eg_request_id g = rid" "eg_spec_cnt g = n"
      "eg_grant_epoch g = epoch_of (gs_runtime s) rid + 1"
    using eff by (auto simp: issue_effect_def)
  have w: "wire_ok s" and r: "rounds_ok s" and d: "drafter_ok s" using ok by (auto simp: system_ok_def)
  have qk: "quota_ok s key (rid, n, q, i, a, None)" using r old(1) by (rule rounds_okD)
  then have key: "key = (rid, n)" by (simp add: quota_ok_def)
  have gkey: "grant_key g = key" by (simp add: grant_key_def g key)
  have nv: "(rid, epoch_of (gs_runtime s) rid + 1) \<notin> gs_void s"
    using void_epochs [OF ok] by force
  have live': "live ?s key \<subseteq> insert g (live s key)" by (auto simp: live_def)
  have other: "live ?s k = live s k" if "k \<noteq> key" for k
    using that gkey by (auto simp: live_def)
  have "int (card (live ?s key)) \<le> i + 1"
  proof -
    have "card (live ?s key) \<le> card (insert g (live s key))" by (rule card_mono [OF _ live']) simp
    also have "\<dots> \<le> Suc (card (live s key))" by (rule card_insert_le_m1) simp_all
    finally show ?thesis using qk unfolding key by (simp add: quota_ok_def)
  qed
  moreover have "gs_base s key \<le> epoch_of (gs_runtime s) rid"
    using w key by (auto simp: wire_ok_def dest: spec [of _ key])
  ultimately have now: "quota_ok ?s key (rid, n, q, i + 1, a, Some (epoch_of (gs_runtime s) rid + 1))"
    using qk old(2) nv w gkey by (auto simp: quota_ok_def ep wire_ok_def grant_id_def)
  have "rounds_ok ?s"
    unfolding rounds_ok_def
  proof (intro allI impI)
    fix k x assume x: "quotas (gs_runtime ?s) k = Some x"
    show "quota_ok ?s k x"
    proof (cases "k = key")
      case True
      then show ?thesis using x now new by simp
    next
      case False
      then have "quota_ok s k x" using x new r by (auto intro: rounds_okD)
      then show ?thesis using other [OF False] g(1,3) by (auto simp: quota_ok_def ep grant_id_def)
    qed
  qed
  moreover have "wire_ok ?s"
  proof -
    have "grant_id g \<notin> grant_id ` set (gs_sent s)"
      using w g(1,3) by (force simp: wire_ok_def grant_id_def)
    then have "inj_on grant_id (set (gs_sent ?s))" using w by (auto simp: wire_ok_def)
    moreover have "epoch_of (gs_runtime s) r' \<le> epoch_of rt' r'" for r' by (simp add: ep)
    ultimately show ?thesis
      using w g unfolding wire_ok_def by (force simp: ep intro: order_trans)
  qed
  moreover have "drafter_ok ?s" using d by (auto simp: drafter_ok_def)
  ultimately show ?thesis by (simp add: system_ok_def)
qed

lemma step_issue:
  assumes ok: "system_ok s" and eff: "issue_effect key (gs_runtime s) r rt'"
  shows "system_ok (s\<lparr>gs_runtime := rt',
       gs_sent := gs_sent s @ (case r of Inr (Some g) \<Rightarrow> [g] | _ \<Rightarrow> [])\<rparr>)"
proof -
  consider g where "r = Inr (Some g)" | "\<forall>g. r \<noteq> Inr (Some g)" by blast
  then show ?thesis
  proof cases
    case 1
    with ok eff step_issue_granted show ?thesis by simp
  next
    case 2
    then have none: "(case r of Inr (Some g) \<Rightarrow> [g] | _ \<Rightarrow> []) = []"
      and q: "quotas rt' = quotas (gs_runtime s)"
      and e: "\<And>rid. epoch_of (gs_runtime s) rid \<le> epoch_of rt' rid"
      using eff by (auto simp: issue_effect_def split: sum.splits option.splits)
    show ?thesis
      using ok e q rounds_ok_mono [of s] wire_ok_mono [of s]
      by (simp add: none system_ok_def drafter_ok_def)
  qed
qed

text \<open>An epoch is outstanding for the round of its grant only.\<close>

lemma outstanding_unique:
  assumes "system_ok s" and "quotas (gs_runtime s) k = Some (rid, n, q, i, a, Some e)"
    and "g \<in> set (gs_used s) \<union> set (gs_zero s)" and "grant_id g = (rid, e)"
  shows "grant_key g = k"
proof -
  have "g \<in> set (gs_sent s)" using assms(1,3) by (auto simp: system_ok_def drafter_ok_def)
  moreover have "quota_ok s k (rid, n, q, i, a, Some e)"
    using assms(1,2) by (auto simp: system_ok_def intro: rounds_okD)
  ultimately show ?thesis using assms(4) by (simp add: quota_ok_def)
qed

lemma step_ack:
  assumes ok: "system_ok s" and m: "m \<in> set (gs_acks s)"
    and ack: "acknowledge perf m (gs_runtime s) = (b, rt')"
  shows "system_ok (s\<lparr>gs_runtime := rt',
       gs_void := gs_void s \<union> (if b \<and> int_or0 (sr_grant_tokens m) = 0
         then {(sr_request_id m, int_or0 (sr_grant_epoch m))} else {})\<rparr>)" (is "system_ok ?s")
proof -
  have w: "wire_ok s" and r: "rounds_ok s" and d: "drafter_ok s" using ok by (auto simp: system_ok_def)
  note eff = acknowledge_effect [OF ack]
  obtain g where g: "g \<in> set (gs_used s) \<union> set (gs_zero s)"
      "sr_request_id m = eg_request_id g" "sr_spec_cnt m = Some (eg_spec_cnt g)"
      "sr_grant_epoch m = Some (eg_grant_epoch g)"
      "int_or0 (sr_grant_tokens m) = 0 \<Longrightarrow> g \<in> set (gs_zero s)"
    using w m unfolding wire_ok_def by blast
  have dr: "drafter_ok ?s" using d by (simp add: drafter_ok_def)
  have wi: "wire_ok ?s"
    using w g eff(1) by (auto simp: wire_ok_def grant_id_def)
  have "rounds_ok ?s"
  proof (cases b)
    case False
    with eff have "quotas rt' = quotas (gs_runtime s)" by simp
    with False eff(1) show ?thesis by (intro rounds_ok_mono [OF r]) simp_all
  next
    case True
    let ?k = "grant_key g" and ?e = "eg_grant_epoch g"
    obtain rid n q i a where old: "quotas (gs_runtime s) ?k = Some (rid, n, q, i, a, Some ?e)"
      and new: "(int_or0 (sr_grant_tokens m) = 0
            \<and> quotas rt' = (quotas (gs_runtime s))(?k \<mapsto> (rid, n, q, max (i - 1) a, a, None)))
          \<or> (int_or0 (sr_grant_tokens m) = 1
            \<and> quotas rt' = (quotas (gs_runtime s))(?k \<mapsto> (rid, n, q, i, a + 1, None)))"
      using eff(2) True g(2,3,4) by (auto simp: grant_key_def)
    note qk = rounds_okD [OF r old]
    have rid: "rid = eg_request_id g" using qk by (simp add: quota_ok_def grant_key_def)
    have sub: "live ?s k \<subseteq> live s k" for k by (auto simp: live_def)
    have le: "card (live ?s k) \<le> card (live s k)" for k by (rule card_mono [OF _ sub]) simp
    have other: "quota_ok ?s k x" if "k \<noteq> ?k" "quotas (gs_runtime s) k = Some x" for k x
    proof -
      obtain rid' n' q' i' a' o' where x: "x = (rid', n', q', i', a', o')" by (cases x) auto
      have q0: "quota_ok s k x" by (rule rounds_okD [OF r that(2)])
      have "(rid', e') \<noteq> (eg_request_id g, ?e)" if "o' = Some e'" for e'
        using outstanding_unique [OF ok, of k rid' n' q' i' a' e' g] g(1) that x
          \<open>quotas (gs_runtime s) k = Some x\<close> \<open>k \<noteq> ?k\<close> by (auto simp: grant_id_def)
      with q0 x le [of k] eff(1) g(2,4) show ?thesis by (auto simp: quota_ok_def)
    qed
    show ?thesis
      unfolding rounds_ok_def
    proof (intro allI impI)
      fix k x assume x: "quotas (gs_runtime ?s) k = Some x"
      show "quota_ok ?s k x"
      proof (cases "k = ?k")
        case False
        then have "quotas (gs_runtime s) k = Some x" using x new by auto
        with False show ?thesis by (rule other)
      next
        case True
        show ?thesis
        proof (cases "int_or0 (sr_grant_tokens m) = 0")
          case zero: True
          have gs: "g \<in> set (gs_sent s)" using g(1) d by (auto simp: drafter_ok_def)
          have "g \<in> live s ?k" using qk gs rid by (auto simp: live_def quota_ok_def grant_id_def)
          moreover have "g \<notin> live ?s ?k"
            using zero g(2,4) \<open>b\<close> by (auto simp: live_def grant_id_def)
          ultimately have "live ?s ?k \<subset> live s ?k" using sub by blast
          then have "card (live ?s ?k) < card (live s ?k)" by (rule psubset_card_mono [rotated]) simp
          then show ?thesis using zero new x True qk by (auto simp: quota_ok_def)
        next
          case one: False
          then show ?thesis using new x True qk le [of ?k] by (auto simp: quota_ok_def)
        qed
      qed
    qed
  qed
  with wi dr show ?thesis by (simp add: system_ok_def)
qed

text \<open>The Drafter's steps: each takes the held grant of one request out of the table.\<close>

lemma ack_expired_take:
  "ack_expired now rid n tb = Some (g, m, tb') \<Longrightarrow>
     dget (gt_active tb) rid = Some g \<and> tb' = tb\<lparr>gt_active := ddel rid (gt_active tb)\<rparr>
     \<and> (\<exists>st. m = grant_ack g 0 0 st)"
  by (auto simp: ack_expired_def table_pop_expired_def split: option.splits if_splits prod.splits)

lemma consume_take:
  "table_consume_one rid n e tb = (True, tb') \<Longrightarrow> tb' = tb\<lparr>gt_active := ddel rid (gt_active tb)\<rparr>"
  by (auto simp: table_consume_one_def split: option.splits if_splits)

lemma active_held:
  "table_active rid (Some n) now tb = Some g \<Longrightarrow> dget (gt_active tb) rid = Some g \<and> eg_spec_cnt g = n"
  by (auto simp: table_active_def split: option.splits if_splits)

lemma consume_held:
  "dget (gt_active tb) rid = Some g \<Longrightarrow> eg_spec_cnt g = n \<Longrightarrow>
     table_consume_one rid n (eg_grant_epoch g) tb = (True, tb\<lparr>gt_active := ddel rid (gt_active tb)\<rparr>)"
  by (simp add: table_consume_one_def)

lemma mark_upd_active [simp]: "table_mark (tb\<lparr>gt_active := x\<rparr>) = table_mark tb"
  by (simp add: table_mark_def fun_eq_iff)

lemma table_ok_del: "table_ok tb \<Longrightarrow> table_ok (tb\<lparr>gt_active := ddel rid (gt_active tb)\<rparr>)"
  by (auto simp: table_ok_def split: if_splits)

lemma drafter_take:
  assumes d: "drafter_ok s" and g: "dget (gt_active (gs_table s)) rid = Some g"
    and tb: "tb' = (gs_table s)\<lparr>gt_active := ddel rid (gt_active (gs_table s))\<rparr>"
  shows "eg_grant_state g = ''DRAFT_CATCHUP'' \<Longrightarrow>
      drafter_ok (s\<lparr>gs_table := tb', gs_used := gs_used s @ [g], gs_acks := ms\<rparr>)"
    and "drafter_ok (s\<lparr>gs_table := tb', gs_zero := gs_zero s @ [g], gs_acks := ms\<rparr>)"
proof -
  have t: "table_ok (gs_table s)" using d by (simp add: drafter_ok_def)
  have new: "g \<in> set (gs_sent s)" "g \<notin> set (gs_used s) \<union> set (gs_zero s)"
      "eg_request_id g = rid" "grant_pos g = table_mark (gs_table s) rid"
    using d t g unfolding drafter_ok_def table_ok_def by blast+
  have rest: "h \<noteq> g" if "r \<noteq> rid" "dget (gt_active (gs_table s)) r = Some h" for r h
    using that t new(3) by (auto simp: table_ok_def)
  show "eg_grant_state g = ''DRAFT_CATCHUP'' \<Longrightarrow>
      drafter_ok (s\<lparr>gs_table := tb', gs_used := gs_used s @ [g], gs_acks := ms\<rparr>)"
      "drafter_ok (s\<lparr>gs_table := tb', gs_zero := gs_zero s @ [g], gs_acks := ms\<rparr>)"
    using d new rest table_ok_del [OF t, of rid]
    by (auto simp: drafter_ok_def tb split: if_splits)
qed

lemma ack_fields:
  "sr_request_id (grant_ack g k ms st) = eg_request_id g"
  "sr_spec_cnt (grant_ack g k ms st) = Some (eg_spec_cnt g)"
  "sr_grant_epoch (grant_ack g k ms st) = Some (eg_grant_epoch g)"
  "sr_grant_tokens (grant_ack g k ms st) = Some k"
  by (simp_all add: grant_ack_def request_new_def)

lemma wire_ok_ack:
  assumes w: "wire_ok s" and "gs_sent s' = gs_sent s" "gs_base s' = gs_base s" "gs_void s' = gs_void s"
    and "gs_runtime s' = gs_runtime s" and acks: "gs_acks s' = gs_acks s @ [m]"
    and used: "set (gs_used s) \<subseteq> set (gs_used s')" and zero: "set (gs_zero s) \<subseteq> set (gs_zero s')"
    and g: "g \<in> set (gs_used s') \<union> set (gs_zero s')"
      "sr_request_id m = eg_request_id g" "sr_spec_cnt m = Some (eg_spec_cnt g)"
      "sr_grant_epoch m = Some (eg_grant_epoch g)"
      "int_or0 (sr_grant_tokens m) = 0 \<Longrightarrow> g \<in> set (gs_zero s')"
  shows "wire_ok s'"
proof -
  have "\<exists>g \<in> set (gs_used s') \<union> set (gs_zero s').
      sr_request_id m' = eg_request_id g \<and> sr_spec_cnt m' = Some (eg_spec_cnt g)
      \<and> sr_grant_epoch m' = Some (eg_grant_epoch g)
      \<and> (int_or0 (sr_grant_tokens m') = 0 \<longrightarrow> g \<in> set (gs_zero s'))" if m': "m' \<in> set (gs_acks s')" for m'
  proof (cases "m' \<in> set (gs_acks s)")
    case True
    then show ?thesis using w used zero unfolding wire_ok_def by blast
  next
    case False
    then have "m' = m" using m' acks by simp
    then show ?thesis using g by blast
  qed
  moreover have "gs_void s \<subseteq> grant_id ` set (gs_zero s')" using w zero
    unfolding wire_ok_def by (meson image_mono subset_trans)
  ultimately show ?thesis using w unfolding wire_ok_def assms(2-5) by blast
qed

text \<open>The system after the Drafter has taken the grants \<open>us\<close> and \<open>zs\<close> and acknowledged them.\<close>

definition drafted ::
    "grant_table \<Rightarrow> execution_grant list \<Rightarrow> execution_grant list \<Rightarrow> unit spectre_request list
      \<Rightarrow> grant_system \<Rightarrow> grant_system" where
  "drafted tb us zs ms s = s\<lparr>gs_table := tb, gs_used := gs_used s @ us, gs_zero := gs_zero s @ zs,
     gs_acks := gs_acks s @ ms\<rparr>"

lemma drafted_simps [simp]:
  "drafted (gs_table s) [] [] [] s = s" "gs_table (drafted tb us zs ms s) = tb"
  "drafted tb' us' zs' ms' (drafted tb us zs ms s) = drafted tb' (us @ us') (zs @ zs') (ms @ ms') s"
  by (simp_all add: drafted_def)

lemma step_used:
  assumes ok: "system_ok s" and g: "dget (gt_active (gs_table s)) rid = Some g"
    and st: "eg_grant_state g = ''DRAFT_CATCHUP''"
  shows "system_ok (drafted ((gs_table s)\<lparr>gt_active := ddel rid (gt_active (gs_table s))\<rparr>) [g] []
      [grant_ack g 1 ms None] s)" (is "system_ok (drafted ?tb _ _ ?ms _)")
proof -
  let ?s = "s\<lparr>gs_table := ?tb, gs_used := gs_used s @ [g], gs_acks := gs_acks s @ ?ms\<rparr>"
  have "drafter_ok ?s" using ok g st by (intro drafter_take(1)) (auto simp: system_ok_def)
  moreover have "rounds_ok ?s" by (rule rounds_ok_mono [of s]) (use ok in \<open>simp_all add: system_ok_def\<close>)
  moreover have "wire_ok ?s"
    by (rule wire_ok_ack [where s = s and g = g and m = "grant_ack g 1 ms None"])
       (use ok in \<open>simp_all add: system_ok_def ack_fields subset_insertI\<close>)
  ultimately show ?thesis by (simp add: system_ok_def drafted_def)
qed

lemma step_zero:
  assumes ok: "system_ok s" and g: "dget (gt_active (gs_table s)) rid = Some g"
  shows "system_ok (drafted ((gs_table s)\<lparr>gt_active := ddel rid (gt_active (gs_table s))\<rparr>) [] [g]
      [grant_ack g 0 0 st] s)" (is "system_ok (drafted ?tb _ _ ?ms _)")
proof -
  let ?s = "s\<lparr>gs_table := ?tb, gs_zero := gs_zero s @ [g], gs_acks := gs_acks s @ ?ms\<rparr>"
  have "drafter_ok ?s" using ok g by (intro drafter_take(2)) (auto simp: system_ok_def)
  moreover have "rounds_ok ?s" by (rule rounds_ok_mono [of s]) (use ok in \<open>simp_all add: system_ok_def\<close>)
  moreover have "wire_ok ?s"
    by (rule wire_ok_ack [where s = s and g = g and m = "grant_ack g 0 0 st"])
       (use ok in \<open>simp_all add: system_ok_def ack_fields subset_insertI\<close>)
  ultimately show ?thesis by (simp add: system_ok_def drafted_def)
qed

text \<open>One entry of the screening loop: passed over, acknowledged with zero, or let through.\<close>

lemma screen_Cons:
  assumes "screen_waiting ((now, later, rid, n) # ws) tb = (gr, zs, tb')"
  obtains "screen_waiting ws tb = (gr, zs, tb')"
  | g st zs' where "dget (gt_active tb) rid = Some g"
      "screen_waiting ws (tb\<lparr>gt_active := ddel rid (gt_active tb)\<rparr>) = (gr, zs', tb')"
      "zs = (g, grant_ack g 0 0 st) # zs'"
  | g gr' where "dget (gt_active tb) rid = Some g" "eg_grant_state g = ''DRAFT_CATCHUP''"
      "screen_waiting ws tb = (gr', zs, tb')" "gr = (rid, n) # gr'"
proof (cases "table_active rid (Some n) now tb")
  case None
  show thesis
  proof (cases "ack_expired later rid n tb :: (execution_grant \<times> 'a spectre_request \<times> grant_table) option")
    case None': None
    with assms None that(1) show ?thesis by simp
  next
    case (Some x)
    obtain g m tb1 where x: "x = (g, m, tb1)" by (cases x)
    from ack_expired_take [OF Some [unfolded x]] obtain st where "dget (gt_active tb) rid = Some g"
      "tb1 = tb\<lparr>gt_active := ddel rid (gt_active tb)\<rparr>" "m = grant_ack g 0 0 st" by blast
    with assms None Some x that(2) [of g _ st] show ?thesis by (auto split: prod.splits)
  qed
next
  case (Some h)
  note held = active_held [OF Some]
  note con = consume_held [OF conjunct1 [OF held] conjunct2 [OF held]]
  show thesis
  proof (cases "eg_grant_state h = ''DRAFT_CATCHUP''")
    case True
    with assms Some held that(3) show ?thesis by (auto split: prod.splits)
  next
    case False
    with assms Some held con that(2) show ?thesis by (auto split: prod.splits)
  qed
qed

text \<open>Screening only removes grants, and what it lets through holds a wait-phase grant.\<close>

lemma screen_shrinks:
  "screen_waiting ws tb = (gr, zs, tb') \<Longrightarrow> dget (gt_active tb') k = Some g \<Longrightarrow> dget (gt_active tb) k = Some g"
proof (induction ws arbitrary: tb gr zs)
  case (Cons w ws)
  obtain now later rid n where w: "w = (now, later, rid, n)" by (cases w)
  from Cons.prems(1) [unfolded w] show ?case
    by (cases rule: screen_Cons) (use Cons.IH [OF _ Cons.prems(2)] in \<open>fastforce split: if_splits\<close>)+
qed simp

lemma screen_catchup:
  "screen_waiting ws tb = (gr, zs, tb') \<Longrightarrow> (k, i) \<in> set gr \<Longrightarrow>
     \<exists>g. dget (gt_active tb) k = Some g \<and> eg_grant_state g = ''DRAFT_CATCHUP''"
proof (induction ws arbitrary: tb gr zs)
  case (Cons w ws)
  obtain now later rid n where w: "w = (now, later, rid, n)" by (cases w)
  from Cons.prems(1) [unfolded w] show ?case
  proof (cases rule: screen_Cons)
    case 1
    with Cons.IH Cons.prems(2) show ?thesis by blast
  next
    case (2 g st zs')
    from Cons.IH [OF 2(2) Cons.prems(2)] show ?thesis by (auto split: if_splits)
  next
    case (3 g gr')
    with Cons.IH [OF 3(3)] Cons.prems(2) show ?thesis by auto
  qed
qed simp

lemma screen_ok:
  "screen_waiting ws (gs_table s) = (gr, zs, tb') \<Longrightarrow> system_ok s \<Longrightarrow>
     system_ok (drafted tb' [] (map fst zs) (map snd zs) s)"
proof (induction ws arbitrary: s gr zs)
  case (Cons w ws)
  obtain now later rid n where w: "w = (now, later, rid, n)" by (cases w)
  from Cons.prems(1) [unfolded w] show ?case
  proof (cases rule: screen_Cons)
    case 1
    with Cons show ?thesis by blast
  next
    case (2 g st zs')
    let ?s = "drafted ((gs_table s)\<lparr>gt_active := ddel rid (gt_active (gs_table s))\<rparr>) [] [g] [grant_ack g 0 0 st] s"
    have "system_ok (drafted tb' [] (map fst zs') (map snd zs') ?s)"
      by (rule Cons.IH) (use 2(2) step_zero [OF Cons.prems(2) 2(1)] in simp_all)
    then show ?thesis using 2(3) by simp
  next
    case (3 g gr')
    with Cons show ?thesis by blast
  qed
qed auto

text \<open>The grants \<open>active_for\<close> collects: all of them, when there are as many as requests.\<close>

lemma length_dset: "length (dset k v d) \<le> Suc (length d)"
  by (induction d) auto

lemma active_for_length: "length (table_active_for ks now tb acc) \<le> length acc + length ks"
proof (induction ks now tb acc rule: table_active_for.induct)
  case (2 rid n ks now tb acc)
  then show ?case using length_dset [of rid _ acc]
    by (cases "table_active rid (Some n) now tb") (auto intro: order_trans)
qed simp

lemma active_for_other: "r \<notin> fst ` set ks \<Longrightarrow> dget (table_active_for ks now tb acc) r = dget acc r"
  by (induction ks now tb acc rule: table_active_for.induct) (auto split: option.splits)

lemma active_for_all:
  assumes "length (table_active_for ks now tb acc) = length acc + length ks" and "distinct (map fst ks)"
    and "(rid, n) \<in> set ks"
  shows "\<exists>g. dget (table_active_for ks now tb acc) rid = Some g \<and> table_active rid (Some n) now tb = Some g"
  using assms
proof (induction ks now tb acc rule: table_active_for.induct)
  case (2 k i ks now tb acc)
  show ?case
  proof (cases "table_active k (Some i) now tb")
    case None
    with 2(2) active_for_length [of ks now tb acc] show ?thesis by simp
  next
    case (Some g)
    have len: "length (table_active_for ks now tb (dset k g acc)) = length (dset k g acc) + length ks"
      using 2(2) Some active_for_length [of ks now tb "dset k g acc"] length_dset [of k g acc] by simp
    show ?thesis
    proof (cases "(rid, n) \<in> set ks")
      case True
      with 2(1) [of] len Some 2(3) show ?thesis by simp
    next
      case False
      then have "rid = k" "n = i" using 2(4) by auto
      moreover have "k \<notin> fst ` set ks" using 2(3) by simp
      ultimately show ?thesis using Some active_for_other [of k ks now tb "dset k g acc"] by simp
    qed
  qed
qed simp

lemma consume_ok:
  assumes "\<forall>(rid, n) \<in> set ks. \<exists>g. dget grants rid = Some g \<and> dget (gt_active (gs_table s)) rid = Some g
      \<and> eg_spec_cnt g = n \<and> eg_grant_state g = ''DRAFT_CATCHUP''"
    and "distinct (map fst ks)" and "system_ok s"
  shows "\<exists>ms tb'. consume_admitted elapsed grants ks (gs_table s) = (ms, Inr (), tb')
    \<and> system_ok (drafted tb' (map (\<lambda>(rid, n). the (dget grants rid)) ks) [] ms s)"
  using assms
proof (induction ks arbitrary: s)
  case (Cons k ks)
  obtain rid n where k: "k = (rid, n)" by (cases k)
  obtain g where g: "dget grants rid = Some g" "dget (gt_active (gs_table s)) rid = Some g"
      "eg_spec_cnt g = n" "eg_grant_state g = ''DRAFT_CATCHUP''"
    using Cons.prems(1) by (auto simp: k)
  let ?del = "(gs_table s)\<lparr>gt_active := ddel rid (gt_active (gs_table s))\<rparr>"
  let ?s = "drafted ?del [g] [] [grant_ack g 1 elapsed None] s"
  have ok: "system_ok ?s" by (rule step_used [OF Cons.prems(3) g(2,4)])
  have "\<forall>(r, i) \<in> set ks. \<exists>h. dget grants r = Some h \<and> dget (gt_active (gs_table ?s)) r = Some h
      \<and> eg_spec_cnt h = i \<and> eg_grant_state h = ''DRAFT_CATCHUP''"
  proof (intro ballI, clarify)
    fix r i assume ri: "(r, i) \<in> set ks"
    then have "r \<noteq> rid" using Cons.prems(2) by (force simp: k)
    with Cons.prems(1) ri show "\<exists>h. dget grants r = Some h \<and> dget (gt_active (gs_table ?s)) r = Some h
      \<and> eg_spec_cnt h = i \<and> eg_grant_state h = ''DRAFT_CATCHUP''" by fastforce
  qed
  from Cons.IH [OF this _ ok] Cons.prems(2) obtain ms tb' where
      "consume_admitted elapsed grants ks ?del = (ms, Inr (), tb')"
      "system_ok (drafted tb' (map (\<lambda>(rid, n). the (dget grants rid)) ks) [] ms ?s)" by auto
  then show ?case using g(1) consume_held [OF g(2,3)] by (auto simp: k)
qed simp

lemma prefill_ok:
  fixes r :: "unit prefill_result"
  assumes ok: "system_ok s" and p: "picks admit"
    and r: "prefill_draft_reqs ws admit now ms (gs_table s) = r"
  shows "pf_outcome r = Inr () \<and> system_ok (drafted (pf_table r) (pf_launched r) (pf_zero r) (pf_acks r) s)"
proof -
  obtain cs zs tb1 where sc: "screen_waiting ws (gs_table s) = (cs, zs :: (execution_grant \<times> unit spectre_request) list, tb1)"
    by (cases "screen_waiting ws (gs_table s) :: _ \<times> (execution_grant \<times> unit spectre_request) list \<times> _") auto
  let ?a = "admit cs" and ?s = "drafted tb1 [] (map fst zs) (map snd zs) s"
  let ?grants = "table_active_for ?a now tb1 []"
  have ok1: "system_ok ?s" by (rule screen_ok [OF sc ok])
  show ?thesis
  proof (cases "cs = [] \<or> length ?grants \<noteq> length ?a \<or> ?a = []")
    case True
    then have "r = \<lparr>pf_launched = [], pf_zero = map fst zs, pf_acks = map snd zs, pf_outcome = Inr (), pf_table = tb1\<rparr>"
      using r sc by (auto simp: prefill_draft_reqs_def Let_def)
    with ok1 show ?thesis by simp
  next
    case False
    then have len: "length ?grants = length ?a" by blast
    have a: "set ?a \<subseteq> set cs" "distinct (map fst ?a)" using p by (auto simp: picks_def)
    have "\<exists>g. dget ?grants rid = Some g \<and> dget (gt_active (gs_table ?s)) rid = Some g
        \<and> eg_spec_cnt g = n \<and> eg_grant_state g = ''DRAFT_CATCHUP''" if k: "(rid, n) \<in> set ?a" for rid n
    proof -
      from active_for_all [OF _ a(2) k, of now tb1 "[]"] len obtain g where
        g: "dget ?grants rid = Some g" "table_active rid (Some n) now tb1 = Some g" by auto
      note held = active_held [OF g(2)]
      have "dget (gt_active (gs_table s)) rid = Some g" using screen_shrinks [OF sc] held by blast
      with screen_catchup [OF sc, of rid n] a(1) k have "eg_grant_state g = ''DRAFT_CATCHUP''" by auto
      with g(1) held show ?thesis by simp
    qed
    then have "\<forall>(rid, n) \<in> set ?a. \<exists>g. dget ?grants rid = Some g \<and> dget (gt_active (gs_table ?s)) rid = Some g
        \<and> eg_spec_cnt g = n \<and> eg_grant_state g = ''DRAFT_CATCHUP''" by auto
    from consume_ok [OF this a(2) ok1, of ms] obtain acks tb2 where
      c: "consume_admitted ms ?grants ?a tb1 = (acks, Inr (), tb2)"
      "system_ok (drafted tb2 (map (\<lambda>(rid, n). the (dget ?grants rid)) ?a) [] acks ?s)" by auto
    have "r = \<lparr>pf_launched = map (\<lambda>(rid, n). the (dget ?grants rid)) ?a, pf_zero = map fst zs,
        pf_acks = map snd zs @ acks, pf_outcome = Inr (), pf_table = tb2\<rparr>"
      using r sc False c(1) by (simp add: prefill_draft_reqs_def Let_def)
    with c(2) show ?thesis by simp
  qed
qed

lemma step_prefill:
  fixes r :: "unit prefill_result"
  assumes "system_ok s" and "picks admit" and "prefill_draft_reqs ws admit now ms (gs_table s) = r"
  shows "system_ok (s\<lparr>gs_table := pf_table r, gs_used := gs_used s @ pf_launched r,
       gs_zero := gs_zero s @ pf_zero r, gs_acks := gs_acks s @ pf_acks r\<rparr>)"
  using prefill_ok [OF assms] by (simp add: drafted_def)

lemma message_roundtrip: "grant_of_message (grant_message g) = grant_new g"
  by (cases g) (simp add: grant_of_message_def grant_message_def request_new_def)

lemma receive_grant_message:
  "receive_grant (grant_message g) tb \<in> {tb, snd (table_apply g tb)}"
  using grant_new_Inr [of g] by (auto simp: receive_grant_def message_roundtrip split: sum.splits)

lemma drafter_apply:
  assumes d: "drafter_ok s" and g: "g \<in> set (gs_sent s)"
  shows "drafter_ok (s\<lparr>gs_table := snd (table_apply g (gs_table s))\<rparr>)"
proof -
  have t: "table_ok (snd (table_apply g (gs_table s)))"
    using d by (simp add: drafter_ok_def table_ok_apply)
  have mark: "table_mark (gs_table s) r \<le> table_mark (snd (table_apply g (gs_table s))) r" for r
    by (auto simp: table_mark_apply)
  have fresh: "g \<notin> set (gs_used s) \<union> set (gs_zero s)"
    if "table_mark (gs_table s) (eg_request_id g) < grant_pos g"
    using that d by (auto simp: drafter_ok_def not_le [symmetric])
  show ?thesis
    using d g t mark fresh unfolding drafter_ok_def
    by (auto simp: table_apply_held split: if_splits intro: order_trans)
qed

lemma drafter_pause:
  assumes "drafter_ok s"
  shows "drafter_ok (s\<lparr>gs_table := snd (table_pause rid n e (gs_table s))\<rparr>)"
proof -
  have "dget (gt_active (snd (table_pause rid n e (gs_table s)))) r = Some h \<Longrightarrow>
      dget (gt_active (gs_table s)) r = Some h" for r h
    using table_remove_held(1) [of rid n e "gs_table s" r] by auto
  with assms table_ok_other(1) [of "gs_table s" rid n e] show ?thesis
    unfolding drafter_ok_def by (simp add: table_mark_other) metis
qed

lemma system_step_ok: "system_ok s \<Longrightarrow> system_step s s' \<Longrightarrow> system_ok s'"
proof (erule system_step.cases)
  fix f now perf dl key s0 r rt'
  assume ok: "system_ok s" and eq: "s = s0" "s' = s0\<lparr>gs_runtime := rt',
      gs_sent := gs_sent s0 @ (case r of Inr (Some g) \<Rightarrow> [g] | _ \<Rightarrow> [])\<rparr>"
    and f: "f \<in> {initial_one now perf, overlap_one now perf, waiting_one now perf dl}"
      "f key (gs_runtime s0) = (r, rt')"
  from f have "issue_effect key (gs_runtime s0) r rt'"
    by (auto dest: initial_one_effect overlap_one_effect waiting_one_effect)
  with ok eq step_issue show "system_ok s'" by simp
next
  fix s0 ms
  assume ok: "system_ok s"
    and eq: "s = s0" "s' = s0\<lparr>gs_runtime := record_target_forward ms (gs_runtime s0)\<rparr>"
  have "quotas (record_target_forward ms rt) = quotas rt"
      "epoch_of (record_target_forward ms rt) = epoch_of rt" for rt
    by (auto simp: record_target_forward_def Let_def quotas_def epoch_of_def fun_eq_iff
        split: list.splits)
  with ok show "system_ok s'"
    unfolding eq system_ok_def
    by (auto intro: rounds_ok_mono wire_ok_mono simp: drafter_ok_def)
next
  fix keys s0 rt' and msgs :: "unit spectre_request list"
  assume ok: "system_ok s" and eq: "s = s0" "s' = s0\<lparr>gs_runtime := rt'\<rparr>"
    and p: "pause_messages keys (gs_runtime s0) = (msgs, rt')"
  note eff = pause_messages_effect [OF p]
  have live: "live (s0\<lparr>gs_runtime := rt'\<rparr>) k = live s0 k" for k by (rule live_cong) simp_all
  have "quota_ok (s0\<lparr>gs_runtime := rt'\<rparr>) k x" if "quotas rt' k = Some x" for k x
  proof -
    have alt: "quotas rt' k = quotas (gs_runtime s0) k
        \<or> quotas rt' k = map_option clear_outstanding (quotas (gs_runtime s0) k)"
      using eff by blast
    show ?thesis
    proof (cases "quotas (gs_runtime s0) k")
      case None
      with alt that show ?thesis by simp
    next
      case (Some y)
      have "quota_ok s0 k y" using ok eq Some by (auto simp: system_ok_def intro: rounds_okD)
      moreover have "x = y \<or> x = clear_outstanding y" using alt that Some by auto
      ultimately show ?thesis
        using eff [THEN conjunct1] by (cases y) (auto simp: quota_ok_def clear_outstanding_def live)
    qed
  qed
  then have "rounds_ok s'" unfolding eq rounds_ok_def by simp
  with ok eff show "system_ok s'"
    unfolding eq system_ok_def by (auto intro: wire_ok_mono simp: drafter_ok_def)
next
  fix g s0
  assume ok: "system_ok s" and g: "g \<in> set (gs_sent s0)"
    and eq: "s = s0" "s' = s0\<lparr>gs_table :=
      receive_grant (grant_message g :: unit spectre_request) (gs_table s0)\<rparr>"
  have "receive_grant (grant_message g :: unit spectre_request) (gs_table s0)
      \<in> {gs_table s0, snd (table_apply g (gs_table s0))}"
    by (rule receive_grant_message)
  then have "drafter_ok s'"
    using ok drafter_apply [OF _ g] unfolding eq system_ok_def by auto
  with ok show "system_ok s'"
    unfolding eq system_ok_def by (auto intro: rounds_ok_mono wire_ok_mono)
next
  fix s0 m
  assume ok: "system_ok s"
    and eq: "s = s0" "s' = s0\<lparr>gs_table := receive_pause m (gs_table s0)\<rparr>"
  have "drafter_ok s'"
    using ok drafter_pause unfolding eq system_ok_def receive_pause_def by blast
  with ok show "system_ok s'"
    unfolding eq system_ok_def by (auto intro: rounds_ok_mono wire_ok_mono)
next
  fix m s0 perf b rt'
  assume ok: "system_ok s" and m: "m \<in> set (gs_acks s0)"
    and ack: "acknowledge perf m (gs_runtime s0) = (b, rt')"
    and eq: "s = s0" "s' = s0\<lparr>gs_runtime := rt',
       gs_void := gs_void s0 \<union> (if b \<and> int_or0 (sr_grant_tokens m) = 0
         then {(sr_request_id m, int_or0 (sr_grant_epoch m))} else {})\<rparr>"
  show "system_ok s'" unfolding eq(2) by (rule step_ack [OF ok [unfolded eq(1)] m ack])
next
  fix admit ws now ms s0 and r :: "unit prefill_result"
  assume "system_ok s" "s = s0" "picks admit" "prefill_draft_reqs ws admit now ms (gs_table s0) = r"
    "s' = s0\<lparr>gs_table := pf_table r, gs_used := gs_used s0 @ pf_launched r,
       gs_zero := gs_zero s0 @ pf_zero r, gs_acks := gs_acks s0 @ pf_acks r\<rparr>"
  with step_prefill [of s0 admit ws now ms r] show "system_ok s'" by simp
next
  fix rid n q shape bs ctx slack s0 rt'
  assume "system_ok s" "s = s0" "register_round rid n q shape bs ctx slack (gs_runtime s0) = Inr rt'"
    "s' = s0\<lparr>gs_runtime := rt', gs_base := (gs_base s0)((rid, n) := epoch_of (gs_runtime s0) rid)\<rparr>"
  with step_register [of s0 rid n q shape bs ctx slack rt'] show "system_ok s'" by simp
qed

interpretation grant_protocol: invariant_system system_init system_step system_ok
  by unfold_locales (auto intro: system_init_ok system_step_ok)


definition ex_calibration :: grant_controller where
  "ex_calibration = ex_controller\<lparr>gc_calibration_tpcs := 4\<rparr>"

definition ex_sys0 :: grant_system where
  "ex_sys0 = \<lparr>gs_runtime = runtime_new ex_calibration, gs_table = table_new, gs_sent = [],
     gs_acks = [], gs_used = [], gs_zero = [], gs_void = {}, gs_base = (\<lambda>_. 0)\<rparr>"

definition ex_grant :: execution_grant where
  "ex_grant = \<lparr>eg_request_id = ''r'', eg_spec_cnt = 1, eg_grant_epoch = 1, eg_grant_tokens = 1,
     eg_tpc_low = 0, eg_tpc_high = 4, eg_deadline_us = Some 1000, eg_placement_id = 0,
     eg_grant_state = ''DRAFT_CATCHUP''\<rparr>"

lemma ex_issue:
  "\<exists>rt'. waiting_one 10 0 1000 (''r'', 1)
     ((runtime_new ex_calibration)\<lparr>gr_rounds := [((''r'', 1), round_new ''r'' 1 2 ''s'' 1 ''2k'' 0)]\<rparr>)
       = (Inr (Some ex_grant), rt')
     \<and> (\<exists>st. dget (gr_rounds rt') (''r'', 1) = Some st \<and> rg_desired_q st = 2)"
  by (simp add: waiting_one_def issue_def runtime_new_def round_new_def ex_calibration_def
      ex_controller_def decide_def allows_draft_def effective_deadline_def next_epoch_def
      put_round_def dget_or_def grant_new_def Let_def ex_grant_def note_issue_def)

lemma picks_take: "picks (take 1)"
proof -
  have "set (take 1 ks) \<subseteq> set ks \<and> distinct (map fst (take 1 ks))" for ks :: "(string \<times> int) list"
    by (cases ks) auto
  then show ?thesis by (simp add: picks_def)
qed


end
