(* ===== verification/DraftState.thy ===== *)
theory DraftState
  imports KVPool GrantProtocol
begin

text \<open>
  The state of the Drafter: the request objects with their token lists, the state manager
  (\<open>drafter/spectre_state_manager.py\<close>), the queues of the scheduler mixin and the GPU slot
  memory, with the elementary operations on them.  Request objects live in a store and the
  queues hold their identities, as \<open>req in list\<close> compares identity.  The model is the scheduler
  of rank 0 with a connected communicator; \<open>time.time()\<close> is the argument \<open>now\<close>.
\<close>

section \<open>State\<close>

datatype draft_location = WAITING_QUEUE | DRAFT_WAITING | DRAFT_BATCH | PAUSED

record draft_req = kv_req +
  dq_origin_input_ids :: "int list"
  dq_output_ids :: "int list"
  dq_spec_cnt :: "int option"
  dq_tokens_target :: "int option"
  dq_start_len :: int
  dq_paused :: bool
  dq_len_output_ids :: int
  dq_logprobs :: "real list"
  dq_target_send_time :: real
  dq_draft_recv_time :: real
  dq_max_new_tokens :: "int option"
  dq_finished_reason :: bool

record draft_state =
  ds_spec_cnt :: "int option"
  ds_req_object :: "nat option"
  ds_location :: draft_location
  ds_target_origin_input_ids :: "int list option"
  ds_last_prefix_length :: int
  ds_last_output_length :: int
  ds_last_updated_time :: real
  ds_created_time :: real
  ds_timeout_threshold :: real

record 'p drafter =
  dm_states :: "(string, draft_state) dict"
  dm_timeout_threshold :: real
  dm_reqs :: "draft_req heap"
  dm_next :: nat
  dm_mem :: kv_mem
  dm_page_size :: int
  dm_waiting :: "nat list"
  dm_batch :: "nat list"
  dm_paused :: "nat list"
  dm_pending_adds :: "nat list"
  dm_grants :: grant_table
  dm_grants_enabled :: bool
  dm_sent :: "'p spectre_request list"

section \<open>The state manager\<close>

definition sm_get_state :: "string \<Rightarrow> 'p drafter \<Rightarrow> draft_state option" where
  "sm_get_state rid d = dget (dm_states d) rid"

definition sm_set_state :: "string \<Rightarrow> draft_state \<Rightarrow> 'p drafter \<Rightarrow> 'p drafter" where
  "sm_set_state rid s d = d\<lparr>dm_states := dset rid s (dm_states d)\<rparr>"

definition sm_exists :: "string \<Rightarrow> 'p drafter \<Rightarrow> bool" where
  "sm_exists rid d \<longleftrightarrow> dget (dm_states d) rid \<noteq> None"

definition sm_delete :: "string \<Rightarrow> 'p drafter \<Rightarrow> bool \<times> 'p drafter" where
  "sm_delete rid d =
     (if sm_exists rid d then (True, d\<lparr>dm_states := ddel rid (dm_states d)\<rparr>) else (False, d))"

text \<open>A write to the attributes of the state object of a request.\<close>

definition upd_state :: "string \<Rightarrow> (draft_state \<Rightarrow> draft_state) \<Rightarrow> 'p drafter \<Rightarrow> 'p drafter" where
  "upd_state rid f d =
     (case dget (dm_states d) rid of None \<Rightarrow> d | Some s \<Rightarrow> sm_set_state rid (f s) d)"

definition sm_update_location :: "real \<Rightarrow> string \<Rightarrow> draft_location \<Rightarrow> 'p drafter \<Rightarrow> bool \<times> 'p drafter" where
  "sm_update_location now rid loc d =
     (sm_exists rid d, upd_state rid (\<lambda>s. s\<lparr>ds_location := loc, ds_last_updated_time := now\<rparr>) d)"

definition sm_update_spec_cnt :: "real \<Rightarrow> string \<Rightarrow> int \<Rightarrow> 'p drafter \<Rightarrow> bool \<times> 'p drafter" where
  "sm_update_spec_cnt now rid n d =
     (sm_exists rid d, upd_state rid (\<lambda>s. s\<lparr>ds_spec_cnt := Some n, ds_last_updated_time := now\<rparr>) d)"

definition sm_touch :: "real \<Rightarrow> string \<Rightarrow> 'p drafter \<Rightarrow> bool \<times> 'p drafter" where
  "sm_touch now rid d = (sm_exists rid d, upd_state rid (\<lambda>s. s\<lparr>ds_last_updated_time := now\<rparr>) d)"

definition sm_create_state ::
    "real \<Rightarrow> string \<Rightarrow> int \<Rightarrow> nat \<Rightarrow> draft_location \<Rightarrow> int \<Rightarrow> int \<Rightarrow> 'p drafter \<Rightarrow> 'p drafter" where
  "sm_create_state now rid n i loc pre out d =
     sm_set_state rid \<lparr>ds_spec_cnt = Some n, ds_req_object = Some i, ds_location = loc,
       ds_target_origin_input_ids = None, ds_last_prefix_length = pre, ds_last_output_length = out,
       ds_last_updated_time = now, ds_created_time = now,
       ds_timeout_threshold = dm_timeout_threshold d\<rparr> d"

text \<open>\<open>cleanup_stale_states\<close>: it only reports the idle requests.\<close>

definition sm_cleanup_stale_states :: "real \<Rightarrow> real option \<Rightarrow> 'p drafter \<Rightarrow> string list" where
  "sm_cleanup_stale_states now timeout d =
     (let t = (case timeout of None \<Rightarrow> dm_timeout_threshold d | Some t \<Rightarrow> t)
      in map fst (filter (\<lambda>(rid, s). t < now - ds_last_updated_time s) (dm_states d)))"

definition sm_get_all_rids :: "'p drafter \<Rightarrow> string list" where
  "sm_get_all_rids d = map fst (dm_states d)"

definition sm_size :: "'p drafter \<Rightarrow> nat" where
  "sm_size d = length (dm_states d)"

definition sm_clear :: "'p drafter \<Rightarrow> nat \<times> 'p drafter" where
  "sm_clear d = (length (dm_states d), d\<lparr>dm_states := []\<rparr>)"

section \<open>Requests and queues\<close>

text \<open>\<open>Req.finished\<close>: a draft request finishes only when it asked for no new token.\<close>

definition finished :: "draft_req \<Rightarrow> bool" where
  "finished r \<longleftrightarrow> (if kr_is_draft r then dq_max_new_tokens r = Some 0 \<and> dq_finished_reason r
                   else dq_finished_reason r)"

definition draft_fill_ids :: "draft_req \<Rightarrow> int list" where
  "draft_fill_ids r = dq_origin_input_ids r @ dq_output_ids r"

definition upd_req :: "nat \<Rightarrow> (draft_req \<Rightarrow> draft_req) \<Rightarrow> 'p drafter \<Rightarrow> 'p drafter" where
  "upd_req i f d = d\<lparr>dm_reqs := dset i (f (obj (dm_reqs d) i)) (dm_reqs d)\<rparr>"

definition add_once :: "nat \<Rightarrow> nat list \<Rightarrow> nat list" where
  "add_once i xs = (if i \<in> set xs then xs else xs @ [i])"

text \<open>\<open>draft_batch.filter_batch(chunked_req_to_exclude=[req])\<close>, when the request is in the batch.\<close>

definition exclude_from_batch :: "nat \<Rightarrow> 'p drafter \<Rightarrow> 'p drafter" where
  "exclude_from_batch i d =
     (if i \<in> set (dm_batch d)
      then d\<lparr>dm_batch := filter (\<lambda>j. \<not> finished (obj (dm_reqs d) j) \<and> j \<noteq> i
               \<and> \<not> dq_paused (obj (dm_reqs d) j)) (dm_batch d)\<rparr>
      else d)"

definition update_tokens :: "int \<Rightarrow> int list \<Rightarrow> draft_req \<Rightarrow> draft_req" where
  "update_tokens fork_point delta r =
     (let t = fork_point - int (length (dq_origin_input_ids r));
          out = slice_to (dq_output_ids r) (max 0 t) @ delta
      in r\<lparr>dq_output_ids := out, kr_fill_ids := dq_origin_input_ids r @ out\<rparr>)"

definition update_req_state :: "'p spectre_request \<Rightarrow> draft_req \<Rightarrow> draft_req" where
  "update_req_state msg r =
     r\<lparr>dq_spec_cnt := sr_spec_cnt msg, dq_tokens_target := sr_num_draft_tokens msg,
       dq_start_len := int (length (dq_output_ids r)), dq_paused := False,
       dq_len_output_ids := int (length (dq_output_ids r))\<rparr>"

definition touch_state :: "real \<Rightarrow> string \<Rightarrow> 'p drafter \<Rightarrow> 'p drafter" where
  "touch_state now rid = upd_state rid (\<lambda>s. s\<lparr>ds_last_updated_time := now\<rparr>)"

definition set_location :: "string \<Rightarrow> draft_location \<Rightarrow> 'p drafter \<Rightarrow> 'p drafter" where
  "set_location rid loc = upd_state rid (\<lambda>s. s\<lparr>ds_location := loc\<rparr>)"

definition resume_draft_req :: "nat \<Rightarrow> string \<Rightarrow> 'p drafter \<Rightarrow> 'p drafter" where
  "resume_draft_req i rid d =
     (let d1 = upd_req i (\<lambda>r. r\<lparr>dq_paused := False\<rparr>) (d\<lparr>dm_paused := remove1 i (dm_paused d)\<rparr>)
      in case kr_req_pool_idx (obj (dm_reqs d) i) of
           None \<Rightarrow> (set_location rid DRAFT_WAITING d1)\<lparr>dm_waiting := add_once i (dm_waiting d)\<rparr>
         | Some _ \<Rightarrow> (set_location rid DRAFT_BATCH d1)\<lparr>dm_pending_adds := add_once i (dm_pending_adds d)\<rparr>)"

definition rebuild_req_in_draft_batch :: "nat \<Rightarrow> string \<Rightarrow> 'p drafter \<Rightarrow> 'p drafter" where
  "rebuild_req_in_draft_batch i rid d =
     (let d1 = exclude_from_batch i d
      in case kr_req_pool_idx (obj (dm_reqs d) i) of
           Some _ \<Rightarrow> (set_location rid DRAFT_BATCH (upd_req i (\<lambda>r. r\<lparr>dq_paused := False\<rparr>) d1))
             \<lparr>dm_pending_adds := add_once i (dm_pending_adds d)\<rparr>
         | None \<Rightarrow> (set_location rid DRAFT_WAITING d1)\<lparr>dm_waiting := add_once i (dm_waiting d)\<rparr>)"

definition resume_or_update :: "nat \<Rightarrow> string \<Rightarrow> bool \<Rightarrow> 'p drafter \<Rightarrow> 'p drafter" where
  "resume_or_update i rid tokens_changed d =
     (case dget (dm_states d) rid of
        None \<Rightarrow> d
      | Some s \<Rightarrow>
         if ds_location s = PAUSED then resume_draft_req i rid d
         else if ds_location s = DRAFT_BATCH \<and> tokens_changed then rebuild_req_in_draft_batch i rid d
         else d)"

definition pause_req :: "real \<Rightarrow> nat \<Rightarrow> string \<Rightarrow> 'p drafter \<Rightarrow> 'p drafter" where
  "pause_req now i rid d =
     (let d1 = upd_req i (\<lambda>r. r\<lparr>dq_paused := True\<rparr>) (exclude_from_batch i d)
      in upd_state rid (\<lambda>s. s\<lparr>ds_location := PAUSED, ds_last_updated_time := now\<rparr>)
           (d1\<lparr>dm_paused := add_once i (dm_paused d)\<rparr>))"

definition remove_draft_req :: "nat \<Rightarrow> 'p drafter \<Rightarrow> 'p drafter" where
  "remove_draft_req i d =
     (exclude_from_batch i d)\<lparr>dm_paused := remove1 i (dm_paused d), dm_waiting := remove1 i (dm_waiting d),
        dm_pending_adds := remove1 i (dm_pending_adds d)\<rparr>"

text \<open>\<open>release_all_kv_for_finished_req\<close> and \<open>release_all_kv_for_reprefill_req\<close>, whose bodies agree.\<close>

definition release_all_kv :: "nat \<Rightarrow> ('p drafter, unit) py" where
  "release_all_kv i d =
     (let r = obj (dm_reqs d) i in
      if kr_req_pool_idx r = None then (Inr (), d)
      else
       let r1 = r\<lparr>kr_fill_ids := take (kr_kv_committed_len r) (draft_fill_ids r)\<rparr>
       in case release_kv_cache True r1 (dm_mem d) of
            Inl e \<Rightarrow> (Inl e, upd_req i (\<lambda>_. r1) d)
          | Inr (r2, m) \<Rightarrow> (Inr (), (upd_req i (\<lambda>_. r2) d)\<lparr>dm_mem := m\<rparr>))"

definition compute_unstable_tokens :: "draft_req \<Rightarrow> int" where
  "compute_unstable_tokens r =
     (if kr_req_pool_idx r = None \<or> \<not> kr_is_draft r then 0
      else let kv = max 0 (int (length (draft_fill_ids r)) - 1) in max 0 (kv - get_prefix_len r))"

text \<open>One of the three loops of \<open>compute_total_unstable_tokens\<close>; the set of seen rids is threaded through.\<close>

fun unstable_loop :: "draft_req list \<Rightarrow> string list \<Rightarrow> int \<Rightarrow> int \<times> string list" where
  "unstable_loop [] seen acc = (acc, seen)"
| "unstable_loop (r # rs) seen acc =
     (if kr_rid r \<in> set seen then unstable_loop rs seen acc
      else unstable_loop rs (kr_rid r # seen) (acc + compute_unstable_tokens r))"

definition compute_total_unstable_tokens :: "draft_req list \<Rightarrow> draft_req list \<Rightarrow> draft_req list \<Rightarrow> int" where
  "compute_total_unstable_tokens paused running waiting =
     (case unstable_loop paused [] 0 of (a, seen) \<Rightarrow>
      case unstable_loop running seen a of (b, seen') \<Rightarrow>
      fst (unstable_loop waiting seen' b))"

end
