(* ===== verification/DraftScheduler.thy ===== *)
theory DraftScheduler
  imports DraftState
begin

text \<open>
  The Drafter's treatment of the Target's messages
  (\<open>drafter/spectre_draft_scheduler_mixin.py\<close>): deduplication, the control messages, the
  comparison of the Drafter's tokens with the Target's and the handlers of each case (identical,
  same length, Drafter ahead, Target ahead), the re-prefill, and the response.  The main results:
  after a message the Drafter's tokens extend the Target's, the tokens of its next response are
  exactly those that follow them, and the KV it keeps belongs to unchanged tokens.
\<close>

section \<open>Deduplication\<close>

definition is_control :: "spectre_action \<Rightarrow> bool" where
  "is_control a \<longleftrightarrow> a \<in> {FINISH, ABORT, GRANT, PAUSE}"

text \<open>A round counter comparison; \<open>None > x\<close> raises in Python.\<close>

definition newer :: "int option \<Rightarrow> int option \<Rightarrow> bool res" where
  "newer a b = (case (a, b) of (Some x, Some y) \<Rightarrow> Inr (y < x) | _ \<Rightarrow> Inl TypeError)"

text \<open>\<open>draft_req.input_ids = latest.input_ids\<close> for a message without its input.\<close>

definition inherit_input :: "'p spectre_request \<Rightarrow> 'p spectre_request \<Rightarrow> 'p spectre_request" where
  "inherit_input old msg =
     (if sr_input_ids msg = None
      then msg\<lparr>sr_input_ids := sr_input_ids old,
               sr_sampling_params := (case sr_sampling_params msg of None \<Rightarrow> sr_sampling_params old | p \<Rightarrow> p)\<rparr>
      else msg)"

definition dedup_one ::
    "'p spectre_request list \<times> (string, 'p spectre_request) dict \<Rightarrow> 'p spectre_request
      \<Rightarrow> ('p spectre_request list \<times> (string, 'p spectre_request) dict) res" where
  "dedup_one acc msg =
     (case acc of (ctl, latest) \<Rightarrow>
       if is_control (sr_action msg) then Inr (ctl @ [msg], latest)
       else case dget latest (sr_request_id msg) of
         None \<Rightarrow> Inr (ctl, dset (sr_request_id msg) msg latest)
       | Some old \<Rightarrow>
           rbind (newer (sr_spec_cnt msg) (sr_spec_cnt old)) (\<lambda>b.
             Inr (ctl, if b then dset (sr_request_id msg) (inherit_input old msg) latest else latest)))"

definition deduplicate_draft_requests ::
    "'p spectre_request list \<Rightarrow> ('p spectre_request list \<times> (string, 'p spectre_request) dict) res" where
  "deduplicate_draft_requests msgs = rfold dedup_one ([], []) msgs"

section \<open>Comparing the two token sequences\<close>

fun find_fork_point :: "int list \<Rightarrow> int list \<Rightarrow> bool \<times> nat" where
  "find_fork_point [] ys = (ys = [], 0)"
| "find_fork_point (x # xs) [] = (False, 0)"
| "find_fork_point (x # xs) (y # ys) =
     (if x \<noteq> y then (False, 0)
      else case find_fork_point xs ys of (b, n) \<Rightarrow> (b, Suc n))"

text \<open>The input, the whole sequence and the fork point of a message, for a request that has a state.\<close>

definition target_input_of :: "'p spectre_request \<Rightarrow> draft_state \<Rightarrow> int list" where
  "target_input_of msg s =
     (case sr_input_ids msg of Some xs \<Rightarrow> xs
      | None \<Rightarrow> (case ds_target_origin_input_ids s of Some xs \<Rightarrow> xs | None \<Rightarrow> []))"

abbreviation or_empty :: "'a list option \<Rightarrow> 'a list" where
  "or_empty x \<equiv> (case x of None \<Rightarrow> [] | Some xs \<Rightarrow> xs)"

definition target_fill_ids :: "int list \<Rightarrow> 'p spectre_request \<Rightarrow> int list" where
  "target_fill_ids input msg = input @ or_empty (sr_output_ids msg) @ or_empty (sr_draft_token_ids msg)"

definition fork_of :: "nat \<Rightarrow> int list \<Rightarrow> int list \<Rightarrow> bool \<times> nat" where
  "fork_of skip dfill tfill =
     (if 0 < skip \<and> skip \<le> length dfill \<and> skip \<le> length tfill
      then case find_fork_point (drop skip dfill) (drop skip tfill) of (b, n) \<Rightarrow> (b, skip + n)
      else find_fork_point dfill tfill)"

section \<open>The handlers\<close>

definition send_draft_response :: "nat \<Rightarrow> 'p drafter \<Rightarrow> 'p drafter" where
  "send_draft_response i d =
     (let r = obj (dm_reqs d) i;
          toks = slice_from (dq_output_ids r) (dq_start_len r);
          stop = dq_start_len r + int (length toks);
          logits = (if dq_logprobs r \<noteq> [] \<and> stop \<le> int (length (dq_logprobs r))
                    then slice (dq_logprobs r) (dq_start_len r) stop else []);
          resp = (request_new (kr_rid r) DRAFT DRAFT_RESPONSE)
            \<lparr>sr_spec_cnt := dq_spec_cnt r, sr_draft_token_ids := Some toks, sr_draft_logprobs := Some logits,
             sr_target_send_time := dq_target_send_time r, sr_draft_recv_time := dq_draft_recv_time r\<rparr>
      in upd_req i (\<lambda>r. r\<lparr>dq_start_len := int (length (dq_output_ids r))\<rparr>)
           (d\<lparr>dm_sent := dm_sent d @ [resp]\<rparr>))"

definition prepare_for_reprefill ::
    "nat \<Rightarrow> string \<Rightarrow> int list \<Rightarrow> 'p spectre_request \<Rightarrow> ('p drafter, unit) py" where
  "prepare_for_reprefill i rid tfill msg =
     py_bind (py_update (remove_draft_req i)) (\<lambda>_.
     py_bind (release_all_kv i) (\<lambda>_.
     py_update (\<lambda>d.
       (set_location rid DRAFT_WAITING
         (upd_req i (\<lambda>r. r\<lparr>kr_fill_ids := tfill, dq_origin_input_ids := tfill, dq_output_ids := [],
            kr_prefix_indices := [], kr_extend_input_len := length tfill, dq_spec_cnt := sr_spec_cnt msg,
            dq_tokens_target := sr_num_draft_tokens msg, dq_start_len := 0, dq_paused := False,
            dq_len_output_ids := 0, kr_kv_committed_len := 0, kr_kv_committed_freed := False,
            kr_kv_overallocated_freed := False, dq_logprobs := []\<rparr>) d))
       \<lparr>dm_waiting := dm_waiting d @ [i]\<rparr>)))"

definition handle_identical_tokens :: "real \<Rightarrow> nat \<Rightarrow> string \<Rightarrow> 'p spectre_request \<Rightarrow> ('p drafter, unit) py" where
  "handle_identical_tokens now i rid msg =
     py_update (\<lambda>d. resume_or_update i rid False (touch_state now rid (upd_req i (update_req_state msg) d)))"

text \<open>Replace the tokens from the fork point on and let the request decode: Case 1.1 and the local rollback.\<close>

definition replace_and_resume ::
    "real \<Rightarrow> nat \<Rightarrow> string \<Rightarrow> int list \<Rightarrow> nat \<Rightarrow> 'p spectre_request \<Rightarrow> ('p drafter, unit) py" where
  "replace_and_resume now i rid tfill fork msg =
     py_update (\<lambda>d. resume_or_update i rid True (touch_state now rid
       (upd_req i (\<lambda>r. update_req_state msg (update_tokens (int fork) (drop fork tfill) r)) d)))"

definition local_rollback_req :: "nat \<Rightarrow> nat \<Rightarrow> int \<Rightarrow> ('p drafter, unit) py" where
  "local_rollback_req i fork kv_len d =
     (case local_rollback (dm_page_size d) (obj (dm_reqs d) i) (int fork) kv_len (dm_mem d) of
        (_, r, m) \<Rightarrow> (Inr (), (upd_req i (\<lambda>_. r) d)\<lparr>dm_mem := m\<rparr>))"

definition handle_multi_token_divergence ::
    "real \<Rightarrow> nat \<Rightarrow> string \<Rightarrow> int list \<Rightarrow> nat \<Rightarrow> int \<Rightarrow> bool \<Rightarrow> 'p spectre_request \<Rightarrow> ('p drafter, unit) py" where
  "handle_multi_token_divergence now i rid tfill fork kv_len needs_release msg d =
     (if int (length tfill) - 1 \<le> int fork
         \<and> can_local_rollback (dm_page_size d) (obj (dm_reqs d) i) (int fork)
      then py_bind (\<lambda>d. if needs_release then local_rollback_req i fork kv_len d else (Inr (), d))
             (\<lambda>_. replace_and_resume now i rid tfill fork msg) d
      else prepare_for_reprefill i rid tfill msg d)"

definition handle_equal_length ::
    "real \<Rightarrow> nat \<Rightarrow> string \<Rightarrow> int list \<Rightarrow> nat \<Rightarrow> int \<Rightarrow> int \<Rightarrow> bool \<Rightarrow> 'p spectre_request \<Rightarrow> ('p drafter, unit) py" where
  "handle_equal_length now i rid tfill fork cur_len kv_len needs_release msg =
     (if int fork = cur_len - 1 then replace_and_resume now i rid tfill fork msg
      else handle_multi_token_divergence now i rid tfill fork kv_len needs_release msg)"

text \<open>Case 2.1 compares the surplus with \<open>num_draft_tokens\<close>, which raises when that is None.\<close>

definition handle_draft_ahead ::
    "real \<Rightarrow> nat \<Rightarrow> string \<Rightarrow> int list \<Rightarrow> nat \<Rightarrow> int \<Rightarrow> bool \<Rightarrow> 'p spectre_request \<Rightarrow> ('p drafter, unit) py" where
  "handle_draft_ahead now i rid tfill fork kv_len needs_release msg =
     (if fork = length tfill
      then \<lambda>d.
        let r = obj (dm_reqs d) i;
            tlen = int (length tfill) - int (length (dq_origin_input_ids r));
            dlen = int (length (dq_output_ids r));
            d1 = touch_state now rid (upd_req i (\<lambda>r. r\<lparr>dq_start_len := tlen, dq_spec_cnt := sr_spec_cnt msg,
                   dq_tokens_target := sr_num_draft_tokens msg, dq_len_output_ids := dlen\<rparr>) d)
        in case sr_num_draft_tokens msg of
             None \<Rightarrow> (Inl TypeError, d1)
           | Some q \<Rightarrow>
               if q \<le> dlen - tlen then (Inr (), pause_req now i rid (send_draft_response i d1))
               else (Inr (), resume_or_update i rid True (upd_req i (\<lambda>r. r\<lparr>dq_paused := False\<rparr>) d1))
      else handle_multi_token_divergence now i rid tfill fork kv_len needs_release msg)"

text \<open>Cases 3.1 and 3.2 differ in what they log.\<close>

definition handle_target_ahead ::
    "nat \<Rightarrow> string \<Rightarrow> int list \<Rightarrow> 'p spectre_request \<Rightarrow> ('p drafter, unit) py" where
  "handle_target_ahead i rid tfill msg = prepare_for_reprefill i rid tfill msg"

definition handle_divergence ::
    "real \<Rightarrow> nat \<Rightarrow> string \<Rightarrow> int list \<Rightarrow> nat \<Rightarrow> 'p spectre_request \<Rightarrow> ('p drafter, unit) py" where
  "handle_divergence now i rid tfill fork msg d =
     (let r = obj (dm_reqs d) i;
          cur = int (length (dq_origin_input_ids r)) + int (length (dq_output_ids r));
          tgt = int (length tfill); kv = cur - 1; needs = int fork < kv; d1 = touch_state now rid d
      in if cur = tgt then handle_equal_length now i rid tfill fork cur kv needs msg d1
         else if cur > tgt then handle_draft_ahead now i rid tfill fork kv needs msg d1
         else handle_target_ahead i rid tfill msg d1)"

section \<open>Creating and finishing requests\<close>

definition finish_draft_request :: "string \<Rightarrow> ('p drafter, unit) py" where
  "finish_draft_request rid d =
     (let d1 = d\<lparr>dm_grants := table_release rid (dm_grants d)\<rparr> in
      case dget (dm_states d) rid of
        None \<Rightarrow> (Inr (), d1)
      | Some s \<Rightarrow>
         (case ds_req_object s of
            None \<Rightarrow> (Inl AttributeError, d1)
          | Some i \<Rightarrow>
             (let d2 = remove_draft_req i d1;
                  d3 = (if finished (obj (dm_reqs d2) i) then d2
                        else upd_req i (\<lambda>r. r\<lparr>dq_finished_reason := True\<rparr>) d2);
                  r = obj (dm_reqs d3) i
              in py_bind (if kr_req_pool_idx r \<noteq> None \<and> \<not> kr_kv_committed_freed r
                          then release_all_kv i else py_return ())
                   (\<lambda>_. py_update (\<lambda>d. snd (sm_delete rid d))) d3)))"

definition new_draft_req :: "'p spectre_request \<Rightarrow> int option \<Rightarrow> draft_req" where
  "new_draft_req msg max_new =
     \<lparr>kr_rid = sr_request_id msg, kr_is_draft = True, kr_fill_ids = [], kr_prefix_indices = [],
      kr_extend_input_len = 0, kr_is_chunked = 0, kr_req_pool_idx = None, kr_kv_committed_len = 0,
      kr_kv_allocated_len = 0, kr_kv_committed_freed = False, kr_kv_overallocated_freed = False,
      kr_stream_enabled = False,
      dq_origin_input_ids = target_fill_ids (or_empty (sr_input_ids msg)) msg, dq_output_ids = [],
      dq_spec_cnt = sr_spec_cnt msg, dq_tokens_target = sr_num_draft_tokens msg, dq_start_len = 0,
      dq_paused = False, dq_len_output_ids = 0, dq_logprobs = [],
      dq_target_send_time = sr_target_send_time msg, dq_draft_recv_time = sr_draft_recv_time msg,
      dq_max_new_tokens = max_new, dq_finished_reason = False\<rparr>"

text \<open>
  \<open>_create_new_draft_req\<close>; \<open>max_new\<close> reads \<open>max_new_tokens\<close> of the (default) sampling parameters,
  a class of the engine.
\<close>

definition create_new_draft_req ::
    "('p option \<Rightarrow> int option) \<Rightarrow> real \<Rightarrow> 'p spectre_request \<Rightarrow> ('p drafter, unit) py" where
  "create_new_draft_req max_new now msg =
     py_bind (\<lambda>d. if sm_exists (sr_request_id msg) d then finish_draft_request (sr_request_id msg) d
                  else (Inr (), d)) (\<lambda>_.
     py_update (\<lambda>d.
       let i = dm_next d; r = new_draft_req msg (max_new (sr_sampling_params msg))
       in sm_set_state (sr_request_id msg)
            \<lparr>ds_spec_cnt = sr_spec_cnt msg, ds_req_object = Some i, ds_location = DRAFT_WAITING,
             ds_target_origin_input_ids = Some (or_empty (sr_input_ids msg)),
             ds_last_prefix_length = int (length (dq_origin_input_ids r)), ds_last_output_length = 0,
             ds_last_updated_time = now, ds_created_time = now, ds_timeout_threshold = 30\<rparr>
            (d\<lparr>dm_reqs := dset i r (dm_reqs d), dm_next := i + 1, dm_waiting := dm_waiting d @ [i]\<rparr>)))"

section \<open>The message loops\<close>

text \<open>The bookkeeping of a message for a known request: times and the Target's input.\<close>

definition note_message :: "real \<Rightarrow> nat \<Rightarrow> string \<Rightarrow> 'p spectre_request \<Rightarrow> 'p drafter \<Rightarrow> 'p drafter" where
  "note_message now i rid msg d =
     (let d1 = upd_req i (\<lambda>r. r\<lparr>dq_target_send_time := sr_target_send_time msg,
                 dq_draft_recv_time := sr_draft_recv_time msg\<rparr>) (touch_state now rid d)
      in case sr_input_ids msg of None \<Rightarrow> d1
         | Some xs \<Rightarrow> upd_state rid (\<lambda>s. s\<lparr>ds_target_origin_input_ids := Some xs\<rparr>) d1)"

definition dispatch_message ::
    "real \<Rightarrow> nat \<Rightarrow> string \<Rightarrow> int list \<Rightarrow> 'p spectre_request \<Rightarrow> ('p drafter, unit) py" where
  "dispatch_message now i rid tin msg d =
     (let tfill = target_fill_ids tin msg; dfill = draft_fill_ids (obj (dm_reqs d) i)
      in if tfill = [] then (Inr (), d)
         else case fork_of (length tin) dfill tfill of
                (True, _) \<Rightarrow> handle_identical_tokens now i rid msg d
              | (False, fork) \<Rightarrow> handle_divergence now i rid tfill fork msg d)"

text \<open>The body of the \<open>try\<close> block of \<open>_process_draft_requests\<close>.\<close>

definition process_message ::
    "('p option \<Rightarrow> int option) \<Rightarrow> real \<Rightarrow> string \<Rightarrow> 'p spectre_request \<Rightarrow> ('p drafter, unit) py" where
  "process_message max_new now rid msg d =
     (case dget (dm_states d) rid of
        None \<Rightarrow> if sr_input_ids msg = None then (Inr (), d) else create_new_draft_req max_new now msg d
      | Some s \<Rightarrow>
         (case ds_req_object s of
            None \<Rightarrow> finish_draft_request rid (touch_state now rid d)
          | Some i \<Rightarrow> dispatch_message now i rid (target_input_of msg s) msg (note_message now i rid msg d)))"

text \<open>An exception finishes the request; an exception while finishing it is swallowed.\<close>

definition process_guarded ::
    "('p option \<Rightarrow> int option) \<Rightarrow> real \<Rightarrow> string \<times> 'p spectre_request \<Rightarrow> ('p drafter, unit) py" where
  "process_guarded max_new now p d =
     (case process_message max_new now (fst p) (snd p) d of
        (Inr _, d') \<Rightarrow> (Inr (), d')
      | (Inl _, d') \<Rightarrow> (Inr (), snd (finish_draft_request (fst p) d')))"

definition process_draft_requests ::
    "('p option \<Rightarrow> int option) \<Rightarrow> real \<Rightarrow> (string, 'p spectre_request) dict \<Rightarrow> ('p drafter, unit) py" where
  "process_draft_requests max_new now latest = py_for latest (process_guarded max_new now)"

definition control_one :: "real \<Rightarrow> 'p spectre_request \<Rightarrow> ('p drafter, unit) py" where
  "control_one now msg d =
     (let rid = sr_request_id msg in
      if sr_action msg \<in> {FINISH, ABORT}
      then finish_draft_request rid (d\<lparr>dm_grants := table_release rid (dm_grants d)\<rparr>)
      else if sr_action msg = GRANT then
        if \<not> dm_grants_enabled d then (Inr (), d)
        else case grant_of_message msg of
          Inl _ \<Rightarrow> (Inr (), d)
        | Inr g \<Rightarrow>
           (case table_apply g (dm_grants d) of
              (res, tb) \<Rightarrow>
               (let d1 = d\<lparr>dm_grants := tb\<rparr> in
                if \<not> ar_accepted res then (Inr (), d1)
                else case dget (dm_states d1) (eg_request_id g) of
                  None \<Rightarrow> (Inr (), d1)
                | Some s \<Rightarrow>
                   (case ds_req_object s of
                      None \<Rightarrow> (Inr (), d1)
                    | Some i \<Rightarrow>
                       if ds_location s \<noteq> PAUSED then (Inr (), d1)
                       else case dq_spec_cnt (obj (dm_reqs d1) i) of
                              None \<Rightarrow> (Inl TypeError, d1)
                            | Some n \<Rightarrow> (Inr (), if n = eg_spec_cnt g
                                                then resume_draft_req i (eg_request_id g) d1 else d1))))
      else if sr_action msg = PAUSE then
        if \<not> dm_grants_enabled d then (Inr (), d)
        else
          let d1 = d\<lparr>dm_grants := receive_pause msg (dm_grants d)\<rparr>
          in case dget (dm_states d1) rid of
               None \<Rightarrow> (Inr (), d1)
             | Some s \<Rightarrow> (case ds_req_object s of
                            None \<Rightarrow> (Inr (), d1)
                          | Some i \<Rightarrow> (Inr (), pause_req now i rid d1))
      else (Inr (), d))"

definition process_control_message :: "real \<Rightarrow> 'p spectre_request list \<Rightarrow> ('p drafter, unit) py" where
  "process_control_message now ctl = py_for ctl (control_one now)"

text \<open>\<open>_flush_draft_batch_pending_adds\<close>: the batch arrays it builds read the last token of every request.\<close>

definition flush_pending_adds :: "('p drafter, unit) py" where
  "flush_pending_adds d =
     (if dm_pending_adds d = [] then (Inr (), d)
      else if \<exists>i \<in> set (dm_pending_adds d). draft_fill_ids (obj (dm_reqs d) i) = [] then (Inl IndexError, d)
      else (Inr (), d\<lparr>dm_batch := dm_batch d @ dm_pending_adds d, dm_pending_adds := []\<rparr>))"

definition on_alloc :: "(kv_allocator \<Rightarrow> kv_allocator) \<Rightarrow> 'p drafter \<Rightarrow> 'p drafter" where
  "on_alloc f d = d\<lparr>dm_mem := (dm_mem d)\<lparr>km_alloc := f (km_alloc (dm_mem d))\<rparr>\<rparr>"

text \<open>\<open>_send_reject_message\<close>.\<close>

definition reject_message :: "'p spectre_request" where
  "reject_message = (request_new ''system'' REJECT DRAFT_RESPONSE)
     \<lparr>sr_spec_cnt := Some 0, sr_draft_token_ids := Some [], sr_draft_logprobs := Some []\<rparr>"

text \<open>\<open>high_overhead\<close> is the load test of \<open>_is_self_high_overhead_draft\<close>; then nothing is received.\<close>

definition recv_and_process_draft_requests ::
    "('p option \<Rightarrow> int option) \<Rightarrow> real \<Rightarrow> bool \<Rightarrow> 'p spectre_request list \<Rightarrow> ('p drafter, unit) py" where
  "recv_and_process_draft_requests max_new now high_overhead msgs d =
     (if high_overhead then (Inr (), d\<lparr>dm_sent := dm_sent d @ [reject_message]\<rparr>)
      else case deduplicate_draft_requests msgs of
        Inl e \<Rightarrow> (Inl e, d)
      | Inr (ctl, latest) \<Rightarrow>
          if ctl = [] \<and> latest = [] then (Inr (), d)
          else py_bind (py_update (on_alloc free_group_begin)) (\<lambda>_.
               py_bind (process_control_message now ctl) (\<lambda>_.
               py_bind (process_draft_requests max_new now latest) (\<lambda>_.
               py_bind (py_update (on_alloc free_group_end)) (\<lambda>_.
               flush_pending_adds)))) d)"

definition cleanup_stale_draft_states :: "real \<Rightarrow> 'p drafter \<Rightarrow> 'p drafter" where
  "cleanup_stale_draft_states now d =
     foldl (\<lambda>d rid. snd (sm_delete rid (snd (finish_draft_request rid d)))) d
       (sm_cleanup_stale_states now None d)"

section \<open>Decoding\<close>

text \<open>\<open>_check_and_pause_draft_req\<close>; the comparison with a missing target raises.\<close>

definition check_and_pause_draft_req :: "real \<Rightarrow> nat \<Rightarrow> ('p drafter, bool) py" where
  "check_and_pause_draft_req now i d =
     (let r = obj (dm_reqs d) i in
      if \<not> kr_is_draft r then (Inr False, d)
      else if dq_paused r then (Inr True, d)
      else case dq_tokens_target r of
        None \<Rightarrow> (Inl TypeError, d)
      | Some q \<Rightarrow>
         if q \<le> int (length (dq_output_ids r)) - dq_start_len r
         then let d1 = upd_req i (\<lambda>r. r\<lparr>dq_paused := True\<rparr>) (send_draft_response i d)
              in (Inr True, upd_state (kr_rid r) (\<lambda>s. s\<lparr>ds_location := PAUSED, ds_last_updated_time := now\<rparr>)
                   (d1\<lparr>dm_paused := add_once i (dm_paused d1)\<rparr>))
         else (Inr False, d))"

definition filter_draft_batch :: "'p drafter \<Rightarrow> 'p drafter" where
  "filter_draft_batch d =
     d\<lparr>dm_paused := foldl (\<lambda>ps i. if dq_paused (obj (dm_reqs d) i) then add_once i ps else ps) (dm_paused d) (dm_batch d),
       dm_batch := filter (\<lambda>i. \<not> dq_paused (obj (dm_reqs d) i) \<and> \<not> finished (obj (dm_reqs d) i)) (dm_batch d)\<rparr>"

definition handle_draft_batch_oom :: "'p drafter \<Rightarrow> 'p drafter" where
  "handle_draft_batch_oom d =
     (foldl (\<lambda>d i. snd (finish_draft_request (kr_rid (obj (dm_reqs d) i)) d)) d (dm_batch d))\<lparr>dm_batch := []\<rparr>"


section \<open>The fork point\<close>

text \<open>The loop computes the longest common prefix of the two sequences.\<close>

lemma find_fork_point_eq:
  "find_fork_point xs ys = (xs = ys, length (longest_common_prefix xs ys))"
  by (induction xs ys rule: find_fork_point.induct) auto

lemma lcp_append: "longest_common_prefix (zs @ xs) (zs @ ys) = zs @ longest_common_prefix xs ys"
  by (induction zs) auto

lemma fork_of_eq:
  assumes "take skip dfill = take skip tfill"
  shows "fork_of skip dfill tfill = (dfill = tfill, length (longest_common_prefix dfill tfill))"
proof (cases "0 < skip \<and> skip \<le> length dfill \<and> skip \<le> length tfill")
  case True
  let ?xs = "drop skip dfill" and ?ys = "drop skip tfill" and ?zs = "take skip dfill"
  have d: "dfill = ?zs @ ?xs" by simp
  have t: "tfill = ?zs @ ?ys" by (simp add: assms)
  have "longest_common_prefix dfill tfill = ?zs @ longest_common_prefix ?xs ?ys"
    by (subst d, subst t) (rule lcp_append)
  then have "length (longest_common_prefix dfill tfill) = skip + length (longest_common_prefix ?xs ?ys)"
    using True by simp
  moreover have "(?xs = ?ys) = (dfill = tfill)" using d t by metis
  ultimately show ?thesis using True by (simp add: fork_of_def find_fork_point_eq)
next
  case False
  then have "fork_of skip dfill tfill = find_fork_point dfill tfill" by (simp only: fork_of_def if_False)
  then show ?thesis by (simp add: find_fork_point_eq)
qed

lemma lcp_props:
  shows "length (longest_common_prefix xs ys) \<le> length xs" "length (longest_common_prefix xs ys) \<le> length ys"
    and "take (length (longest_common_prefix xs ys)) xs = take (length (longest_common_prefix xs ys)) ys"
    and "prefix zs xs \<Longrightarrow> prefix zs ys \<Longrightarrow> length zs \<le> length (longest_common_prefix xs ys)"
proof -
  have p: "prefix (longest_common_prefix xs ys) xs" "prefix (longest_common_prefix xs ys) ys"
    by (rule longest_common_prefix_prefix1 longest_common_prefix_prefix2)+
  then show "length (longest_common_prefix xs ys) \<le> length xs" "length (longest_common_prefix xs ys) \<le> length ys"
    by (simp_all add: prefix_length_le)
  show "take (length (longest_common_prefix xs ys)) xs = take (length (longest_common_prefix xs ys)) ys"
    using p by (auto simp: prefix_def) (metis append_eq_conv_conj)
  show "prefix zs xs \<Longrightarrow> prefix zs ys \<Longrightarrow> length zs \<le> length (longest_common_prefix xs ys)"
    using longest_common_prefix_max_prefix prefix_length_le by blast
qed

section \<open>What the queue operations leave alone\<close>

lemma upd_req_fields [simp]:
  "dm_mem (upd_req i f d) = dm_mem d" "dm_sent (upd_req i f d) = dm_sent d" "dm_states (upd_req i f d) = dm_states d"
  "dm_page_size (upd_req i f d) = dm_page_size d" "dm_reqs (upd_req i f d) = dset i (f (obj (dm_reqs d) i)) (dm_reqs d)"
  by (simp_all add: upd_req_def)

lemma upd_state_fields [simp]:
  "dm_mem (upd_state rid g d) = dm_mem d" "dm_sent (upd_state rid g d) = dm_sent d"
  "dm_page_size (upd_state rid g d) = dm_page_size d" "dm_reqs (upd_state rid g d) = dm_reqs d"
  by (simp_all add: upd_state_def sm_set_state_def split: option.splits)

lemma location_fields [simp]:
  "dm_mem (set_location rid l d) = dm_mem d" "dm_sent (set_location rid l d) = dm_sent d"
  "dm_page_size (set_location rid l d) = dm_page_size d" "dm_reqs (set_location rid l d) = dm_reqs d"
  "dm_mem (touch_state now rid d) = dm_mem d" "dm_sent (touch_state now rid d) = dm_sent d"
  "dm_page_size (touch_state now rid d) = dm_page_size d" "dm_reqs (touch_state now rid d) = dm_reqs d"
  by (simp_all add: set_location_def touch_state_def)

lemma exclude_fields [simp]:
  "dm_mem (exclude_from_batch i d) = dm_mem d" "dm_sent (exclude_from_batch i d) = dm_sent d"
  "dm_page_size (exclude_from_batch i d) = dm_page_size d" "dm_reqs (exclude_from_batch i d) = dm_reqs d"
  by (simp_all add: exclude_from_batch_def)

lemma remove_fields [simp]:
  "dm_mem (remove_draft_req i d) = dm_mem d" "dm_sent (remove_draft_req i d) = dm_sent d"
  "dm_page_size (remove_draft_req i d) = dm_page_size d" "dm_reqs (remove_draft_req i d) = dm_reqs d"
  by (simp_all add: remove_draft_req_def)

text \<open>A store in which only the object \<open>i\<close> changed, and it is now \<open>r\<close>.\<close>

definition only_req :: "nat \<Rightarrow> draft_req \<Rightarrow> 'p drafter \<Rightarrow> 'p drafter \<Rightarrow> bool" where
  "only_req i r d d' \<longleftrightarrow> dm_mem d' = dm_mem d \<and> dm_sent d' = dm_sent d
     \<and> (\<forall>j. dget (dm_reqs d') j = dget (dset i r (dm_reqs d)) j)"

lemma only_req_get: "only_req i r d d' \<Longrightarrow> dget (dm_reqs d') i = Some r"
  by (simp add: only_req_def)

lemma resume_only:
  assumes "dget (dm_reqs d) i = Some r" and "\<not> dq_paused r"
  shows "only_req i r d (resume_or_update i rid b d)"
proof -
  have "r\<lparr>dq_paused := False\<rparr> = r" using assms(2) by simp
  with assms(1) show ?thesis
    by (auto simp: only_req_def resume_or_update_def resume_draft_req_def rebuild_req_in_draft_batch_def
        Let_def split: option.splits)
qed

lemma only_req_kv_ok:
  assumes "only_req i r' d d'" and "kv_ok (dm_reqs d) (dm_mem d)" and "dget (dm_reqs d) i = Some r"
    and "kv_part r' = kv_part r"
  shows "kv_ok (dm_reqs d') (dm_mem d')"
proof -
  have "dm_mem d' = dm_mem d" "\<And>j. dget (dm_reqs d') j = dget (dset i r' (dm_reqs d)) j"
    using assms(1) by (simp_all add: only_req_def)
  then show ?thesis using kv_inv_cong kv_part_ok [OF assms(2,3), of r'] assms(4) by metis
qed

lemma replace_and_resume_only:
  assumes "dget (dm_reqs d) i = Some r"
  shows "\<exists>d'. replace_and_resume now i rid tfill fork msg d = (Inr (), d')
    \<and> only_req i (update_req_state msg (update_tokens (int fork) (drop fork tfill) r)) d d'"
proof -
  let ?r = "update_req_state msg (update_tokens (int fork) (drop fork tfill) r)"
  define e where "e = touch_state now rid (upd_req i (\<lambda>r. update_req_state msg (update_tokens (int fork) (drop fork tfill) r)) d)"
  have "dget (dm_reqs e) i = Some ?r" using assms by (simp add: e_def)
  moreover have "\<not> dq_paused ?r" by (simp add: update_req_state_def)
  ultimately have "only_req i ?r e (resume_or_update i rid True e)" by (rule resume_only)
  then have "only_req i ?r d (resume_or_update i rid True e)"
    unfolding only_req_def by (simp add: e_def)
  then show ?thesis by (simp add: replace_and_resume_def py_basic e_def)
qed

section \<open>One message\<close>

text \<open>The KV of a request that owns a row covers all its tokens but the last.\<close>

definition kv_synced :: "draft_req \<Rightarrow> bool" where
  "kv_synced r \<longleftrightarrow> (kr_req_pool_idx r \<noteq> None \<longrightarrow>
     Suc (kr_kv_committed_len r) = length (draft_fill_ids r) \<and> kr_kv_allocated_len r = kr_kv_committed_len r)"

lemma update_tokens_fill:
  assumes "length (dq_origin_input_ids r) \<le> fork" and "fork \<le> length (draft_fill_ids r)"
    and "take fork (draft_fill_ids r) = take fork tfill"
  shows "draft_fill_ids (update_tokens (int fork) (drop fork tfill) r) = tfill"
proof -
  let ?o = "dq_origin_input_ids r" and ?k = "fork - length (dq_origin_input_ids r)"
  have "max 0 (int fork - int (length ?o)) = int ?k" using assms(1) by simp
  then have "draft_fill_ids (update_tokens (int fork) (drop fork tfill) r) = (?o @ take ?k (dq_output_ids r)) @ drop fork tfill"
    by (simp add: update_tokens_def Let_def draft_fill_ids_def)
  also have "?o @ take ?k (dq_output_ids r) = take fork (draft_fill_ids r)"
    using assms(1) by (simp add: draft_fill_ids_def)
  finally show ?thesis using assms(3) by simp
qed

lemma update_req_state_fields [simp]:
  "draft_fill_ids (update_req_state msg r) = draft_fill_ids r" "kv_part (update_req_state msg r) = kv_part r"
  "\<not> dq_paused (update_req_state msg r)" "dq_origin_input_ids (update_req_state msg r) = dq_origin_input_ids r"
  "dq_start_len (update_req_state msg r) = int (length (dq_output_ids r))"
  "dq_output_ids (update_req_state msg r) = dq_output_ids r"
  by (simp_all add: update_req_state_def draft_fill_ids_def kv_part_def)

lemma update_tokens_fields [simp]:
  "kv_part (update_tokens f ts r) = kv_part r" "dq_origin_input_ids (update_tokens f ts r) = dq_origin_input_ids r"
  by (simp_all add: update_tokens_def Let_def kv_part_def)

text \<open>
  The outcome of a message whose sequence is \<open>tfill\<close> for a request \<open>r\<close>: its tokens extend the
  Target's, its response will start, or did start, right after them, and the KV it keeps is that
  of tokens it already had.
\<close>

definition follows_target :: "int list \<Rightarrow> int \<Rightarrow> nat \<Rightarrow> draft_req \<Rightarrow> 'p drafter \<Rightarrow> 'p drafter \<Rightarrow> bool" where
  "follows_target tfill q i r d d' \<longleftrightarrow> (\<exists>r'. dget (dm_reqs d') i = Some r'
     \<and> (\<forall>j. j \<noteq> i \<longrightarrow> dget (dm_reqs d') j = dget (dm_reqs d) j)
     \<and> kv_ok (dm_reqs d') (dm_mem d') \<and> kv_synced r' \<and> prefix tfill (draft_fill_ids r')
     \<and> (kr_req_pool_idx r' \<noteq> None \<longrightarrow>
          take (kr_kv_committed_len r') (draft_fill_ids r') = take (kr_kv_committed_len r') (draft_fill_ids r))
     \<and> (dm_sent d' = dm_sent d \<and> \<not> dq_paused r'
           \<and> dq_start_len r' = int (length tfill) - int (length (dq_origin_input_ids r'))
        \<or> (\<exists>resp. dm_sent d' = dm_sent d @ [resp] \<and> dq_paused r'
             \<and> sr_draft_token_ids resp = Some (drop (length tfill) (draft_fill_ids r'))
             \<and> q \<le> int (length (drop (length tfill) (draft_fill_ids r'))))))"


lemma identical_follows:
  assumes ok: "kv_ok (dm_reqs d) (dm_mem d)" and r: "dget (dm_reqs d) i = Some r"
    and syn: "kv_synced r" and eq: "draft_fill_ids r = tfill"
  shows "\<exists>d'. handle_identical_tokens now i rid msg d = (Inr (), d') \<and> follows_target tfill q i r d d'"
proof -
  define e where "e = touch_state now rid (upd_req i (update_req_state msg) d)"
  define r' where "r' = update_req_state msg r"
  have "dget (dm_reqs e) i = Some r'" using r by (simp add: e_def r'_def)
  then have o: "only_req i r' e (resume_or_update i rid False e)" by (rule resume_only) (simp add: r'_def)
  have kp: "kv_part r' = kv_part r" by (simp add: r'_def)
  have "only_req i r' d (resume_or_update i rid False e)" using o by (simp add: only_req_def e_def)
  note only_req_kv_ok [OF this ok r kp]
  moreover have "kv_synced r'" using syn kp by (simp add: kv_synced_def kv_part_def) (simp add: r'_def)
  moreover have "int (length tfill) - int (length (dq_origin_input_ids r)) = int (length (dq_output_ids r))"
    by (simp add: eq [symmetric] draft_fill_ids_def)
  ultimately have "follows_target tfill q i r d (resume_or_update i rid False e)"
    unfolding follows_target_def using o eq
    by (intro exI [of _ r']) (auto simp: only_req_def e_def r'_def)
  then show ?thesis by (simp add: handle_identical_tokens_def py_basic e_def)
qed

lemma replace_follows:
  assumes ok: "kv_ok (dm_reqs d) (dm_mem d)" and r: "dget (dm_reqs d) i = Some r"
    and r0: "draft_fill_ids r0 = draft_fill_ids r" "dq_origin_input_ids r0 = dq_origin_input_ids r"
    and kv: "kr_req_pool_idx r \<noteq> None \<longrightarrow> Suc (kr_kv_committed_len r) = length tfill
        \<and> kr_kv_allocated_len r = kr_kv_committed_len r \<and> kr_kv_committed_len r \<le> fork"
    and fork: "length (dq_origin_input_ids r) \<le> fork" "fork \<le> length (draft_fill_ids r)"
      "take fork (draft_fill_ids r) = take fork tfill"
    and sent: "dm_sent d = dm_sent d0" "\<forall>j. j \<noteq> i \<longrightarrow> dget (dm_reqs d) j = dget (dm_reqs d0) j"
  shows "\<exists>d'. replace_and_resume now i rid tfill fork msg d = (Inr (), d') \<and> follows_target tfill q i r0 d0 d'"
proof -
  define r' where "r' = update_req_state msg (update_tokens (int fork) (drop fork tfill) r)"
  obtain d' where d': "replace_and_resume now i rid tfill fork msg d = (Inr (), d')" "only_req i r' d d'"
    using replace_and_resume_only [OF r] unfolding r'_def by blast
  have fill: "draft_fill_ids r' = tfill" using update_tokens_fill [OF fork] by (simp add: r'_def)
  have kp: "kv_part r' = kv_part r" by (simp add: r'_def)
  then have k: "kr_req_pool_idx r' = kr_req_pool_idx r" "kr_kv_committed_len r' = kr_kv_committed_len r"
    "kr_kv_allocated_len r' = kr_kv_allocated_len r" by (simp_all add: kv_part_def)
  have "kv_ok (dm_reqs d') (dm_mem d')" by (rule only_req_kv_ok [OF d'(2) ok r kp])
  moreover have "kv_synced r'" using kv k fill by (simp add: kv_synced_def)
  moreover have "take (kr_kv_committed_len r') tfill = take (kr_kv_committed_len r') (draft_fill_ids r)"
    if "kr_req_pool_idx r' \<noteq> None"
  proof -
    have "kr_kv_committed_len r \<le> fork" using kv k that by simp
    with fork(3) show ?thesis by (metis k(2) min.absorb1 take_take)
  qed
  moreover have "dq_start_len r' = int (length tfill) - int (length (dq_origin_input_ids r'))"
    unfolding fill [symmetric] by (simp add: r'_def draft_fill_ids_def)
  moreover have "\<not> dq_paused r'" by (simp add: r'_def)
  ultimately have "follows_target tfill q i r0 d0 d'"
    unfolding follows_target_def using d'(2) fill sent r0
    by (intro exI [of _ r']) (auto simp: only_req_def)
  with d'(1) show ?thesis by blast
qed

lemma release_all_kv_ok:
  assumes ok: "kv_ok (dm_reqs d) (dm_mem d)" and r: "dget (dm_reqs d) i = Some r"
  shows "\<exists>d' r'. release_all_kv i d = (Inr (), d') \<and> dget (dm_reqs d') i = Some r' \<and> kr_req_pool_idx r' = None
    \<and> kv_ok (dm_reqs d') (dm_mem d') \<and> dm_sent d' = dm_sent d \<and> (\<forall>j. j \<noteq> i \<longrightarrow> dget (dm_reqs d') j = dget (dm_reqs d) j)"
proof (cases "kr_req_pool_idx r")
  case None
  with ok r show ?thesis by (simp add: release_all_kv_def Let_def)
next
  case (Some x)
  define r1 where "r1 = r\<lparr>kr_fill_ids := take (kr_kv_committed_len r) (draft_fill_ids r)\<rparr>"
  have ok1: "kv_ok (dset i r1 (dm_reqs d)) (dm_mem d)"
    by (rule kv_part_ok [OF ok r]) (simp add: r1_def kv_part_def)
  have x1: "kr_req_pool_idx r1 = Some x" using Some by (simp add: r1_def)
  obtain r2 m where rel: "release_kv_cache True r1 (dm_mem d) = Inr (r2, m)"
    "kv_ok (dset i r2 (dset i r1 (dm_reqs d))) m" "kr_req_pool_idx r2 = None"
    using release_kv_cache_ok [OF ok1 _ x1, of i True] by auto
  have "kv_ok (dset i r2 (dm_reqs d)) m" by (rule kv_inv_cong [OF _ rel(2)]) simp
  then show ?thesis using rel r Some
    by (simp add: release_all_kv_def Let_def r1_def)
qed

lemma reprefill_follows:
  assumes ok: "kv_ok (dm_reqs d) (dm_mem d)" and r: "dget (dm_reqs d) i = Some r"
  shows "\<exists>d'. prepare_for_reprefill i rid tfill msg d = (Inr (), d') \<and> follows_target tfill q i r0 d d'"
proof -
  have "kv_ok (dm_reqs (remove_draft_req i d)) (dm_mem (remove_draft_req i d))" "dget (dm_reqs (remove_draft_req i d)) i = Some r"
    using ok r by simp_all
  from release_all_kv_ok [OF this] obtain e r1 where e: "release_all_kv i (remove_draft_req i d) = (Inr (), e)"
    "dget (dm_reqs e) i = Some r1" "kr_req_pool_idx r1 = None" "kv_ok (dm_reqs e) (dm_mem e)" "dm_sent e = dm_sent d"
    "\<forall>j. j \<noteq> i \<longrightarrow> dget (dm_reqs e) j = dget (dm_reqs d) j" by auto
  define r' where "r' = r1\<lparr>kr_fill_ids := tfill, dq_origin_input_ids := tfill, dq_output_ids := [],
            kr_prefix_indices := [], kr_extend_input_len := length tfill, dq_spec_cnt := sr_spec_cnt msg,
            dq_tokens_target := sr_num_draft_tokens msg, dq_start_len := 0, dq_paused := False,
            dq_len_output_ids := 0, kr_kv_committed_len := 0, kr_kv_committed_freed := False,
            kr_kv_overallocated_freed := False, dq_logprobs := []\<rparr>"
  have n: "kr_req_pool_idx r' = None" using e(3) by (simp add: r'_def)
  define d' where "d' = snd (prepare_for_reprefill i rid tfill msg d)"
  have d': "prepare_for_reprefill i rid tfill msg d = (Inr (), d')" "dm_reqs d' = dset i r' (dm_reqs e)"
    "dm_mem d' = dm_mem e" "dm_sent d' = dm_sent e"
    using e(1,2) by (simp_all add: prepare_for_reprefill_def py_basic d'_def r'_def)
  have "kv_ok (dm_reqs d') (dm_mem d')" unfolding d'(2,3)
    by (rule kv_part_ok [OF e(4,2)]) (simp add: e(3) n)
  then have "follows_target tfill q i r0 d d'"
    unfolding follows_target_def using d'(2-4) e(5,6) n
    by (intro exI [of _ r']) (simp add: kv_synced_def, simp add: r'_def draft_fill_ids_def)
  with d'(1) show ?thesis by blast
qed


lemma rollback_req_ok:
  assumes ok: "kv_ok (dm_reqs d) (dm_mem d)" and r: "dget (dm_reqs d) i = Some r" and syn: "kv_synced r"
    and ns: "\<not> kr_stream_enabled r" and page: "dm_page_size d = 1" and pre: "get_prefix_len r \<le> int fork"
    and less: "int fork < int (length (draft_fill_ids r)) - 1"
  shows "\<exists>d' r'. local_rollback_req i fork (int (length (draft_fill_ids r)) - 1) d = (Inr (), d')
    \<and> dget (dm_reqs d') i = Some r' \<and> kv_ok (dm_reqs d') (dm_mem d') \<and> dm_sent d' = dm_sent d
    \<and> (\<forall>j. j \<noteq> i \<longrightarrow> dget (dm_reqs d') j = dget (dm_reqs d) j)
    \<and> draft_fill_ids r' = draft_fill_ids r \<and> dq_origin_input_ids r' = dq_origin_input_ids r
    \<and> kr_req_pool_idx r' = kr_req_pool_idx r
    \<and> (kr_req_pool_idx r \<noteq> None \<longrightarrow> kr_kv_committed_len r' = fork \<and> kr_kv_allocated_len r' = fork)"
proof (cases "kr_req_pool_idx r")
  case None
  then have "local_rollback 1 r (int fork) (int (length (draft_fill_ids r)) - 1) (dm_mem d) = (False, r, dm_mem d)"
    by (simp add: local_rollback_def)
  moreover have "kv_ok (dset i r (dm_reqs d)) (dm_mem d)" by (rule kv_part_ok [OF ok r]) simp
  ultimately show ?thesis using None page r by (simp add: local_rollback_req_def)
next
  case (Some x)
  let ?kv = "int (length (draft_fill_ids r)) - 1"
  have kv: "?kv = int (kr_kv_allocated_len r)" using syn Some by (simp add: kv_synced_def)
  obtain b r1 m1 where run: "local_rollback 1 r (int fork) ?kv (dm_mem d) = (b, r1, m1)"
    by (cases "local_rollback 1 r (int fork) ?kv (dm_mem d)") auto
  have mx: "kr_kv_allocated_len r \<le> rp_max_context_len (km_pool (dm_mem d))"
    using kv_invD(5) [OF ok r] Some by (simp add: req_ok_def)
  have b: "b" "r1 = r\<lparr>kr_kv_committed_len := fork, kr_kv_allocated_len := fork\<rparr>"
    using run Some pre less kv mx by (auto simp: local_rollback_def Let_def split: if_splits)
  have "kv_ok (dset i r1 (dm_reqs d)) m1"
    using run b(1) by (intro local_rollback_ok(1) [OF _ ok r kv [symmetric] ns]) simp
  with run b page r Some show ?thesis by (simp add: local_rollback_req_def draft_fill_ids_def)
qed

lemma multi_follows:
  assumes ok: "kv_ok (dm_reqs d) (dm_mem d)" and r: "dget (dm_reqs d) i = Some r" and syn: "kv_synced r"
    and ns: "\<not> kr_stream_enabled r" and page: "dm_page_size d = 1"
    and fork: "length (dq_origin_input_ids r) \<le> fork" "fork < length tfill" "length tfill \<le> length (draft_fill_ids r)"
      "take fork (draft_fill_ids r) = take fork tfill"
    and kv: "kv = int (length (draft_fill_ids r)) - 1" "needs = (int fork < kv)"
  shows "\<exists>d'. handle_multi_token_divergence now i rid tfill fork kv needs msg d = (Inr (), d')
    \<and> follows_target tfill q i r d d'"
proof (cases "int (length tfill) - 1 \<le> int fork \<and> can_local_rollback (dm_page_size d) r (int fork)")
  case False
  then have "handle_multi_token_divergence now i rid tfill fork kv needs msg d = prepare_for_reprefill i rid tfill msg d"
    unfolding handle_multi_token_divergence_def r option.sel by (simp only: if_False)
  with reprefill_follows [OF ok r] show ?thesis by simp
next
  case True
  have f: "Suc fork = length tfill" using True fork(2) by linarith
  have le: "fork \<le> length (draft_fill_ids r)" using fork by linarith
  obtain e r' where e: "(if needs then local_rollback_req i fork kv d else (Inr (), d)) = (Inr (), e)"
    "dget (dm_reqs e) i = Some r'" "kv_ok (dm_reqs e) (dm_mem e)" "dm_sent e = dm_sent d"
    "\<forall>j. j \<noteq> i \<longrightarrow> dget (dm_reqs e) j = dget (dm_reqs d) j"
    "draft_fill_ids r' = draft_fill_ids r" "dq_origin_input_ids r' = dq_origin_input_ids r"
    "kr_req_pool_idx r' \<noteq> None \<longrightarrow> kr_kv_committed_len r' = fork \<and> kr_kv_allocated_len r' = fork"
  proof (cases needs)
    case True
    have "get_prefix_len r \<le> int fork"
      using \<open>int (length tfill) - 1 \<le> int fork \<and> _\<close> by (simp add: can_local_rollback_def)
    from rollback_req_ok [OF ok r syn ns page this] True kv that show thesis by (simp; metis)
  next
    case False
    with kv f fork(3) have "Suc fork = length (draft_fill_ids r)" by linarith
    with syn have "kr_req_pool_idx r \<noteq> None \<longrightarrow> kr_kv_committed_len r = fork \<and> kr_kv_allocated_len r = fork"
      by (auto simp: kv_synced_def)
    with False ok r that [of d r] show thesis by simp
  qed
  have "\<exists>d'. replace_and_resume now i rid tfill fork msg e = (Inr (), d') \<and> follows_target tfill q i r d d'"
    by (rule replace_follows [OF e(3,2)]) (use e(4-8) fork f le in simp_all)
  with e(1) True r show ?thesis
    by (simp add: handle_multi_token_divergence_def py_basic)
qed

lemma ahead_follows:
  assumes ok: "kv_ok (dm_reqs d) (dm_mem d)" and r: "dget (dm_reqs d) i = Some r" and syn: "kv_synced r"
    and org: "length (dq_origin_input_ids r) \<le> length tfill" and pre: "prefix tfill (draft_fill_ids r)"
    and q: "sr_num_draft_tokens msg = Some q"
  shows "\<exists>d'. handle_draft_ahead now i rid tfill (length tfill) kv needs msg d = (Inr (), d')
    \<and> follows_target tfill q i r d d'"
proof -
  let ?o = "dq_origin_input_ids r" and ?out = "dq_output_ids r"
  let ?tl = "int (length tfill) - int (length ?o)"
  define r1 where "r1 = r\<lparr>dq_start_len := ?tl, dq_spec_cnt := sr_spec_cnt msg,
                   dq_tokens_target := sr_num_draft_tokens msg, dq_len_output_ids := int (length ?out)\<rparr>"
  define d1 where "d1 = touch_state now rid (upd_req i (\<lambda>r. r\<lparr>dq_start_len := ?tl, dq_spec_cnt := sr_spec_cnt msg,
                   dq_tokens_target := sr_num_draft_tokens msg, dq_len_output_ids := int (length ?out)\<rparr>) d)"
  have d1: "dm_reqs d1 = dset i r1 (dm_reqs d)" "dm_mem d1 = dm_mem d" "dm_sent d1 = dm_sent d"
    using r by (simp_all add: d1_def r1_def)
  have r1: "kv_part r1 = kv_part r" "draft_fill_ids r1 = draft_fill_ids r" "dq_origin_input_ids r1 = ?o"
    by (simp_all add: r1_def kv_part_def draft_fill_ids_def)
  have drop_eq: "drop (length tfill - length ?o) ?out = drop (length tfill) (draft_fill_ids r)"
    using org by (simp add: draft_fill_ids_def)
  have nat_tl: "nat ?tl = length tfill - length ?o" using org by linarith
  show ?thesis
  proof (cases "q \<le> int (length ?out) - ?tl")
    case True
    define resp where "resp = hd (drop (length (dm_sent d)) (dm_sent (send_draft_response i d1)))"
    define r2 where "r2 = r1\<lparr>dq_start_len := int (length ?out), dq_paused := True\<rparr>"
    define d2 where "d2 = pause_req now i rid (send_draft_response i d1)"
    have d2: "dm_sent d2 = dm_sent d @ [resp]" "sr_draft_token_ids resp = Some (drop (length tfill) (draft_fill_ids r))"
      "dm_mem d2 = dm_mem d" "\<forall>j. dget (dm_reqs d2) j = dget (dset i r2 (dm_reqs d)) j"
      using org drop_eq by (simp_all add: d2_def pause_req_def send_draft_response_def Let_def d1 resp_def r2_def r1_def nat_tl)
    have k2: "kv_part r2 = kv_part r" "draft_fill_ids r2 = draft_fill_ids r" "dq_paused r2"
      by (simp_all add: r2_def r1_def kv_part_def draft_fill_ids_def)
    have "kv_ok (dm_reqs d2) (dm_mem d2)" unfolding d2(3)
      by (rule kv_inv_cong [OF _ kv_part_ok [OF ok r, of r2]]) (use d2(4) k2 in simp_all)
    moreover have "kv_synced r2" using syn k2 by (simp add: kv_synced_def kv_part_def)
    moreover have "q \<le> int (length (drop (length tfill) (draft_fill_ids r)))"
      using True org prefix_length_le [OF pre] by (simp add: draft_fill_ids_def)
    ultimately have "follows_target tfill q i r d d2" unfolding follows_target_def
      using d2 k2 pre by (intro exI [of _ r2]) auto
    moreover have "handle_draft_ahead now i rid tfill (length tfill) kv needs msg d = (Inr (), d2)"
      using True r q by (simp add: handle_draft_ahead_def Let_def d2_def d1_def)
    ultimately show ?thesis by blast
  next
    case False
    define r2 where "r2 = r1\<lparr>dq_paused := False\<rparr>"
    define d2 where "d2 = upd_req i (\<lambda>r. r\<lparr>dq_paused := False\<rparr>) d1"
    define d3 where "d3 = resume_or_update i rid True d2"
    have "dget (dm_reqs d2) i = Some r2" by (simp add: d2_def d1 r2_def)
    then have o: "only_req i r2 d2 d3" unfolding d3_def by (rule resume_only) (simp add: r2_def)
    have k2: "kv_part r2 = kv_part r" "draft_fill_ids r2 = draft_fill_ids r" "\<not> dq_paused r2" "dq_start_len r2 = ?tl"
      "dq_origin_input_ids r2 = ?o" by (simp_all add: r2_def r1_def kv_part_def draft_fill_ids_def)
    have d3: "dm_mem d3 = dm_mem d" "dm_sent d3 = dm_sent d" "\<forall>j. dget (dm_reqs d3) j = dget (dset i r2 (dm_reqs d)) j"
      using o by (simp_all add: only_req_def d2_def d1)
    have "kv_ok (dm_reqs d3) (dm_mem d3)" unfolding d3(1)
      by (rule kv_inv_cong [OF _ kv_part_ok [OF ok r, of r2]]) (use d3(3) k2 in simp_all)
    moreover have "kv_synced r2" using syn k2 by (simp add: kv_synced_def kv_part_def)
    ultimately have "follows_target tfill q i r d d3" unfolding follows_target_def
      using d3 k2 pre by (intro exI [of _ r2]) auto
    moreover have "handle_draft_ahead now i rid tfill (length tfill) kv needs msg d = (Inr (), d3)"
      using False r q by (simp add: handle_draft_ahead_def Let_def d3_def d2_def d1_def)
    ultimately show ?thesis by blast
  qed
qed


lemma divergence_follows:
  assumes ok: "kv_ok (dm_reqs d) (dm_mem d)" and r: "dget (dm_reqs d) i = Some r" and syn: "kv_synced r"
    and ns: "\<not> kr_stream_enabled r" and page: "dm_page_size d = 1"
    and conf: "prefix (dq_origin_input_ids r) tfill" and ne: "draft_fill_ids r \<noteq> tfill"
    and q: "sr_num_draft_tokens msg = Some q"
    and fork: "fork = length (longest_common_prefix (draft_fill_ids r) tfill)"
  shows "\<exists>d'. handle_divergence now i rid tfill fork msg d = (Inr (), d') \<and> follows_target tfill q i r d d'"
proof -
  let ?f = "draft_fill_ids r" and ?d = "touch_state now rid d"
  have len: "int (length (dq_origin_input_ids r)) + int (length (dq_output_ids r)) = int (length ?f)"
    by (simp add: draft_fill_ids_def)
  note lcp = lcp_props [where xs = ?f and ys = tfill, folded fork]
  have org: "length (dq_origin_input_ids r) \<le> fork"
    by (rule lcp(4) [OF _ conf]) (simp add: draft_fill_ids_def)
  have ok': "kv_ok (dm_reqs ?d) (dm_mem ?d)" and r': "dget (dm_reqs ?d) i = Some r" and page': "dm_page_size ?d = 1"
    using ok r page by simp_all
  have keep: "follows_target tfill q i r ?d e \<Longrightarrow> follows_target tfill q i r d e" for e
    by (simp add: follows_target_def)
  consider (same) "length ?f = length tfill" | (ahead) "length tfill < length ?f" | (behind) "length ?f < length tfill"
    by linarith
  then show ?thesis
  proof cases
    case behind
    with reprefill_follows [OF ok' r', of rid tfill msg q r] keep r len show ?thesis
      by (fastforce simp: handle_divergence_def handle_target_ahead_def Let_def)
  next
    case same
    have lt: "fork < length tfill"
      using lcp(1-3) ne same by (metis le_neq_implies_less order_refl take_all)
    show ?thesis
    proof (cases "int fork = int (length ?f) - 1")
      case True
      have "\<exists>e. replace_and_resume now i rid tfill fork msg ?d = (Inr (), e) \<and> follows_target tfill q i r ?d e"
        by (rule replace_follows [OF ok' r']) (use syn org lcp same True in \<open>auto simp: kv_synced_def\<close>)
      with True same r len keep show ?thesis
        by (fastforce simp: handle_divergence_def handle_equal_length_def Let_def)
    next
      case False
      have "\<exists>e. handle_multi_token_divergence now i rid tfill fork (int (length ?f) - 1)
          (int fork < int (length ?f) - 1) msg ?d = (Inr (), e) \<and> follows_target tfill q i r ?d e"
        by (rule multi_follows [OF ok' r' syn ns page' org lt]) (use lcp same in auto)
      with False same r len keep show ?thesis
        by (fastforce simp: handle_divergence_def handle_equal_length_def Let_def)
    qed
  next
    case ahead
    show ?thesis
    proof (cases "fork = length tfill")
      case True
      have "prefix tfill ?f" using lcp(3) True by (metis order_refl take_all take_is_prefix)
      from ahead_follows [OF ok' r' syn _ this q] org True
      have "\<exists>e. handle_draft_ahead now i rid tfill fork (int (length ?f) - 1)
          (int fork < int (length ?f) - 1) msg ?d = (Inr (), e) \<and> follows_target tfill q i r ?d e" by simp
      with ahead r len keep show ?thesis by (fastforce simp: handle_divergence_def Let_def)
    next
      case False
      with lcp(2) have lt: "fork < length tfill" by simp
      have "\<exists>e. handle_multi_token_divergence now i rid tfill fork (int (length ?f) - 1)
          (int fork < int (length ?f) - 1) msg ?d = (Inr (), e) \<and> follows_target tfill q i r ?d e"
        by (rule multi_follows [OF ok' r' syn ns page' org lt]) (use lcp ahead in auto)
      with False ahead r len keep show ?thesis
        by (fastforce simp: handle_divergence_def handle_draft_ahead_def Let_def)
    qed
  qed
qed

section \<open>Properties\<close>

text \<open>
  C9: after a message of the Target the Drafter follows it.  This is about a request the Drafter
  knows, with page size 1, slots conserved and no streaming, whose KV is in sync (one token decoded
  ahead of it, nothing reserved beyond it) and whose prefilled tokens are still a prefix of the
  Target's non-empty sequence, for a message that says how many tokens it asks for.  Then processing
  the message never raises; afterwards the Drafter's tokens extend the Target's sequence, its slots
  are conserved, its KV is in sync again and belongs to tokens that did not change, and either it
  has answered with at least the number of tokens asked for, exactly those after the Target's
  sequence, or it will decode on and answer from exactly there.  A request prefilled with a token
  the Target has rejected since is outside of this: the next theorem is about it.
\<close>

theorem draft_follows_target:
  assumes ok: "kv_ok (dm_reqs d) (dm_mem d)" and page: "dm_page_size d = 1"
    and s: "dget (dm_states d) rid = Some s" "ds_req_object s = Some i" and r: "dget (dm_reqs d) i = Some r"
    and syn: "kv_synced r" and ns: "\<not> kr_stream_enabled r"
    and tin: "prefix (target_input_of msg s) (dq_origin_input_ids r)"
    and tfill: "tfill = target_fill_ids (target_input_of msg s) msg" "tfill \<noteq> []"
    and conf: "prefix (dq_origin_input_ids r) tfill" and q: "sr_num_draft_tokens msg = Some q"
  shows "\<exists>d'. process_message max_new now rid msg d = (Inr (), d') \<and> follows_target tfill q i r d d'"
proof -
  let ?tin = "target_input_of msg s"
  define r3 where "r3 = r\<lparr>dq_target_send_time := sr_target_send_time msg, dq_draft_recv_time := sr_draft_recv_time msg\<rparr>"
  define d3 where "d3 = note_message now i rid msg d"
  have d3: "dm_reqs d3 = dset i r3 (dm_reqs d)" "dm_mem d3 = dm_mem d" "dm_sent d3 = dm_sent d" "dm_page_size d3 = 1"
    using r page by (simp_all add: d3_def note_message_def Let_def r3_def split: option.split)
  have r3: "kv_part r3 = kv_part r" "draft_fill_ids r3 = draft_fill_ids r" "dq_origin_input_ids r3 = dq_origin_input_ids r"
    "kr_stream_enabled r3 = kr_stream_enabled r" by (simp_all add: r3_def kv_part_def draft_fill_ids_def)
  have ok3: "kv_ok (dm_reqs d3) (dm_mem d3)" unfolding d3 by (rule kv_part_ok [OF ok r]) (simp add: r3)
  have g3: "dget (dm_reqs d3) i = Some r3" by (simp add: d3)
  have syn3: "kv_synced r3" using syn r3 by (simp add: kv_synced_def kv_part_def)
  have p: "prefix ?tin (draft_fill_ids r)" "prefix ?tin tfill"
    using tin by (simp_all add: draft_fill_ids_def tfill target_fill_ids_def)
  then have "take (length ?tin) (draft_fill_ids r) = take (length ?tin) tfill" by (auto simp: prefix_def)
  then have fork: "fork_of (length ?tin) (draft_fill_ids r) tfill
      = (draft_fill_ids r = tfill, length (longest_common_prefix (draft_fill_ids r) tfill))" by (rule fork_of_eq)
  have run: "process_message max_new now rid msg d =
      (if draft_fill_ids r = tfill then handle_identical_tokens now i rid msg d3
       else handle_divergence now i rid tfill (length (longest_common_prefix (draft_fill_ids r) tfill)) msg d3)"
    using s tfill(2) g3 r3(2) fork
    by (simp add: process_message_def dispatch_message_def Let_def d3_def [symmetric] tfill(1) [symmetric])
  have keep: "follows_target tfill q i r3 d3 e \<Longrightarrow> follows_target tfill q i r d e" for e
    by (simp add: follows_target_def d3 r3(2))
  show ?thesis
  proof (cases "draft_fill_ids r = tfill")
    case True
    with identical_follows [OF ok3 g3 syn3, of tfill now rid msg q] run keep r3(2) show ?thesis by auto
  next
    case False
    have "\<exists>e. handle_divergence now i rid tfill (length (longest_common_prefix (draft_fill_ids r) tfill)) msg d3 = (Inr (), e)
        \<and> follows_target tfill q i r3 d3 e"
      by (rule divergence_follows [OF ok3 g3 syn3 _ d3(4) _ _ q]) (use ns conf False r3 in simp_all)
    with False run keep show ?thesis by auto
  qed
qed


text \<open>
  The Drafter has decoded three tokens after a prompt of two; the Target accepted the first and
  chose another second one.
\<close>

definition ex_draft :: draft_req where
  "ex_draft = (new_draft_req (request_new ''a'' DRAFT DRAFT_REQUEST :: unit spectre_request) None)
     \<lparr>kr_req_pool_idx := Some 0, kr_kv_committed_len := 4, kr_kv_allocated_len := 4,
      dq_origin_input_ids := [1, 2], dq_output_ids := [3, 4, 5]\<rparr>"

definition ex_dstate :: draft_state where
  "ex_dstate = \<lparr>ds_spec_cnt = Some 1, ds_req_object = Some 0, ds_location = PAUSED,
     ds_target_origin_input_ids = Some [1, 2], ds_last_prefix_length = 2, ds_last_output_length = 0,
     ds_last_updated_time = 0, ds_created_time = 0, ds_timeout_threshold = 30\<rparr>"

definition ex_drafter :: "draft_req \<Rightarrow> kv_mem \<Rightarrow> unit drafter" where
  "ex_drafter r m = \<lparr>dm_states = [(''a'', ex_dstate)], dm_timeout_threshold = 60, dm_reqs = [(0, r)], dm_next = 1,
     dm_mem = m, dm_page_size = 1, dm_waiting = [], dm_batch = [], dm_paused = [0], dm_pending_adds = [],
     dm_grants = table_new, dm_grants_enabled = False, dm_sent = []\<rparr>"

definition ex_dmem :: kv_mem where
  "ex_dmem = \<lparr>km_alloc = (allocator_new 6 False)\<lparr>ka_free_pages := [5, 6]\<rparr>,
     km_pool = \<lparr>rp_size = 1, rp_max_context_len = 6, rp_req_to_token = [[1, 2, 3, 4, 0, 0]], rp_free_slots = []\<rparr>\<rparr>"

definition ex_dmsg :: "int list \<Rightarrow> unit spectre_request" where
  "ex_dmsg out = (request_new ''a'' DRAFT DRAFT_REQUEST)\<lparr>sr_spec_cnt := Some 2, sr_output_ids := Some out,
     sr_num_draft_tokens := Some 3\<rparr>"

lemmas ex_draft_defs = ex_draft_def ex_dstate_def ex_drafter_def ex_dmem_def ex_dmsg_def new_draft_req_def request_new_def

theorem draft_follows_target_witness:
  "\<exists>d'. process_message (\<lambda>_. None) 1 ''a'' (ex_dmsg [3, 9]) (ex_drafter ex_draft ex_dmem) = (Inr (), d')
     \<and> follows_target [1, 2, 3, 9] 3 0 ex_draft (ex_drafter ex_draft ex_dmem) d'"
proof -
  have ok: "kv_ok (dm_reqs (ex_drafter ex_draft ex_dmem)) (dm_mem (ex_drafter ex_draft ex_dmem))"
    by (simp add: kv_inv_def all_free_def held_at_def held_n_def row_of_def shape_ok_def req_ok_def
        allocator_new_def upt_rec numeral_eq_Suc ex_draft_defs)
  have tin: "target_input_of (ex_dmsg [3, 9]) ex_dstate = [1, 2]"
    by (simp add: target_input_of_def ex_draft_defs)
  show ?thesis
    by (rule draft_follows_target [OF ok, of "''a''" ex_dstate])
      (simp_all add: tin, simp_all add: ex_draft_defs kv_synced_def draft_fill_ids_def target_fill_ids_def)
qed

text \<open>
  C36: a stale prefilled token survives.  When a request that has decoded nothing since its
  (re-)prefill was queued diverges from the Target's sequence of the same length in the last
  token only, the token is appended instead of replaced: the Drafter then continues a sequence
  one token longer than the Target's, with the stale token in it.
\<close>

theorem stale_prefill_token_kept:
  assumes s: "dget (dm_states d) rid = Some s" "ds_req_object s = Some i" and r: "dget (dm_reqs d) i = Some r"
    and out: "dq_output_ids r = []" and org: "dq_origin_input_ids r = xs @ [a]"
    and msg: "target_fill_ids (target_input_of msg s) msg = xs @ [b]" "a \<noteq> b"
    and tin: "prefix (target_input_of msg s) xs"
  shows "\<exists>d' r'. process_message max_new now rid msg d = (Inr (), d') \<and> dget (dm_reqs d') i = Some r'
    \<and> draft_fill_ids r' = xs @ [a, b] \<and> \<not> prefix (xs @ [b]) (draft_fill_ids r')"
proof -
  let ?tin = "target_input_of msg s" and ?tf = "xs @ [b]"
  define r3 where "r3 = r\<lparr>dq_target_send_time := sr_target_send_time msg, dq_draft_recv_time := sr_draft_recv_time msg\<rparr>"
  define d3 where "d3 = note_message now i rid msg d"
  define d4 where "d4 = touch_state now rid d3"
  have g3: "dget (dm_reqs d3) i = Some r3"
    using r by (simp add: d3_def note_message_def Let_def r3_def split: option.split)
  have f3: "draft_fill_ids r3 = xs @ [a]" "dq_origin_input_ids r3 = xs @ [a]" "dq_output_ids r3 = []"
    using out org by (simp_all add: r3_def draft_fill_ids_def)
  have "take (length ?tin) (xs @ [a]) = take (length ?tin) ?tf" using tin by (auto simp: prefix_def)
  then have fork: "fork_of (length ?tin) (xs @ [a]) ?tf = (False, length xs)"
    using msg(2) fork_of_eq [of "length ?tin" "xs @ [a]" ?tf] by (simp add: lcp_append)
  obtain d' where d': "replace_and_resume now i rid ?tf (length xs) msg d4 = (Inr (), d')"
    "only_req i (update_req_state msg (update_tokens (int (length xs)) (drop (length xs) ?tf) r3)) d4 d'"
    using replace_and_resume_only [of d4 i r3 now rid ?tf "length xs" msg] g3 unfolding d4_def by (simp only: location_fields) blast
  have "process_message max_new now rid msg d = (Inr (), d')"
    using s g3 f3 fork msg(1) d'(1)
    by (simp add: process_message_def dispatch_message_def Let_def d3_def [symmetric] handle_divergence_def
        handle_equal_length_def d4_def)
  moreover have "draft_fill_ids (update_req_state msg (update_tokens (int (length xs)) (drop (length xs) ?tf) r3)) = xs @ [a, b]"
    using f3 by (simp add: update_tokens_def Let_def draft_fill_ids_def)
  moreover have "\<not> prefix (xs @ [b]) (xs @ [a, b])" using msg(2) by simp
  ultimately show ?thesis using only_req_get [OF d'(2)] by auto
qed

theorem stale_prefill_token_kept_witness:
  "\<exists>d' r'. process_message (\<lambda>_. None) 1 ''a'' (ex_dmsg [3])
       (ex_drafter (ex_draft\<lparr>dq_origin_input_ids := [1, 2, 7], dq_output_ids := [], kr_req_pool_idx := None\<rparr>) ex_dmem) = (Inr (), d')
     \<and> dget (dm_reqs d') 0 = Some r' \<and> draft_fill_ids r' = [1, 2, 7, 3] \<and> \<not> prefix [1, 2, 3] (draft_fill_ids r')"
  using stale_prefill_token_kept [of "ex_drafter (ex_draft\<lparr>dq_origin_input_ids := [1, 2, 7], dq_output_ids := [],
      kr_req_pool_idx := None\<rparr>) ex_dmem" "''a''" ex_dstate 0 _ "[1, 2]" 7 "ex_dmsg [3]" 3 "\<lambda>_. None" 1]
  by (simp add: ex_draft_defs target_fill_ids_def target_input_of_def)

text \<open>
  C37: the surplus of a request whose prefill is longer than the Target's sequence is cut in the
  wrong place.  When the Target's sequence is a proper prefix of what was prefilled, the start of
  the response is a negative index: what is sent are the last tokens of the output, not the
  tokens that follow the Target's sequence, so the response skips at least one token.
\<close>

theorem response_skips_prefilled_surplus:
  assumes r: "dget (dm_reqs d) i = Some r" and org: "dq_origin_input_ids r = tfill @ zs" "zs \<noteq> []"
    and q: "sr_num_draft_tokens msg = Some q" "q \<le> int (length (dq_output_ids r)) + int (length zs)"
  shows "\<exists>d' resp toks. handle_draft_ahead now i rid tfill (length tfill) kv needs msg d = (Inr (), d')
    \<and> dm_sent d' = dm_sent d @ [resp] \<and> sr_draft_token_ids resp = Some toks
    \<and> suffix toks (dq_output_ids r) \<and> length toks < length (drop (length tfill) (draft_fill_ids r))"
proof -
  let ?out = "dq_output_ids r" and ?k = "length zs"
  define toks where "toks = slice_from ?out (- int ?k)"
  define d1 where "d1 = touch_state now rid (upd_req i (\<lambda>x. x\<lparr>dq_start_len := - int ?k, dq_spec_cnt := sr_spec_cnt msg,
                   dq_tokens_target := sr_num_draft_tokens msg, dq_len_output_ids := int (length ?out)\<rparr>) d)"
  define d2 where "d2 = pause_req now i rid (send_draft_response i d1)"
  have o1: "dget (dm_reqs d1) i = Some (r\<lparr>dq_start_len := - int ?k, dq_spec_cnt := sr_spec_cnt msg,
                   dq_tokens_target := sr_num_draft_tokens msg, dq_len_output_ids := int (length ?out)\<rparr>)"
    "dm_sent d1 = dm_sent d"
    using r by (simp_all add: d1_def)
  obtain resp where 1: "dm_sent d2 = dm_sent d @ [resp]" "sr_draft_token_ids resp = Some toks"
    by (simp add: d2_def pause_req_def send_draft_response_def Let_def o1 toks_def)
  have 2: "handle_draft_ahead now i rid tfill (length tfill) kv needs msg d = (Inr (), d2)"
    using r q org by (simp add: handle_draft_ahead_def Let_def d2_def d1_def)
  have 3: "suffix toks ?out" by (simp add: toks_def slice_from_def suffix_drop)
  have "length toks \<le> length ?out" by (simp add: toks_def slice_from_def)
  also have "length ?out < length zs + length ?out" using org(2) by simp
  also have "length zs + length ?out = length (drop (length tfill) (draft_fill_ids r))"
    using org(1) by (simp add: draft_fill_ids_def)
  finally show ?thesis using 1 2 3 by blast
qed

theorem response_skips_prefilled_surplus_witness:
  "\<exists>d' resp toks. handle_draft_ahead 1 0 ''a'' [1] (length [1 :: int]) 4 True (ex_dmsg [])
       (ex_drafter ex_draft ex_dmem) = (Inr (), d')
    \<and> dm_sent d' = dm_sent (ex_drafter ex_draft ex_dmem) @ [resp] \<and> sr_draft_token_ids resp = Some toks
    \<and> suffix toks (dq_output_ids ex_draft) \<and> length toks < length (drop (length [1 :: int]) (draft_fill_ids ex_draft))"
  by (rule response_skips_prefilled_surplus [where zs = "[2]" and q = 3]) (simp_all add: ex_draft_defs)


text \<open>The draft messages of one request among a list of messages.\<close>

definition drafts_for :: "string \<Rightarrow> 'p spectre_request list \<Rightarrow> 'p spectre_request list" where
  "drafts_for rid msgs = filter (\<lambda>m. \<not> is_control (sr_action m) \<and> sr_request_id m = rid) msgs"

definition newest_of :: "'p spectre_request list \<Rightarrow> 'p spectre_request \<Rightarrow> bool" where
  "newest_of ms m \<longleftrightarrow> (\<exists>m0 \<in> set ms. sr_spec_cnt m = sr_spec_cnt m0 \<and> sr_output_ids m = sr_output_ids m0
       \<and> sr_draft_token_ids m = sr_draft_token_ids m0 \<and> sr_num_draft_tokens m = sr_num_draft_tokens m0)
     \<and> (\<forall>m0 \<in> set ms. the (sr_spec_cnt m0) \<le> the (sr_spec_cnt m))"

lemma drafts_for_snoc:
  "drafts_for rid (msgs @ [m]) = drafts_for rid msgs @
     (if \<not> is_control (sr_action m) \<and> sr_request_id m = rid then [m] else [])"
  by (simp add: drafts_for_def)

lemma newest_step:
  assumes "newest_of ms old" and "sr_spec_cnt old = Some x" and "sr_spec_cnt m = Some y"
  shows "newest_of (ms @ [m]) (if x < y then inherit_input old m else old)"
proof (cases "x < y")
  case True
  have f: "sr_spec_cnt (inherit_input old m) = Some y" "sr_output_ids (inherit_input old m) = sr_output_ids m"
    "sr_draft_token_ids (inherit_input old m) = sr_draft_token_ids m"
    "sr_num_draft_tokens (inherit_input old m) = sr_num_draft_tokens m"
    using assms(3) by (simp_all add: inherit_input_def)
  have "the (sr_spec_cnt m0) \<le> y" if "m0 \<in> set ms" for m0
    using assms(1,2) that True by (fastforce simp: newest_of_def)
  then show ?thesis using True f assms(3) by (simp add: newest_of_def)
next
  case False
  then show ?thesis using assms by (auto simp: newest_of_def)
qed

text \<open>
  C38: deduplication keeps exactly the newest draft message of every request, with its own tokens,
  and all control messages in their order; it never raises when every message has a round counter.
\<close>

theorem dedup_keeps_newest:
  assumes "\<forall>m \<in> set msgs. sr_spec_cnt m \<noteq> None"
  shows "\<exists>ctl latest. deduplicate_draft_requests msgs = Inr (ctl, latest)
    \<and> ctl = filter (\<lambda>m. is_control (sr_action m)) msgs \<and> dict_ok latest
    \<and> (\<forall>rid. case dget latest rid of None \<Rightarrow> drafts_for rid msgs = []
          | Some m \<Rightarrow> newest_of (drafts_for rid msgs) m)"
  using assms
proof (induction msgs rule: rev_induct)
  case Nil
  then show ?case by (simp add: deduplicate_draft_requests_def drafts_for_def)
next
  case (snoc m msgs)
  then obtain ctl latest where IH: "rfold dedup_one ([], []) msgs = Inr (ctl, latest)"
    "ctl = filter (\<lambda>m. is_control (sr_action m)) msgs" "dict_ok latest"
    "\<And>rid. case dget latest rid of None \<Rightarrow> drafts_for rid msgs = []
          | Some m \<Rightarrow> newest_of (drafts_for rid msgs) m"
    by (auto simp: deduplicate_draft_requests_def)
  have run: "deduplicate_draft_requests (msgs @ [m]) = dedup_one (ctl, latest) m"
    using IH(1) by (simp add: deduplicate_draft_requests_def rfold_append rbind_def split: sum.split)
  obtain y where y: "sr_spec_cnt m = Some y" using snoc.prems by auto
  let ?rid = "sr_request_id m"
  show ?case
  proof (cases "is_control (sr_action m)")
    case True
    have "drafts_for rid (msgs @ [m]) = drafts_for rid msgs" for rid using True by (simp add: drafts_for_snoc)
    then show ?thesis using run IH True by (simp add: dedup_one_def cong: option.case_cong)
  next
    case False
    have other: "drafts_for rid (msgs @ [m]) = drafts_for rid msgs" if "rid \<noteq> ?rid" for rid
      using that by (simp add: drafts_for_snoc)
    have final: "\<forall>rid. case dget l rid of None \<Rightarrow> drafts_for rid (msgs @ [m]) = []
          | Some x \<Rightarrow> newest_of (drafts_for rid (msgs @ [m])) x"
      if "dget l ?rid = Some n" "newest_of (drafts_for ?rid (msgs @ [m])) n" "\<And>rid. rid \<noteq> ?rid \<Longrightarrow> dget l rid = dget latest rid"
      for l n
      using that IH(4) other by (metis (no_types, lifting) option.simps(5))
    show ?thesis
    proof (cases "dget latest ?rid")
      case None
      then have "drafts_for ?rid msgs = []" using IH(4) [of ?rid] by simp
      then have "newest_of (drafts_for ?rid (msgs @ [m])) m" using False by (simp add: drafts_for_snoc newest_of_def)
      from final [OF _ this, of "dset ?rid m latest"] run False None IH(2,3) show ?thesis
        by (simp add: dedup_one_def)
    next
      case (Some old)
      have old: "newest_of (drafts_for ?rid msgs) old" using IH(4) [of ?rid] Some by simp
      then obtain m0 where "m0 \<in> set msgs" "sr_spec_cnt old = sr_spec_cnt m0"
        by (auto simp: newest_of_def drafts_for_def)
      then obtain x where x: "sr_spec_cnt old = Some x" using snoc.prems by auto
      define new where "new = (if x < y then inherit_input old m else old)"
      have n: "newest_of (drafts_for ?rid (msgs @ [m])) new"
        using newest_step [OF old x y] False by (simp add: drafts_for_snoc new_def)
      define latest' where "latest' = (if x < y then dset ?rid (inherit_input old m) latest else latest)"
      have r: "deduplicate_draft_requests (msgs @ [m]) = Inr (ctl, latest')"
        using run False Some x y by (simp add: dedup_one_def newer_def latest'_def)
      have g: "dget latest' rid = (if rid = ?rid then Some new else dget latest rid)" for rid
        using Some by (simp add: latest'_def new_def)
      have "dict_ok latest'" using IH(3) by (simp add: latest'_def)
      with r IH(2) False final [OF _ n, of latest'] g show ?thesis by simp
    qed
  qed
qed

theorem dedup_keeps_newest_witness:
  "\<exists>latest. deduplicate_draft_requests [ex_dmsg [3], (ex_dmsg [3, 4])\<lparr>sr_spec_cnt := Some 5\<rparr>] = Inr ([], latest)
     \<and> (case dget latest ''a'' of None \<Rightarrow> False | Some m \<Rightarrow> sr_output_ids m = Some [3, 4])"
proof -
  let ?ms = "[ex_dmsg [3], (ex_dmsg [3, 4])\<lparr>sr_spec_cnt := Some 5\<rparr>]"
  have "\<forall>m \<in> set ?ms. sr_spec_cnt m \<noteq> None" by (simp add: ex_dmsg_def)
  from dedup_keeps_newest [OF this] obtain ctl latest where l: "deduplicate_draft_requests ?ms = Inr (ctl, latest)"
    "ctl = filter (\<lambda>m. is_control (sr_action m)) ?ms"
    "case dget latest ''a'' of None \<Rightarrow> drafts_for ''a'' ?ms = [] | Some m \<Rightarrow> newest_of (drafts_for ''a'' ?ms) m"
    by blast
  have "ctl = []" using l(2) by (simp add: ex_dmsg_def request_new_def is_control_def)
  moreover have "drafts_for ''a'' ?ms = ?ms" by (simp add: drafts_for_def ex_dmsg_def request_new_def is_control_def)
  ultimately show ?thesis using l(1,3)
    by (auto simp: newest_of_def ex_dmsg_def split: option.splits)
qed

end
