(* ===== verification/TargetScheduler.thy ===== *)
theory TargetScheduler
  imports Protocol
begin

text \<open>
  The Target's side of the draft exchange: the circuit breaker, the cache of rounds asked for and
  answered, the requests and retries it sends and the horizon it verifies
  (\<open>verifier/spectre_target_scheduler_mixin.py\<close>, \<open>draft_delivery.py\<close>), and the bookkeeping of the
  worker after a forward pass (\<open>verifier/spectre_worker.py\<close>).  The model is rank 0; the wait for
  messages is the list of messages that arrived, the clock and the forward counter are arguments.
\<close>

section \<open>The circuit breaker\<close>

datatype breaker_state = CLOSED | OPEN | HALF_OPEN

record circuit_breaker =
  cb_state :: breaker_state
  cb_consecutive_failures :: int
  cb_failure_threshold :: int
  cb_cooldown_rounds :: int
  cb_rounds_in_open :: int

definition breaker_new :: "int \<Rightarrow> int \<Rightarrow> circuit_breaker" where
  "breaker_new threshold cooldown =
     \<lparr>cb_state = CLOSED, cb_consecutive_failures = 0, cb_failure_threshold = threshold,
      cb_cooldown_rounds = cooldown, cb_rounds_in_open = 0\<rparr>"

definition should_send :: "circuit_breaker \<Rightarrow> bool \<times> circuit_breaker" where
  "should_send b =
     (case cb_state b of
        CLOSED \<Rightarrow> (True, b)
      | OPEN \<Rightarrow>
         (let c = b\<lparr>cb_rounds_in_open := cb_rounds_in_open b + 1\<rparr>
          in if cb_cooldown_rounds c \<le> cb_rounds_in_open c then (True, c\<lparr>cb_state := HALF_OPEN\<rparr>)
             else (False, c))
      | HALF_OPEN \<Rightarrow> (True, b))"

definition record_success :: "circuit_breaker \<Rightarrow> circuit_breaker" where
  "record_success b = b\<lparr>cb_consecutive_failures := 0, cb_state := CLOSED, cb_rounds_in_open := 0\<rparr>"

definition record_failure :: "circuit_breaker \<Rightarrow> circuit_breaker" where
  "record_failure b =
     (let c = b\<lparr>cb_consecutive_failures := cb_consecutive_failures b + 1\<rparr>
      in if cb_state c = HALF_OPEN then c\<lparr>cb_state := OPEN, cb_rounds_in_open := 0\<rparr>
         else if cb_failure_threshold c \<le> cb_consecutive_failures c
         then c\<lparr>cb_state := OPEN, cb_rounds_in_open := 0\<rparr> else c)"

section \<open>Policies of the delivery\<close>

definition should_retry_missing_drafts :: "int \<Rightarrow> int \<Rightarrow> real \<Rightarrow> int \<Rightarrow> bool" where
  "should_retry_missing_drafts failed bs ratio min_count \<longleftrightarrow>
     (if failed \<le> 0 \<or> bs \<le> 0 then False
      else max min_count 1 \<le> failed \<and> ratio \<le> of_int failed / of_int bs)"

definition choose_ready_verify_horizon :: "string \<Rightarrow> int \<Rightarrow> int \<Rightarrow> int \<Rightarrow> real \<Rightarrow> int" where
  "choose_ready_verify_horizon mode requested_q bs no_draft ratio =
     (let q = max requested_q 1
      in if mode = ''ordinary'' then q
         else if 0 < bs \<and> ratio < of_int no_draft / of_int bs then 1 else q)"

definition should_fail_fast_on_draft_timeout :: "bool \<Rightarrow> string \<Rightarrow> bool res" where
  "should_fail_fast_on_draft_timeout require_draft action =
     (if action \<noteq> ''fallback'' \<and> action \<noteq> ''error'' then Inl ValueError
      else Inr (require_draft \<and> action = ''error''))"

section \<open>Requests and the round cache\<close>

type_synonym drafts = "int list \<times> real list"

record 'p spec_req =
  sq_rid :: string
  sq_origin_input_ids :: "int list"
  sq_output_ids :: "int list"
  sq_cur_drafts :: "int list"
  sq_draft_dict :: drafts
  sq_spec_cnt :: int
  sq_len_output_ids :: int
  sq_draft_cnt :: int
  sq_accept_cnt :: int
  sq_force_normal_decode :: bool
  sq_sampling_params :: "'p option"

abbreviation health_check :: "('p, 'z) spec_req_scheme \<Rightarrow> bool" where
  "health_check r \<equiv> is_health_check_req (sq_rid r)"

text \<open>Per request, the rounds asked for: \<open>None\<close> while waiting, the answer once it arrived.\<close>

type_synonym round_cache = "(string, (int, drafts option) dict) dict"

record 'p target_sched =
  tg_cache :: round_cache
  tg_breaker :: circuit_breaker
  tg_flush_at_us :: real
  tg_accept_reject :: bool
  tg_is_rejected :: bool
  tg_rejected_forward_ct :: int
  tg_sent :: "'p spectre_request list"

text \<open>\<open>self.req_to_draft_token[rid]\<close> of a defaultdict.\<close>

definition rid_cache :: "round_cache \<Rightarrow> string \<Rightarrow> (int, drafts option) dict" where
  "rid_cache c rid = dget_or c rid []"

definition should_store_draft_message :: "'p spectre_request \<Rightarrow> 'p target_sched \<Rightarrow> bool" where
  "should_store_draft_message msg t \<longleftrightarrow>
     (case dget (tg_cache t) (sr_request_id msg) of
        None \<Rightarrow> False
      | Some rc \<Rightarrow>
         (case sr_spec_cnt msg of None \<Rightarrow> False | Some n \<Rightarrow> dget rc n \<noteq> None)
         \<and> \<not> (0 < tg_flush_at_us t \<and> 0 \<le> sr_target_send_time msg \<and> sr_target_send_time msg < tg_flush_at_us t))"

definition process_reject_action :: "int \<Rightarrow> 'p target_sched \<Rightarrow> 'p target_sched" where
  "process_reject_action forward_ct t = t\<lparr>tg_is_rejected := True, tg_rejected_forward_ct := forward_ct\<rparr>"

text \<open>One message of \<open>_store_messages\<close>; a DRAFT message always carries its tokens and logprobs.\<close>

definition store_one :: "int \<Rightarrow> bool \<times> 'p target_sched \<Rightarrow> 'p spectre_request \<Rightarrow> bool \<times> 'p target_sched" where
  "store_one forward_ct acc msg =
     (case acc of (has_draft, t) \<Rightarrow>
       if sr_action msg = REJECT
       then (has_draft, if tg_accept_reject t then process_reject_action forward_ct t else t)
       else if sr_action msg = DRAFT \<and> should_store_draft_message msg t
       then let rid = sr_request_id msg;
                entry = (case sr_draft_token_ids msg of None \<Rightarrow> [] | Some xs \<Rightarrow> xs,
                         case sr_draft_logprobs msg of None \<Rightarrow> [] | Some xs \<Rightarrow> xs)
            in (True, t\<lparr>tg_cache := dset rid (dset (the (sr_spec_cnt msg)) (Some entry) (rid_cache (tg_cache t) rid)) (tg_cache t),
                        tg_accept_reject := True\<rparr>)
       else acc)"

definition store_messages :: "int \<Rightarrow> 'p spectre_request list \<Rightarrow> 'p target_sched \<Rightarrow> bool \<times> 'p target_sched" where
  "store_messages forward_ct msgs t = foldl (store_one forward_ct) (False, t) msgs"

text \<open>One request of \<open>_build_result_from_cache\<close>: take the answer of its round, drop older rounds.\<close>

definition take_from_cache :: "string \<Rightarrow> int \<Rightarrow> round_cache \<Rightarrow> drafts option \<times> round_cache" where
  "take_from_cache rid sc c =
     (case dget c rid of
        None \<Rightarrow> (None, c)
      | Some rc \<Rightarrow>
         (let entry = (case dget rc sc of Some e \<Rightarrow> e | None \<Rightarrow> None);
              rc1 = (if entry \<noteq> None then ddel sc rc else rc)
          in (entry, dset rid (filter (\<lambda>(k, _). \<not> k < sc) rc1) c)))"

fun build_loop ::
    "('p, 'z) spec_req_scheme list \<Rightarrow> (string, drafts) dict \<Rightarrow> round_cache \<Rightarrow> (string, drafts) dict \<times> round_cache" where
  "build_loop [] res c = (res, c)"
| "build_loop (r # rs) res c =
     (if health_check r then build_loop rs res c
      else case take_from_cache (sq_rid r) (sq_spec_cnt r) c of
        (e, c1) \<Rightarrow> build_loop rs (case e of None \<Rightarrow> res | Some x \<Rightarrow> dset (sq_rid r) x res) c1)"

definition build_result_from_cache ::
    "('p, 'z) spec_req_scheme list \<Rightarrow> round_cache \<Rightarrow> (string, drafts) dict \<times> round_cache" where
  "build_result_from_cache reqs c = build_loop reqs [] c"

text \<open>\<open>reset_spectre_target_state\<close>.\<close>

definition reset_spectre_target_state :: "real \<Rightarrow> 'p target_sched \<Rightarrow> 'p target_sched" where
  "reset_spectre_target_state now_us t =
     t\<lparr>tg_flush_at_us := now_us, tg_accept_reject := False, tg_cache := [],
       tg_breaker := (tg_breaker t)\<lparr>cb_state := CLOSED, cb_consecutive_failures := 0, cb_rounds_in_open := 0\<rparr>,
       tg_is_rejected := False, tg_rejected_forward_ct := 0\<rparr>"

section \<open>Asking for drafts\<close>

definition draft_request :: "bool \<Rightarrow> int \<Rightarrow> ('p, 'z) spec_req_scheme \<Rightarrow> 'p spectre_request" where
  "draft_request is_half_open q r =
     (let full = (sq_spec_cnt r = 0 \<or> is_half_open) in
      (request_new (sq_rid r) DRAFT DRAFT_REQUEST)
        \<lparr>sr_spec_cnt := Some (sq_spec_cnt r),
         sr_input_ids := (if full then Some (sq_origin_input_ids r) else None),
         sr_output_ids := Some (sq_output_ids r), sr_draft_token_ids := Some (sq_cur_drafts r),
         sr_num_draft_tokens := Some q, sr_sampling_params := (if full then sq_sampling_params r else None)\<rparr>)"

text \<open>The registration loop of \<open>send_batch_draft_requests\<close>: rounds already asked for are skipped.\<close>

fun register_rounds :: "('p, 'z) spec_req_scheme list \<Rightarrow> round_cache \<Rightarrow> ('p, 'z) spec_req_scheme list \<times> round_cache" where
  "register_rounds [] c = ([], c)"
| "register_rounds (r # rs) c =
     (if health_check r then register_rounds rs c
      else
       let rc = rid_cache c (sq_rid r)
       in if dget rc (sq_spec_cnt r) \<noteq> None then register_rounds rs (dset (sq_rid r) rc c)
          else case register_rounds rs (dset (sq_rid r) (dset (sq_spec_cnt r) None rc) c) of
                 (to_send, c') \<Rightarrow> (r # to_send, c'))"

definition send_batch_draft_requests ::
    "int \<Rightarrow> int \<Rightarrow> ('p, 'z) spec_req_scheme list \<Rightarrow> int \<Rightarrow> 'p target_sched \<Rightarrow> 'p target_sched" where
  "send_batch_draft_requests reject_interval forward_ct reqs q t =
     (if tg_is_rejected t \<and> 0 < reject_interval
         \<and> (forward_ct - tg_rejected_forward_ct t + 1) mod reject_interval \<noteq> 0 then t
      else case register_rounds reqs (tg_cache t) of
        (to_send, c) \<Rightarrow>
          t\<lparr>tg_is_rejected := False, tg_cache := c,
            tg_sent := tg_sent t @ map (draft_request (cb_state (tg_breaker t) = HALF_OPEN) q) to_send\<rparr>)"

definition retry_request :: "int \<Rightarrow> ('p, 'z) spec_req_scheme \<Rightarrow> 'p spectre_request" where
  "retry_request q r =
     (request_new (sq_rid r) DRAFT DRAFT_REQUEST)
       \<lparr>sr_spec_cnt := Some (sq_spec_cnt r), sr_output_ids := Some (sq_output_ids r),
        sr_draft_token_ids := Some [], sr_num_draft_tokens := Some q\<rparr>"

definition mark_waiting :: "('p, 'z) spec_req_scheme list \<Rightarrow> round_cache \<Rightarrow> round_cache" where
  "mark_waiting reqs c =
     foldl (\<lambda>c r. dset (sq_rid r) (dset (sq_spec_cnt r) None (rid_cache c (sq_rid r))) c) c
       (filter (\<lambda>r. \<not> health_check r) reqs)"

text \<open>\<open>retry_drafts_for_reqs\<close>; \<open>arrived\<close> maps the scheduler after sending to what the wait collects.\<close>

definition retry_drafts_for_reqs ::
    "int \<Rightarrow> int \<Rightarrow> ('p target_sched \<Rightarrow> 'p spectre_request list) \<Rightarrow> ('p, 'z) spec_req_scheme list \<Rightarrow> 'p target_sched
      \<Rightarrow> (string, drafts) dict \<times> 'p target_sched" where
  "retry_drafts_for_reqs num_steps forward_ct arrived reqs t =
     (if reqs = [] then ([], t)
      else
       let t1 = t\<lparr>tg_cache := mark_waiting reqs (tg_cache t),
                  tg_sent := tg_sent t @ map (retry_request (max 1 (num_steps + 1 - 1)))
                    (filter (\<lambda>r. \<not> health_check r) reqs)\<rparr>;
           t2 = snd (store_messages forward_ct (arrived t1) t1)
       in case build_result_from_cache reqs (tg_cache t2) of (res, c) \<Rightarrow> (res, t2\<lparr>tg_cache := c\<rparr>))"

definition notify_finished :: "spectre_action \<Rightarrow> ('p, 'z) spec_req_scheme \<Rightarrow> 'p target_sched \<Rightarrow> 'p target_sched" where
  "notify_finished act r t =
     (if health_check r then t
      else t\<lparr>tg_sent := tg_sent t @ [(request_new (sq_rid r) act DRAFT_REQUEST)
               \<lparr>sr_spec_cnt := Some (sq_spec_cnt r), sr_input_ids := Some [], sr_output_ids := Some [],
                sr_draft_token_ids := Some [], sr_num_draft_tokens := Some 0\<rparr>],
             tg_cache := ddel (sq_rid r) (tg_cache t)\<rparr>)"

section \<open>Receiving the drafts of a batch\<close>

text \<open>
  \<open>recv_drafts_for_batch\<close> over the requests that wait for drafts: the result, the requests that
  miss theirs, and whether the timeout is fatal.  Latency statistics go to the runtime.
\<close>

definition recv_drafts_for_batch ::
    "int \<Rightarrow> bool \<Rightarrow> string \<Rightarrow> int \<Rightarrow> 'p spectre_request list \<Rightarrow> ('p, 'z) spec_req_scheme list \<Rightarrow> 'p target_sched
      \<Rightarrow> ((string, drafts) dict \<times> string list) res \<times> 'p target_sched" where
  "recv_drafts_for_batch forward_ct require_draft action requested_q msgs reqs t =
     (let t1 = snd (store_messages forward_ct msgs t) in
      case build_result_from_cache reqs (tg_cache t1) of
        (res, c) \<Rightarrow>
         (let t2 = t1\<lparr>tg_cache := c\<rparr>;
              missing = map sq_rid (filter (\<lambda>r. dget res (sq_rid r) = None) reqs)
          in if reqs = [] then (Inr (res, []), t2)
             else if missing = [] then (Inr (res, []), t2\<lparr>tg_breaker := record_success (tg_breaker t2)\<rparr>)
             else
              let t3 = t2\<lparr>tg_breaker := record_failure (tg_breaker t2)\<rparr>
              in if \<not> 1 < requested_q then (Inr (res, missing), t3)
                 else case should_fail_fast_on_draft_timeout require_draft action of
                        Inl e \<Rightarrow> (Inl e, t3)
                      | Inr True \<Rightarrow> (Inl RuntimeError, t3)
                      | Inr False \<Rightarrow> (Inr (res, missing), t3)))"

text \<open>The marker a missing draft leaves on its request, and its consumption by the next batch.\<close>

definition mark_missing :: "string list \<Rightarrow> ('p, 'z) spec_req_scheme list \<Rightarrow> ('p, 'z) spec_req_scheme list" where
  "mark_missing missing reqs =
     map (\<lambda>r. if sq_rid r \<in> set missing then r\<lparr>sq_force_normal_decode := True\<rparr> else r) reqs"

definition consume_request_timeout_fallback ::
    "('p, 'z) spec_req_scheme list \<Rightarrow> bool \<times> ('p, 'z) spec_req_scheme list" where
  "consume_request_timeout_fallback reqs =
     (list_ex sq_force_normal_decode reqs, map (\<lambda>r. r\<lparr>sq_force_normal_decode := False\<rparr>) reqs)"

definition decide_verify_num_draft_tokens ::
    "bool \<Rightarrow> int \<Rightarrow> string \<Rightarrow> int \<Rightarrow> real \<Rightarrow> ('p, 'z) spec_req_scheme list \<Rightarrow> 'p target_sched \<Rightarrow> int" where
  "decide_verify_num_draft_tokens is_extend num_draft_tokens mode requested_q ratio reqs t =
     (if is_extend then num_draft_tokens
      else if tg_is_rejected t then 1
      else choose_ready_verify_horizon mode requested_q (int (length reqs))
             (int (length (filter (\<lambda>r. \<not> health_check r \<and> sq_cur_drafts r = []) reqs))) ratio)"

section \<open>The worker after a forward pass\<close>

definition default_draft :: drafts where
  "default_draft = ([0], [0])"

definition apply_drafts_to_req :: "int \<Rightarrow> drafts option \<Rightarrow> bool \<Rightarrow> ('p, 'z) spec_req_scheme \<Rightarrow> ('p, 'z) spec_req_scheme" where
  "apply_drafts_to_req verified_token drafts skip_d0 r =
     (let none = r\<lparr>sq_cur_drafts := [], sq_draft_dict := default_draft\<rparr> in
      case drafts of
        None \<Rightarrow> none
      | Some ([], _) \<Rightarrow> none
      | Some (t # ts, lps) \<Rightarrow>
          if \<not> skip_d0 then r\<lparr>sq_cur_drafts := t # ts, sq_draft_dict := (t # ts, lps)\<rparr>
          else if t = verified_token then r\<lparr>sq_cur_drafts := ts, sq_draft_dict := (ts, drop 1 lps)\<rparr>
          else none)"

fun verify_fork_loop :: "int list \<Rightarrow> int list \<Rightarrow> nat \<Rightarrow> bool \<times> nat" where
  "verify_fork_loop (v # vs) (d # ds) n = (if v \<noteq> d then (False, n) else verify_fork_loop vs ds (Suc n))"
| "verify_fork_loop [] (d # ds) n = (False, n)"
| "verify_fork_loop vs [] n = (True, n)"

text \<open>\<open>_find_fork_point\<close> of the worker: the drafts match when all of them were verified.\<close>

definition verify_fork_point :: "int list \<Rightarrow> int list \<Rightarrow> bool \<times> nat" where
  "verify_fork_point verified drafted =
     (if verified = [] \<or> drafted = [] then (False, 0) else verify_fork_loop verified drafted 0)"

text \<open>One request of \<open>_post_verify_update_drafts\<close>: the request and whether it failed.\<close>

definition post_verify_one :: "(string, drafts) dict \<Rightarrow> ('p, 'z) spec_req_scheme \<Rightarrow> (('p, 'z) spec_req_scheme \<times> bool) res" where
  "post_verify_one new_drafts r =
     (let none = r\<lparr>sq_cur_drafts := [], sq_draft_dict := default_draft\<rparr>;
          done = (\<lambda>r. r\<lparr>sq_spec_cnt := sq_spec_cnt r + 1, sq_len_output_ids := int (length (sq_output_ids r))\<rparr>)
      in if health_check r then Inr (r, False)
         else case dget new_drafts (sq_rid r) of
           None \<Rightarrow> Inr (done none, True)
         | Some ([], _) \<Rightarrow> Inl IndexError
         | Some (t # ts, lps) \<Rightarrow>
            (case verify_fork_point (slice_from (sq_output_ids r) (sq_len_output_ids r)) (sq_cur_drafts r @ [t]) of
               (matched, k) \<Rightarrow>
                (let r1 = r\<lparr>sq_draft_cnt := sq_draft_cnt r + int (length (sq_cur_drafts r)) + 1,
                            sq_accept_cnt := sq_accept_cnt r + int k\<rparr>
                 in if matched then Inr (done (r1\<lparr>sq_cur_drafts := ts, sq_draft_dict := (ts, drop 1 lps)\<rparr>), False)
                    else Inr (done (r1\<lparr>sq_cur_drafts := [], sq_draft_dict := default_draft\<rparr>), True))))"

definition ordinary_one :: "('p, 'z) spec_req_scheme \<Rightarrow> ('p, 'z) spec_req_scheme" where
  "ordinary_one r =
     (if health_check r then r
      else r\<lparr>sq_cur_drafts := [], sq_draft_dict := default_draft, sq_spec_cnt := sq_spec_cnt r + 1,
             sq_len_output_ids := int (length (sq_output_ids r))\<rparr>)"

text \<open>\<open>_post_verify_update_drafts\<close>; \<open>retry\<close> answers the retried requests, when a retry function is set.\<close>

definition post_verify_update_drafts ::
    "bool \<Rightarrow> (('p, 'z) spec_req_scheme list \<Rightarrow> (string, drafts) dict) option \<Rightarrow> real \<Rightarrow> int
      \<Rightarrow> (string, drafts) dict \<Rightarrow> ('p, 'z) spec_req_scheme list \<Rightarrow> ('p, 'z) spec_req_scheme list res" where
  "post_verify_update_drafts ordinary retry ratio min_count new_drafts reqs =
     (if ordinary then Inr (map ordinary_one reqs)
      else rbind (rmap (post_verify_one new_drafts) reqs) (\<lambda>rs.
        let failed = map fst (filter snd rs);
            bsz = int (length (filter (\<lambda>r. \<not> health_check r) reqs))
        in case retry of
             Some f \<Rightarrow>
               if should_retry_missing_drafts (int (length failed)) bsz ratio min_count
               then let ans = f failed
                    in Inr (map (\<lambda>(r, b). if b then (apply_drafts_to_req (-1) (dget ans (sq_rid r)) False r)
                                \<lparr>sq_spec_cnt := sq_spec_cnt r + 1\<rparr> else r) rs)
               else Inr (map fst rs)
           | None \<Rightarrow> Inr (map fst rs)))"

definition finish_normal_decode_bookkeeping ::
    "string \<Rightarrow> int \<Rightarrow> drafts option \<Rightarrow> ('p, 'z) spec_req_scheme \<Rightarrow> ('p, 'z) spec_req_scheme" where
  "finish_normal_decode_bookkeeping role token drafts r =
     (if role = ''draft'' then r\<lparr>sq_len_output_ids := int (length (sq_output_ids r))\<rparr>
      else let r1 = apply_drafts_to_req token drafts True r
           in r1\<lparr>sq_spec_cnt := sq_spec_cnt r1 + 1, sq_len_output_ids := int (length (sq_output_ids r1))\<rparr>)"

text \<open>One request of \<open>_recv_drafts_after_extend\<close> that is not skipped.\<close>

definition after_extend_drafts :: "int option \<Rightarrow> drafts option \<Rightarrow> ('p, 'z) spec_req_scheme \<Rightarrow> ('p, 'z) spec_req_scheme" where
  "after_extend_drafts token drafts r =
     (let r1 = (case token of Some v \<Rightarrow> apply_drafts_to_req v drafts True r
                | None \<Rightarrow> r\<lparr>sq_cur_drafts := [], sq_draft_dict := default_draft\<rparr>)
      in r1\<lparr>sq_spec_cnt := sq_spec_cnt r1 + 1, sq_len_output_ids := int (length (sq_output_ids r1)) + 1\<rparr>)"


section \<open>Properties\<close>

subsection \<open>The circuit breaker\<close>

text \<open>The state after a number of rounds in which only \<open>should_send\<close> is asked.\<close>

fun ask :: "nat \<Rightarrow> circuit_breaker \<Rightarrow> circuit_breaker" where
  "ask 0 b = b"
| "ask (Suc n) b = snd (should_send (ask n b))"

lemma ask_open:
  assumes "cb_state b = OPEN" and "cb_rounds_in_open b + int n < cb_cooldown_rounds b"
  shows "ask n b = b\<lparr>cb_rounds_in_open := cb_rounds_in_open b + int n\<rparr>"
  using assms(2)
proof (induction n)
  case (Suc n)
  then have IH: "ask n b = b\<lparr>cb_rounds_in_open := cb_rounds_in_open b + int n\<rparr>" by simp
  show ?case using Suc.prems assms(1) by (simp add: IH should_send_def Let_def)
qed simp

inductive breaker_step :: "circuit_breaker \<Rightarrow> circuit_breaker \<Rightarrow> bool" where
  breaker_ask: "breaker_step b (snd (should_send b))"
| breaker_ok: "breaker_step b (record_success b)"
| breaker_fail: "breaker_step b (record_failure b)"

definition breaker_init :: "circuit_breaker \<Rightarrow> bool" where
  "breaker_init b \<longleftrightarrow> (\<exists>t c. b = breaker_new t c)"

text \<open>An open breaker has waited less than its cooldown, and none but an open one has skipped a round.\<close>

definition breaker_ok_state :: "circuit_breaker \<Rightarrow> bool" where
  "breaker_ok_state b \<longleftrightarrow> 0 \<le> cb_consecutive_failures b \<and> 0 \<le> cb_rounds_in_open b
     \<and> (cb_state b = OPEN \<longrightarrow> cb_rounds_in_open b < max 1 (cb_cooldown_rounds b))
     \<and> (cb_state b = CLOSED \<longrightarrow> cb_rounds_in_open b = 0
          \<and> (0 < cb_consecutive_failures b \<longrightarrow> cb_consecutive_failures b < cb_failure_threshold b))"

interpretation breaker: invariant_system breaker_init breaker_step breaker_ok_state
proof
  fix b show "breaker_init b \<Longrightarrow> breaker_ok_state b"
    by (auto simp: breaker_init_def breaker_new_def breaker_ok_state_def)
next
  fix b c assume ok: "breaker_ok_state b" and "breaker_step b c"
  from this(2) show "breaker_ok_state c"
  proof cases
    case breaker_ask
    with ok show ?thesis
      by (cases "cb_state b") (auto simp: should_send_def Let_def breaker_ok_state_def)
  next
    case breaker_ok
    with ok show ?thesis by (simp add: record_success_def breaker_ok_state_def)
  next
    case breaker_fail
    with ok show ?thesis
      by (cases "cb_state b") (auto simp: record_failure_def Let_def breaker_ok_state_def)
  qed
qed

text \<open>
  C23: the circuit breaker always probes again.  In every state the breaker reaches, the drafts are
  asked for after at most \<open>max 1 cooldown_rounds\<close> rounds without an answer, and it is open
  only after \<open>failure_threshold\<close> consecutive failures or a failed probe: while it is closed with
  failures behind it, they are fewer than the threshold.
\<close>

theorem breaker_probes_again:
  assumes "reaches breaker_init breaker_step b"
  shows "(\<exists>n. int n < max 1 (cb_cooldown_rounds b) \<and> fst (should_send (ask n b)))
    \<and> (cb_state b = CLOSED \<and> 0 < cb_consecutive_failures b \<longrightarrow>
         cb_consecutive_failures b < cb_failure_threshold b)"
proof -
  have ok: "breaker_ok_state b" by (rule breaker.reaches_inv [OF assms])
  have "\<exists>n. int n < max 1 (cb_cooldown_rounds b) \<and> fst (should_send (ask n b))"
  proof (cases "cb_state b = OPEN")
    case False
    then have "fst (should_send (ask 0 b))" by (cases "cb_state b") (simp_all add: should_send_def)
    then show ?thesis by (intro exI [of _ 0]) simp
  next
    case True
    define n where "n = nat (cb_cooldown_rounds b - 1 - cb_rounds_in_open b)"
    have r: "0 \<le> cb_rounds_in_open b" "cb_rounds_in_open b < max 1 (cb_cooldown_rounds b)"
      using ok True by (simp_all add: breaker_ok_state_def)
    have "ask n b = b\<lparr>cb_rounds_in_open := cb_rounds_in_open b + int n\<rparr>"
    proof (cases "1 \<le> cb_cooldown_rounds b")
      case c: True
      then show ?thesis using r by (intro ask_open [OF True]) (simp add: n_def)
    next
      case False
      then have "n = 0" using r by (simp add: n_def)
      then show ?thesis by simp
    qed
    then have "fst (should_send (ask n b))" using True r by (simp add: should_send_def Let_def n_def)
    moreover have "int n < max 1 (cb_cooldown_rounds b)" using r by (auto simp: n_def)
    ultimately show ?thesis by blast
  qed
  with ok show ?thesis by (simp add: breaker_ok_state_def)
qed

theorem breaker_probes_again_witness:
  "\<exists>n. int n < 100 \<and> fst (should_send (ask n (record_failure (breaker_new 1 100))))"
proof -
  have "reaches breaker_init breaker_step (breaker_new 1 100)"
    by (rule reaches_init) (auto simp: breaker_init_def)
  then have "reaches breaker_init breaker_step (record_failure (breaker_new 1 100))"
    by (rule reaches_step) (rule breaker_fail)
  from breaker_probes_again [OF this] show ?thesis by (simp add: record_failure_def breaker_new_def Let_def)
qed

subsection \<open>The round cache\<close>

lemma rid_cache_dset [simp]: "rid_cache (dset rid rc c) q = (if q = rid then rc else rid_cache c q)"
  by (simp add: rid_cache_def)

lemma rid_cache_get: "dget c rid = Some rc \<Longrightarrow> rid_cache c rid = rc"
  by (simp add: rid_cache_def dget_or_def)

text \<open>Whether a round of a request is asked for, and its answer.\<close>

definition asked :: "round_cache \<Rightarrow> string \<Rightarrow> int \<Rightarrow> bool" where
  "asked c rid n \<longleftrightarrow> dget (rid_cache c rid) n \<noteq> None"

definition answer_of :: "round_cache \<Rightarrow> string \<Rightarrow> int \<Rightarrow> drafts option" where
  "answer_of c rid n = (case dget (rid_cache c rid) n of Some e \<Rightarrow> e | None \<Rightarrow> None)"

lemma filter_key_dget: "dget (filter (\<lambda>(k, _). P k) d) k = (if P k then dget d k else None)"
  by (induction d) (auto)

lemma take_from_cache_eq:
  "fst (take_from_cache rid sc c) = answer_of c rid sc"
  "asked (snd (take_from_cache rid sc c)) q n \<longleftrightarrow> asked c q n \<and> (q = rid \<longrightarrow> sc \<le> n \<and> (n = sc \<longrightarrow> answer_of c rid sc = None))"
  "answer_of (snd (take_from_cache rid sc c)) q n = (if q = rid \<and> n \<le> sc then None else answer_of c q n)"
  by (auto simp: take_from_cache_def asked_def answer_of_def Let_def rid_cache_def dget_or_def filter_key_dget
      split: option.splits if_splits) (metis option.exhaust surj_pair)+

lemma store_one_cache:
  defines "good m t \<equiv> sr_action m = DRAFT \<and> should_store_draft_message m t"
  shows "asked (tg_cache (snd (store_one fc (h, t) m))) rid n \<longleftrightarrow> asked (tg_cache t) rid n"
    and "answer_of (tg_cache (snd (store_one fc (h, t) m))) rid n = Some e \<Longrightarrow>
      answer_of (tg_cache t) rid n = Some e \<or> sr_action m = DRAFT \<and> sr_request_id m = rid \<and> sr_spec_cnt m = Some n
        \<and> asked (tg_cache t) rid n \<and> sr_draft_token_ids m = Some (fst e) \<or> sr_draft_token_ids m = None"
  by (auto simp: store_one_def asked_def answer_of_def process_reject_action_def should_store_draft_message_def
      rid_cache_def dget_or_def Let_def split: if_splits option.splits)

lemma store_messages_cache:
  shows "asked (tg_cache (snd (store_messages fc msgs t))) rid n \<longleftrightarrow> asked (tg_cache t) rid n"
    and "answer_of (tg_cache (snd (store_messages fc msgs t))) rid n = Some e \<Longrightarrow>
      \<forall>m \<in> set msgs. sr_draft_token_ids m \<noteq> None \<Longrightarrow>
      answer_of (tg_cache t) rid n = Some e \<or> (\<exists>m \<in> set msgs. sr_action m = DRAFT \<and> sr_request_id m = rid
        \<and> sr_spec_cnt m = Some n \<and> sr_draft_token_ids m = Some (fst e)) \<and> asked (tg_cache t) rid n"
proof -
  have A: "asked (tg_cache (snd (foldl (store_one fc) acc msgs))) rid n \<longleftrightarrow> asked (tg_cache (snd acc)) rid n" for acc
  proof (induction msgs arbitrary: acc)
    case (Cons m msgs)
    obtain h u where "acc = (h, u)" by force
    then show ?case using Cons.IH [of "store_one fc acc m"] store_one_cache(1) [of fc h u m rid n] by simp
  qed simp
  then show "asked (tg_cache (snd (store_messages fc msgs t))) rid n \<longleftrightarrow> asked (tg_cache t) rid n"
    by (simp add: store_messages_def)
  have B: "answer_of (tg_cache (snd (foldl (store_one fc) acc msgs))) rid n = Some e \<Longrightarrow>
      \<forall>m \<in> set msgs. sr_draft_token_ids m \<noteq> None \<Longrightarrow>
      answer_of (tg_cache (snd acc)) rid n = Some e \<or> (\<exists>m \<in> set msgs. sr_action m = DRAFT \<and> sr_request_id m = rid
        \<and> sr_spec_cnt m = Some n \<and> sr_draft_token_ids m = Some (fst e)) \<and> asked (tg_cache (snd acc)) rid n" for acc
  proof (induction msgs arbitrary: acc)
    case (Cons m msgs)
    obtain h u where acc: "acc = (h, u)" by force
    from Cons.IH [of "store_one fc acc m"] Cons.prems
    consider "answer_of (tg_cache (snd (store_one fc acc m))) rid n = Some e"
      | "\<exists>m \<in> set msgs. sr_action m = DRAFT \<and> sr_request_id m = rid \<and> sr_spec_cnt m = Some n
          \<and> sr_draft_token_ids m = Some (fst e)" "asked (tg_cache (snd (store_one fc acc m))) rid n"
      by auto
    then show ?case
    proof cases
      case 1
      with store_one_cache(2) [of fc h u m rid n e] acc Cons.prems(2) show ?thesis by auto
    next
      case 2
      then show ?thesis using store_one_cache(1) [of fc h u m rid n] acc by auto
    qed
  qed simp
  show "answer_of (tg_cache (snd (store_messages fc msgs t))) rid n = Some e \<Longrightarrow>
      \<forall>m \<in> set msgs. sr_draft_token_ids m \<noteq> None \<Longrightarrow>
      answer_of (tg_cache t) rid n = Some e \<or> (\<exists>m \<in> set msgs. sr_action m = DRAFT \<and> sr_request_id m = rid
        \<and> sr_spec_cnt m = Some n \<and> sr_draft_token_ids m = Some (fst e)) \<and> asked (tg_cache t) rid n"
    using B [of "(False, t)"] by (simp add: store_messages_def)
qed

text \<open>
  C15: a draft is used for the round that asked for it, and once.  What the Target takes for a
  round was sent in an answer to that very round of that request, which it had asked for; after
  it is taken, no later answer to that round or to an older one is stored or used, however often
  and in whatever order the messages arrive.
\<close>

theorem draft_used_once_for_its_round:
  assumes sent: "\<forall>m \<in> set msgs. sr_draft_token_ids m \<noteq> None"
    and fresh: "answer_of (tg_cache t) rid n = None"
    and got: "take_from_cache rid n (tg_cache (snd (store_messages fc msgs t))) = (Some e, c)"
  shows "asked (tg_cache t) rid n
    \<and> (\<exists>m \<in> set msgs. sr_action m = DRAFT \<and> sr_request_id m = rid \<and> sr_spec_cnt m = Some n
         \<and> sr_draft_token_ids m = Some (fst e))
    \<and> (\<forall>k \<le> n. \<forall>msgs'. fst (take_from_cache rid k (tg_cache (snd (store_messages fc msgs' (t\<lparr>tg_cache := c\<rparr>))))) = None)"
proof -
  let ?c1 = "tg_cache (snd (store_messages fc msgs t))"
  have a: "answer_of ?c1 rid n = Some e" using got take_from_cache_eq(1) [of rid n ?c1] by simp
  from store_messages_cache(2) [OF a sent] fresh have
    p: "\<exists>m \<in> set msgs. sr_action m = DRAFT \<and> sr_request_id m = rid \<and> sr_spec_cnt m = Some n
         \<and> sr_draft_token_ids m = Some (fst e)" "asked (tg_cache t) rid n" by auto
  have "c = snd (take_from_cache rid n ?c1)" using got by simp
  then have gone: "\<not> asked c rid k" if "k \<le> n" for k
    using take_from_cache_eq(2) [of rid n ?c1 rid k] a that by auto
  have "answer_of (tg_cache (snd (store_messages fc msgs' (t\<lparr>tg_cache := c\<rparr>)))) rid k = None" if "k \<le> n" for k msgs'
    using store_messages_cache(1) [of fc msgs' "t\<lparr>tg_cache := c\<rparr>" rid k] gone [OF that]
    by (simp add: asked_def answer_of_def)
  with p show ?thesis by (simp add: take_from_cache_eq(1))
qed


definition ex_sched :: "unit target_sched" where
  "ex_sched = \<lparr>tg_cache = [(''a'', [(4, None)])], tg_breaker = breaker_new 30 100, tg_flush_at_us = 0,
     tg_accept_reject = True, tg_is_rejected = False, tg_rejected_forward_ct = 0, tg_sent = []\<rparr>"

definition ex_answer :: "int \<Rightarrow> int list \<Rightarrow> unit spectre_request" where
  "ex_answer n toks = (request_new ''a'' DRAFT DRAFT_RESPONSE)
     \<lparr>sr_spec_cnt := Some n, sr_draft_token_ids := Some toks, sr_draft_logprobs := Some []\<rparr>"

text \<open>A stale answer and the right one arrive; only the right one is taken.\<close>

theorem draft_used_once_for_its_round_witness:
  "take_from_cache ''a'' 4 (tg_cache (snd (store_messages 0 [ex_answer 3 [9], ex_answer 4 [5, 6]] ex_sched)))
       = (Some ([5, 6], []), [(''a'', [])])
     \<and> asked (tg_cache ex_sched) ''a'' 4
     \<and> fst (take_from_cache ''a'' 4
          (tg_cache (snd (store_messages 0 [ex_answer 4 [7]] (ex_sched\<lparr>tg_cache := [(''a'', [])]\<rparr>))))) = None"
proof -
  let ?ms = "[ex_answer 3 [9], ex_answer 4 [5, 6]]"
  have run: "take_from_cache ''a'' 4 (tg_cache (snd (store_messages 0 ?ms ex_sched))) = (Some ([5, 6], []), [(''a'', [])])"
    by (simp add: take_from_cache_def store_messages_def store_one_def should_store_draft_message_def rid_cache_def
        dget_or_def Let_def ex_sched_def ex_answer_def request_new_def AList.delete_eq)
  have "\<forall>m \<in> set ?ms. sr_draft_token_ids m \<noteq> None" "answer_of (tg_cache ex_sched) ''a'' 4 = None"
    by (simp_all add: ex_answer_def ex_sched_def answer_of_def rid_cache_def dget_or_def)
  from draft_used_once_for_its_round [OF this run] run show ?thesis by (meson order_refl)
qed

end
