(* ===== verification/DraftRound.thy ===== *)
theory DraftRound
  imports DraftScheduler TargetScheduler
begin

text \<open>
  One round of parallel speculation across the two processes: the Target sends its tokens and its
  pending drafts, the Drafter answers with the tokens that follow them, the Target verifies the
  pending drafts meanwhile and then decides from the first new draft token whether the rest of
  the answer still applies.  The decision is shown to be exact: the drafts are kept precisely
  when the Target's sequence with them is the Drafter's own sequence, so that the next message
  finds both sides identical.
\<close>

lemma verify_fork_loop_eq: "verify_fork_loop vs ds n = (prefix ds vs, n + length (longest_common_prefix vs ds))"
  by (induction vs ds n rule: verify_fork_loop.induct) auto

lemma verify_fork_point_matched:
  "ds \<noteq> [] \<Longrightarrow> fst (verify_fork_point vs ds) \<longleftrightarrow> prefix ds vs"
  by (auto simp: verify_fork_point_def verify_fork_loop_eq)

lemma note_message_get:
  "dget (dm_reqs d) i = Some x \<Longrightarrow>
     \<exists>y. dget (dm_reqs (note_message now i rid msg d)) i = Some y \<and> draft_fill_ids y = draft_fill_ids x"
  by (cases "sr_input_ids msg") (simp_all add: note_message_def Let_def draft_fill_ids_def)

text \<open>A proper match of as many drafts as verification can yield is an equality.\<close>

lemma prefix_full: "prefix ds vs \<Longrightarrow> length vs \<le> length ds \<Longrightarrow> vs = ds"
  by (auto simp: prefix_def)

text \<open>The request as it was when its round was sent: before the verified tokens \<open>V\<close> were appended.\<close>

definition before_verify :: "nat \<Rightarrow> ('p, 'z) spec_req_scheme \<Rightarrow> ('p, 'z) spec_req_scheme" where
  "before_verify n r = r\<lparr>sq_output_ids := take n (sq_output_ids r)\<rparr>"

lemma post_verify_drafts:
  assumes "\<not> health_check r" and "dget new_drafts (sq_rid r) = Some (D, lps)" and "D \<noteq> []"
  shows "\<exists>r' failed. post_verify_one new_drafts r = Inr (r', failed)
    \<and> sq_output_ids r' = sq_output_ids r \<and> sq_origin_input_ids r' = sq_origin_input_ids r \<and> sq_rid r' = sq_rid r
    \<and> sq_spec_cnt r' = sq_spec_cnt r + 1
    \<and> (failed \<longleftrightarrow> \<not> prefix (sq_cur_drafts r @ [hd D]) (slice_from (sq_output_ids r) (sq_len_output_ids r)))
    \<and> sq_cur_drafts r' = (if failed then [] else tl D)"
proof -
  obtain t ts where D: "D = t # ts" using assms(3) by (cases D) auto
  obtain m k where f: "verify_fork_point (slice_from (sq_output_ids r) (sq_len_output_ids r)) (sq_cur_drafts r @ [t]) = (m, k)"
    by fastforce
  have "m \<longleftrightarrow> prefix (sq_cur_drafts r @ [t]) (slice_from (sq_output_ids r) (sq_len_output_ids r))"
    using verify_fork_point_matched [of "sq_cur_drafts r @ [t]" "slice_from (sq_output_ids r) (sq_len_output_ids r)"] f by simp
  then show ?thesis using assms(1,2) D f
    by (cases m) (auto simp: post_verify_one_def Let_def)
qed

text \<open>
  C13: the Target keeps the rest of an answer exactly when both sides agree.  Let the Drafter's
  tokens be the Target's sequence at sending time followed by its answer \<open>D\<close>, and let
  verification have appended at most one token more than there were pending drafts.  Then the
  bookkeeping after verification reports success if and only if the Target's new sequence with
  the drafts it keeps is the Drafter's sequence; and then the next message of the round, with or
  without the prompt, is handled by the Drafter as identical: no token, slot or queue of the
  re-prefill is touched.
\<close>

theorem kept_drafts_iff_agreement:
  assumes h: "\<not> health_check r" and D: "dget new_drafts (sq_rid r) = Some (D, lps)" "D \<noteq> []"
    and sent: "sq_len_output_ids r = int n" "n \<le> length (sq_output_ids r)"
    and ver: "n < length (sq_output_ids r)" "length (sq_output_ids r) \<le> n + length (sq_cur_drafts r) + 1"
    and fill: "dfill = target_fill_ids (sq_origin_input_ids r) (draft_request ho q (before_verify n r) :: 'p spectre_request) @ D"
  shows "\<exists>r' failed. post_verify_one new_drafts r = Inr (r', failed)
    \<and> (\<not> failed \<longleftrightarrow> target_fill_ids (sq_origin_input_ids r') (draft_request ho' q' r' :: 'p spectre_request) = dfill)
    \<and> (\<not> failed \<longrightarrow> (\<forall>(d :: 'p drafter) s i x rid now max_new. dget (dm_states d) rid = Some s \<and> ds_req_object s = Some i
        \<and> dget (dm_reqs d) i = Some x \<and> draft_fill_ids x = dfill \<and> dfill \<noteq> []
        \<and> ds_target_origin_input_ids s = Some (sq_origin_input_ids r) \<longrightarrow>
        process_message max_new now rid (draft_request ho' q' r') d
          = handle_identical_tokens now i rid (draft_request ho' q' r') (note_message now i rid (draft_request ho' q' r') d)))"
proof -
  let ?C = "sq_cur_drafts r" and ?O = "sq_origin_input_ids r"
  define S where "S = take n (sq_output_ids r)"
  define V where "V = drop n (sq_output_ids r)"
  have out: "sq_output_ids r = S @ V" by (simp add: S_def V_def)
  have lenV: "length V \<le> length ?C + 1" using ver by (simp add: V_def)
  have sl: "slice_from (sq_output_ids r) (sq_len_output_ids r) = V" by (simp add: sent(1) V_def)
  have tf: "target_fill_ids ori (draft_request b q r0 :: 'p spectre_request) = ori @ sq_output_ids r0 @ sq_cur_drafts r0"
    for ori b q and r0 :: "('p, 'z) spec_req_scheme"
    by (simp add: target_fill_ids_def draft_request_def Let_def)
  have df: "dfill = ?O @ S @ ?C @ D" using fill by (simp add: tf before_verify_def S_def)
  obtain r' failed where r': "post_verify_one new_drafts r = Inr (r', failed)"
    "sq_output_ids r' = sq_output_ids r" "sq_origin_input_ids r' = ?O"
    "failed \<longleftrightarrow> \<not> prefix (?C @ [hd D]) V" "sq_cur_drafts r' = (if failed then [] else tl D)"
    using post_verify_drafts [OF h D] unfolding sl by blast
  have new: "target_fill_ids (sq_origin_input_ids r') (draft_request ho' q' r' :: 'p spectre_request)
      = ?O @ S @ V @ (if failed then [] else tl D)" using r' out by (simp add: tf)
  have iff: "\<not> failed \<longleftrightarrow> target_fill_ids (sq_origin_input_ids r') (draft_request ho' q' r' :: 'p spectre_request) = dfill"
  proof
    assume "\<not> failed"
    then have "V = ?C @ [hd D]" using r'(4) prefix_full [of "?C @ [hd D]" V] lenV by simp
    then show "target_fill_ids (sq_origin_input_ids r') (draft_request ho' q' r' :: 'p spectre_request) = dfill"
      using \<open>\<not> failed\<close> D(2) by (simp add: new df)
  next
    assume eq: "target_fill_ids (sq_origin_input_ids r') (draft_request ho' q' r' :: 'p spectre_request) = dfill"
    show "\<not> failed"
    proof
      assume f: "failed"
      then have "V = ?C @ D" using eq new df by simp
      then have "length D \<le> 1" using lenV by simp
      then have "D = [hd D]" using D(2) by (cases D) auto
      then show False using f r'(4) \<open>V = ?C @ D\<close> by (metis prefix_order.refl)
    qed
  qed
  have "process_message max_new now rid (draft_request ho' q' r') d
      = handle_identical_tokens now i rid (draft_request ho' q' r') (note_message now i rid (draft_request ho' q' r') d)"
    if nf: "\<not> failed" and st: "dget (dm_states d) rid = Some s" "ds_req_object s = Some i" "dget (dm_reqs d) i = Some x"
      "draft_fill_ids x = dfill" "dfill \<noteq> []" "ds_target_origin_input_ids s = Some ?O"
    for d :: "'p drafter" and s i x rid now max_new
  proof -
    let ?m = "draft_request ho' q' r' :: 'p spectre_request"
    have tin: "target_input_of ?m s = ?O"
      using st(6) r'(3) by (simp add: target_input_of_def draft_request_def Let_def)
    have t: "target_fill_ids ?O ?m = dfill" using iff nf r'(3) by simp
    obtain y where y: "dget (dm_reqs (note_message now i rid ?m d)) i = Some y" "draft_fill_ids y = dfill"
      using note_message_get [OF st(3), of now rid ?m] st(4) by auto
    have "fork_of (length ?O) dfill dfill = (True, length (longest_common_prefix dfill dfill))"
      using fork_of_eq [of "length ?O" dfill dfill] by simp
    then show ?thesis using st(1,2,5) tin t y by (simp add: process_message_def dispatch_message_def Let_def)
  qed
  with r'(1) iff show ?thesis by blast
qed


text \<open>
  The prompt \<open>[1, 2]\<close>, one token \<open>3\<close> sent with the pending draft \<open>4\<close>; verification accepts it
  and adds \<open>5\<close>, the first token of the answer \<open>[5, 6]\<close>.
\<close>

definition ex_spec :: "unit spec_req" where
  "ex_spec = \<lparr>sq_rid = ''a'', sq_origin_input_ids = [1, 2], sq_output_ids = [3, 4, 5], sq_cur_drafts = [4],
     sq_draft_dict = ([4], [0]), sq_spec_cnt = 2, sq_len_output_ids = 1, sq_draft_cnt = 0, sq_accept_cnt = 0,
     sq_force_normal_decode = False, sq_sampling_params = None\<rparr>"

theorem kept_drafts_iff_agreement_witness:
  "\<exists>r' failed. post_verify_one [(''a'', ([5, 6], [0, 0]))] ex_spec = Inr (r', failed) \<and> \<not> failed
     \<and> target_fill_ids (sq_origin_input_ids r') (draft_request False 3 r' :: unit spectre_request) = [1, 2, 3, 4, 5, 6]"
proof -
  have fill: "[1, 2, 3, 4, 5, 6] = target_fill_ids (sq_origin_input_ids ex_spec)
      (draft_request False 3 (before_verify 1 ex_spec) :: unit spectre_request) @ [5, 6]"
    by (simp add: target_fill_ids_def draft_request_def before_verify_def ex_spec_def Let_def)
  have h: "\<not> health_check ex_spec" by (simp add: ex_spec_def is_health_check_req_def)
  have D: "dget [(''a'', ([5, 6], [0, 0]))] (sq_rid ex_spec) = Some ([5, 6], [0, 0])" "[5, 6] \<noteq> []"
    by (simp_all add: ex_spec_def)
  obtain r' failed where r: "post_verify_one [(''a'', ([5, 6], [0, 0]))] ex_spec = Inr (r', failed)"
    "\<not> failed \<longleftrightarrow> target_fill_ids (sq_origin_input_ids r') (draft_request False 3 r' :: unit spectre_request) = [1, 2, 3, 4, 5, 6]"
    using kept_drafts_iff_agreement [OF h D, of 1 _ False 3 False 3, OF _ _ _ _ fill]
    by (auto simp: ex_spec_def)
  moreover have "post_verify_one [(''a'', ([5, 6], [0, 0]))] ex_spec = Inr (r', failed) \<Longrightarrow> \<not> failed"
    by (auto simp: post_verify_one_def ex_spec_def is_health_check_req_def verify_fork_point_def Let_def)
  ultimately show ?thesis by blast
qed

text \<open>
  C39: an answer without tokens stops the Target.  When the Drafter's queued re-prefill holds the
  Target's sequence and at least as many surplus tokens as are asked for, it answers at once,
  with an empty token list; the bookkeeping after verification then reads the first token of the
  answer and raises an IndexError.
\<close>

theorem empty_answer_raises:
  assumes r: "dget (dm_reqs d) i = Some r" and org: "dq_origin_input_ids r = tfill @ zs" "dq_output_ids r = []"
    and q: "sr_num_draft_tokens msg = Some k" "k \<le> int (length zs)"
    and h: "\<not> health_check x" and rid: "sq_rid x = kr_rid r"
  shows "\<exists>d' resp toks. handle_draft_ahead now i rid tfill (length tfill) kv needs msg d = (Inr (), d')
    \<and> dm_sent d' = dm_sent d @ [resp] \<and> sr_request_id resp = kr_rid r \<and> sr_draft_token_ids resp = Some toks
    \<and> post_verify_one [(sr_request_id resp, (toks, lps))] x = Inl IndexError"
proof -
  define d1 where "d1 = touch_state now rid (upd_req i (\<lambda>x. x\<lparr>dq_start_len := - int (length zs), dq_spec_cnt := sr_spec_cnt msg,
                   dq_tokens_target := sr_num_draft_tokens msg, dq_len_output_ids := 0\<rparr>) d)"
  define d2 where "d2 = pause_req now i rid (send_draft_response i d1)"
  have o1: "dget (dm_reqs d1) i = Some (r\<lparr>dq_start_len := - int (length zs), dq_spec_cnt := sr_spec_cnt msg,
                   dq_tokens_target := sr_num_draft_tokens msg, dq_len_output_ids := 0\<rparr>)" "dm_sent d1 = dm_sent d"
    using r by (simp_all add: d1_def)
  obtain resp where 1: "dm_sent d2 = dm_sent d @ [resp]" "sr_draft_token_ids resp = Some []" "sr_request_id resp = kr_rid r"
    by (simp add: d2_def pause_req_def send_draft_response_def Let_def o1 org slice_from_def request_new_def)
  have 2: "handle_draft_ahead now i rid tfill (length tfill) kv needs msg d = (Inr (), d2)"
    using r q org by (simp add: handle_draft_ahead_def Let_def d2_def d1_def)
  have "post_verify_one [(sr_request_id resp, ([], lps))] x = Inl IndexError"
    using h rid 1(3) by (simp add: post_verify_one_def Let_def)
  with 1 2 show ?thesis by blast
qed

theorem empty_answer_raises_witness:
  "\<exists>d' resp toks. handle_draft_ahead 1 0 ''a'' [1] (length [1 :: int]) 4 True (ex_dmsg [])
       (ex_drafter (ex_draft\<lparr>dq_origin_input_ids := [1, 2, 3, 4], dq_output_ids := []\<rparr>) ex_dmem) = (Inr (), d')
    \<and> dm_sent d' = dm_sent (ex_drafter (ex_draft\<lparr>dq_origin_input_ids := [1, 2, 3, 4], dq_output_ids := []\<rparr>) ex_dmem) @ [resp]
    \<and> sr_request_id resp = kr_rid (ex_draft\<lparr>dq_origin_input_ids := [1, 2, 3, 4], dq_output_ids := []\<rparr>)
    \<and> sr_draft_token_ids resp = Some toks
    \<and> post_verify_one [(sr_request_id resp, (toks, []))] ex_spec = Inl IndexError"
  by (rule empty_answer_raises [where zs = "[2, 3, 4]" and k = 3])
    (simp_all add: ex_draft_defs ex_spec_def is_health_check_req_def)

end
