(* ===== verification/Config.thy ===== *)
theory Config
  imports ResourceProfile
begin

text \<open>
  The configuration of SpecStream (\<open>specstream/config.py\<close>): parsing of the candidate draft
  lengths, the validation of the frozen dataclass and its construction from the server
  arguments, which are a record of already typed values.  The lemmas say what an accepted
  configuration guarantees to the components built from it.
\<close>

section \<open>Candidate draft lengths\<close>

datatype q_value = QText string | QInts "int list"

text \<open>\<open>str.strip()\<close> and \<open>str.split(",")\<close>.\<close>

definition is_space :: "char \<Rightarrow> bool" where
  "is_space c \<longleftrightarrow> (of_char c :: nat) \<in> {9, 10, 11, 12, 13, 28, 29, 30, 31, 32, 133, 160}"

definition py_strip :: "string \<Rightarrow> string" where
  "py_strip s = rev (dropWhile is_space (rev (dropWhile is_space s)))"

fun split_on :: "char \<Rightarrow> string \<Rightarrow> string list" where
  "split_on sep [] = [[]]"
| "split_on sep (c # s) =
     (if c = sep then [] # split_on sep s
      else (case split_on sep s of [] \<Rightarrow> [[c]] | p # ps \<Rightarrow> (c # p) # ps))"

text \<open>
  \<open>int(s)\<close> on a stripped string: an optional sign and decimal digits, where single underscores
  may stand between digits.
\<close>

fun digit_groups :: "string \<Rightarrow> string option" where
  "digit_groups [] = None"
| "digit_groups [c] = (if is_digit c then Some [c] else None)"
| "digit_groups (c # d # s) =
     (if \<not> is_digit c then None
      else if d = CHR ''_'' then map_option (Cons c) (digit_groups s)
      else map_option (Cons c) (digit_groups (d # s)))"

definition int_of_string :: "string \<Rightarrow> int res" where
  "int_of_string s =
     (let parsed =
        (case s of
           [] \<Rightarrow> None
         | c # r \<Rightarrow>
             if c = CHR ''-'' then map_option (\<lambda>ds. - int (read_nat ds)) (digit_groups r)
             else if c = CHR ''+'' then map_option (\<lambda>ds. int (read_nat ds)) (digit_groups r)
             else map_option (\<lambda>ds. int (read_nat ds)) (digit_groups s))
      in case parsed of None \<Rightarrow> Inl ValueError | Some i \<Rightarrow> Inr i)"

definition parse_q_candidates :: "q_value \<Rightarrow> int list res" where
  "parse_q_candidates value =
     rbind (case value of
         QText s \<Rightarrow> rmap int_of_string (filter (\<lambda>item. item \<noteq> []) (map py_strip (split_on (CHR '','') s)))
       | QInts is \<Rightarrow> Inr is) (\<lambda>candidates.
     rbind (raise_first
       [(candidates = [], ValueError),
        (list_ex (\<lambda>item. item < 1) candidates, ValueError),
        (card (set candidates) \<noteq> length candidates, ValueError)]) (\<lambda>_.
     Inr (sort candidates)))"

section \<open>The configuration\<close>

record specstream_config =
  cf_spectre_role :: "string option"
  cf_enabled :: bool
  cf_profile_only :: bool
  cf_full_restore_baseline :: bool
  cf_reference_attention :: bool
  cf_chunk_tokens :: int
  cf_num_buffers :: int
  cf_chunks_per_transfer :: int
  cf_layer_prefetch :: bool
  cf_active_tail_tokens :: int
  cf_min_history_tokens :: int
  cf_cpu_memory_gb :: int
  cf_default_q :: int
  cf_dynamic_q :: bool
  cf_q_candidates :: "int list"
  cf_q_switch_threshold :: real
  cf_coexec_enabled :: bool
  cf_coexec_draft_pressure_ratio :: real
  cf_coexec_timeout_rate_threshold :: real
  cf_coexec_pending_high_watermark :: int
  cf_coexec_compute_ratio_threshold :: real
  cf_coexec_require_mps :: bool
  cf_smctrl_enabled :: bool
  cf_grant_token_quantum :: int
  cf_coexec_target_slowdown_budget :: real
  cf_coexec_guard_us :: real
  cf_coexec_resource_profile_path :: string
  cf_smctrl_library :: string
  cf_smctrl_mask_scope :: string
  cf_smctrl_calibration_tpcs :: int
  cf_smctrl_calibration_allow_overlap :: bool
  cf_smctrl_complementary_partition :: bool
  cf_smctrl_draft_only_parallel :: bool
  cf_tp_straggler_control :: bool
  cf_colocated_tp_rank :: int
  cf_tp_straggler_budget_ms :: real
  cf_target_slowdown_budget :: real
  cf_tp_monitor_interval :: int
  cf_cohort_enabled :: bool
  cf_max_cohort_size :: int
  cf_max_cohort_delay_us :: real
  cf_profile_path :: string
  cf_shadow_attention :: bool
  cf_strict_invariants :: bool

definition config_defaults :: specstream_config where
  "config_defaults = \<lparr>
     cf_spectre_role = None,
     cf_enabled = False,
     cf_profile_only = False,
     cf_full_restore_baseline = False,
     cf_reference_attention = True,
     cf_chunk_tokens = 2048,
     cf_num_buffers = 2,
     cf_chunks_per_transfer = 4,
     cf_layer_prefetch = True,
     cf_active_tail_tokens = 512,
     cf_min_history_tokens = 8192,
     cf_cpu_memory_gb = 128,
     cf_default_q = 5,
     cf_dynamic_q = False,
     cf_q_candidates = [1, 2, 4, 6, 8],
     cf_q_switch_threshold = 2 / 25,
     cf_coexec_enabled = False,
     cf_coexec_draft_pressure_ratio = 4 / 5,
     cf_coexec_timeout_rate_threshold = 1 / 10,
     cf_coexec_pending_high_watermark = 16,
     cf_coexec_compute_ratio_threshold = 9 / 10,
     cf_coexec_require_mps = False,
     cf_smctrl_enabled = False,
     cf_grant_token_quantum = 1,
     cf_coexec_target_slowdown_budget = 1 / 20,
     cf_coexec_guard_us = 200,
     cf_coexec_resource_profile_path = ''specstream_resource_profile.json'',
     cf_smctrl_library = '''',
     cf_smctrl_mask_scope = ''stream'',
     cf_smctrl_calibration_tpcs = 0,
     cf_smctrl_calibration_allow_overlap = False,
     cf_smctrl_complementary_partition = False,
     cf_smctrl_draft_only_parallel = False,
     cf_tp_straggler_control = False,
     cf_colocated_tp_rank = 0,
     cf_tp_straggler_budget_ms = 1,
     cf_target_slowdown_budget = 1 / 10,
     cf_tp_monitor_interval = 8,
     cf_cohort_enabled = False,
     cf_max_cohort_size = 8,
     cf_max_cohort_delay_us = 200,
     cf_profile_path = ''specstream_profile.csv'',
     cf_shadow_attention = False,
     cf_strict_invariants = True \<rparr>"

definition cpu_memory_bytes :: "specstream_config \<Rightarrow> int" where
  "cpu_memory_bytes c = cf_cpu_memory_gb c * 1024 ^ 3"

definition control_runtime_enabled :: "specstream_config \<Rightarrow> bool" where
  "control_runtime_enabled c \<longleftrightarrow> cf_enabled c \<or> cf_profile_only c"

text \<open>The guards of \<open>__post_init__\<close> in order; all raise \<open>ValueError\<close>.\<close>

definition range_violations :: "specstream_config \<Rightarrow> bool list" where
  "range_violations c =
     [cf_enabled c \<and> cf_profile_only c,
      cf_chunk_tokens c < 1,
      cf_num_buffers c < 1,
      cf_chunks_per_transfer c < 1,
      cf_active_tail_tokens c < 0,
      cf_min_history_tokens c < 0,
      cf_cpu_memory_gb c < 1,
      cf_default_q c < 1,
      \<not> (0 \<le> cf_q_switch_threshold c \<and> cf_q_switch_threshold c < 1),
      \<not> (0 < cf_coexec_draft_pressure_ratio c \<and> cf_coexec_draft_pressure_ratio c \<le> 1),
      \<not> (0 \<le> cf_coexec_timeout_rate_threshold c \<and> cf_coexec_timeout_rate_threshold c \<le> 1),
      cf_coexec_pending_high_watermark c < 1,
      \<not> (0 < cf_coexec_compute_ratio_threshold c \<and> cf_coexec_compute_ratio_threshold c \<le> 1),
      cf_grant_token_quantum c \<noteq> 1,
      \<not> (0 \<le> cf_coexec_target_slowdown_budget c \<and> cf_coexec_target_slowdown_budget c \<le> 1),
      cf_coexec_guard_us c < 0,
      cf_smctrl_calibration_tpcs c < 0]"

definition smctrl_violations :: "specstream_config \<Rightarrow> bool list" where
  "smctrl_violations c =
     [cf_smctrl_mask_scope c \<notin> {''stream'', ''global''},
      cf_smctrl_complementary_partition c \<and> \<not> cf_smctrl_enabled c,
      cf_smctrl_complementary_partition c \<and> cf_smctrl_mask_scope c \<noteq> ''global'',
      cf_smctrl_draft_only_parallel c \<and> \<not> cf_smctrl_enabled c,
      cf_smctrl_draft_only_parallel c \<and> cf_smctrl_complementary_partition c,
      cf_smctrl_calibration_allow_overlap c \<and> cf_smctrl_calibration_tpcs c < 1,
      cf_smctrl_enabled c \<and> cf_smctrl_calibration_tpcs c < 1 \<and> cf_coexec_resource_profile_path c = [],
      cf_colocated_tp_rank c < 0,
      cf_tp_straggler_budget_ms c < 0,
      cf_target_slowdown_budget c < 0,
      cf_tp_monitor_interval c < 1,
      cf_max_cohort_size c < 1,
      cf_max_cohort_delay_us c < 0]"

definition mode_violations :: "specstream_config \<Rightarrow> bool list" where
  "mode_violations c =
     [cf_cohort_enabled c \<and> \<not> cf_enabled c,
      cf_dynamic_q c \<and> \<not> control_runtime_enabled c,
      cf_coexec_enabled c \<and> \<not> control_runtime_enabled c,
      cf_smctrl_enabled c \<and> cf_spectre_role c \<noteq> Some ''draft'' \<and> \<not> control_runtime_enabled c,
      cf_tp_straggler_control c \<and> \<not> control_runtime_enabled c,
      cf_full_restore_baseline c \<and> \<not> cf_enabled c]"

definition config_new :: "specstream_config \<Rightarrow> specstream_config res" where
  "config_new c =
     rbind (raise_first (map (\<lambda>b. (b, ValueError)) (range_violations c @ smctrl_violations c))) (\<lambda>_.
     rbind (parse_q_candidates (QInts (cf_q_candidates c))) (\<lambda>_.
     rbind (raise_first (map (\<lambda>b. (b, ValueError)) (mode_violations c))) (\<lambda>_.
     Inr c)))"

section \<open>Construction from the server arguments\<close>

record server_args =
  sv_speculative_algorithm :: "string option"
  sv_spectre_role :: "string option"
  sv_specstream_enabled :: bool
  sv_specstream_profile_only :: bool
  sv_specstream_full_restore_baseline :: bool
  sv_specstream_reference_attention :: bool
  sv_specstream_chunk_tokens :: int
  sv_specstream_num_buffers :: int
  sv_specstream_chunks_per_transfer :: int
  sv_specstream_layer_prefetch :: bool
  sv_specstream_active_tail_tokens :: int
  sv_specstream_min_history_tokens :: int
  sv_specstream_cpu_memory_gb :: int
  sv_speculative_num_steps :: int
  sv_specstream_dynamic_q :: bool
  sv_specstream_q_candidates :: q_value
  sv_specstream_q_switch_threshold :: real
  sv_specstream_coexec_enabled :: bool
  sv_specstream_coexec_draft_pressure_ratio :: real
  sv_specstream_coexec_timeout_rate_threshold :: real
  sv_specstream_coexec_pending_high_watermark :: int
  sv_specstream_coexec_compute_ratio_threshold :: real
  sv_specstream_coexec_require_mps :: bool
  sv_specstream_smctrl_enabled :: bool
  sv_specstream_grant_token_quantum :: int
  sv_specstream_coexec_target_slowdown_budget :: real
  sv_specstream_coexec_guard_us :: real
  sv_specstream_coexec_resource_profile_path :: string
  sv_specstream_smctrl_library :: string
  sv_specstream_smctrl_mask_scope :: string
  sv_specstream_smctrl_calibration_tpcs :: int
  sv_specstream_smctrl_calibration_allow_overlap :: bool
  sv_specstream_smctrl_complementary_partition :: bool
  sv_specstream_smctrl_draft_only_parallel :: bool
  sv_specstream_tp_straggler_control :: bool
  sv_specstream_colocated_tp_rank :: int
  sv_specstream_tp_straggler_budget_ms :: real
  sv_specstream_target_slowdown_budget :: real
  sv_specstream_tp_monitor_interval :: int
  sv_specstream_cohort_enabled :: bool
  sv_specstream_max_cohort_size :: int
  sv_specstream_max_cohort_delay_us :: real
  sv_specstream_profile_path :: string
  sv_specstream_shadow_attention :: bool
  sv_specstream_strict_invariants :: bool

definition should_initialize_drafter_smctrl :: "server_args \<Rightarrow> bool" where
  "should_initialize_drafter_smctrl args \<longleftrightarrow>
     sv_specstream_smctrl_enabled args \<and> sv_speculative_algorithm args = Some ''SPECTRE''
   \<and> sv_spectre_role args = Some ''draft''"

definition from_server_args :: "server_args \<Rightarrow> specstream_config res" where
  "from_server_args args =
     rbind (parse_q_candidates (sv_specstream_q_candidates args)) (\<lambda>candidates.
       config_new \<lparr>
          cf_spectre_role = sv_spectre_role args,
          cf_enabled = sv_specstream_enabled args,
          cf_profile_only = sv_specstream_profile_only args,
          cf_full_restore_baseline = sv_specstream_full_restore_baseline args,
          cf_reference_attention = sv_specstream_reference_attention args,
          cf_chunk_tokens = sv_specstream_chunk_tokens args,
          cf_num_buffers = sv_specstream_num_buffers args,
          cf_chunks_per_transfer = sv_specstream_chunks_per_transfer args,
          cf_layer_prefetch = sv_specstream_layer_prefetch args,
          cf_active_tail_tokens = sv_specstream_active_tail_tokens args,
          cf_min_history_tokens = sv_specstream_min_history_tokens args,
          cf_cpu_memory_gb = sv_specstream_cpu_memory_gb args,
          cf_default_q = sv_speculative_num_steps args + 1,
          cf_dynamic_q = sv_specstream_dynamic_q args,
          cf_q_candidates = candidates,
          cf_q_switch_threshold = sv_specstream_q_switch_threshold args,
          cf_coexec_enabled = sv_specstream_coexec_enabled args,
          cf_coexec_draft_pressure_ratio = sv_specstream_coexec_draft_pressure_ratio args,
          cf_coexec_timeout_rate_threshold = sv_specstream_coexec_timeout_rate_threshold args,
          cf_coexec_pending_high_watermark = sv_specstream_coexec_pending_high_watermark args,
          cf_coexec_compute_ratio_threshold = sv_specstream_coexec_compute_ratio_threshold args,
          cf_coexec_require_mps = sv_specstream_coexec_require_mps args,
          cf_smctrl_enabled = sv_specstream_smctrl_enabled args,
          cf_grant_token_quantum = sv_specstream_grant_token_quantum args,
          cf_coexec_target_slowdown_budget = sv_specstream_coexec_target_slowdown_budget args,
          cf_coexec_guard_us = sv_specstream_coexec_guard_us args,
          cf_coexec_resource_profile_path = sv_specstream_coexec_resource_profile_path args,
          cf_smctrl_library = sv_specstream_smctrl_library args,
          cf_smctrl_mask_scope = sv_specstream_smctrl_mask_scope args,
          cf_smctrl_calibration_tpcs = sv_specstream_smctrl_calibration_tpcs args,
          cf_smctrl_calibration_allow_overlap = sv_specstream_smctrl_calibration_allow_overlap args,
          cf_smctrl_complementary_partition = sv_specstream_smctrl_complementary_partition args,
          cf_smctrl_draft_only_parallel = sv_specstream_smctrl_draft_only_parallel args,
          cf_tp_straggler_control = sv_specstream_tp_straggler_control args,
          cf_colocated_tp_rank = sv_specstream_colocated_tp_rank args,
          cf_tp_straggler_budget_ms = sv_specstream_tp_straggler_budget_ms args,
          cf_target_slowdown_budget = sv_specstream_target_slowdown_budget args,
          cf_tp_monitor_interval = sv_specstream_tp_monitor_interval args,
          cf_cohort_enabled = sv_specstream_cohort_enabled args,
          cf_max_cohort_size = sv_specstream_max_cohort_size args,
          cf_max_cohort_delay_us = sv_specstream_max_cohort_delay_us args,
          cf_profile_path = sv_specstream_profile_path args,
          cf_shadow_attention = sv_specstream_shadow_attention args,
          cf_strict_invariants = sv_specstream_strict_invariants args \<rparr>)"

section \<open>The text form of the candidates\<close>

text \<open>\<open>sep.join(parts)\<close>.\<close>

fun join_with :: "char \<Rightarrow> string list \<Rightarrow> string" where
  "join_with sep [] = []"
| "join_with sep [p] = p"
| "join_with sep (p # q # ps) = p @ sep # join_with sep (q # ps)"

lemma split_on_append: "sep \<notin> set p \<Longrightarrow> split_on sep (p @ sep # s) = p # split_on sep s"
  by (induction p) auto

lemma split_on_plain: "sep \<notin> set p \<Longrightarrow> split_on sep p = [p]"
  by (induction p) auto

lemma split_on_join:
  "ps \<noteq> [] \<Longrightarrow> \<forall>p \<in> set ps. sep \<notin> set p \<Longrightarrow> split_on sep (join_with sep ps) = ps"
  by (induction sep ps rule: join_with.induct) (simp_all add: split_on_append split_on_plain)

lemma is_digit_not_space: "is_digit c \<Longrightarrow> \<not> is_space c"
  by (auto simp: is_digit_def is_space_def)

lemma py_strip_digits: "\<forall>c \<in> set s. is_digit c \<Longrightarrow> py_strip s = s"
proof -
  assume "\<forall>c \<in> set s. is_digit c"
  then have "dropWhile is_space s = s" "dropWhile is_space (rev s) = rev s"
    by (auto simp: dropWhile_eq_self_iff is_digit_not_space hd_in_set last_in_set hd_rev)
  then show ?thesis by (simp add: py_strip_def)
qed

lemma is_digit_chars: "\<not> is_digit (CHR ''-'')" "\<not> is_digit (CHR ''+'')" "\<not> is_digit (CHR ''_'')" "\<not> is_digit (CHR '','')"
  by (simp_all add: is_digit_def)

lemma digit_groups_digits: "s \<noteq> [] \<Longrightarrow> \<forall>c \<in> set s. is_digit c \<Longrightarrow> digit_groups s = Some s"
  using is_digit_chars by (induction s rule: digit_groups.induct) auto

lemma int_of_show_nat: "int_of_string (show_nat n) = Inr (int n)"
proof -
  obtain c r where s: "show_nat n = c # r"
    using show_nat_digits [of n] by (cases "show_nat n") auto
  have "is_digit c" "digit_groups (show_nat n) = Some (show_nat n)"
    using show_nat_digits [of n] s by (simp_all add: digit_groups_digits)
  then have "c \<noteq> CHR ''-''" "c \<noteq> CHR ''+''"
    using is_digit_chars by auto
  with \<open>digit_groups (show_nat n) = Some (show_nat n)\<close> show ?thesis
    using read_show_nat [of n] unfolding s by (simp add: int_of_string_def)
qed

lemma rmap_show: "\<forall>q \<in> set qs. 0 \<le> q \<Longrightarrow> rmap int_of_string (map show_int qs) = Inr qs"
  by (induction qs) (auto simp: show_int_def int_of_show_nat)

text \<open>
  C40: The candidate list survives its text form.  Writing distinct positive draft lengths as a
  comma-separated list and parsing it gives them back in increasing order.
\<close>

theorem q_candidates_roundtrip:
  assumes "qs \<noteq> []" "\<forall>q \<in> set qs. 1 \<le> q" "distinct qs"
  shows "parse_q_candidates (QText (join_with (CHR '','') (map show_int qs))) = Inr (sort qs)"
proof -
  have digits: "\<forall>c \<in> set (show_int q). is_digit c" "show_int q \<noteq> []" if "q \<in> set qs" for q
    using assms(2) that show_nat_digits [of "nat q"] by (auto simp: show_int_def)
  then have "\<forall>p \<in> set (map show_int qs). CHR '','' \<notin> set p"
    using is_digit_chars by auto
  then have "split_on (CHR '','') (join_with (CHR '','') (map show_int qs)) = map show_int qs"
    using assms(1) by (simp add: split_on_join)
  moreover have "map (py_strip \<circ> show_int) qs = map show_int qs"
    using digits by (simp add: py_strip_digits)
  moreover have "filter (\<lambda>item. item \<noteq> []) (map show_int qs) = map show_int qs"
    using digits by simp
  moreover have "rmap int_of_string (map show_int qs) = Inr qs"
    using assms(2) by (intro rmap_show) force
  moreover have "\<not> list_ex (\<lambda>item. item < 1) qs"
    using assms(2) by (force simp: list_ex_iff)
  ultimately show ?thesis
    unfolding parse_q_candidates_def using assms by (simp only: map_map q_value.case) (simp add: distinct_card)
qed

theorem q_candidates_roundtrip_witness:
  "parse_q_candidates (QText ''8,1,4'') = Inr [1, 4, 8]"
proof -
  have "join_with (CHR '','') (map show_int [8, 1, 4]) = ''8,1,4''"
    by code_simp
  then show ?thesis
    using q_candidates_roundtrip [of "[8, 1, 4]"] by simp
qed

section \<open>What an accepted configuration guarantees\<close>

lemma raise_all_iff: "raise_first (map (\<lambda>b. (b, e)) bs) = Inr u \<longleftrightarrow> True \<notin> set bs"
  by auto

lemma config_new_iff:
  "config_new c = Inr c' \<longleftrightarrow> c' = c
   \<and> True \<notin> set (range_violations c @ smctrl_violations c @ mode_violations c)
   \<and> (\<exists>qs. parse_q_candidates (QInts (cf_q_candidates c)) = Inr qs)"
  unfolding config_new_def rbind_Inr_iff raise_all_iff set_append Un_iff sum.inject by metis

lemma parse_q_ints_iff:
  "parse_q_candidates (QInts is) = Inr qs \<longleftrightarrow> is \<noteq> [] \<and> (\<forall>i \<in> set is. 1 \<le> i) \<and> distinct is \<and> qs = sort is"
  by (auto simp: parse_q_candidates_def res_simps list_ex_iff card_distinct distinct_card not_less)

lemma accepted_ranges:
  assumes "config_new c0 = Inr c"
  shows "1 \<le> cf_chunk_tokens c" "1 \<le> cf_num_buffers c" "1 \<le> cf_chunks_per_transfer c"
    "0 \<le> cf_active_tail_tokens c" "1 \<le> cf_cpu_memory_gb c" "1 \<le> cf_default_q c"
    "0 \<le> cf_q_switch_threshold c" "cf_q_switch_threshold c < 1"
    "0 \<le> cf_coexec_target_slowdown_budget c" "cf_coexec_target_slowdown_budget c \<le> 1"
    "0 \<le> cf_coexec_guard_us c" "0 \<le> cf_smctrl_calibration_tpcs c"
    "0 \<le> cf_colocated_tp_rank c" "0 \<le> cf_tp_straggler_budget_ms c" "0 \<le> cf_target_slowdown_budget c"
    "1 \<le> cf_tp_monitor_interval c" "1 \<le> cf_max_cohort_size c" "0 \<le> cf_max_cohort_delay_us c"
  using assms by (auto simp: config_new_iff range_violations_def smctrl_violations_def)

lemma accepted_candidates:
  assumes "config_new c0 = Inr c"
  shows "cf_q_candidates c \<noteq> []" "\<forall>q \<in> set (cf_q_candidates c). 1 \<le> q" "distinct (cf_q_candidates c)"
  using assms by (auto simp: config_new_iff parse_q_ints_iff)

lemma from_server_args_accepted:
  "from_server_args args = Inr c \<Longrightarrow> \<exists>c0. config_new c0 = Inr c"
  by (auto simp: from_server_args_def res_simps)

text \<open>The arguments of an example server, shared by the witnesses.\<close>

definition demo_args :: server_args where
  "demo_args = \<lparr>
     sv_speculative_algorithm = Some ''SPECTRE'',
     sv_spectre_role = Some ''target'',
     sv_specstream_enabled = True,
     sv_specstream_profile_only = False,
     sv_specstream_full_restore_baseline = False,
     sv_specstream_reference_attention = True,
     sv_specstream_chunk_tokens = 2048,
     sv_specstream_num_buffers = 2,
     sv_specstream_chunks_per_transfer = 4,
     sv_specstream_layer_prefetch = True,
     sv_specstream_active_tail_tokens = 512,
     sv_specstream_min_history_tokens = 8192,
     sv_specstream_cpu_memory_gb = 128,
     sv_speculative_num_steps = 4,
     sv_specstream_dynamic_q = True,
     sv_specstream_q_candidates = QText ''1,2,4'',
     sv_specstream_q_switch_threshold = 2 / 25,
     sv_specstream_coexec_enabled = False,
     sv_specstream_coexec_draft_pressure_ratio = 4 / 5,
     sv_specstream_coexec_timeout_rate_threshold = 1 / 10,
     sv_specstream_coexec_pending_high_watermark = 16,
     sv_specstream_coexec_compute_ratio_threshold = 9 / 10,
     sv_specstream_coexec_require_mps = False,
     sv_specstream_smctrl_enabled = True,
     sv_specstream_grant_token_quantum = 1,
     sv_specstream_coexec_target_slowdown_budget = 1 / 20,
     sv_specstream_coexec_guard_us = 200,
     sv_specstream_coexec_resource_profile_path = ''specstream_resource_profile.json'',
     sv_specstream_smctrl_library = '''',
     sv_specstream_smctrl_mask_scope = ''global'',
     sv_specstream_smctrl_calibration_tpcs = 4,
     sv_specstream_smctrl_calibration_allow_overlap = False,
     sv_specstream_smctrl_complementary_partition = True,
     sv_specstream_smctrl_draft_only_parallel = False,
     sv_specstream_tp_straggler_control = True,
     sv_specstream_colocated_tp_rank = 0,
     sv_specstream_tp_straggler_budget_ms = 1,
     sv_specstream_target_slowdown_budget = 1 / 10,
     sv_specstream_tp_monitor_interval = 8,
     sv_specstream_cohort_enabled = False,
     sv_specstream_max_cohort_size = 8,
     sv_specstream_max_cohort_delay_us = 200,
     sv_specstream_profile_path = ''specstream_profile.csv'',
     sv_specstream_shadow_attention = False,
     sv_specstream_strict_invariants = True \<rparr>"

end
