(* ===== verification/SMControl.thy ===== *)
theory SMControl
  imports Prelude
begin

text \<open>
  The wrapper around the TPC masking library (\<open>specstream/sm_controller.py\<close>) and the mask
  construction of the library itself (\<open>csrc/specstream_smctrl/src/libsmctrl_core.c\<close>).  A mask is a
  64- or 128-bit word in which a set bit disables a TPC.  The CUDA driver is the parameter
  \<open>sm_env\<close>: availability, the device, the TPC count and the return codes of the calls that
  install a mask.
\<close>

unbundle bit_operations_syntax

section \<open>Masks\<close>

text \<open>
  \<open>libsmctrl_make_mask\<close> and \<open>libsmctrl_make_mask_ext\<close>: shift in one set bit per enabled TPC, shift
  the block up by \<open>low\<close>, complement.
\<close>

definition make_mask :: "nat \<Rightarrow> nat \<Rightarrow> 'a::len word" where
  "make_mask low high =
     (let enabled = ((\<lambda>m. push_bit 1 m OR 1) ^^ (high - low)) 0;
          placed = ((\<lambda>m. push_bit 1 m) ^^ low) enabled
      in NOT placed)"

lemma bit_ones_loop:
  "bit (((\<lambda>m. push_bit 1 m OR 1) ^^ n) (0 :: 'a::len word)) i \<longleftrightarrow> i < LENGTH('a) \<and> i < n"
proof (induction n arbitrary: i)
  case (Suc n)
  show ?case
    by (simp only: funpow.simps comp_apply bit_or_iff bit_push_bit_iff possible_bit_word bit_1_iff Suc.IH) auto
qed simp

lemma shift_loop: "((\<lambda>m. push_bit 1 m) ^^ n) m = push_bit n m" for m :: "'a::len word"
  by (induction n arbitrary: m) (simp_all add: funpow_Suc_right del: funpow.simps)

lemma bit_make_mask:
  "bit (make_mask low high :: 'a::len word) i \<longleftrightarrow> i < LENGTH('a) \<and> \<not> (low \<le> i \<and> i < high)"
  unfolding make_mask_def Let_def shift_loop by (simp only: bit_simps bit_ones_loop) auto

section \<open>The controller\<close>

datatype tpc_mask = Mask64 "64 word" | Mask128 "128 word"

text \<open>The driver: what the library and CUDA answer.\<close>

record sm_env =
  se_hip :: bool
  se_cuda_available :: bool
  se_current_device :: int
  se_library_loads :: "string option \<Rightarrow> bool"
  se_tpc_info :: "int \<Rightarrow> int \<times> nat"
  se_set_stream_code :: "int \<Rightarrow> tpc_mask \<Rightarrow> int"
  se_validate_code :: "int \<Rightarrow> int \<Rightarrow> int \<Rightarrow> int"

record sm_controller =
  smc_device_index :: int
  smc_mask_scope :: string
  smc_total_tpcs :: int
  smc_global_mask :: "64 word option"
  smc_stream_masks :: "(int, tpc_mask) dict"

definition check_return :: "int \<Rightarrow> unit res" where
  "check_return code = raise_if (code \<noteq> 0) OSError"

definition get_tpc_count :: "sm_env \<Rightarrow> int \<Rightarrow> int res" where
  "get_tpc_count env device =
     (case se_tpc_info env device of (code, n) \<Rightarrow>
        rbind (check_return code) (\<lambda>_.
        if n < 1 then Inl RuntimeError else Inr (int n)))"

definition sm_controller_new :: "sm_env \<Rightarrow> string option \<Rightarrow> int option \<Rightarrow> string \<Rightarrow> sm_controller res" where
  "sm_controller_new env library_path device_index mask_scope =
     rbind (raise_first [(se_hip env, RuntimeError), (\<not> se_cuda_available env, RuntimeError)]) (\<lambda>_.
     let device = (case device_index of None \<Rightarrow> se_current_device env | Some d \<Rightarrow> d) in
     rbind (raise_first
       [(mask_scope \<notin> {''stream'', ''global''}, ValueError),
        (\<not> se_library_loads env library_path, RuntimeError)]) (\<lambda>_.
     rbind (get_tpc_count env device) (\<lambda>tot.
     Inr \<lparr> smc_device_index = device, smc_mask_scope = mask_scope, smc_total_tpcs = tot,
           smc_global_mask = None, smc_stream_masks = [] \<rparr>)))"

definition validate_range :: "sm_controller \<Rightarrow> int \<Rightarrow> int \<Rightarrow> (int \<times> int) res" where
  "validate_range c low high =
     (if low < 0 \<or> high \<le> low \<or> smc_total_tpcs c < high then Inl ValueError else Inr (low, high))"

definition stream_pointer :: "int \<Rightarrow> int res" where
  "stream_pointer stream = (if stream = 0 then Inl ValueError else Inr stream)"

text \<open>\<open>libsmctrl_set_stream_mask\<close> and its 128-bit variant: the mask is installed when the call succeeds.\<close>

definition install_stream_mask :: "sm_env \<Rightarrow> int \<Rightarrow> tpc_mask \<Rightarrow> (sm_controller, unit) py" where
  "install_stream_mask env stream m c =
     (case rbind (stream_pointer stream) (\<lambda>p. rbind (check_return (se_set_stream_code env p m)) (\<lambda>_. Inr p)) of
        Inl e \<Rightarrow> (Inl e, c)
      | Inr p \<Rightarrow> (Inr (), c\<lparr>smc_stream_masks := dset p m (smc_stream_masks c)\<rparr>))"

definition set_stream_mask :: "sm_env \<Rightarrow> int \<Rightarrow> int \<Rightarrow> int \<Rightarrow> (sm_controller, unit) py" where
  "set_stream_mask env stream low high c =
     (case validate_range c low high of
        Inl e \<Rightarrow> (Inl e, c)
      | Inr (lo, hi) \<Rightarrow>
          if smc_total_tpcs c \<le> 64 then
            (let m = make_mask (nat lo) (nat hi) in
             if smc_mask_scope c = ''global'' then (Inr (), c\<lparr>smc_global_mask := Some m\<rparr>)
             else install_stream_mask env stream (Mask64 m) c)
          else if smc_mask_scope c = ''global'' then (Inl RuntimeError, c)
          else install_stream_mask env stream (Mask128 (make_mask (nat lo) (nat hi))) c)"

definition validate_stream_mask :: "sm_env \<Rightarrow> sm_controller \<Rightarrow> int \<Rightarrow> int \<Rightarrow> int \<Rightarrow> unit res" where
  "validate_stream_mask env c stream low high =
     rbind (validate_range c low high) (\<lambda>(lo, hi).
     rbind (stream_pointer stream) (\<lambda>p.
     check_return (se_validate_code env p lo hi)))"

section \<open>The TPCs a stream may use\<close>

text \<open>A TPC is usable when its bit is clear; a 64-bit mask disables every TPC above 63.\<close>

fun tpc_enabled :: "tpc_mask \<Rightarrow> nat \<Rightarrow> bool" where
  "tpc_enabled (Mask64 m) i \<longleftrightarrow> i < 64 \<and> \<not> bit m i"
| "tpc_enabled (Mask128 m) i \<longleftrightarrow> i < 128 \<and> \<not> bit m i"

text \<open>The mask in force for a stream: its own, otherwise the one of the process.\<close>

definition effective_mask :: "sm_controller \<Rightarrow> int \<Rightarrow> tpc_mask option" where
  "effective_mask c stream =
     (case dget (smc_stream_masks c) stream of
        Some m \<Rightarrow> Some m
      | None \<Rightarrow> map_option Mask64 (smc_global_mask c))"

lemma enabled_make_mask64:
  "high \<le> 64 \<Longrightarrow> tpc_enabled (Mask64 (make_mask low high)) i \<longleftrightarrow> low \<le> i \<and> i < high"
  by (auto simp: bit_make_mask)

lemma enabled_make_mask128:
  "high \<le> 128 \<Longrightarrow> tpc_enabled (Mask128 (make_mask low high)) i \<longleftrightarrow> low \<le> i \<and> i < high"
  by (auto simp: bit_make_mask)

lemma set_stream_mask_range:
  assumes "smc_total_tpcs c \<le> 128"
    and "smc_mask_scope c = ''global'' \<longrightarrow> smc_stream_masks c = []"
    and "set_stream_mask env stream low high c = (r, c')"
  shows "(r = Inr () \<longrightarrow> 0 \<le> low \<and> low < high \<and> high \<le> smc_total_tpcs c
           \<and> (\<exists>m. effective_mask c' stream = Some m \<and> (\<forall>i. tpc_enabled m i \<longleftrightarrow> low \<le> int i \<and> int i < high)))
       \<and> (\<forall>e. r = Inl e \<longrightarrow> c' = c)"
proof -
  have range: "nat low \<le> i \<and> i < nat high \<longleftrightarrow> low \<le> int i \<and> int i < high" if "0 \<le> low" for i
    using that by linarith
  show ?thesis
  proof (cases "low < 0 \<or> high \<le> low \<or> smc_total_tpcs c < high")
    case True
    then show ?thesis using assms(3) by (auto simp: set_stream_mask_def validate_range_def)
  next
    case False
    then have ok: "validate_range c low high = Inr (low, high)" and bounds: "0 \<le> low" "nat high \<le> 128"
      using assms(1) by (auto simp: validate_range_def)
    have m64: "\<forall>i. tpc_enabled (Mask64 (make_mask (nat low) (nat high))) i \<longleftrightarrow> low \<le> int i \<and> int i < high"
      if "smc_total_tpcs c \<le> 64"
    proof -
      have "nat high \<le> 64" using that False by linarith
      then show ?thesis by (simp only: enabled_make_mask64 range [OF bounds(1)] simp_thms)
    qed
    have m128: "\<forall>i. tpc_enabled (Mask128 (make_mask (nat low) (nat high))) i \<longleftrightarrow> low \<le> int i \<and> int i < high"
      by (simp only: enabled_make_mask128 [OF bounds(2)] range [OF bounds(1)] simp_thms)
    have install: "effective_mask (snd (install_stream_mask env stream m c)) stream = Some m"
      if "fst (install_stream_mask env stream m c) = Inr ()" for m
      using that by (auto simp: install_stream_mask_def effective_mask_def stream_pointer_def check_return_def
          raise_if_def split: sum.splits if_splits)
    have keep: "snd (install_stream_mask env stream m c) = c"
      if "fst (install_stream_mask env stream m c) = Inl e" for m e
      using that by (auto simp: install_stream_mask_def split: sum.splits)
    consider (process) "smc_total_tpcs c \<le> 64" "smc_mask_scope c = ''global''"
      | (stream) "smc_total_tpcs c \<le> 64" "smc_mask_scope c \<noteq> ''global''"
      | (large) "\<not> smc_total_tpcs c \<le> 64"
      by blast
    then show ?thesis
    proof cases
      case process
      have c': "r = Inr ()" "c' = c\<lparr>smc_global_mask := Some (make_mask (nat low) (nat high))\<rparr>"
        using assms(3) process unfolding set_stream_mask_def ok by (simp_all add: Let_def)
      have "effective_mask c' stream = Some (Mask64 (make_mask (nat low) (nat high)))"
        using assms(2) process by (simp add: c' effective_mask_def)
      with m64 process False c'(1) show ?thesis by (simp del: tpc_enabled.simps)
    next
      case stream
      have "(r, c') = install_stream_mask env stream (Mask64 (make_mask (nat low) (nat high))) c"
        using assms(3) stream unfolding set_stream_mask_def ok by (simp add: Let_def)
      with m64 stream False install keep show ?thesis by (metis fst_conv not_less snd_conv)
    next
      case large
      have "r = Inl RuntimeError \<and> c' = c
          \<or> (r, c') = install_stream_mask env stream (Mask128 (make_mask (nat low) (nat high))) c"
        using assms(3) large unfolding set_stream_mask_def ok by (simp split: if_splits)
      with m128 False install keep show ?thesis by (metis fst_conv not_less snd_conv Inl_Inr_False)
    qed
  qed
qed

text \<open>
  C25: A mask enables exactly the range it was set for.  On a device with at most 128 TPCs a
  successful call leaves precisely the TPCs \<open>[low, high)\<close> usable by the stream (by every stream
  without a mask of its own, in process scope); a call that raises leaves all masks as they were.
\<close>

theorem set_stream_mask_exact:
  assumes "smc_total_tpcs c \<le> 128"
    and "smc_mask_scope c = ''global'' \<longrightarrow> smc_stream_masks c = []"
    and "set_stream_mask env stream low high c = (r, c')"
  shows "(r = Inr () \<longrightarrow> 0 \<le> low \<and> low < high \<and> high \<le> smc_total_tpcs c
           \<and> (\<exists>m. effective_mask c' stream = Some m \<and> (\<forall>i. tpc_enabled m i \<longleftrightarrow> low \<le> int i \<and> int i < high)))
       \<and> (\<forall>e. r = Inl e \<longrightarrow> c' = c)"
  using assms by (rule set_stream_mask_range)

definition demo_env :: sm_env where
  "demo_env = \<lparr> se_hip = False, se_cuda_available = True, se_current_device = 0,
     se_library_loads = \<lambda>_. True, se_tpc_info = \<lambda>_. (0, 60),
     se_set_stream_code = \<lambda>_ _. 0, se_validate_code = \<lambda>_ _ _. 0 \<rparr>"

text \<open>The Target of a 60-TPC device restricted to the TPCs from 12 on.\<close>

theorem set_stream_mask_exact_witness:
  "\<exists>c m. sm_controller_new demo_env None None ''global'' = Inr c
     \<and> effective_mask (snd (set_stream_mask demo_env 7 12 60 c)) 7 = Some m
     \<and> \<not> tpc_enabled m 11 \<and> tpc_enabled m 12"
proof -
  obtain c where c: "sm_controller_new demo_env None None ''global'' = Inr c" "smc_total_tpcs c = 60"
      "smc_mask_scope c = ''global''" "smc_stream_masks c = []"
    by (simp add: sm_controller_new_def demo_env_def get_tpc_count_def check_return_def)
  obtain c' where c': "set_stream_mask demo_env 7 12 60 c = (Inr (), c')"
    using c by (simp add: set_stream_mask_def validate_range_def Let_def)
  obtain m where "effective_mask c' 7 = Some m" "\<forall>i. tpc_enabled m i \<longleftrightarrow> 12 \<le> int i \<and> int i < 60"
    using set_stream_mask_exact [OF _ _ c'] c by auto
  then show ?thesis
    using c(1) c' by auto
qed

end
