(* ===== verification/Trackers.thy ===== *)
theory Trackers
  imports Prelude
begin

text \<open>
  The online estimators that feed the controllers: \<open>AcceptanceTracker\<close>
  (\<open>acceptance_tracker.py\<close>), \<open>SlackProfiler\<close> (\<open>slack_profiler.py\<close>), \<open>DraftLoadTracker\<close>
  (\<open>draft_load_tracker.py\<close>) and \<open>TPStragglerMonitor\<close> (\<open>tp_straggler_monitor.py\<close>).  They share
  the exponential moving average, whose contract is the locale \<open>smoothing\<close>.
\<close>

section \<open>Exponential smoothing\<close>

definition ema :: "real \<Rightarrow> real \<Rightarrow> real \<Rightarrow> real" where
  "ema alpha previous value = (1 - alpha) * previous + alpha * value"

text \<open>An estimator update that stays between the previous estimate and the new value.\<close>

locale smoothing =
  fixes upd :: "real \<Rightarrow> real \<Rightarrow> real"
  assumes upd_lower: "lo \<le> p \<Longrightarrow> lo \<le> v \<Longrightarrow> lo \<le> upd p v"
    and upd_upper: "p \<le> hi \<Longrightarrow> v \<le> hi \<Longrightarrow> upd p v \<le> hi"
begin

lemma fold_bounds:
  assumes "lo \<le> p" "p \<le> hi" and "\<forall>v \<in> set vs. lo \<le> v \<and> v \<le> hi"
  shows "lo \<le> foldl upd p vs \<and> foldl upd p vs \<le> hi"
  using assms by (induction vs arbitrary: p) (auto intro: upd_lower upd_upper)

end

locale smoothing_factor =
  fixes alpha :: real
  assumes alpha_range: "0 \<le> alpha" "alpha \<le> 1"

lemma ema_lower:
  assumes "0 \<le> a" "a \<le> 1" and "lo \<le> p" "lo \<le> v"
  shows "lo \<le> ema a p v"
proof -
  have "(1 - a) * lo \<le> (1 - a) * p" "a * lo \<le> a * v"
    using assms by (auto intro: mult_left_mono)
  then show ?thesis by (simp add: ema_def left_diff_distrib)
qed

lemma ema_upper:
  assumes "0 \<le> a" "a \<le> 1" and "p \<le> hi" "v \<le> hi"
  shows "ema a p v \<le> hi"
proof -
  have "(1 - a) * p \<le> (1 - a) * hi" "a * v \<le> a * hi"
    using assms by (auto intro: mult_left_mono)
  then show ?thesis by (simp add: ema_def left_diff_distrib)
qed

sublocale smoothing_factor \<subseteq> smoothing "ema alpha"
  using alpha_range by unfold_locales (auto intro: ema_lower ema_upper)

text \<open>Every estimator of the program is constructed with the default factor 0.2.\<close>

definition default_alpha :: real where
  "default_alpha = 1 / 5"

interpretation default_ema: smoothing_factor default_alpha
  by unfold_locales (simp_all add: default_alpha_def)

section \<open>Acceptance\<close>

record acceptance_snapshot =
  as_expected_useful_tokens :: "(int, real) dict"
  as_rollback_probability :: "(int, real) dict"
  as_samples :: "(int, int) dict"

definition useful_tokens :: "int \<Rightarrow> acceptance_snapshot \<Rightarrow> real" where
  "useful_tokens q sn = max 1 (min (real_of_int q) (dget_or (as_expected_useful_tokens sn) q 1))"

definition rollback :: "int \<Rightarrow> acceptance_snapshot \<Rightarrow> real" where
  "rollback q sn = min 1 (max 0 (dget_or (as_rollback_probability sn) q 0))"

record acceptance_tracker =
  at_alpha :: real
  at_useful :: "(int, real) dict"
  at_rollback :: "(int, real) dict"
  at_samples :: "(int, int) dict"

definition acceptance_new :: acceptance_tracker where
  "acceptance_new = \<lparr>at_alpha = default_alpha, at_useful = [], at_rollback = [], at_samples = []\<rparr>"

definition acceptance_update :: "int \<Rightarrow> int list \<Rightarrow> acceptance_tracker \<Rightarrow> acceptance_tracker" where
  "acceptance_update q accepted t =
     (let vals = map (\<lambda>v. max 1 (min q (v + 1))) accepted in
      if vals = [] then t
      else
       let n = real (length vals);
           useful = real_of_int (sum_list vals) / n;
           rb = real (length (filter (\<lambda>v. v < q) vals)) / n;
           a = at_alpha t
       in t\<lparr>at_useful := dset q (case dget (at_useful t) q of
                                   Some u \<Rightarrow> ema a u useful | None \<Rightarrow> useful) (at_useful t),
            at_rollback := dset q (case dget (at_useful t) q of
                                   Some _ \<Rightarrow> ema a (dget_or (at_rollback t) q 0) rb
                                 | None \<Rightarrow> rb) (at_rollback t),
            at_samples := dset q (dget_or (at_samples t) q 0 + int (length vals)) (at_samples t)\<rparr>)"

definition cold_useful :: "int \<Rightarrow> real" where
  "cold_useful q = (if q = 1 then 1 else 1 + (real_of_int q - 1) / 2)"

definition acceptance_snapshot_of :: "int list \<Rightarrow> acceptance_tracker \<Rightarrow> acceptance_snapshot" where
  "acceptance_snapshot_of qs t =
     \<lparr>as_expected_useful_tokens =
        foldl (\<lambda>d q. dset q (dget_or (at_useful t) q (cold_useful q)) d) [] qs,
      as_rollback_probability =
        foldl (\<lambda>d q. dset q (dget_or (at_rollback t) q (if q = 1 then 0 else 1 / 2)) d) [] qs,
      as_samples = foldl (\<lambda>d q. dset q (dget_or (at_samples t) q 0) d) [] qs\<rparr>"

section \<open>Target slack\<close>

record slack_snapshot =
  ss_target_phase :: string
  ss_target_phase_ms :: real
  ss_draft_step_ms :: real
  ss_predicted_slack_us :: real
  ss_samples :: int

record slack_profiler =
  sp_alpha :: real
  sp_phase_ms :: "(string, real) dict"
  sp_draft_step_ms :: real
  sp_samples :: int
  sp_last_phase :: string

definition slack_new :: "real \<Rightarrow> slack_profiler res" where
  "slack_new alpha =
     (if \<not> (0 < alpha \<and> alpha \<le> 1) then Inl ValueError
      else Inr \<lparr>sp_alpha = alpha, sp_phase_ms = [], sp_draft_step_ms = 0, sp_samples = 0,
                sp_last_phase = ''unknown''\<rparr>)"

definition slack_update :: "real \<Rightarrow> real \<Rightarrow> real \<Rightarrow> real" where
  "slack_update alpha previous value = (if previous \<le> 0 then value else ema alpha previous value)"

definition phase_or :: "string \<Rightarrow> string \<Rightarrow> string" where
  "phase_or phase dflt = (if phase = [] then dflt else phase)"

definition record_target_phase :: "string \<Rightarrow> real \<Rightarrow> slack_profiler \<Rightarrow> slack_profiler" where
  "record_target_phase phase elapsed t =
     (let e = max elapsed 0; ph = phase_or phase ''unknown''
      in t\<lparr>sp_last_phase := ph,
           sp_phase_ms := dset ph (slack_update (sp_alpha t) (dget_or (sp_phase_ms t) ph 0) e)
                            (sp_phase_ms t),
           sp_samples := sp_samples t + 1\<rparr>)"

definition record_draft_step :: "real \<Rightarrow> slack_profiler \<Rightarrow> slack_profiler" where
  "record_draft_step elapsed t =
     t\<lparr>sp_draft_step_ms := slack_update (sp_alpha t) (sp_draft_step_ms t) (max elapsed 0)\<rparr>"

definition slack_snapshot_of :: "string option \<Rightarrow> slack_profiler \<Rightarrow> slack_snapshot" where
  "slack_snapshot_of phase t =
     (let ph = phase_or (case phase of None \<Rightarrow> [] | Some p \<Rightarrow> p) (sp_last_phase t);
          ms = dget_or (sp_phase_ms t) ph 0
      in \<lparr>ss_target_phase = ph, ss_target_phase_ms = ms, ss_draft_step_ms = sp_draft_step_ms t,
          ss_predicted_slack_us = max (ms * 1000) 0, ss_samples = sp_samples t\<rparr>)"

section \<open>Remote Drafter load\<close>

definition percentile :: "real list \<Rightarrow> real \<Rightarrow> real" where
  "percentile vals quantile =
     (if vals = [] then 0
      else
       let ordered = sort vals;
           index = max 0 (py_int (quantile * real (length ordered) + 999999 / 1000000) - 1)
       in ordered ! nat (min index (int (length ordered) - 1)))"

record load_snapshot =
  ls_samples :: int
  ls_rtt_ema_ms :: real
  ls_rtt_p95_ms :: real
  ls_pressure_p95 :: real
  ls_timeout_rate :: real
  ls_missing_ratio_ema :: real
  ls_pending_p95 :: int
  ls_reject_rate :: real

record load_tracker =
  lt_window :: nat
  lt_alpha :: real
  lt_rtt_ms :: "real list"
  lt_pressure :: "real list"
  lt_timeout :: "real list"
  lt_missing_ratio :: "real list"
  lt_pending :: "real list"
  lt_reject :: "real list"
  lt_rtt_ema_ms :: real
  lt_missing_ratio_ema :: real

definition load_new :: "int \<Rightarrow> real \<Rightarrow> load_tracker res" where
  "load_new window alpha =
     (if window < 1 then Inl ValueError
      else if \<not> (0 < alpha \<and> alpha \<le> 1) then Inl ValueError
      else Inr \<lparr>lt_window = nat window, lt_alpha = alpha, lt_rtt_ms = [], lt_pressure = [],
                lt_timeout = [], lt_missing_ratio = [], lt_pending = [], lt_reject = [],
                lt_rtt_ema_ms = 0, lt_missing_ratio_ema = 0\<rparr>)"

definition missing_ratio :: "int \<Rightarrow> int \<Rightarrow> real" where
  "missing_ratio missing tot =
     (let t = max tot 0; m = min (max missing 0) t in real_of_int m / real_of_int (max t 1))"

definition record_result :: "real \<Rightarrow> real \<Rightarrow> int \<Rightarrow> int \<Rightarrow> load_tracker \<Rightarrow> load_tracker" where
  "record_result elapsed timeout missing tot t =
     (let e = max elapsed 0; to = max timeout (1 / 1000000);
          n = max tot 0; m = min (max missing 0) n; mr = missing_ratio missing tot;
          w = lt_window t; rtts = push_window w e (lt_rtt_ms t);
          a = lt_alpha t; first = (length rtts = 1)
      in t\<lparr>lt_rtt_ms := rtts,
           lt_pressure := push_window w (e / to) (lt_pressure t),
           lt_timeout := push_window w (if 0 < m then 1 else 0) (lt_timeout t),
           lt_missing_ratio := push_window w mr (lt_missing_ratio t),
           lt_pending := push_window w (real_of_int n) (lt_pending t),
           lt_reject := push_window w 0 (lt_reject t),
           lt_rtt_ema_ms := (if first then e else ema a (lt_rtt_ema_ms t) e),
           lt_missing_ratio_ema := (if first then mr else ema a (lt_missing_ratio_ema t) mr)\<rparr>)"

definition record_reject :: "load_tracker \<Rightarrow> load_tracker" where
  "record_reject t = t\<lparr>lt_reject := push_window (lt_window t) 1 (lt_reject t)\<rparr>"

definition mean :: "real list \<Rightarrow> real" where
  "mean xs = (if xs = [] then 0 else sum_list xs / real (length xs))"

definition load_snapshot_of :: "load_tracker \<Rightarrow> load_snapshot" where
  "load_snapshot_of t =
     \<lparr>ls_samples = int (length (lt_rtt_ms t)), ls_rtt_ema_ms = lt_rtt_ema_ms t,
      ls_rtt_p95_ms = percentile (lt_rtt_ms t) (95 / 100),
      ls_pressure_p95 = percentile (lt_pressure t) (95 / 100),
      ls_timeout_rate = mean (lt_timeout t), ls_missing_ratio_ema = lt_missing_ratio_ema t,
      ls_pending_p95 = py_int (percentile (lt_pending t) (95 / 100)),
      ls_reject_rate = mean (lt_reject t)\<rparr>"

section \<open>TP stragglers\<close>

record rank_sample =
  rs_rank :: int
  rs_round_id :: int
  rs_target_forward_ms :: real
  rs_collective_wait_ms :: real
  rs_stream_attn_ms :: real
  rs_exposed_copy_ms :: real

record straggler_snapshot =
  tn_samples :: int
  tn_colocated_rank :: int
  tn_rank_forward_ms :: "real list"
  tn_rank_collective_wait_ms :: "real list"
  tn_rank_skew_ms :: real
  tn_target_slowdown :: real

definition straggler_empty :: "int \<Rightarrow> straggler_snapshot" where
  "straggler_empty colocated = \<lparr>tn_samples = 0, tn_colocated_rank = colocated,
     tn_rank_forward_ms = [], tn_rank_collective_wait_ms = [], tn_rank_skew_ms = 0,
     tn_target_slowdown = 0\<rparr>"

record straggler_monitor =
  sm_tp_size :: int
  sm_colocated_rank :: int
  sm_alpha :: real
  sm_forward_ema :: "(int, real) dict"
  sm_collective_ema :: "(int, real) dict"
  sm_best_slowest_ms :: "real option"
  sm_samples :: int
  sm_local_sample :: "rank_sample option"

definition monitor_new :: "int \<Rightarrow> int \<Rightarrow> real \<Rightarrow> straggler_monitor res" where
  "monitor_new tp_size colocated alpha =
     rbind (raise_first
       [(tp_size < 1, ValueError), (\<not> (0 \<le> colocated \<and> colocated < tp_size), ValueError),
        (\<not> (0 < alpha \<and> alpha \<le> 1), ValueError)]) (\<lambda>_.
     Inr \<lparr>sm_tp_size = tp_size, sm_colocated_rank = colocated, sm_alpha = alpha,
          sm_forward_ema = [], sm_collective_ema = [], sm_best_slowest_ms = None,
          sm_samples = 0, sm_local_sample = None\<rparr>)"

definition record_local :: "rank_sample \<Rightarrow> straggler_monitor \<Rightarrow> straggler_monitor" where
  "record_local sample t = t\<lparr>sm_local_sample := Some sample\<rparr>"

definition by_rank :: "rank_sample option list \<Rightarrow> (int, rank_sample) dict" where
  "by_rank samples = foldl (\<lambda>d s. case s of None \<Rightarrow> d
     | Some x \<Rightarrow> if 0 \<le> rs_target_forward_ms x then dset (rs_rank x) x d else d) [] samples"

definition observe_rank ::
    "(int, rank_sample) dict \<Rightarrow> straggler_monitor \<Rightarrow> int \<Rightarrow> straggler_monitor res" where
  "observe_rank d t rank =
     (case dget d rank of
        None \<Rightarrow> Inl KeyError
      | Some x \<Rightarrow>
         let f = max (rs_target_forward_ms x) 0; c = max (rs_collective_wait_ms x) 0; a = sm_alpha t
         in Inr (case dget (sm_forward_ema t) rank of
                   None \<Rightarrow> t\<lparr>sm_forward_ema := dset rank f (sm_forward_ema t),
                             sm_collective_ema := dset rank c (sm_collective_ema t)\<rparr>
                 | Some p \<Rightarrow>
                    t\<lparr>sm_forward_ema := dset rank (ema a p f) (sm_forward_ema t),
                      sm_collective_ema :=
                        dset rank (ema a (dget_or (sm_collective_ema t) rank 0) c)
                          (sm_collective_ema t)\<rparr>))"

text \<open>
  \<open>observe\<close>; on a \<open>KeyError\<close> (as many samples as ranks, but not one per rank) the averages of
  the ranks before the missing one have already moved, which the caller does not see because
  the exception ends the scheduler loop.
\<close>

definition observe :: "rank_sample option list \<Rightarrow> straggler_monitor \<Rightarrow> straggler_monitor res" where
  "observe samples t =
     (let d = by_rank samples in
      if int (length d) \<noteq> sm_tp_size t then Inr t
      else rbind (rfold (observe_rank d) t (map int [0 ..< nat (sm_tp_size t)])) (\<lambda>t1.
        let slowest = Max (set (map snd (sm_forward_ema t1)));
            t2 = t1\<lparr>sm_samples := sm_samples t1 + 1\<rparr>
        in Inr (case sm_best_slowest_ms t1 of
                  None \<Rightarrow> t2\<lparr>sm_best_slowest_ms := Some slowest\<rparr>
                | Some b \<Rightarrow> if slowest < b then t2\<lparr>sm_best_slowest_ms := Some slowest\<rparr> else t2)))"

definition median :: "real list \<Rightarrow> real" where
  "median xs =
     (let ys = sort xs; n = length ys
      in if odd n then ys ! (n div 2) else (ys ! (n div 2 - 1) + ys ! (n div 2)) / 2)"

definition straggler_snapshot_of :: "straggler_monitor \<Rightarrow> straggler_snapshot" where
  "straggler_snapshot_of t =
     (if int (length (sm_forward_ema t)) \<noteq> sm_tp_size t
      then straggler_empty (sm_colocated_rank t)
      else
       let ranks = map int [0 ..< nat (sm_tp_size t)];
           forward = map (\<lambda>r. dget_or (sm_forward_ema t) r 0) ranks;
           collective = map (\<lambda>r. dget_or (sm_collective_ema t) r 0) ranks;
           peers = map (\<lambda>r. dget_or (sm_forward_ema t) r 0)
                     (filter (\<lambda>r. r \<noteq> sm_colocated_rank t) ranks);
           peer_median = (if peers = [] then forward ! 0 else median peers);
           baseline = max (case sm_best_slowest_ms t of None \<Rightarrow> 0 | Some b \<Rightarrow> b) (1 / 1000000)
       in \<lparr>tn_samples = sm_samples t, tn_colocated_rank = sm_colocated_rank t,
           tn_rank_forward_ms = forward, tn_rank_collective_wait_ms = collective,
           tn_rank_skew_ms = forward ! nat (sm_colocated_rank t) - peer_median,
           tn_target_slowdown = max 0 (Max (set forward) / baseline - 1)\<rparr>)"

section \<open>Bounds of the acceptance estimates\<close>

definition acceptance_ok :: "acceptance_tracker \<Rightarrow> bool" where
  "acceptance_ok t \<longleftrightarrow> at_alpha t = default_alpha
     \<and> (\<forall>q. (dget (at_useful t) q = None) = (dget (at_rollback t) q = None))
     \<and> (\<forall>q u. dget (at_useful t) q = Some u \<longrightarrow> 1 \<le> u \<and> u \<le> max 1 (real_of_int q))
     \<and> (\<forall>q r. dget (at_rollback t) q = Some r \<longrightarrow> 0 \<le> r \<and> r \<le> 1)"

lemma mean_of_ints_bounds:
  assumes "xs \<noteq> []" and "\<forall>x \<in> set xs. lo \<le> x \<and> x \<le> (hi :: int)"
  shows "real_of_int lo \<le> real_of_int (sum_list xs) / real (length xs)"
    and "real_of_int (sum_list xs) / real (length xs) \<le> real_of_int hi"
proof -
  have "real (length xs) * real_of_int lo \<le> real_of_int (sum_list xs)"
    using assms(2) by (induction xs) (auto simp: distrib_right)
  moreover have "real_of_int (sum_list xs) \<le> real (length xs) * real_of_int hi"
    using assms(2) by (induction xs) (auto simp: distrib_right)
  ultimately show "real_of_int lo \<le> real_of_int (sum_list xs) / real (length xs)"
      "real_of_int (sum_list xs) / real (length xs) \<le> real_of_int hi"
    using assms(1) by (simp_all add: field_simps)
qed

lemma acceptance_update_ok:
  assumes ok: "acceptance_ok t"
  shows "acceptance_ok (acceptance_update q ls t)"
proof (cases "ls = []")
  case False
  define vals where "vals = map (\<lambda>v. max 1 (min q (v + 1))) ls"
  define useful where "useful = real_of_int (sum_list vals) / real (length vals)"
  define rb where "rb = real (length (filter (\<lambda>v. v < q) vals)) / real (length vals)"
  have ne: "vals \<noteq> []" using False by (simp add: vals_def)
  have alpha: "at_alpha t = default_alpha" using ok by (simp add: acceptance_ok_def)
  have "\<forall>v \<in> set vals. 1 \<le> v \<and> v \<le> max 1 q" by (auto simp: vals_def)
  from mean_of_ints_bounds [OF ne this] have u: "1 \<le> useful" "useful \<le> max 1 (real_of_int q)"
    by (simp_all add: useful_def of_int_max)
  have r: "0 \<le> rb" "rb \<le> 1"
    using ne length_filter_le [of "\<lambda>v. v < q" vals] by (simp_all add: rb_def divide_le_eq)
  define nu where "nu = (case dget (at_useful t) q of
      Some u \<Rightarrow> ema default_alpha u useful | None \<Rightarrow> useful)"
  define nr where "nr = (case dget (at_useful t) q of
      Some _ \<Rightarrow> ema default_alpha (dget_or (at_rollback t) q 0) rb | None \<Rightarrow> rb)"
  have upd: "acceptance_update q ls t = t\<lparr>at_useful := dset q nu (at_useful t),
      at_rollback := dset q nr (at_rollback t),
      at_samples := dset q (dget_or (at_samples t) q 0 + int (length vals)) (at_samples t)\<rparr>"
    using ne unfolding acceptance_update_def Let_def vals_def [symmetric] useful_def [symmetric]
      rb_def [symmetric] alpha nu_def nr_def
    by simp
  have nu: "1 \<le> nu \<and> nu \<le> max 1 (real_of_int q)"
  proof (cases "dget (at_useful t) q")
    case (Some v)
    then have "1 \<le> v \<and> v \<le> max 1 (real_of_int q)" using ok by (auto simp: acceptance_ok_def)
    with Some u show ?thesis
      by (simp add: nu_def default_ema.upd_lower default_ema.upd_upper del: max.bounded_iff)
  qed (use u in \<open>simp add: nu_def\<close>)
  have old: "0 \<le> dget_or (at_rollback t) q 0" "dget_or (at_rollback t) q 0 \<le> 1"
    using ok by (auto simp: acceptance_ok_def dget_or_def split: option.splits)
  have "0 \<le> ema default_alpha (dget_or (at_rollback t) q 0) rb"
      "ema default_alpha (dget_or (at_rollback t) q 0) rb \<le> 1"
    by (rule default_ema.upd_lower [OF old(1) r(1)], rule default_ema.upd_upper [OF old(2) r(2)])
  with r have nr: "0 \<le> nr \<and> nr \<le> 1" by (simp add: nr_def split: option.splits)
  have same: "(dget (at_useful t) k = None) = (dget (at_rollback t) k = None)"
      "dget (at_useful t) k = Some v \<Longrightarrow> 1 \<le> v \<and> v \<le> max 1 (real_of_int k)"
      "dget (at_rollback t) k = Some v \<Longrightarrow> 0 \<le> v \<and> v \<le> 1" for k v
    using ok unfolding acceptance_ok_def by blast+
  show ?thesis
    unfolding acceptance_ok_def upd using nu nr alpha
    by (auto simp: same(1) dest: same(2,3) split: if_splits)
qed (simp add: acceptance_update_def ok)

lemma acceptance_run_ok: "acceptance_ok (foldl (\<lambda>t (q, ls). acceptance_update q ls t) acceptance_new us)"
proof -
  have "acceptance_ok t \<Longrightarrow> acceptance_ok (foldl (\<lambda>t (q, ls). acceptance_update q ls t) t us)" for t
    by (induction us arbitrary: t) (auto simp: acceptance_update_ok)
  moreover have "acceptance_ok acceptance_new" by (simp add: acceptance_new_def acceptance_ok_def)
  ultimately show ?thesis by blast
qed

lemma dget_fold_dset:
  "dget (foldl (\<lambda>d q. dset q (f q) d) d qs) k = (if k \<in> set qs then Some (f k) else dget d k)"
  by (induction qs arbitrary: d) auto

text \<open>
  Whatever rounds were observed, the controller's view of every candidate length \<open>q\<close> is a
  number of useful tokens between 1 and \<open>q\<close> and a rollback probability between 0 and 1, so
  the clamps of the snapshot never change the estimate.
\<close>

theorem acceptance_estimates_bounded:
  fixes us :: "(int \<times> int list) list" and qs :: "int list" and q :: int
  defines "sn \<equiv> acceptance_snapshot_of qs
             (foldl (\<lambda>t (q, ls). acceptance_update q ls t) acceptance_new us)"
  assumes "q \<in> set qs" and "1 \<le> q"
  shows "\<exists>u r. dget (as_expected_useful_tokens sn) q = Some u \<and> 1 \<le> u \<and> u \<le> real_of_int q
    \<and> dget (as_rollback_probability sn) q = Some r \<and> 0 \<le> r \<and> r \<le> 1
    \<and> useful_tokens q sn = u \<and> rollback q sn = r"
proof -
  define t where "t = foldl (\<lambda>t (q, ls). acceptance_update q ls t) acceptance_new us"
  have ok: "acceptance_ok t" unfolding t_def by (rule acceptance_run_ok)
  define u where "u = dget_or (at_useful t) q (cold_useful q)"
  define r where "r = dget_or (at_rollback t) q (if q = 1 then 0 else 1 / 2)"
  have mx: "max 1 (real_of_int q) = real_of_int q" using assms(3) by simp
  have ub: "1 \<le> u \<and> u \<le> real_of_int q"
  proof (cases "dget (at_useful t) q")
    case None
    have "1 \<le> real_of_int q" using assms(3) by simp
    with None show ?thesis by (simp add: u_def dget_or_def cold_useful_def field_simps)
  next
    case (Some v)
    then have "1 \<le> v \<and> v \<le> max 1 (real_of_int q)" using ok by (auto simp: acceptance_ok_def)
    with Some show ?thesis unfolding mx by (simp add: u_def dget_or_def)
  qed
  have u: "dget (as_expected_useful_tokens sn) q = Some u" "1 \<le> u" "u \<le> real_of_int q"
    unfolding sn_def t_def [symmetric] using ub assms(2)
    by (simp_all add: acceptance_snapshot_of_def dget_fold_dset u_def)
  have r: "dget (as_rollback_probability sn) q = Some r" "0 \<le> r" "r \<le> 1"
    using assms(2) ok unfolding sn_def t_def [symmetric] r_def
    by (auto simp: acceptance_snapshot_of_def dget_fold_dset dget_or_def acceptance_ok_def
        split: option.splits)
  show ?thesis
    using u r by (intro exI [of _ u] exI [of _ r]) (simp add: useful_tokens_def rollback_def dget_or_def)
qed

theorem acceptance_estimates_bounded_witness:
  "\<exists>u. dget (as_expected_useful_tokens (acceptance_snapshot_of [1, 4]
       (foldl (\<lambda>t (q, ls). acceptance_update q ls t) acceptance_new [(4, [0, 2]), (4, [3])]))) 4
     = Some u \<and> 1 \<le> u \<and> u \<le> 4"
  using acceptance_estimates_bounded [of 4 "[1, 4]" "[(4, [0, 2]), (4, [3])]"] by auto

section \<open>Percentiles\<close>

text \<open>
  The percentile of a non-empty window is one of its samples, and the share of samples
  that do not exceed it is at least the quantile (up to the code's rounding term of one
  millionth of a sample).
\<close>

theorem percentile_covers:
  assumes "vals \<noteq> []" and "0 < quantile" and "quantile \<le> 1"
  shows "percentile vals quantile \<in> set vals
    \<and> quantile * real (length vals) - 1 / 1000000
        < real (length (filter (\<lambda>x. x \<le> percentile vals quantile) vals))"
proof -
  define n where "n = length vals"
  define y where "y = quantile * real n + 999999 / 1000000"
  define i where "i = nat (min (max 0 (py_int y - 1)) (int n - 1))"
  have n: "0 < n" using assms(1) by (simp add: n_def)
  have p: "percentile vals quantile = sort vals ! i"
    using assms(1) by (simp add: percentile_def i_def y_def n_def Let_def)
  have i: "i < n" unfolding i_def using n by (auto simp: min_def)
  have "quantile * real n \<le> real n" using assms(3) mult_right_mono [of quantile 1 "real n"] by simp
  then have yn: "y < real n + 1" by (simp add: y_def)
  have y0: "0 \<le> y" using assms(2) by (simp add: y_def)
  have "y < real_of_int (py_int y) + 1" using y0 by simp
  moreover have "py_int y \<le> int n" using y0 yn by (simp add: floor_le_iff)
  moreover have "int i + 1 \<ge> py_int y" using \<open>py_int y \<le> int n\<close> n unfolding i_def by auto
  ultimately have "y - 1 < real i + 1" by (smt (verit) of_int_add of_int_le_iff of_int_of_nat_eq of_int_1)
  then have lo: "quantile * real n - 1 / 1000000 < real (i + 1)" by (simp add: y_def)
  have "\<forall>j < i + 1. sort vals ! j \<le> sort vals ! i"
    using i by (auto simp: n_def intro: sorted_nth_mono)
  then have "filter (\<lambda>x. x \<le> sort vals ! i) (take (i + 1) (sort vals)) = take (i + 1) (sort vals)"
    by (auto simp: filter_id_conv in_set_conv_nth)
  then have "i + 1 \<le> length (filter (\<lambda>x. x \<le> sort vals ! i) (sort vals))"
    using i by (metis (no_types, lifting) Suc_eq_plus1 Suc_leI append_take_drop_id filter_append
        le_add1 length_append length_sort length_take min.absorb2 n_def)
  also have "\<dots> = length (filter (\<lambda>x. x \<le> sort vals ! i) vals)"
    by (metis mset_filter mset_sort size_mset)
  finally have "real (i + 1) \<le> real (length (filter (\<lambda>x. x \<le> sort vals ! i) vals))" by linarith
  moreover have "sort vals ! i \<in> set vals" using i by (metis length_sort n_def nth_mem set_sort)
  ultimately show ?thesis using lo unfolding p n_def by linarith
qed

theorem percentile_covers_witness:
  "percentile [3, 1, 2] (95 / 100) \<in> {1, 2, 3}
     \<and> 95 / 100 * 3 - 1 / 1000000 < real (length (filter (\<lambda>x. x \<le> percentile [3, 1, 2] (95 / 100)) [3, 1, 2]))"
  using percentile_covers [of "[3, 1, 2]" "95 / 100"] by auto

section \<open>Bounds of the load snapshot\<close>

datatype load_op = LoadResult real real int int | LoadReject

fun load_apply :: "load_tracker \<Rightarrow> load_op \<Rightarrow> load_tracker" where
  "load_apply t (LoadResult e to m n) = record_result e to m n t"
| "load_apply t LoadReject = record_reject t"

definition unit_list :: "real list \<Rightarrow> bool" where
  "unit_list xs \<longleftrightarrow> (\<forall>x \<in> set xs. 0 \<le> x \<and> x \<le> 1)"

definition load_ok :: "load_tracker \<Rightarrow> bool" where
  "load_ok t \<longleftrightarrow> 0 < lt_alpha t \<and> lt_alpha t \<le> 1 \<and> length (lt_rtt_ms t) \<le> lt_window t
     \<and> unit_list (lt_timeout t) \<and> unit_list (lt_reject t)
     \<and> 0 \<le> lt_missing_ratio_ema t \<and> lt_missing_ratio_ema t \<le> 1 \<and> 0 \<le> lt_rtt_ema_ms t"

lemma missing_ratio_unit: "0 \<le> missing_ratio m n \<and> missing_ratio m n \<le> 1"
proof -
  have "real_of_int (min (max m 0) (max n 0)) \<le> real_of_int (max (max n 0) 1)" by linarith
  then show ?thesis unfolding missing_ratio_def Let_def by (auto simp: divide_le_eq)
qed

lemma unit_push: "unit_list xs \<Longrightarrow> 0 \<le> x \<Longrightarrow> x \<le> 1 \<Longrightarrow> unit_list (push_window n x xs)"
  using set_push_window [of n x xs] by (auto simp: unit_list_def)

lemma load_apply_ok: "load_ok t \<Longrightarrow> load_ok (load_apply t x)"
proof (cases x)
  case (LoadResult e to m n)
  assume ok: "load_ok t"
  have a: "0 \<le> lt_alpha t" "lt_alpha t \<le> 1" using ok by (simp_all add: load_ok_def)
  note mr = missing_ratio_unit [of m n]
  have "0 \<le> ema (lt_alpha t) (lt_missing_ratio_ema t) (missing_ratio m n)"
      "ema (lt_alpha t) (lt_missing_ratio_ema t) (missing_ratio m n) \<le> 1"
      "0 \<le> ema (lt_alpha t) (lt_rtt_ema_ms t) (max e 0)"
    using ok mr by (auto intro!: ema_lower [OF a] ema_upper [OF a] simp: load_ok_def)
  with ok mr LoadResult show ?thesis
    by (simp add: load_ok_def record_result_def Let_def length_push_window unit_push)
qed (simp add: load_ok_def record_reject_def unit_push)

lemma load_run_ok: "load_ok t \<Longrightarrow> load_ok (foldl load_apply t xs)"
  by (induction xs arbitrary: t) (auto simp: load_apply_ok)

lemma mean_unit: "unit_list xs \<Longrightarrow> 0 \<le> mean xs \<and> mean xs \<le> 1"
proof (cases "xs = []")
  case False
  assume u: "unit_list xs"
  have "0 \<le> sum_list xs \<and> sum_list xs \<le> real (length xs)"
    using u by (induction xs) (auto simp: unit_list_def)
  with False show ?thesis by (simp add: mean_def divide_le_eq)
qed (simp add: mean_def)

text \<open>
  After any sequence of Drafter results and rejects the load snapshot holds at most one
  window of samples, and its timeout rate, missing ratio and reject rate are fractions between
  0 and 1.
\<close>

theorem load_snapshot_bounded:
  fixes xs :: "load_op list" and t0 :: load_tracker
  assumes "load_new window alpha = Inr t0"
  defines "sn \<equiv> load_snapshot_of (foldl load_apply t0 xs)"
  shows "ls_samples sn \<le> window
    \<and> 0 \<le> ls_timeout_rate sn \<and> ls_timeout_rate sn \<le> 1
    \<and> 0 \<le> ls_missing_ratio_ema sn \<and> ls_missing_ratio_ema sn \<le> 1
    \<and> 0 \<le> ls_reject_rate sn \<and> ls_reject_rate sn \<le> 1 \<and> 0 \<le> ls_rtt_ema_ms sn"
proof -
  let ?t = "foldl load_apply t0 xs"
  have t0: "load_ok t0" "int (lt_window t0) = window"
    using assms(1) by (auto simp: load_new_def load_ok_def unit_list_def split: if_splits)
  have win: "lt_window (foldl load_apply t xs) = lt_window t" for t
  proof (induction xs arbitrary: t)
    case (Cons x xs)
    then show ?case by (cases x) (simp_all add: record_result_def record_reject_def Let_def)
  qed simp
  have ok: "load_ok ?t" by (rule load_run_ok [OF t0(1)])
  then have "int (length (lt_rtt_ms ?t)) \<le> window" using win [of t0] t0(2) by (simp add: load_ok_def)
  with ok mean_unit [of "lt_timeout ?t"] mean_unit [of "lt_reject ?t"] show ?thesis
    unfolding sn_def load_snapshot_of_def by (simp add: load_ok_def)
qed

theorem load_snapshot_bounded_witness:
  "\<exists>t0. load_new 2 (1 / 5) = Inr t0
     \<and> ls_timeout_rate (load_snapshot_of (foldl load_apply t0
         [LoadResult 5 10 1 4, LoadReject, LoadResult 7 10 0 4, LoadResult 9 10 2 4])) \<le> 1
     \<and> ls_samples (load_snapshot_of (foldl load_apply t0
         [LoadResult 5 10 1 4, LoadReject, LoadResult 7 10 0 4, LoadResult 9 10 2 4])) \<le> 2"
proof -
  obtain t0 where t0: "load_new 2 (1 / 5) = Inr t0" by (simp add: load_new_def)
  from load_snapshot_bounded [OF t0] t0 show ?thesis by blast
qed

end
