(* ===== verification/IOController.thy ===== *)
theory IOController
  imports Trackers
begin

text \<open>
  The batch-level controller of mode and draft length: the cost model (\<open>cost_model.py\<close>), the
  single-GPU and multi-GPU policies (\<open>single_gpu_coexec_policy.py\<close>, \<open>multi_gpu_tp_policy.py\<close>)
  and \<open>IOAwareController\<close> (\<open>controller.py\<close>).  Python's floats are real numbers here; the check
  for non-finite estimates is the range test of binary64 on the exact totals.
\<close>

section \<open>Cost model\<close>

record batch_state =
  bs_batch_size :: int
  bs_context_tokens :: int
  bs_history_tokens :: int
  bs_history_bytes :: int
  bs_num_chunks :: int
  bs_no_draft_ratio :: real
  bs_rejected :: bool
  bs_high_overhead :: bool

record cost_profile =
  cp_h2d_gbps :: real
  cp_fill_drain_ms :: real
  cp_target_other_ms :: real
  cp_attention_chunk_ms_q1 :: real
  cp_tail_ms_q1 :: real
  cp_draft_base_ms :: real
  cp_draft_per_token_ms :: real
  cp_network_ms :: real
  cp_repair_ms :: real
  cp_target_compute_ratio :: real
  cp_exposed_copy_ms :: real

record candidate_cost =
  cc_q :: int
  cc_parallel_ms_per_useful_token :: real
  cc_ordinary_ms_per_useful_token :: real
  cc_verify_ms :: real
  cc_draft_ms :: real

text \<open>
  \<open>math.isfinite\<close>: a real total becomes an infinite binary64 number exactly from
  \<open>2 ^ 1024 - 2 ^ 970\<close> on, where rounding to nearest overflows.
\<close>

definition finite64 :: "real \<Rightarrow> bool" where
  "finite64 x \<longleftrightarrow> \<bar>x\<bar> < 2 ^ 1024 - 2 ^ 970"

definition estimate_candidate_cost ::
    "int \<Rightarrow> batch_state \<Rightarrow> cost_profile \<Rightarrow> acceptance_snapshot \<Rightarrow> candidate_cost res" where
  "estimate_candidate_cost q b p acc =
     (if q < 1 then Inl ValueError
      else
       let bandwidth = max (cp_h2d_gbps p) (1 / 1000000) * 1000000;
           copy_total = real_of_int (bs_history_bytes b) / bandwidth;
           chunks = real_of_int (max (bs_num_chunks b) 1);
           copy_chunk = copy_total / chunks;
           attention_chunk = cp_attention_chunk_ms_q1 p * (65 / 100 + 35 / 100 * real_of_int q);
           verify = cp_target_other_ms p + cp_fill_drain_ms p
                      + chunks * max copy_chunk attention_chunk
                      + cp_tail_ms_q1 p * real_of_int q;
           draft = cp_draft_base_ms p + cp_draft_per_token_ms p * real_of_int q;
           useful = useful_tokens q acc;
           rollback_cost = rollback q acc * cp_repair_ms p;
           parallel = max (draft + cp_network_ms p) verify + rollback_cost;
           ordinary = draft + cp_network_ms p + verify
       in if \<not> finite64 parallel \<or> \<not> finite64 ordinary then Inl ValueError
          else Inr \<lparr>cc_q = q, cc_parallel_ms_per_useful_token = parallel / useful,
               cc_ordinary_ms_per_useful_token = ordinary / useful,
               cc_verify_ms = verify, cc_draft_ms = draft\<rparr>)"

section \<open>Policies\<close>

datatype coexec = COEXEC | THROTTLE | SERIALIZE | FALLBACK

record single_constraint =
  sc_max_q :: int
  sc_coexec_mode :: coexec
  sc_reason :: string

definition single_constrain :: "int \<Rightarrow> single_constraint" where
  "single_constrain max_q =
     \<lparr>sc_max_q = max_q, sc_coexec_mode = COEXEC, sc_reason = ''deprecated_mps_policy_disabled''\<rparr>"

record multi_policy =
  mp_rank_skew_budget_ms :: real
  mp_target_slowdown_budget :: real

definition multi_new :: "real \<Rightarrow> real \<Rightarrow> multi_policy res" where
  "multi_new skew slowdown =
     rbind (raise_first [(skew < 0, ValueError), (slowdown < 0, ValueError)]) (\<lambda>_.
       Inr \<lparr>mp_rank_skew_budget_ms = skew, mp_target_slowdown_budget = slowdown\<rparr>)"

record multi_constraint =
  mc_max_q :: int
  mc_force_ordinary :: bool
  mc_coexec_mode :: coexec
  mc_reason :: string
  mc_fallback :: bool

definition multi_free :: "int \<Rightarrow> multi_constraint" where
  "multi_free max_q = \<lparr>mc_max_q = max_q, mc_force_ordinary = False, mc_coexec_mode = COEXEC,
     mc_reason = ''minimum_estimated_cost'', mc_fallback = False\<rparr>"

definition multi_constrain :: "multi_policy \<Rightarrow> int \<Rightarrow> straggler_snapshot \<Rightarrow> multi_constraint" where
  "multi_constrain p max_q sn =
     (if tn_samples sn = 0 then multi_free max_q
      else if 2 * mp_rank_skew_budget_ms p < tn_rank_skew_ms sn
              \<or> 2 * mp_target_slowdown_budget p < tn_target_slowdown sn
      then \<lparr>mc_max_q = 1, mc_force_ordinary = True, mc_coexec_mode = FALLBACK,
            mc_reason = ''tp_straggler_fallback'', mc_fallback = True\<rparr>
      else if mp_rank_skew_budget_ms p < tn_rank_skew_ms sn
              \<or> mp_target_slowdown_budget p < tn_target_slowdown sn
      then \<lparr>mc_max_q = min max_q 2, mc_force_ordinary = True, mc_coexec_mode = SERIALIZE,
            mc_reason = ''tp_straggler_throttle'', mc_fallback = False\<rparr>
      else multi_free max_q)"

section \<open>The controller\<close>

datatype spec_mode = Parallel | Ordinary

record decision =
  sd_q :: int
  sd_mode :: spec_mode
  sd_reason :: string
  sd_estimated_cost :: pyfloat
  sd_coexec_mode :: coexec
  sd_rank_skew_ms :: real
  sd_target_slowdown :: real

record io_controller =
  io_q_candidates :: "int list"
  io_switch_threshold :: real
  io_single_gpu :: bool
  io_multi_gpu :: "multi_policy option"
  io_last :: decision
  io_load :: load_tracker
  io_draft_backoff_rounds :: int

definition decision_mk :: "int \<Rightarrow> spec_mode \<Rightarrow> string \<Rightarrow> pyfloat \<Rightarrow> coexec \<Rightarrow> straggler_snapshot \<Rightarrow> decision" where
  "decision_mk q md reason cost co sn =
     \<lparr>sd_q = q, sd_mode = md, sd_reason = reason, sd_estimated_cost = cost, sd_coexec_mode = co,
      sd_rank_skew_ms = tn_rank_skew_ms sn, sd_target_slowdown = tn_target_slowdown sn\<rparr>"

record io_options =
  oo_draft_pressure_ratio :: real
  oo_draft_timeout_rate_threshold :: real
  oo_draft_pending_high_watermark :: int
  oo_phase_gating_enabled :: bool
  oo_compute_ratio_threshold :: real
  oo_tp_straggler_budget_ms :: real
  oo_target_slowdown_budget :: real

definition io_new ::
    "int list \<Rightarrow> real \<Rightarrow> io_options \<Rightarrow> bool \<Rightarrow> multi_policy option \<Rightarrow> io_controller res" where
  "io_new candidates threshold opt single multi =
     (let qs = sorted_list_of_set (set candidates) in
      rbind (raise_first
        [(qs = [] \<or> list_ex (\<lambda>q. q < 1) qs, ValueError),
         (\<not> (0 \<le> threshold \<and> threshold < 1), ValueError),
         (\<not> (0 < oo_draft_pressure_ratio opt \<and> oo_draft_pressure_ratio opt \<le> 1), ValueError),
         (\<not> (0 \<le> oo_draft_timeout_rate_threshold opt
              \<and> oo_draft_timeout_rate_threshold opt \<le> 1), ValueError),
         (oo_draft_pending_high_watermark opt < 1, ValueError),
         (\<not> (0 < oo_compute_ratio_threshold opt \<and> oo_compute_ratio_threshold opt \<le> 1), ValueError),
         (oo_tp_straggler_budget_ms opt < 0, ValueError),
         (oo_target_slowdown_budget opt < 0, ValueError)]) (\<lambda>_.
      rbind (load_new 32 default_alpha) (\<lambda>lt.
      Inr \<lparr>io_q_candidates = qs, io_switch_threshold = threshold,
           io_single_gpu = (single \<or> oo_phase_gating_enabled opt), io_multi_gpu = multi,
           io_last = decision_mk 1 Parallel ''cold_start'' PInf COEXEC (straggler_empty 0),
           io_load = lt, io_draft_backoff_rounds = 0\<rparr>)))"

definition record_draft_result ::
    "real \<Rightarrow> real option \<Rightarrow> real \<Rightarrow> int \<Rightarrow> int \<Rightarrow> io_controller \<Rightarrow> io_controller" where
  "record_draft_result elapsed rtt timeout missing tot c =
     (let c1 = c\<lparr>io_load := record_result (case rtt of None \<Rightarrow> elapsed | Some r \<Rightarrow> r) timeout
                              missing tot (io_load c)\<rparr>
      in if 0 < missing
         then let ratio = real_of_int (max missing 0) / real_of_int (max tot 1);
                  penalty = 4 + min 12 (py_round (12 * ratio))
              in c1\<lparr>io_draft_backoff_rounds := max (io_draft_backoff_rounds c) penalty\<rparr>
         else c1)"

definition record_draft_reject :: "io_controller \<Rightarrow> io_controller" where
  "record_draft_reject c = c\<lparr>io_load := record_reject (io_load c)\<rparr>"

text \<open>The limits that the policies put on a choice: largest length, forced mode, mode label, reason.\<close>

definition limits :: "io_controller \<Rightarrow> straggler_snapshot \<Rightarrow> int \<times> bool \<times> coexec \<times> string" where
  "limits c sn =
     (let max_q = Max (set (io_q_candidates c)) in
      case io_multi_gpu c of
        Some p \<Rightarrow>
          (let tc = multi_constrain p max_q sn in
           if mc_reason tc \<noteq> ''minimum_estimated_cost''
           then (mc_max_q tc, mc_force_ordinary tc, mc_coexec_mode tc, mc_reason tc)
           else if io_single_gpu c
           then (sc_max_q (single_constrain max_q), False, sc_coexec_mode (single_constrain max_q),
                 sc_reason (single_constrain max_q))
           else (max_q, False, COEXEC, ''minimum_estimated_cost''))
      | None \<Rightarrow>
          if io_single_gpu c
          then (sc_max_q (single_constrain max_q), False, sc_coexec_mode (single_constrain max_q),
                sc_reason (single_constrain max_q))
          else (max_q, False, COEXEC, ''minimum_estimated_cost''))"

definition eligible :: "io_controller \<Rightarrow> int \<Rightarrow> int list" where
  "eligible c max_q =
     (let qs = filter (\<lambda>q. q \<le> max_q) (io_q_candidates c)
      in if qs = [] then [Min (set (io_q_candidates c))] else qs)"

definition candidates_for ::
    "batch_state \<Rightarrow> cost_profile \<Rightarrow> acceptance_snapshot \<Rightarrow> bool \<Rightarrow> straggler_snapshot
      \<Rightarrow> bool \<Rightarrow> coexec \<Rightarrow> string \<Rightarrow> int \<Rightarrow> decision list res" where
  "candidates_for b p acc allow_ordinary sn force_ordinary co reason q =
     rbind (estimate_candidate_cost q b p acc) (\<lambda>cost.
       Inr ((if force_ordinary then []
             else [decision_mk q Parallel reason (Fin (cc_parallel_ms_per_useful_token cost)) co sn])
          @ (if allow_ordinary
             then [decision_mk q Ordinary reason (Fin (cc_ordinary_ms_per_useful_token cost))
                     SERIALIZE sn]
             else [])))"

text \<open>\<open>min(candidates, key=...)\<close>: the first of the cheapest; an empty list raises.\<close>

fun cheapest :: "decision list \<Rightarrow> decision option" where
  "cheapest [] = None"
| "cheapest (d # ds) =
     (case cheapest ds of None \<Rightarrow> Some d
      | Some e \<Rightarrow> if fin_val (sd_estimated_cost e) < fin_val (sd_estimated_cost d) then Some e
                  else Some d)"

definition same_choice :: "decision \<Rightarrow> decision \<Rightarrow> bool" where
  "same_choice d e \<longleftrightarrow> sd_q d = sd_q e \<and> sd_mode d = sd_mode e \<and> sd_coexec_mode d = sd_coexec_mode e"

definition with_hysteresis ::
    "io_controller \<Rightarrow> straggler_snapshot \<Rightarrow> decision list \<Rightarrow> decision \<Rightarrow> decision" where
  "with_hysteresis c sn cands best =
     (case find (\<lambda>d. same_choice d (io_last c)) cands of
        None \<Rightarrow> best
      | Some prev \<Rightarrow>
         let pc = fin_val (sd_estimated_cost prev) in
         if 0 < pc \<and> (pc - fin_val (sd_estimated_cost best)) / pc < io_switch_threshold c
         then decision_mk (sd_q prev) (sd_mode prev) ''hysteresis_hold'' (sd_estimated_cost prev)
                (sd_coexec_mode prev) sn
         else best)"

definition fallback_decision :: "string \<Rightarrow> straggler_snapshot \<Rightarrow> decision" where
  "fallback_decision reason sn = decision_mk 1 Ordinary reason (Fin 0) FALLBACK sn"

definition severe :: "io_controller \<Rightarrow> straggler_snapshot \<Rightarrow> bool" where
  "severe c sn = (case io_multi_gpu c of None \<Rightarrow> False
     | Some p \<Rightarrow> mc_fallback (multi_constrain p (Max (set (io_q_candidates c))) sn))"

definition io_choose ::
    "batch_state \<Rightarrow> cost_profile \<Rightarrow> acceptance_snapshot \<Rightarrow> bool \<Rightarrow> straggler_snapshot option
      \<Rightarrow> io_controller \<Rightarrow> decision res \<times> io_controller" where
  "io_choose b p acc allow_ordinary tp c =
     (let sn = (case tp of None \<Rightarrow> straggler_empty 0 | Some s \<Rightarrow> s) in
      if bs_rejected b \<or> bs_high_overhead b then
        (let d = fallback_decision ''safety_fallback'' sn in (Inr d, c\<lparr>io_last := d\<rparr>))
      else if 0 < io_draft_backoff_rounds c then
        (let d = fallback_decision ''draft_timeout_backoff'' sn
         in (Inr d, c\<lparr>io_draft_backoff_rounds := io_draft_backoff_rounds c - 1, io_last := d\<rparr>))
      else if severe c sn then
        (let d = fallback_decision ''tp_straggler_fallback'' sn in (Inr d, c\<lparr>io_last := d\<rparr>))
      else
       (case limits c sn of (max_q, force_ordinary, co, reason) \<Rightarrow>
        let qs = eligible c max_q;
            limited = Max (set qs) < Max (set (io_q_candidates c)) \<or> co \<noteq> COEXEC;
            why = (if limited then reason else ''minimum_estimated_cost'')
        in case rmap (candidates_for b p acc allow_ordinary sn force_ordinary co why) qs of
             Inl e \<Rightarrow> (Inl e, c)
           | Inr css \<Rightarrow>
              (case cheapest (concat css) of
                 None \<Rightarrow> (Inl ValueError, c)
               | Some best \<Rightarrow>
                  let d = with_hysteresis c sn (concat css) best
                  in (Inr d, c\<lparr>io_last := d\<rparr>))))"

section \<open>What a choice guarantees\<close>

definition io_ok :: "io_controller \<Rightarrow> bool" where
  "io_ok c \<longleftrightarrow> io_q_candidates c \<noteq> [] \<and> (\<forall>q \<in> set (io_q_candidates c). 1 \<le> q)
     \<and> 0 \<le> io_switch_threshold c \<and> io_switch_threshold c < 1
     \<and> 0 \<le> io_draft_backoff_rounds c \<and> io_draft_backoff_rounds c \<le> 16"

lemma io_new_ok: "io_new cands th opt single multi = Inr c \<Longrightarrow> io_ok c"
  by (auto simp: io_new_def io_ok_def rbind_Inr_iff Let_def list_ex_iff not_less)

lemma eligible_sub:
  assumes "io_ok c"
  shows "eligible c mx \<noteq> [] \<and> set (eligible c mx) \<subseteq> set (io_q_candidates c)"
proof -
  have "Min (set (io_q_candidates c)) \<in> set (io_q_candidates c)"
    using assms by (intro Min_in) (auto simp: io_ok_def)
  then show ?thesis by (auto simp: eligible_def Let_def)
qed

lemma cheapest_Some:
  "cheapest ds = Some d \<Longrightarrow> d \<in> set ds
     \<and> (\<forall>e \<in> set ds. fin_val (sd_estimated_cost d) \<le> fin_val (sd_estimated_cost e))"
proof (induction ds arbitrary: d)
  case (Cons x ds)
  show ?case
  proof (cases "cheapest ds")
    case None
    then have "ds = []" by (cases ds) (auto split: option.splits if_splits)
    with Cons.prems show ?thesis by simp
  next
    case (Some e)
    with Cons.IH [OF Some] Cons.prems show ?thesis by (auto split: if_splits)
  qed
qed simp

lemma cheapest_None: "cheapest ds = None \<longleftrightarrow> ds = []"
  by (cases ds) (auto split: option.splits)

lemma estimate_error: "estimate_candidate_cost q b p acc = Inl e \<Longrightarrow> e = ValueError"
  by (auto simp: estimate_candidate_cost_def Let_def split: if_splits)

lemma rmap_Inl: "rmap f xs = Inl e \<Longrightarrow> \<exists>x \<in> set xs. f x = Inl e"
  by (induction xs) (auto simp: rbind_Inl_iff)

text \<open>What a decision of one mode costs, and the modes a choice may consider.\<close>

definition mode_cost :: "spec_mode \<Rightarrow> candidate_cost \<Rightarrow> real" where
  "mode_cost md k = (case md of Parallel \<Rightarrow> cc_parallel_ms_per_useful_token k
     | Ordinary \<Rightarrow> cc_ordinary_ms_per_useful_token k)"

definition admissible :: "bool \<Rightarrow> bool \<Rightarrow> spec_mode \<Rightarrow> bool" where
  "admissible allow_ordinary force_ordinary md =
     (case md of Parallel \<Rightarrow> \<not> force_ordinary | Ordinary \<Rightarrow> allow_ordinary)"

lemma admissible_None: "\<not> (\<exists>md. admissible ao fo md) \<longleftrightarrow> fo \<and> \<not> ao"
  by (metis (full_types) admissible_def spec_mode.exhaust spec_mode.simps(3,4))

text \<open>The candidates of one length: one per admissible mode, each with the cost of that mode.\<close>

definition candidate_of ::
    "batch_state \<Rightarrow> cost_profile \<Rightarrow> acceptance_snapshot \<Rightarrow> bool \<Rightarrow> bool \<Rightarrow> coexec \<Rightarrow> decision \<Rightarrow> bool" where
  "candidate_of b p acc ao fo co d \<longleftrightarrow> admissible ao fo (sd_mode d)
     \<and> sd_coexec_mode d = (case sd_mode d of Parallel \<Rightarrow> co | Ordinary \<Rightarrow> SERIALIZE)
     \<and> (\<exists>k. estimate_candidate_cost (sd_q d) b p acc = Inr k
            \<and> sd_estimated_cost d = Fin (mode_cost (sd_mode d) k))"

lemma candidates_for_Inr:
  assumes "candidates_for b p acc ao sn fo co why q = Inr ds"
  shows "d \<in> set ds \<Longrightarrow> sd_q d = q \<and> candidate_of b p acc ao fo co d"
    and "admissible ao fo md \<Longrightarrow> \<exists>d \<in> set ds. sd_q d = q \<and> sd_mode d = md"
  using assms
  by (auto simp: candidates_for_def rbind_Inr_iff decision_mk_def candidate_of_def admissible_def
      mode_cost_def split: if_splits spec_mode.splits)

text \<open>The candidates a choice compares: every admissible mode of every eligible length.\<close>

lemma candidate_list:
  assumes css: "rmap (candidates_for b p acc ao sn fo co why) qs = Inr css"
  shows "d \<in> set (concat css) \<Longrightarrow> sd_q d \<in> set qs \<and> candidate_of b p acc ao fo co d"
    and "q \<in> set qs \<Longrightarrow> admissible ao fo md \<Longrightarrow> \<exists>d \<in> set (concat css). sd_q d = q \<and> sd_mode d = md"
proof -
  assume "d \<in> set (concat css)"
  then obtain ds where "ds \<in> set css" "d \<in> set ds" by auto
  with rmap_Inr_set [OF css] obtain q where "q \<in> set qs"
      "candidates_for b p acc ao sn fo co why q = Inr ds" by blast
  with candidates_for_Inr(1) \<open>d \<in> set ds\<close> show "sd_q d \<in> set qs \<and> candidate_of b p acc ao fo co d"
    by blast
next
  assume q: "q \<in> set qs" and md: "admissible ao fo md"
  obtain i where "i < length qs" "qs ! i = q" using q by (auto simp: in_set_conv_nth)
  with rmap_Inr_conv [OF css] have "candidates_for b p acc ao sn fo co why q = Inr (css ! i)"
      "css ! i \<in> set css" by auto
  with candidates_for_Inr(2) [OF _ md] show "\<exists>d \<in> set (concat css). sd_q d = q \<and> sd_mode d = md"
    by fastforce
qed

lemma hysteresis_cases:
  assumes "with_hysteresis c sn cands best = d"
  shows "d = best \<or> (\<exists>prev \<in> set cands. sd_q d = sd_q prev \<and> sd_mode d = sd_mode prev
      \<and> sd_estimated_cost d = sd_estimated_cost prev \<and> sd_coexec_mode d = sd_coexec_mode prev
      \<and> 0 < fin_val (sd_estimated_cost prev)
      \<and> (fin_val (sd_estimated_cost prev) - fin_val (sd_estimated_cost best))
          / fin_val (sd_estimated_cost prev) < io_switch_threshold c)"
  using assms
  by (auto simp: with_hysteresis_def Let_def decision_mk_def find_Some_iff split: option.splits if_splits)

text \<open>When no candidate compares, and what is compared otherwise.\<close>

definition no_candidates ::
    "batch_state \<Rightarrow> cost_profile \<Rightarrow> acceptance_snapshot \<Rightarrow> bool \<Rightarrow> bool \<Rightarrow> int list \<Rightarrow> bool" where
  "no_candidates b p acc ao fo qs \<longleftrightarrow>
     (\<exists>q \<in> set qs. estimate_candidate_cost q b p acc = Inl ValueError) \<or> fo \<and> \<not> ao"

lemma compare_cases:
  assumes "qs \<noteq> []"
  obtains "no_candidates b p acc ao fo qs"
      "rmap (candidates_for b p acc ao sn fo co why) qs = Inl ValueError
       \<or> (\<exists>css. rmap (candidates_for b p acc ao sn fo co why) qs = Inr css \<and> cheapest (concat css) = None)"
  | css best where "\<not> no_candidates b p acc ao fo qs"
      "rmap (candidates_for b p acc ao sn fo co why) qs = Inr css" "cheapest (concat css) = Some best"
proof (cases "rmap (candidates_for b p acc ao sn fo co why) qs")
  case (Inl e)
  then obtain q where "q \<in> set qs" "candidates_for b p acc ao sn fo co why q = Inl e" using rmap_Inl by blast
  then have "estimate_candidate_cost q b p acc = Inl e" by (simp add: candidates_for_def rbind_Inl_iff)
  moreover from this have "e = ValueError" by (rule estimate_error)
  ultimately show thesis using Inl that(1) \<open>q \<in> set qs\<close> by (auto simp: no_candidates_def)
next
  case (Inr css)
  have all: "\<exists>k. estimate_candidate_cost q b p acc = Inr k" if q: "q \<in> set qs" for q
  proof -
    obtain i where "i < length qs" "qs ! i = q" using q by (auto simp: in_set_conv_nth)
    with rmap_Inr_conv [OF Inr] show ?thesis by (auto simp: candidates_for_def rbind_Inr_iff)
  qed
  show thesis
  proof (cases "fo \<and> \<not> ao")
    case True
    then have "concat css = []"
      using candidate_list(1) [OF Inr] admissible_None [of ao fo]
      by (metis candidate_of_def list.set_intros(1) neq_Nil_conv)
    with True Inr that(1) show ?thesis by (simp add: no_candidates_def)
  next
    case False
    then obtain md where "admissible ao fo md" using admissible_None [of ao fo] by blast
    with candidate_list(2) [OF Inr, of "hd qs"] assms have "concat css \<noteq> []" by fastforce
    then obtain best where "cheapest (concat css) = Some best" using cheapest_None by fastforce
    moreover have "\<not> no_candidates b p acc ao fo qs" using all False unfolding no_candidates_def by fastforce
    ultimately show ?thesis using Inr that(2) by blast
  qed
qed

text \<open>The cost \<open>x\<close> of a decision is at most the threshold away from \<open>y\<close>.\<close>

definition near_optimal :: "real \<Rightarrow> real \<Rightarrow> real \<Rightarrow> bool" where
  "near_optimal th x y \<longleftrightarrow> x \<le> y \<or> (1 - th) * x < y"

lemma hysteresis_near:
  assumes best: "cheapest cands = Some best" and d: "d = with_hysteresis c sn cands best"
    and e: "e \<in> set cands"
  shows "near_optimal (io_switch_threshold c) (fin_val (sd_estimated_cost d)) (fin_val (sd_estimated_cost e))"
proof -
  note ch = cheapest_Some [OF best]
  have le: "fin_val (sd_estimated_cost best) \<le> fin_val (sd_estimated_cost e)" using ch e by blast
  from hysteresis_cases [OF d [symmetric]] show ?thesis
  proof (elim disjE bexE conjE)
    assume "d = best"
    with le show ?thesis by (simp add: near_optimal_def)
  next
    fix prev
    let ?p = "fin_val (sd_estimated_cost prev)" and ?b = "fin_val (sd_estimated_cost best)"
    assume "sd_estimated_cost d = sd_estimated_cost prev" "0 < ?p" "(?p - ?b) / ?p < io_switch_threshold c"
    then have "(1 - io_switch_threshold c) * ?p < ?b" by (simp add: field_simps)
    with le \<open>sd_estimated_cost d = sd_estimated_cost prev\<close> show ?thesis by (simp add: near_optimal_def)
  qed
qed

definition regular :: "batch_state \<Rightarrow> io_controller \<Rightarrow> straggler_snapshot \<Rightarrow> bool" where
  "regular b c sn \<longleftrightarrow> \<not> bs_rejected b \<and> \<not> bs_high_overhead b \<and> io_draft_backoff_rounds c = 0
     \<and> \<not> severe c sn"

lemma choose_fallback:
  assumes "io_ok c" and "sn = (case tp of None \<Rightarrow> straggler_empty 0 | Some s \<Rightarrow> s)" and "\<not> regular b c sn"
  shows "\<exists>reason c'. io_choose b p acc ao tp c = (Inr (fallback_decision reason sn), c')
    \<and> io_last c' = fallback_decision reason sn"
  using assms by (auto simp: io_choose_def regular_def io_ok_def Let_def)

lemma choose_regular_error:
  assumes "io_ok c" and "regular b c sn" and "sn = (case tp of None \<Rightarrow> straggler_empty 0 | Some s \<Rightarrow> s)"
    and lim: "limits c sn = (mx, fo, co, reason)" and none: "no_candidates b p acc ao fo (eligible c mx)"
  shows "io_choose b p acc ao tp c = (Inl ValueError, c)"
proof -
  have ne: "eligible c mx \<noteq> []" using eligible_sub [OF assms(1)] by blast
  let ?why = "if Max (set (eligible c mx)) < Max (set (io_q_candidates c)) \<or> co \<noteq> COEXEC
    then reason else ''minimum_estimated_cost''"
  show ?thesis
    by (rule compare_cases [OF ne, of b p acc ao fo sn co ?why])
      (use assms in \<open>auto simp: io_choose_def regular_def Let_def\<close>)
qed

lemma choose_regular:
  assumes "io_ok c" and "regular b c sn" and "sn = (case tp of None \<Rightarrow> straggler_empty 0 | Some s \<Rightarrow> s)"
    and lim: "limits c sn = (mx, fo, co, reason)" and some: "\<not> no_candidates b p acc ao fo (eligible c mx)"
  obtains why css best d where
      "rmap (candidates_for b p acc ao sn fo co why) (eligible c mx) = Inr css"
      "cheapest (concat css) = Some best" "d = with_hysteresis c sn (concat css) best"
      "io_choose b p acc ao tp c = (Inr d, c\<lparr>io_last := d\<rparr>)"
proof -
  have ne: "eligible c mx \<noteq> []" using eligible_sub [OF assms(1)] by blast
  let ?why = "if Max (set (eligible c mx)) < Max (set (io_q_candidates c)) \<or> co \<noteq> COEXEC
    then reason else ''minimum_estimated_cost''"
  obtain css best where css: "rmap (candidates_for b p acc ao sn fo co ?why) (eligible c mx) = Inr css"
      "cheapest (concat css) = Some best"
    by (rule compare_cases [OF ne, of b p acc ao fo sn co ?why]) (use some in auto)
  have "io_choose b p acc ao tp c = (Inr (with_hysteresis c sn (concat css) best),
      c\<lparr>io_last := with_hysteresis c sn (concat css) best\<rparr>)"
    using assms css unfolding io_choose_def regular_def by (simp add: Let_def)
  with css that show thesis by blast
qed

text \<open>
  C27: what a choice returns, for every batch and whether or not ordinary decoding is allowed.
  In a fallback situation (a rejected or overloaded batch, a running draft backoff, a severe TP
  straggler) it is the safe fallback of length 1.  Otherwise it raises \<open>ValueError\<close> and leaves
  the controller unchanged exactly when some eligible length has a non-finite estimate, or when
  the TP policy forces ordinary decoding and the caller forbids it.  In every other case it
  returns an eligible length and an admissible mode, recorded as the last decision together with
  the estimated cost of exactly that length in that mode; the mode is ordinary whenever the TP
  policy demands it, and that cost is within the switching threshold of the cost of every
  admissible pair of length and mode.
\<close>

theorem choose_sound:
  assumes "io_ok c" and "sn = (case tp of None \<Rightarrow> straggler_empty 0 | Some s \<Rightarrow> s)"
    and "limits c sn = (mx, fo, co, reason)"
  shows "if \<not> regular b c sn
    then \<exists>d c'. io_choose b p acc ao tp c = (Inr d, c') \<and> io_last c' = d
      \<and> sd_q d = 1 \<and> sd_mode d = Ordinary \<and> sd_coexec_mode d = FALLBACK
    else if (\<exists>q \<in> set (eligible c mx). estimate_candidate_cost q b p acc = Inl ValueError) \<or> fo \<and> \<not> ao
    then io_choose b p acc ao tp c = (Inl ValueError, c)
    else \<exists>d k. io_choose b p acc ao tp c = (Inr d, c\<lparr>io_last := d\<rparr>)
      \<and> sd_q d \<in> set (eligible c mx) \<and> sd_q d \<in> set (io_q_candidates c)
      \<and> admissible ao fo (sd_mode d)
      \<and> sd_coexec_mode d = (case sd_mode d of Parallel \<Rightarrow> co | Ordinary \<Rightarrow> SERIALIZE)
      \<and> estimate_candidate_cost (sd_q d) b p acc = Inr k
      \<and> sd_estimated_cost d = Fin (mode_cost (sd_mode d) k)
      \<and> (\<forall>q \<in> set (eligible c mx). \<forall>md. admissible ao fo md \<longrightarrow>
           (\<exists>k'. estimate_candidate_cost q b p acc = Inr k'
              \<and> near_optimal (io_switch_threshold c) (mode_cost (sd_mode d) k) (mode_cost md k')))"
proof -
  consider "\<not> regular b c sn" | "regular b c sn" "no_candidates b p acc ao fo (eligible c mx)"
    | "regular b c sn" "\<not> no_candidates b p acc ao fo (eligible c mx)" by blast
  then show ?thesis
  proof cases
    case 1
    with choose_fallback [OF assms(1,2) 1, of p acc ao] show ?thesis
      by (auto simp: fallback_decision_def decision_mk_def)
  next
    case 2
    with choose_regular_error [OF assms(1) _ assms(2,3)] show ?thesis by (simp add: no_candidates_def)
  next
    case 3
    obtain why css best d where css: "rmap (candidates_for b p acc ao sn fo co why) (eligible c mx) = Inr css"
      and best: "cheapest (concat css) = Some best" and d: "d = with_hysteresis c sn (concat css) best"
      and run: "io_choose b p acc ao tp c = (Inr d, c\<lparr>io_last := d\<rparr>)"
      using choose_regular [OF assms(1) 3(1) assms(2,3) 3(2)] .
    obtain e where e: "e \<in> set (concat css)" "sd_q d = sd_q e" "sd_mode d = sd_mode e"
        "sd_estimated_cost d = sd_estimated_cost e" "sd_coexec_mode d = sd_coexec_mode e"
      using hysteresis_cases [OF d [symmetric]] cheapest_Some [OF best] by blast
    note ce = candidate_list(1) [OF css e(1)]
    obtain k where k: "estimate_candidate_cost (sd_q d) b p acc = Inr k"
        "sd_estimated_cost d = Fin (mode_cost (sd_mode d) k)"
      using ce e(2-4) by (auto simp: candidate_of_def)
    have near: "\<exists>k'. estimate_candidate_cost q b p acc = Inr k'
        \<and> near_optimal (io_switch_threshold c) (mode_cost (sd_mode d) k) (mode_cost md k')"
      if q: "q \<in> set (eligible c mx)" "admissible ao fo md" for q md
    proof -
      obtain f where f: "f \<in> set (concat css)" "sd_q f = q" "sd_mode f = md"
        using candidate_list(2) [OF css q] by blast
      with candidate_list(1) [OF css f(1)] obtain k' where "estimate_candidate_cost q b p acc = Inr k'"
          "sd_estimated_cost f = Fin (mode_cost md k')" by (auto simp: candidate_of_def)
      with hysteresis_near [OF best d f(1)] k(2) show ?thesis by simp
    qed
    have "sd_q d \<in> set (eligible c mx)" "sd_q d \<in> set (io_q_candidates c)" "admissible ao fo (sd_mode d)"
        "sd_coexec_mode d = (case sd_mode d of Parallel \<Rightarrow> co | Ordinary \<Rightarrow> SERIALIZE)"
      using ce e eligible_sub [OF assms(1), of mx] by (auto simp: candidate_of_def)
    with run k near 3 show ?thesis unfolding no_candidates_def by auto
  qed
qed

definition ex_io :: io_controller where
  "ex_io = \<lparr>io_q_candidates = [1, 2, 4], io_switch_threshold = 8 / 100, io_single_gpu = False,
     io_multi_gpu = None,
     io_last = decision_mk 1 Parallel ''cold_start'' PInf COEXEC (straggler_empty 0),
     io_load = \<lparr>lt_window = 32, lt_alpha = 1 / 5, lt_rtt_ms = [], lt_pressure = [],
        lt_timeout = [], lt_missing_ratio = [], lt_pending = [], lt_reject = [],
        lt_rtt_ema_ms = 0, lt_missing_ratio_ema = 0\<rparr>,
     io_draft_backoff_rounds = 0\<rparr>"

definition ex_batch :: batch_state where
  "ex_batch = \<lparr>bs_batch_size = 1, bs_context_tokens = 100, bs_history_tokens = 64,
     bs_history_bytes = 1000, bs_num_chunks = 2, bs_no_draft_ratio = 0, bs_rejected = False,
     bs_high_overhead = False\<rparr>"

definition ex_costs :: cost_profile where
  "ex_costs = \<lparr>cp_h2d_gbps = 12, cp_fill_drain_ms = 1 / 20, cp_target_other_ms = 1 / 4,
     cp_attention_chunk_ms_q1 = 8 / 100, cp_tail_ms_q1 = 4 / 100, cp_draft_base_ms = 15 / 100,
     cp_draft_per_token_ms = 8 / 100, cp_network_ms = 1 / 20, cp_repair_ms = 1 / 5,
     cp_target_compute_ratio = 0, cp_exposed_copy_ms = 0\<rparr>"

theorem choose_sound_witness:
  "\<exists>d k. io_choose ex_batch ex_costs (acceptance_snapshot_of [1, 2, 4] acceptance_new) True None ex_io
       = (Inr d, ex_io\<lparr>io_last := d\<rparr>) \<and> sd_q d \<in> {1, 2, 4}
     \<and> estimate_candidate_cost (sd_q d) ex_batch ex_costs (acceptance_snapshot_of [1, 2, 4] acceptance_new) = Inr k
     \<and> sd_estimated_cost d = Fin (mode_cost (sd_mode d) k)"
proof -
  let ?acc = "acceptance_snapshot_of [1, 2, 4] acceptance_new"
  have ok: "io_ok ex_io" by (simp add: io_ok_def ex_io_def)
  have lim: "limits ex_io (straggler_empty 0) = (4, False, COEXEC, ''minimum_estimated_cost'')"
    by (simp add: limits_def ex_io_def Let_def)
  have reg: "regular ex_batch ex_io (straggler_empty 0)"
    by (simp add: regular_def ex_batch_def ex_io_def severe_def)
  have qs: "eligible ex_io 4 = [1, 2, 4]" "set (io_q_candidates ex_io) = {1, 2, 4}"
    by (simp_all add: eligible_def ex_io_def)
  have fin: "estimate_candidate_cost q ex_batch ex_costs ?acc \<noteq> Inl ValueError" if "q \<in> {1, 2, 4}" for q
    using that
    by (auto simp: estimate_candidate_cost_def Let_def ex_batch_def ex_costs_def finite64_def
        useful_tokens_def rollback_def acceptance_snapshot_of_def acceptance_new_def)
  show ?thesis
    using choose_sound [OF ok _ lim, of None ex_batch ex_costs ?acc True] reg fin
    unfolding qs by auto
qed

section \<open>Backing off after a lost draft\<close>

lemma penalty_bounds: "4 \<le> 4 + min 12 (py_round (12 * r)) \<and> 4 + min 12 (py_round (12 * r)) \<le> 16"
  if "0 \<le> r" for r
proof -
  have "- 1 / 2 \<le> real_of_int (py_round (12 * r))"
    using py_round_bounds [of "12 * r"] that by linarith
  then have "0 \<le> py_round (12 * r)" by linarith
  then show ?thesis by simp
qed

lemma record_draft_result_ok:
  assumes "io_ok c"
  shows "io_ok (record_draft_result e rtt t m n c)"
    and "0 < m \<Longrightarrow> 4 \<le> io_draft_backoff_rounds (record_draft_result e rtt t m n c)"
  using assms penalty_bounds [of "real_of_int (max m 0) / real_of_int (max n 1)"]
  by (auto simp: io_ok_def record_draft_result_def Let_def)

lemma choose_backoff:
  "io_draft_backoff_rounds (snd (io_choose b p acc ao tp c)) =
     (if bs_rejected b \<or> bs_high_overhead b \<or> io_draft_backoff_rounds c \<le> 0
      then io_draft_backoff_rounds c else io_draft_backoff_rounds c - 1)"
  unfolding io_choose_def Let_def
  by (auto split: prod.splits sum.splits option.splits)

lemma io_choose_ok: "io_ok c \<Longrightarrow> io_ok (snd (io_choose b p acc ao tp c))"
proof -
  assume ok: "io_ok c"
  have "io_q_candidates (snd (io_choose b p acc ao tp c)) = io_q_candidates c
      \<and> io_switch_threshold (snd (io_choose b p acc ao tp c)) = io_switch_threshold c"
    unfolding io_choose_def Let_def by (auto split: prod.splits sum.splits option.splits)
  with ok choose_backoff [of b p acc ao tp c] show ?thesis by (auto simp: io_ok_def)
qed

text \<open>A sequence of choices, each with its own batch, profile, acceptance, permission and snapshot.\<close>

type_synonym choice_input = "batch_state \<times> cost_profile \<times> acceptance_snapshot \<times> bool \<times> straggler_snapshot option"

fun choose_run :: "choice_input list \<Rightarrow> io_controller \<Rightarrow> io_controller" where
  "choose_run [] c = c"
| "choose_run ((b, p, acc, ao, tp) # xs) c = choose_run xs (snd (io_choose b p acc ao tp c))"

definition healthy :: "choice_input \<Rightarrow> bool" where
  "healthy x \<longleftrightarrow> \<not> bs_rejected (fst x) \<and> \<not> bs_high_overhead (fst x)"

lemma choose_run_backoff:
  "0 \<le> io_draft_backoff_rounds c \<Longrightarrow>
     io_draft_backoff_rounds (choose_run xs c)
       = max 0 (io_draft_backoff_rounds c - int (length (filter healthy xs)))"
proof (induction xs arbitrary: c)
  case (Cons x xs)
  obtain b p acc ao tp where x: "x = (b, p, acc, ao, tp)" by (cases x)
  let ?c = "snd (io_choose b p acc ao tp c)"
  have "0 \<le> io_draft_backoff_rounds ?c" using Cons.prems by (simp add: choose_backoff)
  with Cons.IH [of ?c] Cons.prems show ?case by (auto simp: x choose_backoff healthy_def)
qed simp

lemma choose_run_ok: "io_ok c \<Longrightarrow> io_ok (choose_run xs c)"
  by (induction xs c rule: choose_run.induct) (simp_all add: io_choose_ok)

text \<open>
  C32: a reported loss of drafts makes the controller decode without the Drafter for \<open>n\<close>
  rounds, at least four and at most sixteen.  Over every following sequence of choices, on any
  batches and until a further loss is reported, the counter falls by exactly one for each
  choice on a healthy batch (neither rejected nor overloaded), stays as it is on every other
  batch and ends at zero; and as long as fewer than \<open>n\<close> of the choices made were on healthy
  batches, the next choice is the ordinary fallback of length 1, whatever its batch.
\<close>

theorem draft_backoff_bounded:
  assumes "io_ok c" and "0 < missing"
    and "c1 = record_draft_result elapsed rtt timeout missing tot c" and "n = io_draft_backoff_rounds c1"
  shows "4 \<le> n \<and> n \<le> 16
    \<and> (\<forall>xs. io_draft_backoff_rounds (choose_run xs c1) = max 0 (n - int (length (filter healthy xs))))
    \<and> (\<forall>xs b p acc ao tp. int (length (filter healthy xs)) < n \<longrightarrow>
         (\<exists>d. fst (io_choose b p acc ao tp (choose_run xs c1)) = Inr d
            \<and> sd_q d = 1 \<and> sd_mode d = Ordinary \<and> sd_coexec_mode d = FALLBACK))"
proof -
  have ok: "io_ok c1" and n: "4 \<le> n" "n \<le> 16"
    using record_draft_result_ok(1) [OF assms(1), of elapsed rtt timeout missing tot]
      record_draft_result_ok(2) [OF assms(1,2), of elapsed rtt timeout tot] assms(3,4)
    by (auto simp: io_ok_def)
  have count: "io_draft_backoff_rounds (choose_run xs c1) = max 0 (n - int (length (filter healthy xs)))" for xs
    using choose_run_backoff [of c1 xs] n(1) assms(4) by simp
  have "\<exists>d. fst (io_choose b p acc ao tp (choose_run xs c1)) = Inr d
      \<and> sd_q d = 1 \<and> sd_mode d = Ordinary \<and> sd_coexec_mode d = FALLBACK"
    if "int (length (filter healthy xs)) < n" for xs b p acc ao tp
  proof -
    have "\<not> regular b (choose_run xs c1) sn" for sn using count [of xs] that by (simp add: regular_def)
    with choose_fallback [OF choose_run_ok [OF ok] refl, of b xs tp p acc ao] show ?thesis
      by (auto simp: fallback_decision_def decision_mk_def)
  qed
  with n count show ?thesis by blast
qed

theorem draft_backoff_bounded_witness:
  "let c1 = record_draft_result 30 None 20 1 4 ex_io;
       x = (ex_batch, ex_costs, acceptance_snapshot_of [1, 2, 4] acceptance_new, True, None)
   in io_draft_backoff_rounds (choose_run (replicate 16 x) c1) = 0
     \<and> io_draft_backoff_rounds (choose_run (replicate 3 x) c1) \<ge> 1
     \<and> (\<exists>d. fst (io_choose ex_batch ex_costs (acceptance_snapshot_of [1, 2, 4] acceptance_new) True None
           (choose_run (replicate 3 x) c1)) = Inr d \<and> sd_mode d = Ordinary)"
proof -
  let ?x = "(ex_batch, ex_costs, acceptance_snapshot_of [1, 2, 4] acceptance_new, True, None)"
  have ok: "io_ok ex_io" by (simp add: io_ok_def ex_io_def)
  have h: "healthy ?x" by (simp add: healthy_def ex_batch_def)
  have one: "0 < (1 :: int)" by simp
  note t = draft_backoff_bounded [OF ok one refl refl, of 30 None 20 4]
  from t have n: "4 \<le> io_draft_backoff_rounds (record_draft_result 30 None 20 1 4 ex_io)"
      "io_draft_backoff_rounds (record_draft_result 30 None 20 1 4 ex_io) \<le> 16" by auto
  have l: "length (filter healthy (replicate k ?x)) = k" for k using h by simp
  from t have "\<forall>xs. io_draft_backoff_rounds (choose_run xs (record_draft_result 30 None 20 1 4 ex_io))
      = max 0 (io_draft_backoff_rounds (record_draft_result 30 None 20 1 4 ex_io)
          - int (length (filter healthy xs)))" by simp
  then have "io_draft_backoff_rounds (choose_run (replicate 16 ?x) (record_draft_result 30 None 20 1 4 ex_io)) = 0"
      "io_draft_backoff_rounds (choose_run (replicate 3 ?x) (record_draft_result 30 None 20 1 4 ex_io)) \<ge> 1"
    using n by (simp_all only: l)
  moreover have "int (length (filter healthy (replicate 3 ?x)))
      < io_draft_backoff_rounds (record_draft_result 30 None 20 1 4 ex_io)" using n by (simp only: l)
  with t have "\<exists>d. fst (io_choose ex_batch ex_costs (acceptance_snapshot_of [1, 2, 4] acceptance_new) True None
      (choose_run (replicate 3 ?x) (record_draft_result 30 None 20 1 4 ex_io))) = Inr d \<and> sd_mode d = Ordinary"
    by blast
  ultimately show ?thesis unfolding Let_def by blast
qed

end
