(* ===== verification/HistoryStore.thy ===== *)
theory HistoryStore
  imports Prelude
begin

text \<open>
  \<open>CPUHistoryStore\<close> (\<open>speculative/spectre/specstream/cpu_history_store.py\<close>): the rank-local
  store of sealed KV.  A slab holds one chunk of tokens for every layer; a request owns an
  ordered chain of slabs; sealing copies the KV of GPU slots into new slabs and reading
  iterates the chain.  A stateful method that can raise returns its outcome together with the
  store as the method left it, because the code does not undo every write when it raises.

  The GPU side is a parameter: \<open>kv_pool\<close> says what the Target pool holds for a layer and a
  slot, with which row shapes, and when a gather raises (for instance on an out-of-memory);
  \<open>host_env\<close> says whether CUDA is present and whether pinned allocation succeeds.  A CUDA
  event is a number, and which events have completed is an argument of the methods that query
  them.  A copy is modelled at the moment it is enqueued: stream order makes the pool contents
  of that moment the ones that are copied.  The source's \<open>pending_sources\<close> lists are created
  empty and never filled, and a slice of the leading token dimension of a slab is contiguous,
  so the list and the contiguity check of the iterator are left out.
\<close>

section \<open>Data\<close>

record 'k kv_pool =
  kp_key :: "int \<Rightarrow> nat \<Rightarrow> 'k"
  kp_value :: "int \<Rightarrow> nat \<Rightarrow> 'k"
  kp_key_shape :: "int \<Rightarrow> int \<times> int"
  kp_value_shape :: "int \<Rightarrow> int \<times> int"
  kp_fails :: "int \<Rightarrow> nat list \<Rightarrow> bool"

record host_env =
  he_cuda :: bool
  he_pin_ok :: bool

record 'k packed_slab =
  sl_tensor :: "('k \<times> 'k) list list"  \<comment> \<open>per layer, the packed tokens written so far\<close>
  sl_abs_start :: int
  sl_used_tokens :: int
  sl_capacity_tokens :: int
  sl_nbytes :: int
  sl_pinned :: bool
  sl_ready_event :: "nat option"

record 'k layer_chunk =
  lc_slab_id :: nat
  lc_abs_start :: int
  lc_length :: int
  lc_tensor :: "('k \<times> 'k) list"
  lc_pinned :: bool

record seal_ticket =
  tk_block_ids :: "nat list"
  tk_event :: "nat option"
  tk_dependency_event :: "nat option"
  tk_completed :: bool

record 'k history_store =
  hs_max_memory_bytes :: int
  hs_chunk_tokens :: int
  hs_layer_ids :: "int list"
  hs_kv_heads :: int
  hs_head_dim :: int
  hs_element_size :: int
  hs_d2h_stream :: bool
  hs_next_id :: nat
  hs_next_event :: nat
  hs_slabs :: "(nat, 'k packed_slab) dict"
  hs_request_slabs :: "(string, nat list) dict"
  hs_bytes_reserved :: int
  hs_bytes_used :: int

section \<open>Operations\<close>

fun numel :: "int list \<Rightarrow> int" where
  "numel shape = foldl (*) 1 shape"

definition history_new ::
    "host_env \<Rightarrow> int \<Rightarrow> int \<Rightarrow> int list \<Rightarrow> int \<Rightarrow> int \<Rightarrow> int \<Rightarrow> bool \<Rightarrow> 'k history_store res" where
  "history_new env max_memory chunk layer_ids kv_heads head_dim elem device_is_cuda =
     (if max_memory < 1 \<or> chunk < 1 then Inl ValueError
      else if layer_ids = [] \<or> kv_heads < 1 \<or> head_dim < 1 then Inl ValueError
      else Inr \<lparr>hs_max_memory_bytes = max_memory, hs_chunk_tokens = chunk,
        hs_layer_ids = layer_ids, hs_kv_heads = kv_heads, hs_head_dim = head_dim,
        hs_element_size = elem, hs_d2h_stream = (device_is_cuda \<and> he_cuda env),
        hs_next_id = 0, hs_next_event = 0, hs_slabs = [], hs_request_slabs = [],
        hs_bytes_reserved = 0, hs_bytes_used = 0\<rparr>)"

definition slab_nbytes :: "'k history_store \<Rightarrow> int" where
  "slab_nbytes st =
     numel [int (length (hs_layer_ids st)), hs_chunk_tokens st, 2, hs_kv_heads st,
            hs_head_dim st] * hs_element_size st"

definition used_nbytes :: "'k history_store \<Rightarrow> int \<Rightarrow> int" where
  "used_nbytes st tokens =
     tokens * int (length (hs_layer_ids st)) * 2 * hs_kv_heads st * hs_head_dim st
       * hs_element_size st"

definition allocate_slab ::
    "host_env \<Rightarrow> string \<Rightarrow> int \<Rightarrow> 'k history_store \<Rightarrow> nat res \<times> 'k history_store" where
  "allocate_slab env rid abs_start st =
     (let nbytes = slab_nbytes st in
      if hs_max_memory_bytes st < hs_bytes_reserved st + nbytes then (Inl MemoryError, st)
      else
       let slab_id = hs_next_id st;
           slab = \<lparr>sl_tensor = replicate (length (hs_layer_ids st)) [],
                   sl_abs_start = abs_start, sl_used_tokens = 0,
                   sl_capacity_tokens = hs_chunk_tokens st, sl_nbytes = nbytes,
                   sl_pinned = (he_cuda env \<and> he_pin_ok env), sl_ready_event = None\<rparr>
       in (Inr slab_id,
           st\<lparr>hs_next_id := slab_id + 1,
              hs_slabs := dset slab_id slab (hs_slabs st),
              hs_request_slabs :=
                dset rid (dget_or (hs_request_slabs st) rid [] @ [slab_id])
                     (hs_request_slabs st),
              hs_bytes_reserved := hs_bytes_reserved st + nbytes\<rparr>))"

text \<open>The allocation loop: one slab per window of at most \<open>chunk_tokens\<close> slots.\<close>

fun alloc_loop ::
    "host_env \<Rightarrow> string \<Rightarrow> int \<Rightarrow> int \<Rightarrow> nat list list \<Rightarrow> 'k history_store
      \<Rightarrow> (nat \<times> nat list) list res \<times> 'k history_store" where
  "alloc_loop env rid abs_start cursor [] st = (Inr [], st)"
| "alloc_loop env rid abs_start cursor (w # ws) st =
     (case allocate_slab env rid (abs_start + cursor) st of
        (Inl e, st1) \<Rightarrow> (Inl e, st1)
      | (Inr slab_id, st1) \<Rightarrow>
         (case alloc_loop env rid abs_start (cursor + int (length w)) ws st1 of
            (Inl e, st2) \<Rightarrow> (Inl e, st2)
          | (Inr fills, st2) \<Rightarrow> (Inr ((slab_id, w) # fills), st2)))"

definition gather_packed ::
    "'k kv_pool \<Rightarrow> 'k history_store \<Rightarrow> nat list \<Rightarrow> int \<Rightarrow> ('k \<times> 'k) list res" where
  "gather_packed pool st slots layer_id =
     (if kp_fails pool layer_id slots then Inl RuntimeError
      else if kp_key_shape pool layer_id \<noteq> kp_value_shape pool layer_id then Inl ValueError
      else if kp_key_shape pool layer_id \<noteq> (hs_kv_heads st, hs_head_dim st)
        then Inl ValueError
      else Inr (map (\<lambda>s. (kp_key pool layer_id s, kp_value pool layer_id s)) slots))"

definition fill_slab ::
    "'k kv_pool \<Rightarrow> 'k history_store \<Rightarrow> nat \<times> nat list \<Rightarrow> 'k history_store res" where
  "fill_slab pool st fill =
     (case fill of (slab_id, slots) \<Rightarrow>
       rbind (rmap (gather_packed pool st slots) (hs_layer_ids st)) (\<lambda>data.
         case dget (hs_slabs st) slab_id of
           None \<Rightarrow> Inl KeyError
         | Some slab \<Rightarrow>
             Inr (st\<lparr>hs_slabs :=
                       dset slab_id (slab\<lparr>sl_tensor := data,
                                         sl_used_tokens := int (length slots)\<rparr>)
                            (hs_slabs st),
                     hs_bytes_used :=
                       hs_bytes_used st + used_nbytes st (int (length slots))\<rparr>)))"

text \<open>\<open>enqueue_copies\<close>: on an exception the slabs filled before it stay filled.\<close>

fun enqueue_copies ::
    "'k kv_pool \<Rightarrow> (nat \<times> nat list) list \<Rightarrow> 'k history_store
      \<Rightarrow> unit res \<times> 'k history_store" where
  "enqueue_copies pool [] st = (Inr (), st)"
| "enqueue_copies pool (f # fs) st =
     (case fill_slab pool st f of
        Inl e \<Rightarrow> (Inl e, st)
      | Inr st1 \<Rightarrow> enqueue_copies pool fs st1)"

definition discard_one :: "'k history_store \<Rightarrow> nat \<Rightarrow> 'k history_store" where
  "discard_one st slab_id =
     (case dget (hs_slabs st) slab_id of
        None \<Rightarrow> st
      | Some slab \<Rightarrow>
          st\<lparr>hs_slabs := ddel slab_id (hs_slabs st),
             hs_bytes_reserved := hs_bytes_reserved st - sl_nbytes slab,
             hs_bytes_used := hs_bytes_used st - used_nbytes st (sl_used_tokens slab)\<rparr>)"

definition discard_new_slabs ::
    "string \<Rightarrow> nat list \<Rightarrow> 'k history_store \<Rightarrow> 'k history_store" where
  "discard_new_slabs rid block_ids st =
     (let kept = filter (\<lambda>v. v \<notin> set block_ids) (dget_or (hs_request_slabs st) rid []);
          reqs = dset rid kept (hs_request_slabs st)
      in foldl discard_one
           (st\<lparr>hs_request_slabs := if kept = [] then ddel rid reqs else reqs\<rparr>) block_ids)"

definition set_ready :: "nat option \<Rightarrow> 'k history_store \<Rightarrow> nat \<Rightarrow> 'k history_store" where
  "set_ready ev st slab_id =
     (case dget (hs_slabs st) slab_id of
        None \<Rightarrow> st
      | Some slab \<Rightarrow>
          st\<lparr>hs_slabs := dset slab_id (slab\<lparr>sl_ready_event := ev\<rparr>) (hs_slabs st)\<rparr>)"

definition use_async :: "'k history_store \<Rightarrow> bool \<Rightarrow> (nat \<times> nat list) list \<Rightarrow> bool" where
  "use_async st slots_cuda fills \<longleftrightarrow>
     hs_d2h_stream st \<and> slots_cuda
     \<and> list_all (\<lambda>(sid, _). case dget (hs_slabs st) sid of
                                None \<Rightarrow> False | Some sl \<Rightarrow> sl_pinned sl) fills"

definition seal_slots_async ::
    "host_env \<Rightarrow> 'k kv_pool \<Rightarrow> bool \<Rightarrow> string \<Rightarrow> int \<Rightarrow> nat list \<Rightarrow> 'k history_store
      \<Rightarrow> seal_ticket res \<times> 'k history_store" where
  "seal_slots_async env pool slots_cuda rid abs_start slots st =
     (if slots = [] then
        (Inr \<lparr>tk_block_ids = [], tk_event = None, tk_dependency_event = None,
              tk_completed = False\<rparr>, st)
      else
       case alloc_loop env rid abs_start 0 (windows (nat (hs_chunk_tokens st)) slots) st of
         (Inl e, st1) \<Rightarrow> (Inl e, st1)
       | (Inr fills, st1) \<Rightarrow>
          (let block_ids = map fst fills;
               asyn = use_async st1 slots_cuda fills;
               dep = (if asyn then Some (hs_next_event st1) else None);
               fin = (if asyn then Some (hs_next_event st1 + 1) else None)
           in case enqueue_copies pool fills st1 of
                (Inl e, st2) \<Rightarrow> (Inl e, discard_new_slabs rid block_ids st2)
              | (Inr _, st2) \<Rightarrow>
                  (Inr \<lparr>tk_block_ids = block_ids, tk_event = fin,
                        tk_dependency_event = dep, tk_completed = False\<rparr>,
                   (foldl (set_ready fin) st2 block_ids)
                     \<lparr>hs_next_event := (if asyn then hs_next_event st2 + 2
                                       else hs_next_event st2)\<rparr>)))"

definition complete_seal ::
    "(nat \<Rightarrow> bool) \<Rightarrow> bool \<Rightarrow> seal_ticket \<Rightarrow> 'k history_store
      \<Rightarrow> bool \<times> seal_ticket \<times> 'k history_store" where
  "complete_seal done wait t st =
     (if tk_completed t then (True, t, st)
      else if (case tk_event t of None \<Rightarrow> False | Some ev \<Rightarrow> \<not> wait \<and> \<not> done ev)
        then (False, t, st)
      else (True, t\<lparr>tk_dependency_event := None, tk_event := None, tk_completed := True\<rparr>,
            foldl (set_ready None) st (tk_block_ids t)))"

fun index_of :: "'a list \<Rightarrow> 'a \<Rightarrow> nat option" where
  "index_of [] x = None"
| "index_of (y # ys) x = (if y = x then Some 0 else map_option Suc (index_of ys x))"

text \<open>
  The loop of \<open>iter_layer_chunks\<close>, consumed to its end as every caller does
  (\<open>list(...)\<close>).
\<close>

fun iter_loop ::
    "string \<Rightarrow> nat \<Rightarrow> int option \<Rightarrow> nat list \<Rightarrow> int \<Rightarrow> 'k history_store
      \<Rightarrow> 'k layer_chunk list res \<times> 'k history_store" where
  "iter_loop rid off hend [] expected st = (Inr [], st)"
| "iter_loop rid off hend (sid # sids) expected st =
     (case dget (hs_slabs st) sid of
        None \<Rightarrow> (Inl KeyError, st)
      | Some slab \<Rightarrow>
         (let st1 = (if sl_ready_event slab \<noteq> None then set_ready None st sid else st) in
          if sl_abs_start slab \<noteq> expected then (Inl AssertionError, st1)
          else
           let len = (case hend of None \<Rightarrow> sl_used_tokens slab
                      | Some e \<Rightarrow> min (sl_used_tokens slab) (max 0 (e - sl_abs_start slab)))
           in if len \<le> 0 then (Inr [], st1)
              else
               let chunk = \<lparr>lc_slab_id = sid, lc_abs_start = sl_abs_start slab,
                            lc_length = len,
                            lc_tensor = take (nat len) (sl_tensor slab ! off),
                            lc_pinned = sl_pinned slab\<rparr>;
                   expected' = sl_abs_start slab + sl_used_tokens slab
               in if (case hend of None \<Rightarrow> False | Some e \<Rightarrow> e \<le> expected')
                  then (Inr [chunk], st1)
                  else case iter_loop rid off hend sids expected' st1 of
                         (r, st2) \<Rightarrow> (rbind r (\<lambda>cs. Inr (chunk # cs)), st2)))"

definition iter_layer_chunks ::
    "string \<Rightarrow> int \<Rightarrow> int option \<Rightarrow> 'k history_store
      \<Rightarrow> 'k layer_chunk list res \<times> 'k history_store" where
  "iter_layer_chunks rid layer_id hend st =
     (case index_of (hs_layer_ids st) layer_id of
        None \<Rightarrow> (Inl IndexError, st)
      | Some off \<Rightarrow> iter_loop rid off hend (dget_or (hs_request_slabs st) rid []) 0 st)"

definition request_block_ids :: "string \<Rightarrow> 'k history_store \<Rightarrow> nat list" where
  "request_block_ids rid st = dget_or (hs_request_slabs st) rid []"

fun release_loop :: "nat list \<Rightarrow> 'k history_store \<Rightarrow> unit res \<times> 'k history_store" where
  "release_loop [] st = (Inr (), st)"
| "release_loop (sid # sids) st =
     (case dget (hs_slabs st) sid of
        None \<Rightarrow> (Inl KeyError, st)
      | Some slab \<Rightarrow> release_loop sids (discard_one st sid))"

definition release :: "string \<Rightarrow> 'k history_store \<Rightarrow> unit res \<times> 'k history_store" where
  "release rid st =
     release_loop (dget_or (hs_request_slabs st) rid [])
       (st\<lparr>hs_request_slabs := ddel rid (hs_request_slabs st)\<rparr>)"

fun clear_loop :: "string list \<Rightarrow> 'k history_store \<Rightarrow> unit res \<times> 'k history_store" where
  "clear_loop [] st = (Inr (), st)"
| "clear_loop (rid # rids) st =
     (case release rid st of
        (Inl e, st1) \<Rightarrow> (Inl e, st1)
      | (Inr _, st1) \<Rightarrow> clear_loop rids st1)"

definition clear :: "'k history_store \<Rightarrow> unit res \<times> 'k history_store" where
  "clear st = clear_loop (map fst (hs_request_slabs st)) st"


section \<open>Accounting and ownership invariant\<close>

definition slab_ok :: "'k history_store \<Rightarrow> 'k packed_slab \<Rightarrow> bool" where
  "slab_ok st sl \<longleftrightarrow> sl_nbytes sl = slab_nbytes st \<and> 0 \<le> sl_used_tokens sl
     \<and> sl_used_tokens sl \<le> hs_chunk_tokens st
     \<and> length (sl_tensor sl) = length (hs_layer_ids st)
     \<and> (\<forall>t \<in> set (sl_tensor sl). int (length t) = sl_used_tokens sl)"

definition geometry_ok :: "'k history_store \<Rightarrow> bool" where
  "geometry_ok st \<longleftrightarrow> 0 < hs_max_memory_bytes st \<and> 0 < hs_chunk_tokens st
     \<and> hs_layer_ids st \<noteq> [] \<and> 0 < hs_kv_heads st \<and> 0 < hs_head_dim st
     \<and> 0 < hs_element_size st"

definition slabs_ok :: "'k history_store \<Rightarrow> bool" where
  "slabs_ok st \<longleftrightarrow> geometry_ok st \<and> dict_ok (hs_slabs st)
     \<and> (\<forall>k sl. (k, sl) \<in> set (hs_slabs st) \<longrightarrow> k < hs_next_id st \<and> slab_ok st sl)
     \<and> hs_bytes_reserved st = dsum sl_nbytes (hs_slabs st)
     \<and> hs_bytes_used st = dsum (\<lambda>sl. used_nbytes st (sl_used_tokens sl)) (hs_slabs st)
     \<and> hs_bytes_reserved st \<le> hs_max_memory_bytes st"

text \<open>
  Every slab is owned by exactly one request, once; \<open>pend\<close> are the slabs a running release
  has already detached from its request.
\<close>

definition owned_ok :: "nat list \<Rightarrow> 'k history_store \<Rightarrow> bool" where
  "owned_ok pend st \<longleftrightarrow> dict_ok (hs_request_slabs st)
     \<and> dsum mset (hs_request_slabs st) + mset pend = dkeys (hs_slabs st)"

definition store_ok :: "'k history_store \<Rightarrow> bool" where
  "store_ok st \<longleftrightarrow> slabs_ok st \<and> owned_ok [] st"

lemma geometry_update [simp]:
  "slab_nbytes (st\<lparr>hs_slabs := a\<rparr>) = slab_nbytes st"
  "slab_nbytes (st\<lparr>hs_request_slabs := b\<rparr>) = slab_nbytes st"
  "slab_nbytes (st\<lparr>hs_bytes_used := c\<rparr>) = slab_nbytes st"
  "slab_nbytes (st\<lparr>hs_bytes_reserved := c\<rparr>) = slab_nbytes st"
  "slab_nbytes (st\<lparr>hs_next_id := n\<rparr>) = slab_nbytes st"
  "slab_nbytes (st\<lparr>hs_next_event := n\<rparr>) = slab_nbytes st"
  "used_nbytes (st\<lparr>hs_slabs := a\<rparr>) = used_nbytes st"
  "used_nbytes (st\<lparr>hs_request_slabs := b\<rparr>) = used_nbytes st"
  "used_nbytes (st\<lparr>hs_bytes_used := c\<rparr>) = used_nbytes st"
  "used_nbytes (st\<lparr>hs_bytes_reserved := c\<rparr>) = used_nbytes st"
  "used_nbytes (st\<lparr>hs_next_id := n\<rparr>) = used_nbytes st"
  "used_nbytes (st\<lparr>hs_next_event := n\<rparr>) = used_nbytes st"
  by (auto simp: slab_nbytes_def used_nbytes_def fun_eq_iff)

text \<open>No operation changes the budget, the chunk size or the shape of a row.\<close>

definition geometry :: "'k history_store \<Rightarrow> int \<times> int \<times> int list \<times> int \<times> int \<times> int" where
  "geometry st = (hs_max_memory_bytes st, hs_chunk_tokens st, hs_layer_ids st, hs_kv_heads st,
     hs_head_dim st, hs_element_size st)"

lemma geometryD:
  assumes "geometry st' = geometry st"
  shows "hs_layer_ids st' = hs_layer_ids st" "hs_chunk_tokens st' = hs_chunk_tokens st"
    "slab_nbytes st' = slab_nbytes st" "used_nbytes st' = used_nbytes st"
  using assms by (simp_all add: geometry_def slab_nbytes_def used_nbytes_def fun_eq_iff)

lemma geometry_step [simp]:
  "geometry (snd (allocate_slab env rid a st)) = geometry st"
  "geometry (discard_one st k) = geometry st"
  "geometry (set_ready ev st k) = geometry st"
  "geometry (st\<lparr>hs_request_slabs := r\<rparr>) = geometry st"
  "geometry (st\<lparr>hs_next_event := n\<rparr>) = geometry st"
  by (auto simp: geometry_def allocate_slab_def discard_one_def set_ready_def Let_def
      split: option.splits)

lemma geometry_foldl:
  "(\<And>st k. geometry (f st k) = geometry st) \<Longrightarrow> geometry (foldl f st ks) = geometry st"
  by (induction ks arbitrary: st) simp_all

lemma geometry_alloc_loop:
  "alloc_loop env rid a c ws st = (r, st') \<Longrightarrow> geometry st' = geometry st"
proof (induction ws arbitrary: c st r)
  case (Cons w ws)
  obtain r1 st1 where a: "allocate_slab env rid (a + c) st = (r1, st1)" by force
  have g: "geometry st1 = geometry st" using geometry_step(1) [of env rid "a + c" st] a by simp
  show ?case
  proof (cases r1)
    case (Inr k)
    obtain r2 st2 where l: "alloc_loop env rid a (c + int (length w)) ws st1 = (r2, st2)" by force
    with Cons.prems a Inr have "st2 = st'" by (simp split: sum.splits)
    with Cons.IH l g show ?thesis by metis
  qed (use Cons.prems a g in simp)
qed simp

lemma geometry_fill: "fill_slab pool st f = Inr st' \<Longrightarrow> geometry st' = geometry st"
  by (auto simp: fill_slab_def rbind_Inr_iff geometry_def split: prod.splits option.splits)

lemma geometry_enqueue [simp]: "geometry (snd (enqueue_copies pool fs st)) = geometry st"
  by (induction fs arbitrary: st) (auto dest: geometry_fill split: sum.splits)

lemma geometry_discard_new [simp]: "geometry (discard_new_slabs rid ks st) = geometry st"
  unfolding discard_new_slabs_def Let_def by (subst geometry_foldl) simp_all

lemma geometry_fold_set_ready [simp]: "geometry (foldl (set_ready ev) st ks) = geometry st"
  by (rule geometry_foldl) simp

lemma geometry_seal:
  assumes "seal_slots_async env pool cu rid a slots st = (r, st')"
  shows "geometry st' = geometry st"
proof -
  obtain r1 st1 where al:
    "alloc_loop env rid a 0 (windows (nat (hs_chunk_tokens st)) slots) st = (r1, st1)" by force
  have g1: "geometry st1 = geometry st" using al by (rule geometry_alloc_loop)
  have g2: "geometry (snd (enqueue_copies pool fills st1)) = geometry st" for fills
    by (simp add: g1)
  show ?thesis
  proof (cases r1)
    case (Inr fills)
    then show ?thesis
      using assms al g1 g2 [of fills]
      by (cases "enqueue_copies pool fills st1", cases "fst (enqueue_copies pool fills st1)")
         (auto simp: seal_slots_async_def Let_def split: if_splits)
  qed (use assms al g1 in \<open>auto simp: seal_slots_async_def split: if_splits\<close>)
qed

lemma used_nbytes_0 [simp]: "used_nbytes st 0 = 0"
  by (simp add: used_nbytes_def)

lemma used_le_nbytes:
  assumes "geometry_ok st" and "0 \<le> n" and "n \<le> hs_chunk_tokens st"
  shows "0 \<le> used_nbytes st n" and "used_nbytes st n \<le> slab_nbytes st"
proof -
  let ?c = "int (length (hs_layer_ids st)) * 2 * hs_kv_heads st * hs_head_dim st
              * hs_element_size st"
  have c: "0 \<le> ?c" using assms(1) by (simp add: geometry_ok_def)
  have u: "used_nbytes st n = n * ?c" by (simp add: used_nbytes_def ac_simps)
  have s: "slab_nbytes st = hs_chunk_tokens st * ?c" by (simp add: slab_nbytes_def ac_simps)
  show "0 \<le> used_nbytes st n" unfolding u by (rule mult_nonneg_nonneg [OF assms(2) c])
  show "used_nbytes st n \<le> slab_nbytes st"
    unfolding u s by (rule mult_right_mono [OF assms(3) c])
qed

lemma slabs_ok_cong:
  assumes "slabs_ok st"
  shows "slabs_ok (st\<lparr>hs_request_slabs := r\<rparr>)" and "slabs_ok (st\<lparr>hs_next_event := e\<rparr>)"
  using assms by (auto simp: slabs_ok_def slab_ok_def geometry_ok_def)

lemma slabs_ok_get:
  "slabs_ok st \<Longrightarrow> dget (hs_slabs st) k = Some sl \<Longrightarrow> k < hs_next_id st \<and> slab_ok st sl"
  by (auto simp: slabs_ok_def dest: dget_set)

lemma set_dset: "(k', v') \<in> set (dset k v d) \<Longrightarrow> dict_ok d \<Longrightarrow>
    (k' = k \<and> v' = v) \<or> (k' \<noteq> k \<and> (k', v') \<in> set d)"
  by (metis dict_ok_dset dget_dset dget_iff option.inject)

lemma set_ddel: "(k', v') \<in> set (ddel k d) \<Longrightarrow> k' \<noteq> k \<and> (k', v') \<in> set d"
  by (auto simp: AList.delete_eq)

text \<open>Overwriting a slab in place, with the counters moved by the difference.\<close>

lemma slabs_ok_overwrite:
  assumes ok: "slabs_ok st" and get: "dget (hs_slabs st) k = Some sl" and new: "slab_ok st sl'"
    and used: "u = hs_bytes_used st + used_nbytes st (sl_used_tokens sl')
                 - used_nbytes st (sl_used_tokens sl)"
  shows "slabs_ok (st\<lparr>hs_slabs := dset k sl' (hs_slabs st), hs_bytes_used := u\<rparr>)"
proof -
  have old: "k < hs_next_id st" "slab_ok st sl" using slabs_ok_get [OF ok get] by auto
  have d: "dict_ok (hs_slabs st)" using ok by (simp add: slabs_ok_def)
  have "dsum sl_nbytes (dset k sl' (hs_slabs st)) = dsum sl_nbytes (hs_slabs st)"
    using dsum_dset [of sl_nbytes k sl' "hs_slabs st"] get old(2) new by (simp add: slab_ok_def)
  moreover have "dsum (\<lambda>sl. used_nbytes st (sl_used_tokens sl)) (dset k sl' (hs_slabs st)) = u"
    using dsum_dset [of "\<lambda>sl. used_nbytes st (sl_used_tokens sl)" k sl' "hs_slabs st"] get used ok
    by (simp add: slabs_ok_def)
  ultimately show ?thesis
    using ok new old(1) d by (auto simp: slabs_ok_def slab_ok_def geometry_ok_def dest: set_dset)
qed

lemma set_ready_ok:
  assumes "slabs_ok st"
  shows "slabs_ok (set_ready ev st k)"
proof (cases "dget (hs_slabs st) k")
  case (Some sl)
  have "slab_ok st (sl\<lparr>sl_ready_event := ev\<rparr>)"
    using slabs_ok_get [OF assms Some] by (simp add: slab_ok_def)
  then have "slabs_ok (st\<lparr>hs_slabs := dset k (sl\<lparr>sl_ready_event := ev\<rparr>) (hs_slabs st),
      hs_bytes_used := hs_bytes_used st\<rparr>)"
    by (intro slabs_ok_overwrite [OF assms Some]) simp_all
  with Some show ?thesis by (simp add: set_ready_def)
qed (simp add: set_ready_def assms)

lemma set_ready_owned: "owned_ok p st \<Longrightarrow> owned_ok p (set_ready ev st k)"
  by (auto simp: set_ready_def owned_ok_def dkeys_dset split: option.splits)

lemma fold_set_ready_ok:
  "store_ok st \<Longrightarrow> store_ok (foldl (set_ready ev) st ks)"
  by (induction ks arbitrary: st) (auto simp: store_ok_def set_ready_ok set_ready_owned)

lemma allocate_slab_ok:
  assumes ok: "store_ok st" and alloc: "allocate_slab env rid a st = (r, st')"
  shows "store_ok st'"
proof (cases "hs_max_memory_bytes st < hs_bytes_reserved st + slab_nbytes st")
  case False
  define sl :: "'a packed_slab" where "sl = \<lparr>sl_tensor = replicate (length (hs_layer_ids st)) [],
    sl_abs_start = a, sl_used_tokens = 0, sl_capacity_tokens = hs_chunk_tokens st,
    sl_nbytes = slab_nbytes st, sl_pinned = (he_cuda env \<and> he_pin_ok env),
    sl_ready_event = None :: nat option\<rparr>"
  have s: "slabs_ok st" and o1: "owned_ok [] st" using ok by (auto simp: store_ok_def)
  have none: "dget (hs_slabs st) (hs_next_id st) = None"
    using slabs_ok_get [OF s] by (cases "dget (hs_slabs st) (hs_next_id st)") force+
  have st': "st' = st\<lparr>hs_next_id := hs_next_id st + 1,
      hs_slabs := dset (hs_next_id st) sl (hs_slabs st),
      hs_request_slabs := dset rid (dget_or (hs_request_slabs st) rid [] @ [hs_next_id st])
                            (hs_request_slabs st),
      hs_bytes_reserved := hs_bytes_reserved st + slab_nbytes st\<rparr>"
    using False alloc by (auto simp: allocate_slab_def Let_def sl_def)
  have "dsum f (dset (hs_next_id st) sl (hs_slabs st)) = dsum f (hs_slabs st) + f sl"
    for f :: "_ \<Rightarrow> int"
    using dsum_dset [of f "hs_next_id st" sl "hs_slabs st"] none by simp
  then have "slabs_ok st'"
    using s False unfolding st' slabs_ok_def
    by (auto simp: slab_ok_def geometry_ok_def sl_def intro: less_SucI dest!: set_dset)
  moreover have "owned_ok [] st'"
    using o1 none
      dsum_dset [of mset rid "dget_or (hs_request_slabs st) rid [] @ [hs_next_id st]"
        "hs_request_slabs st"]
    unfolding st' owned_ok_def
    by (auto simp: dkeys_dset dget_or_def split: option.splits)
  ultimately show ?thesis by (simp add: store_ok_def)
qed (use assms in \<open>simp add: allocate_slab_def Let_def\<close>)

lemma alloc_loop_ok:
  "store_ok st \<Longrightarrow> alloc_loop env rid a c ws st = (r, st') \<Longrightarrow> store_ok st'"
proof (induction ws arbitrary: c st r st')
  case (Cons w ws)
  obtain r1 st1 where a: "allocate_slab env rid (a + c) st = (r1, st1)" by force
  have ok1: "store_ok st1" using Cons.prems(1) a by (rule allocate_slab_ok)
  obtain r2 st2 where l: "alloc_loop env rid a (c + int (length w)) ws st1 = (r2, st2)" by force
  have "store_ok st2" using ok1 l by (rule Cons.IH)
  then show ?case using Cons.prems(2) ok1 a l by (auto split: sum.splits)
qed simp


section \<open>What a chain of slabs holds\<close>

text \<open>
  The content of a slab without its event bookkeeping; \<open>chain\<close> says that a list of slabs
  covers the token positions from \<open>s\<close> to \<open>e\<close> without a gap, and \<open>toks\<close> is the key and
  value rows it holds for the layer at offset \<open>off\<close>.
\<close>

definition slab_view :: "'k packed_slab \<Rightarrow> int \<times> int \<times> ('k \<times> 'k) list list" where
  "slab_view sl = (sl_abs_start sl, sl_used_tokens sl, sl_tensor sl)"

definition views :: "'k history_store \<Rightarrow> nat \<Rightarrow> (int \<times> int \<times> ('k \<times> 'k) list list) option" where
  "views st k = map_option slab_view (dget (hs_slabs st) k)"

fun chain :: "(nat \<Rightarrow> (int \<times> int \<times> 'a) option) \<Rightarrow> int \<Rightarrow> nat list \<Rightarrow> int \<Rightarrow> bool" where
  "chain vw s [] e \<longleftrightarrow> s = e"
| "chain vw s (k # ks) e \<longleftrightarrow>
     (case vw k of None \<Rightarrow> False | Some (a, u, _) \<Rightarrow> a = s \<and> 0 < u \<and> chain vw (s + u) ks e)"

definition view_toks :: "(nat \<Rightarrow> (int \<times> int \<times> 'a list list) option) \<Rightarrow> nat \<Rightarrow> nat \<Rightarrow> 'a list" where
  "view_toks vw off k = (case vw k of None \<Rightarrow> [] | Some (_, _, t) \<Rightarrow> t ! off)"

definition toks :: "(nat \<Rightarrow> (int \<times> int \<times> 'a list list) option) \<Rightarrow> nat \<Rightarrow> nat list \<Rightarrow> 'a list" where
  "toks vw off ks = concat (map (view_toks vw off) ks)"

lemma toks_simps [simp]:
  "toks vw off [] = []" "toks vw off (k # ks) = view_toks vw off k @ toks vw off ks"
  "toks vw off (ks @ ls) = toks vw off ks @ toks vw off ls"
  by (simp_all add: toks_def)

lemma chain_append: "chain vw s (ks @ ls) e \<longleftrightarrow> (\<exists>m. chain vw s ks m \<and> chain vw m ls e)"
  by (induction ks arbitrary: s) (auto split: option.splits)

lemma chain_cong: "(\<And>k. k \<in> set ks \<Longrightarrow> vw k = vw' k) \<Longrightarrow> chain vw s ks e = chain vw' s ks e"
  by (induction ks arbitrary: s) (auto split: option.splits)

lemma toks_cong:
  "(\<And>k. k \<in> set ks \<Longrightarrow> vw k = vw' k) \<Longrightarrow> toks vw off ks = toks vw' off ks"
  unfolding toks_def view_toks_def by (rule arg_cong [of _ _ concat]) auto

lemma views_set_ready [simp]: "views (set_ready ev st k) = views st"
  by (auto simp: views_def set_ready_def slab_view_def fun_eq_iff split: option.splits)

lemma set_ready_fields [simp]:
  "hs_request_slabs (set_ready ev st k) = hs_request_slabs st"
  "hs_layer_ids (set_ready ev st k) = hs_layer_ids st"
  "hs_chunk_tokens (set_ready ev st k) = hs_chunk_tokens st"
  "hs_next_id (set_ready ev st k) = hs_next_id st"
  "hs_bytes_reserved (set_ready ev st k) = hs_bytes_reserved st"
  "hs_bytes_used (set_ready ev st k) = hs_bytes_used st"
  by (simp_all add: set_ready_def split: option.splits)

lemma fold_set_ready [simp]:
  "views (foldl (set_ready ev) st ks) = views st"
  "hs_request_slabs (foldl (set_ready ev) st ks) = hs_request_slabs st"
  "hs_layer_ids (foldl (set_ready ev) st ks) = hs_layer_ids st"
  "hs_bytes_reserved (foldl (set_ready ev) st ks) = hs_bytes_reserved st"
  "hs_bytes_used (foldl (set_ready ev) st ks) = hs_bytes_used st"
  by (induction ks arbitrary: st) simp_all

lemma views_update [simp]:
  "views (st\<lparr>hs_request_slabs := r\<rparr>) = views st" "views (st\<lparr>hs_next_event := n\<rparr>) = views st"
  "views (st\<lparr>hs_bytes_used := u\<rparr>) = views st" "views (st\<lparr>hs_bytes_reserved := u\<rparr>) = views st"
  "views (st\<lparr>hs_next_id := n\<rparr>) = views st"
  by (simp_all add: views_def fun_eq_iff)

lemma views_dset [simp]:
  "views (st\<lparr>hs_slabs := dset k sl (hs_slabs st)\<rparr>) = (views st)(k \<mapsto> slab_view sl)"
  by (auto simp: views_def fun_eq_iff)

lemma views_ok:
  "slabs_ok st \<Longrightarrow> views st k = Some (a, u, t) \<Longrightarrow>
     k < hs_next_id st \<and> length t = length (hs_layer_ids st) \<and> u \<le> hs_chunk_tokens st
     \<and> (\<forall>x \<in> set t. int (length x) = u)"
  by (auto simp: views_def slab_view_def slab_ok_def dest!: slabs_ok_get)

lemma views_Some_iff:
  "views st k = Some (a, u, t) \<longleftrightarrow> (\<exists>sl. dget (hs_slabs st) k = Some sl
     \<and> a = sl_abs_start sl \<and> u = sl_used_tokens sl \<and> t = sl_tensor sl)"
  by (auto simp: views_def slab_view_def)

text \<open>Reading a chain returns its tokens, truncated at \<open>history_end\<close>.\<close>

definition upto_end :: "int option \<Rightarrow> int \<Rightarrow> 'a list \<Rightarrow> 'a list" where
  "upto_end hend s xs = (case hend of None \<Rightarrow> xs | Some e \<Rightarrow> take (nat (e - s)) xs)"

lemma iter_loop_reads:
  assumes "slabs_ok st" and "chain (views st) s ks e" and "off < length (hs_layer_ids st)"
  shows "\<exists>cs st'. iter_loop rid off hend ks s st = (Inr cs, st') \<and> views st' = views st
     \<and> concat (map lc_tensor cs) = upto_end hend s (toks (views st) off ks)"
  using assms
proof (induction ks arbitrary: s st)
  case Nil
  then show ?case by (simp add: upto_end_def split: option.splits)
next
  case (Cons k ks)
  obtain sl where sl: "dget (hs_slabs st) k = Some sl" "sl_abs_start sl = s"
      "0 < sl_used_tokens sl" "chain (views st) (s + sl_used_tokens sl) ks e"
    using Cons.prems(2) by (auto simp: views_Some_iff split: option.splits)
  define st1 where "st1 = (if sl_ready_event sl \<noteq> None then set_ready None st k else st)"
  have st1: "views st1 = views st" "slabs_ok st1" "off < length (hs_layer_ids st1)"
    using Cons.prems(1,3) by (simp_all add: st1_def set_ready_ok)
  define u where "u = sl_used_tokens sl"
  define t where "t = sl_tensor sl ! off"
  have t: "view_toks (views st) off k = t" "int (length t) = u"
    using slabs_ok_get [OF Cons.prems(1) sl(1)] Cons.prems(3) sl(1)
    by (auto simp: view_toks_def views_def slab_view_def t_def u_def slab_ok_def)
  have lent: "length t = nat u" using t(2) by linarith
  obtain cs st' where rest: "iter_loop rid off hend ks (s + u) st1 = (Inr cs, st')"
      "views st' = views st"
      "concat (map lc_tensor cs) = upto_end hend (s + u) (toks (views st) off ks)"
    using Cons.IH [of st1 "s + u"] st1 sl(4) by (auto simp: u_def)
  have upos: "0 < u" using sl(3) by (simp add: u_def)
  define len where "len = (case hend of None \<Rightarrow> u | Some h \<Rightarrow> min u (max 0 (h - s)))"
  define c where "c = \<lparr>lc_slab_id = k, lc_abs_start = s, lc_length = len,
    lc_tensor = take (nat len) t, lc_pinned = sl_pinned sl\<rparr>"
  have unfold: "iter_loop rid off hend (k # ks) s st =
      (if len \<le> 0 then (Inr [], st1)
       else if (case hend of None \<Rightarrow> False | Some h \<Rightarrow> h \<le> s + u) then (Inr [c], st1)
       else (Inr (c # cs), st'))"
    unfolding iter_loop.simps sl(1) option.case Let_def st1_def [symmetric] sl(2)
      u_def [symmetric] t_def [symmetric] len_def [symmetric] c_def [symmetric] rest(1)
    by simp
  have cut: "nat (h - s) = nat u + nat (h - (s + u))" if "s + u < h" for h
    using that upos by linarith
  show ?case
    unfolding unfold using st1(1) upos rest(2,3) t(1) lent cut
    by (auto simp: c_def len_def upto_end_def min_def max_def nat_le_iff split: option.splits)
qed

section \<open>Sealing\<close>

text \<open>The slabs an allocation loop has just appended, still empty.\<close>

fun fresh_chain ::
    "(nat \<Rightarrow> (int \<times> int \<times> 'a list list) option) \<Rightarrow> nat \<Rightarrow> int \<Rightarrow> (nat \<times> nat list) list \<Rightarrow> bool" where
  "fresh_chain vw n s [] \<longleftrightarrow> True"
| "fresh_chain vw n s ((k, w) # fs) \<longleftrightarrow>
     vw k = Some (s, 0, replicate n []) \<and> fresh_chain vw n (s + int (length w)) fs"

lemma fresh_chain_cong:
  "(\<And>k. k \<in> fst ` set fs \<Longrightarrow> vw k = vw' k) \<Longrightarrow> fresh_chain vw n s fs = fresh_chain vw' n s fs"
  by (induction fs arbitrary: s) auto

lemma allocate_slab_shape:
  assumes "allocate_slab env rid a st = (Inr k, st')"
  shows "k = hs_next_id st" and "hs_next_id st' = Suc k"
    and "views st' = (views st)(k \<mapsto> (a, 0, replicate (length (hs_layer_ids st)) []))"
    and "hs_layer_ids st' = hs_layer_ids st" and "hs_chunk_tokens st' = hs_chunk_tokens st"
    and "hs_bytes_used st' = hs_bytes_used st"
    and "hs_request_slabs st' =
           dset rid (dget_or (hs_request_slabs st) rid [] @ [k]) (hs_request_slabs st)"
  using assms
  by (auto simp: allocate_slab_def Let_def slab_view_def views_def fun_eq_iff split: if_splits)

lemma alloc_loop_shape:
  assumes "alloc_loop env rid a c ws st = (Inr fills, st')"
  shows "map fst fills = [hs_next_id st ..< hs_next_id st + length ws]
    \<and> map snd fills = ws \<and> hs_layer_ids st' = hs_layer_ids st
    \<and> hs_bytes_used st' = hs_bytes_used st
    \<and> dget_or (hs_request_slabs st') rid [] = dget_or (hs_request_slabs st) rid [] @ map fst fills
    \<and> (\<forall>r. r \<noteq> rid \<longrightarrow> dget (hs_request_slabs st') r = dget (hs_request_slabs st) r)
    \<and> (\<forall>k. k \<notin> fst ` set fills \<longrightarrow> views st' k = views st k)
    \<and> fresh_chain (views st') (length (hs_layer_ids st)) (a + c) fills"
  using assms
proof (induction ws arbitrary: c st fills st')
  case (Cons w ws)
  obtain k st1 fs where a: "allocate_slab env rid (a + c) st = (Inr k, st1)"
    and l: "alloc_loop env rid a (c + int (length w)) ws st1 = (Inr fs, st')"
    and f: "fills = (k, w) # fs"
    using Cons.prems by (auto split: prod.splits sum.splits)
  note sh = allocate_slab_shape [OF a]
  note ih = Cons.IH [OF l]
  have ids: "map fst fills = [hs_next_id st ..< hs_next_id st + length (w # ws)]"
    using ih sh(1,2) f by (simp add: upt_conv_Cons del: upt_Suc)
  have "k \<notin> set (map fst fs)" using ih sh(1,2) by auto
  moreover have rest: "\<forall>j. j \<notin> fst ` set fs \<longrightarrow> views st' j = views st1 j" using ih by blast
  ultimately have "views st' k = views st1 k" by simp
  moreover have "\<forall>j. j \<notin> fst ` set fills \<longrightarrow> views st' j = views st j"
    using rest sh(3) f by simp
  ultimately show ?case using ids ih sh f by (simp add: add.assoc del: upt_Suc)
qed simp

lemma alloc_loop_chunk:
  "alloc_loop env rid a c ws st = (r, st') \<Longrightarrow> hs_chunk_tokens st' = hs_chunk_tokens st"
  by (induction ws arbitrary: c st r st')
     (auto simp: allocate_slab_def Let_def split: prod.splits sum.splits if_splits)

definition pool_rows :: "'k kv_pool \<Rightarrow> int \<Rightarrow> nat list \<Rightarrow> ('k \<times> 'k) list" where
  "pool_rows pool layer slots = map (\<lambda>s. (kp_key pool layer s, kp_value pool layer s)) slots"

lemma gather_packed_rows: "gather_packed pool st w l = Inr xs \<Longrightarrow> xs = pool_rows pool l w"
  by (simp add: gather_packed_def pool_rows_def split: if_splits)

lemma fill_slab_shape:
  assumes "fill_slab pool st (k, w) = Inr st'"
  shows "\<exists>sl. dget (hs_slabs st) k = Some sl
    \<and> st' = st\<lparr>hs_slabs := dset k (sl\<lparr>sl_tensor := map (\<lambda>l. pool_rows pool l w) (hs_layer_ids st),
                                      sl_used_tokens := int (length w)\<rparr>) (hs_slabs st),
              hs_bytes_used := hs_bytes_used st + used_nbytes st (int (length w))\<rparr>"
proof -
  obtain data sl where d: "rmap (gather_packed pool st w) (hs_layer_ids st) = Inr data"
    and sl: "dget (hs_slabs st) k = Some sl"
    and st': "st' = st\<lparr>hs_slabs := dset k (sl\<lparr>sl_tensor := data,
        sl_used_tokens := int (length w)\<rparr>) (hs_slabs st),
        hs_bytes_used := hs_bytes_used st + used_nbytes st (int (length w))\<rparr>"
    using assms by (auto simp: fill_slab_def rbind_Inr_iff split: option.splits)
  have "data = map (\<lambda>l. pool_rows pool l w) (hs_layer_ids st)"
    using rmap_Inr_conv [OF d] by (intro nth_equalityI) (auto dest!: gather_packed_rows)
  with sl st' show ?thesis by blast
qed

lemma fill_slab_ok:
  assumes "store_ok st" and fill: "fill_slab pool st (k, w) = Inr st'"
    and empty: "views st k = Some (a, 0, t)" and len: "int (length w) \<le> hs_chunk_tokens st"
  shows "store_ok st'"
proof -
  obtain sl where sl: "dget (hs_slabs st) k = Some sl"
    and st': "st' = st\<lparr>hs_slabs := dset k (sl\<lparr>sl_tensor := map (\<lambda>l. pool_rows pool l w)
        (hs_layer_ids st), sl_used_tokens := int (length w)\<rparr>) (hs_slabs st),
        hs_bytes_used := hs_bytes_used st + used_nbytes st (int (length w))\<rparr>"
    using fill_slab_shape [OF fill] by blast
  have ok: "slabs_ok st" and own: "owned_ok [] st" using assms(1) by (auto simp: store_ok_def)
  have "sl_used_tokens sl = 0" using empty sl by (auto simp: views_Some_iff)
  then have "slabs_ok st'"
    using slabs_ok_get [OF ok sl] len unfolding st'
    by (intro slabs_ok_overwrite [OF ok sl]) (auto simp: slab_ok_def pool_rows_def)
  moreover have "owned_ok [] st'"
    using own sl unfolding st' by (simp add: owned_ok_def dkeys_dset)
  ultimately show ?thesis by (simp add: store_ok_def)
qed

lemma enqueue_copies_shape:
  assumes "enqueue_copies pool fills st = (r, st')"
    and "store_ok st" and "distinct (map fst fills)"
    and "fresh_chain (views st) (length (hs_layer_ids st)) s fills"
    and "\<forall>w \<in> set (map snd fills). w \<noteq> [] \<and> int (length w) \<le> hs_chunk_tokens st"
  shows "store_ok st' \<and> hs_layer_ids st' = hs_layer_ids st
    \<and> hs_request_slabs st' = hs_request_slabs st
    \<and> (\<forall>k. k \<notin> fst ` set fills \<longrightarrow> views st' k = views st k)
    \<and> (r = Inr () \<longrightarrow>
        chain (views st') s (map fst fills) (s + int (length (concat (map snd fills))))
        \<and> (\<forall>off < length (hs_layer_ids st). toks (views st') off (map fst fills)
              = pool_rows pool (hs_layer_ids st ! off) (concat (map snd fills))))"
  using assms
proof (induction fills arbitrary: s st)
  case Nil
  then show ?case by (auto simp: pool_rows_def)
next
  case (Cons f fs)
  obtain k w where f: "f = (k, w)" by force
  show ?case
  proof (cases "fill_slab pool st f")
    case (Inl e)
    with Cons.prems show ?thesis by auto
  next
    case (Inr st1)
    note fill = Inr [unfolded f]
    obtain sl where sl: "dget (hs_slabs st) k = Some sl"
      and st1: "st1 = st\<lparr>hs_slabs := dset k (sl\<lparr>sl_tensor := map (\<lambda>l. pool_rows pool l w)
          (hs_layer_ids st), sl_used_tokens := int (length w)\<rparr>) (hs_slabs st),
          hs_bytes_used := hs_bytes_used st + used_nbytes st (int (length w))\<rparr>"
      using fill_slab_shape [OF fill] by blast
    have vk: "views st k = Some (s, 0, replicate (length (hs_layer_ids st)) [])"
      and wne: "w \<noteq> []" and wlen: "int (length w) \<le> hs_chunk_tokens st"
      and knotin: "k \<notin> fst ` set fs" "distinct (map fst fs)"
      using Cons.prems f by auto
    have as: "sl_abs_start sl = s" using vk sl by (auto simp: views_Some_iff)
    have v1: "views st1 = (views st)(k \<mapsto>
        (s, int (length w), map (\<lambda>l. pool_rows pool l w) (hs_layer_ids st)))"
      unfolding st1 by (simp add: slab_view_def as)
    have ok1: "store_ok st1" using Cons.prems(2) fill vk wlen by (rule fill_slab_ok)
    have fr: "fresh_chain (views st1) (length (hs_layer_ids st1)) (s + int (length w)) fs"
      using Cons.prems(4) f knotin(1) unfolding v1
      by (subst fresh_chain_cong [where vw' = "views st"]) (auto simp: st1)
    have run: "enqueue_copies pool fs st1 = (r, st')" using Cons.prems(1) Inr by simp
    have bounds: "\<forall>v \<in> set (map snd fs). v \<noteq> [] \<and> int (length v) \<le> hs_chunk_tokens st1"
      using Cons.prems(5) f by (auto simp: st1)
    note ih = Cons.IH [OF run ok1 knotin(2) fr bounds]
    have "views st' k = views st1 k" using ih knotin(1) by blast
    then have vk': "views st' k = Some (s, int (length w),
        map (\<lambda>l. pool_rows pool l w) (hs_layer_ids st))"
      by (simp add: v1)
    have same: "hs_layer_ids st1 = hs_layer_ids st" "hs_request_slabs st1 = hs_request_slabs st"
      by (simp_all add: st1)
    show ?thesis
      using ih wne f unfolding same v1
      by (auto simp: vk' view_toks_def pool_rows_def add.assoc)
  qed
qed

text \<open>Detaching slabs: discarding every pending slab keeps the accounting.\<close>

lemma discard_one_ok:
  assumes ok: "slabs_ok st" and own: "owned_ok (k # p) st"
  shows "\<exists>sl. dget (hs_slabs st) k = Some sl" and "slabs_ok (discard_one st k)"
    and "owned_ok p (discard_one st k)"
proof -
  have keys: "dsum mset (hs_request_slabs st) + mset (k # p) = dkeys (hs_slabs st)"
    using own by (simp add: owned_ok_def)
  then have "k \<in># dkeys (hs_slabs st)" by (metis list.set_intros(1) set_mset_mset union_iff)
  then show ex: "\<exists>sl. dget (hs_slabs st) k = Some sl" by (auto simp: in_dkeys)
  then obtain sl where sl: "dget (hs_slabs st) k = Some sl" ..
  have d: "dict_ok (hs_slabs st)" using ok by (simp add: slabs_ok_def)
  have del: "dsum f (ddel k (hs_slabs st)) = dsum f (hs_slabs st) - f sl" for f :: "_ \<Rightarrow> int"
    using dsum_ddel [OF d, of f k] sl by simp
  have "0 \<le> sl_nbytes sl"
    using slabs_ok_get [OF ok sl] used_le_nbytes [of st 0] ok
    by (simp add: slab_ok_def slabs_ok_def geometry_ok_def)
  then show "slabs_ok (discard_one st k)"
    using ok sl d unfolding discard_one_def slabs_ok_def
    by (auto simp: del slab_ok_def geometry_ok_def dest!: set_ddel)
  show "owned_ok p (discard_one st k)"
    using own sl unfolding discard_one_def owned_ok_def
    by (simp add: dkeys_ddel [OF d] keys [symmetric])
qed

lemma discard_all_ok:
  "slabs_ok st \<Longrightarrow> owned_ok ks st \<Longrightarrow> store_ok (foldl discard_one st ks)"
proof (induction ks arbitrary: st)
  case (Cons k ks)
  then show ?case using discard_one_ok [of st k ks] by simp
qed (simp add: store_ok_def)

lemma release_loop_discards:
  "slabs_ok st \<Longrightarrow> owned_ok ks st \<Longrightarrow> release_loop ks st = (Inr (), foldl discard_one st ks)"
proof (induction ks arbitrary: st)
  case (Cons k ks)
  then show ?case using discard_one_ok [of st k ks] by auto
qed simp

lemma views_discard_one: "views (discard_one st k) = (views st)(k := None)"
  by (auto simp: discard_one_def views_def fun_eq_iff split: option.splits)

lemma views_discard: "views (foldl discard_one st ks) = (\<lambda>k. if k \<in> set ks then None else views st k)"
  by (induction ks arbitrary: st) (auto simp: views_discard_one fun_eq_iff)

lemma discard_one_fields [simp]:
  "hs_request_slabs (discard_one st k) = hs_request_slabs st"
  "hs_layer_ids (discard_one st k) = hs_layer_ids st"
  "hs_next_id (discard_one st k) = hs_next_id st"
  by (simp_all add: discard_one_def split: option.splits)

lemma discard_fields [simp]:
  "hs_request_slabs (foldl discard_one st ks) = hs_request_slabs st"
  "hs_layer_ids (foldl discard_one st ks) = hs_layer_ids st"
  by (induction ks arbitrary: st) simp_all

text \<open>Taking the slabs \<open>ks\<close> out of the list of their request.\<close>

lemma owned_detach:
  assumes own: "owned_ok [] st" and old: "dget_or (hs_request_slabs st) rid [] = kept @ ks"
    and r: "r = (if kept = [] then ddel rid (dset rid kept (hs_request_slabs st))
                 else dset rid kept (hs_request_slabs st))"
  shows "owned_ok ks (st\<lparr>hs_request_slabs := r\<rparr>)"
proof -
  let ?d = "hs_request_slabs st"
  have dd: "dict_ok ?d" "dict_ok (dset rid kept ?d)" using own by (simp_all add: owned_ok_def)
  have "dsum mset r = dsum mset (dset rid kept ?d)"
    using dsum_ddel [OF dd(2), of mset rid] r by auto
  moreover have "dsum mset (dset rid kept ?d) + mset ks = dsum mset ?d"
    using dsum_dset [of mset rid kept ?d] old by (auto simp: dget_or_def split: option.splits)
  moreover have "dict_ok r" using dd r by simp
  ultimately show ?thesis using own by (simp add: owned_ok_def)
qed

lemma release_spec:
  assumes "store_ok st"
  shows "\<exists>st'. release rid st = (Inr (), st') \<and> store_ok st'
    \<and> hs_request_slabs st' = ddel rid (hs_request_slabs st)
    \<and> hs_layer_ids st' = hs_layer_ids st
    \<and> views st' = (\<lambda>k. if k \<in> set (request_block_ids rid st) then None else views st k)"
proof -
  let ?ks = "request_block_ids rid st"
  let ?st0 = "st\<lparr>hs_request_slabs := ddel rid (hs_request_slabs st)\<rparr>"
  have ok: "slabs_ok ?st0" using assms by (simp add: store_ok_def slabs_ok_cong)
  have own: "owned_ok [] st" and d: "dict_ok (hs_request_slabs st)"
    using assms by (simp_all add: store_ok_def owned_ok_def)
  have "owned_ok ?ks (st\<lparr>hs_request_slabs := ddel rid (dset rid [] (hs_request_slabs st))\<rparr>)"
    by (rule owned_detach [OF own, where kept = "[]" and rid = rid]) (simp_all add: request_block_ids_def)
  then have "owned_ok ?ks ?st0" by (simp add: delete_update_same)
  with ok show ?thesis
    using release_loop_discards [OF ok, of ?ks] discard_all_ok [OF ok, of ?ks]
    by (auto simp: release_def request_block_ids_def views_discard)
qed

lemma clear_loop_spec:
  assumes "store_ok st" and "fst ` set (hs_request_slabs st) \<subseteq> set rids"
  shows "\<exists>st'. clear_loop rids st = (Inr (), st') \<and> store_ok st' \<and> hs_request_slabs st' = []"
  using assms
proof (induction rids arbitrary: st)
  case (Cons rid rids)
  obtain st1 where r: "release rid st = (Inr (), st1)" "store_ok st1"
      "hs_request_slabs st1 = ddel rid (hs_request_slabs st)"
    using release_spec [OF Cons.prems(1)] by blast
  have "fst ` set (hs_request_slabs st1) \<subseteq> set rids"
    using Cons.prems(2) r(3) by (auto simp: AList.delete_eq)
  with Cons.IH [OF r(2)] r(1) show ?case by auto
qed auto

lemma empty_store_bytes:
  assumes "store_ok st" and "hs_request_slabs st = []"
  shows "hs_slabs st = [] \<and> hs_bytes_reserved st = 0 \<and> hs_bytes_used st = 0"
proof -
  have "dkeys (hs_slabs st) = {#}" using assms by (simp add: store_ok_def owned_ok_def)
  then have "hs_slabs st = []" by (simp add: dkeys_def)
  with assms(1) show ?thesis by (simp add: store_ok_def slabs_ok_def)
qed

lemma owned_distinct: "store_ok st \<Longrightarrow> dget_or (hs_request_slabs st) rid [] = ks \<Longrightarrow>
    distinct ks \<and> (\<forall>k \<in> set ks. k < hs_next_id st \<and> dget (hs_slabs st) k \<noteq> None)"
proof (cases "dget (hs_request_slabs st) rid")
  case (Some ls)
  assume ok: "store_ok st" and ks: "dget_or (hs_request_slabs st) rid [] = ks"
  have d: "dict_ok (hs_request_slabs st)" "dict_ok (hs_slabs st)"
    using ok by (auto simp: store_ok_def owned_ok_def slabs_ok_def)
  have "mset ks \<subseteq># dkeys (hs_slabs st)"
    using dsum_ddel [OF d(1), of mset rid] Some ks ok
    by (auto simp: store_ok_def owned_ok_def dget_or_def) (metis mset_subset_eq_add_right)
  then have "mset ks \<subseteq># mset (map fst (hs_slabs st))" by (simp add: dkeys_def)
  moreover from this have "distinct ks"
    using d(2) by (rule distinct_submset)
  ultimately show ?thesis
    using ok by (auto simp: store_ok_def slabs_ok_def map_of_eq_None_iff dest!: mset_subset_eqD)
qed (auto simp: dget_or_def)

text \<open>The outcome of the copy phase, shared by the success and the failure of a seal.\<close>

lemma seal_phases:
  assumes ok: "store_ok st" and ne: "slots \<noteq> []"
    and al: "alloc_loop env rid a 0 (windows (nat (hs_chunk_tokens st)) slots) st = (Inr fills, st1)"
    and en: "enqueue_copies pool fills st1 = (r, st2)"
  shows "store_ok st1" and "store_ok st2" and "hs_layer_ids st2 = hs_layer_ids st"
    and "\<forall>k. k \<notin> fst ` set fills \<longrightarrow> views st2 k = views st k"
    and "map fst fills = [hs_next_id st ..< hs_next_id st + length fills]"
    and "request_block_ids rid st2 = request_block_ids rid st @ map fst fills"
    and "\<forall>q. q \<noteq> rid \<longrightarrow> dget (hs_request_slabs st2) q = dget (hs_request_slabs st) q"
    and "r = Inr () \<Longrightarrow> chain (views st2) a (map fst fills) (a + int (length slots))"
    and "r = Inr () \<Longrightarrow> off < length (hs_layer_ids st) \<Longrightarrow>
           toks (views st2) off (map fst fills) = pool_rows pool (hs_layer_ids st ! off) slots"
proof -
  have chunk: "0 < hs_chunk_tokens st"
    using ok by (simp add: store_ok_def slabs_ok_def geometry_ok_def)
  show ok1: "store_ok st1" using ok al by (rule alloc_loop_ok)
  note sh = alloc_loop_shape [OF al]
  have len: "length fills = length (windows (nat (hs_chunk_tokens st)) slots)"
    using sh by (metis length_map)
  then show ids: "map fst fills = [hs_next_id st ..< hs_next_id st + length fills]"
    using sh by simp
  have dist: "distinct (map fst fills)" unfolding ids by simp
  have chunk1: "hs_chunk_tokens st1 = hs_chunk_tokens st"
    using al by (rule alloc_loop_chunk)
  have win: "\<forall>w \<in> set (map snd fills). w \<noteq> [] \<and> int (length w) \<le> hs_chunk_tokens st1"
    using sh windows_bounded chunk unfolding chunk1 by fastforce
  have fr: "fresh_chain (views st1) (length (hs_layer_ids st1)) a fills" using sh by simp
  note en' = enqueue_copies_shape [OF en ok1 dist fr win]
  have cat: "concat (map snd fills) = slots" using sh chunk by (simp add: concat_windows)
  show "store_ok st2" "hs_layer_ids st2 = hs_layer_ids st" using en' sh by simp_all
  show "\<forall>k. k \<notin> fst ` set fills \<longrightarrow> views st2 k = views st k" using en' sh by simp
  show "request_block_ids rid st2 = request_block_ids rid st @ map fst fills"
    using en' sh by (simp add: request_block_ids_def)
  show "\<forall>q. q \<noteq> rid \<longrightarrow> dget (hs_request_slabs st2) q = dget (hs_request_slabs st) q"
    using en' sh by simp
  show "r = Inr () \<Longrightarrow> chain (views st2) a (map fst fills) (a + int (length slots))"
    using en' unfolding cat by blast
  show "r = Inr () \<Longrightarrow> off < length (hs_layer_ids st) \<Longrightarrow>
      toks (views st2) off (map fst fills) = pool_rows pool (hs_layer_ids st ! off) slots"
    using en' sh unfolding cat by simp
qed

text \<open>What a successful seal of \<open>slots\<close> at position \<open>a\<close> does to the store.\<close>

definition extends_history ::
    "'k kv_pool \<Rightarrow> string \<Rightarrow> int \<Rightarrow> nat list \<Rightarrow> nat list \<Rightarrow> 'k history_store
      \<Rightarrow> 'k history_store \<Rightarrow> bool" where
  "extends_history pool rid a slots ids st st' \<longleftrightarrow>
     store_ok st' \<and> hs_layer_ids st' = hs_layer_ids st
     \<and> request_block_ids rid st' = request_block_ids rid st @ ids
     \<and> (\<forall>q. q \<noteq> rid \<longrightarrow> request_block_ids q st' = request_block_ids q st)
     \<and> (\<forall>k < hs_next_id st. views st' k = views st k)
     \<and> chain (views st') 0 (request_block_ids rid st') (a + int (length slots))
     \<and> (\<forall>off < length (hs_layer_ids st).
           toks (views st') off (request_block_ids rid st')
             = toks (views st) off (request_block_ids rid st)
               @ pool_rows pool (hs_layer_ids st ! off) slots)"

lemma seal_success:
  assumes ok: "store_ok st"
    and seal: "seal_slots_async env pool cu rid a slots st = (Inr t, st')"
    and ch: "chain (views st) 0 (request_block_ids rid st) a"
  shows "extends_history pool rid a slots (tk_block_ids t) st st'"
proof (cases "slots = []")
  case True
  with seal ok ch show ?thesis
    by (auto simp: extends_history_def seal_slots_async_def pool_rows_def)
next
  case False
  obtain fills st1 st2 fin ev where
      al: "alloc_loop env rid a 0 (windows (nat (hs_chunk_tokens st)) slots) st = (Inr fills, st1)"
    and en: "enqueue_copies pool fills st1 = (Inr (), st2)"
    and st': "st' = (foldl (set_ready fin) st2 (map fst fills))\<lparr>hs_next_event := ev\<rparr>"
    and t: "tk_block_ids t = map fst fills"
    using seal False
    by (auto simp: seal_slots_async_def Let_def split: prod.splits sum.splits unit.splits)
  note ph = seal_phases [OF ok False al en]
  have ok': "store_ok st'"
    using fold_set_ready_ok [OF ph(2)] unfolding st'
    by (auto simp: store_ok_def slabs_ok_cong owned_ok_def)
  have vw: "views st' = views st2" and li: "hs_layer_ids st' = hs_layer_ids st"
    and rq: "hs_request_slabs st' = hs_request_slabs st2"
    unfolding st' using ph(3) by simp_all
  have ids: "request_block_ids q st' = request_block_ids q st2" for q
    by (simp add: request_block_ids_def rq)
  have others: "\<forall>q. q \<noteq> rid \<longrightarrow> request_block_ids q st' = request_block_ids q st"
    using ph(7) unfolding ids by (simp add: request_block_ids_def dget_or_def)
  have below: "\<forall>k < hs_next_id st. views st2 k = views st k"
    using ph(4) arg_cong [OF ph(5), of set] by simp
  then have old: "\<forall>k \<in> set (request_block_ids rid st). views st2 k = views st k"
    using owned_distinct [OF ok] by (simp add: request_block_ids_def)
  have "chain (views st2) 0 (request_block_ids rid st) a"
    using ch chain_cong [of _ "views st2" "views st"] old by blast
  then have chain: "chain (views st') 0 (request_block_ids rid st') (a + int (length slots))"
    using ph(8) unfolding ids vw ph(6) chain_append by blast
  have "toks (views st2) off (request_block_ids rid st)
      = toks (views st) off (request_block_ids rid st)" for off
    using old by (intro toks_cong) blast
  then have "\<forall>off < length (hs_layer_ids st). toks (views st') off (request_block_ids rid st')
      = toks (views st) off (request_block_ids rid st) @ pool_rows pool (hs_layer_ids st ! off) slots"
    using ph(9) unfolding ids vw ph(6) by simp
  with ok' li others chain below ph(6) show ?thesis
    unfolding extends_history_def vw t by (simp add: ids)
qed

lemma discard_new_restores:
  assumes ok: "store_ok st2" and ids: "request_block_ids rid st2 = old @ ks"
    and old: "request_block_ids rid st = old" "set old \<inter> set ks = {}"
    and reqs: "\<forall>q. q \<noteq> rid \<longrightarrow> dget (hs_request_slabs st2) q = dget (hs_request_slabs st) q"
  shows "store_ok (discard_new_slabs rid ks st2)"
    and "views (discard_new_slabs rid ks st2) = (\<lambda>k. if k \<in> set ks then None else views st2 k)"
    and "request_block_ids q (discard_new_slabs rid ks st2) = request_block_ids q st"
proof -
  define reqs' where "reqs' = (if old = [] then ddel rid (dset rid old (hs_request_slabs st2))
                 else dset rid old (hs_request_slabs st2))"
  have "filter (\<lambda>v. v \<notin> set ks) (old @ ks) = old" using old(2) by (auto simp: filter_id_conv)
  then have disc: "discard_new_slabs rid ks st2
      = foldl discard_one (st2\<lparr>hs_request_slabs := reqs'\<rparr>) ks"
    using ids by (simp add: discard_new_slabs_def request_block_ids_def reqs'_def Let_def)
  have own: "owned_ok ks (st2\<lparr>hs_request_slabs := reqs'\<rparr>)"
    using ok ids by (intro owned_detach [where rid = rid and kept = old])
      (simp_all add: store_ok_def request_block_ids_def reqs'_def)
  show "store_ok (discard_new_slabs rid ks st2)"
    unfolding disc using ok own by (intro discard_all_ok) (simp_all add: store_ok_def slabs_ok_cong)
  show "views (discard_new_slabs rid ks st2) = (\<lambda>k. if k \<in> set ks then None else views st2 k)"
    unfolding disc by (simp add: views_discard cong: if_cong)
  show "request_block_ids q (discard_new_slabs rid ks st2) = request_block_ids q st"
    unfolding disc request_block_ids_def using reqs old(1)
    by (auto simp: reqs'_def dget_or_def request_block_ids_def split: option.splits)
qed

lemma alloc_loop_error: "alloc_loop env rid a c ws st = (Inl e, st') \<Longrightarrow> e = MemoryError"
  by (induction ws arbitrary: c st st')
     (auto simp: allocate_slab_def Let_def split: prod.splits sum.splits if_splits)

lemma store_bytes_cong:
  assumes "store_ok st" and "store_ok st'" and "views st' = views st"
    and "slab_nbytes st' = slab_nbytes st" and "used_nbytes st' = used_nbytes st"
  shows "hs_bytes_reserved st' = hs_bytes_reserved st" and "hs_bytes_used st' = hs_bytes_used st"
proof -
  have d: "dict_ok (hs_slabs st)" "dict_ok (hs_slabs st')"
    using assms(1,2) by (simp_all add: store_ok_def slabs_ok_def)
  have v: "map_option slab_view (dget (hs_slabs st') k) = map_option slab_view (dget (hs_slabs st) k)" for k
    using assms(3) by (metis views_def)
  have nb: "sl_nbytes sl = slab_nbytes st" if "dget (hs_slabs st) k = Some sl \<or> dget (hs_slabs st') k = Some sl" for k sl
    using that assms(1,2,4) by (auto simp: store_ok_def slab_ok_def dest!: slabs_ok_get)
  have "map_option sl_nbytes (dget (hs_slabs st') k) = map_option sl_nbytes (dget (hs_slabs st) k)" for k
    using v [of k]
    by (cases "dget (hs_slabs st) k"; cases "dget (hs_slabs st') k") (auto simp: nb [of k])
  then show "hs_bytes_reserved st' = hs_bytes_reserved st"
    using assms(1,2) dsum_cong [OF d(2,1), of sl_nbytes] by (simp add: store_ok_def slabs_ok_def)
  have "map_option (\<lambda>sl. used_nbytes st (sl_used_tokens sl)) (dget (hs_slabs st') k)
      = map_option (\<lambda>sl. used_nbytes st (sl_used_tokens sl)) (dget (hs_slabs st) k)" for k
    using v [of k]
    by (cases "dget (hs_slabs st) k"; cases "dget (hs_slabs st') k") (auto simp: slab_view_def)
  then show "hs_bytes_used st' = hs_bytes_used st"
    using assms(1,2,5) dsum_cong [OF d(2,1), of "\<lambda>sl. used_nbytes st (sl_used_tokens sl)"]
    by (simp add: store_ok_def slabs_ok_def)
qed

lemma seal_failure:
  assumes ok: "store_ok st"
    and seal: "seal_slots_async env pool cu rid a slots st = (Inl e, st')"
    and copy: "e \<noteq> MemoryError"
  shows "store_ok st'" and "views st' = views st"
    and "\<And>q. request_block_ids q st' = request_block_ids q st"
proof -
  have ne: "slots \<noteq> []" using seal by (auto simp: seal_slots_async_def)
  obtain fills st1 st2 where
      al: "alloc_loop env rid a 0 (windows (nat (hs_chunk_tokens st)) slots) st = (Inr fills, st1)"
    and en: "enqueue_copies pool fills st1 = (Inl e, st2)"
    and st': "st' = discard_new_slabs rid (map fst fills) st2"
    using seal ne copy alloc_loop_error
    by (fastforce simp: seal_slots_async_def Let_def split: prod.splits sum.splits unit.splits)
  note ph = seal_phases [OF ok ne al en]
  have below: "\<forall>k \<in> set (request_block_ids rid st). k < hs_next_id st"
    using owned_distinct [OF ok] by (simp add: request_block_ids_def)
  have disj: "set (request_block_ids rid st) \<inter> set (map fst fills) = {}"
    using below unfolding ph(5) by auto
  note dn = discard_new_restores [OF ph(2,6) refl disj ph(7)]
  show "store_ok st'" "\<And>q. request_block_ids q st' = request_block_ids q st"
    unfolding st' by (rule dn)+
  have none: "views st k = None" if "hs_next_id st \<le> k" for k
    using that views_ok [of st k] ok by (cases "views st k") (auto simp: store_ok_def)
  show "views st' = views st"
    unfolding st' dn(2) using none ph(4) arg_cong [OF ph(5), of set] by (auto simp: fun_eq_iff)
qed

text \<open>Two requests never share a slab.\<close>

lemma owned_disjoint:
  assumes "store_ok st" and "q \<noteq> rid" and "k \<in> set (request_block_ids q st)"
  shows "k \<notin> set (request_block_ids rid st)"
proof
  assume "k \<in> set (request_block_ids rid st)"
  then obtain xs ys where x: "dget (hs_request_slabs st) rid = Some xs" "k \<in> set xs"
      and y: "dget (hs_request_slabs st) q = Some ys" "k \<in> set ys"
    using assms(3) unfolding request_block_ids_def dget_or_def
    by (cases "dget (hs_request_slabs st) rid"; cases "dget (hs_request_slabs st) q") auto
  have d: "dict_ok (hs_request_slabs st)" "dict_ok (hs_slabs st)"
    using assms(1) by (auto simp: store_ok_def owned_ok_def slabs_ok_def)
  let ?d = "ddel rid (hs_request_slabs st)"
  have "dsum mset ?d + mset xs = dsum mset (hs_request_slabs st)"
    using dsum_ddel [OF d(1), of mset rid] x by simp
  moreover have "dsum mset (ddel q ?d) + mset ys = dsum mset ?d"
    using dsum_ddel [of ?d mset q] d(1) y assms(2) by simp
  ultimately have "mset (xs @ ys) \<subseteq># mset (map fst (hs_slabs st))"
    using assms(1)
    by (auto simp: store_ok_def owned_ok_def dkeys_def) (metis mset_subset_eq_add_right union_assoc union_commute)
  from distinct_submset [OF this d(2)] x(2) y(2) show False by auto
qed

section \<open>Every reachable store satisfies the invariant\<close>

inductive store_step :: "'k history_store \<Rightarrow> 'k history_store \<Rightarrow> bool" where
  step_seal: "seal_slots_async env pool cu rid a slots st = (r, st') \<Longrightarrow> store_step st st'"
| step_complete: "complete_seal done wait t st = (b, t', st') \<Longrightarrow> store_step st st'"
| step_iter: "iter_layer_chunks rid layer hend st = (r', st') \<Longrightarrow> store_step st st'"
| step_release: "release rid st = (u, st') \<Longrightarrow> store_step st st'"
| step_clear: "clear st = (u, st') \<Longrightarrow> store_step st st'"

inductive_cases store_stepE: "store_step st st'"

definition store_init :: "'k history_store \<Rightarrow> bool" where
  "store_init st \<longleftrightarrow> (\<exists>env m c ls h d n cu. history_new env m c ls h d n cu = Inr st \<and> 0 < n)"

lemma store_init_ok: "store_init st \<Longrightarrow> store_ok st"
  by (auto simp: store_init_def history_new_def store_ok_def slabs_ok_def owned_ok_def
      geometry_ok_def split: if_splits)

lemma seal_keeps_ok:
  assumes ok: "store_ok st" and seal: "seal_slots_async env pool cu rid a slots st = (r, st')"
  shows "store_ok st'"
proof (cases "slots = []")
  case False
  obtain r1 st1 where al: "alloc_loop env rid a 0 (windows (nat (hs_chunk_tokens st)) slots) st
      = (r1, st1)" by force
  show ?thesis
  proof (cases r1)
    case (Inl e)
    with seal False al alloc_loop_ok [OF ok al] show ?thesis by (simp add: seal_slots_async_def)
  next
    case (Inr fills)
    obtain r2 st2 where en: "enqueue_copies pool fills st1 = (r2, st2)" by force
    note ph = seal_phases [OF ok False al [unfolded Inr] en]
    show ?thesis
    proof (cases r2)
      case (Inl e)
      then have e: "seal_slots_async env pool cu rid a slots st
          = (Inl e, discard_new_slabs rid (map fst fills) st2)"
        using False al Inr en by (simp add: seal_slots_async_def Let_def)
      have "set (request_block_ids rid st) \<inter> set (map fst fills) = {}"
        using owned_distinct [OF ok, of rid] arg_cong [OF ph(5), of set]
        by (force simp: request_block_ids_def)
      with e seal discard_new_restores(1) [OF ph(2,6) refl _ ph(7)] show ?thesis by simp
    next
      case (Inr u)
      with seal False al \<open>r1 = Inr fills\<close> en have "store_ok st2 \<Longrightarrow> store_ok st'"
        using fold_set_ready_ok [of st2]
        by (fastforce simp: seal_slots_async_def Let_def store_ok_def slabs_ok_cong owned_ok_def)
      with ph(2) show ?thesis by blast
    qed
  qed
qed (use assms in \<open>simp add: seal_slots_async_def\<close>)

lemma iter_loop_silent:
  "iter_loop rid off hend ks s st = (r, st') \<Longrightarrow> store_ok st \<Longrightarrow>
     store_ok st' \<and> views st' = views st \<and> hs_request_slabs st' = hs_request_slabs st
     \<and> hs_layer_ids st' = hs_layer_ids st"
proof (induction ks arbitrary: s st r)
  case (Cons k ks)
  show ?case
  proof (cases "dget (hs_slabs st) k")
    case (Some sl)
    define st1 where "st1 = (if sl_ready_event sl \<noteq> None then set_ready None st k else st)"
    have st1: "store_ok st1" "views st1 = views st" "hs_request_slabs st1 = hs_request_slabs st"
        "hs_layer_ids st1 = hs_layer_ids st"
      using Cons.prems(2) by (simp_all add: st1_def store_ok_def set_ready_ok set_ready_owned)
    consider "st' = st1" | r2 where
        "iter_loop rid off hend ks (sl_abs_start sl + sl_used_tokens sl) st1 = (r2, st')"
      using Cons.prems(1) unfolding iter_loop.simps Some option.case Let_def st1_def [symmetric]
      by (auto split: if_splits prod.splits)
    then show ?thesis
      using Cons.IH st1 by cases metis+
  qed (use Cons.prems in simp)
qed simp

lemma iter_silent:
  "iter_layer_chunks rid layer hend st = (r, st') \<Longrightarrow> store_ok st \<Longrightarrow>
     store_ok st' \<and> views st' = views st \<and> hs_request_slabs st' = hs_request_slabs st
     \<and> hs_layer_ids st' = hs_layer_ids st"
  by (auto simp: iter_layer_chunks_def dest: iter_loop_silent split: option.splits)

lemma complete_silent:
  "complete_seal done wait t st = (b, t', st') \<Longrightarrow> store_ok st \<Longrightarrow>
     store_ok st' \<and> views st' = views st \<and> hs_request_slabs st' = hs_request_slabs st
     \<and> hs_layer_ids st' = hs_layer_ids st"
  by (auto simp: complete_seal_def fold_set_ready_ok split: if_splits)

lemma clear_spec:
  "store_ok st \<Longrightarrow> \<exists>st'. clear st = (Inr (), st') \<and> store_ok st' \<and> hs_request_slabs st' = []"
  unfolding clear_def by (rule clear_loop_spec) auto

lemma store_step_ok: "store_ok st \<Longrightarrow> store_step st st' \<Longrightarrow> store_ok st'"
proof (erule store_stepE)
  fix rid u assume "store_ok st" "release rid st = (u, st')"
  then show "store_ok st'" using release_spec [of st rid] by auto
next
  fix u assume "store_ok st" "clear st = (u, st')"
  then show "store_ok st'" using clear_spec [of st] by auto
qed (auto dest: seal_keeps_ok iter_silent complete_silent)

interpretation history: invariant_system store_init store_step store_ok
  by unfold_locales (auto intro: store_init_ok store_step_ok)

section \<open>Helpers for the release and the failed allocation\<close>

lemma release_loop_geometry [simp]: "geometry (snd (release_loop ks st)) = geometry st"
  by (induction ks arbitrary: st) (auto split: option.splits)

lemma release_geometry: "geometry (snd (release rid st)) = geometry st"
  by (simp add: release_def)

lemma slab_nbytes_pos: "geometry_ok st \<Longrightarrow> 0 < slab_nbytes st"
  by (simp add: geometry_ok_def slab_nbytes_def)

lemma reserved_eq:
  assumes "store_ok st"
  shows "hs_bytes_reserved st = int (length (hs_slabs st)) * slab_nbytes st"
proof -
  have s: "slabs_ok st" using assms by (simp add: store_ok_def)
  have "map (\<lambda>kv. sl_nbytes (snd kv)) (hs_slabs st) = map (\<lambda>_. slab_nbytes st) (hs_slabs st)"
    using s by (auto simp: slabs_ok_def slab_ok_def)
  then have "dsum sl_nbytes (hs_slabs st) = dsum (\<lambda>_. slab_nbytes st) (hs_slabs st)"
    unfolding dsum_def by (rule arg_cong)
  with s show ?thesis by (simp add: slabs_ok_def dsum_const)
qed

text \<open>
  An allocation loop that asks for more slabs than the budget admits: it raises, and keeps every
  slab it allocated before the failing one.
\<close>

definition slabs_admitted :: "'k history_store \<Rightarrow> nat" where
  "slabs_admitted st = nat ((hs_max_memory_bytes st - hs_bytes_reserved st) div slab_nbytes st)"

definition leftover_slabs ::
    "string \<Rightarrow> 'k history_store \<Rightarrow> nat list \<Rightarrow> 'k history_store \<Rightarrow> bool" where
  "leftover_slabs rid st ks st' \<longleftrightarrow>
     request_block_ids rid st' = request_block_ids rid st @ ks
     \<and> (\<forall>k \<in> set ks. dget (hs_slabs st) k = None
          \<and> (\<exists>sl. dget (hs_slabs st') k = Some sl \<and> sl_used_tokens sl = 0))
     \<and> (\<forall>k. k \<notin> set ks \<longrightarrow> dget (hs_slabs st') k = dget (hs_slabs st) k)
     \<and> (\<forall>r. r \<noteq> rid \<longrightarrow> dget (hs_request_slabs st') r = dget (hs_request_slabs st) r)
     \<and> hs_bytes_reserved st' = hs_bytes_reserved st + int (length ks) * slab_nbytes st
     \<and> hs_bytes_used st' = hs_bytes_used st"

lemma slabs_admitted_Suc:
  assumes "0 < slab_nbytes st" and "hs_bytes_reserved st + slab_nbytes st \<le> hs_max_memory_bytes st"
    and "slab_nbytes st1 = slab_nbytes st" and "hs_max_memory_bytes st1 = hs_max_memory_bytes st"
    and "hs_bytes_reserved st1 = hs_bytes_reserved st + slab_nbytes st"
  shows "slabs_admitted st = Suc (slabs_admitted st1)"
proof -
  let ?n = "slab_nbytes st" and ?r = "hs_max_memory_bytes st - hs_bytes_reserved st - slab_nbytes st"
  have "(?r + ?n) div ?n = ?r div ?n + 1" by (rule div_add_self2) (use assms(1) in simp)
  moreover have "0 \<le> ?r div ?n" using assms(1,2) by (intro pos_imp_zdiv_nonneg_iff [THEN iffD2]) simp_all
  ultimately show ?thesis using assms(3-5) by (simp add: slabs_admitted_def diff_diff_eq nat_add_distrib)
qed

lemma allocate_slab_admitted:
  assumes ok: "store_ok st" and "hs_bytes_reserved st + slab_nbytes st \<le> hs_max_memory_bytes st"
  obtains st1 where "allocate_slab env rid a st = (Inr (hs_next_id st), st1)" and "store_ok st1"
    and "slab_nbytes st1 = slab_nbytes st" and "hs_max_memory_bytes st1 = hs_max_memory_bytes st"
    and "hs_bytes_reserved st1 = hs_bytes_reserved st + slab_nbytes st"
    and "leftover_slabs rid st [hs_next_id st] st1"
proof
  let ?st1 = "snd (allocate_slab env rid a st)"
  show al: "allocate_slab env rid a st = (Inr (hs_next_id st), ?st1)"
    using assms(2) by (simp add: allocate_slab_def Let_def)
  show "store_ok ?st1" using ok al by (rule allocate_slab_ok)
  show "slab_nbytes ?st1 = slab_nbytes st" "hs_max_memory_bytes ?st1 = hs_max_memory_bytes st"
    "hs_bytes_reserved ?st1 = hs_bytes_reserved st + slab_nbytes st"
    using assms(2) by (simp_all add: allocate_slab_def Let_def slab_nbytes_def)
  have "dget (hs_slabs st) (hs_next_id st) = None"
    using ok slabs_ok_get [of st "hs_next_id st"]
    by (cases "dget (hs_slabs st) (hs_next_id st)") (auto simp: store_ok_def)
  then show "leftover_slabs rid st [hs_next_id st] ?st1"
    using assms(2)
    by (auto simp: leftover_slabs_def allocate_slab_def Let_def request_block_ids_def dget_or_def)
qed

lemma leftover_slabs_Nil [simp]: "leftover_slabs rid st [] st"
  by (simp add: leftover_slabs_def)

lemma leftover_slabs_trans:
  assumes "leftover_slabs rid st [k] st1" and "leftover_slabs rid st1 ks st2"
    and "slab_nbytes st1 = slab_nbytes st"
  shows "leftover_slabs rid st (k # ks) st2"
proof -
  have "k \<notin> set ks" using assms(1,2) by (auto simp: leftover_slabs_def)
  then show ?thesis using assms by (auto simp: leftover_slabs_def algebra_simps)
qed

lemma alloc_loop_exhausts:
  assumes "store_ok st"
    and "hs_max_memory_bytes st < hs_bytes_reserved st + int (length ws) * slab_nbytes st"
  shows "\<exists>ks st'. alloc_loop env rid a c ws st = (Inl MemoryError, st')
    \<and> length ks = slabs_admitted st \<and> leftover_slabs rid st ks st'"
  using assms
proof (induction ws arbitrary: c st)
  case Nil
  then show ?case by (simp add: store_ok_def slabs_ok_def)
next
  case (Cons w ws)
  have pos: "0 < slab_nbytes st" and le: "hs_bytes_reserved st \<le> hs_max_memory_bytes st"
    using Cons.prems(1) slab_nbytes_pos by (auto simp: store_ok_def slabs_ok_def)
  show ?case
  proof (cases "hs_bytes_reserved st + slab_nbytes st \<le> hs_max_memory_bytes st")
    case False
    then have "slabs_admitted st = 0" using le by (simp add: slabs_admitted_def)
    moreover have "allocate_slab env rid (a + c) st = (Inl MemoryError, st)"
      using False by (simp add: allocate_slab_def Let_def)
    ultimately show ?thesis by (intro exI [of _ "[]"] exI [of _ st]) simp
  next
    case True
    then obtain st1 where al: "allocate_slab env rid (a + c) st = (Inr (hs_next_id st), st1)"
      and ok1: "store_ok st1" and nb: "slab_nbytes st1 = slab_nbytes st"
      and mx: "hs_max_memory_bytes st1 = hs_max_memory_bytes st"
      and rs: "hs_bytes_reserved st1 = hs_bytes_reserved st + slab_nbytes st"
      and lo: "leftover_slabs rid st [hs_next_id st] st1"
      by (rule allocate_slab_admitted [OF Cons.prems(1)])
    have "hs_max_memory_bytes st1 < hs_bytes_reserved st1 + int (length ws) * slab_nbytes st1"
      using Cons.prems(2) by (simp add: nb mx rs algebra_simps)
    then obtain ks st' where ih: "alloc_loop env rid a (c + int (length w)) ws st1 = (Inl MemoryError, st')"
      "length ks = slabs_admitted st1" "leftover_slabs rid st1 ks st'"
      using Cons.IH [OF ok1, of "c + int (length w)"] by blast
    have "leftover_slabs rid st (hs_next_id st # ks) st'"
      by (rule leftover_slabs_trans [OF lo ih(3) nb])
    moreover have "length (hs_next_id st # ks) = slabs_admitted st"
      using slabs_admitted_Suc [OF pos True nb mx rs] ih(2) by simp
    ultimately show ?thesis using al ih(1) by (intro exI conjI) auto
  qed
qed

lemma length_windows: "0 < n \<Longrightarrow> length (windows n xs) = (length xs + n - 1) div n"
proof (induction n xs rule: windows.induct)
  case (1 n xs)
  show ?case
  proof (cases "xs = []")
    case False
    then have "length (windows n xs) = Suc ((length xs - n + n - 1) div n)"
      using 1 by (simp add: windows.simps [of n xs])
    also have "(length xs - n + n - 1) div n = (length xs - 1) div n"
      using \<open>0 < n\<close> by (cases "n \<le> length xs") auto
    also have "Suc \<dots> = (length xs - 1 + n) div n" using \<open>0 < n\<close> by simp
    finally show ?thesis using False by (simp add: Nat.add_diff_assoc2 Suc_leI)
  qed (use \<open>0 < n\<close> in simp)
qed

definition slabs_needed :: "'k history_store \<Rightarrow> nat list \<Rightarrow> int" where
  "slabs_needed st slots = (int (length slots) + hs_chunk_tokens st - 1) div hs_chunk_tokens st"

lemma slabs_needed_windows:
  assumes "0 < hs_chunk_tokens st"
  shows "int (length (windows (nat (hs_chunk_tokens st)) slots)) = slabs_needed st slots"
  using assms length_windows [of "nat (hs_chunk_tokens st)" slots]
  by (simp add: slabs_needed_def zdiv_int of_nat_diff)

lemma seal_memory_error_leak:
  assumes ok: "store_ok st" and ne: "slots \<noteq> []"
    and over: "hs_max_memory_bytes st < hs_bytes_reserved st + slabs_needed st slots * slab_nbytes st"
  shows "\<exists>ks st'. seal_slots_async env pool cu rid a slots st = (Inl MemoryError, st')
    \<and> length ks = slabs_admitted st \<and> leftover_slabs rid st ks st'"
proof -
  have "0 < hs_chunk_tokens st" using ok by (auto simp: store_ok_def slabs_ok_def geometry_ok_def)
  then have "hs_max_memory_bytes st
      < hs_bytes_reserved st + int (length (windows (nat (hs_chunk_tokens st)) slots)) * slab_nbytes st"
    using over by (simp add: slabs_needed_windows)
  from alloc_loop_exhausts [OF ok this, of env rid a 0] show ?thesis
    using ne by (auto simp: seal_slots_async_def)
qed

lemma sum_used_le: "slabs_ok st \<Longrightarrow> hs_bytes_used st \<le> hs_bytes_reserved st"
proof -
  assume ok: "slabs_ok st"
  have "used_nbytes st (sl_used_tokens (snd kv)) \<le> sl_nbytes (snd kv)" if "kv \<in> set (hs_slabs st)" for kv
    using ok that used_le_nbytes(2) [of st "sl_used_tokens (snd kv)"]
    by (cases kv) (auto simp: slabs_ok_def slab_ok_def)
  with ok show ?thesis unfolding slabs_ok_def dsum_def by (auto intro!: sum_list_mono)
qed

text \<open>The packed token rows in the slabs, over all layers, and the bytes they take.\<close>

definition rows_held :: "'k history_store \<Rightarrow> int" where
  "rows_held st = (\<Sum>(k, sl) \<leftarrow> hs_slabs st. \<Sum>t \<leftarrow> sl_tensor sl. int (length t))"

lemma used_eq:
  assumes ok: "slabs_ok st"
  shows "hs_bytes_used st = rows_held st * (2 * hs_kv_heads st * hs_head_dim st * hs_element_size st)"
proof -
  let ?b = "2 * hs_kv_heads st * hs_head_dim st * hs_element_size st"
  have "used_nbytes st (sl_used_tokens (snd kv)) = (\<Sum>t \<leftarrow> sl_tensor (snd kv). int (length t)) * ?b"
    if "kv \<in> set (hs_slabs st)" for kv
  proof -
    have sl: "slab_ok st (snd kv)" using ok that by (cases kv) (auto simp: slabs_ok_def)
    then have "map (\<lambda>t. int (length t)) (sl_tensor (snd kv)) = map (\<lambda>_. sl_used_tokens (snd kv)) (sl_tensor (snd kv))"
      by (simp add: slab_ok_def)
    then have "(\<Sum>t \<leftarrow> sl_tensor (snd kv). int (length t))
        = int (length (hs_layer_ids st)) * sl_used_tokens (snd kv)"
      using sl by (simp only: sum_list_triv) (simp add: slab_ok_def)
    then show ?thesis by (simp add: used_nbytes_def)
  qed
  then have "hs_bytes_used st
      = sum_list (map (\<lambda>kv. (\<Sum>t \<leftarrow> sl_tensor (snd kv). int (length t)) * ?b) (hs_slabs st))"
    using ok unfolding slabs_ok_def dsum_def
    by (auto intro!: arg_cong [of _ _ sum_list] map_cong)
  then show ?thesis
    by (simp add: rows_held_def case_prod_unfold sum_list_mult_const)
qed

text \<open>A concrete store: two layers, chunks of two tokens, room for two slabs.\<close>

definition ex_env :: host_env where
  "ex_env = \<lparr>he_cuda = True, he_pin_ok = True\<rparr>"

definition ex_pool :: "int kv_pool" where
  "ex_pool = \<lparr>kp_key = (\<lambda>l s. 100 * l + int s), kp_value = (\<lambda>l s. - (100 * l + int s)),
     kp_key_shape = (\<lambda>_. (1, 4)), kp_value_shape = (\<lambda>_. (1, 4)), kp_fails = (\<lambda>l w. l = 1 \<and> 9 \<in> set w)\<rparr>"

definition ex_store :: "int history_store" where
  "ex_store = \<lparr>hs_max_memory_bytes = 150, hs_chunk_tokens = 2, hs_layer_ids = [0, 1],
     hs_kv_heads = 1, hs_head_dim = 4, hs_element_size = 2, hs_d2h_stream = True,
     hs_next_id = 0, hs_next_event = 0, hs_slabs = [], hs_request_slabs = [],
     hs_bytes_reserved = 0, hs_bytes_used = 0\<rparr>"

lemma ex_store_init: "store_init ex_store"
  unfolding store_init_def
  by (rule exI [of _ ex_env], rule exI [of _ 150], rule exI [of _ 2], rule exI [of _ "[0, 1]"],
      rule exI [of _ 1], rule exI [of _ 4], rule exI [of _ 2], rule exI [of _ True])
     (simp add: history_new_def ex_env_def ex_store_def)

lemmas ex_simps = ex_env_def ex_pool_def ex_store_def seal_slots_async_def allocate_slab_def
  slab_nbytes_def used_nbytes_def windows.simps fill_slab_def gather_packed_def use_async_def
  set_ready_def Let_def dget_or_def

text \<open>
  C18: in every store reachable from a fresh one by any sequence of seals (failed ones
  included), completions, reads, releases and clears, both byte counters are exact:
  \<open>bytes_reserved\<close> is the size of a slab times the number of slabs held and is within the
  budget, \<open>bytes_used\<close> is the size of a packed token row times the number of rows the slabs
  hold, over all slabs and layers, and no more than what is reserved.  Every slab belongs to one
  request, once, and no slab id is used twice.
\<close>

theorem history_accounting:
  assumes "reaches store_init store_step st"
  shows "hs_bytes_reserved st = int (length (hs_slabs st)) * slab_nbytes st
    \<and> hs_bytes_used st = rows_held st * (2 * hs_kv_heads st * hs_head_dim st * hs_element_size st)
    \<and> 0 \<le> hs_bytes_used st \<and> hs_bytes_used st \<le> hs_bytes_reserved st
    \<and> hs_bytes_reserved st \<le> hs_max_memory_bytes st
    \<and> mset (concat (map snd (hs_request_slabs st))) = mset (map fst (hs_slabs st))
    \<and> distinct (map fst (hs_slabs st))"
proof -
  have ok: "store_ok st" using assms by (rule history.reaches_inv)
  then have s: "slabs_ok st" by (simp add: store_ok_def)
  have r: "hs_bytes_reserved st = int (length (hs_slabs st)) * slab_nbytes st"
    using ok by (rule reserved_eq)
  have e: "hs_bytes_used st = rows_held st * (2 * hs_kv_heads st * hs_head_dim st * hs_element_size st)"
    using s by (rule used_eq)
  have u: "0 \<le> hs_bytes_used st"
    using s used_le_nbytes(1) unfolding slabs_ok_def dsum_def
    by (fastforce simp: slab_ok_def intro!: sum_list_nonneg)
  have m: "mset (concat (map snd (hs_request_slabs st))) = dsum mset (hs_request_slabs st)"
    unfolding dsum_def by (simp add: mset_concat comp_def)
  then have "mset (concat (map snd (hs_request_slabs st))) = mset (map fst (hs_slabs st))"
    using ok by (simp add: store_ok_def owned_ok_def dkeys_def)
  moreover have "hs_bytes_reserved st \<le> hs_max_memory_bytes st" "distinct (map fst (hs_slabs st))"
    using s by (auto simp: slabs_ok_def)
  ultimately show ?thesis using r e u sum_used_le [OF s] by blast
qed

theorem history_accounting_witness:
  "let st = snd (seal_slots_async ex_env ex_pool True ''r'' 0 [5, 6, 7] ex_store)
   in hs_bytes_reserved st = 128 \<and> hs_bytes_used st = 96
     \<and> hs_bytes_reserved st = int (length (hs_slabs st)) * slab_nbytes st
     \<and> rows_held st = 6 \<and> hs_bytes_used st = rows_held st * 16
     \<and> mset (concat (map snd (hs_request_slabs st))) = mset (map fst (hs_slabs st))"
proof -
  let ?seal = "seal_slots_async ex_env ex_pool True ''r'' 0 [5, 6, 7] ex_store"
  have "reaches store_init store_step (snd ?seal)"
    by (rule reaches_step [OF reaches_init [of store_init, OF ex_store_init]],
        rule step_seal [of ex_env ex_pool True "''r''" 0 "[5, 6, 7]" _ "fst ?seal"]) simp
  from history_accounting [OF this] show ?thesis
    by (simp add: Let_def) (simp add: ex_simps)
qed

section \<open>The store as a log of rows\<close>

text \<open>
  The abstract contract a reader of the history relies on: for one layer, each request has a
  list of rows; a seal appends rows to one request, a release empties one request, and
  nothing else changes any list.
\<close>

datatype 'r log_event = Append string "'r list" | Drop string | Silent

fun log_apply :: "'r log_event \<Rightarrow> (string \<Rightarrow> 'r list) \<Rightarrow> string \<Rightarrow> 'r list" where
  "log_apply (Append rid rows) h = h(rid := h rid @ rows)"
| "log_apply (Drop rid) h = h(rid := [])"
| "log_apply Silent h = h"

inductive runs :: "('s \<Rightarrow> 'e \<Rightarrow> 's \<Rightarrow> bool) \<Rightarrow> 's \<Rightarrow> 'e list \<Rightarrow> 's \<Rightarrow> bool"
  for step :: "'s \<Rightarrow> 'e \<Rightarrow> 's \<Rightarrow> bool" where
  runs_nil: "runs step s [] s"
| runs_snoc: "runs step s es t \<Longrightarrow> step t e u \<Longrightarrow> runs step s (es @ [e]) u"

locale history_log =
  fixes ok :: "'s \<Rightarrow> bool"
    and contents :: "'s \<Rightarrow> string \<Rightarrow> 'r list"
    and step :: "'s \<Rightarrow> 'r log_event \<Rightarrow> 's \<Rightarrow> bool"
  assumes step_ok: "ok s \<Longrightarrow> step s e t \<Longrightarrow> ok t"
    and step_contents: "ok s \<Longrightarrow> step s e t \<Longrightarrow> contents t = log_apply e (contents s)"
begin

lemma runs_refine:
  "runs step s es t \<Longrightarrow> ok s \<Longrightarrow> ok t \<and> contents t = fold log_apply es (contents s)"
  by (induction rule: runs.induct) (auto simp: step_contents intro: step_ok)

end

definition contents :: "nat \<Rightarrow> 'k history_store \<Rightarrow> string \<Rightarrow> ('k \<times> 'k) list" where
  "contents off st rid = toks (views st) off (request_block_ids rid st)"

text \<open>Every request's chain starts at position zero and has no gap.\<close>

definition log_ok :: "nat \<Rightarrow> 'k history_store \<Rightarrow> bool" where
  "log_ok off st \<longleftrightarrow> store_ok st \<and> off < length (hs_layer_ids st)
     \<and> (\<forall>rid. chain (views st) 0 (request_block_ids rid st) (int (length (contents off st rid))))"

inductive store_log :: "nat \<Rightarrow> 'k history_store \<Rightarrow> ('k \<times> 'k) log_event \<Rightarrow> 'k history_store \<Rightarrow> bool"
  for off :: nat where
  log_seal: "seal_slots_async env pool cu rid (int (length (contents off st rid))) slots st
       = (Inr t, st') \<Longrightarrow>
     store_log off st (Append rid (pool_rows pool (hs_layer_ids st ! off) slots)) st'"
| log_seal_failed: "seal_slots_async env pool cu rid a slots st = (Inl e, st') \<Longrightarrow>
     e \<noteq> MemoryError \<Longrightarrow> store_log off st Silent st'"
| log_complete: "complete_seal done wait t st = (b, t', st') \<Longrightarrow> store_log off st Silent st'"
| log_iter: "iter_layer_chunks rid layer hend st = (r, st') \<Longrightarrow> store_log off st Silent st'"
| log_release: "release rid st = (u, st') \<Longrightarrow> store_log off st (Drop rid) st'"

inductive_cases store_logE: "store_log off st e st'"

lemma log_ok_seal:
  assumes ok: "log_ok off st"
    and seal: "seal_slots_async env pool cu rid (int (length (contents off st rid))) slots st
       = (Inr t, st')"
  defines "rows \<equiv> pool_rows pool (hs_layer_ids st ! off) slots"
  shows "log_ok off st'" and "contents off st' = (contents off st)(rid := contents off st rid @ rows)"
proof -
  have s: "store_ok st" and o: "off < length (hs_layer_ids st)"
    and ch: "\<And>q. chain (views st) 0 (request_block_ids q st) (int (length (contents off st q)))"
    using ok by (auto simp: log_ok_def)
  note ext = seal_success [OF s seal ch, unfolded extends_history_def]
  have same: "\<forall>k \<in> set (request_block_ids q st). views st' k = views st k" for q
    using ext owned_distinct [OF s, of q] by (simp add: request_block_ids_def)
  have other: "contents off st' q = contents off st q" if "q \<noteq> rid" for q
    using ext that same [of q] toks_cong [of "request_block_ids q st" "views st'" "views st"]
    by (simp add: contents_def)
  have own: "contents off st' rid = contents off st rid @ rows"
    using ext o unfolding contents_def rows_def by blast
  show c: "contents off st' = (contents off st)(rid := contents off st rid @ rows)"
    using other own by (auto simp: fun_eq_iff)
  have "chain (views st') 0 (request_block_ids q st') (int (length (contents off st' q)))" for q
  proof (cases "q = rid")
    case True
    have "int (length (contents off st' rid)) = int (length (contents off st rid)) + int (length slots)"
      unfolding own by (simp add: rows_def pool_rows_def)
    then show ?thesis unfolding True using ext by metis
  next
    case False
    then show ?thesis
      using ext ch [of q] chain_cong [of "request_block_ids q st" "views st'" "views st"] same [of q]
      by (simp add: other)
  qed
  with ext o show "log_ok off st'" by (simp add: log_ok_def)
qed

lemma log_ok_same:
  assumes "log_ok off st" and "store_ok st'" and "views st' = views st"
    and "\<And>q. request_block_ids q st' = request_block_ids q st" and "hs_layer_ids st' = hs_layer_ids st"
  shows "log_ok off st' \<and> contents off st' = contents off st"
  using assms(1,2) unfolding log_ok_def contents_def assms(3,4,5) by blast

lemma log_ok_release:
  assumes ok: "log_ok off st" and rel: "release rid st = (u, st')"
  shows "log_ok off st'" and "contents off st' = (contents off st)(rid := [])"
proof -
  have s: "store_ok st" and o: "off < length (hs_layer_ids st)"
    and ch: "\<And>q. chain (views st) 0 (request_block_ids q st) (int (length (contents off st q)))"
    using ok by (auto simp: log_ok_def)
  have st': "store_ok st'" "hs_request_slabs st' = ddel rid (hs_request_slabs st)"
      "hs_layer_ids st' = hs_layer_ids st"
      "views st' = (\<lambda>k. if k \<in> set (request_block_ids rid st) then None else views st k)"
    using release_spec [OF s, of rid] rel by auto
  have ids: "request_block_ids q st' = (if q = rid then [] else request_block_ids q st)" for q
    using st'(2) by (simp add: request_block_ids_def)
  have same: "views st' k = views st k" if "q \<noteq> rid" "k \<in> set (request_block_ids q st)" for q k
    using that owned_disjoint [OF s that(1)] st'(4) by auto
  have c: "contents off st' q = (if q = rid then [] else contents off st q)" for q
    using same [of q] toks_cong [of "request_block_ids q st" "views st'" "views st"]
    by (simp add: contents_def ids)
  then show "contents off st' = (contents off st)(rid := [])" by (auto simp: fun_eq_iff)
  have "chain (views st') 0 (request_block_ids q st') (int (length (contents off st' q)))" for q
    using ch [of q] same [of q] chain_cong [of "request_block_ids q st" "views st'" "views st"]
    by (auto simp: ids c)
  with st' o show "log_ok off st'" by (simp add: log_ok_def)
qed

lemma store_log_step:
  assumes ok: "log_ok off st" and step: "store_log off st e st'"
  shows "log_ok off st' \<and> contents off st' = log_apply e (contents off st)"
  using step
proof (rule store_logE)
  fix env pool cu rid slots t
  assume "e = Append rid (pool_rows pool (hs_layer_ids st ! off) slots)"
    and "seal_slots_async env pool cu rid (int (length (contents off st rid))) slots st = (Inr t, st')"
  then show ?thesis using log_ok_seal [OF ok] by simp
next
  fix env pool cu rid a slots err
  assume e: "e = Silent" and f: "seal_slots_async env pool cu rid a slots st = (Inl err, st')"
    and ne: "err \<noteq> MemoryError"
  have "store_ok st" using ok by (simp add: log_ok_def)
  note sf = seal_failure [OF this f ne] and g = geometryD(1) [OF geometry_seal [OF f]]
  have "log_ok off st' \<and> contents off st' = contents off st" by (rule log_ok_same [OF ok sf g])
  with e show ?thesis by simp
next
  fix rid u assume "e = Drop rid" "release rid st = (u, st')"
  then show ?thesis using log_ok_release [OF ok] by simp
qed (use ok in \<open>auto simp: log_ok_def request_block_ids_def contents_def
       dest!: iter_silent complete_silent\<close>)

interpretation history_seal: history_log "log_ok off" "contents off" "store_log off"
  for off
  by unfold_locales (auto dest: store_log_step)

lemma store_log_layers:
  assumes "log_ok off st" and "store_log off st e st'"
  shows "hs_layer_ids st' = hs_layer_ids st"
proof -
  have s: "store_ok st" using assms(1) by (simp add: log_ok_def)
  show ?thesis
    using assms(2) s release_spec [OF s]
    by (elim store_logE) (auto dest: iter_silent complete_silent geometryD(1) [OF geometry_seal],
        metis snd_conv)
qed

lemma runs_layers:
  "runs (store_log off) st0 es st \<Longrightarrow> log_ok off st0 \<Longrightarrow> hs_layer_ids st = hs_layer_ids st0"
proof (induction rule: runs.induct)
  case (runs_snoc s es t e u)
  then have "log_ok off t" using history_seal.runs_refine by blast
  with runs_snoc store_log_layers show ?case by metis
qed simp

lemma index_of_Some: "index_of ls x = Some i \<Longrightarrow> i < length ls \<and> ls ! i = x"
  by (induction ls arbitrary: i) (auto split: if_splits)

lemma log_ok_init:
  "store_init st \<Longrightarrow> off < length (hs_layer_ids st) \<Longrightarrow> log_ok off st \<and> contents off st = (\<lambda>_. [])"
  using store_init_ok [of st]
  by (auto simp: log_ok_def contents_def request_block_ids_def store_init_def history_new_def
      dget_or_def split: if_splits)

lemma read_contents:
  assumes "log_ok off st" and "index_of (hs_layer_ids st) layer = Some off"
  shows "\<exists>cs st'. iter_layer_chunks rid layer hend st = (Inr cs, st')
    \<and> concat (map lc_tensor cs) = upto_end hend 0 (contents off st rid)"
  using assms iter_loop_reads [of st 0 "request_block_ids rid st" _ off rid hend]
  by (force simp: log_ok_def store_ok_def iter_layer_chunks_def contents_def request_block_ids_def)

text \<open>
  C3: the store implements an append-only log per request.  After any sequence of seals (each
  starting where the request's history ends), failed copies, completions, reads and releases,
  reading a layer of a request raises nothing and yields exactly the key and value rows that
  were sealed for it since its last release, in order, cut at \<open>history_end\<close>.
\<close>

theorem history_is_log:
  assumes "store_init st0" and "index_of (hs_layer_ids st0) layer = Some off"
    and "runs (store_log off) st0 es st"
  shows "\<exists>cs st'. iter_layer_chunks rid layer hend st = (Inr cs, st')
    \<and> concat (map lc_tensor cs) = upto_end hend 0 (fold log_apply es (\<lambda>_. []) rid)"
proof -
  have i: "log_ok off st0" "contents off st0 = (\<lambda>_. [])"
    using log_ok_init [OF assms(1)] index_of_Some [OF assms(2)] by auto
  have r: "log_ok off st" "contents off st = fold log_apply es (\<lambda>_. [])"
    using history_seal.runs_refine [OF assms(3) i(1)] i(2) by simp_all
  have "index_of (hs_layer_ids st) layer = Some off"
    using runs_layers [OF assms(3) i(1)] assms(2) by simp
  from read_contents [OF r(1) this] r(2) show ?thesis by simp
qed

theorem history_is_log_witness:
  "\<exists>st t cs st'. seal_slots_async ex_env ex_pool True ''r'' 0 [5, 6, 7] ex_store = (Inr t, st)
     \<and> iter_layer_chunks ''r'' 1 (Some 2) st = (Inr cs, st')
     \<and> concat (map lc_tensor cs) = [(105, - 105), (106, - 106)]"
proof -
  obtain t st where seal: "seal_slots_async ex_env ex_pool True ''r'' 0 [5, 6, 7] ex_store = (Inr t, st)"
    by (simp add: ex_simps)
  have c0: "contents 1 ex_store ''r'' = []"
    by (simp add: contents_def request_block_ids_def ex_store_def dget_or_def)
  have l: "store_log 1 ex_store (Append ''r'' (pool_rows ex_pool (hs_layer_ids ex_store ! 1) [5, 6, 7])) st"
    by (rule log_seal [where t = t and env = ex_env and cu = True])
       (simp add: seal c0 del: One_nat_def)
  have "hs_layer_ids ex_store ! 1 = 1" by (simp add: ex_store_def)
  then have run: "runs (store_log 1) ex_store ([] @ [Append ''r'' (pool_rows ex_pool 1 [5, 6, 7])]) st"
    using runs_snoc [OF runs_nil [of "store_log 1"], OF l] by simp
  have ix: "index_of (hs_layer_ids ex_store) 1 = Some 1" by (simp add: ex_store_def)
  from history_is_log [OF ex_store_init ix run, of "''r''" "Some 2"] seal show ?thesis
    by (fastforce simp: upto_end_def pool_rows_def ex_pool_def numeral_2_eq_2)
qed

text \<open>
  C28: a seal whose copy phase raises (for instance on a CUDA out-of-memory while gathering the
  rows) leaves no trace: every request keeps its chain, every slab its content, and both byte
  counters their values.
\<close>

theorem seal_copy_failure_transactional:
  assumes "reaches store_init store_step st"
    and "seal_slots_async env pool cu rid a slots st = (Inl e, st')" and "e \<noteq> MemoryError"
  shows "(\<forall>q. request_block_ids q st' = request_block_ids q st) \<and> views st' = views st
    \<and> hs_bytes_reserved st' = hs_bytes_reserved st \<and> hs_bytes_used st' = hs_bytes_used st"
proof -
  have ok: "store_ok st" using assms(1) by (rule history.reaches_inv)
  note f = seal_failure [OF ok assms(2,3)] and g = geometryD [OF geometry_seal [OF assms(2)]]
  show ?thesis using f store_bytes_cong [OF ok f(1,2) g(3,4)] by simp
qed

theorem seal_copy_failure_transactional_witness:
  "\<exists>e st'. seal_slots_async ex_env ex_pool True ''r'' 0 [5, 6, 9] ex_store = (Inl e, st')
     \<and> hs_bytes_reserved st' = 0 \<and> hs_bytes_used st' = 0 \<and> request_block_ids ''r'' st' = []"
proof -
  obtain st' where f: "seal_slots_async ex_env ex_pool True ''r'' 0 [5, 6, 9] ex_store
      = (Inl RuntimeError, st')"
    by (simp add: ex_simps)
  have "reaches store_init store_step ex_store" by (rule reaches_init) (rule ex_store_init)
  from seal_copy_failure_transactional [OF this f] f show ?thesis
    by (auto simp: ex_store_def request_block_ids_def dget_or_def)
qed

text \<open>
  C29: releasing a request raises nothing, forgets its chain, gives back exactly the bytes of
  its slabs and leaves the chain and the content of every other request as they were; clearing
  the store gives back every byte.
\<close>

theorem release_frees_exactly:
  assumes "reaches store_init store_step st"
  shows "\<exists>st' st''. release rid st = (Inr (), st') \<and> clear st = (Inr (), st'')
    \<and> request_block_ids rid st' = []
    \<and> hs_bytes_reserved st' = hs_bytes_reserved st
        - int (length (request_block_ids rid st)) * slab_nbytes st
    \<and> (\<forall>q. q \<noteq> rid \<longrightarrow> request_block_ids q st' = request_block_ids q st
          \<and> (\<forall>k \<in> set (request_block_ids q st). views st' k = views st k))
    \<and> hs_slabs st'' = [] \<and> hs_bytes_reserved st'' = 0 \<and> hs_bytes_used st'' = 0"
proof -
  have ok: "store_ok st" using assms by (rule history.reaches_inv)
  obtain st' where r: "release rid st = (Inr (), st')" and ok': "store_ok st'"
    and rq: "hs_request_slabs st' = ddel rid (hs_request_slabs st)"
    and vw: "views st' = (\<lambda>k. if k \<in> set (request_block_ids rid st) then None else views st k)"
    using release_spec [OF ok] by blast
  obtain st'' where c: "clear st = (Inr (), st'')" "store_ok st''" "hs_request_slabs st'' = []"
    using clear_spec [OF ok] by blast
  have geo: "slab_nbytes st' = slab_nbytes st"
    using r release_geometry by (metis geometryD(3) snd_conv)
  have "dkeys (hs_slabs st') + mset (request_block_ids rid st) = dkeys (hs_slabs st)"
    using ok ok' dsum_ddel [of "hs_request_slabs st" mset rid] rq
    by (auto simp: store_ok_def owned_ok_def request_block_ids_def dget_or_def split: option.splits)
  then have "length (hs_slabs st') + length (request_block_ids rid st) = length (hs_slabs st)"
    by (metis dkeys_def length_map size_mset size_union)
  then have "int (length (hs_slabs st')) = int (length (hs_slabs st)) - int (length (request_block_ids rid st))"
    by linarith
  then have "hs_bytes_reserved st' = hs_bytes_reserved st
      - int (length (request_block_ids rid st)) * slab_nbytes st"
    using reserved_eq [OF ok] reserved_eq [OF ok'] geo
    by (simp add: left_diff_distrib)
  moreover have "request_block_ids q st' = (if q = rid then [] else request_block_ids q st)" for q
    using rq by (simp add: request_block_ids_def)
  moreover have "views st' k = views st k" if "q \<noteq> rid" "k \<in> set (request_block_ids q st)" for q k
    using owned_disjoint [OF ok that] vw by simp
  ultimately show ?thesis using r c empty_store_bytes [OF c(2,3)] by auto
qed

theorem release_frees_exactly_witness:
  "let st = snd (seal_slots_async ex_env ex_pool True ''r'' 0 [5, 6, 7] ex_store)
   in request_block_ids ''r'' st = [0, 1]
     \<and> (\<exists>st'. release ''r'' st = (Inr (), st') \<and> hs_bytes_reserved st' = 0)"
proof -
  let ?seal = "seal_slots_async ex_env ex_pool True ''r'' 0 [5, 6, 7] ex_store"
  have st: "reaches store_init store_step (snd ?seal)"
    by (rule reaches_step [OF reaches_init [of store_init, OF ex_store_init]],
        rule step_seal [of ex_env ex_pool True "''r''" 0 "[5, 6, 7]" _ "fst ?seal"]) simp
  have ids: "request_block_ids ''r'' (snd ?seal) = [0, 1]"
    by (simp add: request_block_ids_def ex_simps)
  have "hs_bytes_reserved (snd ?seal) - 2 * slab_nbytes (snd ?seal) = 0"
    by (simp add: ex_simps)
  with release_frees_exactly [OF st, of "''r''"] ids show ?thesis by (auto simp: Let_def)
qed

text \<open>
  C30: the allocation loop of a seal is not covered by the transaction.  A seal of slots that
  needs more slabs than the memory budget still admits raises \<open>MemoryError\<close>, and every slab the
  budget did admit stays reserved: all of them are new, attached to the request behind the slabs
  it had and empty, \<open>bytes_reserved\<close> grows by exactly their size, and every other slab, every
  other request's chain and \<open>bytes_used\<close> are as before.
\<close>

theorem seal_memory_error_keeps_slabs:
  assumes "reaches store_init store_step st" and "slots \<noteq> []"
    and "hs_max_memory_bytes st < hs_bytes_reserved st + slabs_needed st slots * slab_nbytes st"
  shows "\<exists>ks st'. seal_slots_async env pool cu rid a slots st = (Inl MemoryError, st')
    \<and> length ks = nat ((hs_max_memory_bytes st - hs_bytes_reserved st) div slab_nbytes st)
    \<and> request_block_ids rid st' = request_block_ids rid st @ ks
    \<and> (\<forall>k \<in> set ks. dget (hs_slabs st) k = None
         \<and> (\<exists>sl. dget (hs_slabs st') k = Some sl \<and> sl_used_tokens sl = 0))
    \<and> (\<forall>k. k \<notin> set ks \<longrightarrow> dget (hs_slabs st') k = dget (hs_slabs st) k)
    \<and> (\<forall>r. r \<noteq> rid \<longrightarrow> dget (hs_request_slabs st') r = dget (hs_request_slabs st) r)
    \<and> hs_bytes_reserved st' = hs_bytes_reserved st + int (length ks) * slab_nbytes st
    \<and> hs_bytes_used st' = hs_bytes_used st"
proof -
  have ok: "store_ok st" using assms(1) by (rule history.reaches_inv)
  show ?thesis
    using seal_memory_error_leak [OF ok assms(2,3), of env pool cu rid a]
    unfolding leftover_slabs_def slabs_admitted_def .
qed

theorem seal_memory_error_keeps_slabs_witness:
  "\<exists>k1 k2 st'. seal_slots_async ex_env ex_pool True ''r'' 0 [1, 2, 3, 4, 5] ex_store = (Inl MemoryError, st')
     \<and> hs_bytes_reserved st' = 128 \<and> hs_bytes_used st' = 0
     \<and> request_block_ids ''r'' st' = [k1, k2]"
proof -
  have st: "reaches store_init store_step ex_store" by (rule reaches_init) (rule ex_store_init)
  have over: "hs_max_memory_bytes ex_store
      < hs_bytes_reserved ex_store + slabs_needed ex_store [1, 2, 3, 4, 5] * slab_nbytes ex_store"
    by (simp add: ex_simps slabs_needed_def)
  have mx: "hs_max_memory_bytes ex_store = 150"
    and nb: "slab_nbytes ex_store = 64"
    and zr: "hs_bytes_reserved ex_store = 0" and zu: "hs_bytes_used ex_store = 0"
    and zb: "request_block_ids ''r'' ex_store = []"
    by (simp_all add: ex_simps request_block_ids_def)
  have ne: "[1, 2, 3, 4, 5 :: nat] \<noteq> []" by simp
  from seal_memory_error_keeps_slabs [OF st ne over, of ex_env ex_pool True "''r''" 0]
  obtain ks st' where f: "seal_slots_async ex_env ex_pool True ''r'' 0 [1, 2, 3, 4, 5] ex_store
      = (Inl MemoryError, st')" and l: "length ks = 2"
    and b: "request_block_ids ''r'' st' = ks"
    and h: "hs_bytes_reserved st' = 0 + int (length ks) * 64" "hs_bytes_used st' = 0"
    unfolding mx nb zr zu zb by auto
  obtain k1 k2 where "ks = [k1, k2]" using l by (auto simp: length_Suc_conv numeral_2_eq_2)
  with f b h show ?thesis by auto
qed

end
