(* ===== verification/Staging.thy ===== *)
theory Staging
  imports Prelude
begin

text \<open>
  The staging windows of the Target (\<open>specstream/staging_runtime.py\<close>): bounded GPU buffers that a
  copy stream fills from CPU memory while the compute stream reads others, ordered only by CUDA
  events.  The operations of the pool issue a trace of asynchronous operations; the device may
  execute it in any order that respects what CUDA documents: operations of one stream run in order,
  an operation runs after it was issued, a wait runs after the latest record of its event.  Under
  every such order a consumer reads what its transfer copied.  Tensors are flat lists of elements
  with a shape; an allocation is a new buffer.
\<close>

section \<open>Streams, events and buffers\<close>

text \<open>\<open>HostThread\<close> is the Python thread itself, which issues the operations.\<close>

datatype stream_id = HostThread | CopyStream | ComputeStream

datatype buf_kind = Window | Pack | Valid | ValidPack

text \<open>A buffer: its kind, the slot it was allocated for and a number.\<close>

datatype buf = Buf buf_kind nat nat

fun buf_slot :: "buf \<Rightarrow> nat" where
  "buf_slot (Buf k s n) = s"

fun buf_num :: "buf \<Rightarrow> nat" where
  "buf_num (Buf k s n) = n"

text \<open>An element of a buffer: one of a tensor, or a valid length.\<close>

datatype 'e elem = Elem 'e | Len nat

text \<open>
  \<open>WaitFor i\<close> waits for the event recorded by operation \<open>i\<close> (by the host, \<open>Event.synchronize\<close>);
  \<open>SyncStream\<close> waits for all operations of a stream.  \<open>ReadElems\<close> is a kernel that reads a buffer.
\<close>

datatype 'e gpu_op =
    PutElems buf nat "'e elem list"
  | MoveElems buf buf nat
  | ReadElems buf nat
  | RecordEv
  | WaitFor nat
  | SyncStream stream_id

type_synonym 'e trace = "(stream_id \<times> 'e gpu_op) list"

text \<open>The orders CUDA guarantees between two issued operations.\<close>

definition edge :: "'e trace \<Rightarrow> nat \<Rightarrow> nat \<Rightarrow> bool" where
  "edge tr i j \<longleftrightarrow>
     i < j \<and> j < length tr
   \<and> (fst (tr ! i) = fst (tr ! j) \<or> fst (tr ! i) = HostThread
      \<or> snd (tr ! j) = WaitFor i \<or> snd (tr ! j) = SyncStream (fst (tr ! i)))"

definition precedes :: "nat list \<Rightarrow> nat \<Rightarrow> nat \<Rightarrow> bool" where
  "precedes sch i j \<longleftrightarrow> (\<exists>xs ys. sch = xs @ ys \<and> i \<in> set xs \<and> j \<in> set ys)"

definition cuda_schedule :: "'e trace \<Rightarrow> nat list \<Rightarrow> bool" where
  "cuda_schedule tr sch \<longleftrightarrow>
     distinct sch \<and> set sch = {..<length tr} \<and> (\<forall>i j. edge tr i j \<longrightarrow> precedes sch i j)"

type_synonym 'e gpu_mem = "buf \<times> nat \<Rightarrow> 'e elem option"

fun exec_op :: "'e gpu_op \<Rightarrow> 'e gpu_mem \<Rightarrow> 'e gpu_mem" where
  "exec_op (PutElems b off es) mem =
     (\<lambda>x. if fst x = b \<and> off \<le> snd x \<and> snd x < off + length es then Some (es ! (snd x - off)) else mem x)"
| "exec_op (MoveElems b src n) mem = (\<lambda>x. if fst x = b \<and> snd x < n then mem (src, snd x) else mem x)"
| "exec_op _ mem = mem"

text \<open>The memory an operation finds when the schedule reaches it.\<close>

definition mem_before :: "'e trace \<Rightarrow> nat list \<Rightarrow> nat \<Rightarrow> 'e gpu_mem" where
  "mem_before tr sch i = fold (\<lambda>k. exec_op (snd (tr ! k))) (takeWhile (\<lambda>k. k \<noteq> i) sch) (\<lambda>_. None)"

section \<open>The pool\<close>

record 'e cpu_tensor =
  ct_shape :: "nat list"
  ct_dtype :: string
  ct_itemsize :: nat
  ct_data :: "'e list"
  ct_cpu :: bool
  ct_contiguous :: bool
  ct_pinned :: bool

record stage_buffer =
  wi_buf :: buf
  wi_dtype :: string
  wi_itemsize :: nat
  wi_numel :: nat

text \<open>
  An event is the index of the operation that recorded it last, \<open>None\<close> while the flag
  \<open>_has_ready_event\<close> or \<open>_has_free_event\<close> is unset.  \<open>sp_pin\<close> says whether pinned allocation works.
\<close>

record 'e staging_pool =
  sp_num_buffers :: nat
  sp_copy_stream :: bool
  sp_pin :: bool
  sp_buffers :: "stage_buffer option list"
  sp_host_buffers :: "stage_buffer option list"
  sp_valid_buffers :: "stage_buffer option list"
  sp_valid_host_buffers :: "stage_buffer option list"
  sp_ready_events :: "nat option list"
  sp_free_events :: "nat option list"
  sp_allocated :: nat
  sp_trace :: "'e trace"

record transfer =
  tf_slot :: nat
  tf_window :: stage_buffer
  tf_count :: nat
  tf_nbytes :: nat
  tf_source_count :: nat
  tf_valid_tokens :: "(stage_buffer \<times> nat) option"
  tf_valid_lengths :: "nat list"

definition staging_new :: "int \<Rightarrow> bool \<Rightarrow> bool \<Rightarrow> 'e staging_pool res" where
  "staging_new num_buffers cuda pin =
     (if num_buffers < 1 then Inl ValueError
      else let n = nat num_buffers; none = replicate n None
           in Inr \<lparr> sp_num_buffers = n, sp_copy_stream = cuda, sp_pin = pin, sp_buffers = none,
                    sp_host_buffers = none, sp_valid_buffers = none, sp_valid_host_buffers = none,
                    sp_ready_events = replicate n None, sp_free_events = replicate n None,
                    sp_allocated = 0, sp_trace = [] \<rparr>)"

definition issue_op :: "stream_id \<Rightarrow> 'e gpu_op \<Rightarrow> 'e staging_pool \<Rightarrow> 'e staging_pool" where
  "issue_op s op p = p\<lparr>sp_trace := sp_trace p @ [(s, op)]\<rparr>"

text \<open>Without CUDA the host copies and computes itself.\<close>

definition copier :: "'e staging_pool \<Rightarrow> stream_id" where
  "copier p = (if sp_copy_stream p then CopyStream else HostThread)"

definition consumer :: "'e staging_pool \<Rightarrow> stream_id" where
  "consumer p = (if sp_copy_stream p then ComputeStream else HostThread)"

definition wait_host_slot_writable :: "nat \<Rightarrow> 'e staging_pool \<Rightarrow> 'e staging_pool" where
  "wait_host_slot_writable slot p =
     (if sp_copy_stream p
      then (case sp_ready_events p ! slot of None \<Rightarrow> p | Some i \<Rightarrow> issue_op HostThread (WaitFor i) p)
      else p)"

definition fits :: "stage_buffer option \<Rightarrow> string \<Rightarrow> nat \<Rightarrow> bool" where
  "fits w dtype required = (case w of None \<Rightarrow> False | Some w \<Rightarrow> wi_dtype w = dtype \<and> required \<le> wi_numel w)"

text \<open>\<open>torch.empty\<close>.\<close>

definition new_window :: "buf_kind \<Rightarrow> nat \<Rightarrow> string \<Rightarrow> nat \<Rightarrow> nat \<Rightarrow> 'e staging_pool \<Rightarrow> stage_buffer \<times> 'e staging_pool" where
  "new_window kind slot dtype itemsize numel p =
     (\<lparr> wi_buf = Buf kind slot (sp_allocated p), wi_dtype = dtype, wi_itemsize = itemsize, wi_numel = numel \<rparr>,
      p\<lparr>sp_allocated := sp_allocated p + 1\<rparr>)"

definition ensure_host_shape :: "int \<Rightarrow> nat list \<Rightarrow> string \<Rightarrow> nat \<Rightarrow> ('e staging_pool, stage_buffer) py" where
  "ensure_host_shape slot shape dtype itemsize p =
     (if \<not> (0 \<le> slot \<and> slot < int (sp_num_buffers p)) then (Inl IndexError, p)
      else
       let s = nat slot; required = prod_list shape; current = sp_host_buffers p ! s in
       if fits current dtype required then (Inr (the current), p)
       else let (w, p1) = new_window Pack s dtype itemsize required p
            in (Inr w, p1\<lparr>sp_host_buffers := (sp_host_buffers p1)[s := Some w]\<rparr>))"

definition ensure_valid_shape :: "nat \<Rightarrow> nat \<Rightarrow> 'e staging_pool \<Rightarrow> (stage_buffer \<times> stage_buffer) \<times> 'e staging_pool" where
  "ensure_valid_shape slot cnt p =
     (let host = sp_valid_host_buffers p ! slot;
          dev = sp_valid_buffers p ! slot;
          (h, p1) = (if fits host ''int32'' cnt then (the host, p)
                     else let (w, q) = new_window ValidPack slot ''int32'' 4 cnt p
                          in (w, q\<lparr>sp_valid_host_buffers := (sp_valid_host_buffers q)[slot := Some w]\<rparr>));
          (d, p2) = (if fits dev ''int32'' cnt then (the dev, p1)
                     else let (w, q) = new_window Valid slot ''int32'' 4 cnt p1
                          in (w, q\<lparr>sp_valid_buffers := (sp_valid_buffers q)[slot := Some w]\<rparr>))
      in ((h, d), p2))"

text \<open>A device window that has to grow waits for the compute stream first.\<close>

definition ensure_shape :: "int \<Rightarrow> nat list \<Rightarrow> string \<Rightarrow> nat \<Rightarrow> ('e staging_pool, stage_buffer) py" where
  "ensure_shape slot shape dtype itemsize p =
     (if \<not> (0 \<le> slot \<and> slot < int (sp_num_buffers p)) then (Inl IndexError, p)
      else
       let s = nat slot; required = prod_list shape; current = sp_buffers p ! s in
       if fits current dtype required then (Inr (the current), p)
       else let p0 = (if sp_copy_stream p then issue_op HostThread (SyncStream ComputeStream) p else p);
                (w, p1) = new_window Window s dtype itemsize required p0
            in (Inr w, p1\<lparr>sp_buffers := (sp_buffers p1)[s := Some w]\<rparr>))"

definition staging_reserve :: "nat list \<Rightarrow> string \<Rightarrow> nat \<Rightarrow> ('e staging_pool, unit) py" where
  "staging_reserve shape dtype itemsize p =
     py_for (map int [0..<sp_num_buffers p])
       (\<lambda>slot. py_bind (ensure_shape slot shape dtype itemsize) (\<lambda>_. py_return ())) p"

definition reserve_cohort_pack :: "nat list \<Rightarrow> string \<Rightarrow> nat \<Rightarrow> ('e staging_pool, unit) py" where
  "reserve_cohort_pack shape dtype itemsize p =
     (if length shape < 2 \<or> shape ! 0 < 1 then (Inl ValueError, p)
      else py_for (map int [0..<sp_num_buffers p])
        (\<lambda>slot. py_bind (ensure_host_shape slot shape dtype itemsize)
                  (\<lambda>_ q. (Inr (), snd (ensure_valid_shape (nat slot) (shape ! 0) q)))) p)"

section \<open>Transfers\<close>

text \<open>
  Copies between the wait on the free event and the record of the ready event.  A copy from memory
  that is not pinned blocks the host.
\<close>

fun issue_copies :: "('e gpu_op \<times> bool) list \<Rightarrow> 'e staging_pool \<Rightarrow> 'e staging_pool" where
  "issue_copies [] p = p"
| "issue_copies ((op, pinned) # cs) p =
     (let p1 = issue_op (copier p) op p;
          p2 = (if pinned then p1 else issue_op HostThread (WaitFor (length (sp_trace p))) p1)
      in issue_copies cs p2)"

definition enqueue :: "nat \<Rightarrow> ('e gpu_op \<times> bool) list \<Rightarrow> 'e staging_pool \<Rightarrow> 'e staging_pool" where
  "enqueue slot copies p =
     (if \<not> sp_copy_stream p then issue_copies copies p
      else
       let p1 = (case sp_free_events p ! slot of None \<Rightarrow> p | Some i \<Rightarrow> issue_op CopyStream (WaitFor i) p);
           p2 = issue_copies copies p1;
           p3 = issue_op CopyStream RecordEv p2
       in p3\<lparr>sp_ready_events := (sp_ready_events p3)[slot := Some (length (sp_trace p2))]\<rparr>)"

definition nbytes_of :: "'e cpu_tensor \<Rightarrow> nat" where
  "nbytes_of t = prod_list (ct_shape t) * ct_itemsize t"

definition submit :: "'e cpu_tensor \<Rightarrow> int \<Rightarrow> ('e staging_pool, transfer) py" where
  "submit source slot =
     py_bind (\<lambda>p. (raise_first [(\<not> ct_cpu source, ValueError), (\<not> ct_contiguous source, ValueError)], p)) (\<lambda>_.
     py_bind (ensure_shape slot (ct_shape source) (ct_dtype source) (ct_itemsize source)) (\<lambda>w p.
       (Inr \<lparr> tf_slot = nat slot, tf_window = w, tf_count = prod_list (ct_shape source),
              tf_nbytes = nbytes_of source, tf_source_count = 1, tf_valid_tokens = None, tf_valid_lengths = [] \<rparr>,
        enqueue (nat slot) [(PutElems (wi_buf w) 0 (map Elem (ct_data source)), ct_pinned source)] p)))"

text \<open>One geometry: CPU memory, contiguous, the element type and the trailing shape of the first source.\<close>

definition source_error :: "'e cpu_tensor \<Rightarrow> 'e cpu_tensor \<Rightarrow> unit res" where
  "source_error first s =
     raise_first
       [(\<not> ct_cpu s \<or> \<not> ct_contiguous s, ValueError),
        (ct_dtype s \<noteq> ct_dtype first \<or> tl (ct_shape s) \<noteq> tl (ct_shape first), ValueError),
        (ct_shape s = [], IndexError)]"

definition row_elems :: "'e cpu_tensor \<Rightarrow> nat" where
  "row_elems first = prod_list (tl (ct_shape first))"

text \<open>The copies of a list of sources into consecutive rows from row \<open>cursor\<close> on.\<close>

fun slab_copies :: "buf \<Rightarrow> nat \<Rightarrow> nat \<Rightarrow> 'e cpu_tensor list \<Rightarrow> ('e gpu_op \<times> bool) list" where
  "slab_copies b row cursor [] = []"
| "slab_copies b row cursor (s # ss) =
     (PutElems b (cursor * row) (map Elem (ct_data s)), ct_pinned s) # slab_copies b row (cursor + hd (ct_shape s)) ss"

definition submit_many :: "'e cpu_tensor list \<Rightarrow> int \<Rightarrow> ('e staging_pool, transfer) py" where
  "submit_many sources slot =
     (case sources of
        [] \<Rightarrow> py_raise ValueError
      | first # _ \<Rightarrow>
          py_bind (\<lambda>p. (rmap (source_error first) sources, p)) (\<lambda>_.
          let total_tokens = sum_list (map (\<lambda>s. hd (ct_shape s)) sources) in
          py_bind (ensure_shape slot (total_tokens # tl (ct_shape first)) (ct_dtype first) (ct_itemsize first)) (\<lambda>w p.
            (Inr \<lparr> tf_slot = nat slot, tf_window = w, tf_count = total_tokens * row_elems first,
                   tf_nbytes = sum_list (map nbytes_of sources), tf_source_count = length sources,
                   tf_valid_tokens = None, tf_valid_lengths = [] \<rparr>,
             enqueue (nat slot) (slab_copies (wi_buf w) (row_elems first) 0 sources) p))))"

definition group_length :: "'e cpu_tensor list \<Rightarrow> nat" where
  "group_length g = sum_list (map (\<lambda>s. hd (ct_shape s)) g)"

text \<open>Every group into its own item of the window: row \<open>max_tokens\<close> times the index of the group.\<close>

fun group_copies :: "buf \<Rightarrow> nat \<Rightarrow> nat \<Rightarrow> nat \<Rightarrow> 'e cpu_tensor list list \<Rightarrow> ('e gpu_op \<times> bool) list" where
  "group_copies b row max_tokens index [] = []"
| "group_copies b row max_tokens index (g # gs) =
     slab_copies b row (index * max_tokens) g @ group_copies b row max_tokens (Suc index) gs"

definition length_writes :: "buf \<Rightarrow> nat list \<Rightarrow> 'e gpu_op list" where
  "length_writes b lens = map (\<lambda>i. PutElems b i [Len (lens ! i)]) [0..<length lens]"

fun issue_host :: "'e gpu_op list \<Rightarrow> 'e staging_pool \<Rightarrow> 'e staging_pool" where
  "issue_host [] p = p"
| "issue_host (op # ops) p = issue_host ops (issue_op HostThread op p)"

definition cohort_transfer :: "nat \<Rightarrow> stage_buffer \<Rightarrow> nat \<Rightarrow> nat \<Rightarrow> stage_buffer \<Rightarrow> 'e cpu_tensor list list \<Rightarrow> transfer" where
  "cohort_transfer slot w cnt nbytes valid groups =
     \<lparr> tf_slot = slot, tf_window = w, tf_count = cnt, tf_nbytes = nbytes,
       tf_source_count = length (concat groups), tf_valid_tokens = Some (valid, length groups),
       tf_valid_lengths = map group_length groups \<rparr>"

text \<open>
  \<open>submit_cohort_groups\<close>: wait until the pack buffer may be overwritten, pack on the host, one copy
  for the window and one for the valid lengths.  A negative slot that indexes the events from their
  end passes the wait and raises in \<open>_ensure_host_shape\<close>.
\<close>

definition submit_cohort_groups :: "'e cpu_tensor list list \<Rightarrow> int \<Rightarrow> ('e staging_pool, transfer) py" where
  "submit_cohort_groups groups slot =
     (case concat groups of
        [] \<Rightarrow> py_raise ValueError
      | first # _ \<Rightarrow>
          py_bind (\<lambda>p. (rmap (source_error first) (concat groups), p)) (\<lambda>_.
          let max_tokens = Max (set (map group_length groups));
              shape = length groups # max_tokens # tl (ct_shape first)
          in
          py_bind (\<lambda>p. if - int (sp_num_buffers p) \<le> slot \<and> slot < int (sp_num_buffers p)
                       then (Inr (), wait_host_slot_writable (nat (slot mod int (sp_num_buffers p))) p)
                       else (Inl IndexError, p)) (\<lambda>_.
          py_bind (ensure_host_shape slot shape (ct_dtype first) (ct_itemsize first)) (\<lambda>host.
          py_bind (py_update (issue_host (map fst (group_copies (wi_buf host) (row_elems first) max_tokens 0 groups)))) (\<lambda>_ p.
          let ((vh, vd), p1) = ensure_valid_shape (nat slot) (length groups) p;
              p2 = issue_host (length_writes (wi_buf vh) (map group_length groups)) p1
          in
          py_bind (ensure_shape slot shape (ct_dtype first) (ct_itemsize first)) (\<lambda>w p.
            (Inr (cohort_transfer (nat slot) w (prod_list shape)
                    (prod_list shape * ct_itemsize first + length groups * 4) vd groups),
             enqueue (nat slot)
               [(MoveElems (wi_buf w) (wi_buf host) (prod_list shape), sp_pin p),
                (MoveElems (wi_buf vd) (wi_buf vh) (length groups), sp_pin p)] p)) p2)))))"

text \<open>\<open>submit_cohort_groups_direct_async\<close>: the slabs go straight into the window.\<close>

definition submit_cohort_direct :: "'e cpu_tensor list list \<Rightarrow> int \<Rightarrow> ('e staging_pool, transfer) py" where
  "submit_cohort_direct groups slot =
     (case concat groups of
        [] \<Rightarrow> py_raise ValueError
      | first # _ \<Rightarrow>
          py_bind (\<lambda>p. (rmap (source_error first) (concat groups), p)) (\<lambda>_.
          let max_tokens = Max (set (map group_length groups));
              shape = length groups # max_tokens # tl (ct_shape first)
          in
          py_bind (ensure_shape slot shape (ct_dtype first) (ct_itemsize first)) (\<lambda>w.
          py_bind (py_update (wait_host_slot_writable (nat slot))) (\<lambda>_ p.
          let ((vh, vd), p1) = ensure_valid_shape (nat slot) (length groups) p;
              p2 = issue_host (length_writes (wi_buf vh) (map group_length groups)) p1
          in (Inr (cohort_transfer (nat slot) w (prod_list shape)
                     (sum_list (map nbytes_of (concat groups)) + length groups * 4) vd groups),
              enqueue (nat slot)
                (group_copies (wi_buf w) (row_elems first) max_tokens 0 groups
                 @ [(MoveElems (wi_buf vd) (wi_buf vh) (length groups), sp_pin p)]) p2)))))"

section \<open>Consumption\<close>

definition wait_ready :: "transfer \<Rightarrow> 'e staging_pool \<Rightarrow> 'e staging_pool" where
  "wait_ready t p =
     (if sp_copy_stream p
      then (case sp_ready_events p ! tf_slot t of None \<Rightarrow> p | Some i \<Rightarrow> issue_op ComputeStream (WaitFor i) p)
      else p)"

definition mark_consumed :: "transfer \<Rightarrow> 'e staging_pool \<Rightarrow> 'e staging_pool" where
  "mark_consumed t p =
     (if sp_copy_stream p
      then (issue_op ComputeStream RecordEv p)
             \<lparr>sp_free_events := (sp_free_events p)[tf_slot t := Some (length (sp_trace p))]\<rparr>
      else p)"

definition allocated_bytes :: "'e staging_pool \<Rightarrow> nat" where
  "allocated_bytes p = sum_list (map (\<lambda>w. case w of None \<Rightarrow> 0 | Some w \<Rightarrow> wi_numel w * wi_itemsize w) (sp_buffers p))"

definition allocated_host_bytes :: "'e staging_pool \<Rightarrow> nat" where
  "allocated_host_bytes p =
     sum_list (map (\<lambda>w. case w of None \<Rightarrow> 0 | Some w \<Rightarrow> wi_numel w * wi_itemsize w) (sp_host_buffers p))"

text \<open>
  One use of a transfer by an attention kernel: wait, read the window and the valid lengths, mark
  the slot free.
\<close>

definition consume :: "transfer \<Rightarrow> 'e staging_pool \<Rightarrow> 'e staging_pool" where
  "consume t p =
     (let p1 = wait_ready t p;
          p2 = issue_op (consumer p1) (ReadElems (wi_buf (tf_window t)) (tf_count t)) p1;
          p3 = (case tf_valid_tokens t of None \<Rightarrow> p2
                | Some (w, n) \<Rightarrow> issue_op (consumer p2) (ReadElems (wi_buf w) n) p2)
      in mark_consumed t p3)"

section \<open>Reading under any schedule\<close>

abbreviation before :: "'e trace \<Rightarrow> nat \<Rightarrow> nat \<Rightarrow> bool" where
  "before tr \<equiv> (edge tr)\<^sup>+\<^sup>+"

fun op_writes :: "'e gpu_op \<Rightarrow> buf \<times> nat \<Rightarrow> bool" where
  "op_writes (PutElems b off es) x \<longleftrightarrow> fst x = b \<and> off \<le> snd x \<and> snd x < off + length es"
| "op_writes (MoveElems b src n) x \<longleftrightarrow> fst x = b \<and> snd x < n"
| "op_writes _ x \<longleftrightarrow> False"

abbreviation writes_at :: "'e trace \<Rightarrow> nat \<Rightarrow> buf \<times> nat \<Rightarrow> bool" where
  "writes_at tr j x \<equiv> j < length tr \<and> op_writes (snd (tr ! j)) x"

text \<open>
  Operation \<open>u\<close> finds \<open>v\<close> in cell \<open>x\<close> whatever the schedule: one operation that writes it runs
  before \<open>u\<close>, and every other writer runs before that one or after \<open>u\<close>.  A copy between buffers
  passes on what it finds itself.
\<close>

definition last_writer :: "'e trace \<Rightarrow> nat \<Rightarrow> nat \<Rightarrow> buf \<times> nat \<Rightarrow> bool" where
  "last_writer tr w u x \<longleftrightarrow>
     before tr w u \<and> (\<forall>j. writes_at tr j x \<and> j \<noteq> w \<longrightarrow> before tr j w \<or> before tr u j)"

inductive delivers :: "'e trace \<Rightarrow> nat \<Rightarrow> buf \<times> nat \<Rightarrow> 'e elem \<Rightarrow> bool" for tr where
  deliver_put: "last_writer tr w u (b, c) \<Longrightarrow> snd (tr ! w) = PutElems b off es \<Longrightarrow> off \<le> c \<Longrightarrow> c < off + length es
     \<Longrightarrow> v = es ! (c - off) \<Longrightarrow> delivers tr u (b, c) v"
| deliver_move: "last_writer tr w u (b, c) \<Longrightarrow> snd (tr ! w) = MoveElems b src n \<Longrightarrow> c < n
     \<Longrightarrow> delivers tr w (src, c) v \<Longrightarrow> delivers tr u (b, c) v"

lemma edge_lt: "edge tr i j \<Longrightarrow> i < j \<and> j < length tr"
  by (simp add: edge_def)

lemma before_lt: "before tr i j \<Longrightarrow> i < j \<and> j < length tr"
  by (induction rule: tranclp_induct) (auto dest: edge_lt)

lemma edge_append: "edge tr i j \<Longrightarrow> edge (tr @ ops) i j"
  by (auto simp: edge_def nth_append)

lemma before_append: "before tr i j \<Longrightarrow> before (tr @ ops) i j"
  by (induction rule: tranclp_induct) (auto intro: edge_append tranclp.trancl_into_trancl)

lemma precedesI: "sch = xs @ ys \<Longrightarrow> i \<in> set xs \<Longrightarrow> j \<in> set ys \<Longrightarrow> precedes sch i j"
  by (auto simp: precedes_def)

lemma precedes_trans:
  assumes "distinct sch" "precedes sch i j" "precedes sch j k"
  shows "precedes sch i k"
proof -
  obtain xs ys where 1: "sch = xs @ ys" "i \<in> set xs" "j \<in> set ys" using assms(2) by (auto simp: precedes_def)
  obtain xs' ys' where 2: "sch = xs' @ ys'" "j \<in> set xs'" "k \<in> set ys'" using assms(3) by (auto simp: precedes_def)
  have "j \<notin> set xs" using 1 assms(1) by auto
  then have "length xs \<le> length xs'"
    using 1 2 by (metis append_eq_append_conv_if in_set_takeD nle_le)
  then have "i \<in> set xs'" using 1 2 by (metis append_eq_append_conv_if in_set_takeD)
  then show ?thesis using 2 by (auto simp: precedes_def)
qed

lemma precedes_asym: "distinct sch \<Longrightarrow> precedes sch i j \<Longrightarrow> \<not> precedes sch j i"
proof
  assume d: "distinct sch" and "precedes sch i j" "precedes sch j i"
  then have "precedes sch i i" by (blast intro: precedes_trans)
  then show False using d by (auto simp: precedes_def)
qed

lemma before_precedes:
  assumes "cuda_schedule tr sch" "before tr i j"
  shows "precedes sch i j"
  using assms(2)
proof (induction rule: tranclp_induct)
  case (base j)
  then show ?case using assms(1) by (simp add: cuda_schedule_def)
next
  case (step j k)
  then show ?case using assms(1) precedes_trans [of sch i j k] by (simp add: cuda_schedule_def)
qed

lemma takeWhile_upto: "w \<notin> set xs \<Longrightarrow> takeWhile (\<lambda>k. k \<noteq> w) (xs @ w # ys) = xs"
  by (induction xs) auto

text \<open>Everything before an operation in the schedule.\<close>

lemma precedes_split:
  assumes "distinct sch" "precedes sch w u"
  shows "\<exists>ys. takeWhile (\<lambda>k. k \<noteq> u) sch = takeWhile (\<lambda>k. k \<noteq> w) sch @ w # ys
     \<and> (\<forall>j \<in> set ys. precedes sch w j \<and> precedes sch j u)"
proof -
  obtain xs ys where sp: "sch = xs @ ys" "w \<in> set xs" "u \<in> set ys" using assms(2) by (auto simp: precedes_def)
  obtain a b where x: "xs = a @ w # b" using split_list [OF sp(2)] by blast
  obtain c d where y: "ys = c @ u # d" using split_list [OF sp(3)] by blast
  have sch: "sch = a @ w # (b @ c) @ u # d" using sp(1) x y by simp
  have d: "w \<notin> set a" "u \<notin> set (a @ w # b @ c)" using assms(1) by (auto simp: sch)
  have "takeWhile (\<lambda>k. k \<noteq> w) sch = a" using takeWhile_upto [OF d(1)] by (simp add: sch)
  moreover have "takeWhile (\<lambda>k. k \<noteq> u) sch = a @ w # (b @ c)"
    using takeWhile_upto [OF d(2), of d] by (simp add: sch)
  moreover have "precedes sch w j \<and> precedes sch j u" if "j \<in> set (b @ c)" for j
    using that precedesI [of sch "a @ [w]" "b @ c @ u # d" w j] precedesI [of sch "a @ w # b @ c" "u # d" j u]
    by (auto simp: sch)
  ultimately show ?thesis by blast
qed

lemma fold_keeps_cell:
  "\<forall>j \<in> set ks. \<not> op_writes (snd (tr ! j)) x \<Longrightarrow> fold (\<lambda>k. exec_op (snd (tr ! k))) ks mem x = mem x"
proof (induction ks arbitrary: mem)
  case (Cons k ks)
  then have "exec_op (snd (tr ! k)) mem x = mem x" by (cases "snd (tr ! k)") auto
  with Cons show ?case by simp
qed simp

lemma last_writer_value:
  assumes sch: "cuda_schedule tr sch" and w: "last_writer tr w u x"
  shows "mem_before tr sch u x = exec_op (snd (tr ! w)) (mem_before tr sch w) x"
proof -
  have d: "distinct sch" "set sch = {..<length tr}" using sch by (simp_all add: cuda_schedule_def)
  have wu: "precedes sch w u" using w before_precedes [OF sch] by (simp add: last_writer_def)
  obtain ys where ys: "takeWhile (\<lambda>k. k \<noteq> u) sch = takeWhile (\<lambda>k. k \<noteq> w) sch @ w # ys"
      "\<forall>j \<in> set ys. precedes sch w j \<and> precedes sch j u"
    using precedes_split [OF d(1) wu] by blast
  have "\<not> op_writes (snd (tr ! j)) x" if j: "j \<in> set ys" for j
  proof
    assume wr: "op_writes (snd (tr ! j)) x"
    have "j \<in> set (takeWhile (\<lambda>k. k \<noteq> u) sch)" using j ys(1) by simp
    then have "j \<in> set sch" by (rule set_takeWhileD [THEN conjunct1])
    then have "j < length tr" using d(2) by simp
    have "precedes sch w j" "precedes sch j u" using ys(2) j by auto
    moreover have "j \<noteq> w" using \<open>precedes sch w j\<close> precedes_asym [OF d(1)] by blast
    then have "before tr j w \<or> before tr u j" using w wr \<open>j < length tr\<close> by (simp add: last_writer_def)
    ultimately show False using before_precedes [OF sch] precedes_asym [OF d(1)] by blast
  qed
  then show ?thesis
    unfolding mem_before_def ys(1) by (simp add: fold_keeps_cell)
qed

lemma delivers_sound:
  assumes "cuda_schedule tr sch"
  shows "delivers tr u x v \<Longrightarrow> mem_before tr sch u x = Some v"
proof (induction rule: delivers.induct)
  case (deliver_put w u b c off es v)
  then show ?case using last_writer_value [OF assms deliver_put(1)] by simp
next
  case (deliver_move w u b c src n v)
  then show ?case using last_writer_value [OF assms deliver_move(1)] by simp
qed

section \<open>Extending a trace\<close>

lemma writes_old: "j < length tr \<Longrightarrow> writes_at (tr @ ops) j x = writes_at tr j x"
  by (simp add: nth_append)

lemma last_writer_lt: "last_writer tr w u x \<Longrightarrow> w < length tr"
  unfolding last_writer_def using before_lt less_trans by blast

lemma last_writer_append:
  assumes "last_writer tr w u x"
    and "\<And>j. length tr \<le> j \<Longrightarrow> writes_at (tr @ ops) j x \<Longrightarrow> before (tr @ ops) u j"
  shows "last_writer (tr @ ops) w u x"
  unfolding last_writer_def
proof (intro conjI allI impI)
  show "before (tr @ ops) w u" using assms(1) by (simp add: last_writer_def before_append)
  fix j assume "writes_at (tr @ ops) j x \<and> j \<noteq> w"
  then show "before (tr @ ops) j w \<or> before (tr @ ops) u j"
    using assms by (cases "j < length tr") (auto simp: last_writer_def nth_append before_append)
qed

text \<open>Later writes to the source of a copy come after that copy.\<close>

definition sources_kept :: "'e trace \<Rightarrow> 'e trace \<Rightarrow> bool" where
  "sources_kept tr ops \<longleftrightarrow>
     (\<forall>w b src n c j. w < length tr \<and> snd (tr ! w) = MoveElems b src n \<and> length tr \<le> j
        \<and> writes_at (tr @ ops) j (src, c) \<longrightarrow> before (tr @ ops) w j)"

lemma sources_keptD:
  "sources_kept tr ops \<Longrightarrow> w < length tr \<Longrightarrow> snd (tr ! w) = MoveElems b src n \<Longrightarrow> length tr \<le> j
     \<Longrightarrow> writes_at (tr @ ops) j (src, c) \<Longrightarrow> before (tr @ ops) w j"
  unfolding sources_kept_def by blast

lemma delivers_append:
  assumes "delivers tr u x v" and "sources_kept tr ops"
    and "\<And>j. length tr \<le> j \<Longrightarrow> writes_at (tr @ ops) j x \<Longrightarrow> before (tr @ ops) u j"
  shows "delivers (tr @ ops) u x v"
  using assms(1,3)
proof (induction rule: delivers.induct)
  case (deliver_put w u b c off es v)
  have "w < length tr" using deliver_put.hyps(1) by (rule last_writer_lt)
  moreover have "last_writer (tr @ ops) w u (b, c)"
    using deliver_put.hyps(1) deliver_put.prems by (rule last_writer_append)
  ultimately show ?case
    using delivers.deliver_put [of "tr @ ops" w u b c off es v] deliver_put.hyps(2-5) by (simp add: nth_append)
next
  case (deliver_move w u b c src n v)
  have w: "w < length tr" using deliver_move.hyps(1) by (rule last_writer_lt)
  have "delivers (tr @ ops) w (src, c) v"
    using sources_keptD [OF assms(2) w deliver_move.hyps(2)] by (intro deliver_move.IH)
  moreover have "last_writer (tr @ ops) w u (b, c)"
    using deliver_move.hyps(1) deliver_move.prems by (rule last_writer_append)
  ultimately show ?case
    using delivers.deliver_move [of "tr @ ops" w u b c src n v] deliver_move.hyps(2,3) w by (simp add: nth_append)
qed

text \<open>A cell that holds its final value: every other write to it is over.\<close>

definition settled :: "'e trace \<Rightarrow> nat \<Rightarrow> buf \<times> nat \<Rightarrow> 'e elem \<Rightarrow> bool" where
  "settled tr w x v \<longleftrightarrow>
     w < length tr \<and> (\<forall>j. writes_at tr j x \<and> j \<noteq> w \<longrightarrow> before tr j w)
   \<and> ((\<exists>off es. snd (tr ! w) = PutElems (fst x) off es \<and> off \<le> snd x \<and> snd x < off + length es \<and> v = es ! (snd x - off))
      \<or> (\<exists>src n. snd (tr ! w) = MoveElems (fst x) src n \<and> snd x < n \<and> delivers tr w (src, snd x) v))"

lemma settled_delivers:
  assumes "settled tr w x v" "before tr w u"
  shows "delivers tr u x v"
proof (cases x)
  case (Pair b c)
  have "last_writer tr w u (b, c)" using assms Pair by (auto simp: settled_def last_writer_def)
  then show ?thesis using assms(1) Pair by (auto simp: settled_def intro: delivers.intros)
qed

lemma settled_append:
  assumes "settled tr w x v" "sources_kept tr ops"
    and "\<And>j. length tr \<le> j \<Longrightarrow> \<not> writes_at (tr @ ops) j x"
  shows "settled (tr @ ops) w x v"
proof -
  have w: "w < length tr" using assms(1) by (simp add: settled_def)
  have old: "before (tr @ ops) j w" if "writes_at (tr @ ops) j x" "j \<noteq> w" for j
    using that assms(1,3) by (cases "j < length tr") (auto simp: settled_def nth_append before_append)
  have "delivers (tr @ ops) w (src, c) v"
    if "delivers tr w (src, c) v" "snd (tr ! w) = MoveElems b src n" for b src n c
    using delivers_append [OF that(1) assms(2)] sources_keptD [OF assms(2) w that(2)] by blast
  then show ?thesis
    using assms(1) w old unfolding settled_def by (fastforce simp: nth_append)
qed

section \<open>The invariant of the pool\<close>

fun on_device :: "buf \<Rightarrow> bool" where
  "on_device (Buf k s n) \<longleftrightarrow> k = Window \<or> k = Valid"

text \<open>Who writes where, and that the ready event of a slot follows every copy out of its pack buffers.\<close>

definition trace_ok :: "'e staging_pool \<Rightarrow> bool" where
  "trace_ok p \<longleftrightarrow>
     (\<forall>j x. writes_at (sp_trace p) j x \<longrightarrow>
        fst (sp_trace p ! j) = (if on_device (fst x) then copier p else HostThread))
   \<and> (\<forall>w b src n. w < length (sp_trace p) \<and> snd (sp_trace p ! w) = MoveElems b src n \<longrightarrow>
        \<not> on_device src \<and> fst (sp_trace p ! w) = copier p
      \<and> (sp_copy_stream p \<longrightarrow> (\<exists>r. sp_ready_events p ! buf_slot src = Some r \<and> before (sp_trace p) w r)))"

definition events_ok :: "'e staging_pool \<Rightarrow> bool" where
  "events_ok p \<longleftrightarrow>
     length (sp_ready_events p) = sp_num_buffers p \<and> length (sp_free_events p) = sp_num_buffers p
   \<and> (\<forall>s i. s < sp_num_buffers p \<and> sp_ready_events p ! s = Some i \<longrightarrow>
        i < length (sp_trace p) \<and> fst (sp_trace p ! i) = CopyStream)
   \<and> (\<forall>s i. s < sp_num_buffers p \<and> sp_free_events p ! s = Some i \<longrightarrow>
        i < length (sp_trace p) \<and> fst (sp_trace p ! i) = ComputeStream)"

text \<open>A submitted transfer: the slot and the contents its window and valid lengths must have.\<close>

record 'e promise =
  pm_slot :: nat
  pm_cells :: "((buf \<times> nat) \<times> 'e elem) set"

text \<open>The copy into a slot that the ready event of the slot covers.\<close>

definition written :: "'e staging_pool \<Rightarrow> nat \<Rightarrow> nat \<Rightarrow> bool" where
  "written p s w \<longleftrightarrow>
     (if sp_copy_stream p then \<exists>i. sp_ready_events p ! s = Some i \<and> before (sp_trace p) w i
      else fst (sp_trace p ! w) = HostThread)"

definition live_ok :: "'e staging_pool \<Rightarrow> 'e promise \<Rightarrow> bool" where
  "live_ok p m \<longleftrightarrow>
     pm_slot m < sp_num_buffers p
   \<and> (\<forall>(x, v) \<in> pm_cells m. buf_slot (fst x) = pm_slot m \<and> on_device (fst x)
        \<and> (\<exists>w. settled (sp_trace p) w x v \<and> written p (pm_slot m) w))"

text \<open>A read of a transfer by operation \<open>u\<close>.\<close>

record 'e reading =
  rd_op :: nat
  rd_promise :: "'e promise"

definition read_ok :: "'e staging_pool \<Rightarrow> 'e reading \<Rightarrow> bool" where
  "read_ok p d \<longleftrightarrow>
     rd_op d < length (sp_trace p) \<and> fst (sp_trace p ! rd_op d) = consumer p
   \<and> pm_slot (rd_promise d) < sp_num_buffers p
   \<and> (sp_copy_stream p \<longrightarrow>
        (\<exists>m. sp_free_events p ! pm_slot (rd_promise d) = Some m \<and> before (sp_trace p) (rd_op d) m))
   \<and> (\<forall>(x, v) \<in> pm_cells (rd_promise d). buf_slot (fst x) = pm_slot (rd_promise d) \<and> on_device (fst x)
        \<and> delivers (sp_trace p) (rd_op d) x v)"

definition pool_inv :: "'e staging_pool \<Rightarrow> 'e promise set \<Rightarrow> 'e reading set \<Rightarrow> bool" where
  "pool_inv p live reads \<longleftrightarrow>
     trace_ok p \<and> events_ok p \<and> (\<forall>m \<in> live. live_ok p m) \<and> (\<forall>d \<in> reads. read_ok p d)"

lemma edge_beforeI: "edge tr i j \<Longrightarrow> before tr i j"
  by (rule tranclp.r_into_trancl)

lemma before_trans: "before tr i j \<Longrightarrow> before tr j k \<Longrightarrow> before tr i k"
  by (rule tranclp_trans)

text \<open>Appended operations: where they stand and what follows an old operation.\<close>

lemma host_before: "i < length tr \<Longrightarrow> fst (tr ! i) = HostThread \<Longrightarrow> length tr \<le> j \<Longrightarrow> j < length (tr @ ops)
    \<Longrightarrow> before (tr @ ops) i j"
  by (intro edge_beforeI) (simp add: edge_def nth_append)

lemma same_stream_before: "i < j \<Longrightarrow> j < length tr \<Longrightarrow> fst (tr ! i) = fst (tr ! j) \<Longrightarrow> before tr i j"
  by (intro edge_beforeI) (simp add: edge_def)

lemma wait_before: "i < j \<Longrightarrow> j < length tr \<Longrightarrow> snd (tr ! j) = WaitFor i \<Longrightarrow> before tr i j"
  by (intro edge_beforeI) (simp add: edge_def)

text \<open>
  The general step: a pool whose trace grows by \<open>ops\<close> and whose events may change.
\<close>

definition grows :: "'e staging_pool \<Rightarrow> 'e trace \<Rightarrow> 'e staging_pool \<Rightarrow> bool" where
  "grows p ops p' \<longleftrightarrow>
     sp_trace p' = sp_trace p @ ops \<and> sp_num_buffers p' = sp_num_buffers p \<and> sp_copy_stream p' = sp_copy_stream p
   \<and> events_ok p'
   \<and> (\<forall>s i. sp_ready_events p ! s = Some i \<longrightarrow>
        (\<exists>i'. sp_ready_events p' ! s = Some i' \<and> (i' = i \<or> before (sp_trace p') i i')))
   \<and> (\<forall>s i. sp_free_events p ! s = Some i \<longrightarrow>
        (\<exists>i'. sp_free_events p' ! s = Some i' \<and> (i' = i \<or> before (sp_trace p') i i')))"

lemma grows_before:
  assumes "grows p ops p'" "before (sp_trace p) i j"
  shows "before (sp_trace p') i j"
  using assms before_append by (auto simp: grows_def)

lemma grows_streams:
  assumes "grows p ops p'"
  shows "copier p' = copier p" "consumer p' = consumer p"
  using assms by (simp_all add: grows_def copier_def consumer_def)

lemma ready_grows:
  assumes "grows p ops p'" "sp_ready_events p ! s = Some i" "before (sp_trace p) w i"
  shows "\<exists>i'. sp_ready_events p' ! s = Some i' \<and> before (sp_trace p') w i'"
proof -
  obtain i' where "sp_ready_events p' ! s = Some i'" "i' = i \<or> before (sp_trace p') i i'"
    using assms(1,2) unfolding grows_def by blast
  then show ?thesis using grows_before [OF assms(1,3)] before_trans by blast
qed

lemma free_grows:
  assumes "grows p ops p'" "sp_free_events p ! s = Some i" "before (sp_trace p) w i"
  shows "\<exists>i'. sp_free_events p' ! s = Some i' \<and> before (sp_trace p') w i'"
proof -
  obtain i' where "sp_free_events p' ! s = Some i'" "i' = i \<or> before (sp_trace p') i i'"
    using assms(1,2) unfolding grows_def by blast
  then show ?thesis using grows_before [OF assms(1,3)] before_trans by blast
qed

lemma read_grows:
  assumes g: "grows p ops p'" and ok: "read_ok p d" and src: "sources_kept (sp_trace p) ops"
    and after: "\<And>j x. length (sp_trace p) \<le> j \<Longrightarrow> writes_at (sp_trace p') j x \<Longrightarrow> on_device (fst x)
      \<Longrightarrow> buf_slot (fst x) = pm_slot (rd_promise d) \<Longrightarrow> before (sp_trace p') (rd_op d) j"
  shows "read_ok p' d"
proof -
  have tr: "sp_trace p' = sp_trace p @ ops" using g by (simp add: grows_def)
  have "delivers (sp_trace p') (rd_op d) x v" if "(x, v) \<in> pm_cells (rd_promise d)" for x v
  proof -
    have "delivers (sp_trace p) (rd_op d) x v" "on_device (fst x)" "buf_slot (fst x) = pm_slot (rd_promise d)"
      using ok that by (auto simp: read_ok_def)
    then show ?thesis using delivers_append [OF _ src] after unfolding tr by blast
  qed
  moreover have "\<exists>m. sp_free_events p' ! pm_slot (rd_promise d) = Some m \<and> before (sp_trace p') (rd_op d) m"
    if "sp_copy_stream p"
    using ok that free_grows [OF g] unfolding read_ok_def by blast
  moreover have "rd_op d < length (sp_trace p')" "fst (sp_trace p' ! rd_op d) = consumer p'"
    using ok grows_streams(2) [OF g] by (simp_all add: read_ok_def tr nth_append)
  ultimately show ?thesis using ok g unfolding read_ok_def by (auto simp: grows_def)
qed

lemma live_cell:
  assumes "live_ok p m" "(x, v) \<in> pm_cells m"
  shows "buf_slot (fst x) = pm_slot m" "on_device (fst x)" "\<exists>w. settled (sp_trace p) w x v \<and> written p (pm_slot m) w"
  using assms by (auto simp: live_ok_def)

lemma live_grows:
  assumes g: "grows p ops p'" and ok: "live_ok p m" and src: "sources_kept (sp_trace p) ops"
    and quiet: "\<And>j x. length (sp_trace p) \<le> j \<Longrightarrow> writes_at (sp_trace p') j x \<Longrightarrow> on_device (fst x)
      \<Longrightarrow> buf_slot (fst x) \<noteq> pm_slot m"
  shows "live_ok p' m"
proof -
  have tr: "sp_trace p' = sp_trace p @ ops" using g by (simp add: grows_def)
  have "\<exists>w. settled (sp_trace p') w x v \<and> written p' (pm_slot m) w" if xv: "(x, v) \<in> pm_cells m" for x v
  proof -
    obtain w where w: "settled (sp_trace p) w x v" "written p (pm_slot m) w"
      using live_cell(3) [OF ok xv] by blast
    have "settled (sp_trace p') w x v"
      using settled_append [OF w(1) src] quiet live_cell(1,2) [OF ok xv] unfolding tr by blast
    moreover have "w < length (sp_trace p)" using w(1) by (simp add: settled_def)
    then have "fst (sp_trace p' ! w) = fst (sp_trace p ! w)" by (simp add: tr nth_append)
    then have "written p' (pm_slot m) w"
      using w(2) ready_grows [OF g] g by (auto simp: written_def grows_def split: if_splits)
    ultimately show ?thesis by blast
  qed
  then show ?thesis using ok g unfolding live_ok_def by (auto simp: grows_def)
qed

lemma trace_grows:
  assumes g: "grows p ops p'" and ok: "trace_ok p"
    and writes: "\<And>j x. length (sp_trace p) \<le> j \<Longrightarrow> writes_at (sp_trace p') j x \<Longrightarrow>
      fst (sp_trace p' ! j) = (if on_device (fst x) then copier p else HostThread)"
    and moves: "\<And>w b src n. length (sp_trace p) \<le> w \<Longrightarrow> w < length (sp_trace p') \<Longrightarrow>
      snd (sp_trace p' ! w) = MoveElems b src n \<Longrightarrow> \<not> on_device src \<and> fst (sp_trace p' ! w) = copier p
        \<and> (sp_copy_stream p \<longrightarrow> (\<exists>r. sp_ready_events p' ! buf_slot src = Some r \<and> before (sp_trace p') w r))"
  shows "trace_ok p'"
proof -
  have tr: "sp_trace p' = sp_trace p @ ops" and cp: "sp_copy_stream p' = sp_copy_stream p"
    using g by (simp_all add: grows_def)
  have "fst (sp_trace p' ! j) = (if on_device (fst x) then copier p else HostThread)"
    if w: "writes_at (sp_trace p') j x" for j x
  proof (cases "j < length (sp_trace p)")
    case True
    then have "writes_at (sp_trace p) j x" using w by (simp add: tr nth_append)
    then have "fst (sp_trace p ! j) = (if on_device (fst x) then copier p else HostThread)"
      using ok unfolding trace_ok_def by blast
    then show ?thesis using True by (simp add: tr nth_append)
  qed (use writes [of j x] w in simp)
  moreover have "\<not> on_device src \<and> fst (sp_trace p' ! w) = copier p
      \<and> (sp_copy_stream p \<longrightarrow> (\<exists>r. sp_ready_events p' ! buf_slot src = Some r \<and> before (sp_trace p') w r))"
    if m: "w < length (sp_trace p')" "snd (sp_trace p' ! w) = MoveElems b src n" for w b src n
  proof (cases "w < length (sp_trace p)")
    case True
    then have "snd (sp_trace p ! w) = MoveElems b src n" using m(2) by (simp add: tr nth_append)
    then have "\<not> on_device src \<and> fst (sp_trace p ! w) = copier p
        \<and> (sp_copy_stream p \<longrightarrow> (\<exists>r. sp_ready_events p ! buf_slot src = Some r \<and> before (sp_trace p) w r))"
      using ok True unfolding trace_ok_def by blast
    then show ?thesis using True ready_grows [OF g] by (auto simp: tr nth_append)
  qed (use moves [of w b src n] m in simp)
  ultimately show ?thesis unfolding trace_ok_def cp grows_streams(1) [OF g] by blast
qed

lemma pool_inv_grows:
  assumes g: "grows p ops p'" and inv: "pool_inv p live reads" and src: "sources_kept (sp_trace p) ops"
    and tr': "trace_ok p'"
    and quiet: "\<And>m j x. m \<in> live \<Longrightarrow> length (sp_trace p) \<le> j \<Longrightarrow> writes_at (sp_trace p') j x \<Longrightarrow> on_device (fst x)
      \<Longrightarrow> buf_slot (fst x) \<noteq> pm_slot m"
    and after: "\<And>d j x. d \<in> reads \<Longrightarrow> length (sp_trace p) \<le> j \<Longrightarrow> writes_at (sp_trace p') j x \<Longrightarrow> on_device (fst x)
      \<Longrightarrow> buf_slot (fst x) = pm_slot (rd_promise d) \<Longrightarrow> before (sp_trace p') (rd_op d) j"
  shows "pool_inv p' live reads"
proof -
  have "live_ok p' m" if "m \<in> live" for m
    using live_grows [OF g _ src] quiet inv that by (simp add: pool_inv_def)
  moreover have "read_ok p' d" if "d \<in> reads" for d
    using read_grows [OF g _ src] after [OF that] inv that unfolding pool_inv_def by blast
  ultimately show ?thesis using tr' g by (simp add: pool_inv_def grows_def)
qed

text \<open>Operations that write nothing.\<close>

fun is_write :: "'e gpu_op \<Rightarrow> bool" where
  "is_write (PutElems b off es) = True"
| "is_write (MoveElems b src n) = True"
| "is_write _ = False"

lemma no_write: "\<not> is_write op \<Longrightarrow> \<not> op_writes op x" "\<not> is_write op \<Longrightarrow> op \<noteq> MoveElems b src n"
  by (cases op; simp)+

lemma new_op: "sp_trace p' = sp_trace p @ ops \<Longrightarrow> length (sp_trace p) \<le> j \<Longrightarrow> j < length (sp_trace p')
    \<Longrightarrow> sp_trace p' ! j \<in> set ops"
  by (simp add: nth_append)

lemma pool_inv_quiet:
  assumes g: "grows p ops p'" and inv: "pool_inv p live reads" and quiet: "\<forall>o' \<in> set ops. \<not> is_write (snd o')"
  shows "pool_inv p' live reads"
proof -
  have tr: "sp_trace p' = sp_trace p @ ops" using g by (simp add: grows_def)
  have none: "\<not> is_write (snd (sp_trace p' ! j))" if "length (sp_trace p) \<le> j" "j < length (sp_trace p')" for j
    using new_op [OF tr that] quiet by blast
  have "trace_ok p'"
    using inv none no_write by (intro trace_grows [OF g]) (fastforce simp: pool_inv_def)+
  moreover have "sources_kept (sp_trace p) ops"
    using none no_write unfolding sources_kept_def tr [symmetric] by blast
  ultimately show ?thesis using none no_write by (intro pool_inv_grows [OF g inv]) blast+
qed

lemma events_okD:
  assumes "events_ok p" "s < sp_num_buffers p"
  shows "sp_ready_events p ! s = Some i \<Longrightarrow> i < length (sp_trace p) \<and> fst (sp_trace p ! i) = CopyStream"
    "sp_free_events p ! s = Some i \<Longrightarrow> i < length (sp_trace p) \<and> fst (sp_trace p ! i) = ComputeStream"
  using assms by (simp_all add: events_ok_def)

lemma grows_trace:
  assumes "events_ok p"
  shows "grows p ops (p\<lparr>sp_trace := sp_trace p @ ops\<rparr>)"
proof -
  have "events_ok (p\<lparr>sp_trace := sp_trace p @ ops\<rparr>)"
    using assms events_okD [OF assms] unfolding events_ok_def [of "p\<lparr>sp_trace := sp_trace p @ ops\<rparr>"]
    by (simp add: nth_append events_ok_def [of p] trans_less_add1)
  then show ?thesis by (simp add: grows_def)
qed

text \<open>A new buffer changes nothing the invariant speaks of.\<close>

lemma pool_inv_cong:
  assumes "sp_trace p' = sp_trace p" "sp_num_buffers p' = sp_num_buffers p" "sp_copy_stream p' = sp_copy_stream p"
    "sp_ready_events p' = sp_ready_events p" "sp_free_events p' = sp_free_events p"
  shows "pool_inv p' live reads = pool_inv p live reads"
  using assms by (simp add: pool_inv_def trace_ok_def events_ok_def live_ok_def read_ok_def written_def
      copier_def consumer_def)

section \<open>Host writes\<close>

text \<open>The host may overwrite the pack buffers of a slot: their copies are over.\<close>

definition pack_free :: "'e staging_pool \<Rightarrow> nat \<Rightarrow> bool" where
  "pack_free p s \<longleftrightarrow>
     (\<forall>w b src n. w < length (sp_trace p) \<and> snd (sp_trace p ! w) = MoveElems b src n \<and> buf_slot src = s \<longrightarrow>
        fst (sp_trace p ! w) = HostThread
      \<or> (\<exists>h. fst (sp_trace p ! h) = HostThread \<and> before (sp_trace p) w h))"

lemma pack_free_append:
  assumes "pack_free p s" "sp_trace p' = sp_trace p @ ops" "\<forall>o' \<in> set ops. \<forall>b src n. snd o' \<noteq> MoveElems b src n"
  shows "pack_free p' s"
  unfolding pack_free_def
proof (intro allI impI, elim conjE)
  fix w b src n
  assume w: "w < length (sp_trace p')" "snd (sp_trace p' ! w) = MoveElems b src n" "buf_slot src = s"
  then have old: "w < length (sp_trace p)"
    using new_op [OF assms(2), of w] assms(3) by (metis not_less)
  have "fst (sp_trace p ! w) = HostThread \<or> (\<exists>h. fst (sp_trace p ! h) = HostThread \<and> before (sp_trace p) w h)"
    using assms(1) w old unfolding pack_free_def assms(2) by (simp add: nth_append)
  then show "fst (sp_trace p' ! w) = HostThread \<or> (\<exists>h. fst (sp_trace p' ! h) = HostThread \<and> before (sp_trace p') w h)"
  proof (elim disjE exE conjE)
    fix h assume h: "fst (sp_trace p ! h) = HostThread" "before (sp_trace p) w h"
    then show ?thesis
      using before_append [OF h(2)] before_lt [OF h(2)] by (auto simp: assms(2) nth_append)
  qed (use old in \<open>simp add: assms(2) nth_append\<close>)
qed

lemma pack_free_source:
  assumes "pack_free p s" "w < length (sp_trace p)" "snd (sp_trace p ! w) = MoveElems b src n" "buf_slot src = s"
    "length (sp_trace p) \<le> j" "j < length (sp_trace p @ ops)"
  shows "before (sp_trace p @ ops) w j"
proof -
  have "fst (sp_trace p ! w) = HostThread \<or> (\<exists>h. fst (sp_trace p ! h) = HostThread \<and> before (sp_trace p) w h)"
    using assms(1-4) unfolding pack_free_def by blast
  then show ?thesis
  proof (elim disjE exE conjE)
    fix h assume h: "fst (sp_trace p ! h) = HostThread" "before (sp_trace p) w h"
    then show ?thesis
      using before_append [OF h(2)] host_before [of h "sp_trace p" j ops] before_lt [OF h(2)] assms(5,6) before_trans by blast
  qed (use host_before assms in blast)
qed

text \<open>Host writes into pack buffers of a slot whose copies are over.\<close>

definition pack_put :: "nat \<Rightarrow> 'e gpu_op \<Rightarrow> bool" where
  "pack_put s op \<longleftrightarrow> (\<exists>b off es. op = PutElems b off es \<and> \<not> on_device b \<and> buf_slot b = s)"

lemma pool_inv_host:
  assumes inv: "pool_inv p live reads" and free: "pack_free p s" and ops: "\<forall>op \<in> set ops. pack_put s op"
  defines "p' \<equiv> p\<lparr>sp_trace := sp_trace p @ map (Pair HostThread) ops\<rparr>"
  shows "pool_inv p' live reads" "pack_free p' s"
proof -
  let ?new = "map (Pair HostThread) ops"
  have tr: "sp_trace p' = sp_trace p @ ?new" by (simp add: p'_def)
  have g: "grows p ?new p'" using inv grows_trace unfolding p'_def pool_inv_def by blast
  have new: "fst (sp_trace p' ! j) = HostThread \<and> pack_put s (snd (sp_trace p' ! j))"
    if "length (sp_trace p) \<le> j" "j < length (sp_trace p')" for j
    using new_op [OF tr that] ops by auto
  have wr: "\<not> on_device (fst x) \<and> buf_slot (fst x) = s"
    if "length (sp_trace p) \<le> j" "writes_at (sp_trace p') j x" for j x
    using new [of j] that by (auto simp: pack_put_def)
  have "trace_ok p'"
    using inv new wr by (intro trace_grows [OF g]) (fastforce simp: pool_inv_def pack_put_def)+
  moreover have "sources_kept (sp_trace p) ?new"
    unfolding sources_kept_def tr [symmetric]
  proof (intro allI impI, elim conjE)
    fix w b src n c j
    assume a: "w < length (sp_trace p)" "snd (sp_trace p ! w) = MoveElems b src n" "length (sp_trace p) \<le> j"
      "j < length (sp_trace p')" "op_writes (snd (sp_trace p' ! j)) (src, c)"
    then have "buf_slot src = s" using wr by auto
    then show "before (sp_trace p') w j" using pack_free_source [OF free] a by (simp add: tr)
  qed
  ultimately show "pool_inv p' live reads"
    using wr by (intro pool_inv_grows [OF g inv]) blast+
  show "pack_free p' s"
    using ops by (intro pack_free_append [OF free tr]) (auto simp: pack_put_def)
qed

section \<open>Copies into a slot\<close>

text \<open>Operations that fill the device buffers of a slot, from memory or from its pack buffers.\<close>

definition slot_copy :: "nat \<Rightarrow> 'e gpu_op \<Rightarrow> bool" where
  "slot_copy s op \<longleftrightarrow>
     (\<exists>b off es. op = PutElems b off es \<and> on_device b \<and> buf_slot b = s)
   \<or> (\<exists>b src n. op = MoveElems b src n \<and> on_device b \<and> buf_slot b = s \<and> \<not> on_device src \<and> buf_slot src = s)"

lemma slot_copy_writes: "slot_copy s op \<Longrightarrow> op_writes op x \<Longrightarrow> on_device (fst x) \<and> buf_slot (fst x) = s"
  by (auto simp: slot_copy_def)

lemma slot_copy_source: "slot_copy s (MoveElems b src n) \<Longrightarrow> \<not> on_device src \<and> buf_slot src = s"
  by (simp add: slot_copy_def)

lemma copier_trace [simp]: "copier (p\<lparr>sp_trace := t\<rparr>) = copier p" "copier (issue_op s op p) = copier p"
  by (simp_all add: copier_def issue_op_def)

lemma issue_copies_trace:
  "\<exists>seg. issue_copies cs p = p\<lparr>sp_trace := sp_trace p @ seg\<rparr>
     \<and> (\<forall>o' \<in> set seg. fst o' = copier p \<and> snd o' \<in> fst ` set cs \<or> (\<exists>i. o' = (HostThread, WaitFor i)))
     \<and> (\<forall>x. filter (\<lambda>o'. op_writes (snd o') x) seg = map (Pair (copier p)) (filter (\<lambda>op. op_writes op x) (map fst cs)))"
proof (induction cs arbitrary: p)
  case Nil
  then show ?case by (intro exI [of _ "[]"]) simp
next
  case (Cons c cs)
  obtain op pinned where c: "c = (op, pinned)" by (cases c)
  define hd' where "hd' = (copier p, op) # (if pinned then [] else [(HostThread, WaitFor (length (sp_trace p)))])"
  define p2 where "p2 = p\<lparr>sp_trace := sp_trace p @ hd'\<rparr>"
  have step: "issue_copies (c # cs) p = issue_copies cs p2"
    by (simp add: c p2_def hd'_def issue_op_def Let_def)
  obtain seg where seg: "issue_copies cs p2 = p2\<lparr>sp_trace := sp_trace p2 @ seg\<rparr>"
      "\<forall>o' \<in> set seg. fst o' = copier p \<and> snd o' \<in> fst ` set cs \<or> (\<exists>i. o' = (HostThread, WaitFor i))"
      "\<forall>x. filter (\<lambda>o'. op_writes (snd o') x) seg = map (Pair (copier p)) (filter (\<lambda>op. op_writes op x) (map fst cs))"
    using Cons.IH [of p2] by (auto simp: p2_def)
  show ?case
  proof (intro exI [of _ "hd' @ seg"] conjI)
    show "issue_copies (c # cs) p = p\<lparr>sp_trace := sp_trace p @ hd' @ seg\<rparr>"
      by (simp add: step seg(1)) (simp add: p2_def)
  qed (use seg(2,3) in \<open>auto simp: hd'_def c\<close>)
qed

definition enqueued :: "nat \<Rightarrow> 'e staging_pool \<Rightarrow> 'e trace \<Rightarrow> 'e staging_pool \<Rightarrow> bool" where
  "enqueued s p ops p' \<longleftrightarrow>
     sp_trace p' = sp_trace p @ ops \<and> sp_num_buffers p' = sp_num_buffers p \<and> sp_copy_stream p' = sp_copy_stream p
   \<and> sp_free_events p' = sp_free_events p
   \<and> (if sp_copy_stream p
      then sp_ready_events p' = (sp_ready_events p)[s := Some (length (sp_trace p') - 1)] \<and> ops \<noteq> []
         \<and> last ops = (CopyStream, RecordEv)
         \<and> (\<forall>i. sp_free_events p ! s = Some i \<longrightarrow> hd ops = (CopyStream, WaitFor i))
      else sp_ready_events p' = sp_ready_events p)"

lemma enqueue_enqueued:
  fixes p :: "'a staging_pool"
  shows "\<exists>ops. enqueued s p ops (enqueue s cs p)
     \<and> (\<forall>o' \<in> set ops. is_write (snd o') \<longrightarrow> fst o' = copier p \<and> snd o' \<in> fst ` set cs)
     \<and> (\<forall>x. filter (\<lambda>o'. op_writes (snd o') x) ops = map (Pair (copier p)) (filter (\<lambda>op. op_writes op x) (map fst cs)))"
proof (cases "sp_copy_stream p")
  case False
  obtain seg where seg: "issue_copies cs p = p\<lparr>sp_trace := sp_trace p @ seg\<rparr>"
      "\<forall>o' \<in> set seg. fst o' = copier p \<and> snd o' \<in> fst ` set cs \<or> (\<exists>i. o' = (HostThread, WaitFor i))"
      "\<forall>x. filter (\<lambda>o'. op_writes (snd o') x) seg = map (Pair (copier p)) (filter (\<lambda>op. op_writes op x) (map fst cs))"
    using issue_copies_trace [of cs p] by blast
  have "enqueued s p seg (enqueue s cs p)"
    using False by (simp add: enqueue_def enqueued_def seg(1))
  moreover have "is_write (snd o') \<longrightarrow> fst o' = copier p \<and> snd o' \<in> fst ` set cs" if "o' \<in> set seg" for o'
    using that seg(2) by auto
  ultimately show ?thesis using seg(3) by blast
next
  case True
  define pre :: "'a trace" where "pre = (case sp_free_events p ! s of None \<Rightarrow> [] | Some i \<Rightarrow> [(CopyStream, WaitFor i)])"
  define p1 where "p1 = p\<lparr>sp_trace := sp_trace p @ pre\<rparr>"
  obtain seg where seg: "issue_copies cs p1 = p1\<lparr>sp_trace := sp_trace p1 @ seg\<rparr>"
      "\<forall>o' \<in> set seg. fst o' = copier p \<and> snd o' \<in> fst ` set cs \<or> (\<exists>i. o' = (HostThread, WaitFor i))"
      "\<forall>x. filter (\<lambda>o'. op_writes (snd o') x) seg = map (Pair (copier p)) (filter (\<lambda>op. op_writes op x) (map fst cs))"
    using issue_copies_trace [of cs p1] by (auto simp: p1_def)
  have p1: "(case sp_free_events p ! s of None \<Rightarrow> p | Some i \<Rightarrow> issue_op CopyStream (WaitFor i) p) = p1"
    by (simp add: p1_def pre_def issue_op_def split: option.splits)
  let ?ops = "pre @ seg @ [(CopyStream, RecordEv)]"
  have "enqueued s p ?ops (enqueue s cs p)"
    using True unfolding enqueue_def p1 by (simp add: enqueued_def seg(1) issue_op_def Let_def) (simp add: p1_def pre_def)
  moreover have "is_write (snd o') \<longrightarrow> fst o' = copier p \<and> snd o' \<in> fst ` set cs" if "o' \<in> set ?ops" for o'
    using that seg(2) by (auto simp: pre_def split: option.splits)
  moreover have "filter (\<lambda>o'. op_writes (snd o') x) ?ops = map (Pair (copier p)) (filter (\<lambda>op. op_writes op x) (map fst cs))" for x
    using seg(3) [THEN spec, of x] by (simp add: pre_def split: option.splits)
  ultimately show ?thesis by blast
qed

lemma enqueued_grows:
  assumes e: "enqueued s p ops p'" and ev: "events_ok p" and s: "s < sp_num_buffers p"
  shows "grows p ops p'"
proof -
  have tr: "sp_trace p' = sp_trace p @ ops" using e by (simp add: enqueued_def)
  let ?q = "p\<lparr>sp_trace := sp_trace p @ ops\<rparr>"
  have q: "events_ok ?q" using grows_trace [OF ev] by (simp add: grows_def)
  show ?thesis
  proof (cases "sp_copy_stream p")
    case False
    then have "sp_ready_events p' = sp_ready_events p" "sp_free_events p' = sp_free_events p"
      "sp_num_buffers p' = sp_num_buffers p" "sp_copy_stream p' = sp_copy_stream p"
      using e by (simp_all add: enqueued_def)
    then show ?thesis using q tr by (simp add: grows_def events_ok_def)
  next
    case True
    let ?r = "length (sp_trace p') - 1"
    have ready: "sp_ready_events p' = (sp_ready_events p)[s := Some ?r]" and ops: "ops \<noteq> []" "last ops = (CopyStream, RecordEv)"
      and rest: "sp_free_events p' = sp_free_events p" "sp_num_buffers p' = sp_num_buffers p"
        "sp_copy_stream p' = sp_copy_stream p"
      using e True by (simp_all add: enqueued_def)
    have r: "?r < length (sp_trace p')" "fst (sp_trace p' ! ?r) = CopyStream" "length (sp_trace p) \<le> ?r"
      using ops last_conv_nth [of "sp_trace p'"] by (cases ops rule: rev_cases; simp add: tr nth_append)+
    have "\<exists>i'. sp_ready_events p' ! t = Some i' \<and> (i' = i \<or> before (sp_trace p') i i')"
      if i: "sp_ready_events p ! t = Some i" for t i
    proof (cases "t = s")
      case True
      have "i < length (sp_trace p)" "fst (sp_trace p ! i) = CopyStream"
        using events_okD(1) [OF ev s] i True by simp_all
      then have "before (sp_trace p') i ?r"
        using r same_stream_before [of i ?r "sp_trace p'"] by (simp add: tr nth_append)
      then show ?thesis using True ready s ev by (simp add: events_ok_def)
    qed (use i ready in simp)
    moreover have "events_ok p'"
      using q r s ready rest tr unfolding events_ok_def by (auto simp: nth_list_update)
    ultimately show ?thesis using rest tr unfolding grows_def by simp
  qed
qed

text \<open>The ready event covers the copies, and the copies come after the reads of the slot.\<close>

lemma enqueued_covers:
  assumes e: "enqueued s p ops p'" and ev: "events_ok p" and s: "s < sp_num_buffers p"
    and w: "sp_copy_stream p" "w < length (sp_trace p')" "fst (sp_trace p' ! w) = copier p" "is_write (snd (sp_trace p' ! w))"
  shows "\<exists>r. sp_ready_events p' ! s = Some r \<and> before (sp_trace p') w r"
proof -
  let ?r = "length (sp_trace p') - 1"
  have ops: "ops \<noteq> []" "last ops = (CopyStream, RecordEv)" and tr: "sp_trace p' = sp_trace p @ ops"
    and ready: "sp_ready_events p' ! s = Some ?r"
    using e w(1) ev s by (simp_all add: enqueued_def events_ok_def)
  have r: "sp_trace p' ! ?r = (CopyStream, RecordEv)"
    using ops last_conv_nth [of "sp_trace p'"] by (simp add: tr)
  then have "w \<noteq> ?r" using w(4) by auto
  then have "before (sp_trace p') w ?r"
    using w r by (intro same_stream_before) (simp_all add: copier_def)
  then show ?thesis using ready by blast
qed


lemma enqueued_after_read:
  assumes e: "enqueued s p ops p'" and rd: "read_ok p d" "pm_slot (rd_promise d) = s"
    and j: "length (sp_trace p) \<le> j" "j < length (sp_trace p')" "fst (sp_trace p' ! j) = copier p" "is_write (snd (sp_trace p' ! j))"
  shows "before (sp_trace p') (rd_op d) j"
proof -
  have tr: "sp_trace p' = sp_trace p @ ops" using e by (simp add: enqueued_def)
  show ?thesis
  proof (cases "sp_copy_stream p")
    case False
    then have "fst (sp_trace p ! rd_op d) = HostThread" "rd_op d < length (sp_trace p)"
      using rd by (simp_all add: read_ok_def consumer_def)
    then show ?thesis using host_before [of "rd_op d" "sp_trace p" j ops] j tr by simp
  next
    case True
    obtain m where m: "sp_free_events p ! s = Some m" "before (sp_trace p) (rd_op d) m"
      using rd True by (auto simp: read_ok_def)
    let ?k = "length (sp_trace p)"
    have hd: "ops \<noteq> []" "ops ! 0 = (CopyStream, WaitFor m)"
      using e True m(1) by (auto simp: enqueued_def hd_conv_nth [symmetric])
    then have k: "sp_trace p' ! ?k = (CopyStream, WaitFor m)" "?k < length (sp_trace p')"
      by (simp_all add: tr nth_append)
    have "m < ?k" using before_lt [OF m(2)] by simp
    then have "before (sp_trace p') m ?k" using k by (intro wait_before) simp_all
    moreover have "j \<noteq> ?k" using j(4) k(1) by auto
    then have "before (sp_trace p') ?k j" using j k True by (intro same_stream_before) (simp_all add: copier_def)
    ultimately show ?thesis using before_append [OF m(2), of ops] before_trans unfolding tr by blast
  qed
qed

lemma enqueue_inv:
  assumes inv: "pool_inv p live reads" and s: "s < sp_num_buffers p" and idle: "\<forall>m \<in> live. pm_slot m \<noteq> s"
    and cs: "\<forall>op \<in> fst ` set cs. slot_copy s op"
  shows "pool_inv (enqueue s cs p) live reads"
proof -
  let ?p' = "enqueue s cs p"
  obtain ops where e: "enqueued s p ops ?p'"
    and new: "\<forall>o' \<in> set ops. is_write (snd o') \<longrightarrow> fst o' = copier p \<and> snd o' \<in> fst ` set cs"
    using enqueue_enqueued [of s p cs] by blast
  have tr: "sp_trace ?p' = sp_trace p @ ops" using e by (simp add: enqueued_def)
  have ok: "trace_ok p" "events_ok p" using inv by (simp_all add: pool_inv_def)
  have g: "grows p ops ?p'" by (rule enqueued_grows [OF e ok(2) s])
  have wr: "is_write (snd (sp_trace ?p' ! j)) \<and> fst (sp_trace ?p' ! j) = copier p \<and> on_device (fst x) \<and> buf_slot (fst x) = s"
    if "length (sp_trace p) \<le> j" "writes_at (sp_trace ?p') j x" for j x
  proof -
    have o': "sp_trace ?p' ! j \<in> set ops" using new_op [OF tr] that by blast
    have w: "is_write (snd (sp_trace ?p' ! j))" using that(2) no_write(1) by blast
    then show ?thesis using new o' cs slot_copy_writes [of s] that(2) by blast
  qed
  have mv: "fst (sp_trace ?p' ! w) = copier p \<and> \<not> on_device src \<and> buf_slot src = s"
    if "length (sp_trace p) \<le> w" "w < length (sp_trace ?p')" "snd (sp_trace ?p' ! w) = MoveElems b src n" for w b src n
  proof -
    have o': "sp_trace ?p' ! w \<in> set ops" using new_op [OF tr] that by blast
    have "is_write (snd (sp_trace ?p' ! w))" by (simp add: that(3))
    then have c: "fst (sp_trace ?p' ! w) = copier p" and "snd (sp_trace ?p' ! w) \<in> fst ` set cs" using new o' by blast+
    then have "slot_copy s (snd (sp_trace ?p' ! w))" using cs by blast
    then show ?thesis using c slot_copy_source unfolding that(3) by blast
  qed
  have ready: "\<exists>r. sp_ready_events ?p' ! s = Some r \<and> before (sp_trace ?p') w r"
    if "sp_copy_stream p" "length (sp_trace p) \<le> w" "w < length (sp_trace ?p')" "fst (sp_trace ?p' ! w) = copier p"
      "is_write (snd (sp_trace ?p' ! w))" for w
    using enqueued_covers [OF e ok(2) s] that by blast
  have tr': "trace_ok ?p'"
  proof (rule trace_grows [OF g ok(1)])
    fix j x assume "length (sp_trace p) \<le> j" "writes_at (sp_trace ?p') j x"
    from wr [OF this] show "fst (sp_trace ?p' ! j) = (if on_device (fst x) then copier p else HostThread)" by simp
  next
    fix w b src n
    assume w: "length (sp_trace p) \<le> w" "w < length (sp_trace ?p')" "snd (sp_trace ?p' ! w) = MoveElems b src n"
    then show "\<not> on_device src \<and> fst (sp_trace ?p' ! w) = copier p
        \<and> (sp_copy_stream p \<longrightarrow> (\<exists>r. sp_ready_events ?p' ! buf_slot src = Some r \<and> before (sp_trace ?p') w r))"
      using mv [OF w] ready [of w] by auto
  qed
  have src: "sources_kept (sp_trace p) ops"
    unfolding sources_kept_def tr [symmetric]
  proof (intro allI impI, elim conjE)
    fix w b src n c j
    assume a: "w < length (sp_trace p)" "snd (sp_trace p ! w) = MoveElems b src n" "length (sp_trace p) \<le> j"
      "j < length (sp_trace ?p')" "op_writes (snd (sp_trace ?p' ! j)) (src, c)"
    then have "on_device src" using wr by fastforce
    then show "before (sp_trace ?p') w j" using ok(1) a(1,2) unfolding trace_ok_def by blast
  qed
  show ?thesis
  proof (rule pool_inv_grows [OF g inv src tr'])
    fix m j x assume "m \<in> live" "length (sp_trace p) \<le> j" "writes_at (sp_trace ?p') j x"
    then show "buf_slot (fst x) \<noteq> pm_slot m" using wr idle by metis
  next
    fix d j x assume a: "d \<in> reads" "length (sp_trace p) \<le> j" "writes_at (sp_trace ?p') j x"
      "buf_slot (fst x) = pm_slot (rd_promise d)"
    then show "before (sp_trace ?p') (rd_op d) j"
      using enqueued_after_read [OF e, of d j] wr [of j x] inv by (simp add: pool_inv_def)
  qed
qed

text \<open>A cell of a pack buffer that the host has written for good.\<close>

definition pack_cell :: "'e staging_pool \<Rightarrow> buf \<times> nat \<Rightarrow> 'e elem \<Rightarrow> bool" where
  "pack_cell p x v \<longleftrightarrow>
     (\<exists>w off es. w < length (sp_trace p) \<and> snd (sp_trace p ! w) = PutElems (fst x) off es \<and> off \<le> snd x
        \<and> snd x < off + length es \<and> v = es ! (snd x - off) \<and> (\<forall>j. writes_at (sp_trace p) j x \<longrightarrow> j \<le> w))"

lemma filter_single:
  "filter P xs = [y] \<Longrightarrow> \<exists>j < length xs. xs ! j = y \<and> P y \<and> (\<forall>i < length xs. P (xs ! i) \<longrightarrow> i = j)"
proof (induction xs)
  case (Cons a xs)
  show ?case
  proof (cases "P a")
    case True
    then have "filter P xs = []" "y = a" using Cons.prems by simp_all
    then have none: "\<forall>x \<in> set xs. \<not> P x" by (simp add: filter_empty_conv)
    have "i = 0" if "i < length (a # xs)" "P ((a # xs) ! i)" for i
      using that none by (cases i) auto
    then have "\<forall>i < length (a # xs). P ((a # xs) ! i) \<longrightarrow> i = 0" by blast
    moreover have "0 < length (a # xs)" "(a # xs) ! 0 = y" using \<open>y = a\<close> by simp_all
    moreover have "P y" using True \<open>y = a\<close> by simp
    ultimately show ?thesis by blast
  next
    case False
    then have "filter P xs = [y]" using Cons.prems by simp
    from Cons.IH [OF this] obtain j where j: "j < length xs" "xs ! j = y" "P y" "\<forall>i < length xs. P (xs ! i) \<longrightarrow> i = j"
      by blast
    have "i = Suc j" if "i < length (a # xs)" "P ((a # xs) ! i)" for i
      using that False j(4) by (cases i) auto
    then have "\<forall>i < length (a # xs). P ((a # xs) ! i) \<longrightarrow> i = Suc j" by blast
    moreover have "Suc j < length (a # xs)" "(a # xs) ! Suc j = y" using j(1,2) by simp_all
    ultimately show ?thesis using j(3) by blast
  qed
qed simp

text \<open>The cells an enqueue fills with one operation each.\<close>

definition fills :: "'e staging_pool \<Rightarrow> 'e gpu_op list \<Rightarrow> buf \<times> nat \<Rightarrow> 'e elem \<Rightarrow> bool" where
  "fills p ops x v \<longleftrightarrow>
     (\<exists>op. filter (\<lambda>op. op_writes op x) ops = [op]
        \<and> ((\<exists>off es. op = PutElems (fst x) off es \<and> off \<le> snd x \<and> snd x < off + length es \<and> v = es ! (snd x - off))
           \<or> (\<exists>src n. op = MoveElems (fst x) src n \<and> snd x < n \<and> pack_cell p (src, snd x) v)))"

lemma enqueue_settled:
  assumes inv: "pool_inv p live reads" and s: "s < sp_num_buffers p" and cs: "\<forall>op \<in> fst ` set cs. slot_copy s op"
    and x: "on_device (fst x)" and fills: "fills p (map fst cs) x v"
  shows "\<exists>w. settled (sp_trace (enqueue s cs p)) w x v \<and> written (enqueue s cs p) s w"
proof -
  let ?p' = "enqueue s cs p"
  obtain ops where e: "enqueued s p ops ?p'"
    and new: "\<forall>o' \<in> set ops. is_write (snd o') \<longrightarrow> fst o' = copier p \<and> snd o' \<in> fst ` set cs"
    and wr: "filter (\<lambda>o'. op_writes (snd o') x) ops = map (Pair (copier p)) (filter (\<lambda>op. op_writes op x) (map fst cs))"
    using enqueue_enqueued [of s p cs] by blast
  have tr: "sp_trace ?p' = sp_trace p @ ops" and cp: "sp_copy_stream ?p' = sp_copy_stream p"
    using e by (simp_all add: enqueued_def)
  have ok: "trace_ok p" "events_ok p" using inv by (simp_all add: pool_inv_def)
  obtain op where op: "filter (\<lambda>op. op_writes op x) (map fst cs) = [op]"
    and val: "(\<exists>off es. op = PutElems (fst x) off es \<and> off \<le> snd x \<and> snd x < off + length es \<and> v = es ! (snd x - off))
      \<or> (\<exists>src n. op = MoveElems (fst x) src n \<and> snd x < n \<and> pack_cell p (src, snd x) v)"
    using fills unfolding fills_def by blast
  obtain k where k: "k < length ops" "ops ! k = (copier p, op)" "\<forall>i < length ops. op_writes (snd (ops ! i)) x \<longrightarrow> i = k"
    using filter_single [of "\<lambda>o'. op_writes (snd o') x" ops "(copier p, op)"] wr op by auto
  define w where "w = length (sp_trace p) + k"
  have w: "w < length (sp_trace ?p')" "sp_trace ?p' ! w = (copier p, op)"
    using k by (simp_all add: w_def tr nth_append)
  have others: "before (sp_trace ?p') j w" if j: "writes_at (sp_trace ?p') j x" "j \<noteq> w" for j
  proof -
    have old: "j < length (sp_trace p)"
    proof (rule ccontr)
      assume "\<not> j < length (sp_trace p)"
      then have "op_writes (snd (ops ! (j - length (sp_trace p)))) x" "j - length (sp_trace p) < length ops"
        using j(1) by (auto simp: tr nth_append)
      then show False using k(3) j(2) \<open>\<not> j < length (sp_trace p)\<close> by (auto simp: w_def)
    qed
    then have "writes_at (sp_trace p) j x" using j(1) by (simp add: tr nth_append)
    then have "fst (sp_trace p ! j) = copier p" using ok(1) x unfolding trace_ok_def by metis
    then show ?thesis
      using old w by (intro same_stream_before) (simp_all add: tr nth_append w_def)
  qed
  have copied: "slot_copy s op"
  proof -
    have "op \<in> set (filter (\<lambda>op. op_writes op x) (map fst cs))" unfolding op by simp
    then show ?thesis using cs by auto
  qed
  have source: "delivers (sp_trace ?p') w (src, c) v" if pc: "pack_cell p (src, c) v" and src: "\<not> on_device src" for src c
  proof -
    obtain h off es where h: "h < length (sp_trace p)" "snd (sp_trace p ! h) = PutElems src off es" "off \<le> c"
        "c < off + length es" "v = es ! (c - off)" "\<forall>j. writes_at (sp_trace p) j (src, c) \<longrightarrow> j \<le> h"
      using pc unfolding pack_cell_def by auto
    have host: "fst (sp_trace p ! j) = HostThread" if "writes_at (sp_trace p) j (src, c)" for j
      using ok(1) src that unfolding trace_ok_def by (metis fst_conv)
    have hw: "writes_at (sp_trace p) h (src, c)" using h by simp
    have "before (sp_trace ?p') j h" if "writes_at (sp_trace ?p') j (src, c)" "j \<noteq> h" for j
    proof -
      have "j < length (sp_trace p)"
        using that(1) new cs slot_copy_writes [of s _ "(src, c)"] src new_op [OF tr, of j] no_write(1) not_less
        by (metis fst_conv)
      then have jw: "writes_at (sp_trace p) j (src, c)" using that(1) by (simp add: tr nth_append)
      then have "j < h" using h(6) that(2) by fastforce
      then have "before (sp_trace p) j h" using host [OF jw] host [OF hw] h(1) by (intro same_stream_before) simp_all
      then show ?thesis using before_append unfolding tr by blast
    qed
    moreover have "before (sp_trace ?p') h w"
      using host_before [OF h(1) host [OF hw], of w ops] w(1) by (simp add: tr w_def)
    ultimately have "last_writer (sp_trace ?p') h w (src, c)" unfolding last_writer_def by blast
    then show ?thesis
      using h by (intro delivers.deliver_put [of _ h _ _ _ off es]) (simp_all add: tr nth_append)
  qed
  have "settled (sp_trace ?p') w x v"
    unfolding settled_def
  proof (intro conjI)
    show "(\<exists>off es. snd (sp_trace ?p' ! w) = PutElems (fst x) off es \<and> off \<le> snd x \<and> snd x < off + length es
          \<and> v = es ! (snd x - off))
      \<or> (\<exists>src n. snd (sp_trace ?p' ! w) = MoveElems (fst x) src n \<and> snd x < n \<and> delivers (sp_trace ?p') w (src, snd x) v)"
      using val source copied slot_copy_source unfolding w(2) snd_conv by blast
  qed (use w(1) others in auto)
  moreover have "is_write op" using copied by (auto simp: slot_copy_def)
  then have "written ?p' s w"
    using w(2) enqueued_covers [OF e ok(2) s _ w(1)] cp by (auto simp: written_def copier_def)
  ultimately show ?thesis by blast
qed

section \<open>Consumption keeps the contents\<close>

definition read_ops :: "'e staging_pool \<Rightarrow> transfer \<Rightarrow> 'e trace" where
  "read_ops p t = (consumer p, ReadElems (wi_buf (tf_window t)) (tf_count t))
     # (case tf_valid_tokens t of None \<Rightarrow> [] | Some (w, n) \<Rightarrow> [(consumer p, ReadElems (wi_buf w) n)])"

definition consume_ops :: "'e staging_pool \<Rightarrow> transfer \<Rightarrow> 'e trace" where
  "consume_ops p t =
     (if sp_copy_stream p
      then (case sp_ready_events p ! tf_slot t of None \<Rightarrow> [] | Some i \<Rightarrow> [(ComputeStream, WaitFor i)]) else [])
     @ read_ops p t @ (if sp_copy_stream p then [(ComputeStream, RecordEv)] else [])"

lemma consume_eq:
  "consume t p =
     p\<lparr>sp_trace := sp_trace p @ consume_ops p t,
       sp_free_events := (if sp_copy_stream p
          then (sp_free_events p)[tf_slot t := Some (length (sp_trace p) + length (consume_ops p t) - 1)]
          else sp_free_events p)\<rparr>"
proof (cases "sp_copy_stream p")
  case True
  then show ?thesis
    by (cases "sp_ready_events p ! tf_slot t"; cases "tf_valid_tokens t")
       (simp_all add: consume_def wait_ready_def mark_consumed_def issue_op_def consumer_def consume_ops_def read_ops_def
         Let_def split: prod.splits)
next
  case False
  then show ?thesis
    by (cases "tf_valid_tokens t")
       (simp_all add: consume_def wait_ready_def mark_consumed_def issue_op_def consumer_def consume_ops_def read_ops_def
         Let_def split: prod.splits)
qed

lemma consume_ops_quiet: "\<forall>o' \<in> set (consume_ops p t). \<not> is_write (snd o') \<and> fst o' = consumer p"
proof -
  have "\<forall>o' \<in> set (read_ops p t). \<not> is_write (snd o') \<and> fst o' = consumer p"
    by (cases "tf_valid_tokens t") (simp_all add: read_ops_def case_prod_beta)
  moreover have "\<forall>o' \<in> set (case sp_ready_events p ! tf_slot t of None \<Rightarrow> [] | Some i \<Rightarrow> [(ComputeStream, WaitFor i)]).
      \<not> is_write (snd o') \<and> fst o' = ComputeStream"
    by (cases "sp_ready_events p ! tf_slot t") simp_all
  ultimately show ?thesis unfolding consume_ops_def by (cases "sp_copy_stream p") (simp_all add: consumer_def ball_Un)
qed

lemma consume_ops_last: "sp_copy_stream p \<Longrightarrow> \<exists>os. consume_ops p t = os @ [(ComputeStream, RecordEv)]"
  by (simp add: consume_ops_def)

lemma consume_grows:
  assumes ev: "events_ok p" and t: "tf_slot t < sp_num_buffers p"
  shows "grows p (consume_ops p t) (consume t p)"
proof (cases "sp_copy_stream p")
  case False
  then show ?thesis using grows_trace [OF ev, of "consume_ops p t"] by (simp add: consume_eq)
next
  case True
  let ?ops = "consume_ops p t" and ?p' = "consume t p"
  let ?r = "length (sp_trace p) + length ?ops - 1"
  have tr: "sp_trace ?p' = sp_trace p @ ?ops" by (simp add: consume_eq)
  have free: "sp_free_events ?p' = (sp_free_events p)[tf_slot t := Some ?r]" using True by (simp add: consume_eq)
  obtain os where os: "?ops = os @ [(ComputeStream, RecordEv)]" using consume_ops_last [OF True] by blast
  have r: "?r < length (sp_trace ?p')" "fst (sp_trace ?p' ! ?r) = ComputeStream" "length (sp_trace p) \<le> ?r"
    unfolding tr os by (simp_all add: nth_append)
  have "events_ok (p\<lparr>sp_trace := sp_trace p @ ?ops\<rparr>)" using grows_trace [OF ev] by (simp add: grows_def)
  then have "events_ok ?p'"
    using r t free unfolding events_ok_def by (auto simp: consume_eq nth_list_update)
  moreover have "\<exists>i'. sp_free_events ?p' ! s = Some i' \<and> (i' = i \<or> before (sp_trace ?p') i i')"
    if i: "sp_free_events p ! s = Some i" for s i
  proof (cases "s = tf_slot t")
    case True
    have "i < length (sp_trace p)" "fst (sp_trace p ! i) = ComputeStream"
      using events_okD(2) [OF ev t] i True by simp_all
    then have "before (sp_trace ?p') i ?r"
      using r same_stream_before [of i ?r "sp_trace ?p'"] by (simp add: tr nth_append)
    then show ?thesis using True free t ev by (simp add: events_ok_def)
  qed (use i free in simp)
  ultimately show ?thesis unfolding grows_def by (simp add: consume_eq)
qed

lemma quiet_settled:
  assumes "sp_trace p' = sp_trace p @ ops" "settled (sp_trace p) w x v" "\<forall>o' \<in> set ops. \<not> is_write (snd o')"
  shows "settled (sp_trace p') w x v"
proof -
  have none: "\<not> op_writes (snd (sp_trace p' ! j)) y" if "length (sp_trace p) \<le> j" "j < length (sp_trace p')" for j y
    using new_op [OF assms(1) that] assms(3) no_write(1) by blast
  have "sources_kept (sp_trace p) ops" using none unfolding sources_kept_def assms(1) by blast
  then show ?thesis using settled_append [OF assms(2)] none unfolding assms(1) by blast
qed

definition new_reads :: "'e staging_pool \<Rightarrow> transfer \<Rightarrow> 'e promise \<Rightarrow> 'e reading set" where
  "new_reads p t m =
     {\<lparr> rd_op = u, rd_promise = m \<rparr> | u. length (sp_trace p) \<le> u \<and> u < length (sp_trace (consume t p))
        \<and> (\<exists>b n. snd (sp_trace (consume t p) ! u) = ReadElems b n)}"

lemma consume_inv:
  assumes inv: "pool_inv p live reads" and m: "m \<in> live" "pm_slot m = tf_slot t"
  shows "pool_inv (consume t p) live (reads \<union> new_reads p t m)"
proof -
  let ?p' = "consume t p" and ?ops = "consume_ops p t"
  have ev: "events_ok p" and ok: "live_ok p m" using inv m(1) by (simp_all add: pool_inv_def)
  have t: "tf_slot t < sp_num_buffers p" using ok m(2) by (simp add: live_ok_def)
  have g: "grows p ?ops ?p'" by (rule consume_grows [OF ev t])
  have inv': "pool_inv ?p' live reads"
    using pool_inv_quiet [OF g inv] consume_ops_quiet [of p t] by blast
  have ok': "live_ok ?p' m" using inv' m(1) by (simp add: pool_inv_def)
  have tr: "sp_trace ?p' = sp_trace p @ ?ops" by (simp add: consume_eq)
  have stream: "fst (sp_trace ?p' ! u) = consumer p" if "length (sp_trace p) \<le> u" "u < length (sp_trace ?p')" for u
    using new_op [OF tr that] consume_ops_quiet [of p t] by blast
  have "read_ok ?p' d" if d: "d \<in> new_reads p t m" for d
  proof -
    obtain u b n where u: "d = \<lparr> rd_op = u, rd_promise = m \<rparr>" "length (sp_trace p) \<le> u" "u < length (sp_trace ?p')"
        "snd (sp_trace ?p' ! u) = ReadElems b n"
      using d unfolding new_reads_def by blast
    have after: "before (sp_trace ?p') w u" if w: "written p (pm_slot m) w" "w < length (sp_trace p)" for w
    proof (cases "sp_copy_stream p")
      case False
      then show ?thesis using w host_before [of w "sp_trace p" u ?ops] u(2,3) by (simp add: written_def tr)
    next
      case True
      obtain i where i: "sp_ready_events p ! tf_slot t = Some i" "before (sp_trace p) w i"
        using w True m(2) by (auto simp: written_def)
      let ?k = "length (sp_trace p)"
      have k: "sp_trace ?p' ! ?k = (ComputeStream, WaitFor i)" "?k < length (sp_trace ?p')"
        using True i(1) by (simp_all add: tr consume_ops_def)
      have "before (sp_trace ?p') i ?k" using k before_lt [OF i(2)] by (intro wait_before) simp_all
      moreover have "u \<noteq> ?k" using k(1) u(4) by auto
      then have "before (sp_trace ?p') ?k u"
        using u(2,3) k stream [of u] True by (intro same_stream_before) (simp_all add: consumer_def)
      ultimately show ?thesis using before_append [OF i(2), of ?ops] before_trans unfolding tr by blast
    qed
    have cells: "delivers (sp_trace ?p') u x v" if xv: "(x, v) \<in> pm_cells m" for x v
    proof -
      obtain w where w: "settled (sp_trace p) w x v" "written p (pm_slot m) w" using live_cell(3) [OF ok xv] by blast
      have "settled (sp_trace ?p') w x v"
        using consume_ops_quiet [of p t] by (intro quiet_settled [OF tr w(1)]) blast
      then show ?thesis using settled_delivers after [OF w(2)] w(1) by (simp add: settled_def)
    qed
    moreover have "\<exists>f. sp_free_events ?p' ! pm_slot m = Some f \<and> before (sp_trace ?p') u f" if cp: "sp_copy_stream p"
    proof -
      let ?r = "length (sp_trace p) + length ?ops - 1"
      obtain os where os: "?ops = os @ [(ComputeStream, RecordEv)]" using consume_ops_last [OF cp] by blast
      have r: "?r < length (sp_trace ?p')" "sp_trace ?p' ! ?r = (ComputeStream, RecordEv)"
        unfolding tr os by (simp_all add: nth_append)
      have "u \<noteq> ?r" using r(2) u(4) by auto
      then have "before (sp_trace ?p') u ?r"
        using u(2,3) r stream [of u] cp by (intro same_stream_before) (simp_all add: consumer_def tr)
      then show ?thesis using cp t m(2) ev by (simp add: consume_eq events_ok_def)
    qed
    ultimately show ?thesis
      using u stream [of u] ok' live_cell(1,2) [OF ok] g grows_streams(2) [OF g] unfolding read_ok_def
      by (auto simp: live_ok_def grows_def)
  qed
  then show ?thesis using inv' by (auto simp: pool_inv_def)
qed

end
