(* ===== verification/TieredKV.thy ===== *)
theory TieredKV
  imports Prelude
begin

text \<open>
  \<open>TargetTieredKVState\<close> (\<open>speculative/spectre/specstream/state.py\<close>): the lifecycle of one
  request's Target KV.  The committed prefix is split into sealed history (in CPU blocks) and
  a GPU tail; a round speculates beyond the committed prefix and a seal moves a committed
  prefix into the history.  The invariant is the one \<open>check\<close> asserts.
\<close>

record tiered_state =
  ts_rid :: string
  ts_committed_len :: int
  ts_history_len :: int
  ts_logical_len :: int
  ts_tail_start :: int
  ts_cpu_blocks :: "nat list"
  ts_gpu_tail_slots :: "nat list"
  ts_stream_enabled :: bool
  ts_seal_inflight :: bool
  ts_round_id :: int

text \<open>The constructor call of the runtime: every other field has its default.\<close>

definition tiered_new :: "string \<Rightarrow> int \<Rightarrow> int \<Rightarrow> tiered_state" where
  "tiered_new rid committed logical =
     \<lparr>ts_rid = rid, ts_committed_len = committed, ts_history_len = 0,
      ts_logical_len = logical, ts_tail_start = 0, ts_cpu_blocks = [],
      ts_gpu_tail_slots = [], ts_stream_enabled = False, ts_seal_inflight = False,
      ts_round_id = 0\<rparr>"

definition tiered_check :: "int \<Rightarrow> tiered_state \<Rightarrow> unit res" where
  "tiered_check seal_granularity st =
     raise_first
      [(seal_granularity < 1, ValueError),
       (\<not> (0 \<le> ts_history_len st \<and> ts_history_len st \<le> ts_committed_len st
            \<and> ts_committed_len st \<le> ts_logical_len st), AssertionError),
       (ts_tail_start st \<noteq> ts_history_len st, AssertionError),
       (ts_history_len st mod seal_granularity \<noteq> 0, AssertionError),
       (ts_stream_enabled st \<and> \<not> 0 < ts_history_len st, AssertionError)]"

definition begin_round :: "tiered_state \<Rightarrow> int \<Rightarrow> int \<Rightarrow> (tiered_state \<times> int) res" where
  "begin_round st committed logical =
     (if committed < ts_history_len st then Inl AssertionError
      else if logical < committed then Inl AssertionError
      else let r = ts_round_id st + 1 in
        Inr (st\<lparr>ts_committed_len := committed, ts_logical_len := logical,
                ts_round_id := r\<rparr>, r))"

definition finish_round :: "tiered_state \<Rightarrow> int \<Rightarrow> tiered_state res" where
  "finish_round st committed =
     (if committed < ts_history_len st then Inl AssertionError
      else Inr (st\<lparr>ts_committed_len := committed, ts_logical_len := committed\<rparr>))"

definition mark_sealed :: "tiered_state \<Rightarrow> int \<Rightarrow> nat list \<Rightarrow> tiered_state res" where
  "mark_sealed st seal_end block_ids =
     (if \<not> ts_seal_inflight st then Inl AssertionError
      else if \<not> (ts_history_len st < seal_end \<and> seal_end \<le> ts_committed_len st)
        then Inl AssertionError
      else Inr (st\<lparr>ts_cpu_blocks := ts_cpu_blocks st @ block_ids,
                   ts_history_len := seal_end, ts_tail_start := seal_end,
                   ts_stream_enabled := True, ts_seal_inflight := False\<rparr>))"

definition start_seal :: "tiered_state \<Rightarrow> tiered_state res" where
  "start_seal st =
     (if ts_seal_inflight st then Inl AssertionError
      else Inr (st\<lparr>ts_seal_inflight := True\<rparr>))"

lemmas tiered_defs = begin_round_def finish_round_def mark_sealed_def start_seal_def

section \<open>The invariant\<close>

definition tiered_ok :: "int \<Rightarrow> tiered_state \<Rightarrow> bool" where
  "tiered_ok g st \<longleftrightarrow> 0 < g \<and> 0 \<le> ts_history_len st
     \<and> ts_history_len st \<le> ts_committed_len st \<and> ts_committed_len st \<le> ts_logical_len st
     \<and> ts_tail_start st = ts_history_len st \<and> g dvd ts_history_len st
     \<and> (ts_stream_enabled st \<longrightarrow> 0 < ts_history_len st)"

lemma tiered_check_iff: "tiered_check g st = Inr u \<longleftrightarrow> tiered_ok g st"
  by (auto simp: tiered_check_def tiered_ok_def dvd_eq_mod_eq_0)

lemma tiered_ok_new: "0 < g \<Longrightarrow> 0 \<le> n \<Longrightarrow> n \<le> m \<Longrightarrow> tiered_ok g (tiered_new rid n m)"
  by (simp add: tiered_ok_def tiered_new_def)

lemma begin_round_ok:
  "tiered_ok g st \<Longrightarrow> begin_round st c l = Inr (st', r) \<Longrightarrow> tiered_ok g st'"
  by (auto simp: tiered_ok_def begin_round_def Let_def split: if_splits)

lemma finish_round_ok: "tiered_ok g st \<Longrightarrow> finish_round st c = Inr st' \<Longrightarrow> tiered_ok g st'"
  by (auto simp: tiered_ok_def finish_round_def split: if_splits)

lemma start_seal_ok: "tiered_ok g st \<Longrightarrow> start_seal st = Inr st' \<Longrightarrow> tiered_ok g st'"
  by (auto simp: tiered_ok_def start_seal_def split: if_splits)

lemma mark_sealed_ok:
  "tiered_ok g st \<Longrightarrow> g dvd e \<Longrightarrow> mark_sealed st e bs = Inr st' \<Longrightarrow> tiered_ok g st'"
  by (auto simp: tiered_ok_def mark_sealed_def split: if_splits)

section \<open>The lifecycle as a sequence of operations\<close>

datatype tiered_op =
    BeginRound int int | FinishRound int | StartSeal | MarkSealed int "nat list"

fun tiered_apply :: "tiered_state \<Rightarrow> tiered_op \<Rightarrow> tiered_state res" where
  "tiered_apply st (BeginRound c l) = rbind (begin_round st c l) (\<lambda>(st', _). Inr st')"
| "tiered_apply st (FinishRound c) = finish_round st c"
| "tiered_apply st StartSeal = start_seal st"
| "tiered_apply st (MarkSealed e bs) = mark_sealed st e bs"

text \<open>The seals the runtime asks for end on a multiple of the granularity.\<close>

fun op_aligned :: "int \<Rightarrow> tiered_op \<Rightarrow> bool" where
  "op_aligned g (MarkSealed e _) \<longleftrightarrow> g dvd e"
| "op_aligned g _ \<longleftrightarrow> True"

lemma tiered_apply_ok:
  assumes "tiered_ok g st" and "op_aligned g x" and "tiered_apply st x = Inr st'"
  shows "tiered_ok g st'"
proof (cases x)
  case (BeginRound c l)
  with assms show ?thesis by (auto simp: rbind_Inr_iff intro: begin_round_ok)
qed (use assms in \<open>auto intro: finish_round_ok start_seal_ok mark_sealed_ok\<close>)

lemma tiered_apply_history_mono:
  "tiered_apply st x = Inr st' \<Longrightarrow>
     ts_history_len st \<le> ts_history_len st' \<and>
     take (length (ts_cpu_blocks st)) (ts_cpu_blocks st') = ts_cpu_blocks st"
  by (cases x) (auto simp: tiered_defs rbind_Inr_iff Let_def split: if_splits)

lemma tiered_run_ok:
  assumes "rfold tiered_apply st xs = Inr st'" and "tiered_ok g st"
    and "\<forall>x \<in> set xs. op_aligned g x"
  shows "tiered_ok g st'"
  using assms(1,2) by (rule rfold_invariant) (use assms(3) tiered_apply_ok in blast)

lemma tiered_run_mono:
  assumes "rfold tiered_apply st xs = Inr st'"
  shows "ts_history_len st \<le> ts_history_len st'"
  using assms
  by (rule rfold_invariant [where P = "\<lambda>s. ts_history_len st \<le> ts_history_len s"])
     (auto dest: tiered_apply_history_mono)

text \<open>
  C26: from a fresh request, any sequence of rounds and chunk-aligned seals that raises nothing
  ends in a state that passes the strict invariant check of the runtime; the sealed history
  never shrinks, so no round ever rolls back into it.
\<close>

theorem tiered_lifecycle:
  assumes "0 < g" and "0 \<le> n" and "\<forall>x \<in> set (xs @ ys). op_aligned g x"
    and "rfold tiered_apply (tiered_new rid n n) xs = Inr s1"
    and "rfold tiered_apply s1 ys = Inr s2"
  shows "tiered_check g s2 = Inr () \<and> ts_history_len s1 \<le> ts_history_len s2
    \<and> ts_history_len s1 \<le> ts_committed_len s2"
proof -
  have ok0: "tiered_ok g (tiered_new rid n n)"
    using assms(1,2) by (simp add: tiered_ok_new)
  have ok1: "tiered_ok g s1"
    using assms(3,4) ok0 by (auto intro: tiered_run_ok)
  have ok2: "tiered_ok g s2"
    using assms(3,5) ok1 by (auto intro: tiered_run_ok)
  have mono: "ts_history_len s1 \<le> ts_history_len s2"
    by (rule tiered_run_mono [OF assms(5)])
  show ?thesis
    using ok2 mono by (auto simp: tiered_check_iff) (simp add: tiered_ok_def)
qed

theorem tiered_lifecycle_witness:
  "\<exists>s1 s2. rfold tiered_apply (tiered_new ''r'' 10 10)
       [BeginRound 10 14, FinishRound 12, StartSeal, MarkSealed 8 [0, 1]] = Inr s1
     \<and> rfold tiered_apply s1 [BeginRound 12 16, FinishRound 15] = Inr s2
     \<and> tiered_check 4 s2 = Inr () \<and> ts_history_len s1 \<le> ts_history_len s2
     \<and> ts_history_len s1 \<le> ts_committed_len s2"
proof -
  define s1 where "s1 = (tiered_new ''r'' 12 12)\<lparr>ts_history_len := 8, ts_tail_start := 8,
     ts_cpu_blocks := [0, 1], ts_stream_enabled := True, ts_round_id := 1\<rparr>"
  define s2 where "s2 = s1\<lparr>ts_committed_len := 15, ts_logical_len := 15, ts_round_id := 2\<rparr>"
  have r1: "rfold tiered_apply (tiered_new ''r'' 10 10)
       [BeginRound 10 14, FinishRound 12, StartSeal, MarkSealed 8 [0, 1]] = Inr s1"
    by (simp add: s1_def tiered_new_def tiered_defs Let_def)
  have r2: "rfold tiered_apply s1 [BeginRound 12 16, FinishRound 15] = Inr s2"
    by (simp add: s2_def s1_def tiered_new_def tiered_defs Let_def)
  have "tiered_check 4 s2 = Inr () \<and> ts_history_len s1 \<le> ts_history_len s2
    \<and> ts_history_len s1 \<le> ts_committed_len s2"
    by (rule tiered_lifecycle [OF _ _ _ r1 r2]) simp_all
  with r1 r2 show ?thesis by blast
qed

end
