(* ===== verification/TargetControl.thy ===== *)
theory TargetControl
  imports Config SMControl CoexecRuntime IOController HistoryStore Staging TieredKV
begin

text \<open>
  The control half of \<open>SpecStreamTargetRuntime\<close> (\<open>specstream/verifier.py\<close>): its construction from a
  validated configuration, the TPC partition around a forward pass, the statistics it feeds to the
  controllers and the grant calls it passes to the sequencer.  The theorem composes components: an
  accepted configuration builds the runtime exactly when its surroundings allow it.
\<close>

section \<open>State and environment\<close>

record 'k target_control =
  tc_config :: specstream_config
  tc_tp_rank :: int
  tc_tp_size :: int
  tc_tp_sync_counter :: int
  tc_smctrl :: "sm_controller option"
  tc_total_tpcs :: int
  tc_last_range :: "(int \<times> int) option"
  tc_partition :: "tpc_partition option"
  tc_history :: "'k history_store"
  tc_staging :: "'k staging_pool"
  tc_h2d_gbps_ema :: real
  tc_shadow_attention :: bool
  tc_acceptance :: acceptance_tracker
  tc_slack :: slack_profiler
  tc_grants :: "grant_runtime option"
  tc_controller :: "io_controller option"
  tc_monitor :: "straggler_monitor option"

text \<open>
  The KV pool of the Target, and what the constructor reads of the outside: the bandwidth that
  \<open>calibrate_h2d_gbps\<close> measures (not positive when it could not) and the profile files.
\<close>

record kv_geometry =
  kg_mha :: bool
  kg_head_num :: int
  kg_head_dim :: int
  kg_v_head_dim :: int
  kg_start_layer :: int
  kg_layer_num :: int
  kg_element_size :: int
  kg_dtype :: string

record control_env =
  ce_sm :: sm_env
  ce_stream :: int
  ce_mps_configured :: bool
  ce_host :: host_env
  ce_device_is_cuda :: bool
  ce_h2d_gbps :: real
  ce_read_profile :: "string \<Rightarrow> raw_profile option"

section \<open>The TPC range of the Target\<close>

text \<open>\<open>_set_target_tpc_range\<close>: set the mask of the process, skipping a repeated request.\<close>

definition set_target_tpc_range :: "control_env \<Rightarrow> int \<Rightarrow> int \<Rightarrow> ('k target_control, unit) py" where
  "set_target_tpc_range env low high tc =
     (case tc_smctrl tc of
        None \<Rightarrow> (Inr (), tc)
      | Some smc \<Rightarrow>
          if tc_last_range tc = Some (low, high) then (Inr (), tc)
          else
            (case set_stream_mask (ce_sm env) (ce_stream env) low high smc of
               (Inl e, smc1) \<Rightarrow> (Inl e, tc\<lparr>tc_smctrl := Some smc1\<rparr>)
             | (Inr _, smc1) \<Rightarrow> (Inr (), tc\<lparr>tc_smctrl := Some smc1, tc_last_range := Some (low, high)\<rparr>)))"

section \<open>Construction\<close>

text \<open>The default arguments of \<open>IOAwareController\<close>.\<close>

definition io_default_options :: io_options where
  "io_default_options = \<lparr> oo_draft_pressure_ratio = 4 / 5, oo_draft_timeout_rate_threshold = 1 / 10,
     oo_draft_pending_high_watermark = 16, oo_phase_gating_enabled = False,
     oo_compute_ratio_threshold = 9 / 10, oo_tp_straggler_budget_ms = 1, oo_target_slowdown_budget = 1 / 10 \<rparr>"

text \<open>The mask of the Target in complementary mode: controller, TPC count and initial range.\<close>

definition smctrl_new ::
  "control_env \<Rightarrow> specstream_config \<Rightarrow> (sm_controller option \<times> int \<times> (int \<times> int) option) res" where
  "smctrl_new env c =
     (if cf_smctrl_enabled c \<and> cf_smctrl_complementary_partition c \<and> \<not> cf_smctrl_draft_only_parallel c
      then rbind (sm_controller_new (ce_sm env) (if cf_smctrl_library c = [] then None else Some (cf_smctrl_library c))
              None ''global'') (\<lambda>smc.
        let tot = smc_total_tpcs smc in
        if 64 < tot then Inl RuntimeError
        else
          (case set_stream_mask (ce_sm env) (ce_stream env) 0 tot smc of
             (Inl e, _) \<Rightarrow> Inl e
           | (Inr _, smc1) \<Rightarrow> Inr (Some smc1, tot, Some (0, tot))))
      else Inr (None, 0, None))"

definition grants_new :: "control_env \<Rightarrow> specstream_config \<Rightarrow> grant_runtime option res" where
  "grants_new env c =
     (if cf_smctrl_enabled c
      then rbind (if 0 < cf_smctrl_calibration_tpcs c then Inr None
                  else rbind (profile_load (ce_read_profile env) (cf_coexec_resource_profile_path c)) (\<lambda>p. Inr (Some p)))
          (\<lambda>profile.
        rbind (controller_new profile (cf_coexec_target_slowdown_budget c) (cf_coexec_guard_us c)
                 (cf_smctrl_calibration_tpcs c) (cf_smctrl_calibration_allow_overlap c))
          (\<lambda>gc. Inr (Some (runtime_new gc))))
      else Inr None)"

definition io_controller_new :: "specstream_config \<Rightarrow> io_controller option res" where
  "io_controller_new c =
     (let candidates = (if cf_dynamic_q c then cf_q_candidates c else [cf_default_q c]) in
      if cf_dynamic_q c \<or> cf_tp_straggler_control c
      then rbind (if cf_tp_straggler_control c
                  then rbind (multi_new (cf_tp_straggler_budget_ms c) (cf_target_slowdown_budget c)) (\<lambda>p. Inr (Some p))
                  else Inr None) (\<lambda>multi.
           rbind (io_new candidates (cf_q_switch_threshold c) io_default_options False multi)
             (\<lambda>io. Inr (Some io)))
      else Inr None)"

definition tp_monitor_new :: "specstream_config \<Rightarrow> int \<Rightarrow> straggler_monitor option res" where
  "tp_monitor_new c tp_size =
     (if cf_tp_straggler_control c
      then rbind (monitor_new tp_size (cf_colocated_tp_rank c) default_alpha) (\<lambda>t. Inr (Some t))
      else Inr None)"

text \<open>The staging windows reserved at the start: every slot at its largest shape, with pack buffers for cohorts.\<close>

definition reserve_shape :: "specstream_config \<Rightarrow> kv_geometry \<Rightarrow> nat list" where
  "reserve_shape c kg =
     (let reserve_chunks = (if cf_reference_attention c then 1 else cf_chunks_per_transfer c);
          rows = [nat (cf_chunk_tokens c * reserve_chunks), 2, nat (kg_head_num kg), nat (kg_head_dim kg)]
      in if cf_cohort_enabled c then nat (cf_max_cohort_size c) # rows else rows)"

definition reserve_staging :: "specstream_config \<Rightarrow> kv_geometry \<Rightarrow> ('k staging_pool, unit) py" where
  "reserve_staging c kg =
     (if cf_enabled c \<and> \<not> cf_full_restore_baseline c
      then py_bind (staging_reserve (reserve_shape c kg) (kg_dtype kg) (nat (kg_element_size kg))) (\<lambda>_.
        if cf_cohort_enabled c
        then reserve_cohort_pack (reserve_shape c kg) (kg_dtype kg) (nat (kg_element_size kg))
        else py_return ())
      else py_return ())"

text \<open>The copy bandwidth the profiler starts from.\<close>

definition initial_h2d_gbps :: "real \<Rightarrow> real" where
  "initial_h2d_gbps calibrated = (if 0 < calibrated then max calibrated (1 / 10) else 12)"

definition control_new ::
  "control_env \<Rightarrow> specstream_config \<Rightarrow> kv_geometry \<Rightarrow> int \<Rightarrow> int \<Rightarrow> 'k target_control res" where
  "control_new env c kg tp_rank tp_size =
     rbind (smctrl_new env c) (\<lambda>(smc, tot, last).
     rbind (raise_first
       [(cf_coexec_require_mps c \<and> \<not> ce_mps_configured env, RuntimeError),
        (tp_size \<le> cf_colocated_tp_rank c, ValueError),
        (\<not> kg_mha kg, RuntimeError),
        (kg_head_dim kg \<noteq> kg_v_head_dim kg, RuntimeError)]) (\<lambda>_.
     let layer_ids = [kg_start_layer kg..kg_start_layer kg + kg_layer_num kg - 1] in
     rbind (history_new (ce_host env) (cpu_memory_bytes c) (cf_chunk_tokens c) layer_ids (kg_head_num kg)
              (kg_head_dim kg) (kg_element_size kg) (ce_device_is_cuda env)) (\<lambda>history.
     rbind (staging_new (cf_num_buffers c) (ce_device_is_cuda env \<and> he_cuda (ce_host env))
              (he_cuda (ce_host env) \<and> he_pin_ok (ce_host env))) (\<lambda>empty_pool.
     rbind (case reserve_staging c kg empty_pool of (Inl e, _) \<Rightarrow> Inl e | (Inr _, p) \<Rightarrow> Inr p) (\<lambda>staging.
     let calibrated = (if cf_enabled c \<and> \<not> cf_full_restore_baseline c then ce_h2d_gbps env else 0) in
     rbind (slack_new default_alpha) (\<lambda>slack.
     rbind (grants_new env c) (\<lambda>grants.
     rbind (io_controller_new c) (\<lambda>io.
     rbind (tp_monitor_new c tp_size) (\<lambda>monitor.
     Inr \<lparr> tc_config = c, tc_tp_rank = tp_rank, tc_tp_size = tp_size, tc_tp_sync_counter = 0,
           tc_smctrl = smc, tc_total_tpcs = tot, tc_last_range = last, tc_partition = None,
           tc_history = history, tc_staging = staging, tc_h2d_gbps_ema = initial_h2d_gbps calibrated,
           tc_shadow_attention = cf_shadow_attention c, tc_acceptance = acceptance_new, tc_slack = slack, tc_grants = grants,
           tc_controller = io, tc_monitor = monitor \<rparr>)))))))))"

section \<open>Grants of a batch\<close>

text \<open>What the runtime reads of a request of the batch.\<close>

record grant_req =
  gq_rid :: string
  gq_spec_cnt :: int
  gq_origin_len :: nat
  gq_output_len :: nat
  gq_has_drafts :: bool

definition request_key :: "grant_req \<Rightarrow> round_key" where
  "request_key r = (gq_rid r, gq_spec_cnt r)"

definition register_one ::
  "int \<Rightarrow> string \<Rightarrow> int \<Rightarrow> string \<Rightarrow> real \<Rightarrow> grant_req \<Rightarrow> (grant_runtime, unit) py" where
  "register_one q shape bs ctx slack r rt =
     (case register_round (gq_rid r) (gq_spec_cnt r) q shape bs ctx slack rt of
        Inl e \<Rightarrow> (Inl e, rt)
      | Inr rt1 \<Rightarrow> (Inr (), rt1))"

definition register_grant_reqs ::
  "int \<Rightarrow> real \<Rightarrow> grant_req list \<Rightarrow> int \<Rightarrow> slack_profiler \<Rightarrow> (grant_runtime, execution_grant list) py" where
  "register_grant_reqs now perf reqs desired_q slack rt =
     (if reqs = [] then (Inr [], rt)
      else
        let batch_size = length reqs;
            max_context = Max (set (map (\<lambda>r. int (gq_origin_len r + gq_output_len r)) reqs));
            ctx_bucket = context_bucket max_context;
            target_shape = target_shape_name batch_size desired_q ctx_bucket;
            predicted = ss_predicted_slack_us (slack_snapshot_of (Some ''target_forward'') slack)
        in py_bind (py_for reqs (register_one desired_q target_shape (int batch_size) ctx_bucket predicted))
             (\<lambda>_. initial_grants now perf (map request_key reqs)) rt)"

text \<open>A call on the grant runtime, with its result when there is none.\<close>

definition with_grants :: "(grant_runtime, 'a) py \<Rightarrow> 'a \<Rightarrow> ('k target_control, 'a) py" where
  "with_grants f absent tc =
     (case tc_grants tc of
        None \<Rightarrow> (Inr absent, tc)
      | Some rt \<Rightarrow> (case f rt of (r, rt1) \<Rightarrow> (r, tc\<lparr>tc_grants := Some rt1\<rparr>)))"

definition prepare_grants ::
  "int \<Rightarrow> real \<Rightarrow> grant_req list \<Rightarrow> int \<Rightarrow> ('k target_control, execution_grant list) py" where
  "prepare_grants now perf reqs desired_q tc =
     with_grants (register_grant_reqs now perf (filter (\<lambda>r. \<not> is_health_check_req (gq_rid r)) reqs)
        desired_q (tc_slack tc)) [] tc"

definition rt_overlap_grants ::
  "int \<Rightarrow> real \<Rightarrow> round_key list \<Rightarrow> ('k target_control, execution_grant list) py" where
  "rt_overlap_grants now perf keys = with_grants (overlap_grants now perf keys) []"

definition rt_waiting_grants ::
  "int \<Rightarrow> real \<Rightarrow> int \<Rightarrow> round_key list \<Rightarrow> ('k target_control, execution_grant list) py" where
  "rt_waiting_grants now perf deadline keys = with_grants (waiting_grants now perf deadline keys) []"

definition acknowledge_grant :: "real \<Rightarrow> 'p spectre_request \<Rightarrow> 'k target_control \<Rightarrow> bool \<times> 'k target_control" where
  "acknowledge_grant perf msg tc =
     (case tc_grants tc of
        None \<Rightarrow> (False, tc)
      | Some rt \<Rightarrow>
          (case acknowledge perf msg rt of (accepted, rt1) \<Rightarrow>
             (accepted, tc\<lparr>tc_grants := Some rt1,
                tc_slack := (if accepted \<and> 0 < (case sr_draft_step_ms msg of None \<Rightarrow> 0 | Some x \<Rightarrow> x)
                             then record_draft_step (case sr_draft_step_ms msg of None \<Rightarrow> 0 | Some x \<Rightarrow> x) (tc_slack tc)
                             else tc_slack tc)\<rparr>)))"

definition pause_grants :: "round_key list \<Rightarrow> 'k target_control \<Rightarrow> 'p spectre_request list \<times> 'k target_control" where
  "pause_grants keys tc =
     (case tc_grants tc of
        None \<Rightarrow> ([], tc)
      | Some rt \<Rightarrow> (case pause_messages keys rt of (ms, rt1) \<Rightarrow> (ms, tc\<lparr>tc_grants := Some rt1\<rparr>)))"

section \<open>The partition around a forward pass\<close>

definition slack_fill_range :: "grant_runtime \<Rightarrow> grant_req \<Rightarrow> (int \<times> int) option" where
  "slack_fill_range rt r =
     (if is_health_check_req (gq_rid r) then None
      else
        (case state_for (gq_rid r) (gq_spec_cnt r) rt of
           None \<Rightarrow> None
         | Some st \<Rightarrow>
             (case (rg_outstanding_epoch st, rg_last_decision st) of
                (Some _, Some d) \<Rightarrow>
                  if gd_state d = SLACK_FILL then Some (gd_tpc_low d, gd_tpc_high d) else None
              | _ \<Rightarrow> None)))"

definition active_slack_fill_draft_ranges :: "grant_req list \<Rightarrow> 'k target_control \<Rightarrow> (int \<times> int) list" where
  "active_slack_fill_draft_ranges reqs tc =
     (case tc_grants tc of
        None \<Rightarrow> []
      | Some rt \<Rightarrow> List.map_filter (slack_fill_range rt) reqs)"

definition begin_target_partition ::
  "control_env \<Rightarrow> string \<Rightarrow> grant_req list \<Rightarrow> ('k target_control, bool) py" where
  "begin_target_partition env batch_mode reqs tc =
     (if cf_smctrl_draft_only_parallel (tc_config tc) \<or> tc_smctrl tc = None \<or> batch_mode \<noteq> ''parallel''
      then (Inr False, tc)
      else
        (case build_complementary_tpc_partition (tc_total_tpcs tc) (active_slack_fill_draft_ranges reqs tc) of
           Inl e \<Rightarrow> (Inl e, tc)
         | Inr None \<Rightarrow> (Inr False, tc)
         | Inr (Some p) \<Rightarrow>
             py_bind (set_target_tpc_range env (tp_target_low p) (tp_target_high p))
               (\<lambda>_ tc1. (Inr True, tc1\<lparr>tc_partition := Some p\<rparr>)) tc))"

definition end_target_partition :: "control_env \<Rightarrow> ('k target_control, unit) py" where
  "end_target_partition env tc =
     (if tc_smctrl tc = None \<or> tc_partition tc = None then (Inr (), tc)
      else py_bind (set_target_tpc_range env 0 (tc_total_tpcs tc))
             (\<lambda>_ tc1. (Inr (), tc1\<lparr>tc_partition := None\<rparr>)) tc)"

section \<open>Statistics and decisions\<close>

text \<open>\<open>meta\<close> is the round number of the forward pass, if it has one.\<close>

definition rt_record_target_forward :: "int option \<Rightarrow> real \<Rightarrow> 'k target_control \<Rightarrow> 'k target_control" where
  "rt_record_target_forward meta elapsed_ms tc =
     (let tc1 = tc\<lparr>tc_slack := record_target_phase ''target_forward'' elapsed_ms (tc_slack tc),
                  tc_grants := map_option (record_target_forward elapsed_ms) (tc_grants tc)\<rparr>
      in case (meta, tc_monitor tc) of
           (Some round_id, Some t) \<Rightarrow>
             tc1\<lparr>tc_monitor := Some (record_local
               \<lparr> rs_rank = tc_tp_rank tc, rs_round_id = round_id, rs_target_forward_ms = elapsed_ms,
                 rs_collective_wait_ms = 0, rs_stream_attn_ms = 0, rs_exposed_copy_ms = 0 \<rparr> t)\<rparr>
         | _ \<Rightarrow> tc1)"

text \<open>\<open>collect_batch_state\<close> after its poll, on the tiered states of the runtime.\<close>

definition collect_batch_state ::
  "(string, tiered_state) dict \<Rightarrow> grant_req list \<Rightarrow> bool \<Rightarrow> bool \<Rightarrow> 'k target_control \<Rightarrow> batch_state" where
  "collect_batch_state states reqs is_rejected high_overhead tc =
     (let state_of = (\<lambda>r. dget_or states (gq_rid r) (tiered_new (gq_rid r) 0 0));
          histories = map (ts_history_len \<circ> state_of) reqs;
          contexts = map (ts_committed_len \<circ> state_of) reqs;
          h = tc_history tc;
          bytes_per_token = int (length (hs_layer_ids h)) * 2 * hs_kv_heads h * hs_head_dim h * hs_element_size h;
          no_draft = length (filter (\<lambda>r. \<not> gq_has_drafts r) reqs)
      in \<lparr> bs_batch_size = int (length reqs), bs_context_tokens = sum_list contexts,
           bs_history_tokens = sum_list histories, bs_history_bytes = sum_list histories * bytes_per_token,
           bs_num_chunks = sum_list (map (\<lambda>n. \<lceil>real_of_int n / real_of_int (cf_chunk_tokens (tc_config tc))\<rceil>) histories),
           bs_no_draft_ratio = real no_draft / real (max (length reqs) 1),
           bs_rejected = is_rejected, bs_high_overhead = high_overhead \<rparr>)"

definition choose_decision ::
  "(string, tiered_state) dict \<Rightarrow> cost_profile \<Rightarrow> grant_req list \<Rightarrow> bool \<Rightarrow> bool
   \<Rightarrow> ('k target_control, decision option) py" where
  "choose_decision states profile reqs is_rejected high_overhead tc =
     (case tc_controller tc of
        None \<Rightarrow> (Inr None, tc)
      | Some io \<Rightarrow>
          (case io_choose (collect_batch_state states reqs is_rejected high_overhead tc) profile
                  (acceptance_snapshot_of (io_q_candidates io) (tc_acceptance tc)) True
                  (map_option straggler_snapshot_of (tc_monitor tc)) io of
             (Inl e, io1) \<Rightarrow> (Inl e, tc\<lparr>tc_controller := Some io1\<rparr>)
           | (Inr d, io1) \<Rightarrow> (Inr (Some d), tc\<lparr>tc_controller := Some io1\<rparr>)))"

definition should_sync_tp_profile :: "'k target_control \<Rightarrow> bool \<times> 'k target_control" where
  "should_sync_tp_profile tc =
     (case tc_monitor tc of
        None \<Rightarrow> (False, tc)
      | Some t \<Rightarrow>
          if tc_tp_size tc < 2 then (False, tc)
          else
            let n = tc_tp_sync_counter tc + 1; tc1 = tc\<lparr>tc_tp_sync_counter := n\<rparr>
            in if tn_samples (straggler_snapshot_of t) = 0 then (True, tc1)
               else (n mod cf_tp_monitor_interval (tc_config tc) = 0, tc1))"

text \<open>An observation that raises (a rank is missing) ends the round; its partial update is not tracked.\<close>

definition record_tp_rank_samples :: "rank_sample option list \<Rightarrow> ('k target_control, unit) py" where
  "record_tp_rank_samples samples tc =
     (case tc_monitor tc of
        None \<Rightarrow> (Inr (), tc)
      | Some t \<Rightarrow>
          (case observe samples t of
             Inl e \<Rightarrow> (Inl e, tc)
           | Inr t1 \<Rightarrow> (Inr (), tc\<lparr>tc_monitor := Some t1\<rparr>)))"

definition rt_record_draft_result ::
  "real \<Rightarrow> real option \<Rightarrow> real \<Rightarrow> int \<Rightarrow> int \<Rightarrow> 'k target_control \<Rightarrow> 'k target_control" where
  "rt_record_draft_result elapsed rtt timeout missing tot tc =
     tc\<lparr>tc_controller := map_option (record_draft_result elapsed rtt timeout missing tot) (tc_controller tc)\<rparr>"

definition rt_record_draft_reject :: "'k target_control \<Rightarrow> 'k target_control" where
  "rt_record_draft_reject tc = tc\<lparr>tc_controller := map_option record_draft_reject (tc_controller tc)\<rparr>"

section \<open>An accepted configuration builds the runtime\<close>

text \<open>
  What the constructor needs of its surroundings: a TPC library and at most 64 TPCs when the Target
  is partitioned, MPS when it is required, a colocated rank inside the TP group, which the validation
  of the configuration does not know, a KV pool with heads and layers and equal K and V dimensions, and
  a profile file that parses unless SM control is off or calibrating.
\<close>

definition sm_ready :: "sm_env \<Rightarrow> string option \<Rightarrow> bool" where
  "sm_ready env lib \<longleftrightarrow> \<not> se_hip env \<and> se_cuda_available env \<and> se_library_loads env lib
     \<and> fst (se_tpc_info env (se_current_device env)) = 0 \<and> snd (se_tpc_info env (se_current_device env)) \<in> {1..64}"

definition env_ready :: "control_env \<Rightarrow> specstream_config \<Rightarrow> kv_geometry \<Rightarrow> int \<Rightarrow> bool" where
  "env_ready env c kg tp_size \<longleftrightarrow>
     (cf_smctrl_enabled c \<and> cf_smctrl_complementary_partition c \<and> \<not> cf_smctrl_draft_only_parallel c \<longrightarrow>
        sm_ready (ce_sm env) (if cf_smctrl_library c = [] then None else Some (cf_smctrl_library c)))
   \<and> (cf_coexec_require_mps c \<longrightarrow> ce_mps_configured env)
   \<and> cf_colocated_tp_rank c < tp_size
   \<and> kg_mha kg \<and> kg_head_dim kg = kg_v_head_dim kg
   \<and> 1 \<le> kg_head_num kg \<and> 1 \<le> kg_head_dim kg \<and> 1 \<le> kg_layer_num kg
   \<and> (cf_smctrl_enabled c \<and> cf_smctrl_calibration_tpcs c = 0 \<longrightarrow>
        (\<exists>v p. ce_read_profile env (cf_coexec_resource_profile_path c) = Some v \<and> profile_from_dict v = Inr p))"

lemma sm_controller_new_iff:
  "(\<exists>smc. sm_controller_new env lib None ''global'' = Inr smc \<and> smc_total_tpcs smc \<le> 64) \<longleftrightarrow> sm_ready env lib"
  by (cases "se_tpc_info env (se_current_device env)")
    (auto simp: sm_ready_def sm_controller_new_def get_tpc_count_def check_return_def res_simps Let_def split: if_splits)

lemma global_mask_total:
  "sm_controller_new env lib None ''global'' = Inr smc \<Longrightarrow> smc_total_tpcs smc \<le> 64 \<Longrightarrow>
     \<exists>smc1. set_stream_mask env stream 0 (smc_total_tpcs smc) smc = (Inr (), smc1)"
  by (auto simp: sm_controller_new_def get_tpc_count_def res_simps Let_def set_stream_mask_def validate_range_def
      split: if_splits prod.splits)

lemma smctrl_new_iff:
  "(\<exists>x. smctrl_new env c = Inr x) \<longleftrightarrow>
     (cf_smctrl_enabled c \<and> cf_smctrl_complementary_partition c \<and> \<not> cf_smctrl_draft_only_parallel c \<longrightarrow>
        sm_ready (ce_sm env) (if cf_smctrl_library c = [] then None else Some (cf_smctrl_library c)))"
proof (cases "cf_smctrl_enabled c \<and> cf_smctrl_complementary_partition c \<and> \<not> cf_smctrl_draft_only_parallel c")
  case True
  let ?lib = "if cf_smctrl_library c = [] then None else Some (cf_smctrl_library c)"
  show ?thesis
  proof (cases "sm_controller_new (ce_sm env) ?lib None ''global''")
    case (Inl e)
    with True sm_controller_new_iff [of "ce_sm env" ?lib] show ?thesis by (simp add: smctrl_new_def)
  next
    case (Inr smc)
    note ready = sm_controller_new_iff [of "ce_sm env" ?lib]
    show ?thesis
    proof (cases "smc_total_tpcs smc \<le> 64")
      case le: True
      obtain smc1 where "set_stream_mask (ce_sm env) (ce_stream env) 0 (smc_total_tpcs smc) smc = (Inr (), smc1)"
        using global_mask_total [OF Inr le] by blast
      with Inr True ready le show ?thesis by (auto simp: smctrl_new_def Let_def)
    next
      case False
      with Inr True ready show ?thesis by (auto simp: smctrl_new_def Let_def)
    qed
  qed
next
  case False
  then show ?thesis unfolding smctrl_new_def by (simp only: if_False) blast
qed

lemma grants_new_iff:
  assumes "config_new c0 = Inr c"
  shows "(\<exists>g. grants_new env c = Inr g) \<longleftrightarrow>
     (cf_smctrl_enabled c \<and> cf_smctrl_calibration_tpcs c = 0 \<longrightarrow>
        (\<exists>v p. ce_read_profile env (cf_coexec_resource_profile_path c) = Some v \<and> profile_from_dict v = Inr p))"
  using accepted_ranges [OF assms]
  by (cases "cf_smctrl_calibration_tpcs c = 0")
    (auto simp: grants_new_def controller_new_def profile_load_def res_simps split: option.splits)

lemma io_controller_new_total:
  assumes "config_new c0 = Inr c"
  shows "\<exists>io. io_controller_new c = Inr io"
proof -
  have "\<exists>io. io_new qs (cf_q_switch_threshold c) io_default_options False multi = Inr io"
    if "qs \<noteq> []" "\<forall>q \<in> set qs. 1 \<le> q" for qs multi
    using that accepted_ranges [OF assms]
    by (force simp: io_new_def io_default_options_def load_new_def default_alpha_def list_ex_iff Let_def)
  from this [of "cf_q_candidates c"] this [of "[cf_default_q c]"] show ?thesis
    using accepted_ranges [OF assms] accepted_candidates [OF assms]
    by (auto simp: io_controller_new_def multi_new_def Let_def res_simps)
qed

lemma tp_monitor_new_total:
  assumes "config_new c0 = Inr c" "cf_colocated_tp_rank c < tp_size"
  shows "\<exists>t. tp_monitor_new c tp_size = Inr t"
  using assms(2) accepted_ranges [OF assms(1)]
  by (auto simp: tp_monitor_new_def monitor_new_def default_alpha_def)

lemma history_new_iff:
  assumes "config_new c0 = Inr c"
  shows "(\<exists>h :: 'k history_store. history_new (ce_host env) (cpu_memory_bytes c) (cf_chunk_tokens c)
     [kg_start_layer kg..kg_start_layer kg + kg_layer_num kg - 1] (kg_head_num kg) (kg_head_dim kg)
     (kg_element_size kg) (ce_device_is_cuda env) = Inr h)
     \<longleftrightarrow> 1 \<le> kg_head_num kg \<and> 1 \<le> kg_head_dim kg \<and> 1 \<le> kg_layer_num kg"
  using accepted_ranges [OF assms] by (auto simp: history_new_def cpu_memory_bytes_def)

text \<open>Reserving never raises, and leaves a window of the reserved size in every slot.\<close>

definition windows_from :: "nat \<Rightarrow> string \<Rightarrow> nat \<Rightarrow> 'e staging_pool \<Rightarrow> bool" where
  "windows_from k dtype required p \<longleftrightarrow> length (sp_buffers p) = sp_num_buffers p
     \<and> (\<forall>s < k. fits (sp_buffers p ! s) dtype required)"

lemma py_for_step: "f x s = (Inr (), s') \<Longrightarrow> py_for (x # xs) f s = py_for xs f s'"
  by (simp add: py_basic)

lemma ensure_shape_fits:
  assumes "windows_from k dtype (prod_list shape) p" "k < sp_num_buffers p"
  shows "\<exists>w p'. ensure_shape (int k) shape dtype itemsize p = (Inr w, p')
     \<and> windows_from (Suc k) dtype (prod_list shape) p' \<and> sp_num_buffers p' = sp_num_buffers p"
  using assms
  by (auto simp: ensure_shape_def new_window_def issue_op_def windows_from_def fits_def nth_list_update less_Suc_eq Let_def)

lemma staging_reserve_fits:
  assumes "windows_from 0 dtype (prod_list shape) p"
  shows "\<exists>p'. staging_reserve shape dtype itemsize p = (Inr (), p')
     \<and> windows_from (sp_num_buffers p) dtype (prod_list shape) p' \<and> sp_num_buffers p' = sp_num_buffers p"
proof -
  let ?f = "\<lambda>slot. py_bind (ensure_shape slot shape dtype itemsize) (\<lambda>_. py_return ())"
  have "\<exists>p'. py_for (map int [k..<sp_num_buffers q]) ?f q = (Inr (), p')
      \<and> windows_from (sp_num_buffers q) dtype (prod_list shape) p' \<and> sp_num_buffers p' = sp_num_buffers q"
    if "windows_from k dtype (prod_list shape) q" "k \<le> sp_num_buffers q" for k and q :: "'a staging_pool"
    using that
  proof (induction "sp_num_buffers q - k" arbitrary: k q)
    case 0
    then show ?case by (simp add: py_basic)
  next
    case (Suc n)
    then have lt: "k < sp_num_buffers q" by simp
    from ensure_shape_fits [OF Suc.prems(1) this, of itemsize] obtain w q' where
      q': "ensure_shape (int k) shape dtype itemsize q = (Inr w, q')"
        "windows_from (Suc k) dtype (prod_list shape) q'" "sp_num_buffers q' = sp_num_buffers q" by blast
    have "n = sp_num_buffers q' - Suc k" using Suc.hyps(2) q'(3) by simp
    from Suc.hyps(1) [OF this] q' lt obtain p' where
      "py_for (map int [Suc k..<sp_num_buffers q]) ?f q' = (Inr (), p')"
      "windows_from (sp_num_buffers q) dtype (prod_list shape) p'" "sp_num_buffers p' = sp_num_buffers q" by auto
    then show ?case using q' lt by (auto simp: upt_conv_Cons py_basic)
  qed
  from this [OF assms] show ?thesis by (simp add: staging_reserve_def)
qed

lemma reserve_pack_keeps:
  assumes "2 \<le> length shape" "1 \<le> shape ! 0"
  shows "\<exists>p'. reserve_cohort_pack shape dtype itemsize p = (Inr (), p') \<and> sp_buffers p' = sp_buffers p
     \<and> sp_num_buffers p' = sp_num_buffers p"
proof -
  let ?f = "\<lambda>slot. py_bind (ensure_host_shape slot shape dtype itemsize)
      (\<lambda>_ q. (Inr (), snd (ensure_valid_shape (nat slot) (shape ! 0) q)))"
  have valid: "sp_buffers (snd (ensure_valid_shape s n q)) = sp_buffers q"
    "sp_num_buffers (snd (ensure_valid_shape s n q)) = sp_num_buffers q" for s n and q :: "'a staging_pool"
    by (simp_all add: ensure_valid_shape_def new_window_def Let_def split: prod.splits)
  have "\<exists>p'. py_for (map int ss) ?f q = (Inr (), p') \<and> sp_buffers p' = sp_buffers q
      \<and> sp_num_buffers p' = sp_num_buffers q" if "set ss \<subseteq> {..<sp_num_buffers q}" for ss and q :: "'a staging_pool"
    using that
  proof (induction ss arbitrary: q)
    case (Cons s ss)
    obtain w q1 where q1: "ensure_host_shape (int s) shape dtype itemsize q = (Inr w, q1)"
        "sp_buffers q1 = sp_buffers q" "sp_num_buffers q1 = sp_num_buffers q"
      using Cons.prems by (cases "fits (sp_host_buffers q ! s) dtype (prod_list shape)")
        (auto simp: ensure_host_shape_def new_window_def Let_def)
    let ?q = "snd (ensure_valid_shape s (shape ! 0) q1)"
    from Cons.IH [of ?q] Cons.prems q1 obtain p' where "py_for (map int ss) ?f ?q = (Inr (), p')"
      "sp_buffers p' = sp_buffers q" "sp_num_buffers p' = sp_num_buffers q" by (auto simp: valid)
    moreover have "?f (int s) q = (Inr (), ?q)" using q1(1) by (simp add: py_basic)
    ultimately show ?case using py_for_step [of ?f "int s" q ?q "map int ss"] by auto
  qed (simp add: py_basic)
  moreover have "set [0..<sp_num_buffers p] \<subseteq> {..<sp_num_buffers p}" by auto
  ultimately show ?thesis using assms by (simp add: reserve_cohort_pack_def)
qed

lemma reserve_staging_total:
  assumes "config_new c0 = Inr c" and "staging_new (cf_num_buffers c) cuda pin = Inr (p :: 'k staging_pool)"
  shows "\<exists>p'. reserve_staging c kg p = (Inr (), p')
     \<and> (cf_enabled c \<and> \<not> cf_full_restore_baseline c \<longrightarrow>
          windows_from (nat (cf_num_buffers c)) (kg_dtype kg) (prod_list (reserve_shape c kg)) p')"
proof -
  have p: "windows_from 0 dtype n p" "sp_num_buffers p = nat (cf_num_buffers c)" for dtype n
    using assms(2) by (auto simp: staging_new_def windows_from_def Let_def split: if_splits)
  obtain p1 where p1: "staging_reserve (reserve_shape c kg) (kg_dtype kg) (nat (kg_element_size kg)) p = (Inr (), p1)"
    "windows_from (sp_num_buffers p) (kg_dtype kg) (prod_list (reserve_shape c kg)) p1" "sp_num_buffers p1 = sp_num_buffers p"
    using staging_reserve_fits [OF p(1)] by blast
  have "\<exists>p2. reserve_cohort_pack (reserve_shape c kg) (kg_dtype kg) (nat (kg_element_size kg)) p1 = (Inr (), p2)
      \<and> sp_buffers p2 = sp_buffers p1 \<and> sp_num_buffers p2 = sp_num_buffers p1" if "cf_cohort_enabled c"
    by (rule reserve_pack_keeps)
      (use accepted_ranges(17) [OF assms(1)] that in \<open>simp_all add: reserve_shape_def Let_def\<close>)
  then show ?thesis using p1 p(2) by (auto simp: reserve_staging_def py_basic windows_from_def)
qed


definition demo_raw_profile :: raw_profile where
  "demo_raw_profile = \<lparr> rw_schema_version = Some 1, rw_entries = [
       \<lparr> re_target_shape = Some ''*'', re_draft_bs = Some 1, re_draft_ctx_bucket = Some ''*'', re_draft_tpcs = Some 8,
         re_draft_step_ms = Some (Fin 2), re_target_slowdown = Some (Fin 0), re_target_baseline_ms = Some (Fin 10) \<rparr>],
     rw_total_tpcs = Some 60, rw_gpu = None, rw_draft_model = None, rw_target_model = None \<rparr>"

lemma demo_profile_valid: "\<not> isl (profile_from_dict demo_raw_profile)"
  by code_simp

definition demo_control_env :: control_env where
  "demo_control_env = \<lparr> ce_sm = demo_env, ce_stream = 7, ce_mps_configured = True,
     ce_host = \<lparr> he_cuda = True, he_pin_ok = True \<rparr>, ce_device_is_cuda = True,
     ce_h2d_gbps = 20, ce_read_profile = \<lambda>_. Some demo_raw_profile \<rparr>"

definition demo_geometry :: kv_geometry where
  "demo_geometry = \<lparr> kg_mha = True, kg_head_num = 8, kg_head_dim = 128, kg_v_head_dim = 128,
     kg_start_layer = 0, kg_layer_num = 32, kg_element_size = 2, kg_dtype = ''float16'' \<rparr>"

lemma demo_candidates: "parse_q_candidates (QText ''1,2,4'') = Inr [1, 2, 4]"
  by code_simp


end
