(* ===== verification/TargetPartition.thy ===== *)
theory TargetPartition
  imports TargetControl
begin

text \<open>
  A forward pass of the Target under a complementary TPC partition, across four components: the
  grant sequencer opens overlap windows, the partition is computed from the outstanding grants, the
  mask library installs it, and acknowledgements refill the windows while the pass runs.
\<close>

section \<open>Overlap windows\<close>

definition window :: "round_grant \<Rightarrow> (int \<times> int) option" where
  "window st = (if rg_overlap_open st then Some (rg_overlap_tpc_low st, rg_overlap_tpc_high st) else None)"

definition open_window :: "grant_runtime \<Rightarrow> round_key \<Rightarrow> (int \<times> int) option" where
  "open_window rt k = Option.bind (dget (gr_rounds rt) k) window"

text \<open>
  A window that is open has its grant outstanding, with the range of the window; a round that
  waits for its prefill has none.
\<close>

definition armed_round :: "round_grant \<Rightarrow> bool" where
  "armed_round st \<longleftrightarrow> (\<forall>w. window st = Some w \<longrightarrow> rg_outstanding_epoch st \<noteq> None
     \<and> (\<exists>d. rg_last_decision st = Some d \<and> gd_state d = SLACK_FILL \<and> (gd_tpc_low d, gd_tpc_high d) = w))"

definition armed :: "round_key set \<Rightarrow> grant_runtime \<Rightarrow> bool" where
  "armed K rt \<longleftrightarrow> (\<forall>k st. k \<in> K \<longrightarrow> dget (gr_rounds rt) k = Some st \<longrightarrow>
     armed_round st \<and> (rg_spec_cnt st \<le> 0 \<longrightarrow> window st = None))"

text \<open>The outcomes of one attempt to issue a grant, as far as windows are concerned.\<close>

definition issued_round :: "round_grant \<Rightarrow> execution_grant option res \<Rightarrow> grant_decision option \<Rightarrow> round_grant \<Rightarrow> bool" where
  "issued_round st r override st' \<longleftrightarrow>
     (st' = st \<and> (\<forall>g. r \<noteq> Inr (Some g)))
   \<or> (\<exists>d. rg_outstanding_epoch st = None \<and> (\<forall>x. override = Some x \<longrightarrow> d = x)
        \<and> ((\<forall>g. r \<noteq> Inr (Some g)) \<and> st' = st\<lparr>rg_last_decision := Some d\<rparr>
         \<or> (\<exists>g eff ep perf. r = Inr (Some g) \<and> st' = note_issue d eff ep perf (st\<lparr>rg_last_decision := Some d\<rparr>)
              \<and> eg_tpc_low g = gd_tpc_low d \<and> eg_tpc_high g = gd_tpc_high d
              \<and> eg_grant_state g = grant_state_value (gd_state d))))"

lemma issue_round:
  assumes st: "dget (gr_rounds rt) key = Some st" and run: "issue now perf key st w dl ov rt = (r, rt')"
  shows "\<exists>st'. dget (gr_rounds rt') key = Some st' \<and> issued_round st r ov st'"
    and "k \<noteq> key \<Longrightarrow> dget (gr_rounds rt') k = dget (gr_rounds rt) k"
proof -
  have "(\<exists>st'. dget (gr_rounds rt') key = Some st' \<and> issued_round st r ov st')
      \<and> (k \<noteq> key \<longrightarrow> dget (gr_rounds rt') k = dget (gr_rounds rt) k)"
  proof (cases "rg_outstanding_epoch st \<noteq> None \<or> rg_desired_q st \<le> rg_issued st")
    case True
    with run st show ?thesis by (auto simp: issue_def issued_round_def)
  next
    case False
    define dec where "dec = (case ov of Some d \<Rightarrow> Inr d
             | None \<Rightarrow> decide (gr_controller rt)
                 \<lparr>da_target_shape = rg_target_shape st, da_draft_bs = rg_draft_bs st,
                  da_draft_ctx_bucket = rg_draft_ctx_bucket st,
                  da_predicted_slack_us = rg_predicted_slack_us st,
                  da_target_waiting = w, da_deadline_us = dl\<rparr>)"
    note unfolded = run [unfolded issue_def, folded dec_def]
    show ?thesis
    proof (cases dec)
      case (Inl e)
      with unfolded False st show ?thesis by (auto simp: issued_round_def dec_def)
    next
      case (Inr d)
      have ov: "\<forall>x. ov = Some x \<longrightarrow> d = x" using Inr by (auto simp: dec_def)
      define st1 where "st1 = st\<lparr>rg_last_decision := Some d\<rparr>"
      define rt1 where "rt1 = put_round key st1 rt"
      obtain ep rt2 where e: "next_epoch (rg_request_id st) rt1 = (ep, rt2)" by force
      have rounds: "gr_rounds rt2 = dset key st1 (gr_rounds rt)"
        by (metis e next_epoch_fields(1) put_round_fields(1) rt1_def snd_conv)
      define eff where "eff = effective_deadline (gr_controller rt) now st1 d dl"
      define g where "g = \<lparr>eg_request_id = rg_request_id st, eg_spec_cnt = rg_spec_cnt st,
                   eg_grant_epoch = ep, eg_grant_tokens = 1,
                   eg_tpc_low = gd_tpc_low d, eg_tpc_high = gd_tpc_high d,
                   eg_deadline_us = eff, eg_placement_id = 0,
                   eg_grant_state = grant_state_value (gd_state d)\<rparr>"
      have out: "(r, rt') = (if \<not> allows_draft d then (Inr None, rt1)
          else case grant_new g of Inl e \<Rightarrow> (Inl e, rt2)
             | Inr g' \<Rightarrow> (Inr (Some g'), put_round key (note_issue d eff ep perf st1) rt2))"
        using unfolded [symmetric] False Inr e
        by (cases "allows_draft d") (simp_all add: Let_def st1_def rt1_def eff_def g_def split: sum.split)
      consider (refused) "r = Inr None" "rt' = rt1" | (invalid) x where "r = Inl x" "rt' = rt2"
        | (issued) "r = Inr (Some g)" "rt' = put_round key (note_issue d eff ep perf st1) rt2"
        using out by (auto split: if_splits sum.splits dest: grant_new_Inr)
      then show ?thesis
      proof cases
        case refused
        then show ?thesis using False ov
          by (auto simp: rt1_def put_round_def issued_round_def st1_def intro!: exI [of _ d])
      next
        case invalid
        then show ?thesis using False ov
          by (auto simp: rounds issued_round_def st1_def intro!: exI [of _ d])
      next
        case issued
        have "eg_tpc_low g = gd_tpc_low d" "eg_tpc_high g = gd_tpc_high d"
            "eg_grant_state g = grant_state_value (gd_state d)"
          by (simp_all add: g_def)
        then have "\<exists>g' eff' ep' perf'. r = Inr (Some g') \<and> note_issue d eff ep perf st1 = note_issue d eff' ep' perf' st1
            \<and> eg_tpc_low g' = gd_tpc_low d \<and> eg_tpc_high g' = gd_tpc_high d
            \<and> eg_grant_state g' = grant_state_value (gd_state d)"
          using issued(1) by (intro exI [of _ g] exI [of _ eff] exI [of _ ep] exI [of _ perf]) simp
        then have "issued_round st r ov (note_issue d eff ep perf st1)"
          using False ov unfolding issued_round_def st1_def by (intro disjI2 exI [of _ d] conjI) simp_all
        with issued show ?thesis by (simp add: put_round_def rounds)
      qed
    qed
  qed
  then show "\<exists>st'. dget (gr_rounds rt') key = Some st' \<and> issued_round st r ov st'"
    and "k \<noteq> key \<Longrightarrow> dget (gr_rounds rt') k = dget (gr_rounds rt) k"
    by blast+
qed

lemma round_note_issue:
  "window (note_issue d eff ep perf st) =
     (if gd_state d = SLACK_FILL \<and> \<not> rg_overlap_open st then Some (gd_tpc_low d, gd_tpc_high d) else window st)"
  by (cases "gd_state d") (simp_all add: note_issue_def window_def Let_def)

lemma note_issue_fields [simp]:
  "rg_outstanding_epoch (note_issue d eff ep perf st) = Some ep"
  "rg_last_decision (note_issue d eff ep perf st) = rg_last_decision st"
  "rg_spec_cnt (note_issue d eff ep perf st) = rg_spec_cnt st"
  by (cases "gd_state d"; simp add: note_issue_def Let_def)+

lemma window_last_decision [simp]: "window (st\<lparr>rg_last_decision := x\<rparr>) = window st"
  by (simp add: window_def)

lemma window_None: "window st = None \<longleftrightarrow> \<not> rg_overlap_open st"
  by (simp add: window_def)

text \<open>An attempt on an armed round leaves it armed, and a slack-filling grant has the range of its window.\<close>

lemma armed_issued:
  assumes "armed_round st" "issued_round st r ov st'"
  shows "armed_round st'"
    and "r = Inr (Some g) \<Longrightarrow> eg_grant_state g = ''SLACK_FILL'' \<Longrightarrow> window st' = Some (eg_tpc_low g, eg_tpc_high g)"
    and "window st = Some w \<Longrightarrow> window st' = Some w"
proof -
  have closed: "window st = None" if "rg_outstanding_epoch st = None"
    using assms(1) that by (cases "window st") (auto simp: armed_round_def)
  show "armed_round st'"
    using assms closed by (auto simp: issued_round_def armed_round_def round_note_issue split: if_splits)
  show "window st' = Some (eg_tpc_low g, eg_tpc_high g)" if "r = Inr (Some g)" "eg_grant_state g = ''SLACK_FILL''"
    using assms(2) closed that by (fastforce simp: issued_round_def round_note_issue window_None)
  show "window st' = Some w" if "window st = Some w"
    using assms(2) closed that by (auto simp: issued_round_def round_note_issue)
qed

text \<open>A refill of an open window keeps the window and grants its range.\<close>

lemma refill_issued:
  assumes "issued_round st r (Some (frozen_decision st)) st'" "rg_overlap_open st"
  shows "window st' = window st"
    and "r = Inr (Some g) \<Longrightarrow> window st = Some (eg_tpc_low g, eg_tpc_high g)"
proof -
  have "window st = Some (rg_overlap_tpc_low st, rg_overlap_tpc_high st)"
    using assms(2) by (simp add: window_def)
  then show "window st' = window st"
    and "r = Inr (Some g) \<Longrightarrow> window st = Some (eg_tpc_low g, eg_tpc_high g)"
    using assms by (auto simp: issued_round_def round_note_issue) (simp_all add: frozen_decision_def)
qed

section \<open>The initial grants of a batch\<close>

text \<open>What a step of the initial loop preserves: armed rounds, and the windows that grants so far opened.\<close>

definition covered :: "round_key set \<Rightarrow> execution_grant list \<Rightarrow> grant_runtime \<Rightarrow> bool" where
  "covered K gs rt \<longleftrightarrow> (\<forall>g \<in> set gs. eg_grant_state g = ''SLACK_FILL'' \<longrightarrow>
     (\<exists>k \<in> K. \<exists>st. dget (gr_rounds rt) k = Some st \<and> window st = Some (eg_tpc_low g, eg_tpc_high g)))"

lemma note_baseline_rounds [simp]: "gr_rounds (note_baseline k rt) = gr_rounds rt"
  by (auto simp: note_baseline_def split: option.splits)

lemma initial_one_armed:
  assumes "armed K rt" "key \<in> K" and run: "initial_one now perf key rt = (r, rt')"
  shows "armed K rt'"
    and "covered K gs rt \<Longrightarrow> covered K gs rt'"
    and "r = Inr (Some g) \<Longrightarrow> covered K [g] rt'"
proof -
  have "armed K rt' \<and> (\<forall>gs. covered K gs rt \<longrightarrow> covered K gs rt') \<and> (\<forall>g. r = Inr (Some g) \<longrightarrow> covered K [g] rt')"
  proof (cases "dget (gr_rounds rt) key")
    case None
    with run assms(1) show ?thesis by (auto simp: initial_one_def)
  next
    case (Some st)
    have st: "armed_round st" "rg_spec_cnt st \<le> 0 \<longrightarrow> window st = None" using assms(1,2) Some unfolding armed_def by blast+
    obtain st' where st': "dget (gr_rounds rt') key = Some st'" "armed_round st'"
        "rg_spec_cnt st' \<le> 0 \<longrightarrow> window st' = None"
        "\<forall>w. window st = Some w \<longrightarrow> window st' = Some w"
        "\<forall>g. r = Inr (Some g) \<longrightarrow> eg_grant_state g = ''SLACK_FILL'' \<longrightarrow> window st' = Some (eg_tpc_low g, eg_tpc_high g)"
        "\<forall>k. k \<noteq> key \<longrightarrow> dget (gr_rounds rt') k = dget (gr_rounds rt) k"
    proof (cases "rg_spec_cnt st \<le> 0")
      case True
      have out: "r = Inr None" "rt' = put_round key
          (st\<lparr>rg_last_decision := Some (decision_exclusive ''initial_prefill_wait_only'')\<rparr>) rt"
        using run Some True by (simp_all add: initial_one_def)
      let ?st = "st\<lparr>rg_last_decision := Some (decision_exclusive ''initial_prefill_wait_only'')\<rparr>"
      have "dget (gr_rounds rt') key = Some ?st" "\<forall>k. k \<noteq> key \<longrightarrow> dget (gr_rounds rt') k = dget (gr_rounds rt) k"
        by (simp_all add: out put_round_def)
      moreover have "window ?st = None" "window st = None" using st(2) True by simp_all
      ultimately show ?thesis
        using out(1) by (intro that [of ?st]) (simp_all add: armed_round_def)
    next
      case False
      obtain r1 rt1 where i: "issue now perf key st False None None rt = (r1, rt1)" by force
      have out: "r = r1" "gr_rounds rt' = gr_rounds rt1"
        using run Some False i by (auto simp: initial_one_def split: sum.splits option.splits)
      obtain st1 where st1: "dget (gr_rounds rt1) key = Some st1" "issued_round st r1 None st1"
        using issue_round(1) [OF Some i] by blast
      have "rg_spec_cnt st1 = rg_spec_cnt st"
        using st1(2) by (auto simp: issued_round_def)
      then show ?thesis
        using armed_issued [OF st(1) st1(2)] issue_round(2) [OF Some i] st1(1) out False
        by (intro that [of st1]) simp_all
    qed
    show ?thesis
    proof (intro conjI allI impI)
      show "armed K rt'"
        using assms(1) st'(1,2,3,6) unfolding armed_def by (metis option.inject)
      show "covered K gs rt'" if "covered K gs rt" for gs
        using that st'(1,4,6) Some unfolding covered_def by (metis option.inject)
      show "covered K [g] rt'" if "r = Inr (Some g)" for g
        using that st'(1,5) assms(2) unfolding covered_def by auto
    qed
  qed
  then show "armed K rt'" "covered K gs rt \<Longrightarrow> covered K gs rt'" "r = Inr (Some g) \<Longrightarrow> covered K [g] rt'"
    by blast+
qed

lemma initial_loop_armed:
  "grant_loop (initial_one now perf) ks rt = (Inr gs, rt') \<Longrightarrow> armed K rt \<Longrightarrow> set ks \<subseteq> K \<Longrightarrow>
   armed K rt' \<and> covered K gs rt' \<and> (\<forall>gs0. covered K gs0 rt \<longrightarrow> covered K gs0 rt')"
proof (induction ks arbitrary: rt gs)
  case Nil
  then show ?case by (simp add: covered_def)
next
  case (Cons k ks)
  obtain r rt1 where one: "initial_one now perf k rt = (r, rt1)" by force
  from Cons.prems(1) one obtain m ms where r: "r = Inr m" and rest: "grant_loop (initial_one now perf) ks rt1 = (Inr ms, rt')"
    and gs: "gs = (case m of None \<Rightarrow> ms | Some g \<Rightarrow> g # ms)"
    by (auto split: sum.splits prod.splits)
  note step = initial_one_armed [OF Cons.prems(2) _ one]
  have k: "k \<in> K" using Cons.prems(3) by simp
  from Cons.IH [OF rest step(1) [OF k]] Cons.prems(3)
  have IH: "armed K rt'" "covered K ms rt'" "\<And>gs0. covered K gs0 rt1 \<Longrightarrow> covered K gs0 rt'" by auto
  have "covered K gs rt'"
  proof (cases m)
    case (Some g)
    then have "covered K [g] rt'" using IH(3) step(3) [OF k] r by simp
    with IH(2) Some show ?thesis by (simp add: gs covered_def)
  qed (use IH(2) gs in simp)
  with IH step(2) [OF k] show ?case by blast
qed

lemma register_fresh:
  "py_for reqs (register_one q shape bs ctx slack) rt = (Inr (), rt') \<Longrightarrow>
   (k \<in> request_key ` set reqs \<longrightarrow> (\<exists>st. dget (gr_rounds rt') k = Some st \<and> window st = None))
   \<and> (k \<notin> request_key ` set reqs \<longrightarrow> dget (gr_rounds rt') k = dget (gr_rounds rt) k)"
proof (induction reqs arbitrary: rt)
  case (Cons r reqs)
  obtain rt1 where rt1: "register_round (gq_rid r) (gq_spec_cnt r) q shape bs ctx slack rt = Inr rt1"
    and rest: "py_for reqs (register_one q shape bs ctx slack) rt1 = (Inr (), rt')"
    using Cons.prems by (auto simp: py_bind_def register_one_def [of q shape bs ctx slack r] split: sum.splits)
  have "dget (gr_rounds rt1) k = (if k = request_key r
      then Some (round_new (gq_rid r) (gq_spec_cnt r) q shape bs ctx slack) else dget (gr_rounds rt) k)"
    using rt1 by (auto simp: register_round_def request_key_def split: if_splits)
  moreover have "window (round_new (gq_rid r) (gq_spec_cnt r) q shape bs ctx slack) = None"
    by (simp add: window_def round_new_def)
  ultimately show ?case using Cons.IH [OF rest] by auto
qed (simp add: py_return_def)

definition batch_keys :: "grant_req list \<Rightarrow> round_key set" where
  "batch_keys reqs = request_key ` {r \<in> set reqs. \<not> is_health_check_req (gq_rid r)}"

lemma prepare_armed:
  assumes "prepare_grants now perf reqs q tc = (Inr gs, tc')" "tc_grants tc' = Some rt'"
  shows "armed (batch_keys reqs) rt' \<and> covered (batch_keys reqs) gs rt'"
proof -
  let ?rs = "filter (\<lambda>r. \<not> is_health_check_req (gq_rid r)) reqs"
  obtain rt where rt: "tc_grants tc = Some rt" and run: "register_grant_reqs now perf ?rs q (tc_slack tc) rt = (Inr gs, rt')"
    using assms by (auto simp: prepare_grants_def with_grants_def split: option.splits prod.splits)
  have keys: "batch_keys reqs = request_key ` set ?rs" by (simp add: batch_keys_def)
  show ?thesis
  proof (cases "?rs = []")
    case True
    then have "batch_keys reqs = {}" unfolding keys by simp
    then show ?thesis using run True by (simp add: register_grant_reqs_def armed_def covered_def)
  next
    case False
    then obtain rt1 shape bs ctx slack where reg: "py_for ?rs (register_one q shape bs ctx slack) rt = (Inr (), rt1)"
      and init: "initial_grants now perf (map request_key ?rs) rt1 = (Inr gs, rt')"
      using run by (auto simp: register_grant_reqs_def Let_def py_bind_def split: sum.splits prod.splits)
    let ?rt = "rt1\<lparr>gr_active_overlap_baselines_ms := []\<rparr>"
    have "armed (batch_keys reqs) ?rt"
      using register_fresh [OF reg] unfolding keys armed_def armed_round_def by fastforce
    from initial_loop_armed [OF _ this, of now perf "map request_key ?rs" gs rt'] init keys show ?thesis
      by (simp add: initial_grants_def)
  qed
qed

section \<open>While the forward pass runs\<close>

text \<open>
  Acknowledgements arrive and windows are refilled, also by a call that raises.  Acknowledgements
  carry no sampling parameters, so their payload is \<open>unit\<close>.
\<close>

inductive forward_phase ::
  "round_key set \<Rightarrow> 'k target_control \<Rightarrow> execution_grant list \<Rightarrow> 'k target_control \<Rightarrow> bool" for K tc where
  phase_start: "forward_phase K tc [] tc"
| phase_ack: "forward_phase K tc gs tc1 \<Longrightarrow> acknowledge_grant perf (msg :: unit spectre_request) tc1 = (b, tc2) \<Longrightarrow>
    forward_phase K tc gs tc2"
| phase_refill: "forward_phase K tc gs tc1 \<Longrightarrow> set ks \<subseteq> K \<Longrightarrow> rt_overlap_grants now perf ks tc1 = (Inr gs1, tc2) \<Longrightarrow>
    forward_phase K tc (gs @ gs1) tc2"
| phase_raise: "forward_phase K tc gs tc1 \<Longrightarrow> set ks \<subseteq> K \<Longrightarrow> rt_overlap_grants now perf ks tc1 = (Inl e, tc2) \<Longrightarrow>
    forward_phase K tc gs tc2"

lemma acknowledge_windows:
  assumes "acknowledge perf msg rt = (b, rt')"
  shows "open_window rt' = open_window rt"
proof (rule ext)
  fix k show "open_window rt' k = open_window rt k"
    using assms unfolding acknowledge_def Let_def put_round_def
    by (auto simp: open_window_def window_def split: if_splits option.splits)
qed

lemma overlap_one_windows:
  assumes "overlap_one now perf key rt = (r, rt')"
  shows "open_window rt' = open_window rt"
    and "r = Inr (Some g) \<Longrightarrow> open_window rt key = Some (eg_tpc_low g, eg_tpc_high g)"
proof -
  have "open_window rt' = open_window rt
    \<and> (\<forall>g. r = Inr (Some g) \<longrightarrow> open_window rt key = Some (eg_tpc_low g, eg_tpc_high g))"
  proof (cases "(r, rt') = (Inr None, rt)")
    case False
    obtain st where st: "dget (gr_rounds rt) key = Some st" "rg_overlap_open st"
      and i: "issue now perf key st False (rg_overlap_deadline_us st) (Some (frozen_decision st)) rt = (r, rt')"
      using assms(1) False by (auto simp: overlap_one_def split: option.splits if_splits)
    obtain st' where st': "dget (gr_rounds rt') key = Some st'" "issued_round st r (Some (frozen_decision st)) st'"
      using issue_round(1) [OF st(1) i] by blast
    note refill = refill_issued [OF st'(2) st(2)]
    have "open_window rt' k = open_window rt k" for k
      using refill(1) st(1) st'(1) issue_round(2) [OF st(1) i, of k]
      by (cases "k = key") (simp_all add: open_window_def)
    with refill(2) st(1) show ?thesis by (auto simp: open_window_def)
  qed auto
  then show "open_window rt' = open_window rt"
    "r = Inr (Some g) \<Longrightarrow> open_window rt key = Some (eg_tpc_low g, eg_tpc_high g)" by blast+
qed

lemma overlap_loop_windows:
  "grant_loop (overlap_one now perf) ks rt = (r, rt') \<Longrightarrow>
   open_window rt' = open_window rt
   \<and> (\<forall>gs. r = Inr gs \<longrightarrow> (\<forall>g \<in> set gs. \<exists>k \<in> set ks. open_window rt k = Some (eg_tpc_low g, eg_tpc_high g)))"
proof (induction ks arbitrary: rt r rt')
  case (Cons k ks)
  obtain r1 rt1 where one: "overlap_one now perf k rt = (r1, rt1)" by force
  note step = overlap_one_windows [OF one]
  show ?case
  proof (cases r1)
    case (Inl e)
    then show ?thesis using Cons.prems one step(1) by auto
  next
    case (Inr m)
    obtain r2 rt2 where rest: "grant_loop (overlap_one now perf) ks rt1 = (r2, rt2)" by force
    from Cons.IH [OF rest] step Cons.prems one Inr rest show ?thesis
      by (cases m) (auto split: sum.splits)
  qed
qed simp

definition control_window :: "'k target_control \<Rightarrow> round_key \<Rightarrow> (int \<times> int) option" where
  "control_window tc k = Option.bind (tc_grants tc) (\<lambda>rt. open_window rt k)"

definition target_side :: "'k target_control \<Rightarrow> sm_controller option \<times> (int \<times> int) option \<times> tpc_partition option \<times> int" where
  "target_side tc = (tc_smctrl tc, tc_last_range tc, tc_partition tc, tc_total_tpcs tc)"

lemma refill_control:
  assumes "rt_overlap_grants now perf ks tc = (r, tc')"
  shows "control_window tc' = control_window tc" "target_side tc' = target_side tc"
    and "r = Inr gs \<Longrightarrow> g \<in> set gs \<Longrightarrow> \<exists>k \<in> set ks. control_window tc k = Some (eg_tpc_low g, eg_tpc_high g)"
proof -
  have "control_window tc' = control_window tc \<and> target_side tc' = target_side tc
    \<and> (\<forall>gs. r = Inr gs \<longrightarrow> (\<forall>g \<in> set gs. \<exists>k \<in> set ks. control_window tc k = Some (eg_tpc_low g, eg_tpc_high g)))"
  proof (cases "tc_grants tc")
    case None
    then show ?thesis using assms by (auto simp: rt_overlap_grants_def with_grants_def)
  next
    case (Some rt)
    obtain rt' where "grant_loop (overlap_one now perf) ks rt = (r, rt')" "tc' = tc\<lparr>tc_grants := Some rt'\<rparr>"
      using assms Some by (auto simp: rt_overlap_grants_def with_grants_def overlap_grants_def split: prod.splits)
    with overlap_loop_windows [OF this(1)] Some show ?thesis
      by (simp add: control_window_def target_side_def fun_eq_iff)
  qed
  then show "control_window tc' = control_window tc" "target_side tc' = target_side tc"
    "r = Inr gs \<Longrightarrow> g \<in> set gs \<Longrightarrow> \<exists>k \<in> set ks. control_window tc k = Some (eg_tpc_low g, eg_tpc_high g)"
    by blast+
qed

lemma acknowledge_control:
  assumes "acknowledge_grant perf msg tc = (b, tc')"
  shows "control_window tc' = control_window tc" "target_side tc' = target_side tc"
proof -
  have "control_window tc' = control_window tc \<and> target_side tc' = target_side tc"
  proof (cases "tc_grants tc")
    case None
    then show ?thesis using assms by (simp add: acknowledge_grant_def)
  next
    case (Some rt)
    obtain b' rt' where "acknowledge perf msg rt = (b', rt')" by force
    with assms Some acknowledge_windows [OF this] show ?thesis
      by (auto simp: acknowledge_grant_def control_window_def target_side_def)
  qed
  then show "control_window tc' = control_window tc" "target_side tc' = target_side tc" by blast+
qed

text \<open>During the pass the windows and the Target's side stay as they are, and every refill is one of the windows.\<close>

lemma forward_phase_windows:
  assumes "forward_phase K tc gs tc'"
  shows "control_window tc' = control_window tc \<and> target_side tc' = target_side tc
    \<and> (\<forall>g \<in> set gs. \<exists>k \<in> K. control_window tc k = Some (eg_tpc_low g, eg_tpc_high g))"
  using assms
proof (induction rule: forward_phase.induct)
  case (phase_ack gs tc1 perf msg b tc2)
  then show ?case using acknowledge_control [OF phase_ack(2)] by simp
next
  case (phase_refill gs tc1 ks now perf gs1 tc2)
  then show ?case
    using refill_control(1,2) [OF phase_refill(3)] refill_control(3) [OF phase_refill(3) refl] by fastforce
next
  case (phase_raise gs tc1 ks now perf e tc2)
  then show ?case using refill_control(1,2) [OF phase_raise(3)] by simp
qed simp

section \<open>The Target's mask\<close>

text \<open>
  The cached range is the one in force: the mask of the process enables exactly the TPCs of
  \<open>_last_target_tpc_range\<close>.
\<close>

definition mask_ok :: "'k target_control \<Rightarrow> bool" where
  "mask_ok tc \<longleftrightarrow> (\<forall>smc. tc_smctrl tc = Some smc \<longrightarrow>
     smc_mask_scope smc = ''global'' \<and> smc_stream_masks smc = [] \<and> smc_total_tpcs smc = tc_total_tpcs tc
   \<and> tc_total_tpcs tc \<le> 64
   \<and> (\<exists>low high m. tc_last_range tc = Some (low, high) \<and> smc_global_mask smc = Some m
        \<and> (\<forall>i. tpc_enabled (Mask64 m) i \<longleftrightarrow> low \<le> int i \<and> int i < high)))"

lemma mask_ok_partition [simp]: "mask_ok (tc\<lparr>tc_partition := x\<rparr>) = mask_ok tc"
  by (simp add: mask_ok_def del: tpc_enabled.simps)

lemma set_global_mask:
  assumes "smc_mask_scope smc = ''global''" "smc_stream_masks smc = []" "smc_total_tpcs smc \<le> 64"
    and "0 \<le> low" "low < high" "high \<le> smc_total_tpcs smc"
  shows "\<exists>m. set_stream_mask sm stream low high smc = (Inr (), smc\<lparr>smc_global_mask := Some m\<rparr>)
     \<and> (\<forall>i. tpc_enabled (Mask64 m) i \<longleftrightarrow> low \<le> int i \<and> int i < high)"
proof -
  have "set_stream_mask sm stream low high smc
      = (Inr (), smc\<lparr>smc_global_mask := Some (make_mask (nat low) (nat high))\<rparr>)"
    using assms by (simp add: set_stream_mask_def validate_range_def Let_def)
  moreover have "nat high \<le> 64" using assms by linarith
  moreover have "nat low \<le> i \<and> i < nat high \<longleftrightarrow> low \<le> int i \<and> int i < high" for i
    using assms(4) by linarith
  ultimately show ?thesis by (metis enabled_make_mask64)
qed

lemma set_target_range_ok:
  assumes "mask_ok tc" "tc_smctrl tc \<noteq> None" "0 \<le> low" "low < high" "high \<le> tc_total_tpcs tc"
  shows "\<exists>smc. set_target_tpc_range env low high tc
        = (Inr (), tc\<lparr>tc_smctrl := Some smc, tc_last_range := Some (low, high)\<rparr>)
     \<and> mask_ok (tc\<lparr>tc_smctrl := Some smc, tc_last_range := Some (low, high)\<rparr>)"
proof -
  obtain smc where smc: "tc_smctrl tc = Some smc" using assms(2) by blast
  note ok = assms(1) [unfolded mask_ok_def, rule_format, OF smc]
  show ?thesis
  proof (cases "tc_last_range tc = Some (low, high)")
    case True
    have eq: "tc\<lparr>tc_smctrl := Some smc, tc_last_range := Some (low, high)\<rparr> = tc"
      using smc True by (cases tc) simp
    show ?thesis
      by (rule exI [of _ smc]) (simp add: eq set_target_tpc_range_def smc True assms(1))
  next
    case False
    obtain m where "set_stream_mask (ce_sm env) (ce_stream env) low high smc = (Inr (), smc\<lparr>smc_global_mask := Some m\<rparr>)"
      and "\<forall>i. tpc_enabled (Mask64 m) i \<longleftrightarrow> low \<le> int i \<and> int i < high"
      using set_global_mask [of smc low high "ce_sm env" "ce_stream env"] ok assms(3-5) by auto
    then show ?thesis
      using smc False ok
      by (intro exI [of _ "smc\<lparr>smc_global_mask := Some m\<rparr>"])
        (simp add: set_target_tpc_range_def mask_ok_def del: tpc_enabled.simps)
  qed
qed

lemma control_new_mask_ok:
  assumes "control_new env c kg tp_rank tp_size = Inr tc"
  shows "mask_ok tc"
proof -
  obtain smc tot last where new: "smctrl_new env c = Inr (smc, tot, last)"
    and tc: "tc_smctrl tc = smc" "tc_total_tpcs tc = tot" "tc_last_range tc = last"
    using assms by (auto simp: control_new_def res_simps Let_def)
  show ?thesis
  proof (cases smc)
    case (Some s)
    obtain s0 where s0: "sm_controller_new (ce_sm env) (if cf_smctrl_library c = [] then None else Some (cf_smctrl_library c))
          None ''global'' = Inr s0" "\<not> 64 < smc_total_tpcs s0" "tot = smc_total_tpcs s0" "last = Some (0, tot)"
      and set: "set_stream_mask (ce_sm env) (ce_stream env) 0 (smc_total_tpcs s0) s0 = (Inr (), s)"
    proof -
      let ?lib = "if cf_smctrl_library c = [] then None else Some (cf_smctrl_library c)"
      have "rbind (sm_controller_new (ce_sm env) ?lib None ''global'') (\<lambda>smc.
          let tot = smc_total_tpcs smc in if 64 < tot then Inl RuntimeError
          else (case set_stream_mask (ce_sm env) (ce_stream env) 0 tot smc of
             (Inl e, _) \<Rightarrow> Inl e | (Inr _, smc1) \<Rightarrow> Inr (Some smc1, tot, Some (0, tot)))) = Inr (Some s, tot, last)"
        using new Some unfolding smctrl_new_def by (simp split: if_split_asm)
      then obtain s0 where s0: "sm_controller_new (ce_sm env) ?lib None ''global'' = Inr s0"
        and body: "(let tot = smc_total_tpcs s0 in if 64 < tot then Inl RuntimeError
          else (case set_stream_mask (ce_sm env) (ce_stream env) 0 tot s0 of
             (Inl e, _) \<Rightarrow> Inl e | (Inr _, smc1) \<Rightarrow> Inr (Some smc1, tot, Some (0, tot)))) = Inr (Some s, tot, last)"
        unfolding rbind_Inr_iff by blast
      obtain r1 s1 where "set_stream_mask (ce_sm env) (ce_stream env) 0 (smc_total_tpcs s0) s0 = (r1, s1)" by force
      with body s0 show ?thesis by (intro that [of s0]) (auto simp: Let_def split: if_splits sum.splits)
    qed
    have "smc_mask_scope s0 = ''global''" "smc_stream_masks s0 = []" "1 \<le> smc_total_tpcs s0"
      using s0(1) by (auto simp: sm_controller_new_def get_tpc_count_def res_simps Let_def split: prod.splits if_splits)
    then obtain m where "s = s0\<lparr>smc_global_mask := Some m\<rparr>"
      "\<forall>i. tpc_enabled (Mask64 m) i \<longleftrightarrow> 0 \<le> int i \<and> int i < smc_total_tpcs s0"
      using set_global_mask [of s0 0 "smc_total_tpcs s0" "ce_sm env" "ce_stream env"] set s0(2) by auto
    then show ?thesis
      using tc Some s0 \<open>smc_mask_scope s0 = _\<close> \<open>smc_stream_masks s0 = _\<close>
      by (simp add: mask_ok_def del: tpc_enabled.simps)
  qed (simp add: mask_ok_def tc)
qed

section \<open>No grant reaches the Target's TPCs\<close>

text \<open>Every open window of the batch is among the ranges the partition is computed from.\<close>

lemma armed_ranges:
  assumes "armed (batch_keys reqs) rt" "k \<in> batch_keys reqs" "open_window rt k = Some w"
  shows "w \<in> set (List.map_filter (slack_fill_range rt) reqs)"
proof -
  obtain r where r: "r \<in> set reqs" "\<not> is_health_check_req (gq_rid r)" "k = request_key r"
    using assms(2) by (auto simp: batch_keys_def)
  obtain st where st: "dget (gr_rounds rt) k = Some st" "window st = Some w"
    using assms(3) by (auto simp: open_window_def bind_eq_Some_conv)
  have "armed_round st" using assms(1,2) st(1) unfolding armed_def by blast
  with st(2) obtain e d where d: "rg_outstanding_epoch st = Some e" "rg_last_decision st = Some d"
      "gd_state d = SLACK_FILL" "(gd_tpc_low d, gd_tpc_high d) = w"
    unfolding armed_round_def by blast
  have "slack_fill_range rt r = Some w"
    using r st(1) d by (simp add: slack_fill_range_def state_for_def request_key_def)
  with r(1) show ?thesis by (force simp: map_filter_def)
qed

lemma partition_target_range:
  assumes "build_complementary_tpc_partition tot ranges = Inr (Some p)"
  shows "0 \<le> tp_target_low p" "tp_target_low p < tp_target_high p" "tp_target_high p \<le> tot"
proof -
  note parts = partition_split [OF assms]
  show nonempty: "tp_target_low p < tp_target_high p" using parts by (simp add: target_tpcs_def)
  have "{tp_target_low p ..< tp_target_high p} \<subseteq> {0 ..< tot}" using parts by blast
  with nonempty show "0 \<le> tp_target_low p" "tp_target_high p \<le> tot" by simp_all
qed

lemma begin_partition:
  assumes "mask_ok tc" "begin_target_partition env md reqs tc = (Inr True, tc')"
  obtains p smc where "build_complementary_tpc_partition (tc_total_tpcs tc) (active_slack_fill_draft_ranges reqs tc) = Inr (Some p)"
    and "tc_smctrl tc' = Some smc" "tc_partition tc' = Some p" "tc_total_tpcs tc' = tc_total_tpcs tc"
    and "tc_grants tc' = tc_grants tc" "tc_last_range tc' = Some (tp_target_low p, tp_target_high p)" "mask_ok tc'"
proof -
  obtain p where p: "build_complementary_tpc_partition (tc_total_tpcs tc) (active_slack_fill_draft_ranges reqs tc) = Inr (Some p)"
    and some: "tc_smctrl tc \<noteq> None"
    and run: "py_bind (set_target_tpc_range env (tp_target_low p) (tp_target_high p))
               (\<lambda>_ tc1. (Inr True, tc1\<lparr>tc_partition := Some p\<rparr>)) tc = (Inr True, tc')"
    using assms(2) unfolding begin_target_partition_def by (auto split: if_splits sum.splits option.splits)
  have range: "0 \<le> tp_target_low p" "tp_target_low p < tp_target_high p" "tp_target_high p \<le> tc_total_tpcs tc"
    by (rule partition_target_range [OF p])+
  obtain smc where set: "set_target_tpc_range env (tp_target_low p) (tp_target_high p) tc
        = (Inr (), tc\<lparr>tc_smctrl := Some smc, tc_last_range := Some (tp_target_low p, tp_target_high p)\<rparr>)"
     and ok: "mask_ok (tc\<lparr>tc_smctrl := Some smc, tc_last_range := Some (tp_target_low p, tp_target_high p)\<rparr>)"
    using set_target_range_ok [OF assms(1) some range] by blast
  have tc': "tc' = tc\<lparr>tc_smctrl := Some smc, tc_last_range := Some (tp_target_low p, tp_target_high p),
      tc_partition := Some p\<rparr>"
    using run by (simp add: py_bind_def set)
  show ?thesis
    by (rule that [of p smc]) (simp_all add: tc' p ok)
qed

text \<open>
  C10: No grant reaches the Target's TPCs.  After the initial grants of a batch and a partition
  computed from them, whatever acknowledgements arrive and refills are sent while the forward pass
  runs, the TPCs enabled for the Target are disjoint from the range of every slack-filling grant
  outstanding or issued, the Target keeps some TPCs, and ending the partition gives it all of them back.
\<close>

theorem drafter_stays_off_target_tpcs:
  fixes tc0 :: "'k target_control"
  assumes "mask_ok tc0"
    and "prepare_grants now perf reqs q tc0 = (Inr gs0, tc1)"
    and "begin_target_partition env md reqs tc1 = (Inr True, tc2)"
    and "forward_phase (batch_keys reqs) tc2 gs tc3"
  shows "\<exists>smc m. tc_smctrl tc3 = Some smc \<and> effective_mask smc stream = Some m
     \<and> (\<exists>i. tpc_enabled m i)
     \<and> (\<forall>g \<in> set gs \<union> {g \<in> set gs0. eg_grant_state g = ''SLACK_FILL''}. \<forall>i.
          eg_tpc_low g \<le> int i \<and> int i < eg_tpc_high g \<longrightarrow> \<not> tpc_enabled m i)
     \<and> (\<exists>tc4 smc4 m4. end_target_partition env tc3 = (Inr (), tc4) \<and> tc_smctrl tc4 = Some smc4
          \<and> effective_mask smc4 stream = Some m4
          \<and> (\<forall>i. tpc_enabled m4 i \<longleftrightarrow> int i < tc_total_tpcs tc3))"
proof -
  have same: "tc_smctrl tc1 = tc_smctrl tc0" "tc_last_range tc1 = tc_last_range tc0" "tc_total_tpcs tc1 = tc_total_tpcs tc0"
    using assms(2) by (auto simp: prepare_grants_def with_grants_def split: option.splits prod.splits)
  have ok1: "mask_ok tc1" using assms(1) by (simp add: mask_ok_def same)
  obtain p smc where p: "build_complementary_tpc_partition (tc_total_tpcs tc1) (active_slack_fill_draft_ranges reqs tc1) = Inr (Some p)"
    and tc2: "tc_smctrl tc2 = Some smc" "tc_partition tc2 = Some p" "tc_total_tpcs tc2 = tc_total_tpcs tc1"
      "tc_grants tc2 = tc_grants tc1" "tc_last_range tc2 = Some (tp_target_low p, tp_target_high p)" "mask_ok tc2"
    by (rule begin_partition [OF ok1 assms(3)])
  note parts = partition_split [OF p] and target = partition_target_range [OF p]
  have phase: "control_window tc3 = control_window tc2" "target_side tc3 = target_side tc2"
      "\<forall>g \<in> set gs. \<exists>k \<in> batch_keys reqs. control_window tc2 k = Some (eg_tpc_low g, eg_tpc_high g)"
    using forward_phase_windows [OF assms(4)] by blast+
  obtain rt where rt: "tc_grants tc1 = Some rt"
    using p by (cases "tc_grants tc1")
      (auto simp: active_slack_fill_draft_ranges_def build_complementary_tpc_partition_def split: if_splits)
  have armed: "armed (batch_keys reqs) rt" "covered (batch_keys reqs) gs0 rt"
    using prepare_armed [OF assms(2) rt] by blast+
  have draft: "{fst w ..< snd w} \<subseteq> {tp_draft_low p ..< tp_draft_high p}"
    if "k \<in> batch_keys reqs" "open_window rt k = Some w" for k w
    using parts armed_ranges [OF armed(1) that] rt
    by (fastforce simp: active_slack_fill_draft_ranges_def)
  have tc3: "tc_smctrl tc3 = Some smc" "tc_partition tc3 = Some p" "tc_total_tpcs tc3 = tc_total_tpcs tc1"
      "tc_last_range tc3 = Some (tp_target_low p, tp_target_high p)"
    using phase(2) tc2 by (simp_all add: target_side_def)
  then have ok3: "mask_ok tc3" using tc2 by (simp add: mask_ok_def)
  obtain m where m: "effective_mask smc stream = Some (Mask64 m)"
      "\<forall>i. tpc_enabled (Mask64 m) i \<longleftrightarrow> tp_target_low p \<le> int i \<and> int i < tp_target_high p"
    using ok3 tc3 by (auto simp: mask_ok_def effective_mask_def simp del: tpc_enabled.simps)
  have window: "\<exists>k \<in> batch_keys reqs. open_window rt k = Some (eg_tpc_low g, eg_tpc_high g)"
    if "g \<in> set gs \<union> {g \<in> set gs0. eg_grant_state g = ''SLACK_FILL''}" for g
    using that phase(3) armed(2) tc2(4) rt
    by (fastforce simp: control_window_def covered_def open_window_def bind_eq_Some_conv)
  have "\<not> tpc_enabled (Mask64 m) i"
    if "g \<in> set gs \<union> {g \<in> set gs0. eg_grant_state g = ''SLACK_FILL''}"
      "eg_tpc_low g \<le> int i \<and> int i < eg_tpc_high g" for g i
  proof -
    have "int i \<in> {tp_draft_low p ..< tp_draft_high p}"
      using window [OF that(1)] draft that(2) by fastforce
    then show ?thesis using parts m(2) by fastforce
  qed
  moreover have "tpc_enabled (Mask64 m) (nat (tp_target_low p))"
    using m(2) target by simp
  moreover have "\<exists>tc4 smc4 m4. end_target_partition env tc3 = (Inr (), tc4) \<and> tc_smctrl tc4 = Some smc4
          \<and> effective_mask smc4 stream = Some m4 \<and> (\<forall>i. tpc_enabled m4 i \<longleftrightarrow> int i < tc_total_tpcs tc3)"
  proof -
    obtain smc4 where run: "set_target_tpc_range env 0 (tc_total_tpcs tc3) tc3
          = (Inr (), tc3\<lparr>tc_smctrl := Some smc4, tc_last_range := Some (0, tc_total_tpcs tc3)\<rparr>)"
       and ok4: "mask_ok (tc3\<lparr>tc_smctrl := Some smc4, tc_last_range := Some (0, tc_total_tpcs tc3)\<rparr>)"
      using set_target_range_ok [OF ok3, of 0 "tc_total_tpcs tc3" env] tc3 target by auto
    obtain m4 where "effective_mask smc4 stream = Some (Mask64 m4)"
        "\<forall>i. tpc_enabled (Mask64 m4) i \<longleftrightarrow> int i < tc_total_tpcs tc3"
      using ok4 by (auto simp: mask_ok_def effective_mask_def simp del: tpc_enabled.simps)
    with run tc3 show ?thesis by (simp add: end_target_partition_def py_bind_def del: tpc_enabled.simps)
  qed
  ultimately show ?thesis using tc3(1) m(1) by blast
qed

definition demo_sm :: sm_controller where
  "demo_sm = \<lparr> smc_device_index = 0, smc_mask_scope = ''global'', smc_total_tpcs = 60,
     smc_global_mask = Some (make_mask 0 60), smc_stream_masks = [] \<rparr>"

definition demo_grants :: grant_runtime where
  "demo_grants = runtime_new \<lparr> gc_profile = None, gc_target_slowdown_budget = 0, gc_guard_us = 0,
     gc_calibration_tpcs = 4, gc_calibration_allow_overlap = True, gc_force_exclusive = False, gc_force_reason = [] \<rparr>"

definition demo_slack :: slack_profiler where
  "demo_slack = \<lparr> sp_alpha = default_alpha, sp_phase_ms = [], sp_draft_step_ms = 0, sp_samples = 0,
     sp_last_phase = ''unknown'' \<rparr>"

definition demo_history :: "nat history_store" where
  "demo_history = \<lparr>hs_max_memory_bytes = 1024, hs_chunk_tokens = 2,
        hs_layer_ids = [0], hs_kv_heads = 1, hs_head_dim = 1,
        hs_element_size = 2, hs_d2h_stream = False,
        hs_next_id = 0, hs_next_event = 0, hs_slabs = [], hs_request_slabs = [],
        hs_bytes_reserved = 0, hs_bytes_used = 0\<rparr>"

definition demo_staging :: "nat staging_pool" where
  "demo_staging = projr (staging_new 2 True True)"

definition demo_tc :: "nat target_control" where
  "demo_tc = \<lparr> tc_config = config_defaults, tc_tp_rank = 0, tc_tp_size = 1, tc_tp_sync_counter = 0,
     tc_smctrl = Some demo_sm, tc_total_tpcs = 60, tc_last_range = Some (0, 60), tc_partition = None,
     tc_history = demo_history, tc_staging = demo_staging, tc_h2d_gbps_ema = 12, tc_shadow_attention = False,
     tc_acceptance = acceptance_new, tc_slack = demo_slack,
     tc_grants = Some demo_grants, tc_controller = None, tc_monitor = None \<rparr>"

definition demo_req :: grant_req where
  "demo_req = \<lparr> gq_rid = ''a'', gq_spec_cnt = 1, gq_origin_len = 100, gq_output_len = 3, gq_has_drafts = True \<rparr>"

definition demo_ack :: "unit spectre_request" where
  "demo_ack = (request_new ''a'' GRANT_ACK DRAFT_REQUEST)
     \<lparr>sr_spec_cnt := Some 1, sr_grant_epoch := Some 1, sr_grant_tokens := Some 1\<rparr>"

lemma demo_mask_ok: "mask_ok demo_tc"
  using enabled_make_mask64 [of 60 0] by (auto simp: mask_ok_def demo_tc_def demo_sm_def simp del: tpc_enabled.simps)

definition demo_prepared :: "nat target_control" where
  "demo_prepared = snd (prepare_grants 0 0 [demo_req] 3 demo_tc)"

definition demo_partitioned :: "nat target_control" where
  "demo_partitioned = snd (begin_target_partition demo_control_env ''parallel'' [demo_req] demo_prepared)"

definition demo_acked :: "nat target_control" where
  "demo_acked = snd (acknowledge_grant 0 demo_ack demo_partitioned)"

definition grant_ranges :: "execution_grant list res \<Rightarrow> (int \<times> int) list option" where
  "grant_ranges r = (case r of Inl _ \<Rightarrow> None | Inr gs \<Rightarrow> Some (map (\<lambda>g. (eg_tpc_low g, eg_tpc_high g)) gs))"

lemma demo_run:
  "grant_ranges (fst (prepare_grants 0 0 [demo_req] 3 demo_tc)) = Some [(0, 4)]"
  "fst (begin_target_partition demo_control_env ''parallel'' [demo_req] demo_prepared) = Inr True"
  "grant_ranges (fst (rt_overlap_grants 0 0 [(''a'', 1)] demo_acked)) = Some [(0, 4)]"
  by code_simp+

lemma grant_rangesE:
  assumes "grant_ranges (fst x) = Some ws" "snd x = t"
  obtains gs where "x = (Inr gs, t)" "map (\<lambda>g. (eg_tpc_low g, eg_tpc_high g)) gs = ws"
  using assms by (cases x) (auto simp: grant_ranges_def split: sum.splits)

text \<open>A grant on the TPCs 0 to 3 is acknowledged and refilled while the Target runs on 4 to 59.\<close>

theorem drafter_stays_off_target_tpcs_witness:
  "\<exists>gs tc smc m. rt_overlap_grants 0 0 [(''a'', 1)] demo_acked = (Inr gs, tc) \<and> length gs = 1
     \<and> tc_smctrl tc = Some smc \<and> effective_mask smc 7 = Some m \<and> \<not> tpc_enabled m 3"
proof -
  obtain gs0 where prep: "prepare_grants 0 0 [demo_req] 3 demo_tc = (Inr gs0, demo_prepared)"
    by (rule grant_rangesE [OF demo_run(1) demo_prepared_def [symmetric]])
  have beg: "begin_target_partition demo_control_env ''parallel'' [demo_req] demo_prepared = (Inr True, demo_partitioned)"
    using demo_run(2) unfolding demo_partitioned_def by (simp add: prod_eq_iff)
  define tc where "tc = snd (rt_overlap_grants 0 0 [(''a'', 1)] demo_acked)"
  obtain gs where gs: "rt_overlap_grants 0 0 [(''a'', 1)] demo_acked = (Inr gs, tc)"
      "map (\<lambda>g. (eg_tpc_low g, eg_tpc_high g)) gs = [(0, 4)]"
    by (rule grant_rangesE [OF demo_run(3) tc_def [symmetric]])
  have "acknowledge_grant 0 demo_ack demo_partitioned = (fst (acknowledge_grant 0 demo_ack demo_partitioned), demo_acked)"
    by (simp add: demo_acked_def)
  from phase_ack [OF phase_start this]
  have "forward_phase (batch_keys [demo_req]) demo_partitioned [] demo_acked" .
  moreover have "set [(''a'', 1)] \<subseteq> batch_keys [demo_req]"
    by (auto simp: batch_keys_def demo_req_def request_key_def is_health_check_req_def image_iff)
  ultimately have "forward_phase (batch_keys [demo_req]) demo_partitioned ([] @ gs) tc"
    using gs(1) by (rule phase_refill)
  then have phase: "forward_phase (batch_keys [demo_req]) demo_partitioned gs tc" by (simp only: append_Nil)
  obtain smc m where m: "tc_smctrl tc = Some smc" "effective_mask smc 7 = Some m"
      "\<forall>g \<in> set gs \<union> {g \<in> set gs0. eg_grant_state g = ''SLACK_FILL''}. \<forall>i.
          eg_tpc_low g \<le> int i \<and> int i < eg_tpc_high g \<longrightarrow> \<not> tpc_enabled m i"
    using drafter_stays_off_target_tpcs [OF demo_mask_ok prep beg phase, of 7] by (elim exE conjE) (rule that)
  obtain g where "gs = [g]" "eg_tpc_low g = 0" "eg_tpc_high g = 4" using gs(2) by auto
  with m gs(1) show ?thesis by auto
qed

end
