(* ===== verification/DraftGate.thy ===== *)
theory DraftGate
  imports GrantTable SMControl Config
begin

text \<open>
  The execution gate of the remote Drafter: \<open>specstream/draft_grant_runtime.py\<close>, the TPC mask of
  the Drafter's worker (\<open>managers/tp_worker.py\<close>) and the parts of
  \<open>drafter/spectre_draft_scheduler_mixin.py\<close> that poll the gate, apply a grant to the worker, run a
  decode step or a prefill under it and close it.  The clock, the outcome of a forward pass and
  the runtime object that is polled for grants are parameters.  The reason string of a grant,
  which nothing reads, is left out.
\<close>

section \<open>Draft execution grants\<close>

record draft_grant =
  dg_epoch :: int
  dg_tpc_low :: int
  dg_tpc_high :: int
  dg_token_budget :: int
  dg_deadline_ns :: "int option"
  dg_request_ids :: "string list"
  dg_persistent :: bool

definition dg_validate :: "int option \<Rightarrow> draft_grant \<Rightarrow> unit res" where
  "dg_validate total_tpcs g =
     raise_first
       [(dg_epoch g < 0, ValueError),
        (dg_tpc_low g < 0, ValueError),
        (dg_tpc_high g \<le> dg_tpc_low g, ValueError),
        (case total_tpcs of None \<Rightarrow> False | Some n \<Rightarrow> n < dg_tpc_high g, ValueError),
        (dg_token_budget g \<le> 0, ValueError)]"

definition dg_expired :: "int \<Rightarrow> draft_grant \<Rightarrow> bool" where
  "dg_expired now_ns g = (case dg_deadline_ns g of None \<Rightarrow> False | Some d \<Rightarrow> d \<le> now_ns)"

section \<open>The gate\<close>

record draft_gate =
  ga_total_tpcs :: "int option"
  ga_grant :: "draft_grant option"
  ga_remaining_tokens :: int
  ga_last_epoch :: int
  ga_inflight :: bool
  ga_completed_steps :: int

definition gate_new :: "int option \<Rightarrow> draft_gate" where
  "gate_new total_tpcs =
     \<lparr> ga_total_tpcs = total_tpcs, ga_grant = None, ga_remaining_tokens = 0, ga_last_epoch = -1,
       ga_inflight = False, ga_completed_steps = 0 \<rparr>"

definition gate_revoke :: "draft_gate \<Rightarrow> draft_gate" where
  "gate_revoke ga = (if ga_inflight ga then ga else ga\<lparr>ga_grant := None, ga_remaining_tokens := 0\<rparr>)"

text \<open>The property \<open>active_grant\<close>: reading it revokes a grant that is expired or used up.\<close>

definition active_grant :: "int \<Rightarrow> draft_gate \<Rightarrow> draft_grant option \<times> draft_gate" where
  "active_grant now_ns ga =
     (case ga_grant ga of
        None \<Rightarrow> (None, ga)
      | Some g \<Rightarrow>
          if dg_expired now_ns g then (None, gate_revoke ga)
          else if \<not> dg_persistent g \<and> ga_remaining_tokens ga \<le> 0 then (None, gate_revoke ga)
          else (Some g, ga))"

definition install_calibration_grant :: "int \<Rightarrow> int \<Rightarrow> int \<Rightarrow> (draft_gate, draft_grant) py" where
  "install_calibration_grant tpcs tpc_low epoch ga =
     (let g = \<lparr> dg_epoch = epoch, dg_tpc_low = tpc_low, dg_tpc_high = tpc_low + tpcs, dg_token_budget = 1,
                dg_deadline_ns = None, dg_request_ids = [], dg_persistent = True \<rparr>
      in case rbind (raise_if (tpcs \<le> 0) ValueError) (\<lambda>_. dg_validate (ga_total_tpcs ga) g) of
           Inl e \<Rightarrow> (Inl e, ga)
         | Inr _ \<Rightarrow> (Inr g, ga\<lparr>ga_grant := Some g, ga_remaining_tokens := 1,
                               ga_last_epoch := max (ga_last_epoch ga) epoch\<rparr>))"

definition install_online_grant :: "int \<Rightarrow> draft_grant \<Rightarrow> (draft_gate, bool) py" where
  "install_online_grant now_ns g ga =
     (case dg_validate (ga_total_tpcs ga) g of
        Inl e \<Rightarrow> (Inl e, ga)
      | Inr _ \<Rightarrow>
          if ga_inflight ga \<or> dg_expired now_ns g \<or> dg_epoch g \<le> ga_last_epoch ga then (Inr False, ga)
          else (Inr True, ga\<lparr>ga_grant := Some g, ga_remaining_tokens := dg_token_budget g,
                             ga_last_epoch := dg_epoch g\<rparr>))"

definition try_acquire :: "int \<Rightarrow> string list \<Rightarrow> draft_gate \<Rightarrow> draft_grant option \<times> draft_gate" where
  "try_acquire now_ns request_ids ga =
     (if ga_inflight ga then (None, ga)
      else case active_grant now_ns ga of
             (None, ga') \<Rightarrow> (None, ga')
           | (Some g, ga') \<Rightarrow>
               if dg_request_ids g \<noteq> [] \<and> request_ids \<noteq> [] \<and> \<not> set request_ids \<subseteq> set (dg_request_ids g)
               then (None, ga')
               else (Some g, ga'\<lparr>ga_inflight := True\<rparr>))"

definition complete_one_step :: "bool \<Rightarrow> (draft_gate, unit) py" where
  "complete_one_step success ga =
     (if \<not> ga_inflight ga then (Inl RuntimeError, ga)
      else
       let ga1 = ga\<lparr>ga_inflight := False\<rparr> in
       case ga_grant ga1 of
         None \<Rightarrow> (Inr (), ga1)
       | Some g \<Rightarrow>
          let ga2 = (if success then ga1\<lparr>ga_completed_steps := ga_completed_steps ga1 + 1\<rparr> else ga1) in
          if dg_persistent g then (Inr (), ga2)
          else
           let ga3 = ga2\<lparr>ga_remaining_tokens := ga_remaining_tokens ga2 - 1\<rparr> in
           (Inr (), if ga_remaining_tokens ga3 \<le> 0 then gate_revoke ga3 else ga3))"

section \<open>Grants of a runtime object\<close>

text \<open>
  What a polled runtime may return: a grant, or a dictionary or object with named fields.  The
  deadline has the type its annotation gives it.
\<close>

datatype ext_val = ENone | EInt int | EBool bool | EStr string | ESeq "string list"

datatype ext_obj = ExtGrant draft_grant | ExtFields "(string, ext_val) dict" "int option"

fun read_field :: "(string, ext_val) dict \<Rightarrow> string list \<Rightarrow> ext_val \<Rightarrow> ext_val" where
  "read_field d [] dflt = dflt"
| "read_field d (n # ns) dflt = (case dget d n of Some v \<Rightarrow> v | None \<Rightarrow> read_field d ns dflt)"

fun int_of_ext :: "ext_val \<Rightarrow> int res" where
  "int_of_ext (EInt i) = Inr i"
| "int_of_ext (EBool b) = Inr (if b then 1 else 0)"
| "int_of_ext (EStr s) = int_of_string s"
| "int_of_ext _ = Inl TypeError"

fun ids_of_ext :: "ext_val \<Rightarrow> string list res" where
  "ids_of_ext ENone = Inr []"
| "ids_of_ext (EStr s) = Inr [s]"
| "ids_of_ext (ESeq ids) = Inr ids"
| "ids_of_ext _ = Inl TypeError"

fun truthy :: "ext_val \<Rightarrow> bool" where
  "truthy ENone = False"
| "truthy (EInt i) = (i \<noteq> 0)"
| "truthy (EBool b) = b"
| "truthy (EStr s) = (s \<noteq> [])"
| "truthy (ESeq ids) = (ids \<noteq> [])"

fun normalize_external_grant :: "ext_obj option \<Rightarrow> draft_grant option res" where
  "normalize_external_grant None = Inr None"
| "normalize_external_grant (Some (ExtGrant g)) = Inr (Some g)"
| "normalize_external_grant (Some (ExtFields d deadline)) =
     (let epoch = read_field d [''grant_epoch'', ''epoch''] ENone;
          low = read_field d [''tpc_low'', ''draft_tpc_low''] ENone;
          high = read_field d [''tpc_high'', ''draft_tpc_high''] ENone
      in if epoch = ENone \<or> low = ENone \<or> high = ENone then Inr None
         else
          let budget = read_field d [''grant_tokens'', ''token_budget'', ''tokens''] (EInt 1) in
          rbind (ids_of_ext (read_field d [''request_ids''] (ESeq []))) (\<lambda>ids.
          rbind (int_of_ext epoch) (\<lambda>e.
          rbind (int_of_ext low) (\<lambda>lo.
          rbind (int_of_ext high) (\<lambda>hi.
          rbind (int_of_ext budget) (\<lambda>b.
          Inr (Some \<lparr> dg_epoch = e, dg_tpc_low = lo, dg_tpc_high = hi, dg_token_budget = max 1 b,
                      dg_deadline_ns = deadline, dg_request_ids = ids,
                      dg_persistent = truthy (read_field d [''persistent''] (EBool False)) \<rparr>)))))))"

text \<open>
  \<open>call_runtime_first_available\<close>: the ways a method is called, tried until one does not raise a
  \<open>TypeError\<close>.  A runtime is the map of its callable attributes.
\<close>

datatype call_shape = BatchThenIds | KwBatchIds | OnlyBatch | KwBatch | OnlyIds | KwIds | NoArgs

type_synonym 'a runtime_object = "string \<Rightarrow> (call_shape \<Rightarrow> 'a option res) option"

definition call_attempts :: "bool \<Rightarrow> bool \<Rightarrow> call_shape list" where
  "call_attempts has_batch has_ids =
     (if has_batch \<and> has_ids then [BatchThenIds, KwBatchIds] else [])
     @ (if has_batch then [OnlyBatch, KwBatch] else [])
     @ (if has_ids then [OnlyIds, KwIds] else []) @ [NoArgs]"

fun try_attempts :: "(call_shape \<Rightarrow> 'a option res) \<Rightarrow> call_shape list \<Rightarrow> 'a option res option" where
  "try_attempts f [] = None"
| "try_attempts f (s # ss) = (if f s = Inl TypeError then try_attempts f ss else Some (f s))"

fun first_available :: "'a runtime_object \<Rightarrow> string list \<Rightarrow> call_shape list \<Rightarrow> 'a option res" where
  "first_available rt [] shapes = Inr None"
| "first_available rt (n # ns) shapes =
     (case rt n of
        None \<Rightarrow> first_available rt ns shapes
      | Some f \<Rightarrow> (case try_attempts f shapes of
                     None \<Rightarrow> first_available rt ns shapes
                   | Some r \<Rightarrow> r))"

definition call_runtime_first_available ::
    "'a runtime_object option \<Rightarrow> string list \<Rightarrow> bool \<Rightarrow> bool \<Rightarrow> 'a option res" where
  "call_runtime_first_available runtime names has_batch has_ids =
     (case runtime of
        None \<Rightarrow> Inr None
      | Some rt \<Rightarrow> first_available rt names (call_attempts has_batch has_ids))"

section \<open>The Drafter's worker\<close>

record draft_worker =
  dw_smctrl :: "sm_controller option"
  dw_stream :: "int option"
  dw_last_range :: "(int \<times> int) option"
  dw_active_range :: "(int \<times> int) option"
  dw_controlled :: bool

definition draft_worker_new :: draft_worker where
  "draft_worker_new = \<lparr> dw_smctrl = None, dw_stream = None, dw_last_range = None, dw_active_range = None,
     dw_controlled = False \<rparr>"

text \<open>\<open>_init_specstream_draft_smctrl\<close>; \<open>stream\<close> is the handle of the stream CUDA creates.\<close>

definition init_draft_smctrl :: "sm_env \<Rightarrow> server_args \<Rightarrow> int \<Rightarrow> int \<Rightarrow> (draft_worker, unit) py" where
  "init_draft_smctrl env args gpu_id stream w =
     (let w1 = w\<lparr>dw_stream := Some stream\<rparr>;
          lib = sv_specstream_smctrl_library args
      in case sm_controller_new env (if lib = [] then None else Some lib) (Some gpu_id)
                (sv_specstream_smctrl_mask_scope args) of
           Inl e \<Rightarrow> (Inl e, w1)
         | Inr c \<Rightarrow> (Inr (), w1\<lparr>dw_smctrl := Some c\<rparr>))"

definition set_draft_tpc_mask :: "sm_env \<Rightarrow> int \<Rightarrow> int \<Rightarrow> (draft_worker, unit) py" where
  "set_draft_tpc_mask env tpc_low tpc_high w =
     (case (dw_smctrl w, dw_stream w) of
        (Some c, Some stream) \<Rightarrow>
          if Some (tpc_low, tpc_high) = dw_last_range w then (Inr (), w)
          else (case set_stream_mask env stream tpc_low tpc_high c of
                  (Inl e, c') \<Rightarrow> (Inl e, w\<lparr>dw_smctrl := Some c'\<rparr>)
                | (Inr _, c') \<Rightarrow>
                    (Inr (), w\<lparr>dw_smctrl := Some c', dw_last_range := Some (tpc_low, tpc_high)\<rparr>))
      | _ \<Rightarrow> (Inl RuntimeError, w))"

definition worker_total_tpcs :: "draft_worker \<Rightarrow> int option" where
  "worker_total_tpcs w = map_option smc_total_tpcs (dw_smctrl w)"

definition apply_draft_tpc_range :: "sm_env \<Rightarrow> int \<Rightarrow> int \<Rightarrow> (draft_worker, unit) py" where
  "apply_draft_tpc_range env low high w =
     (if low < 0 \<or> high \<le> low then (Inl ValueError, w)
      else case dw_smctrl w of
             None \<Rightarrow> (Inl RuntimeError, w)
           | Some c \<Rightarrow>
               if smc_total_tpcs c < high then (Inl ValueError, w)
               else py_bind (set_draft_tpc_mask env low high)
                      (\<lambda>_. py_update (\<lambda>w. w\<lparr>dw_active_range := Some (low, high)\<rparr>)) w)"

definition bootstrap_calibration_mask :: "sm_env \<Rightarrow> server_args \<Rightarrow> (draft_worker, unit) py" where
  "bootstrap_calibration_mask env args w =
     (if dw_last_range w \<noteq> None \<or> \<not> sv_specstream_smctrl_enabled args
         \<or> sv_specstream_smctrl_calibration_tpcs args \<le> 0
      then (Inr (), w)
      else apply_draft_tpc_range env 0 (sv_specstream_smctrl_calibration_tpcs args) w)"

text \<open>The mask in force on the Drafter's stream.\<close>

definition worker_mask :: "draft_worker \<Rightarrow> tpc_mask option" where
  "worker_mask w =
     (case (dw_smctrl w, dw_stream w) of (Some c, Some stream) \<Rightarrow> effective_mask c stream | _ \<Rightarrow> None)"

text \<open>The guard of \<open>forward_batch_generation\<close>: a controlled forward needs a TPC mask.\<close>

definition forward_guard :: "sm_env \<Rightarrow> server_args \<Rightarrow> (draft_worker, unit) py" where
  "forward_guard env args w =
     (if dw_stream w = None \<or> \<not> dw_controlled w then (Inr (), w)
      else py_bind (bootstrap_calibration_mask env args)
             (\<lambda>_ w. if dw_last_range w = None then (Inl RuntimeError, w) else (Inr (), w)) w)"

section \<open>Granted forwards of the scheduler\<close>

text \<open>
  \<open>gx_log\<close> records every controlled forward that reached the device: the grant it ran under, the
  grants of the table for a prefill, the range its launch asked for, and the mask in force on the
  Drafter's stream.  It only observes the run.
\<close>

record launch =
  la_grant :: draft_grant
  la_table :: "execution_grant list option"
  la_range :: "int \<times> int"
  la_mask :: "tpc_mask option"

record gated_drafter =
  gx_gate :: "draft_gate option"
  gx_worker :: draft_worker
  gx_log :: "launch list"

definition on_gate :: "(draft_gate, 'a) py \<Rightarrow> (gated_drafter, 'a option) py" where
  "on_gate m x =
     (case gx_gate x of
        None \<Rightarrow> (Inr None, x)
      | Some ga \<Rightarrow> (case m ga of (Inl e, ga') \<Rightarrow> (Inl e, x\<lparr>gx_gate := Some ga'\<rparr>)
                             | (Inr a, ga') \<Rightarrow> (Inr (Some a), x\<lparr>gx_gate := Some ga'\<rparr>)))"

definition on_worker :: "(draft_worker, 'a) py \<Rightarrow> (gated_drafter, 'a) py" where
  "on_worker m x = (case m (gx_worker x) of (r, w) \<Rightarrow> (r, x\<lparr>gx_worker := w\<rparr>))"

text \<open>\<open>try: m finally: f\<close>.\<close>

definition py_finally :: "('s, 'a) py \<Rightarrow> ('s, unit) py \<Rightarrow> ('s, 'a) py" where
  "py_finally m f s =
     (case m s of (r, s1) \<Rightarrow> (case f s1 of (Inl e, s2) \<Rightarrow> (Inl e, s2) | (Inr _, s2) \<Rightarrow> (r, s2)))"

definition init_first_grant_gate :: "sm_env \<Rightarrow> server_args \<Rightarrow> bool \<Rightarrow> (gated_drafter, unit) py" where
  "init_first_grant_gate env args draft_priority x =
     (if \<not> sv_specstream_smctrl_enabled args then (Inr (), x\<lparr>gx_gate := None\<rparr>)
      else if \<not> draft_priority then (Inl RuntimeError, x)
      else
       let x1 = x\<lparr>gx_gate := Some (gate_new (worker_total_tpcs (gx_worker x)))\<rparr>;
           tpcs = sv_specstream_smctrl_calibration_tpcs args
       in if tpcs \<le> 0 then (Inr (), x1)
          else py_bind (on_gate (install_calibration_grant tpcs 0 0))
                 (\<lambda>g. case g of
                    None \<Rightarrow> py_return ()
                  | Some g \<Rightarrow> on_worker (apply_draft_tpc_range env (dg_tpc_low g) (dg_tpc_high g))) x1)"

definition coexec_runtime_names :: "string list" where
  "coexec_runtime_names =
     [''specstream_coexec_runtime'', ''_specstream_coexec_runtime'', ''coexec_runtime'',
      ''target_grant_runtime'', ''grant_runtime'']"

text \<open>\<open>_specstream_existing_coexec_runtime\<close>; an owner (scheduler, then worker) is the map of its attributes.\<close>

definition runtime_candidates :: "(string \<Rightarrow> 'r option) list \<Rightarrow> 'r list" where
  "runtime_candidates owners =
     concat (map (\<lambda>owner. concat (map (\<lambda>n. case owner n of None \<Rightarrow> [] | Some r \<Rightarrow> [r]) coexec_runtime_names)) owners)"

definition existing_coexec_runtime :: "(string \<Rightarrow> 'r option) list \<Rightarrow> 'r option" where
  "existing_coexec_runtime owners = (case runtime_candidates owners of [] \<Rightarrow> None | r # _ \<Rightarrow> Some r)"

definition poll_names :: "string list" where
  "poll_names =
     [''try_acquire_one_token'', ''try_acquire_draft_grant'', ''acquire_draft_grant'',
      ''get_active_draft_grant'', ''current_draft_grant'']"

definition finish_names :: "string list" where
  "finish_names =
     [''complete_draft_step'', ''ack_draft_grant'', ''complete_one_token'', ''mark_draft_step_complete'']"

text \<open>\<open>_specstream_poll_online_grant\<close> on a present gate; the clock is read twice.\<close>

definition gate_poll ::
    "server_args \<Rightarrow> ext_obj runtime_object option \<Rightarrow> int \<Rightarrow> int \<Rightarrow> string list \<Rightarrow> (draft_gate, draft_grant option) py" where
  "gate_poll args runtime t1 t2 ids ga =
     (if 0 < sv_specstream_smctrl_calibration_tpcs args
      then (case try_acquire t2 ids ga of (g, ga') \<Rightarrow> (Inr g, ga'))
      else
       case rbind (call_runtime_first_available runtime poll_names True True) normalize_external_grant of
         Inl e \<Rightarrow> (Inl e, ga)
       | Inr ext \<Rightarrow>
          (case (case ext of None \<Rightarrow> (Inr False, ga) | Some g \<Rightarrow> install_online_grant t1 g ga) of
             (Inl e, ga1) \<Rightarrow> (Inl e, ga1)
           | (Inr _, ga1) \<Rightarrow> (case try_acquire t2 ids ga1 of (g, ga2) \<Rightarrow> (Inr g, ga2))))"

definition poll_online_grant ::
    "server_args \<Rightarrow> ext_obj runtime_object option \<Rightarrow> int \<Rightarrow> int \<Rightarrow> string list \<Rightarrow> (gated_drafter, draft_grant option) py" where
  "poll_online_grant args runtime t1 t2 ids =
     py_bind (on_gate (gate_poll args runtime t1 t2 ids)) (\<lambda>g. py_return (Option.bind g id))"

definition finish_one_granted_step ::
    "server_args \<Rightarrow> ext_obj runtime_object option \<Rightarrow> bool \<Rightarrow> (gated_drafter, unit) py" where
  "finish_one_granted_step args runtime success =
     py_bind (on_gate (complete_one_step success))
       (\<lambda>closed x.
          if closed = None \<or> 0 < sv_specstream_smctrl_calibration_tpcs args then (Inr (), x)
          else (case call_runtime_first_available runtime finish_names True True of
                  Inl e \<Rightarrow> (Inl e, x) | Inr _ \<Rightarrow> (Inr (), x)))"

text \<open>\<open>run_batch\<close> under control: the guard, then the launch, whose outcome is a parameter.\<close>

definition run_controlled ::
    "sm_env \<Rightarrow> server_args \<Rightarrow> draft_grant \<Rightarrow> execution_grant list option \<Rightarrow> int \<times> int \<Rightarrow> unit res
      \<Rightarrow> (gated_drafter, unit) py" where
  "run_controlled env args g tab rng outcome =
     py_bind (on_worker (forward_guard env args))
       (\<lambda>_ x. (outcome,
               x\<lparr>gx_log := gx_log x @ [\<lparr> la_grant = g, la_table = tab, la_range = rng,
                                         la_mask = worker_mask (gx_worker x) \<rparr>]\<rparr>))"

text \<open>
  \<open>begin\<close>, then \<open>try: run_batch finally: end; finish\<close>.  The step counts as a success when nothing
  in the \<open>try\<close> block raised.
\<close>

definition controlled_step ::
    "sm_env \<Rightarrow> server_args \<Rightarrow> ext_obj runtime_object option \<Rightarrow> draft_grant \<Rightarrow> execution_grant list option
      \<Rightarrow> int \<times> int \<Rightarrow> unit res \<Rightarrow> (gated_drafter, unit) py" where
  "controlled_step env args runtime g tab rng outcome x =
     (let x1 = x\<lparr>gx_worker := (gx_worker x)\<lparr>dw_controlled := True\<rparr>\<rparr>;
          (r, x2) = run_controlled env args g tab rng outcome x1
      in py_finally (\<lambda>x. (r, x))
           (py_bind (py_update (\<lambda>x. x\<lparr>gx_worker := (gx_worker x)\<lparr>dw_controlled := False\<rparr>\<rparr>))
              (\<lambda>_. finish_one_granted_step args runtime (\<not> isl r))) x2)"

text \<open>What a scheduler phase meets: the runtime, two clock readings, the batch and what its calls do.\<close>

record phase_input =
  pi_runtime :: "ext_obj runtime_object option"
  pi_poll_ns :: int
  pi_acquire_ns :: int
  pi_request_ids :: "string list"
  pi_decode_mem :: bool
  pi_prepare :: "unit res"
  pi_outcome :: "unit res"

text \<open>The SM-controlled part of \<open>_run_draft_priority_phase\<close>.\<close>

definition granted_decode_phase :: "sm_env \<Rightarrow> server_args \<Rightarrow> phase_input \<Rightarrow> (gated_drafter, unit) py" where
  "granted_decode_phase env args i =
     py_bind (poll_online_grant args (pi_runtime i) (pi_poll_ns i) (pi_acquire_ns i) (pi_request_ids i))
       (\<lambda>grant. case grant of
          None \<Rightarrow> py_return ()
        | Some g \<Rightarrow>
           if \<not> pi_decode_mem i
           then (\<lambda>x. case gx_gate x of
                   Some ga \<Rightarrow> if ga_inflight ga then py_bind (on_gate (complete_one_step False)) (\<lambda>_. py_return ()) x
                              else (Inr (), x)
                 | None \<Rightarrow> (Inr (), x))
           else
            py_bind (on_worker (apply_draft_tpc_range env (dg_tpc_low g) (dg_tpc_high g))) (\<lambda>_.
            py_bind (\<lambda>x. (pi_prepare i, x)) (\<lambda>_.
            controlled_step env args (pi_runtime i) g None (dg_tpc_low g, dg_tpc_high g) (pi_outcome i))))"

definition batch_grant_range :: "execution_grant list \<Rightarrow> (int \<times> int) res" where
  "batch_grant_range gs =
     (if gs = [] then Inl RuntimeError
      else let low = Max (set (map eg_tpc_low gs)); high = Min (set (map eg_tpc_high gs))
           in if high \<le> low then Inl RuntimeError else Inr (low, high))"

definition apply_batch_grant_mask :: "sm_env \<Rightarrow> execution_grant list \<Rightarrow> (draft_worker, int \<times> int) py" where
  "apply_batch_grant_mask env gs w =
     (case batch_grant_range gs of
        Inl e \<Rightarrow> (Inl e, w)
      | Inr (low, high) \<Rightarrow> py_bind (set_draft_tpc_mask env low high) (\<lambda>_. py_return (low, high)) w)"

text \<open>
  The launch of \<open>_prefill_draft_reqs\<close> for the admitted requests, whose active grants of the
  table are \<open>gs\<close>: the table's ranges replace the one of the gate's grant.
\<close>

definition granted_prefill_phase ::
    "sm_env \<Rightarrow> server_args \<Rightarrow> execution_grant list \<Rightarrow> phase_input \<Rightarrow> (gated_drafter, unit) py" where
  "granted_prefill_phase env args gs i =
     py_bind (poll_online_grant args (pi_runtime i) (pi_poll_ns i) (pi_acquire_ns i) (pi_request_ids i))
       (\<lambda>grant. case grant of
          None \<Rightarrow> py_return ()
        | Some g \<Rightarrow>
            py_bind (on_worker (apply_draft_tpc_range env (dg_tpc_low g) (dg_tpc_high g))) (\<lambda>_.
            py_bind (\<lambda>x. (pi_prepare i, x)) (\<lambda>_.
            py_bind (on_worker (apply_batch_grant_mask env gs)) (\<lambda>rng.
            controlled_step env args (pi_runtime i) g (Some gs) rng (pi_outcome i)))))"

section \<open>The Drafter under its gate\<close>

text \<open>
  The Drafter's runs: the worker and the gate are set up, then decode and prefill phases follow in
  any order.  \<open>polled\<close> says which runtime objects the phases may find.
\<close>

definition gated_init :: "sm_env \<Rightarrow> server_args \<Rightarrow> gated_drafter \<Rightarrow> bool" where
  "gated_init env args x \<longleftrightarrow>
     (\<exists>gpu_id stream w priority.
        init_draft_smctrl env args gpu_id stream draft_worker_new = (Inr (), w)
      \<and> init_first_grant_gate env args priority \<lparr> gx_gate = None, gx_worker = w, gx_log = [] \<rparr> = (Inr (), x))"

inductive gated_step ::
    "sm_env \<Rightarrow> server_args \<Rightarrow> (ext_obj runtime_object option \<Rightarrow> bool) \<Rightarrow> gated_drafter \<Rightarrow> gated_drafter \<Rightarrow> bool"
  for env args polled where
  gated_decode: "polled (pi_runtime i) \<Longrightarrow> granted_decode_phase env args i x = (r, x') \<Longrightarrow> gated_step env args polled x x'"
| gated_prefill: "polled (pi_runtime i) \<Longrightarrow> granted_prefill_phase env args gs i x = (r, x') \<Longrightarrow> gated_step env args polled x x'"

section \<open>The worker's mask\<close>

definition exact_mask :: "tpc_mask option \<Rightarrow> int \<times> int \<Rightarrow> bool" where
  "exact_mask mo r \<longleftrightarrow> (\<exists>m. mo = Some m \<and> (\<forall>i. tpc_enabled m i \<longleftrightarrow> fst r \<le> int i \<and> int i < snd r))"

definition worker_ok :: "draft_worker \<Rightarrow> bool" where
  "worker_ok w \<longleftrightarrow>
     (\<forall>c. dw_smctrl w = Some c \<longrightarrow>
        smc_total_tpcs c \<le> 128 \<and> (smc_mask_scope c = ''global'' \<longrightarrow> smc_stream_masks c = []))
   \<and> (\<forall>r. dw_last_range w = Some r \<longrightarrow> exact_mask (worker_mask w) r)"

lemma set_stream_mask_keeps:
  assumes "set_stream_mask env stream low high c = (r, c')"
  shows "smc_total_tpcs c' = smc_total_tpcs c" "smc_mask_scope c' = smc_mask_scope c"
    "smc_mask_scope c = ''global'' \<Longrightarrow> smc_stream_masks c' = smc_stream_masks c"
  using assms by (auto simp: set_stream_mask_def install_stream_mask_def Let_def split: sum.splits if_splits)

lemma set_mask_ok:
  assumes ok: "worker_ok w" and run: "set_draft_tpc_mask env low high w = (r, w')"
  shows "worker_ok w'" "r = Inr () \<Longrightarrow> dw_last_range w' = Some (low, high)"
proof -
  show "r = Inr () \<Longrightarrow> dw_last_range w' = Some (low, high)"
    using run by (auto simp: set_draft_tpc_mask_def split: option.splits if_splits prod.splits sum.splits)
  show "worker_ok w'"
  proof (cases "w' = w")
    case False
    then obtain c stream r0 c' where c: "dw_smctrl w = Some c" "dw_stream w = Some stream"
        "set_stream_mask env stream low high c = (r0, c')"
        and w': "(\<exists>e. r0 = Inl e) \<and> w' = w\<lparr>dw_smctrl := Some c'\<rparr>
          \<or> r0 = Inr () \<and> w' = w\<lparr>dw_smctrl := Some c', dw_last_range := Some (low, high)\<rparr>"
      using run by (auto simp: set_draft_tpc_mask_def split: option.splits if_splits prod.splits sum.splits)
    have c_ok: "smc_total_tpcs c \<le> 128" "smc_mask_scope c = ''global'' \<longrightarrow> smc_stream_masks c = []"
      using ok c(1) by (auto simp: worker_ok_def)
    note range = set_stream_mask_range [OF c_ok c(3)]
    note keeps = set_stream_mask_keeps [OF c(3)]
    from w' show ?thesis
    proof (elim disjE conjE exE)
      fix e assume "r0 = Inl e" "w' = w\<lparr>dw_smctrl := Some c'\<rparr>"
      moreover from this range have "c' = c" by blast
      ultimately show ?thesis using ok c(1) by (simp add: worker_ok_def worker_mask_def)
    next
      assume r0: "r0 = Inr ()" and w': "w' = w\<lparr>dw_smctrl := Some c', dw_last_range := Some (low, high)\<rparr>"
      have "exact_mask (worker_mask w') (low, high)"
        using range r0 c(2) by (simp add: w' worker_mask_def exact_mask_def)
      then show ?thesis using c_ok keeps by (simp add: worker_ok_def w')
    qed
  qed (use ok in simp)
qed

lemma worker_mask_flags [simp]: "worker_mask (w\<lparr>dw_active_range := a\<rparr>) = worker_mask w"
  "worker_mask (w\<lparr>dw_controlled := b\<rparr>) = worker_mask w"
  by (simp_all add: worker_mask_def)

lemma worker_ok_flags [simp]:
  "worker_ok (w\<lparr>dw_active_range := a\<rparr>) = worker_ok w"
  "worker_ok (w\<lparr>dw_controlled := b\<rparr>) = worker_ok w"
  by (simp_all add: worker_ok_def)

lemma apply_range_ok:
  assumes ok: "worker_ok w" and run: "apply_draft_tpc_range env low high w = (r, w')"
  shows "worker_ok w'" "r = Inr () \<Longrightarrow> dw_last_range w' = Some (low, high)"
proof -
  obtain r1 w1 where m: "set_draft_tpc_mask env low high w = (r1, w1)" by fastforce
  have "w' = w \<and> isl r \<or> (r1 = Inr () \<and> r = Inr () \<and> w' = w1\<lparr>dw_active_range := Some (low, high)\<rparr>) \<or> w' = w1 \<and> isl r"
    using run by (auto simp: apply_draft_tpc_range_def py_basic m split: if_splits option.splits sum.splits)
  then show "worker_ok w'" "r = Inr () \<Longrightarrow> dw_last_range w' = Some (low, high)"
    using set_mask_ok [OF ok m] ok by auto
qed

lemma batch_mask_ok:
  assumes ok: "worker_ok w" and run: "apply_batch_grant_mask env gs w = (r, w')"
  shows "worker_ok w'" "r = Inr rng \<Longrightarrow> batch_grant_range gs = Inr rng \<and> dw_last_range w' = Some rng"
proof -
  have "worker_ok w' \<and> (r = Inr rng \<longrightarrow> batch_grant_range gs = Inr rng \<and> dw_last_range w' = Some rng)"
  proof (cases "batch_grant_range gs")
    case (Inr lh)
    then obtain low high where lh: "batch_grant_range gs = Inr (low, high)" by (cases lh) simp
    obtain r1 w1 where m: "set_draft_tpc_mask env low high w = (r1, w1)" by fastforce
    have "w' = w1 \<and> r = (case r1 of Inl e \<Rightarrow> Inl e | Inr _ \<Rightarrow> Inr (low, high))"
      using run by (auto simp: apply_batch_grant_mask_def lh py_basic m split: sum.splits)
    then show ?thesis using set_mask_ok [OF ok m] lh by (auto split: sum.splits)
  qed (use run ok in \<open>auto simp: apply_batch_grant_mask_def\<close>)
  then show "worker_ok w'" "r = Inr rng \<Longrightarrow> batch_grant_range gs = Inr rng \<and> dw_last_range w' = Some rng"
    by simp_all
qed

text \<open>With a mask active the guard passes and leaves the worker alone.\<close>

lemma forward_guard_masked: "dw_last_range w = Some r \<Longrightarrow> forward_guard env args w = (Inr (), w)"
  by (simp add: forward_guard_def bootstrap_calibration_mask_def py_basic)

section \<open>What the gate has authorised\<close>

abbreviation launch_epoch :: "launch \<Rightarrow> int" where
  "launch_epoch l \<equiv> dg_epoch (la_grant l)"

definition launches_of :: "int \<Rightarrow> launch list \<Rightarrow> int" where
  "launches_of e lg = int (length (filter (\<lambda>l. launch_epoch l = e) lg))"

text \<open>
  The launches so far: valid grants, in the order of their epochs, one grant per epoch, and no
  more launches than its budget.
\<close>

definition launches_ok :: "int option \<Rightarrow> int \<Rightarrow> launch list \<Rightarrow> bool" where
  "launches_ok tpcs newest lg \<longleftrightarrow>
     (\<forall>l \<in> set lg. dg_validate tpcs (la_grant l) = Inr () \<and> launch_epoch l \<le> newest
        \<and> (\<not> dg_persistent (la_grant l) \<longrightarrow> launches_of (launch_epoch l) lg \<le> dg_token_budget (la_grant l)))
   \<and> sorted (map launch_epoch lg)
   \<and> (\<forall>l \<in> set lg. \<forall>l' \<in> set lg. launch_epoch l = launch_epoch l' \<longrightarrow> la_grant l = la_grant l')"

text \<open>
  The grant the gate holds: \<open>k\<close> is 1 between a launch and the completion of its step, 0 otherwise.
\<close>

definition held_ok :: "int \<Rightarrow> draft_gate \<Rightarrow> launch list \<Rightarrow> draft_grant \<Rightarrow> bool" where
  "held_ok k ga lg g \<longleftrightarrow>
     dg_validate (ga_total_tpcs ga) g = Inr () \<and> dg_epoch g = ga_last_epoch ga
   \<and> (\<forall>l \<in> set lg. launch_epoch l = dg_epoch g \<longrightarrow> la_grant l = g)
   \<and> (\<not> dg_persistent g \<longrightarrow> launches_of (dg_epoch g) lg + ga_remaining_tokens ga \<le> dg_token_budget g + k)"

definition gate_log_ok :: "int \<Rightarrow> draft_gate \<Rightarrow> launch list \<Rightarrow> bool" where
  "gate_log_ok k ga lg \<longleftrightarrow>
     launches_ok (ga_total_tpcs ga) (ga_last_epoch ga) lg \<and> (\<forall>g. ga_grant ga = Some g \<longrightarrow> held_ok k ga lg g)"

lemma gate_log_okD:
  assumes "gate_log_ok k ga lg"
  shows "launches_ok (ga_total_tpcs ga) (ga_last_epoch ga) lg" "ga_grant ga = Some g \<Longrightarrow> held_ok k ga lg g"
  using assms by (auto simp: gate_log_ok_def)

lemma gate_log_ok_weaken: "gate_log_ok 0 ga lg \<Longrightarrow> gate_log_ok 1 ga lg"
  by (auto simp: gate_log_ok_def held_ok_def)

lemma gate_log_ok_flags [simp]:
  "gate_log_ok k (ga\<lparr>ga_inflight := b\<rparr>) lg = gate_log_ok k ga lg"
  "gate_log_ok k (ga\<lparr>ga_completed_steps := n\<rparr>) lg = gate_log_ok k ga lg"
  by (simp_all add: gate_log_ok_def held_ok_def)

lemma gate_log_ok_revoked:
  "gate_log_ok k ga lg \<Longrightarrow> gate_log_ok j (ga\<lparr>ga_grant := None, ga_remaining_tokens := n\<rparr>) lg"
  by (simp add: gate_log_ok_def)

lemma revoke_ok: "gate_log_ok k ga lg \<Longrightarrow> gate_log_ok k (gate_revoke ga) lg"
  by (simp add: gate_revoke_def gate_log_ok_revoked)

lemma no_launch_beyond:
  assumes "launches_ok tpcs newest lg" "newest < e"
  shows "launches_of e lg = 0" "l \<in> set lg \<Longrightarrow> launch_epoch l \<noteq> e"
  using assms by (auto simp: launches_ok_def launches_of_def filter_empty_conv)

lemma launches_ok_mono: "launches_ok tpcs newest lg \<Longrightarrow> newest \<le> newest' \<Longrightarrow> launches_ok tpcs newest' lg"
  by (auto simp: launches_ok_def)

lemma install_ok:
  assumes "gate_log_ok 0 ga lg" and "install_online_grant now g ga = (r, ga')"
  shows "gate_log_ok 0 ga' lg" "ga_inflight ga' = ga_inflight ga"
proof -
  have cases: "ga' = ga \<or> dg_validate (ga_total_tpcs ga) g = Inr () \<and> ga_last_epoch ga < dg_epoch g
      \<and> ga' = ga\<lparr>ga_grant := Some g, ga_remaining_tokens := dg_token_budget g, ga_last_epoch := dg_epoch g\<rparr>"
    using assms(2) by (auto simp: install_online_grant_def split: sum.splits if_splits)
  then show "ga_inflight ga' = ga_inflight ga" by auto
  note old = gate_log_okD(1) [OF assms(1)]
  from cases show "gate_log_ok 0 ga' lg"
  proof (elim disjE conjE)
    assume g: "dg_validate (ga_total_tpcs ga) g = Inr ()" "ga_last_epoch ga < dg_epoch g"
      and ga': "ga' = ga\<lparr>ga_grant := Some g, ga_remaining_tokens := dg_token_budget g, ga_last_epoch := dg_epoch g\<rparr>"
    have "held_ok 0 ga' lg g"
      using g no_launch_beyond [OF old g(2)] by (simp add: held_ok_def ga')
    moreover have "launches_ok (ga_total_tpcs ga') (ga_last_epoch ga') lg"
      using launches_ok_mono [OF old, of "dg_epoch g"] g(2) by (simp add: ga')
    ultimately show ?thesis by (simp add: gate_log_ok_def ga')
  qed (use assms(1) in simp)
qed

definition acquired :: "draft_gate \<Rightarrow> draft_grant \<Rightarrow> bool" where
  "acquired ga g \<longleftrightarrow> ga_inflight ga \<and> ga_grant ga = Some g \<and> (\<not> dg_persistent g \<longrightarrow> 1 \<le> ga_remaining_tokens ga)"

lemma try_acquire_ok:
  assumes "gate_log_ok 0 ga lg" and "try_acquire now ids ga = (g, ga')"
  shows "gate_log_ok 0 ga' lg" "g = Some gr \<Longrightarrow> acquired ga' gr"
  using assms revoke_ok [OF assms(1)]
  by (auto simp: try_acquire_def active_grant_def acquired_def split: option.splits if_splits)

lemma gate_poll_ok:
  assumes ok: "gate_log_ok 0 ga lg" and run: "gate_poll args runtime t1 t2 ids ga = (r, ga')"
  shows "gate_log_ok 0 ga' lg" "r = Inr (Some g) \<Longrightarrow> acquired ga' g"
proof -
  have "gate_log_ok 0 ga' lg \<and> (\<forall>g. r = Inr (Some g) \<longrightarrow> acquired ga' g)"
    using run ok unfolding gate_poll_def
    by (auto split: if_splits prod.splits sum.splits option.splits dest: try_acquire_ok install_ok)
  then show "gate_log_ok 0 ga' lg" "r = Inr (Some g) \<Longrightarrow> acquired ga' g" by auto
qed

lemma launch_ok_step:
  assumes ok: "gate_log_ok 0 ga lg" and acq: "acquired ga g" and l: "la_grant l = g"
  shows "gate_log_ok 1 ga (lg @ [l])"
proof -
  have g: "ga_grant ga = Some g" using acq by (simp add: acquired_def)
  note old = gate_log_okD(1) [OF ok] and held = gate_log_okD(2) [OF ok g]
  have count: "launches_of e (lg @ [l]) = launches_of e lg + (if e = dg_epoch g then 1 else 0)" for e
    by (simp add: launches_of_def l)
  have same: "la_grant l' = g" if "l' \<in> set lg" "launch_epoch l' = dg_epoch g" for l'
    using held that by (simp add: held_ok_def)
  have spent: "\<not> dg_persistent g \<Longrightarrow> launches_of (dg_epoch g) lg + 1 \<le> dg_token_budget g"
    using held acq by (auto simp: held_ok_def acquired_def)
  have valid: "dg_validate (ga_total_tpcs ga) g = Inr ()" and epoch: "dg_epoch g = ga_last_epoch ga"
    using held by (simp_all add: held_ok_def)
  have each: "dg_validate (ga_total_tpcs ga) (la_grant l') = Inr () \<and> launch_epoch l' \<le> ga_last_epoch ga
        \<and> (\<not> dg_persistent (la_grant l') \<longrightarrow> launches_of (launch_epoch l') (lg @ [l]) \<le> dg_token_budget (la_grant l'))"
    if "l' \<in> set (lg @ [l])" for l'
  proof (cases "la_grant l' = g")
    case True
    then show ?thesis using valid epoch spent by (simp add: count)
  next
    case False
    then have "l' \<in> set lg" "launch_epoch l' \<noteq> dg_epoch g" using that same l by auto
    then show ?thesis using old by (simp add: launches_ok_def count)
  qed
  have "sorted (map launch_epoch (lg @ [l]))"
    using old epoch by (simp add: sorted_append l launches_ok_def)
  moreover have "la_grant l1 = la_grant l2"
    if "l1 \<in> set (lg @ [l])" "l2 \<in> set (lg @ [l])" "launch_epoch l1 = launch_epoch l2" for l1 l2
    using that old same l by (auto simp: launches_ok_def)
  ultimately have "launches_ok (ga_total_tpcs ga) (ga_last_epoch ga) (lg @ [l])"
    using each unfolding launches_ok_def by blast
  moreover have "held_ok 1 ga (lg @ [l]) g"
    using held l by (auto simp: held_ok_def count)
  ultimately show ?thesis by (simp add: gate_log_ok_def g)
qed

lemma complete_ok:
  assumes "gate_log_ok 1 ga lg" and "complete_one_step success ga = (r, ga')" and "ga_inflight ga"
  shows "gate_log_ok 0 ga' lg"
proof (cases "ga_grant ga")
  case None
  then have "ga' = ga\<lparr>ga_inflight := False\<rparr>" using assms(2,3) by (simp add: complete_one_step_def Let_def)
  with None assms(1) show ?thesis by (simp add: gate_log_ok_def)
next
  case (Some g)
  define ga1 where "ga1 = (if success then ga\<lparr>ga_inflight := False, ga_completed_steps := ga_completed_steps ga + 1\<rparr>
      else ga\<lparr>ga_inflight := False\<rparr>)"
  have old: "launches_ok (ga_total_tpcs ga) (ga_last_epoch ga) lg" and held: "held_ok 1 ga lg g"
    using gate_log_okD [OF assms(1)] Some by simp_all
  have ga1: "ga_grant ga1 = Some g" "ga_total_tpcs ga1 = ga_total_tpcs ga" "ga_last_epoch ga1 = ga_last_epoch ga"
      "ga_remaining_tokens ga1 = ga_remaining_tokens ga" "\<not> ga_inflight ga1"
    using Some by (simp_all add: ga1_def)
  show ?thesis
  proof (cases "dg_persistent g")
    case True
    then have "ga' = ga1" using assms(2,3) Some by (auto simp: complete_one_step_def ga1_def Let_def)
    then show ?thesis using True ga1 old held by (simp add: gate_log_ok_def held_ok_def)
  next
    case False
    define ga2 where "ga2 = ga1\<lparr>ga_remaining_tokens := ga_remaining_tokens ga1 - 1\<rparr>"
    have ok2: "gate_log_ok 0 ga2 lg"
      using ga1 old held by (auto simp: ga2_def gate_log_ok_def held_ok_def)
    have "ga' = (if ga_remaining_tokens ga2 \<le> 0 then gate_revoke ga2 else ga2)"
      using assms(2,3) Some False by (auto simp: complete_one_step_def ga2_def ga1_def Let_def)
    then show ?thesis using ok2 revoke_ok [OF ok2] by (cases "ga_remaining_tokens ga2 \<le> 0") simp_all
  qed
qed

section \<open>The phases keep the gate\<close>

definition launch_ok :: "launch \<Rightarrow> bool" where
  "launch_ok l \<longleftrightarrow>
     exact_mask (la_mask l) (la_range l)
   \<and> (case la_table l of
        None \<Rightarrow> la_range l = (dg_tpc_low (la_grant l), dg_tpc_high (la_grant l))
      | Some gs \<Rightarrow> batch_grant_range gs = Inr (la_range l))"

definition gated_ok :: "gated_drafter \<Rightarrow> bool" where
  "gated_ok x \<longleftrightarrow>
     worker_ok (gx_worker x) \<and> (\<forall>l \<in> set (gx_log x). launch_ok l)
   \<and> (case gx_gate x of None \<Rightarrow> gx_log x = [] | Some ga \<Rightarrow> gate_log_ok 0 ga (gx_log x))"

text \<open>The state of a phase that has acquired a grant and not yet launched.\<close>

definition holding :: "gated_drafter \<Rightarrow> draft_grant \<Rightarrow> bool" where
  "holding x g \<longleftrightarrow> gated_ok x \<and> (\<exists>ga. gx_gate x = Some ga \<and> acquired ga g)"

lemma poll_holding:
  assumes ok: "gated_ok x" and run: "poll_online_grant args runtime t1 t2 ids x = (r, x')"
  shows "gated_ok x'" "r = Inr (Some g) \<Longrightarrow> holding x' g"
proof -
  have "gated_ok x' \<and> (r = Inr (Some g) \<longrightarrow> holding x' g)"
  proof (cases "gx_gate x")
    case None
    with run ok show ?thesis by (auto simp: poll_online_grant_def py_basic on_gate_def)
  next
    case (Some ga)
    obtain r1 ga1 where p: "gate_poll args runtime t1 t2 ids ga = (r1, ga1)" by fastforce
    have x': "x' = x\<lparr>gx_gate := Some ga1\<rparr>" and r: "r = r1"
      using run Some p by (auto simp: poll_online_grant_def py_basic on_gate_def split: sum.splits)
    have "gate_log_ok 0 ga (gx_log x)" using ok Some by (simp add: gated_ok_def)
    note poll = gate_poll_ok [OF this p]
    have "gated_ok x'" using ok poll(1) Some by (simp add: x' gated_ok_def)
    then show ?thesis using poll(2) by (auto simp: holding_def x' r)
  qed
  then show "gated_ok x'" "r = Inr (Some g) \<Longrightarrow> holding x' g" by simp_all
qed

lemma on_worker_holding:
  assumes "on_worker m x = (r, x')" and "\<And>w'. m (gx_worker x) = (r, w') \<Longrightarrow> worker_ok w'"
  shows "gated_ok x \<Longrightarrow> gated_ok x'" "holding x g \<Longrightarrow> holding x' g"
proof -
  obtain w' where w': "m (gx_worker x) = (r, w')" "x' = x\<lparr>gx_worker := w'\<rparr>"
    using assms(1) by (auto simp: on_worker_def split: prod.splits)
  then show ok: "gated_ok x \<Longrightarrow> gated_ok x'" using assms(2) [OF w'(1)] by (simp add: gated_ok_def split: option.splits)
  then show "holding x g \<Longrightarrow> holding x' g" by (simp add: holding_def w'(2))
qed

lemma apply_range_holding:
  assumes "on_worker (apply_draft_tpc_range env low high) x = (r, x')" and "holding x g"
  shows "holding x' g" "r = Inr () \<Longrightarrow> dw_last_range (gx_worker x') = Some (low, high)"
proof -
  have ok: "worker_ok (gx_worker x)" using assms(2) by (simp add: holding_def gated_ok_def)
  obtain w' where w': "apply_draft_tpc_range env low high (gx_worker x) = (r, w')" "x' = x\<lparr>gx_worker := w'\<rparr>"
    using assms(1) by (auto simp: on_worker_def split: prod.splits)
  show "holding x' g" using on_worker_holding(2) [OF assms(1) _ assms(2)] apply_range_ok(1) [OF ok] by blast
  show "r = Inr () \<Longrightarrow> dw_last_range (gx_worker x') = Some (low, high)"
    using apply_range_ok(2) [OF ok w'(1)] by (simp add: w'(2))
qed

lemma batch_mask_holding:
  assumes "on_worker (apply_batch_grant_mask env gs) x = (r, x')" and "holding x g"
  shows "holding x' g" "r = Inr rng \<Longrightarrow> batch_grant_range gs = Inr rng \<and> dw_last_range (gx_worker x') = Some rng"
proof -
  have ok: "worker_ok (gx_worker x)" using assms(2) by (simp add: holding_def gated_ok_def)
  obtain w' where w': "apply_batch_grant_mask env gs (gx_worker x) = (r, w')" "x' = x\<lparr>gx_worker := w'\<rparr>"
    using assms(1) by (auto simp: on_worker_def split: prod.splits)
  show "holding x' g" using on_worker_holding(2) [OF assms(1) _ assms(2)] batch_mask_ok(1) [OF ok] by blast
  show "r = Inr rng \<Longrightarrow> batch_grant_range gs = Inr rng \<and> dw_last_range (gx_worker x') = Some rng"
    using batch_mask_ok(2) [OF ok w'(1)] by (simp add: w'(2))
qed

text \<open>A launch and the completion of its step.\<close>

lemma controlled_step_ok:
  assumes hold: "holding x g" and range: "dw_last_range (gx_worker x) = Some rng"
    and asked: "case tab of None \<Rightarrow> rng = (dg_tpc_low g, dg_tpc_high g) | Some gs \<Rightarrow> batch_grant_range gs = Inr rng"
    and run: "controlled_step env args runtime g tab rng outcome x = (r, x')"
  shows "gated_ok x'"
proof -
  obtain ga where ga: "gx_gate x = Some ga" "acquired ga g" and ok: "gated_ok x"
    using hold by (auto simp: holding_def)
  define l where "l = \<lparr> la_grant = g, la_table = tab, la_range = rng, la_mask = worker_mask (gx_worker x) \<rparr>"
  define w where "w = (gx_worker x)\<lparr>dw_controlled := False\<rparr>"
  have "forward_guard env args ((gx_worker x)\<lparr>dw_controlled := True\<rparr>) = (Inr (), (gx_worker x)\<lparr>dw_controlled := True\<rparr>)"
    using range by (intro forward_guard_masked [of _ rng]) simp
  then have "run_controlled env args g tab rng outcome (x\<lparr>gx_worker := (gx_worker x)\<lparr>dw_controlled := True\<rparr>\<rparr>)
      = (outcome, x\<lparr>gx_worker := (gx_worker x)\<lparr>dw_controlled := True\<rparr>, gx_log := gx_log x @ [l]\<rparr>)"
    by (simp add: run_controlled_def py_basic on_worker_def l_def)
  then have step: "controlled_step env args runtime g tab rng outcome x
      = py_finally (\<lambda>x. (outcome, x)) (finish_one_granted_step args runtime (\<not> isl outcome))
          (x\<lparr>gx_log := gx_log x @ [l], gx_worker := w\<rparr>)"
    by (simp add: controlled_step_def py_finally_def py_basic w_def)
  obtain r2 ga2 where closed: "complete_one_step (\<not> isl outcome) ga = (r2, ga2)" by fastforce
  have x': "x' = x\<lparr>gx_log := gx_log x @ [l], gx_worker := w, gx_gate := Some ga2\<rparr>"
    using run closed ga(1) unfolding step
    by (auto simp: py_finally_def finish_one_granted_step_def py_basic on_gate_def split: sum.splits if_splits)
  have "launch_ok l"
    using ok range asked by (cases tab) (simp_all add: l_def launch_ok_def gated_ok_def worker_ok_def)
  moreover have "gate_log_ok 0 ga2 (gx_log x @ [l])"
    using ok ga(1) by (intro complete_ok [OF launch_ok_step [OF _ ga(2)] closed])
      (use ga(2) in \<open>simp_all add: gated_ok_def l_def acquired_def\<close>)
  ultimately show ?thesis using ok by (simp add: x' gated_ok_def w_def)
qed

lemma oom_ok:
  assumes "holding x g" and "on_gate (complete_one_step False) x = (r, x')"
  shows "gated_ok x'"
proof -
  obtain ga where ga: "gx_gate x = Some ga" "acquired ga g" and ok: "gated_ok x"
    using assms(1) by (auto simp: holding_def)
  obtain r2 ga2 where closed: "complete_one_step False ga = (r2, ga2)" by fastforce
  have x': "x' = x\<lparr>gx_gate := Some ga2\<rparr>"
    using assms(2) closed ga(1) by (auto simp: on_gate_def split: sum.splits)
  have "gate_log_ok 0 ga2 (gx_log x)"
    using ok ga complete_ok [OF gate_log_ok_weaken closed] by (simp add: gated_ok_def acquired_def)
  then show ?thesis using ok by (simp add: x' gated_ok_def)
qed

lemma decode_phase_ok:
  assumes ok: "gated_ok x" and run: "granted_decode_phase env args i x = (r, x')"
  shows "gated_ok x'"
  using run [unfolded granted_decode_phase_def]
proof (cases rule: py_bind_cases)
  case (stop e)
  then show ?thesis using poll_holding(1) [OF ok] by blast
next
  case (go grant y)
  show ?thesis
  proof (cases grant)
    case None
    then show ?thesis using go poll_holding(1) [OF ok go(1)] by (simp add: py_basic)
  next
    case (Some g)
    have hold: "holding y g" using poll_holding(2) [OF ok go(1)] Some by simp
    show ?thesis
    proof (cases "pi_decode_mem i")
      case False
      obtain r2 y2 where c: "on_gate (complete_one_step False) y = (r2, y2)" by fastforce
      have "x' = y2 \<or> x' = y"
        using go(2) Some False c by (auto simp: py_basic split: option.splits if_splits sum.splits)
      then show ?thesis using oom_ok [OF hold c] hold by (auto simp: holding_def)
    next
      case True
      then have "py_bind (on_worker (apply_draft_tpc_range env (dg_tpc_low g) (dg_tpc_high g))) (\<lambda>_.
            py_bind (\<lambda>x. (pi_prepare i, x)) (\<lambda>_.
            controlled_step env args (pi_runtime i) g None (dg_tpc_low g, dg_tpc_high g) (pi_outcome i))) y = (r, x')"
        using go(2) Some by simp
      then show ?thesis
      proof (cases rule: py_bind_cases)
        case (stop e)
        then show ?thesis using apply_range_holding(1) [OF stop(1) hold] by (simp add: holding_def)
      next
        case (go u z)
        note z = apply_range_holding [OF go(1) hold]
        show ?thesis
        proof (cases "pi_prepare i")
          case (Inl e)
          then show ?thesis using go(2) z(1) by (simp add: py_basic holding_def)
        next
          case (Inr v)
          then have run: "controlled_step env args (pi_runtime i) g None (dg_tpc_low g, dg_tpc_high g) (pi_outcome i) z = (r, x')"
            using go(2) by (simp add: py_basic)
          show ?thesis using controlled_step_ok [OF z(1) _ _ run] z(2) by simp
        qed
      qed
    qed
  qed
qed

lemma prefill_phase_ok:
  assumes ok: "gated_ok x" and run: "granted_prefill_phase env args gs i x = (r, x')"
  shows "gated_ok x'"
  using run [unfolded granted_prefill_phase_def]
proof (cases rule: py_bind_cases)
  case (stop e)
  then show ?thesis using poll_holding(1) [OF ok] by blast
next
  case (go grant y)
  show ?thesis
  proof (cases grant)
    case None
    then show ?thesis using go poll_holding(1) [OF ok go(1)] by (simp add: py_basic)
  next
    case (Some g)
    have hold: "holding y g" using poll_holding(2) [OF ok go(1)] Some by simp
    have "py_bind (on_worker (apply_draft_tpc_range env (dg_tpc_low g) (dg_tpc_high g))) (\<lambda>_.
            py_bind (\<lambda>x. (pi_prepare i, x)) (\<lambda>_.
            py_bind (on_worker (apply_batch_grant_mask env gs)) (\<lambda>rng.
            controlled_step env args (pi_runtime i) g (Some gs) rng (pi_outcome i)))) y = (r, x')"
      using go(2) Some by simp
    then show ?thesis
    proof (cases rule: py_bind_cases)
      case (stop e)
      then show ?thesis using apply_range_holding(1) [OF stop(1) hold] by (simp add: holding_def)
    next
      case (go u z)
      note z = apply_range_holding(1) [OF go(1) hold]
      from go(2) show ?thesis
      proof (cases rule: py_bind_cases)
        case (go v z')
        then have "z' = z" by simp
        with go(2) have "py_bind (on_worker (apply_batch_grant_mask env gs)) (\<lambda>rng.
            controlled_step env args (pi_runtime i) g (Some gs) rng (pi_outcome i)) z = (r, x')" by simp
        then show ?thesis
        proof (cases rule: py_bind_cases)
          case (stop e)
          then show ?thesis using batch_mask_holding(1) [OF stop(1) z] by (simp add: holding_def)
        next
          case (go rng q)
          note q = batch_mask_holding [OF go(1) z]
          show ?thesis using controlled_step_ok [OF q(1) _ _ go(2)] q(2) by simp
        qed
      qed (use z in \<open>simp add: holding_def\<close>)
    qed
  qed
qed

section \<open>Every run\<close>

lemma calibration_ok:
  assumes "install_calibration_grant tpcs low epoch (gate_new n) = (Inr g, ga)" and "0 \<le> epoch"
  shows "gate_log_ok 0 ga []"
  using assms by (auto simp: install_calibration_grant_def gate_new_def Let_def gate_log_ok_def held_ok_def
      launches_ok_def launches_of_def rbind_Inr_iff split: sum.splits)

lemma gated_init_gate:
  assumes "init_first_grant_gate env args priority \<lparr> gx_gate = None, gx_worker = w, gx_log = [] \<rparr> = (Inr (), x)"
    and "worker_ok w"
  shows "gated_ok x"
proof (cases "sv_specstream_smctrl_enabled args \<and> 0 < sv_specstream_smctrl_calibration_tpcs args")
  case False
  then show ?thesis
    using assms by (auto simp: init_first_grant_gate_def gated_ok_def gate_log_ok_def launches_ok_def gate_new_def
        Let_def split: if_splits)
next
  case True
  define tpcs where "tpcs = sv_specstream_smctrl_calibration_tpcs args"
  have run: "py_bind (on_gate (install_calibration_grant tpcs 0 0))
      (\<lambda>g. case g of None \<Rightarrow> py_return ()
         | Some g \<Rightarrow> on_worker (apply_draft_tpc_range env (dg_tpc_low g) (dg_tpc_high g)))
      \<lparr> gx_gate = Some (gate_new (worker_total_tpcs w)), gx_worker = w, gx_log = [] \<rparr> = (Inr (), x)"
    using assms(1) True by (auto simp: init_first_grant_gate_def Let_def tpcs_def split: if_splits)
  then obtain g ga where g: "install_calibration_grant tpcs 0 0 (gate_new (worker_total_tpcs w)) = (Inr g, ga)"
      and x: "on_worker (apply_draft_tpc_range env (dg_tpc_low g) (dg_tpc_high g))
         \<lparr> gx_gate = Some ga, gx_worker = w, gx_log = [] \<rparr> = (Inr (), x)"
    by (auto simp: py_basic on_gate_def split: sum.splits prod.splits)
  have "gated_ok \<lparr> gx_gate = Some ga, gx_worker = w, gx_log = [] \<rparr>"
    using calibration_ok [OF g] assms(2) by (simp add: gated_ok_def)
  then show ?thesis
    using on_worker_holding(1) [OF x] apply_range_ok(1) [OF assms(2)] by simp
qed

lemma init_draft_smctrl_ok:
  assumes "init_draft_smctrl env args gpu stream draft_worker_new = (Inr (), w)"
    and "\<And>d. snd (se_tpc_info env d) \<le> 128"
  shows "worker_ok w"
  using assms(1) assms(2) [of gpu]
  by (auto simp: init_draft_smctrl_def worker_ok_def draft_worker_new_def sm_controller_new_def get_tpc_count_def
      Let_def rbind_Inr_iff split: sum.splits prod.splits if_splits)

lemma gated_init_ok:
  assumes "gated_init env args x" and "\<And>d. snd (se_tpc_info env d) \<le> 128"
  shows "gated_ok x"
  using assms(1) gated_init_gate init_draft_smctrl_ok [OF _ assms(2)] unfolding gated_init_def by blast

lemma gated_step_ok: "gated_step env args polled x x' \<Longrightarrow> gated_ok x \<Longrightarrow> gated_ok x'"
  by (induction rule: gated_step.induct) (auto intro: decode_phase_ok prefill_phase_ok)

interpretation draft_gate: invariant_system
  "\<lambda>x. gated_init env args x \<and> (\<forall>d. snd (se_tpc_info env d) \<le> 128)" "gated_step env args polled" gated_ok
  for env args polled
  by unfold_locales (auto intro: gated_init_ok gated_step_ok)

lemma gated_launches: "gated_ok x \<Longrightarrow> \<exists>tpcs newest. launches_ok tpcs newest (gx_log x)"
proof (cases "gx_gate x")
  case (Some ga)
  then show "gated_ok x \<Longrightarrow> ?thesis" using gate_log_okD(1) [of 0 ga] by (auto simp: gated_ok_def)
qed (simp add: gated_ok_def launches_ok_def)

lemma reaches_init_mono:
  "reaches init step s \<Longrightarrow> (\<And>s. init s \<Longrightarrow> init' s) \<Longrightarrow> reaches init' step s"
  by (induction rule: reaches.induct) (auto intro: reaches.intros)

text \<open>
  With calibration configured nothing but the calibration grant ever opens the gate: it is the only
  grant the gate holds and the only one of a launch.
\<close>

definition calibration_grant :: "int \<Rightarrow> draft_grant" where
  "calibration_grant tpcs =
     \<lparr> dg_epoch = 0, dg_tpc_low = 0, dg_tpc_high = tpcs, dg_token_budget = 1, dg_deadline_ns = None,
       dg_request_ids = [], dg_persistent = True \<rparr>"

definition calibrated :: "draft_grant \<Rightarrow> gated_drafter \<Rightarrow> bool" where
  "calibrated g x \<longleftrightarrow> (\<forall>ga. gx_gate x = Some ga \<longrightarrow> ga_grant ga \<in> {None, Some g})
     \<and> (\<forall>l \<in> set (gx_log x). la_grant l = g)"

lemma calibrated_simps [simp]:
  "calibrated g (x\<lparr>gx_worker := w\<rparr>) = calibrated g x"
  "calibrated g x \<Longrightarrow> calibrated g (x\<lparr>gx_gate := Some ga\<rparr>) = (ga_grant ga \<in> {None, Some g})"
  "la_grant l = g \<Longrightarrow> calibrated g (x\<lparr>gx_log := gx_log x @ [l]\<rparr>) = calibrated g x"
  by (auto simp: calibrated_def)

lemma calibrated_worker: "on_worker m x = (r, x') \<Longrightarrow> calibrated g x' = calibrated g x"
  by (auto simp: on_worker_def split: prod.splits)

lemma calibrated_poll:
  assumes "calibrated g x" "0 < sv_specstream_smctrl_calibration_tpcs args"
    and "poll_online_grant args runtime t1 t2 ids x = (r, x')"
  shows "calibrated g x'" "r = Inr (Some h) \<Longrightarrow> h = g"
proof -
  have "calibrated g x' \<and> (r = Inr (Some h) \<longrightarrow> h = g)"
  proof (cases "gx_gate x")
    case None
    then show ?thesis using assms by (auto simp: poll_online_grant_def py_basic on_gate_def)
  next
    case (Some ga)
    then have "ga_grant ga \<in> {None, Some g}" using assms(1) by (simp add: calibrated_def)
    with assms Some show ?thesis
      by (auto simp: poll_online_grant_def py_basic on_gate_def gate_poll_def try_acquire_def active_grant_def
          gate_revoke_def split: option.splits if_splits)
  qed
  then show "calibrated g x'" "r = Inr (Some h) \<Longrightarrow> h = g" by simp_all
qed

lemma calibrated_complete:
  assumes "calibrated g x" "on_gate (complete_one_step b) x = (r, x')"
  shows "calibrated g x'"
proof (cases "gx_gate x")
  case (Some ga)
  then have "ga_grant ga \<in> {None, Some g}" using assms(1) by (simp add: calibrated_def)
  with assms Some show ?thesis
    by (auto simp: on_gate_def complete_one_step_def gate_revoke_def Let_def split: option.splits if_splits)
qed (use assms in \<open>simp add: on_gate_def\<close>)

lemma calibrated_controlled:
  assumes ok: "calibrated g x" and run: "controlled_step env args runtime g tab rng outcome x = (r, x')"
  shows "calibrated g x'"
proof -
  obtain r1 x1 where c: "run_controlled env args g tab rng outcome
      (x\<lparr>gx_worker := (gx_worker x)\<lparr>dw_controlled := True\<rparr>\<rparr>) = (r1, x1)" by force
  then have x1: "calibrated g x1"
    using ok by (auto simp: run_controlled_def py_basic calibrated_worker split: sum.splits prod.splits)
  let ?x = "x1\<lparr>gx_worker := (gx_worker x1)\<lparr>dw_controlled := False\<rparr>\<rparr>"
  obtain r2 x2 where f: "on_gate (complete_one_step (\<not> isl r1)) ?x = (r2, x2)" by force
  have "x' = x2"
    using run c f by (auto simp: controlled_step_def py_finally_def py_basic finish_one_granted_step_def
        split: sum.splits if_splits)
  then show ?thesis using calibrated_complete [OF _ f] x1 by simp
qed

lemma calibrated_decode:
  assumes ok: "calibrated g x" and pos: "0 < sv_specstream_smctrl_calibration_tpcs args"
    and run: "granted_decode_phase env args i x = (r, x')"
  shows "calibrated g x'"
  using run [unfolded granted_decode_phase_def]
proof (cases rule: py_bind_cases)
  case (stop e)
  with calibrated_poll(1) [OF ok pos] show ?thesis by blast
next
  case (go grant y)
  note y = calibrated_poll(1) [OF ok pos go(1)]
  show ?thesis
  proof (cases grant)
    case None
    with go y show ?thesis by (simp add: py_basic)
  next
    case (Some h)
    then have h: "h = g" using calibrated_poll(2) [OF ok pos go(1)] by simp
    obtain r1 y1 where w: "on_worker (apply_draft_tpc_range env (dg_tpc_low g) (dg_tpc_high g)) y = (r1, y1)" by force
    obtain r2 y2 where c: "on_gate (complete_one_step False) y = (r2, y2)" by force
    obtain r3 y3 where s: "controlled_step env args (pi_runtime i) g None (dg_tpc_low g, dg_tpc_high g) (pi_outcome i) y1 = (r3, y3)"
      by force
    have "x' \<in> {y, y1, y2, y3}"
      using go(2) w c s by (auto simp: Some h py_basic split: if_splits option.splits sum.splits)
    moreover have "calibrated g y1" using calibrated_worker [OF w] y by simp
    ultimately show ?thesis using y calibrated_complete [OF y c] calibrated_controlled [OF _ s] by auto
  qed
qed

lemma calibrated_prefill:
  assumes ok: "calibrated g x" and pos: "0 < sv_specstream_smctrl_calibration_tpcs args"
    and run: "granted_prefill_phase env args gs i x = (r, x')"
  shows "calibrated g x'"
  using run [unfolded granted_prefill_phase_def]
proof (cases rule: py_bind_cases)
  case (stop e)
  with calibrated_poll(1) [OF ok pos] show ?thesis by blast
next
  case (go grant y)
  note y = calibrated_poll(1) [OF ok pos go(1)]
  show ?thesis
  proof (cases grant)
    case None
    with go y show ?thesis by (simp add: py_basic)
  next
    case (Some h)
    then have h: "h = g" using calibrated_poll(2) [OF ok pos go(1)] by simp
    obtain r1 y1 where w: "on_worker (apply_draft_tpc_range env (dg_tpc_low g) (dg_tpc_high g)) y = (r1, y1)" by force
    obtain r2 y2 where m: "on_worker (apply_batch_grant_mask env gs) y1 = (r2, y2)" by force
    have y2: "calibrated g y1" "calibrated g y2" using calibrated_worker [OF w] calibrated_worker [OF m] y by simp_all
    have "x' \<in> {y1, y2} \<or> (\<exists>rng r3. controlled_step env args (pi_runtime i) g (Some gs) rng (pi_outcome i) y2 = (r3, x'))"
      using go(2) w m by (auto simp: Some h py_basic split: sum.splits)
    then show ?thesis using y2 calibrated_controlled by blast
  qed
qed

lemma calibrated_init:
  assumes "gated_init env args x" and "0 < sv_specstream_smctrl_calibration_tpcs args"
  shows "calibrated (calibration_grant (sv_specstream_smctrl_calibration_tpcs args)) x"
  using assms
  by (auto simp: gated_init_def init_first_grant_gate_def install_calibration_grant_def py_basic on_gate_def
      calibration_grant_def calibrated_worker calibrated_def Let_def on_worker_def
      split: if_splits sum.splits prod.splits option.splits)

lemma calibrated_reached:
  assumes "reaches (gated_init env args) (gated_step env args polled) x"
    and pos: "0 < sv_specstream_smctrl_calibration_tpcs args"
  shows "calibrated (calibration_grant (sv_specstream_smctrl_calibration_tpcs args)) x"
  using assms(1)
proof (induction rule: reaches.induct)
  case (reaches_step x y)
  from reaches_step.hyps(2) show ?case
    by cases (use reaches_step.IH pos in \<open>blast intro: calibrated_decode calibrated_prefill\<close>)+
qed (rule calibrated_init [OF _ pos])

text \<open>
  C11: No controlled Draft forward without a grant.  A controlled forward is a decode step or a
  prefill that the Drafter's scheduler launches under SM control; the batches that the event loop
  runs outside of these two phases are not controlled and not meant here.  On a device with at
  most 128 TPCs, whatever runtime is polled and whatever raises on the way, every controlled
  forward runs under a grant the gate had acquired, on exactly the TPCs asked for: those of that
  grant for a decode step, those common to the grants of the table for a prefill.  Grants are used
  in the order of their epochs and an epoch stands for one grant.  A grant that is not persistent
  launches at most as many forwards as its token budget; a persistent one is not counted.  With
  calibration configured every launch is under the one persistent grant on the first
  \<open>calibration_tpcs\<close> TPCs, and a decode step runs on exactly those.
\<close>

theorem draft_forwards_gated:
  assumes "reaches (gated_init env args) (gated_step env args polled) x"
    and "\<forall>device. snd (se_tpc_info env device) \<le> 128"
  shows "(\<forall>l \<in> set (gx_log x).
            (\<exists>m. la_mask l = Some m
               \<and> (\<forall>i. tpc_enabled m i \<longleftrightarrow> fst (la_range l) \<le> int i \<and> int i < snd (la_range l)))
          \<and> (case la_table l of
               None \<Rightarrow> la_range l = (dg_tpc_low (la_grant l), dg_tpc_high (la_grant l))
             | Some gs \<Rightarrow> batch_grant_range gs = Inr (la_range l))
          \<and> (dg_persistent (la_grant l)
             \<or> launches_of (launch_epoch l) (gx_log x) \<le> dg_token_budget (la_grant l)))
       \<and> sorted (map launch_epoch (gx_log x))
       \<and> (\<forall>l \<in> set (gx_log x). \<forall>l' \<in> set (gx_log x).
            launch_epoch l = launch_epoch l' \<longrightarrow> la_grant l = la_grant l')
       \<and> (0 < sv_specstream_smctrl_calibration_tpcs args \<longrightarrow>
            (\<forall>l \<in> set (gx_log x). la_grant l = calibration_grant (sv_specstream_smctrl_calibration_tpcs args)
               \<and> (la_table l = None \<longrightarrow> la_range l = (0, sv_specstream_smctrl_calibration_tpcs args))))"
proof -
  have "gated_ok x"
    using draft_gate.reaches_inv [OF reaches_init_mono [OF assms(1)]] assms(2) by blast
  then have each: "\<forall>l \<in> set (gx_log x). launch_ok l"
    and "\<exists>tpcs newest. launches_ok tpcs newest (gx_log x)"
    by (simp add: gated_ok_def, rule gated_launches)
  then obtain tpcs newest where log_ok: "launches_ok tpcs newest (gx_log x)" by blast
  have cal: "la_grant l = calibration_grant (sv_specstream_smctrl_calibration_tpcs args)
      \<and> (la_table l = None \<longrightarrow> la_range l = (0, sv_specstream_smctrl_calibration_tpcs args))"
    if "0 < sv_specstream_smctrl_calibration_tpcs args" "l \<in> set (gx_log x)" for l
    using calibrated_reached [OF assms(1) that(1)] that(2) each
    by (auto simp: calibrated_def launch_ok_def calibration_grant_def split: option.splits)
  show ?thesis
    using each log_ok cal unfolding launch_ok_def exact_mask_def launches_ok_def by (intro conjI ballI impI; auto)
qed

text \<open>
  An online grant of one token on the TPCs 0 to 3: the first decode phase launches, the second
  does not.
\<close>

definition demo_draft_args :: server_args where
  "demo_draft_args = demo_args\<lparr>sv_spectre_role := Some ''draft'', sv_specstream_smctrl_calibration_tpcs := 0\<rparr>"

definition demo_runtime :: "ext_obj runtime_object" where
  "demo_runtime n =
     (if n = ''current_draft_grant''
      then Some (\<lambda>s. if s = NoArgs
                     then Inr (Some (ExtFields [(''epoch'', EInt 1), (''tpc_low'', EInt 0), (''tpc_high'', EInt 4)] None))
                     else Inl TypeError)
      else None)"

definition demo_phase :: phase_input where
  "demo_phase = \<lparr> pi_runtime = Some demo_runtime, pi_poll_ns = 0, pi_acquire_ns = 0, pi_request_ids = [''r''],
     pi_decode_mem = True, pi_prepare = Inr (), pi_outcome = Inr () \<rparr>"

definition demo_worker :: draft_worker where
  "demo_worker = snd (init_draft_smctrl demo_env demo_draft_args 0 7 draft_worker_new)"

definition demo_start :: gated_drafter where
  "demo_start = snd (init_first_grant_gate demo_env demo_draft_args True
     \<lparr> gx_gate = None, gx_worker = demo_worker, gx_log = [] \<rparr>)"

definition demo_end :: gated_drafter where
  "demo_end = snd (granted_decode_phase demo_env demo_draft_args demo_phase
     (snd (granted_decode_phase demo_env demo_draft_args demo_phase demo_start)))"

lemma demo_gate_run:
  "fst (init_draft_smctrl demo_env demo_draft_args 0 7 draft_worker_new) = Inr ()"
  "fst (init_first_grant_gate demo_env demo_draft_args True
     \<lparr> gx_gate = None, gx_worker = demo_worker, gx_log = [] \<rparr>) = Inr ()"
  "map la_range (gx_log demo_end) = [(0, 4)]"
  "map la_table (gx_log demo_end) = [None]"
  by code_simp+

lemma demo_reached:
  "gated_init demo_env demo_draft_args demo_start"
  "reaches (gated_init demo_env demo_draft_args) (gated_step demo_env demo_draft_args (\<lambda>_. True)) demo_end"
proof -
  show init: "gated_init demo_env demo_draft_args demo_start"
    unfolding gated_init_def
    by (intro exI [of _ 0] exI [of _ 7] exI [of _ demo_worker] exI [of _ True])
       (simp add: prod_eq_iff demo_gate_run(1,2) demo_worker_def [symmetric] demo_start_def)
  have step: "gated_step demo_env demo_draft_args (\<lambda>_. True) x
      (snd (granted_decode_phase demo_env demo_draft_args demo_phase x))" for x
    by (rule gated_decode [of _ demo_phase _ _ _ "fst (granted_decode_phase demo_env demo_draft_args demo_phase x)"]) simp_all
  show "reaches (gated_init demo_env demo_draft_args) (gated_step demo_env demo_draft_args (\<lambda>_. True)) demo_end"
    unfolding demo_end_def by (rule reaches_step, rule reaches_step, rule reaches_init, rule init, (rule step)+)
qed

theorem draft_forwards_gated_witness:
  "\<exists>l m. gx_log demo_end = [l] \<and> la_range l = (0, 4) \<and> la_mask l = Some m \<and> tpc_enabled m 3 \<and> \<not> tpc_enabled m 4"
proof -
  obtain l where l: "gx_log demo_end = [l]" "la_range l = (0, 4)" using demo_gate_run(3) by auto
  have "\<forall>device. snd (se_tpc_info demo_env device) \<le> 128" by (simp add: demo_env_def)
  from draft_forwards_gated [OF demo_reached(2) this]
  obtain m where "la_mask l = Some m" "\<forall>i. tpc_enabled m i \<longleftrightarrow> 0 \<le> int i \<and> int i < 4"
    unfolding l(1) by (simp only: list.set ball_simps l(2) fst_conv snd_conv) blast
  then show ?thesis using l by auto
qed

section \<open>The online path\<close>

text \<open>No owner has a runtime attribute with a method that is polled.\<close>

definition serves_no_grant :: "(string \<Rightarrow> ext_obj runtime_object option) list \<Rightarrow> bool" where
  "serves_no_grant owners \<longleftrightarrow>
     (\<forall>owner \<in> set owners. \<forall>n \<in> set coexec_runtime_names.
        case owner n of None \<Rightarrow> True | Some rt \<Rightarrow> (\<forall>p \<in> set poll_names. rt p = None))"

lemma existing_runtime_owner:
  assumes "existing_coexec_runtime owners = Some rt"
  shows "\<exists>owner \<in> set owners. \<exists>n \<in> set coexec_runtime_names. owner n = Some rt"
proof -
  obtain rs where "runtime_candidates owners = rt # rs"
    using assms by (auto simp: existing_coexec_runtime_def split: list.splits)
  then have "rt \<in> set (runtime_candidates owners)" by simp
  then show ?thesis by (fastforce simp: runtime_candidates_def split: option.splits)
qed

lemma first_available_none: "\<forall>n \<in> set ns. rt n = None \<Longrightarrow> first_available rt ns shapes = Inr None"
  by (induction ns) simp_all

lemma no_grant_polled:
  assumes "serves_no_grant owners"
  shows "call_runtime_first_available (existing_coexec_runtime owners) poll_names b c = Inr None"
proof (cases "existing_coexec_runtime owners")
  case (Some rt)
  then have "\<forall>p \<in> set poll_names. rt p = None"
    using existing_runtime_owner [OF Some] assms by (fastforce simp: serves_no_grant_def)
  then show ?thesis using Some by (simp add: call_runtime_first_available_def first_available_none)
qed (simp add: call_runtime_first_available_def)

definition gate_empty :: "gated_drafter \<Rightarrow> bool" where
  "gate_empty x \<longleftrightarrow> gx_log x = [] \<and> (\<forall>ga. gx_gate x = Some ga \<longrightarrow> ga_grant ga = None)"

lemma empty_poll:
  assumes "gate_empty x" "sv_specstream_smctrl_calibration_tpcs args \<le> 0" "serves_no_grant owners"
  shows "poll_online_grant args (existing_coexec_runtime owners) t1 t2 ids x = (Inr None, x)"
proof -
  have "gate_poll args (existing_coexec_runtime owners) t1 t2 ids ga = (Inr None, ga)" if "ga_grant ga = None" for ga
    using that assms(2) no_grant_polled [OF assms(3)] by (simp add: gate_poll_def try_acquire_def active_grant_def)
  then show ?thesis
    using assms(1) by (cases "gx_gate x") (simp_all add: poll_online_grant_def py_basic on_gate_def gate_empty_def)
qed

text \<open>
  C20: The online grants of the Target never open the gate.  Without calibration the gate is filled
  only from a runtime object found under one of five attribute names, by a method of one of five
  names.  As long as no such object with such a method exists, as is the case in this program, the
  Drafter under SM control never launches a decode step or a prefill, whatever grants the Target
  has sent to its table.
\<close>

theorem online_gate_never_opens:
  assumes "sv_specstream_smctrl_calibration_tpcs args \<le> 0"
    and "reaches (gated_init env args)
           (gated_step env args (\<lambda>rt. \<exists>owners. serves_no_grant owners \<and> rt = existing_coexec_runtime owners)) x"
  shows "gx_log x = []"
proof -
  have "gate_empty x"
    using assms(2)
  proof (induction rule: reaches.induct)
    case (reaches_init x)
    then show ?case
      using assms(1) by (auto simp: gated_init_def init_first_grant_gate_def gate_empty_def gate_new_def Let_def
          split: if_splits)
  next
    case (reaches_step x y)
    from reaches_step.hyps(2) show ?case
    proof cases
      case (gated_decode i r)
      then show ?thesis
        using empty_poll [OF reaches_step.IH assms(1)] reaches_step.IH
        by (auto simp: granted_decode_phase_def py_basic)
    next
      case (gated_prefill i gs r)
      then show ?thesis
        using empty_poll [OF reaches_step.IH assms(1)] reaches_step.IH
        by (auto simp: granted_prefill_phase_def py_basic)
    qed
  qed
  then show ?thesis by (simp add: gate_empty_def)
qed

text \<open>The Drafter's scheduler and worker have no runtime attribute at all.\<close>

definition demo_closed :: gated_drafter where
  "demo_closed = snd (granted_decode_phase demo_env demo_draft_args
     (demo_phase\<lparr>pi_runtime := existing_coexec_runtime [\<lambda>_. None, \<lambda>_. None]\<rparr>) demo_start)"

theorem online_gate_never_opens_witness:
  "sv_specstream_smctrl_enabled demo_draft_args \<and> gx_log demo_closed = []"
proof -
  let ?i = "demo_phase\<lparr>pi_runtime := existing_coexec_runtime [\<lambda>_. None, \<lambda>_. None]\<rparr>"
  let ?polled = "\<lambda>rt. \<exists>owners. serves_no_grant owners \<and> rt = existing_coexec_runtime owners"
  have "serves_no_grant [\<lambda>_. None, \<lambda>_. None]" by (simp add: serves_no_grant_def)
  then have "gated_step demo_env demo_draft_args ?polled demo_start demo_closed"
    unfolding demo_closed_def
    by (intro gated_decode [of _ ?i _ _ _ "fst (granted_decode_phase demo_env demo_draft_args ?i demo_start)"]) auto
  then have "reaches (gated_init demo_env demo_draft_args) (gated_step demo_env demo_draft_args ?polled) demo_closed"
    by (rule reaches_step [OF reaches_init, rotated]) (rule demo_reached(1))
  then have "gx_log demo_closed = []"
    by (rule online_gate_never_opens [rotated]) (simp add: demo_draft_args_def)
  then show ?thesis by (simp add: demo_draft_args_def demo_args_def)
qed

end
