(* ===== verification/StagingSafety.thy ===== *)
theory StagingSafety
  imports Staging
begin

text \<open>
  Safety of the staging windows: every transfer fills the buffers of its slot with the contents of
  its sources, whatever is submitted, consumed or discarded afterwards, and in whatever order the
  device executes.
\<close>

section \<open>Buffers of a slot\<close>

definition owned :: "buf_kind \<Rightarrow> stage_buffer option list \<Rightarrow> bool" where
  "owned k ws \<longleftrightarrow> (\<forall>s < length ws. \<forall>w. ws ! s = Some w \<longrightarrow> (\<exists>n. wi_buf w = Buf k s n))"

definition buffers_ok :: "'e staging_pool \<Rightarrow> bool" where
  "buffers_ok p \<longleftrightarrow>
     0 < sp_num_buffers p \<and> owned Window (sp_buffers p) \<and> length (sp_buffers p) = sp_num_buffers p
   \<and> owned Pack (sp_host_buffers p) \<and> length (sp_host_buffers p) = sp_num_buffers p
   \<and> owned Valid (sp_valid_buffers p) \<and> length (sp_valid_buffers p) = sp_num_buffers p
   \<and> owned ValidPack (sp_valid_host_buffers p) \<and> length (sp_valid_host_buffers p) = sp_num_buffers p"

lemma owned_update: "owned k ws \<Longrightarrow> wi_buf w = Buf k s n \<Longrightarrow> owned k (ws[s := Some w])"
  unfolding owned_def by (metis length_list_update nth_list_update_eq nth_list_update_neq option.inject)

lemma owned_get: "owned k ws \<Longrightarrow> s < length ws \<Longrightarrow> fits (ws ! s) dtype required \<Longrightarrow> \<exists>n. wi_buf (the (ws ! s)) = Buf k s n"
  by (auto simp: owned_def fits_def split: option.splits)

text \<open>Steps that allocate and wait but write nothing.\<close>

definition calm :: "'e staging_pool \<Rightarrow> 'e staging_pool \<Rightarrow> bool" where
  "calm p p' \<longleftrightarrow>
     (\<exists>ops. sp_trace p' = sp_trace p @ ops \<and> (\<forall>o' \<in> set ops. \<not> is_write (snd o')))
   \<and> sp_num_buffers p' = sp_num_buffers p \<and> sp_copy_stream p' = sp_copy_stream p
   \<and> sp_ready_events p' = sp_ready_events p \<and> sp_free_events p' = sp_free_events p
   \<and> (buffers_ok p \<longrightarrow> buffers_ok p')"

lemma calm_refl: "calm p p"
  by (auto simp: calm_def intro: exI [of _ "[]"])

lemma calm_trans:
  assumes "calm p q" "calm q r"
  shows "calm p r"
proof -
  obtain a where a: "sp_trace q = sp_trace p @ a" "\<forall>o' \<in> set a. \<not> is_write (snd o')" using assms(1) by (auto simp: calm_def)
  obtain b where b: "sp_trace r = sp_trace q @ b" "\<forall>o' \<in> set b. \<not> is_write (snd o')" using assms(2) by (auto simp: calm_def)
  have "sp_trace r = sp_trace p @ (a @ b) \<and> (\<forall>o' \<in> set (a @ b). \<not> is_write (snd o'))" using a b by auto
  moreover have "sp_num_buffers r = sp_num_buffers p" "sp_copy_stream r = sp_copy_stream p"
    "sp_ready_events r = sp_ready_events p" "sp_free_events r = sp_free_events p" "buffers_ok p \<longrightarrow> buffers_ok r"
    using assms by (simp_all add: calm_def)
  ultimately show ?thesis unfolding calm_def by (intro conjI exI [of _ "a @ b"]) simp_all
qed

lemma calm_inv:
  assumes "calm p p'" "pool_inv p live reads"
  shows "pool_inv p' live reads"
proof -
  obtain ops where ops: "sp_trace p' = sp_trace p @ ops" "\<forall>o' \<in> set ops. \<not> is_write (snd o')"
    using assms(1) by (auto simp: calm_def)
  have "grows p ops (p\<lparr>sp_trace := sp_trace p @ ops\<rparr>)"
    using assms(2) by (intro grows_trace) (simp add: pool_inv_def)
  then have "pool_inv (p\<lparr>sp_trace := sp_trace p @ ops\<rparr>) live reads"
    using assms(2) ops(2) by (rule pool_inv_quiet)
  then show ?thesis
    using assms(1) ops(1) pool_inv_cong [of p' "p\<lparr>sp_trace := sp_trace p @ ops\<rparr>"] by (simp add: calm_def)
qed

lemma calm_pack_free: "calm p p' \<Longrightarrow> pack_free p s \<Longrightarrow> pack_free p' s"
  using pack_free_append no_write(2) unfolding calm_def by metis

lemma calm_pack_cell:
  assumes "calm p p'" "pack_cell p x v"
  shows "pack_cell p' x v"
proof -
  obtain ops where ops: "sp_trace p' = sp_trace p @ ops" "\<forall>o' \<in> set ops. \<not> is_write (snd o')"
    using assms(1) by (auto simp: calm_def)
  obtain w off es where w: "w < length (sp_trace p)" "snd (sp_trace p ! w) = PutElems (fst x) off es" "off \<le> snd x"
      "snd x < off + length es" "v = es ! (snd x - off)" "\<forall>j. writes_at (sp_trace p) j x \<longrightarrow> j \<le> w"
    using assms(2) unfolding pack_cell_def by blast
  have "j \<le> w" if j: "writes_at (sp_trace p') j x" for j
  proof (cases "j < length (sp_trace p)")
    case True
    then show ?thesis using w(6) j by (simp add: ops(1) nth_append)
  next
    case False
    then show ?thesis using new_op [OF ops(1), of j] ops(2) j no_write(1) by (metis not_less)
  qed
  then show ?thesis
    unfolding pack_cell_def using w(1-5) by (intro exI [of _ w] exI [of _ off] exI [of _ es]) (simp add: ops(1) nth_append)
qed

lemma calm_issue: "\<not> is_write op \<Longrightarrow> calm p (issue_op s op p)"
  by (simp add: calm_def issue_op_def buffers_ok_def)

lemma wait_host_calm: "calm p (wait_host_slot_writable s p)"
  by (auto simp: wait_host_slot_writable_def calm_refl calm_issue split: option.splits)

lemma wait_host_pack_free:
  assumes inv: "pool_inv p live reads" and s: "s < sp_num_buffers p"
  shows "pack_free (wait_host_slot_writable s p) s"
proof -
  have ok: "trace_ok p" "events_ok p" using inv by (simp_all add: pool_inv_def)
  have mv: "fst (sp_trace p ! w) = copier p
      \<and> (sp_copy_stream p \<longrightarrow> (\<exists>r. sp_ready_events p ! buf_slot src = Some r \<and> before (sp_trace p) w r))"
    if "w < length (sp_trace p)" "snd (sp_trace p ! w) = MoveElems b src n" for w b src n
    using ok(1) that unfolding trace_ok_def by blast
  show ?thesis
  proof (cases "sp_copy_stream p")
    case False
    then show ?thesis using mv unfolding wait_host_slot_writable_def pack_free_def copier_def by simp
  next
    case True
    show ?thesis
    proof (cases "sp_ready_events p ! s")
      case None
      then have "wait_host_slot_writable s p = p" by (simp add: wait_host_slot_writable_def)
      moreover have "buf_slot src \<noteq> s" if "w < length (sp_trace p)" "snd (sp_trace p ! w) = MoveElems b src n" for w b src n
        using mv [OF that] True None by auto
      ultimately show ?thesis unfolding pack_free_def by auto
    next
      case (Some i)
      let ?tr = "sp_trace p @ [(HostThread, WaitFor i)]" and ?h = "length (sp_trace p)"
      have tr: "sp_trace (wait_host_slot_writable s p) = ?tr"
        using True Some by (simp add: wait_host_slot_writable_def issue_op_def)
      have h: "before ?tr i ?h" using events_okD(1) [OF ok(2) s Some] by (intro wait_before) simp_all
      have "before ?tr w ?h" if w: "w < length ?tr" "snd (?tr ! w) = MoveElems b src n" "buf_slot src = s" for w b src n
      proof -
        have "w < length (sp_trace p)" using w(1,2) by (cases "w = length (sp_trace p)") simp_all
        then have "before (sp_trace p) w i" using mv [of w b src n] w True Some by (simp add: nth_append)
        then show ?thesis using before_append h before_trans by blast
      qed
      then show ?thesis unfolding pack_free_def tr by (metis fst_conv nth_append_length)
    qed
  qed
qed

section \<open>Allocation\<close>

lemma calm_window:
  assumes "buffers_ok p \<Longrightarrow> buffers_ok p'" "sp_trace p' = sp_trace p" "sp_num_buffers p' = sp_num_buffers p"
    "sp_copy_stream p' = sp_copy_stream p" "sp_ready_events p' = sp_ready_events p" "sp_free_events p' = sp_free_events p"
  shows "calm p p'"
  using assms by (simp add: calm_def)

lemma ensure_host_spec:
  assumes "ensure_host_shape slot shape dtype itemsize p = (r, p')"
  shows "calm p p'" "r = Inr w \<Longrightarrow> buffers_ok p \<Longrightarrow> 0 \<le> slot \<and> nat slot < sp_num_buffers p \<and> (\<exists>n. wi_buf w = Buf Pack (nat slot) n)"
proof -
  show "calm p p'"
    using assms
    by (auto simp: ensure_host_shape_def new_window_def Let_def calm_refl buffers_ok_def split: if_splits
        intro!: calm_window owned_update)
  show "0 \<le> slot \<and> nat slot < sp_num_buffers p \<and> (\<exists>n. wi_buf w = Buf Pack (nat slot) n)"
    if "r = Inr w" "buffers_ok p"
    using assms that owned_get [of Pack "sp_host_buffers p" "nat slot" dtype "prod_list shape"]
    by (auto simp: ensure_host_shape_def new_window_def Let_def buffers_ok_def split: if_splits)
qed

lemma ensure_shape_spec:
  assumes "ensure_shape slot shape dtype itemsize p = (r, p')"
  shows "calm p p'" "r = Inr w \<Longrightarrow> buffers_ok p \<Longrightarrow> 0 \<le> slot \<and> nat slot < sp_num_buffers p \<and> (\<exists>n. wi_buf w = Buf Window (nat slot) n)"
proof -
  let ?q = "if sp_copy_stream p then issue_op HostThread (SyncStream ComputeStream) p else p"
  have q: "calm p ?q" by (simp add: calm_issue calm_refl)
  let ?w = "\<lparr> wi_buf = Buf Window (nat slot) (sp_allocated ?q), wi_dtype = dtype, wi_itemsize = itemsize,
      wi_numel = prod_list shape \<rparr>"
  have "p' = p \<or> p' = ?q\<lparr>sp_allocated := sp_allocated ?q + 1, sp_buffers := (sp_buffers ?q)[nat slot := Some ?w]\<rparr>"
    using assms by (simp add: ensure_shape_def new_window_def Let_def split: if_splits)
  then show "calm p p'"
  proof
    assume p': "p' = ?q\<lparr>sp_allocated := sp_allocated ?q + 1, sp_buffers := (sp_buffers ?q)[nat slot := Some ?w]\<rparr>"
    have "calm ?q p'"
      by (rule calm_window) (simp_all add: p' buffers_ok_def owned_update)
    then show ?thesis using q calm_trans by blast
  qed (simp add: calm_refl)
  show "0 \<le> slot \<and> nat slot < sp_num_buffers p \<and> (\<exists>n. wi_buf w = Buf Window (nat slot) n)"
    if "r = Inr w" "buffers_ok p"
    using assms that owned_get [of Window "sp_buffers p" "nat slot" dtype "prod_list shape"]
    by (auto simp: ensure_shape_def new_window_def Let_def buffers_ok_def split: if_splits)
qed

lemma ensure_valid_spec:
  assumes "ensure_valid_shape s cnt p = ((h, d), p')" and "buffers_ok p" "s < sp_num_buffers p"
  shows "calm p p'" "\<exists>n. wi_buf h = Buf ValidPack s n" "\<exists>n. wi_buf d = Buf Valid s n"
proof -
  define hp where "hp = (if fits (sp_valid_host_buffers p ! s) ''int32'' cnt then (the (sp_valid_host_buffers p ! s), p)
      else let (w, q) = new_window ValidPack s ''int32'' 4 cnt p
           in (w, q\<lparr>sp_valid_host_buffers := (sp_valid_host_buffers q)[s := Some w]\<rparr>))"
  define dp where "dp = (if fits (sp_valid_buffers p ! s) ''int32'' cnt then (the (sp_valid_buffers p ! s), snd hp)
      else let (w, q) = new_window Valid s ''int32'' 4 cnt (snd hp)
           in (w, q\<lparr>sp_valid_buffers := (sp_valid_buffers q)[s := Some w]\<rparr>))"
  have eq: "h = fst hp" "d = fst dp" "p' = snd dp"
    using assms(1) by (auto simp: ensure_valid_shape_def hp_def dp_def Let_def split: prod.splits)
  have "calm p (snd hp)"
    by (auto simp: hp_def new_window_def calm_refl buffers_ok_def intro!: calm_window owned_update)
  moreover have "calm (snd hp) (snd dp)"
    by (auto simp: dp_def new_window_def calm_refl buffers_ok_def intro!: calm_window owned_update)
  ultimately show "calm p p'" using calm_trans eq by blast
  show "\<exists>n. wi_buf h = Buf ValidPack s n"
    using assms(2,3) owned_get [of ValidPack "sp_valid_host_buffers p" s "''int32''" cnt]
    by (auto simp: eq(1) hp_def new_window_def buffers_ok_def)
  show "\<exists>n. wi_buf d = Buf Valid s n"
    using assms(2,3) owned_get [of Valid "sp_valid_buffers p" s "''int32''" cnt]
    by (auto simp: eq(2) dp_def new_window_def buffers_ok_def)
qed

section \<open>What the copies of a list of sources write\<close>

definition rows_ok :: "nat \<Rightarrow> 'e cpu_tensor list \<Rightarrow> bool" where
  "rows_ok row ss \<longleftrightarrow> (\<forall>s \<in> set ss. length (ct_data s) = hd (ct_shape s) * row)"

definition group_data :: "'e cpu_tensor list \<Rightarrow> 'e list" where
  "group_data g = concat (map ct_data g)"

lemma length_group_data: "rows_ok row g \<Longrightarrow> length (group_data g) = group_length g * row"
  by (induction g) (simp_all add: rows_ok_def group_data_def group_length_def algebra_simps)

lemma slab_copies_ops: "op \<in> fst ` set (slab_copies b row cursor ss) \<Longrightarrow> \<exists>off es. op = PutElems b off es"
  by (induction b row cursor ss rule: slab_copies.induct) auto

lemma slab_copies_range:
  "rows_ok row ss \<Longrightarrow> op \<in> fst ` set (slab_copies b row cursor ss) \<Longrightarrow> op_writes op (b, c) \<Longrightarrow>
     cursor * row \<le> c \<and> c < (cursor + group_length ss) * row"
proof (induction b row cursor ss rule: slab_copies.induct)
  case (2 b row cursor s ss)
  have len: "length (ct_data s) = hd (ct_shape s) * row" and rest: "rows_ok row ss" using 2(2) by (simp_all add: rows_ok_def)
  have gl: "group_length (s # ss) = hd (ct_shape s) + group_length ss" by (simp add: group_length_def)
  from 2(3) consider "op = PutElems b (cursor * row) (map Elem (ct_data s))"
    | "op \<in> fst ` set (slab_copies b row (cursor + hd (ct_shape s)) ss)"
    by auto
  then show ?case
  proof cases
    case 1
    then show ?thesis using 2(4) len by (simp add: gl algebra_simps)
  next
    case 2
    then have "(cursor + hd (ct_shape s)) * row \<le> c \<and> c < (cursor + hd (ct_shape s) + group_length ss) * row"
      using "2.IH" rest \<open>op_writes op (b, c)\<close> by blast
    then show ?thesis by (simp add: gl algebra_simps)
  qed
qed simp

definition one_put :: "'e gpu_op list \<Rightarrow> buf \<times> nat \<Rightarrow> 'e elem \<Rightarrow> bool" where
  "one_put ops x v \<longleftrightarrow>
     (\<exists>off es. filter (\<lambda>op. op_writes op x) ops = [PutElems (fst x) off es]
        \<and> off \<le> snd x \<and> snd x < off + length es \<and> v = es ! (snd x - off))"

lemma one_put_append:
  assumes "one_put ops x v"
  shows "\<forall>op \<in> set ops'. \<not> op_writes op x \<Longrightarrow> one_put (ops @ ops') x v"
    "\<forall>op \<in> set ops'. \<not> op_writes op x \<Longrightarrow> one_put (ops' @ ops) x v"
  using assms by (simp_all add: one_put_def)

lemma slab_copies_fill:
  "rows_ok row ss \<Longrightarrow> c < length (group_data ss) \<Longrightarrow>
     one_put (map fst (slab_copies b row cursor ss)) (b, cursor * row + c) (Elem (group_data ss ! c))"
proof (induction b row cursor ss arbitrary: c rule: slab_copies.induct)
  case (1 b row cursor)
  then show ?case by (simp add: group_data_def)
next
  case (2 b row cursor s ss)
  have len: "length (ct_data s) = hd (ct_shape s) * row" and rest: "rows_ok row ss" using 2(2) by (simp_all add: rows_ok_def)
  have data: "group_data (s # ss) = ct_data s @ group_data ss" by (simp add: group_data_def)
  let ?x = "(b, cursor * row + c)"
  show ?case
  proof (cases "c < length (ct_data s)")
    case True
    have "\<not> op_writes op ?x" if "op \<in> fst ` set (slab_copies b row (cursor + hd (ct_shape s)) ss)" for op
      using slab_copies_range [OF rest that, of "cursor * row + c"] True len by (auto simp: algebra_simps)
    then have none: "filter (\<lambda>op. op_writes op ?x) (map fst (slab_copies b row (cursor + hd (ct_shape s)) ss)) = []"
      by (auto simp: filter_empty_conv)
    show ?thesis
      unfolding one_put_def
      by (intro exI [of _ "cursor * row"] exI [of _ "map Elem (ct_data s)"]) (use True none in \<open>simp add: data nth_append\<close>)
  next
    case False
    have pos: "(cursor + hd (ct_shape s)) * row + (c - length (ct_data s)) = cursor * row + c"
      using False len by (simp add: algebra_simps)
    have "one_put (map fst (slab_copies b row (cursor + hd (ct_shape s)) ss)) ?x
        (Elem (group_data ss ! (c - length (ct_data s))))"
      unfolding pos [symmetric] using 2(3) False rest data by (intro 2(1)) auto
    moreover have "\<not> op_writes (PutElems b (cursor * row) (map Elem (ct_data s))) ?x" using False by simp
    ultimately show ?thesis using False by (simp add: one_put_def data nth_append)
  qed
qed

lemma group_copies_ops: "op \<in> fst ` set (group_copies b row mx i gs) \<Longrightarrow> \<exists>off es. op = PutElems b off es"
proof (induction b row mx i gs rule: group_copies.induct)
  case (2 b row mx i g gs)
  then show ?case using slab_copies_ops [of op b row "i * mx" g] by (auto simp: image_Un)
qed simp

lemma group_copies_range:
  "\<forall>g \<in> set gs. rows_ok row g \<and> group_length g \<le> mx \<Longrightarrow> op \<in> fst ` set (group_copies b row mx i gs)
     \<Longrightarrow> op_writes op (b, c) \<Longrightarrow> i * mx * row \<le> c"
proof (induction b row mx i gs rule: group_copies.induct)
  case (2 b row mx i g gs)
  from 2(3) consider "op \<in> fst ` set (slab_copies b row (i * mx) g)" | "op \<in> fst ` set (group_copies b row mx (Suc i) gs)"
    by auto
  then show ?case
  proof cases
    case 1
    then show ?thesis using slab_copies_range [of row g op b "i * mx" c] 2(2,4) by simp
  next
    case 2
    then have "Suc i * mx * row \<le> c" using \<open>\<forall>g \<in> set (g # gs). _\<close> \<open>op_writes op (b, c)\<close> "2.IH" by simp
    then show ?thesis by (simp add: algebra_simps)
  qed
qed simp

lemma group_copies_fill:
  "\<forall>g \<in> set gs. rows_ok row g \<and> group_length g \<le> mx \<Longrightarrow> k < length gs \<Longrightarrow> c < length (group_data (gs ! k)) \<Longrightarrow>
     one_put (map fst (group_copies b row mx i gs)) (b, (i + k) * mx * row + c) (Elem (group_data (gs ! k) ! c))"
proof (induction b row mx i gs arbitrary: k rule: group_copies.induct)
  case (2 b row mx i g gs)
  have g: "rows_ok row g" "group_length g \<le> mx" and rest: "\<forall>g \<in> set gs. rows_ok row g \<and> group_length g \<le> mx"
    using 2(2) by simp_all
  have le: "group_length g * row \<le> mx * row" using g(2) by simp
  show ?case
  proof (cases k)
    case 0
    then have c: "c < group_length g * row" using 2(4) length_group_data [OF g(1)] by simp
    have "\<not> op_writes op (b, i * mx * row + c)" if "op \<in> set (map fst (group_copies b row mx (Suc i) gs))" for op
      using group_copies_range [OF rest, of op b "Suc i" "i * mx * row + c"] that c le by (auto simp: algebra_simps)
    moreover have "one_put (map fst (slab_copies b row (i * mx) g)) (b, i * mx * row + c) (Elem (group_data g ! c))"
      using slab_copies_fill [OF g(1), of c b "i * mx"] 0 2(4) by simp
    ultimately show ?thesis using 0 one_put_append(1) by fastforce
  next
    case (Suc k')
    have "one_put (map fst (group_copies b row mx (Suc i) gs)) (b, (Suc i + k') * mx * row + c) (Elem (group_data (gs ! k') ! c))"
      using "2.IH" rest 2(3,4) Suc by simp
    moreover have "\<not> op_writes op (b, (Suc i + k') * mx * row + c)" if op: "op \<in> set (map fst (slab_copies b row (i * mx) g))" for op
    proof
      assume "op_writes op (b, (Suc i + k') * mx * row + c)"
      then have "(Suc i + k') * mx * row + c < (i * mx + group_length g) * row"
        using slab_copies_range [OF g(1), of op b "i * mx"] op by auto
      also have "\<dots> \<le> (i * mx + mx) * row" using g(2) by simp
      also have "\<dots> = Suc i * mx * row" by (simp add: algebra_simps)
      also have "\<dots> \<le> (Suc i + k') * mx * row" by (intro mult_le_mono) simp_all
      finally show False by simp
    qed
    ultimately show ?thesis using Suc one_put_append(2) by fastforce
  qed
qed simp

lemma length_writes_ops: "op \<in> set (length_writes b lens) \<Longrightarrow> \<exists>off es. op = PutElems b off es"
  by (auto simp: length_writes_def)

lemma length_writes_fill:
  assumes "k < length lens"
  shows "one_put (length_writes b lens) (b, k) (Len (lens ! k))"
proof -
  have split: "[0..<length lens] = [0..<k] @ k # [Suc k..<length lens]"
    using assms by (metis less_imp_le_nat le_add_same_cancel1 upt_add_eq_append upt_conv_Cons zero_le add_0 le_add_diff_inverse)
  have "filter (\<lambda>op. op_writes op (b, k)) (length_writes b lens) = [PutElems b k [Len (lens ! k)]]"
    unfolding length_writes_def split by (simp add: filter_empty_conv)
  then show ?thesis unfolding one_put_def by (intro exI [of _ k] exI [of _ "[Len (lens ! k)]"]) simp
qed

section \<open>Requests and their promises\<close>

datatype 'e request =
    One "'e cpu_tensor"
  | Many "'e cpu_tensor list"
  | Cohort "'e cpu_tensor list list"
  | Direct "'e cpu_tensor list list"

fun do_submit :: "'e request \<Rightarrow> int \<Rightarrow> ('e staging_pool, transfer) py" where
  "do_submit (One t) slot = submit t slot"
| "do_submit (Many ss) slot = submit_many ss slot"
| "do_submit (Cohort gs) slot = submit_cohort_groups gs slot"
| "do_submit (Direct gs) slot = submit_cohort_direct gs slot"

fun request_tensors :: "'e request \<Rightarrow> 'e cpu_tensor list" where
  "request_tensors (One t) = [t]"
| "request_tensors (Many ss) = ss"
| "request_tensors (Cohort gs) = concat gs"
| "request_tensors (Direct gs) = concat gs"

text \<open>A tensor has as many elements as its shape says.\<close>

definition tensor_ok :: "'e cpu_tensor \<Rightarrow> bool" where
  "tensor_ok t \<longleftrightarrow> length (ct_data t) = prod_list (ct_shape t)"

definition window_cells :: "buf \<Rightarrow> nat \<Rightarrow> 'e list \<Rightarrow> ((buf \<times> nat) \<times> 'e elem) set" where
  "window_cells b off es = {((b, off + k), Elem (es ! k)) | k. k < length es}"

text \<open>
  Item \<open>i\<close> of a cohort window starts after \<open>i\<close> items of the longest group's size and holds the rows
  of group \<open>i\<close>; entry \<open>i\<close> of the valid lengths is the number of its rows.
\<close>

definition cohort_cells :: "buf \<Rightarrow> buf \<Rightarrow> 'e cpu_tensor list list \<Rightarrow> ((buf \<times> nat) \<times> 'e elem) set" where
  "cohort_cells b vb gs =
     (\<Union>i < length gs. window_cells b (i * Max (set (map group_length gs)) * row_elems (hd (concat gs))) (group_data (gs ! i)))
     \<union> {((vb, i), Len (group_length (gs ! i))) | i. i < length gs}"

fun promised :: "'e request \<Rightarrow> transfer \<Rightarrow> ((buf \<times> nat) \<times> 'e elem) set" where
  "promised (One t) tf = window_cells (wi_buf (tf_window tf)) 0 (ct_data t)"
| "promised (Many ss) tf = window_cells (wi_buf (tf_window tf)) 0 (group_data ss)"
| "promised (Cohort gs) tf =
     (case tf_valid_tokens tf of None \<Rightarrow> {} | Some (vw, n) \<Rightarrow> cohort_cells (wi_buf (tf_window tf)) (wi_buf vw) gs)"
| "promised (Direct gs) tf =
     (case tf_valid_tokens tf of None \<Rightarrow> {} | Some (vw, n) \<Rightarrow> cohort_cells (wi_buf (tf_window tf)) (wi_buf vw) gs)"

definition promise_of :: "'e request \<Rightarrow> transfer \<Rightarrow> 'e promise" where
  "promise_of req t = \<lparr> pm_slot = tf_slot t, pm_cells = promised req t \<rparr>"

lemma buffers_ok_issue [simp]: "buffers_ok (issue_op s op p) = buffers_ok p" "sp_num_buffers (issue_op s op p) = sp_num_buffers p"
  by (simp_all add: issue_op_def buffers_ok_def)

lemma buffers_ok_copies [simp]:
  "buffers_ok (issue_copies cs p) = buffers_ok p" "sp_num_buffers (issue_copies cs p) = sp_num_buffers p"
  by (induction cs p rule: issue_copies.induct) (simp_all add: Let_def)

lemma buffers_ok_enqueue [simp]:
  "buffers_ok (enqueue s cs p) = buffers_ok p" "sp_num_buffers (enqueue s cs p) = sp_num_buffers p"
proof -
  have ready: "buffers_ok (q\<lparr>sp_ready_events := r\<rparr>) = buffers_ok q" for q :: "'a staging_pool" and r
    by (simp add: buffers_ok_def)
  show "buffers_ok (enqueue s cs p) = buffers_ok p"
    by (simp add: enqueue_def Let_def ready split: option.split)
  show "sp_num_buffers (enqueue s cs p) = sp_num_buffers p"
    by (simp add: enqueue_def Let_def split: option.split)
qed

lemma issue_host_eq: "issue_host ops p = p\<lparr>sp_trace := sp_trace p @ map (Pair HostThread) ops\<rparr>"
  by (induction ops arbitrary: p) (simp_all add: issue_op_def)

lemma buffers_ok_host [simp]: "buffers_ok (issue_host ops p) = buffers_ok p" "sp_num_buffers (issue_host ops p) = sp_num_buffers p"
  by (simp_all add: issue_host_eq buffers_ok_def)

lemma one_put_fills: "one_put ops x v \<Longrightarrow> fills p ops x v"
  unfolding one_put_def fills_def by blast

lemma pack_cell_append:
  assumes cell: "pack_cell p x v" and tr: "sp_trace p' = sp_trace p @ ops" and quiet: "\<forall>o' \<in> set ops. \<not> op_writes (snd o') x"
  shows "pack_cell p' x v"
proof -
  obtain w off es where w: "w < length (sp_trace p)" "snd (sp_trace p ! w) = PutElems (fst x) off es" "off \<le> snd x"
      "snd x < off + length es" "v = es ! (snd x - off)" "\<forall>j. writes_at (sp_trace p) j x \<longrightarrow> j \<le> w"
    using cell unfolding pack_cell_def by blast
  have "j \<le> w" if j: "writes_at (sp_trace p') j x" for j
  proof (cases "j < length (sp_trace p)")
    case True
    then show ?thesis using w(6) j by (simp add: tr nth_append)
  next
    case False
    then show ?thesis using new_op [OF tr, of j] quiet j by (metis not_less)
  qed
  then show ?thesis
    unfolding pack_cell_def using w(1-5) by (intro exI [of _ w] exI [of _ off] exI [of _ es]) (simp add: tr nth_append)
qed

lemma one_put_pack_cell:
  assumes "one_put ops x v"
  shows "pack_cell (issue_host ops p) x v"
proof -
  obtain off es where f: "filter (\<lambda>op. op_writes op x) ops = [PutElems (fst x) off es]"
      and c: "off \<le> snd x" "snd x < off + length es" "v = es ! (snd x - off)"
    using assms unfolding one_put_def by blast
  obtain k where k: "k < length ops" "ops ! k = PutElems (fst x) off es" "\<forall>i < length ops. op_writes (ops ! i) x \<longrightarrow> i = k"
    using filter_single [OF f] by blast
  let ?w = "length (sp_trace p) + k"
  have "j \<le> ?w" if "writes_at (sp_trace (issue_host ops p)) j x" for j
  proof (cases "j < length (sp_trace p)")
    case False
    then have "op_writes (ops ! (j - length (sp_trace p))) x" "j - length (sp_trace p) < length ops"
      using that by (auto simp: issue_host_eq nth_append)
    then have "j - length (sp_trace p) = k" using k(3) by blast
    then show ?thesis by simp
  qed simp
  then show ?thesis
    unfolding pack_cell_def using k(1,2) c
    by (intro exI [of _ ?w] exI [of _ off] exI [of _ es]) (simp add: issue_host_eq nth_append)
qed

lemma enqueue_promise:
  assumes inv: "pool_inv p live reads" and s: "s < sp_num_buffers p" and idle: "\<forall>m \<in> live. pm_slot m \<noteq> s"
    and cs: "\<forall>op \<in> fst ` set cs. slot_copy s op"
    and cells: "\<And>x v. (x, v) \<in> cells \<Longrightarrow> on_device (fst x) \<and> buf_slot (fst x) = s \<and> fills p (map fst cs) x v"
  shows "pool_inv (enqueue s cs p) (insert \<lparr> pm_slot = s, pm_cells = cells \<rparr> live) reads"
proof -
  have "pool_inv (enqueue s cs p) live reads" by (rule enqueue_inv [OF inv s idle cs])
  moreover have "live_ok (enqueue s cs p) \<lparr> pm_slot = s, pm_cells = cells \<rparr>"
    using enqueue_settled [OF inv s cs] cells s unfolding live_ok_def by auto
  ultimately show ?thesis by (simp add: pool_inv_def)
qed

lemma sources_geometry:
  assumes "rmap (source_error first) ss = Inr us" and "\<forall>t \<in> set ss. tensor_ok t"
  shows "rows_ok (row_elems first) ss"
  unfolding rows_ok_def
proof
  fix t assume t: "t \<in> set ss"
  then obtain i where "i < length ss" "t = ss ! i" by (metis in_set_conv_nth)
  then have "source_error first t = Inr (us ! i)" using rmap_Inr_conv [OF assms(1)] by auto
  then have "ct_shape t \<noteq> []" "tl (ct_shape t) = tl (ct_shape first)" by (auto simp: source_error_def)
  moreover have "length (ct_data t) = prod_list (ct_shape t)" using assms(2) t by (simp add: tensor_ok_def)
  ultimately show "length (ct_data t) = hd (ct_shape t) * row_elems first"
    by (cases "ct_shape t") (simp_all add: row_elems_def)
qed

section \<open>Submissions keep the invariant\<close>

definition submitted ::
    "'e promise set \<Rightarrow> 'e reading set \<Rightarrow> 'e request \<Rightarrow> int \<Rightarrow> transfer res \<Rightarrow> 'e staging_pool \<Rightarrow> bool" where
  "submitted live reads req slot r p' \<longleftrightarrow>
     buffers_ok p'
   \<and> (case r of Inl e \<Rightarrow> pool_inv p' live reads
      | Inr t \<Rightarrow> tf_slot t = nat slot \<and> pool_inv p' (insert (promise_of req t) live) reads)"

lemma calm_num: "calm p p' \<Longrightarrow> sp_num_buffers p' = sp_num_buffers p"
  and calm_buffers: "calm p p' \<Longrightarrow> buffers_ok p \<Longrightarrow> buffers_ok p'"
  by (simp_all add: calm_def)

lemma submitted_error: "calm p p' \<Longrightarrow> pool_inv p live reads \<Longrightarrow> buffers_ok p \<Longrightarrow> submitted live reads req slot (Inl e) p'"
  by (simp add: submitted_def calm_inv calm_buffers)

text \<open>Copies from memory into the window alone.\<close>

lemma submit_window:
  assumes inv: "pool_inv p live reads" and bok: "buffers_ok p" and idle: "\<forall>m \<in> live. pm_slot m \<noteq> nat slot"
    and s: "nat slot < sp_num_buffers p" and w: "wi_buf (tf_window t) = Buf Window (nat slot) n" "tf_slot t = nat slot"
    and ops: "\<forall>op \<in> fst ` set cs. \<exists>off es. op = PutElems (wi_buf (tf_window t)) off es"
    and data: "promised req t = window_cells (wi_buf (tf_window t)) 0 es"
      "\<And>k. k < length es \<Longrightarrow> one_put (map fst cs) (wi_buf (tf_window t), k) (Elem (es ! k))"
  shows "submitted live reads req slot (Inr t) (enqueue (nat slot) cs p)"
proof -
  have "\<forall>op \<in> fst ` set cs. slot_copy (nat slot) op"
    using ops w(1) by (fastforce simp: slot_copy_def)
  then have "pool_inv (enqueue (nat slot) cs p) (insert \<lparr> pm_slot = nat slot, pm_cells = promised req t \<rparr> live) reads"
    using data(2) w(1) by (intro enqueue_promise [OF inv s idle]) (auto simp: data(1) window_cells_def intro: one_put_fills)
  then show ?thesis using bok w(2) by (simp add: submitted_def promise_of_def)
qed

lemma submit_submitted:
  assumes inv: "pool_inv p live reads" and bok: "buffers_ok p" and idle: "\<forall>m \<in> live. pm_slot m \<noteq> nat slot"
    and run: "submit source slot p = (r, p')"
  shows "submitted live reads (One source) slot r p'"
  using run [unfolded submit_def]
proof (cases rule: py_bind_cases)
  case (stop e)
  then show ?thesis using submitted_error [OF calm_refl inv bok] by simp
next
  case (go u q)
  then have q: "q = p" by simp
  from go(2) show ?thesis
    unfolding q
  proof (cases rule: py_bind_cases)
    case (stop e)
    then show ?thesis using submitted_error [OF ensure_shape_spec(1) inv bok] by simp
  next
    case (go w p1)
    note calm = ensure_shape_spec(1) [OF go(1)]
    obtain n where n: "0 \<le> slot" "nat slot < sp_num_buffers p" "wi_buf w = Buf Window (nat slot) n"
      using ensure_shape_spec(2) [OF go(1) refl bok] by blast
    let ?t = "\<lparr> tf_slot = nat slot, tf_window = w, tf_count = prod_list (ct_shape source),
      tf_nbytes = nbytes_of source, tf_source_count = 1, tf_valid_tokens = None, tf_valid_lengths = [] \<rparr>"
    have "submitted live reads (One source) slot (Inr ?t)
        (enqueue (nat slot) [(PutElems (wi_buf w) 0 (map Elem (ct_data source)), ct_pinned source)] p1)"
      using n calm_num [OF calm] idle
      by (intro submit_window [OF calm_inv [OF calm inv] calm_buffers [OF calm bok], where es = "ct_data source"])
         (simp_all add: one_put_def)
    then show ?thesis using go(2) by simp
  qed
qed

lemma submit_many_submitted:
  assumes inv: "pool_inv p live reads" and bok: "buffers_ok p" and idle: "\<forall>m \<in> live. pm_slot m \<noteq> nat slot"
    and ok: "\<forall>t \<in> set sources. tensor_ok t" and run: "submit_many sources slot p = (r, p')"
  shows "submitted live reads (Many sources) slot r p'"
proof (cases sources)
  case Nil
  then show ?thesis using run submitted_error [OF calm_refl inv bok] by (auto simp: submit_many_def py_basic)
next
  case (Cons first rest)
  define total_tokens where "total_tokens = sum_list (map (\<lambda>s. hd (ct_shape s)) sources)"
  from run have "py_bind (\<lambda>p. (rmap (source_error first) sources, p)) (\<lambda>_.
      py_bind (ensure_shape slot (total_tokens # tl (ct_shape first)) (ct_dtype first) (ct_itemsize first)) (\<lambda>w p.
        (Inr \<lparr> tf_slot = nat slot, tf_window = w, tf_count = total_tokens * row_elems first,
               tf_nbytes = sum_list (map nbytes_of sources), tf_source_count = length sources,
               tf_valid_tokens = None, tf_valid_lengths = [] \<rparr>,
         enqueue (nat slot) (slab_copies (wi_buf w) (row_elems first) 0 sources) p))) p = (r, p')"
    by (simp add: submit_many_def Cons Let_def total_tokens_def)
  then show ?thesis
  proof (cases rule: py_bind_cases)
    case (stop e)
    then show ?thesis using submitted_error [OF calm_refl inv bok] by simp
  next
    case (go us q)
    then have q: "q = p" and geo: "rows_ok (row_elems first) sources" using sources_geometry ok by auto
    from go(2) show ?thesis
      unfolding q
    proof (cases rule: py_bind_cases)
      case (stop e)
      then show ?thesis using submitted_error [OF ensure_shape_spec(1) inv bok] by simp
    next
      case (go w p1)
      note calm = ensure_shape_spec(1) [OF go(1)]
      obtain n where n: "0 \<le> slot" "nat slot < sp_num_buffers p" "wi_buf w = Buf Window (nat slot) n"
        using ensure_shape_spec(2) [OF go(1) refl bok] by blast
      let ?t = "\<lparr> tf_slot = nat slot, tf_window = w, tf_count = total_tokens * row_elems first,
        tf_nbytes = sum_list (map nbytes_of sources), tf_source_count = length sources,
        tf_valid_tokens = None, tf_valid_lengths = [] \<rparr>"
      have "submitted live reads (Many sources) slot (Inr ?t)
          (enqueue (nat slot) (slab_copies (wi_buf w) (row_elems first) 0 sources) p1)"
        using n calm_num [OF calm] idle slab_copies_ops [of _ "wi_buf w" "row_elems first" 0 sources]
          slab_copies_fill [OF geo, of _ "wi_buf w" 0]
        by (intro submit_window [OF calm_inv [OF calm inv] calm_buffers [OF calm bok], where es = "group_data sources"])
           simp_all
      then show ?thesis using go(2) by simp
    qed
  qed
qed

lemma submit_cohort:
  assumes inv: "pool_inv p live reads" and bok: "buffers_ok p" and idle: "\<forall>m \<in> live. pm_slot m \<noteq> nat slot"
    and s: "nat slot < sp_num_buffers p"
    and w: "wi_buf w = Buf Window (nat slot) n" "wi_buf vd = Buf Valid (nat slot) n'"
    and t: "t = cohort_transfer (nat slot) w cnt nbytes vd gs" and req: "req = Cohort gs \<or> req = Direct gs"
    and cs: "\<forall>op \<in> fst ` set cs. slot_copy (nat slot) op"
    and window: "\<And>i k. i < length gs \<Longrightarrow> k < length (group_data (gs ! i)) \<Longrightarrow>
      fills p (map fst cs) (wi_buf w, i * Max (set (map group_length gs)) * row_elems (hd (concat gs)) + k) (Elem (group_data (gs ! i) ! k))"
    and valid: "\<And>i. i < length gs \<Longrightarrow> fills p (map fst cs) (wi_buf vd, i) (Len (group_length (gs ! i)))"
  shows "submitted live reads req slot (Inr t) (enqueue (nat slot) cs p)"
proof -
  have cells: "promised req t = cohort_cells (wi_buf w) (wi_buf vd) gs"
    using req by (auto simp: t cohort_transfer_def)
  have "pool_inv (enqueue (nat slot) cs p) (insert \<lparr> pm_slot = nat slot, pm_cells = promised req t \<rparr> live) reads"
  proof (rule enqueue_promise [OF inv s idle cs])
    fix x v assume "(x, v) \<in> promised req t"
    then have "(\<exists>i k. i < length gs \<and> k < length (group_data (gs ! i))
          \<and> x = (wi_buf w, i * Max (set (map group_length gs)) * row_elems (hd (concat gs)) + k) \<and> v = Elem (group_data (gs ! i) ! k))
        \<or> (\<exists>i. i < length gs \<and> x = (wi_buf vd, i) \<and> v = Len (group_length (gs ! i)))"
      unfolding cells cohort_cells_def window_cells_def by blast
    then show "on_device (fst x) \<and> buf_slot (fst x) = nat slot \<and> fills p (map fst cs) x v"
    proof (elim disjE exE conjE)
      fix i k assume "i < length gs" "k < length (group_data (gs ! i))"
        "x = (wi_buf w, i * Max (set (map group_length gs)) * row_elems (hd (concat gs)) + k)" "v = Elem (group_data (gs ! i) ! k)"
      then show ?thesis using window [of i k] w(1) by simp
    next
      fix i assume "i < length gs" "x = (wi_buf vd, i)" "v = Len (group_length (gs ! i))"
      then show ?thesis using valid [of i] w(2) by simp
    qed
  qed
  then show ?thesis using bok by (simp add: submitted_def promise_of_def t cohort_transfer_def)
qed

lemma groups_geometry:
  assumes "rmap (source_error first) (concat gs) = Inr us" and "\<forall>t \<in> set (concat gs). tensor_ok t"
  shows "\<forall>g \<in> set gs. rows_ok (row_elems first) g \<and> group_length g \<le> Max (set (map group_length gs))"
  using sources_geometry [OF assms] by (auto simp: rows_ok_def)

lemma filter_none: "\<forall>op \<in> set ops. \<not> op_writes op x \<Longrightarrow> filter (\<lambda>op. op_writes op x) ops = []"
  by (simp add: filter_empty_conv)

lemma host_inv:
  assumes "pool_inv p live reads" "pack_free p s" "\<forall>op \<in> set ops. pack_put s op"
  shows "pool_inv (issue_host ops p) live reads" "pack_free (issue_host ops p) s"
  using pool_inv_host [OF assms] by (simp_all add: issue_host_eq)

text \<open>The host part of both cohort paths: valid lengths into their pack buffer.\<close>

lemma valid_host:
  assumes inv: "pool_inv p live reads" and bok: "buffers_ok p" and s: "s < sp_num_buffers p" and free: "pack_free p s"
    and ens: "ensure_valid_shape s cnt p = ((vh, vd), p1)"
    and p2_def: "p2 = issue_host (length_writes (wi_buf vh) lens) p1"
  shows "pool_inv p2 live reads" "buffers_ok p2" "sp_num_buffers p2 = sp_num_buffers p"
    "\<exists>n. wi_buf vh = Buf ValidPack s n" "\<exists>n. wi_buf vd = Buf Valid s n"
    "k < length lens \<Longrightarrow> pack_cell p2 (wi_buf vh, k) (Len (lens ! k))"
    "pack_cell p x v \<Longrightarrow> fst x = Buf Pack s m \<Longrightarrow> pack_cell p2 x v"
proof -
  note ev = ensure_valid_spec [OF ens bok s]
  obtain n where n: "wi_buf vh = Buf ValidPack s n" using ev(2) by blast
  have put: "\<forall>op \<in> set (length_writes (wi_buf vh) lens). pack_put s op"
    using length_writes_ops n by (fastforce simp: pack_put_def)
  note host = host_inv [OF calm_inv [OF ev(1) inv] calm_pack_free [OF ev(1) free] put]
  show "pool_inv p2 live reads" "buffers_ok p2" "sp_num_buffers p2 = sp_num_buffers p"
    using host(1) calm_buffers [OF ev(1) bok] calm_num [OF ev(1)] by (simp_all add: p2_def)
  show "\<exists>n. wi_buf vh = Buf ValidPack s n" "\<exists>n. wi_buf vd = Buf Valid s n" using ev(2,3) .
  show "pack_cell p2 (wi_buf vh, k) (Len (lens ! k))" if "k < length lens"
    unfolding p2_def using length_writes_fill [OF that] by (rule one_put_pack_cell)
  show "pack_cell p2 x v" if "pack_cell p x v" "fst x = Buf Pack s m"
  proof (rule pack_cell_append [OF calm_pack_cell [OF ev(1) that(1)]])
    show "sp_trace p2 = sp_trace p1 @ map (Pair HostThread) (length_writes (wi_buf vh) lens)"
      by (simp add: p2_def issue_host_eq)
    show "\<forall>o' \<in> set (map (Pair HostThread) (length_writes (wi_buf vh) lens)). \<not> op_writes (snd o') x"
      using that(2) n by (auto simp: length_writes_def)
  qed
qed

lemma move_fills:
  assumes "filter (\<lambda>op. op_writes op x) ops = [MoveElems (fst x) src n]" "pack_cell p (src, snd x) v"
  shows "fills p ops x v"
proof -
  have "MoveElems (fst x) src n \<in> set (filter (\<lambda>op. op_writes op x) ops)" unfolding assms(1) by simp
  then have "snd x < n" by simp
  then show ?thesis using assms unfolding fills_def by blast
qed

lemma cohort_direct_submitted:
  assumes inv: "pool_inv p live reads" and bok: "buffers_ok p" and idle: "\<forall>m \<in> live. pm_slot m \<noteq> nat slot"
    and ok: "\<forall>t \<in> set (concat gs). tensor_ok t" and run: "submit_cohort_direct gs slot p = (r, p')"
  shows "submitted live reads (Direct gs) slot r p'"
proof (cases "concat gs")
  case Nil
  have "r = Inl ValueError" "p' = p" using run unfolding submit_cohort_direct_def Nil by (simp_all add: py_basic)
  then show ?thesis using submitted_error [OF calm_refl inv bok] by simp
next
  case (Cons first rest)
  define mx where "mx = Max (set (map group_length gs))"
  define shape where "shape = length gs # mx # tl (ct_shape first)"
  let ?copies = "\<lambda>w. group_copies (wi_buf w) (row_elems first) mx 0 gs"
  from run have "py_bind (\<lambda>p. (rmap (source_error first) (concat gs), p)) (\<lambda>_.
      py_bind (ensure_shape slot shape (ct_dtype first) (ct_itemsize first)) (\<lambda>w.
      py_bind (py_update (wait_host_slot_writable (nat slot))) (\<lambda>_ p.
      let ((vh, vd), p1) = ensure_valid_shape (nat slot) (length gs) p;
          p2 = issue_host (length_writes (wi_buf vh) (map group_length gs)) p1
      in (Inr (cohort_transfer (nat slot) w (prod_list shape)
                 (sum_list (map nbytes_of (concat gs)) + length gs * 4) vd gs),
          enqueue (nat slot) (?copies w @ [(MoveElems (wi_buf vd) (wi_buf vh) (length gs), sp_pin p)]) p2)))) p = (r, p')"
    unfolding submit_cohort_direct_def Cons by (simp add: Let_def mx_def shape_def)
  then show ?thesis
  proof (cases rule: py_bind_cases)
    case (stop e)
    then show ?thesis using submitted_error [OF calm_refl inv bok] by simp
  next
    case (go us q)
    then have q: "q = p" and geo: "\<forall>g \<in> set gs. rows_ok (row_elems first) g \<and> group_length g \<le> mx"
      using groups_geometry ok by (auto simp: mx_def)
    from go(2) show ?thesis
      unfolding q
    proof (cases rule: py_bind_cases)
      case (stop e)
      then show ?thesis using submitted_error [OF ensure_shape_spec(1) inv bok] by simp
    next
      case (go w p1)
      note calm1 = ensure_shape_spec(1) [OF go(1)]
      obtain n where n: "0 \<le> slot" "nat slot < sp_num_buffers p" "wi_buf w = Buf Window (nat slot) n"
        using ensure_shape_spec(2) [OF go(1) refl bok] by blast
      define p2 where "p2 = wait_host_slot_writable (nat slot) p1"
      have calm: "calm p p2" using calm_trans [OF calm1 wait_host_calm] by (simp add: p2_def)
      have s: "nat slot < sp_num_buffers p2" using n(2) calm_num [OF calm] by simp
      have free: "pack_free p2 (nat slot)"
        unfolding p2_def using wait_host_pack_free [OF calm_inv [OF calm1 inv]] n(2) calm_num [OF calm1] by simp
      obtain vh vd p3 where ens: "ensure_valid_shape (nat slot) (length gs) p2 = ((vh, vd), p3)" by (metis prod.exhaust)
      define p4 where "p4 = issue_host (length_writes (wi_buf vh) (map group_length gs)) p3"
      note v = valid_host [OF calm_inv [OF calm inv] calm_buffers [OF calm bok] s free ens p4_def]
      obtain nv nh where k: "wi_buf vd = Buf Valid (nat slot) nv" "wi_buf vh = Buf ValidPack (nat slot) nh" using v(4,5) by blast
      let ?cs = "?copies w @ [(MoveElems (wi_buf vd) (wi_buf vh) (length gs), sp_pin p2)]"
      have puts: "\<exists>off es. op = PutElems (wi_buf w) off es" if "op \<in> fst ` set (?copies w)" for op
        using group_copies_ops [OF that] .
      have "submitted live reads (Direct gs) slot
          (Inr (cohort_transfer (nat slot) w (prod_list shape) (sum_list (map nbytes_of (concat gs)) + length gs * 4) vd gs))
          (enqueue (nat slot) ?cs p4)"
      proof (rule submit_cohort [OF v(1,2) idle _ n(3) k(1) refl])
        show "nat slot < sp_num_buffers p4" using s v(3) by simp
        show "\<forall>op \<in> fst ` set ?cs. slot_copy (nat slot) op"
          using puts n(3) k by (fastforce simp: slot_copy_def)
        fix i assume i: "i < length gs"
        have "\<not> op_writes op (wi_buf vd, i)" if "op \<in> set (map fst (?copies w))" for op
          using puts [of op] that n(3) k(1) by auto
        then have "filter (\<lambda>op. op_writes op (wi_buf vd, i)) (map fst ?cs) = [MoveElems (wi_buf vd) (wi_buf vh) (length gs)]"
          using i filter_none [of "map fst (?copies w)" "(wi_buf vd, i)"] by simp
        then show "fills p4 (map fst ?cs) (wi_buf vd, i) (Len (group_length (gs ! i)))"
          using v(6) [of i] i by (intro move_fills) simp_all
        fix c assume c: "c < length (group_data (gs ! i))"
        have "one_put (map fst (?copies w)) (wi_buf w, i * mx * row_elems first + c) (Elem (group_data (gs ! i) ! c))"
          using group_copies_fill [OF geo i c, of "wi_buf w" 0] by simp
        then have "one_put (map fst ?cs) (wi_buf w, i * mx * row_elems first + c) (Elem (group_data (gs ! i) ! c))"
          using n(3) k(1) one_put_append(1) by fastforce
        then show "fills p4 (map fst ?cs) (wi_buf w, i * Max (set (map group_length gs)) * row_elems (hd (concat gs)) + c)
            (Elem (group_data (gs ! i) ! c))"
          using Cons by (intro one_put_fills) (simp add: mx_def)
      qed simp
      then show ?thesis using go(2) ens by (simp add: py_basic p2_def [symmetric] p4_def [symmetric])
    qed
  qed
qed

text \<open>The position of a row of a group in the window.\<close>

lemma group_cell_bound:
  assumes "rows_ok row (gs ! i)" "group_length (gs ! i) \<le> mx" "i < length gs" "c < length (group_data (gs ! i))"
  shows "i * mx * row + c < length gs * mx * row"
proof -
  have "c < group_length (gs ! i) * row" using assms(4) length_group_data [OF assms(1)] by simp
  also have "\<dots> \<le> mx * row" using assms(2) by simp
  finally have "i * mx * row + c < Suc i * mx * row" by (simp add: algebra_simps)
  also have "\<dots> \<le> length gs * mx * row" using assms(3) by (intro mult_le_mono) simp_all
  finally show ?thesis .
qed

text \<open>The device part of the packed path.\<close>

lemma packed_launch:
  assumes inv: "pool_inv p live reads" and bok: "buffers_ok p" and idle: "\<forall>m \<in> live. pm_slot m \<noteq> nat slot"
    and s: "nat slot < sp_num_buffers p"
    and geo: "\<forall>g \<in> set gs. rows_ok (row_elems first) g \<and> group_length g \<le> Max (set (map group_length gs))"
    and host: "wi_buf host = Buf Pack (nat slot) nk"
    and k: "wi_buf vd = Buf Valid (nat slot) nv" "wi_buf vh = Buf ValidPack (nat slot) nh"
    and first: "concat gs = first # rest"
    and packed: "\<And>i c. i < length gs \<Longrightarrow> c < length (group_data (gs ! i)) \<Longrightarrow>
      pack_cell p (wi_buf host, i * Max (set (map group_length gs)) * row_elems first + c) (Elem (group_data (gs ! i) ! c))"
    and lens: "\<And>i. i < length gs \<Longrightarrow> pack_cell p (wi_buf vh, i) (Len (group_length (gs ! i)))"
    and shape: "shape = length gs # Max (set (map group_length gs)) # tl (ct_shape first)"
    and run: "py_bind (ensure_shape slot shape (ct_dtype first) (ct_itemsize first)) (\<lambda>w p.
      (Inr (cohort_transfer (nat slot) w (prod_list shape) (prod_list shape * ct_itemsize first + length gs * 4) vd gs),
       enqueue (nat slot)
         [(MoveElems (wi_buf w) (wi_buf host) (prod_list shape), sp_pin p),
          (MoveElems (wi_buf vd) (wi_buf vh) (length gs), sp_pin p)] p)) p = (r, p')"
  shows "submitted live reads (Cohort gs) slot r p'"
  using run
proof (cases rule: py_bind_cases)
  case (stop e)
  then show ?thesis using submitted_error [OF ensure_shape_spec(1) inv bok] by simp
next
  case (go w p6)
  define mx where "mx = Max (set (map group_length gs))"
  note calm = ensure_shape_spec(1) [OF go(1)]
  obtain n where n: "wi_buf w = Buf Window (nat slot) n" using ensure_shape_spec(2) [OF go(1) refl bok] by blast
  let ?cs = "[(MoveElems (wi_buf w) (wi_buf host) (prod_list shape), sp_pin p6),
      (MoveElems (wi_buf vd) (wi_buf vh) (length gs), sp_pin p6)]"
  have "submitted live reads (Cohort gs) slot
      (Inr (cohort_transfer (nat slot) w (prod_list shape) (prod_list shape * ct_itemsize first + length gs * 4) vd gs))
      (enqueue (nat slot) ?cs p6)"
  proof (rule submit_cohort [OF calm_inv [OF calm inv] calm_buffers [OF calm bok] idle _ n k(1) refl])
    show "nat slot < sp_num_buffers p6" using s calm_num [OF calm] by simp
    show "\<forall>op \<in> fst ` set ?cs. slot_copy (nat slot) op" using n k host by (simp add: slot_copy_def)
    fix i assume i: "i < length gs"
    show "fills p6 (map fst ?cs) (wi_buf vd, i) (Len (group_length (gs ! i)))"
      using i n k calm_pack_cell [OF calm lens] by (intro move_fills [where src = "wi_buf vh" and n = "length gs"]) simp_all
    fix c assume c: "c < length (group_data (gs ! i))"
    let ?c = "i * mx * row_elems first + c"
    have "?c < prod_list shape"
      using group_cell_bound [of "row_elems first" gs i mx c] geo i c
      by (simp add: shape mx_def [symmetric] row_elems_def mult.assoc del: set_map)
    moreover have "pack_cell p6 (wi_buf host, ?c) (Elem (group_data (gs ! i) ! c))"
      using calm_pack_cell [OF calm packed [OF i c]] by (simp add: mx_def)
    ultimately have "fills p6 (map fst ?cs) (wi_buf w, ?c) (Elem (group_data (gs ! i) ! c))"
      using n k(1) by (intro move_fills [where src = "wi_buf host" and n = "prod_list shape"]) simp_all
    then show "fills p6 (map fst ?cs) (wi_buf w, i * Max (set (map group_length gs)) * row_elems (hd (concat gs)) + c)
        (Elem (group_data (gs ! i) ! c))"
      by (simp add: first mx_def)
  qed simp
  then show ?thesis using go(2) by simp
qed

lemma cohort_packed_submitted:
  assumes inv: "pool_inv p live reads" and bok: "buffers_ok p" and idle: "\<forall>m \<in> live. pm_slot m \<noteq> nat slot"
    and ok: "\<forall>t \<in> set (concat gs). tensor_ok t" and run: "submit_cohort_groups gs slot p = (r, p')"
  shows "submitted live reads (Cohort gs) slot r p'"
proof (cases "concat gs")
  case Nil
  have "r = Inl ValueError" "p' = p" using run unfolding submit_cohort_groups_def Nil by (simp_all add: py_basic)
  then show ?thesis using submitted_error [OF calm_refl inv bok] by simp
next
  case (Cons first rest)
  define mx where "mx = Max (set (map group_length gs))"
  define shape where "shape = length gs # mx # tl (ct_shape first)"
  let ?pack = "\<lambda>host. map fst (group_copies (wi_buf host) (row_elems first) mx 0 gs)"
  let ?launch = "\<lambda>host vh vd. py_bind (ensure_shape slot shape (ct_dtype first) (ct_itemsize first)) (\<lambda>w p.
      (Inr (cohort_transfer (nat slot) w (prod_list shape) (prod_list shape * ct_itemsize first + length gs * 4) vd gs),
       enqueue (nat slot)
         [(MoveElems (wi_buf w) (wi_buf host) (prod_list shape), sp_pin p),
          (MoveElems (wi_buf vd) (wi_buf vh) (length gs), sp_pin p)] p))"
  from run have "py_bind (\<lambda>p. (rmap (source_error first) (concat gs), p)) (\<lambda>_.
      py_bind (\<lambda>p. if - int (sp_num_buffers p) \<le> slot \<and> slot < int (sp_num_buffers p)
                   then (Inr (), wait_host_slot_writable (nat (slot mod int (sp_num_buffers p))) p)
                   else (Inl IndexError, p)) (\<lambda>_.
      py_bind (ensure_host_shape slot shape (ct_dtype first) (ct_itemsize first)) (\<lambda>host.
      py_bind (py_update (issue_host (?pack host))) (\<lambda>_ p.
      let ((vh, vd), p1) = ensure_valid_shape (nat slot) (length gs) p;
          p2 = issue_host (length_writes (wi_buf vh) (map group_length gs)) p1
      in ?launch host vh vd p2)))) p = (r, p')"
    unfolding submit_cohort_groups_def Cons by (simp add: Let_def mx_def shape_def)
  then show ?thesis
  proof (cases rule: py_bind_cases)
    case (stop e)
    then show ?thesis using submitted_error [OF calm_refl inv bok] by simp
  next
    case (go us q)
    then have q: "q = p" and geo: "\<forall>g \<in> set gs. rows_ok (row_elems first) g \<and> group_length g \<le> mx"
      using groups_geometry ok by (auto simp: mx_def)
    from go(2) show ?thesis
      unfolding q
    proof (cases rule: py_bind_cases)
      case (stop e)
      then show ?thesis using submitted_error [OF calm_refl inv bok] by (simp split: if_splits)
    next
      case (go u p1)
      then have range: "slot < int (sp_num_buffers p)"
          and p1: "p1 = wait_host_slot_writable (nat (slot mod int (sp_num_buffers p))) p"
        by (auto split: if_splits)
      have calm1: "calm p p1" by (simp add: p1 wait_host_calm)
      note inv1 = calm_inv [OF calm1 inv] and bok1 = calm_buffers [OF calm1 bok]
      from go(2) show ?thesis
      proof (cases rule: py_bind_cases)
        case (stop e)
        then show ?thesis using submitted_error [OF ensure_host_spec(1) inv1 bok1] by simp
      next
        case (go host p2)
        have "0 \<le> slot" using ensure_host_spec(2) [OF go(1) refl bok1] by blast
        with range have slot: "nat slot < sp_num_buffers p" by simp
        have free1: "pack_free p1 (nat slot)"
          using wait_host_pack_free [OF inv slot] range \<open>0 \<le> slot\<close> by (simp add: p1)
        note calm2 = ensure_host_spec(1) [OF go(1)]
        obtain nk where host: "wi_buf host = Buf Pack (nat slot) nk" using ensure_host_spec(2) [OF go(1) refl bok1] by blast
        define p3 where "p3 = issue_host (?pack host) p2"
        have put: "\<forall>op \<in> set (?pack host). pack_put (nat slot) op"
          using group_copies_ops [of _ "wi_buf host" "row_elems first" mx 0 gs] host by (fastforce simp: pack_put_def)
        note h3 = host_inv [OF calm_inv [OF calm2 inv1] calm_pack_free [OF calm2 free1] put, folded p3_def]
        have bok3: "buffers_ok p3" and s3: "nat slot < sp_num_buffers p3"
          using calm_buffers [OF calm2 bok1] slot calm_num [OF calm1] calm_num [OF calm2] by (simp_all add: p3_def)
        obtain vh vd p4 where ens: "ensure_valid_shape (nat slot) (length gs) p3 = ((vh, vd), p4)" by (metis prod.exhaust)
        define p5 where "p5 = issue_host (length_writes (wi_buf vh) (map group_length gs)) p4"
        note v = valid_host [OF h3(1) bok3 s3 h3(2) ens p5_def]
        obtain nv nh where k: "wi_buf vd = Buf Valid (nat slot) nv" "wi_buf vh = Buf ValidPack (nat slot) nh" using v(4,5) by blast
        have "?launch host vh vd p5 = (r, p')"
          using go(2) ens by (simp add: py_basic p3_def [symmetric] p5_def [symmetric])
        moreover have "pack_cell p5 (wi_buf host, i * mx * row_elems first + c) (Elem (group_data (gs ! i) ! c))"
          if "i < length gs" "c < length (group_data (gs ! i))" for i c
          using one_put_pack_cell [of "?pack host"] group_copies_fill [OF geo that, of "wi_buf host" 0] v(7) host
          by (simp add: p3_def)
        ultimately show ?thesis
          using packed_launch [OF v(1,2) idle _ geo [unfolded mx_def] host k, folded mx_def] s3 v(3) v(6) Cons
          by (simp add: shape_def)
      qed
    qed
  qed
qed

lemma do_submit_submitted:
  assumes "pool_inv p live reads" "buffers_ok p" "\<forall>m \<in> live. pm_slot m \<noteq> nat slot"
    "\<forall>t \<in> set (request_tensors req). tensor_ok t" "do_submit req slot p = (r, p')"
  shows "submitted live reads req slot r p'"
  using assms submit_submitted submit_many_submitted cohort_packed_submitted cohort_direct_submitted
  by (cases req) simp_all

section \<open>Runs\<close>

text \<open>
  The pool with the transfers that were submitted and not yet used, and every read that was issued:
  the operation, the request it reads and its transfer.
\<close>

record 'e staging_run =
  sr_pool :: "'e staging_pool"
  sr_live :: "('e request \<times> transfer) set"
  sr_reads :: "(nat \<times> 'e request \<times> transfer) set"

definition staging_init :: "int \<Rightarrow> bool \<Rightarrow> bool \<Rightarrow> 'e staging_run \<Rightarrow> bool" where
  "staging_init num_buffers cuda pin s \<longleftrightarrow>
     staging_new num_buffers cuda pin = Inr (sr_pool s) \<and> sr_live s = {} \<and> sr_reads s = {}"

definition slot_idle :: "('e request \<times> transfer) set \<Rightarrow> int \<Rightarrow> bool" where
  "slot_idle live slot \<longleftrightarrow> (\<forall>(req, t) \<in> live. tf_slot t \<noteq> nat slot)"

text \<open>The kernels of one use: the reads that \<open>consume\<close> issues.\<close>

fun is_read :: "'e gpu_op \<Rightarrow> bool" where
  "is_read (ReadElems b n) = True"
| "is_read _ = False"

definition use_reads :: "'e staging_pool \<Rightarrow> transfer \<Rightarrow> nat set" where
  "use_reads p t =
     (let tr = sp_trace (consume t p) in set (filter (\<lambda>u. is_read (snd (tr ! u))) [length (sp_trace p)..<length tr]))"

lemma is_read_iff: "is_read op \<longleftrightarrow> (\<exists>b n. op = ReadElems b n)"
  by (cases op) simp_all

text \<open>
  A submission goes to a slot without a pending transfer; it may raise.  A pending transfer is used
  or forgotten (\<open>discard_layer_prefetch\<close>).  Reservations may happen at any time.
\<close>

inductive staging_step :: "'e staging_run \<Rightarrow> 'e staging_run \<Rightarrow> bool" where
  step_submit: "do_submit req slot (sr_pool s) = (Inr t, p') \<Longrightarrow> slot_idle (sr_live s) slot
     \<Longrightarrow> \<forall>h \<in> set (request_tensors req). tensor_ok h
     \<Longrightarrow> staging_step s (s\<lparr>sr_pool := p', sr_live := insert (req, t) (sr_live s)\<rparr>)"
| step_submit_error: "do_submit req slot (sr_pool s) = (Inl e, p') \<Longrightarrow> slot_idle (sr_live s) slot
     \<Longrightarrow> \<forall>h \<in> set (request_tensors req). tensor_ok h \<Longrightarrow> staging_step s (s\<lparr>sr_pool := p'\<rparr>)"
| step_use: "(req, t) \<in> sr_live s \<Longrightarrow>
     staging_step s (s\<lparr>sr_pool := consume t (sr_pool s), sr_live := sr_live s - {(req, t)},
       sr_reads := sr_reads s \<union> (\<lambda>u. (u, req, t)) ` use_reads (sr_pool s) t\<rparr>)"
| step_forget: "live \<subseteq> sr_live s \<Longrightarrow> staging_step s (s\<lparr>sr_live := live\<rparr>)"
| step_reserve: "staging_reserve shape dtype itemsize (sr_pool s) = (r, p') \<Longrightarrow> staging_step s (s\<lparr>sr_pool := p'\<rparr>)"
| step_reserve_pack: "reserve_cohort_pack shape dtype itemsize (sr_pool s) = (r, p')
     \<Longrightarrow> staging_step s (s\<lparr>sr_pool := p'\<rparr>)"

inductive_cases staging_stepE: "staging_step s s'"

abbreviation run_promises :: "('e request \<times> transfer) set \<Rightarrow> 'e promise set" where
  "run_promises live \<equiv> case_prod promise_of ` live"

abbreviation run_readings :: "(nat \<times> 'e request \<times> transfer) set \<Rightarrow> 'e reading set" where
  "run_readings reads \<equiv> (\<lambda>(u, req, t). \<lparr> rd_op = u, rd_promise = promise_of req t \<rparr>) ` reads"

definition run_ok :: "'e staging_run \<Rightarrow> bool" where
  "run_ok s \<longleftrightarrow> buffers_ok (sr_pool s) \<and> pool_inv (sr_pool s) (run_promises (sr_live s)) (run_readings (sr_reads s))"

lemma pool_inv_mono: "pool_inv p live reads \<Longrightarrow> live' \<subseteq> live \<Longrightarrow> pool_inv p live' reads"
  unfolding pool_inv_def by blast

lemma slot_idle_promises: "slot_idle live slot \<Longrightarrow> \<forall>m \<in> run_promises live. pm_slot m \<noteq> nat slot"
  by (auto simp: slot_idle_def promise_of_def)

lemma use_readings: "run_readings ((\<lambda>u. (u, req, t)) ` use_reads p t) = new_reads p t (promise_of req t)"
  unfolding image_image new_reads_def use_reads_def Let_def by (auto simp: is_read_iff)

lemma staging_new_inv:
  assumes "staging_new num_buffers cuda pin = Inr p"
  shows "buffers_ok p" "pool_inv p {} {}"
  using assms by (auto simp: staging_new_def Let_def buffers_ok_def owned_def pool_inv_def trace_ok_def events_ok_def
      split: if_splits)

lemma reserve_calm: "calm p (snd (staging_reserve shape dtype itemsize p))"
  unfolding staging_reserve_def
proof (rule py_for_keeps [of "calm p"])
  fix slot q assume "calm p q"
  moreover obtain r q' where "ensure_shape slot shape dtype itemsize q = (r, q')" by fastforce
  ultimately show "calm p (snd (py_bind (ensure_shape slot shape dtype itemsize) (\<lambda>_. py_return ()) q))"
    using calm_trans ensure_shape_spec(1) by (cases r) (fastforce simp: py_basic)+
qed (rule calm_refl)

lemma reserve_pack_calm:
  assumes bok: "buffers_ok p"
  shows "calm p (snd (reserve_cohort_pack shape dtype itemsize p))"
proof (cases "length shape < 2 \<or> shape ! 0 < 1")
  case False
  have "calm p (snd (py_for (map int [0..<sp_num_buffers p])
      (\<lambda>slot. py_bind (ensure_host_shape slot shape dtype itemsize)
        (\<lambda>_ q. (Inr (), snd (ensure_valid_shape (nat slot) (shape ! 0) q)))) p))"
  proof (rule py_for_keeps [of "calm p"])
    fix slot q assume q: "calm p q"
    obtain r q' where e: "ensure_host_shape slot shape dtype itemsize q = (r, q')" by fastforce
    then have q': "calm p q'" using q calm_trans ensure_host_spec(1) by blast
    obtain h d q'' where v: "ensure_valid_shape (nat slot) (shape ! 0) q' = ((h, d), q'')" by (metis prod.exhaust)
    have "calm q' q''" if "r = Inr w" for w
      using ensure_valid_spec(1) [OF v calm_buffers [OF q' bok]]
        ensure_host_spec(2) [OF e that calm_buffers [OF q bok]] calm_num [OF q] calm_num [OF q'] by simp
    then show "calm p (snd (py_bind (ensure_host_shape slot shape dtype itemsize)
        (\<lambda>_ q. (Inr (), snd (ensure_valid_shape (nat slot) (shape ! 0) q))) q))"
      using e v q' calm_trans [OF q'] by (cases r) (simp_all add: py_basic)
  qed (rule calm_refl)
  then show ?thesis using False by (simp add: reserve_cohort_pack_def)
qed (auto simp: reserve_cohort_pack_def calm_refl)

lemma run_ok_calm: "run_ok s \<Longrightarrow> calm (sr_pool s) p' \<Longrightarrow> run_ok (s\<lparr>sr_pool := p'\<rparr>)"
  by (simp add: run_ok_def calm_inv calm_buffers)

lemma staging_step_ok:
  assumes "run_ok s" "staging_step s s'"
  shows "run_ok s'"
  using assms(2)
proof cases
  case (step_submit req slot t p')
  then show ?thesis
    using assms(1) do_submit_submitted [OF _ _ slot_idle_promises] unfolding run_ok_def submitted_def by fastforce
next
  case (step_submit_error req slot e p')
  then show ?thesis
    using assms(1) do_submit_submitted [OF _ _ slot_idle_promises] unfolding run_ok_def submitted_def by fastforce
next
  case (step_use req t)
  have "pool_inv (consume t (sr_pool s)) (run_promises (sr_live s))
      (run_readings (sr_reads s) \<union> new_reads (sr_pool s) t (promise_of req t))"
    using assms(1) imageI [OF step_use(2), of "case_prod promise_of"]
    by (intro consume_inv) (simp_all add: run_ok_def, simp add: promise_of_def)
  then have "pool_inv (consume t (sr_pool s)) (run_promises (sr_live s - {(req, t)}))
      (run_readings (sr_reads s) \<union> new_reads (sr_pool s) t (promise_of req t))"
    by (rule pool_inv_mono) blast
  moreover have "buffers_ok (consume t (sr_pool s))"
    using assms(1) by (simp add: run_ok_def consume_eq buffers_ok_def)
  ultimately show ?thesis unfolding step_use(1) run_ok_def by (simp add: image_Un use_readings)
next
  case (step_forget live)
  then have "run_promises live \<subseteq> run_promises (sr_live s)" by blast
  then show ?thesis using assms(1) pool_inv_mono unfolding step_forget(1) run_ok_def by (simp, blast)
next
  case (step_reserve shape dtype itemsize r p')
  then show ?thesis using run_ok_calm [OF assms(1)] reserve_calm by (metis snd_conv)
next
  case (step_reserve_pack shape dtype itemsize r p')
  then show ?thesis using run_ok_calm [OF assms(1)] reserve_pack_calm assms(1) by (metis run_ok_def snd_conv)
qed

interpretation staging: invariant_system "staging_init num_buffers cuda pin" staging_step run_ok
proof unfold_locales
  show "run_ok s" if "staging_init num_buffers cuda pin s" for s :: "'a staging_run"
    using that staging_new_inv by (auto simp: staging_init_def run_ok_def)
  show "run_ok t" if "run_ok s" "staging_step s t" for s t :: "'a staging_run"
    using staging_step_ok that by blast
qed

text \<open>A schedule exists: the order of issue.\<close>

lemma issue_order_schedule: "cuda_schedule tr [0..<length tr]"
proof -
  have "precedes [0..<length tr] i j" if "edge tr i j" for i j
    using edge_lt [OF that] upt_add_eq_append [of 0 j "length tr - j"]
    by (intro precedesI [of _ "[0..<j]" "[j..<length tr]"]) simp_all
  then show ?thesis unfolding cuda_schedule_def by auto
qed

lemma read_delivered:
  assumes "reaches (staging_init num_buffers cuda pin) staging_step s" and "(u, req, t) \<in> sr_reads s"
    and "cuda_schedule (sp_trace (sr_pool s)) sch" and "(x, v) \<in> promised req t"
  shows "mem_before (sp_trace (sr_pool s)) sch u x = Some v"
proof -
  have "run_ok s" by (rule staging.reaches_inv [OF assms(1)])
  then have "read_ok (sr_pool s) \<lparr> rd_op = u, rd_promise = promise_of req t \<rparr>"
    using assms(2) by (force simp: run_ok_def pool_inv_def)
  then have "delivers (sp_trace (sr_pool s)) u x v" using assms(4) by (auto simp: read_ok_def promise_of_def)
  then show ?thesis by (rule delivers_sound [OF assms(3)])
qed


text \<open>
  C5: After any run of the staging pool (submissions of one tensor, of several and of cohorts,
  packed or direct, uses, discards and reservations), and in every execution order that the streams
  and events of CUDA allow, each kernel that used a transfer found in the staging window exactly the
  elements of the submitted sources, and in the valid lengths the number of rows of each group:
  no later copy into the slot overtakes it and no copy it depends on is late.
\<close>

theorem transfers_delivered:
  assumes "reaches (staging_init num_buffers cuda pin) staging_step s" and "(u, req, t) \<in> sr_reads s"
    and "cuda_schedule (sp_trace (sr_pool s)) sch" and "(x, v) \<in> promised req t"
  shows "mem_before (sp_trace (sr_pool s)) sch u x = Some v"
  using assms by (rule read_delivered)

text \<open>Schedules and memory of a concrete trace can be computed.\<close>

lemma precedes_code [code]:
  "precedes sch i j \<longleftrightarrow> list_ex (\<lambda>k. i \<in> set (take k sch) \<and> j \<in> set (drop k sch)) [0..<Suc (length sch)]"
proof
  assume "precedes sch i j"
  then obtain xs ys where "sch = xs @ ys" "i \<in> set xs" "j \<in> set ys" unfolding precedes_def by blast
  then show "list_ex (\<lambda>k. i \<in> set (take k sch) \<and> j \<in> set (drop k sch)) [0..<Suc (length sch)]"
    unfolding list_ex_iff by (intro bexI [of _ "length xs"]) auto
next
  assume "list_ex (\<lambda>k. i \<in> set (take k sch) \<and> j \<in> set (drop k sch)) [0..<Suc (length sch)]"
  then obtain k where "i \<in> set (take k sch)" "j \<in> set (drop k sch)" unfolding list_ex_iff by blast
  then show "precedes sch i j" by (intro precedesI [of _ "take k sch" "drop k sch"]) simp_all
qed

lemma cuda_schedule_code [code]:
  "cuda_schedule tr sch \<longleftrightarrow>
     distinct sch \<and> set sch = set [0..<length tr]
   \<and> list_all (\<lambda>j. list_all (\<lambda>i. edge tr i j \<longrightarrow> precedes sch i j) [0..<j]) [0..<length tr]"
  unfolding cuda_schedule_def list_all_iff using edge_lt by (fastforce simp: atLeast0LessThan)

text \<open>A cohort in slot 0 and a chunk in slot 1; the cohort is used and its slot takes a third submission.\<close>

definition demo_tensor :: "nat list \<Rightarrow> nat list \<Rightarrow> nat cpu_tensor" where
  "demo_tensor shape data = \<lparr> ct_shape = shape, ct_dtype = ''bf16'', ct_itemsize = 2, ct_data = data,
     ct_cpu = True, ct_contiguous = True, ct_pinned = True \<rparr>"

definition demo_reqs :: "nat request list" where
  "demo_reqs = [Cohort [[demo_tensor [1, 2] [10, 11], demo_tensor [1, 2] [12, 13]], [demo_tensor [1, 2] [20, 21]]],
     Many [demo_tensor [2, 2] [30, 31, 32, 33]], Direct [[demo_tensor [1, 2] [40, 41]], []]]"

definition demo_submit :: "nat \<Rightarrow> int \<Rightarrow> nat staging_run \<Rightarrow> nat staging_run" where
  "demo_submit i slot s =
     (let (r, p) = do_submit (demo_reqs ! i) slot (sr_pool s)
      in s\<lparr>sr_pool := p, sr_live := insert (demo_reqs ! i, projr r) (sr_live s)\<rparr>)"

definition demo_transfer :: "nat \<Rightarrow> int \<Rightarrow> nat staging_run \<Rightarrow> transfer" where
  "demo_transfer i slot s = projr (fst (do_submit (demo_reqs ! i) slot (sr_pool s)))"

definition demo_use :: "nat \<Rightarrow> transfer \<Rightarrow> nat staging_run \<Rightarrow> nat staging_run" where
  "demo_use i t s =
     s\<lparr>sr_pool := consume t (sr_pool s), sr_live := sr_live s - {(demo_reqs ! i, t)},
       sr_reads := sr_reads s \<union> (\<lambda>u. (u, demo_reqs ! i, t)) ` use_reads (sr_pool s) t\<rparr>"

definition demo_fresh :: "nat staging_run" where
  "demo_fresh = \<lparr> sr_pool = projr (staging_new 2 True True), sr_live = {}, sr_reads = {} \<rparr>"

definition demo_steps :: "(nat staging_run \<Rightarrow> nat staging_run) list" where
  "demo_steps = [demo_submit 0 0, demo_submit 1 1, demo_use 0 (demo_transfer 0 0 demo_fresh), demo_submit 2 0]"

primrec demo_run :: "nat \<Rightarrow> nat staging_run" where
  "demo_run 0 = demo_fresh"
| "demo_run (Suc k) = (demo_steps ! k) (demo_run k)"

lemma demo_submit_step:
  assumes "isl (fst (do_submit (demo_reqs ! i) slot (sr_pool s))) = False" "slot_idle (sr_live s) slot"
    "\<forall>h \<in> set (request_tensors (demo_reqs ! i)). tensor_ok h"
  shows "staging_step s (demo_submit i slot s)"
proof -
  obtain r p' where d: "do_submit (demo_reqs ! i) slot (sr_pool s) = (r, p')" by fastforce
  then obtain t where "r = Inr t" using assms(1) by (cases r) simp_all
  then show ?thesis using step_submit [OF _ assms(2,3), of t p'] d by (simp add: demo_submit_def)
qed

lemma demo_reaches: "reaches (staging_init 2 True True) staging_step (demo_run 4)"
proof -
  have run: "demo_run 1 = demo_submit 0 0 (demo_run 0)" "demo_run 2 = demo_submit 1 1 (demo_run 1)"
      "demo_run 3 = demo_use 0 (demo_transfer 0 0 demo_fresh) (demo_run 2)" "demo_run 4 = demo_submit 2 0 (demo_run 3)"
    using demo_run.simps(2) [of 0] demo_run.simps(2) [of 1] demo_run.simps(2) [of 2] demo_run.simps(2) [of 3]
    by (simp_all add: demo_steps_def numeral_eq_Suc del: demo_run.simps)
  have "staging_step (demo_run 0) (demo_run 1)" unfolding run(1) by (rule demo_submit_step) code_simp+
  moreover have "staging_step (demo_run 1) (demo_run 2)" unfolding run(2) by (rule demo_submit_step) code_simp+
  moreover have "staging_step (demo_run 2) (demo_run 3)" unfolding run(3) demo_use_def by (rule step_use) code_simp
  moreover have "staging_step (demo_run 3) (demo_run 4)" unfolding run(4) by (rule demo_submit_step) code_simp+
  moreover have "staging_init 2 True True (demo_run 0)" by code_simp
  ultimately show ?thesis by (meson reaches_init reaches_step)
qed

text \<open>
  The kernel reads the valid lengths of the cohort after the host has written those of the third
  submission and before the chunk in slot 1 was copied.
\<close>

theorem transfers_delivered_witness:
  "mem_before (sp_trace (sr_pool (demo_run 4))) [0, 1, 2, 3, 4, 5, 6, 7, 8, 9, 12, 13, 16, 17, 18, 14, 10, 11, 15, 19, 20, 21, 22]
     14 (Buf Valid 0 2, 1) = Some (Len 1)"
proof (rule transfers_delivered [OF demo_reaches])
  show "(14, demo_reqs ! 0, demo_transfer 0 0 demo_fresh) \<in> sr_reads (demo_run 4)" by code_simp
  show "cuda_schedule (sp_trace (sr_pool (demo_run 4))) [0, 1, 2, 3, 4, 5, 6, 7, 8, 9, 12, 13, 16, 17, 18, 14, 10, 11, 15, 19, 20, 21, 22]"
    by code_simp
  have t: "demo_reqs ! 0 = Cohort [[demo_tensor [1, 2] [10, 11], demo_tensor [1, 2] [12, 13]], [demo_tensor [1, 2] [20, 21]]]"
      "map_option (wi_buf \<circ> fst) (tf_valid_tokens (demo_transfer 0 0 demo_fresh)) = Some (Buf Valid 0 2)"
    by code_simp+
  then obtain vw n where "tf_valid_tokens (demo_transfer 0 0 demo_fresh) = Some (vw, n)" "wi_buf vw = Buf Valid 0 2"
    by auto
  then show "((Buf Valid 0 2, 1), Len 1) \<in> promised (demo_reqs ! 0) (demo_transfer 0 0 demo_fresh)"
    unfolding t(1) by (simp add: cohort_cells_def group_length_def demo_tensor_def)
qed

end
