(* ===== verification/LayerStream.thy ===== *)
theory LayerStream
  imports StagingSafety HistoryStore Config "HOL-Library.Multiset"
begin

text \<open>
  History streaming of one transformer layer (\<open>SpecStreamVerifier\<close> in
  \<open>specstream/verifier.py\<close>): the chunks of the CPU history store are grouped into windows, a ring
  over the staging slots keeps the copies ahead of the attention kernels, and a slot that a layer
  needs no longer is filled for the next layer.  The attention kernels themselves are the reads of
  \<open>consume\<close>; a stream operation returns the kernels it launched, in order: the position of the
  kernel in the trace and the transfer it reads.  Streaming all layers of a round launches, for
  every layer, kernels that find exactly the history of that layer, in order.
\<close>

section \<open>State\<close>

text \<open>An entry of a work queue: chunks of one request, or the groups of a cohort.\<close>

datatype 'k work = ChunkWork "'k cpu_tensor list" | CohortWork "'k cpu_tensor list list"

datatype task_key = RequestKey string nat | CohortKey "string list" nat

record batched_prefetch =
  bp_task_keys :: "task_key list"
  bp_transfers :: "(nat, transfer) dict"

type_synonym batch_key = "int \<times> int \<times> string \<times> string list"

record stream_item =
  si_rid :: string
  si_history_len :: int

text \<open>
  \<open>vf_next_prefetch\<close> is the variable \<open>next_prefetch\<close> of the running stream operation: \<open>None\<close> until it
  is computed, \<open>Some None\<close> for the empty tuple, else the next layer with its work queue.
\<close>

record 'k stream_verifier =
  vf_store :: "'k history_store"
  vf_staging :: "'k staging_pool"
  vf_single :: "(int \<times> string \<times> int, (nat, transfer) dict) dict"
  vf_batched :: "(batch_key, batched_prefetch) dict"
  vf_next_prefetch :: "(int \<times> 'k work list \<times> task_key list) option option"

definition on_store :: "('k history_store, 'a) py \<Rightarrow> ('k stream_verifier, 'a) py" where
  "on_store f v = (case f (vf_store v) of (r, st) \<Rightarrow> (r, v\<lparr>vf_store := st\<rparr>))"

definition on_staging :: "('k staging_pool, 'a) py \<Rightarrow> ('k stream_verifier, 'a) py" where
  "on_staging f v = (case f (vf_staging v) of (r, p) \<Rightarrow> (r, v\<lparr>vf_staging := p\<rparr>))"

text \<open>The first lines of \<open>forward\<close>: prefetches of other rounds are dropped.\<close>

definition purge_stale_prefetch :: "int \<Rightarrow> 'k stream_verifier \<Rightarrow> 'k stream_verifier" where
  "purge_stale_prefetch round_id v =
     v\<lparr>vf_single := filter (\<lambda>(key, _). fst key = round_id) (vf_single v),
       vf_batched := filter (\<lambda>(key, _). fst key = round_id) (vf_batched v)\<rparr>"

definition discard_layer_prefetch :: "string option \<Rightarrow> 'k stream_verifier \<Rightarrow> 'k stream_verifier" where
  "discard_layer_prefetch rid v =
     (case rid of
        None \<Rightarrow> v\<lparr>vf_single := [], vf_batched := []\<rparr>
      | Some r \<Rightarrow> v\<lparr>vf_single := filter (\<lambda>((_, r', _), _). r' \<noteq> r) (vf_single v),
                    vf_batched := filter (\<lambda>((_, _, _, rids), _). r \<notin> set rids) (vf_batched v)\<rparr>)"

section \<open>Work queues\<close>

definition group_adjacent_chunks :: "'a list \<Rightarrow> int \<Rightarrow> 'a list list res" where
  "group_adjacent_chunks chunks group_size =
     (if group_size < 1 then Inl ValueError else Inr (windows (nat group_size) chunks))"

text \<open>
  \<open>chunk.tensor\<close>: a contiguous slice of a slab in CPU memory, with the element type of the store.  An
  element here is the key or the value of one token, so the trailing shape is the two of them.
\<close>

definition chunk_tensor :: "'k history_store \<Rightarrow> 'k layer_chunk \<Rightarrow> 'k cpu_tensor" where
  "chunk_tensor st c =
     \<lparr> ct_shape = [length (lc_tensor c), 2], ct_dtype = ''kv'',
       ct_itemsize = nat (hs_kv_heads st * hs_head_dim st * hs_element_size st),
       ct_data = concat (map (\<lambda>(k, v). [k, v]) (lc_tensor c)), ct_cpu = True, ct_contiguous = True,
       ct_pinned = lc_pinned c \<rparr>"

definition layer_chunks :: "stream_item \<Rightarrow> int \<Rightarrow> ('k stream_verifier, 'k layer_chunk list) py" where
  "layer_chunks item layer_id = on_store (iter_layer_chunks (si_rid item) layer_id (Some (si_history_len item)))"

definition chunk_works :: "'k layer_chunk list list \<Rightarrow> ('k stream_verifier, 'k work list) py" where
  "chunk_works groups v = (Inr (map (\<lambda>g. ChunkWork (map (chunk_tensor (vf_store v)) g)) groups), v)"

definition next_history_layer_id :: "int list \<Rightarrow> int \<Rightarrow> int option" where
  "next_history_layer_id layer_ids layer_id =
     (case index_of layer_ids layer_id of
        None \<Rightarrow> None
      | Some i \<Rightarrow> if length layer_ids \<le> i + 1 then None else Some (layer_ids ! (i + 1)))"

text \<open>\<open>_MAX_SYNCHRONOUS_COHORT_PACK_BYTES\<close>: larger cohorts are not packed on the host.\<close>

definition max_pack_bytes :: nat where
  "max_pack_bytes = 32 * 1024 * 1024"

definition submit_work :: "bool \<Rightarrow> 'k work \<Rightarrow> int \<Rightarrow> ('k staging_pool, transfer) py" where
  "submit_work direct_async w slot =
     (case w of
        ChunkWork sources \<Rightarrow> submit_many sources slot
      | CohortWork groups \<Rightarrow>
          if direct_async \<or> max_pack_bytes \<le> sum_list (map nbytes_of (concat groups))
          then submit_cohort_direct groups slot else submit_cohort_groups groups slot)"

section \<open>The ring\<close>

text \<open>The first windows of a layer, where they are not prefetched.\<close>

fun ring_fill :: "'k work list \<Rightarrow> nat list \<Rightarrow> (nat, transfer) dict \<Rightarrow> ('k stream_verifier, (nat, transfer) dict) py" where
  "ring_fill works [] transfers = py_return transfers"
| "ring_fill works (i # is) transfers =
     (if dget transfers i \<noteq> None then ring_fill works is transfers
      else py_bind (on_staging (submit_work False (works ! i) (int i)))
             (\<lambda>t. ring_fill works is (dset i t transfers)))"

text \<open>\<open>wait_ready\<close>, the attention kernel and \<open>mark_consumed\<close>.\<close>

definition launch_window :: "transfer \<Rightarrow> ('k stream_verifier, nat \<times> transfer) py" where
  "launch_window t v =
     (Inr (length (sp_trace (wait_ready t (vf_staging v))), t), v\<lparr>vf_staging := consume t (vf_staging v)\<rparr>)"

text \<open>
  After window \<open>i\<close> was used, its slot takes window \<open>i\<close> plus the number of slots, or, when the layer
  needs no more, a window of the next layer.
\<close>

definition refill ::
    "nat \<Rightarrow> 'k work list \<Rightarrow> (int list option \<Rightarrow> ('k stream_verifier, unit) py) \<Rightarrow> bool \<Rightarrow> nat \<Rightarrow> transfer
      \<Rightarrow> (nat, transfer) dict \<Rightarrow> ('k stream_verifier, (nat, transfer) dict) py" where
  "refill n works prefetch_next on i t transfers =
     (if i + n < length works
      then py_bind (on_staging (submit_work False (works ! (i + n)) (int (tf_slot t))))
             (\<lambda>t'. py_return (dset (i + n) t' transfers))
      else py_bind (if on then prefetch_next (Some [int (tf_slot t)]) else py_return ())
             (\<lambda>_. py_return transfers))"

fun ring_loop ::
    "nat \<Rightarrow> 'k work list \<Rightarrow> (int list option \<Rightarrow> ('k stream_verifier, unit) py) \<Rightarrow> bool \<Rightarrow> nat list
      \<Rightarrow> (nat, transfer) dict \<Rightarrow> ('k stream_verifier, (nat \<times> transfer) list) py" where
  "ring_loop n works prefetch_next on [] transfers = py_return []"
| "ring_loop n works prefetch_next on (i # is) transfers =
     (case dget transfers i of
        None \<Rightarrow> py_raise KeyError
      | Some t \<Rightarrow>
          py_bind (launch_window t) (\<lambda>k.
          py_bind (refill n works prefetch_next on i t (ddel i transfers)) (\<lambda>transfers'.
          py_bind (ring_loop n works prefetch_next on is transfers') (\<lambda>ks. py_return (k # ks)))))"

text \<open>
  The loop over free slots of a prefetch: \<open>keep\<close> is what each new transfer writes to the cache at
  once.  It returns the transfers of the next layer and the new ones among them.
\<close>

fun prefetch_loop ::
    "bool \<Rightarrow> 'k work list \<Rightarrow> ((nat, transfer) dict \<Rightarrow> 'k stream_verifier \<Rightarrow> 'k stream_verifier) \<Rightarrow> nat
      \<Rightarrow> int list \<Rightarrow> int list \<Rightarrow> (nat, transfer) dict \<Rightarrow> (nat, transfer) dict
      \<Rightarrow> ('k stream_verifier, (nat, transfer) dict) py" where
  "prefetch_loop direct works keep limit [] used transfers new = py_return new"
| "prefetch_loop direct works keep limit (slot # slots) used transfers new =
     (if slot \<in> set used then prefetch_loop direct works keep limit slots used transfers new
      else
       case find (\<lambda>c. dget transfers c = None) [0..<limit] of
         None \<Rightarrow> py_return new
       | Some i \<Rightarrow>
           py_bind (on_staging (submit_work direct (works ! i) slot)) (\<lambda>t.
           py_bind (py_update (keep (dset i t transfers))) (\<lambda>_.
           prefetch_loop direct works keep limit slots (slot # used) (dset i t transfers) (dset i t new))))"

definition slots_of :: "(nat, transfer) dict \<Rightarrow> int list" where
  "slots_of transfers = map (\<lambda>(_, t). int (tf_slot t)) transfers"

definition all_slots :: "int list option \<Rightarrow> 'k stream_verifier \<Rightarrow> int list" where
  "all_slots available_slots v =
     (case available_slots of None \<Rightarrow> map int [0..<sp_num_buffers (vf_staging v)] | Some slots \<Rightarrow> slots)"

section \<open>One request\<close>

definition keep_single :: "int \<times> string \<times> int \<Rightarrow> (nat, transfer) dict \<Rightarrow> 'k stream_verifier \<Rightarrow> 'k stream_verifier" where
  "keep_single key transfers v = v\<lparr>vf_single := dset key transfers (vf_single v)\<rparr>"

text \<open>\<open>_prefetch_next_single_layer\<close> with the queue its only caller prepares.\<close>

definition prefetch_next_single_layer ::
    "int \<Rightarrow> stream_item \<Rightarrow> int list option \<Rightarrow> (int \<times> 'k work list \<times> task_key list) option
      \<Rightarrow> ('k stream_verifier, unit) py" where
  "prefetch_next_single_layer round_id item available_slots prepared =
     (case prepared of
        None \<Rightarrow> py_return ()
      | Some (next_layer, works, _) \<Rightarrow>
          if works = [] then py_return ()
          else
           (\<lambda>v. let key = (round_id, si_rid item, next_layer);
                    transfers = dget_or (vf_single v) key []
                in py_bind
                     (prefetch_loop False works (keep_single key)
                        (min (sp_num_buffers (vf_staging v)) (length works)) (all_slots available_slots v)
                        (slots_of transfers) transfers [])
                     (\<lambda>_. py_return ()) (keep_single key transfers v)))"

text \<open>The closure \<open>prefetch_next\<close>: the queue of the next layer is built at the first call.\<close>

definition prepare_next ::
    "int \<Rightarrow> (int \<Rightarrow> ('k stream_verifier, 'k work list \<times> task_key list) py) \<Rightarrow> ('k stream_verifier, unit) py" where
  "prepare_next layer_id build v =
     (case vf_next_prefetch v of
        Some _ \<Rightarrow> (Inr (), v)
      | None \<Rightarrow>
          (case next_history_layer_id (hs_layer_ids (vf_store v)) layer_id of
             None \<Rightarrow> (Inr (), v\<lparr>vf_next_prefetch := Some None\<rparr>)
           | Some next_layer \<Rightarrow>
               py_bind (build next_layer)
                 (\<lambda>(works, keys) v. (Inr (), v\<lparr>vf_next_prefetch := Some (Some (next_layer, works, keys))\<rparr>)) v))"

definition single_works ::
    "int \<Rightarrow> stream_item \<Rightarrow> int \<Rightarrow> ('k stream_verifier, 'k work list \<times> task_key list) py" where
  "single_works group_size item layer_id =
     py_bind (layer_chunks item layer_id) (\<lambda>chunks.
     py_bind (\<lambda>v. (group_adjacent_chunks chunks group_size, v)) (\<lambda>groups.
     py_bind (chunk_works groups) (\<lambda>works. py_return (works, []))))"

definition prefetch_next_single ::
    "specstream_config \<Rightarrow> int \<Rightarrow> stream_item \<Rightarrow> int \<Rightarrow> int list option \<Rightarrow> ('k stream_verifier, unit) py" where
  "prefetch_next_single cfg round_id item layer_id available_slots =
     py_bind (prepare_next layer_id (single_works (cf_chunks_per_transfer cfg) item))
       (\<lambda>_ v. prefetch_next_single_layer round_id item available_slots (the (vf_next_prefetch v)) v)"

definition stream_history_single ::
    "specstream_config \<Rightarrow> int \<Rightarrow> stream_item \<Rightarrow> int \<Rightarrow> bool \<Rightarrow> ('k stream_verifier, (nat \<times> transfer) list) py" where
  "stream_history_single cfg round_id item layer_id prefetch_next_layer =
     py_bind (layer_chunks item layer_id) (\<lambda>chunks.
     if sum_list (map lc_length chunks) \<noteq> si_history_len item then py_raise AssertionError
     else if chunks = [] then py_return []
     else
      let group_size = (if cf_reference_attention cfg then 1 else cf_chunks_per_transfer cfg);
          key = (round_id, si_rid item, layer_id);
          on = (prefetch_next_layer \<and> \<not> cf_reference_attention cfg);
          prefetch_next = prefetch_next_single cfg round_id item layer_id
      in
      py_bind (\<lambda>v. (group_adjacent_chunks chunks group_size, v\<lparr>vf_next_prefetch := None\<rparr>)) (\<lambda>groups.
      py_bind (chunk_works groups) (\<lambda>works.
      py_bind (\<lambda>v. (Inr (dget_or (vf_single v) key []), v\<lparr>vf_single := ddel key (vf_single v)\<rparr>)) (\<lambda>cached v.
      let n = sp_num_buffers (vf_staging v) in
      py_bind (ring_fill works [0..<min n (length works)] cached) (\<lambda>transfers.
      py_bind (ring_loop n works prefetch_next on [0..<length works] transfers) (\<lambda>kernels.
      py_bind (if on then prefetch_next None else py_return ()) (\<lambda>_. py_return kernels))) v))))"

section \<open>Several requests\<close>

definition batched_prefetch_key :: "int \<Rightarrow> int \<Rightarrow> string \<Rightarrow> stream_item list \<Rightarrow> batch_key" where
  "batched_prefetch_key round_id layer_id mode items = (round_id, layer_id, mode, map si_rid items)"

definition take_batched_prefetch ::
    "batch_key \<Rightarrow> task_key list \<Rightarrow> ('k stream_verifier, (nat, transfer) dict) py" where
  "take_batched_prefetch key task_keys v =
     (Inr (case dget (vf_batched v) key of
             None \<Rightarrow> []
           | Some cached \<Rightarrow> if bp_task_keys cached \<noteq> task_keys then [] else bp_transfers cached),
      v\<lparr>vf_batched := ddel key (vf_batched v)\<rparr>)"

definition cached_transfers :: "batch_key \<Rightarrow> task_key list \<Rightarrow> 'k stream_verifier \<Rightarrow> (nat, transfer) dict" where
  "cached_transfers key task_keys v =
     (case dget (vf_batched v) key of
        None \<Rightarrow> []
      | Some cached \<Rightarrow> if bp_task_keys cached = task_keys then bp_transfers cached else [])"

definition store_batched_prefetch ::
    "batch_key \<Rightarrow> task_key list \<Rightarrow> (nat, transfer) dict \<Rightarrow> 'k stream_verifier \<Rightarrow> 'k stream_verifier" where
  "store_batched_prefetch key task_keys transfers v =
     (if transfers = [] then v
      else
       let merged = foldl (\<lambda>d (i, t). if dget d i = None then dset i t d else d)
                      (cached_transfers key task_keys v) transfers
       in v\<lparr>vf_batched := dset key \<lparr> bp_task_keys = task_keys, bp_transfers = merged \<rparr> (vf_batched v)\<rparr>)"

text \<open>\<open>_build_independent_tasks\<close>.\<close>

fun independent_works ::
    "int \<Rightarrow> stream_item list \<Rightarrow> int \<Rightarrow> ('k stream_verifier, 'k work list \<times> task_key list) py" where
  "independent_works group_size [] layer_id = py_return ([], [])"
| "independent_works group_size (item # items) layer_id =
     py_bind (layer_chunks item layer_id) (\<lambda>chunks.
     if sum_list (map lc_length chunks) \<noteq> si_history_len item then py_raise AssertionError
     else
     py_bind (\<lambda>v. (group_adjacent_chunks chunks group_size, v)) (\<lambda>groups.
     py_bind (chunk_works groups) (\<lambda>works.
     py_bind (independent_works group_size items layer_id) (\<lambda>(works', keys).
     py_return (works @ works', map (RequestKey (si_rid item)) [0..<length groups] @ keys)))))"

text \<open>The common part of \<open>_prefetch_next_independent_layer\<close> and \<open>_prefetch_next_cohort_layer\<close>.\<close>

definition prefetch_next_batched_layer ::
    "bool \<Rightarrow> string \<Rightarrow> int \<Rightarrow> stream_item list \<Rightarrow> int list option \<Rightarrow> (int \<times> 'k work list \<times> task_key list) option
      \<Rightarrow> ('k stream_verifier, unit) py" where
  "prefetch_next_batched_layer direct mode round_id items available_slots prepared =
     (case prepared of
        None \<Rightarrow> py_return ()
      | Some (next_layer, works, task_keys) \<Rightarrow>
          (\<lambda>v. let key = batched_prefetch_key round_id next_layer mode items;
                   transfers = cached_transfers key task_keys v
               in py_bind
                    (prefetch_loop direct works (\<lambda>_. id)
                       (min (sp_num_buffers (vf_staging v)) (length works)) (all_slots available_slots v)
                       (slots_of transfers) transfers [])
                    (\<lambda>new. py_update (store_batched_prefetch key task_keys new)) v))"

definition prefetch_next_independent ::
    "specstream_config \<Rightarrow> int \<Rightarrow> stream_item list \<Rightarrow> int \<Rightarrow> int list option \<Rightarrow> ('k stream_verifier, unit) py" where
  "prefetch_next_independent cfg round_id items layer_id available_slots =
     py_bind (prepare_next layer_id (independent_works (cf_chunks_per_transfer cfg) items))
       (\<lambda>_ v. prefetch_next_batched_layer False ''independent'' round_id items available_slots (the (vf_next_prefetch v)) v)"

definition stream_history_independent ::
    "specstream_config \<Rightarrow> int \<Rightarrow> stream_item list \<Rightarrow> int \<Rightarrow> ('k stream_verifier, (nat \<times> transfer) list) py" where
  "stream_history_independent cfg round_id items layer_id =
     py_bind (independent_works (cf_chunks_per_transfer cfg) items layer_id) (\<lambda>(works, task_keys).
     py_bind (py_update (\<lambda>v. v\<lparr>vf_next_prefetch := None\<rparr>)) (\<lambda>_.
     py_bind (take_batched_prefetch (batched_prefetch_key round_id layer_id ''independent'' items) task_keys) (\<lambda>cached v.
     let n = sp_num_buffers (vf_staging v);
         prefetch_next = prefetch_next_independent cfg round_id items layer_id
     in
     py_bind (ring_fill works [0..<min n (length works)] cached) (\<lambda>transfers.
     py_bind (ring_loop n works prefetch_next True [0..<length works] transfers) (\<lambda>kernels.
     py_bind (prefetch_next None) (\<lambda>_. py_return kernels))) v)))"

section \<open>Rounds\<close>

text \<open>
  \<open>forward\<close> without the query side: the stale prefetches are dropped and the layer is streamed,
  request by request or, with several requests under layer prefetching, as one queue.
\<close>

text \<open>Requests one after another; only a lone request uses the prefetch.\<close>

fun stream_each ::
    "specstream_config \<Rightarrow> int \<Rightarrow> int \<Rightarrow> bool \<Rightarrow> stream_item list \<Rightarrow> ('k stream_verifier, (nat \<times> transfer) list list) py" where
  "stream_each cfg round_id layer_id allow [] = py_return []"
| "stream_each cfg round_id layer_id allow (item # items) =
     py_bind (stream_history_single cfg round_id item layer_id allow) (\<lambda>kernels.
     py_bind (stream_each cfg round_id layer_id allow items) (\<lambda>rest. py_return (kernels # rest)))"

definition forward_each ::
    "specstream_config \<Rightarrow> int \<Rightarrow> stream_item list \<Rightarrow> int \<Rightarrow> ('k stream_verifier, (nat \<times> transfer) list list) py" where
  "forward_each cfg round_id items layer_id =
     py_bind (py_update (purge_stale_prefetch round_id))
       (\<lambda>_. stream_each cfg round_id layer_id (cf_layer_prefetch cfg \<and> length items = 1) items)"

definition forward_independent ::
    "specstream_config \<Rightarrow> int \<Rightarrow> stream_item list \<Rightarrow> int \<Rightarrow> ('k stream_verifier, (nat \<times> transfer) list) py" where
  "forward_independent cfg round_id items layer_id =
     py_bind (py_update (purge_stale_prefetch round_id)) (\<lambda>_. stream_history_independent cfg round_id items layer_id)"

text \<open>The model calls its attention layers in order.\<close>

fun over_layers :: "(int \<Rightarrow> ('s, 'a) py) \<Rightarrow> int list \<Rightarrow> ('s, 'a list) py" where
  "over_layers f [] = py_return []"
| "over_layers f (layer # layers) =
     py_bind (f layer) (\<lambda>x. py_bind (over_layers f layers) (\<lambda>xs. py_return (x # xs)))"

section \<open>Submitting work\<close>

definition work_request :: "bool \<Rightarrow> 'k work \<Rightarrow> 'k request" where
  "work_request direct_async w =
     (case w of
        ChunkWork sources \<Rightarrow> Many sources
      | CohortWork groups \<Rightarrow>
          if direct_async \<or> max_pack_bytes \<le> sum_list (map nbytes_of (concat groups)) then Direct groups else Cohort groups)"

lemma submit_work_request: "submit_work d w slot = do_submit (work_request d w) slot"
  by (simp add: submit_work_def work_request_def split: work.split)

text \<open>Tensors of one geometry in CPU memory.\<close>

definition uniform :: "'k cpu_tensor list \<Rightarrow> bool" where
  "uniform ts \<longleftrightarrow>
     (\<forall>t \<in> set ts. ct_cpu t \<and> ct_contiguous t \<and> ct_dtype t = ct_dtype (hd ts) \<and> ct_shape t \<noteq> []
        \<and> tl (ct_shape t) = tl (ct_shape (hd ts)) \<and> tensor_ok t)"

fun work_tensors :: "'k work \<Rightarrow> 'k cpu_tensor list" where
  "work_tensors (ChunkWork sources) = sources"
| "work_tensors (CohortWork groups) = concat groups"

definition work_ok :: "'k work \<Rightarrow> bool" where
  "work_ok w \<longleftrightarrow> work_tensors w \<noteq> [] \<and> uniform (work_tensors w)"

lemma work_request_tensors: "request_tensors (work_request d w) = work_tensors w"
  by (cases w) (simp_all add: work_request_def)

lemma rmap_units: "\<forall>x \<in> set xs. f x = Inr () \<Longrightarrow> \<exists>us. rmap f xs = Inr us"
  by (induction xs) auto

lemma uniform_sources: "uniform (first # ts) \<Longrightarrow> \<exists>us. rmap (source_error first) (first # ts) = Inr us"
  by (intro rmap_units) (auto simp: uniform_def source_error_def)

lemma ensure_shape_ok:
  "0 \<le> slot \<Longrightarrow> nat slot < sp_num_buffers p \<Longrightarrow> \<exists>w p'. ensure_shape slot shape dtype itemsize p = (Inr w, p')"
  by (auto simp: ensure_shape_def new_window_def Let_def split: if_splits)

lemma ensure_host_ok:
  "0 \<le> slot \<Longrightarrow> nat slot < sp_num_buffers p \<Longrightarrow> \<exists>w p'. ensure_host_shape slot shape dtype itemsize p = (Inr w, p')"
  by (auto simp: ensure_host_shape_def new_window_def Let_def split: if_splits)

lemma ensure_valid_num: "ensure_valid_shape s cnt p = (hd', p') \<Longrightarrow> sp_num_buffers p' = sp_num_buffers p"
  by (auto simp: ensure_valid_shape_def new_window_def Let_def split: if_splits)

lemma wait_host_num [simp]: "sp_num_buffers (wait_host_slot_writable s p) = sp_num_buffers p"
  by (rule calm_num [OF wait_host_calm])

definition accepts :: "('k staging_pool, 'a) py \<Rightarrow> 'k staging_pool \<Rightarrow> bool" where
  "accepts f p \<longleftrightarrow> (\<exists>x p'. f p = (Inr x, p') \<and> sp_num_buffers p' = sp_num_buffers p)"

lemma accepts_bind:
  assumes "accepts f p" and "\<And>x q. sp_num_buffers q = sp_num_buffers p \<Longrightarrow> accepts (g x) q"
  shows "accepts (py_bind f g) p"
proof -
  obtain x q where q: "f p = (Inr x, q)" "sp_num_buffers q = sp_num_buffers p" using assms(1) unfolding accepts_def by blast
  then show ?thesis using assms(2) [OF q(2), of x] by (simp add: accepts_def py_basic q(1))
qed

lemma accepts_ensure:
  assumes "0 \<le> slot" "nat slot < sp_num_buffers p"
  shows "accepts (ensure_shape slot shape dtype itemsize) p" "accepts (ensure_host_shape slot shape dtype itemsize) p"
  using ensure_shape_ok [OF assms] ensure_host_ok [OF assms] ensure_shape_spec(1) ensure_host_spec(1) calm_num
  unfolding accepts_def by (metis, metis)

lemma accepts_pure: "r p = Inr x \<Longrightarrow> accepts (\<lambda>p. (r p, p)) p"
  by (simp add: accepts_def)

lemma submit_many_accepts:
  assumes "ss \<noteq> []" "uniform ss" "0 \<le> slot" "nat slot < sp_num_buffers p"
  shows "accepts (submit_many ss slot) p"
proof -
  obtain first rest where ss: "ss = first # rest" using assms(1) by (cases ss) auto
  obtain us where us: "rmap (source_error first) ss = Inr us" using uniform_sources assms(2) ss by blast
  have check: "accepts (\<lambda>p. (rmap (source_error first) (first # rest), p)) p" by (rule accepts_pure [OF us [unfolded ss]])
  show ?thesis
    unfolding submit_many_def ss list.case Let_def
    using assms(3,4) by (intro accepts_bind accepts_ensure check) (simp_all add: accepts_def)
qed

lemma cohort_accepts:
  assumes "concat gs \<noteq> []" "uniform (concat gs)" "0 \<le> slot" "nat slot < sp_num_buffers p"
  shows "accepts (submit_cohort_groups gs slot) p" "accepts (submit_cohort_direct gs slot) p"
proof -
  obtain first rest where ss: "concat gs = first # rest" using assms(1) by (cases "concat gs") auto
  obtain us where us: "rmap (source_error first) (concat gs) = Inr us" using uniform_sources assms(2) ss by metis
  define shape where "shape = length gs # Max (set (map group_length gs)) # tl (ct_shape first)"
  have check: "accepts (\<lambda>p. (rmap (source_error first) (concat gs), p)) p" by (rule accepts_pure [OF us])
  have wait: "accepts (\<lambda>p. if - int (sp_num_buffers p) \<le> slot \<and> slot < int (sp_num_buffers p)
      then (Inr (), wait_host_slot_writable (nat (slot mod int (sp_num_buffers p))) p) else (Inl IndexError, p)) q"
    if "sp_num_buffers q = sp_num_buffers p" for q :: "'a staging_pool"
    using that assms(3,4) by (auto simp: accepts_def)
  have valid: "accepts (\<lambda>p. let ((vh, vd), p1) = ensure_valid_shape s cnt p; p2 = issue_host (ops vh vd) p1 in f vh vd p p2) q"
    if "\<And>vh vd p2. sp_num_buffers p2 = sp_num_buffers q \<Longrightarrow> accepts (f vh vd q) p2"
    for s cnt ops q and f :: "_ \<Rightarrow> _ \<Rightarrow> 'a staging_pool \<Rightarrow> ('a staging_pool, transfer) py"
  proof -
    obtain vh vd p1 where e: "ensure_valid_shape s cnt q = ((vh, vd), p1)" by (metis prod.exhaust)
    let ?p2 = "issue_host (ops vh vd) p1"
    have "sp_num_buffers ?p2 = sp_num_buffers q" using ensure_valid_num [OF e] by simp
    then show ?thesis using that [of ?p2 vh vd] by (simp add: accepts_def e)
  qed
  note e = accepts_ensure [OF assms(3)]
  show "accepts (submit_cohort_groups gs slot) p"
    unfolding submit_cohort_groups_def ss list.case Let_def [of "Max _"] Let_def [of "_ # _"] shape_def [symmetric]
    using assms(3,4) check [unfolded ss]
    by (intro accepts_bind wait valid e) (simp_all add: accepts_def py_basic)
  show "accepts (submit_cohort_direct gs slot) p"
    unfolding submit_cohort_direct_def ss list.case Let_def [of "Max _"] Let_def [of "_ # _"] shape_def [symmetric]
    using assms(3,4) check [unfolded ss]
    by (intro accepts_bind valid e) (simp_all add: accepts_def py_basic)
qed


lemma work_accepts:
  assumes "work_ok w" "0 \<le> slot" "nat slot < sp_num_buffers p"
  shows "accepts (do_submit (work_request d w) slot) p"
  using assms submit_many_accepts [of _ slot p] cohort_accepts [of _ slot p]
  by (cases w) (simp_all add: work_ok_def work_request_def)

lemma work_tensors_ok: "work_ok w \<Longrightarrow> \<forall>h \<in> set (request_tensors (work_request d w)). tensor_ok h"
  by (simp add: work_ok_def uniform_def work_request_tensors)

text \<open>The elements of the window of a work entry.\<close>

fun window_size :: "'k work \<Rightarrow> nat" where
  "window_size (ChunkWork ss) = length (group_data ss)"
| "window_size (CohortWork gs) = length gs * (Max (set (map group_length gs)) * row_elems (hd (concat gs)))"

text \<open>The geometry of the transfer of a work entry.\<close>

definition fills_work :: "'k work \<Rightarrow> transfer \<Rightarrow> bool" where
  "fills_work w t \<longleftrightarrow>
     tf_count t = window_size w
   \<and> (case w of ChunkWork _ \<Rightarrow> True
       | CohortWork gs \<Rightarrow> tf_valid_lengths t = map group_length gs \<and> (\<exists>b. tf_valid_tokens t = Some (b, length gs)))"

lemma uniform_rows:
  assumes "uniform (first # ts)"
  shows "rows_ok (row_elems first) (first # ts)"
proof -
  obtain us where us: "rmap (source_error first) (first # ts) = Inr us" using uniform_sources [OF assms] by blast
  have "\<forall>t \<in> set (first # ts). tensor_ok t" using assms by (simp add: uniform_def)
  then show ?thesis by (rule sources_geometry [OF us])
qed

lemma work_fills:
  assumes "work_ok w" and run: "do_submit (work_request d w) slot p = (Inr t, p')"
  shows "fills_work w t"
proof (cases w)
  case (ChunkWork ss)
  obtain first rest where ss: "ss = first # rest" using assms(1) ChunkWork by (cases ss) (auto simp: work_ok_def)
  have "length (group_data ss) = group_length ss * row_elems first"
    using assms(1) ChunkWork by (intro length_group_data) (simp add: work_ok_def ss uniform_rows)
  then show ?thesis
    using run ChunkWork unfolding ss
    by (auto simp: fills_work_def work_request_def submit_many_def Let_def group_length_def elim!: py_bind_cases)
next
  case (CohortWork gs)
  obtain first rest where ss: "concat gs = first # rest" using assms(1) CohortWork by (cases "concat gs") (auto simp: work_ok_def)
  have "do_submit (Direct gs) slot p = (Inr t, p') \<or> do_submit (Cohort gs) slot p = (Inr t, p')"
    using run CohortWork by (auto simp: work_request_def split: if_splits)
  then show ?thesis
    unfolding CohortWork
    by (auto simp: fills_work_def submit_cohort_direct_def submit_cohort_groups_def ss Let_def cohort_transfer_def row_elems_def
        split: prod.splits elim!: py_bind_cases)
qed

section \<open>The ring and the runs of the staging pool\<close>

text \<open>
  A run \<open>s\<close> of the staging pool stands behind a verifier \<open>v\<close> that holds the transfers \<open>A\<close>: they are
  pending, in different slots, and nothing else is.
\<close>

definition backed :: "int \<Rightarrow> bool \<Rightarrow> bool \<Rightarrow> 'k staging_pool \<Rightarrow> transfer list \<Rightarrow> 'k staging_run \<Rightarrow> bool" where
  "backed n cuda pin p ts s \<longleftrightarrow>
     reaches (staging_init n cuda pin) staging_step s \<and> sr_pool s = p
   \<and> distinct (map tf_slot ts) \<and> (\<forall>t \<in> set ts. tf_slot t < sp_num_buffers p)
   \<and> snd ` sr_live s \<subseteq> set ts"

definition pending :: "'k work list \<Rightarrow> (nat, transfer) dict \<Rightarrow> 'k staging_run \<Rightarrow> bool" where
  "pending works d s \<longleftrightarrow>
     (\<forall>(i, t) \<in> set d. i < length works \<and> fills_work (works ! i) t
        \<and> (\<exists>direct. (work_request direct (works ! i), t) \<in> sr_live s))"

definition launched :: "'k work list \<Rightarrow> nat \<Rightarrow> nat \<times> transfer \<Rightarrow> 'k staging_run \<Rightarrow> bool" where
  "launched works i k s \<longleftrightarrow>
     fills_work (works ! i) (snd k) \<and> (\<exists>direct. (fst k, work_request direct (works ! i), snd k) \<in> sr_reads s)"

text \<open>What later steps of the pool keep: reads, and pending transfers in other slots.\<close>

definition continues :: "transfer set \<Rightarrow> 'k staging_run \<Rightarrow> 'k staging_run \<Rightarrow> bool" where
  "continues gone s s' \<longleftrightarrow>
     sr_reads s \<subseteq> sr_reads s' \<and> {x \<in> sr_live s. snd x \<notin> gone} \<subseteq> sr_live s'
   \<and> sp_num_buffers (sr_pool s') = sp_num_buffers (sr_pool s)"

lemma run_submit:
  assumes b: "backed n cuda pin p ts s" and w: "work_ok w" and slot: "slot < sp_num_buffers p" "\<forall>t \<in> set ts. tf_slot t \<noteq> slot"
  shows "\<exists>t p' s'. submit_work direct w (int slot) p = (Inr t, p') \<and> tf_slot t = slot \<and> fills_work w t
    \<and> backed n cuda pin p' (ts @ [t]) s' \<and> (work_request direct w, t) \<in> sr_live s' \<and> continues {} s s'
    \<and> sp_num_buffers p' = sp_num_buffers p"
proof -
  let ?req = "work_request direct w"
  obtain t p' where sub: "do_submit ?req (int slot) p = (Inr t, p')" and num: "sp_num_buffers p' = sp_num_buffers p"
    using work_accepts [OF w, of "int slot" p direct] slot(1) unfolding accepts_def by auto
  have s: "reaches (staging_init n cuda pin) staging_step s" "sr_pool s = p" using b by (simp_all add: backed_def)
  have idle: "slot_idle (sr_live s) (int slot)"
    using b slot(2) unfolding backed_def slot_idle_def by fastforce
  have pool: "pool_inv p (run_promises (sr_live s)) (run_readings (sr_reads s))" "buffers_ok p"
    using staging.reaches_inv [OF s(1)] s(2) by (simp_all add: run_ok_def)
  have "submitted (run_promises (sr_live s)) (run_readings (sr_reads s)) ?req (int slot) (Inr t) p'"
    by (rule do_submit_submitted [OF pool slot_idle_promises [OF idle] work_tensors_ok [OF w] sub])
  then have t: "tf_slot t = slot" by (simp add: submitted_def)
  let ?s' = "s\<lparr>sr_pool := p', sr_live := insert (?req, t) (sr_live s)\<rparr>"
  have "staging_step s ?s'" using step_submit [of ?req "int slot" s t p'] sub s(2) idle work_tensors_ok [OF w] by simp
  then have "reaches (staging_init n cuda pin) staging_step ?s'" by (rule reaches_step [OF s(1)])
  moreover have "snd ` sr_live ?s' \<subseteq> set (ts @ [t])" using b by (auto simp: backed_def)
  ultimately have "backed n cuda pin p' (ts @ [t]) ?s'"
    using b t slot num by (auto simp: backed_def)
  then show ?thesis
    using sub t num s(2) work_fills [OF w sub] unfolding submit_work_request by (intro exI [of _ t] exI [of _ p'] exI [of _ ?s']) (auto simp: continues_def)
qed

lemma kernel_reads: "length (sp_trace (wait_ready t p)) \<in> use_reads p t"
proof -
  let ?r = "(consumer (wait_ready t p), ReadElems (wi_buf (tf_window t)) (tf_count t))"
  have mark: "\<exists>os. sp_trace (mark_consumed t q) = sp_trace q @ os" for q :: "'a staging_pool"
    by (simp add: mark_consumed_def issue_op_def)
  have "\<exists>os. sp_trace (consume t p) = sp_trace (wait_ready t p) @ ?r # os"
  proof (cases "tf_valid_tokens t")
    case None
    then show ?thesis
      using mark [of "issue_op (consumer (wait_ready t p)) (ReadElems (wi_buf (tf_window t)) (tf_count t)) (wait_ready t p)"]
      by (auto simp: consume_def Let_def issue_op_def)
  next
    case (Some wn)
    then show ?thesis
      using mark [of "issue_op (consumer (issue_op (consumer (wait_ready t p)) (ReadElems (wi_buf (tf_window t)) (tf_count t)) (wait_ready t p)))
        (ReadElems (wi_buf (fst wn)) (snd wn)) (issue_op (consumer (wait_ready t p)) (ReadElems (wi_buf (tf_window t)) (tf_count t)) (wait_ready t p))"]
      by (auto simp: consume_def Let_def issue_op_def case_prod_beta)
  qed
  then obtain os where os: "sp_trace (consume t p) = sp_trace (wait_ready t p) @ ?r # os" by blast
  have "length (sp_trace p) \<le> length (sp_trace (wait_ready t p))"
    by (simp add: wait_ready_def issue_op_def split: option.split)
  then show ?thesis by (simp add: use_reads_def Let_def os nth_append)
qed

lemma run_launch:
  assumes b: "backed n cuda pin p ts s" and t: "(req, t) \<in> sr_live s"
  shows "\<exists>s'. backed n cuda pin (consume t p) (removeAll t ts) s'
    \<and> (length (sp_trace (wait_ready t p)), req, t) \<in> sr_reads s' \<and> continues {t} s s'
    \<and> sp_num_buffers (consume t p) = sp_num_buffers p"
proof -
  have s: "reaches (staging_init n cuda pin) staging_step s" "sr_pool s = p" using b by (simp_all add: backed_def)
  let ?s1 = "s\<lparr>sr_pool := consume t p, sr_live := sr_live s - {(req, t)},
    sr_reads := sr_reads s \<union> (\<lambda>u. (u, req, t)) ` use_reads p t\<rparr>"
  let ?s2 = "?s1\<lparr>sr_live := {x \<in> sr_live s. snd x \<noteq> t}\<rparr>"
  have use: "staging_step s ?s1" using step_use [OF t] s(2) by simp
  have "staging_step ?s1 ?s2" by (rule step_forget) auto
  then have r: "reaches (staging_init n cuda pin) staging_step ?s2" by (rule reaches_step [OF reaches_step [OF s(1) use]])
  have num: "sp_num_buffers (consume t p) = sp_num_buffers p" by (simp add: consume_eq)
  have "length (sp_trace (wait_ready t p)) \<in> use_reads p t" by (rule kernel_reads)
  moreover have "backed n cuda pin (consume t p) (removeAll t ts) ?s2"
    using b r num by (auto simp: backed_def distinct_map distinct_removeAll intro: inj_on_subset)
  ultimately show ?thesis
    using num s(2) by (intro exI [of _ ?s2]) (auto simp: continues_def)
qed


lemma run_forget:
  assumes "reaches (staging_init n cuda pin) staging_step s" "sr_pool s = p"
    "distinct (map tf_slot ts)" "\<forall>t \<in> set ts. tf_slot t < sp_num_buffers p"
  shows "\<exists>s'. backed n cuda pin p ts s' \<and> continues {t. t \<notin> set ts} s s'"
proof -
  let ?s' = "s\<lparr>sr_live := {x \<in> sr_live s. snd x \<in> set ts}\<rparr>"
  have "staging_step s ?s'" by (rule step_forget) auto
  then have "reaches (staging_init n cuda pin) staging_step ?s'" by (rule reaches_step [OF assms(1)])
  then show ?thesis using assms by (intro exI [of _ ?s']) (auto simp: backed_def continues_def)
qed

lemma pending_continues:
  assumes "pending works d s" "continues gone s s'" "\<forall>(i, t) \<in> set d. t \<notin> gone"
  shows "pending works d s'"
  using assms unfolding pending_def continues_def by fastforce

lemma pending_append [simp]: "pending works (d @ e) s \<longleftrightarrow> pending works d s \<and> pending works e s"
  by (simp add: pending_def ball_Un)

lemma continues_trans: "continues g s s' \<Longrightarrow> continues g' s' s'' \<Longrightarrow> continues (g \<union> g') s s''"
  unfolding continues_def by fastforce

lemma launched_continues: "launched works i k s \<Longrightarrow> continues gone s s' \<Longrightarrow> launched works i k s'"
  unfolding launched_def continues_def by blast

lemma dset_new: "k \<notin> fst ` set d \<Longrightarrow> dset k v d = d @ [(k, v)]"
  by (induction d) auto

lemma find_upt: "find (\<lambda>c. k \<le> c) [0..<limit] = (if k < limit then Some k else None)"
proof (cases "k < limit")
  case True
  then show ?thesis by (auto simp: find_Some_iff intro!: exI [of _ k])
qed (auto simp: find_None_iff)

lemma find_missing:
  assumes "map fst d = [0..<k]"
  shows "find (\<lambda>c. dget d c = None) [0..<limit] = (if k < limit then Some k else None)"
proof -
  have "dget d c = None \<longleftrightarrow> k \<le> c" for c
    using arg_cong [OF assms, of set] by (auto simp: map_of_eq_None_iff)
  then show ?thesis by (simp add: find_upt)
qed

text \<open>The transfers \<open>A\<close> of the running layer and \<open>B\<close> of the next one, pending in different slots.\<close>

definition queued ::
    "int \<Rightarrow> bool \<Rightarrow> bool \<Rightarrow> 'k staging_pool \<Rightarrow> 'k work list \<Rightarrow> (nat, transfer) dict \<Rightarrow> 'k work list
      \<Rightarrow> (nat, transfer) dict \<Rightarrow> 'k staging_run \<Rightarrow> bool" where
  "queued n cuda pin p worksA A works B s \<longleftrightarrow>
     backed n cuda pin p (map snd A @ map snd B) s \<and> pending worksA A s \<and> pending works B s"

definition unused :: "(nat, transfer) dict \<Rightarrow> 'k staging_pool \<Rightarrow> int list \<Rightarrow> bool" where
  "unused A p slots \<longleftrightarrow>
     (\<forall>x \<in> set slots. 0 \<le> x \<and> nat x < sp_num_buffers p \<and> nat x \<notin> tf_slot ` snd ` set A)"

lemma backed_cong: "mset ts = mset ts' \<Longrightarrow> backed n cuda pin p ts s = backed n cuda pin p ts' s"
  unfolding backed_def by (metis mset_eq_setD mset_map mset_eq_imp_distinct_iff)

lemma queued_submit:
  assumes q: "queued n cuda pin p worksA A works B s"
    and slot: "slot < sp_num_buffers p" "slot \<notin> tf_slot ` snd ` set A" "slot \<notin> tf_slot ` snd ` set B" and w: "work_ok w"
  shows "\<exists>t p' s'. submit_work direct w (int slot) p = (Inr t, p') \<and> tf_slot t = slot \<and> fills_work w t
    \<and> backed n cuda pin p' ((map snd A @ map snd B) @ [t]) s' \<and> pending worksA A s' \<and> pending works B s'
    \<and> (work_request direct w, t) \<in> sr_live s' \<and> continues {} s s' \<and> sp_num_buffers p' = sp_num_buffers p"
proof -
  have b: "backed n cuda pin p (map snd A @ map snd B) s" and pend: "pending worksA A s" "pending works B s"
    using q by (simp_all add: queued_def)
  have free: "\<forall>t \<in> set (map snd A @ map snd B). tf_slot t \<noteq> slot" using slot(2,3) by force
  show ?thesis
    using run_submit [OF b w slot(1) free, of direct] pending_continues [OF pend(1)] pending_continues [OF pend(2)] by fastforce
qed

lemma pending_one:
  "i < length works \<Longrightarrow> fills_work (works ! i) t \<Longrightarrow> (work_request direct (works ! i), t) \<in> sr_live s \<Longrightarrow> pending works [(i, t)] s"
  by (auto simp: pending_def)

lemma queued_submit_next:
  assumes "queued n cuda pin p worksA A works B s" "i < length works" "work_ok (works ! i)"
    "slot < sp_num_buffers p" "slot \<notin> tf_slot ` snd ` set A" "slot \<notin> tf_slot ` snd ` set B"
  shows "\<exists>t p' s'. submit_work direct (works ! i) (int slot) p = (Inr t, p') \<and> tf_slot t = slot
    \<and> queued n cuda pin p' worksA A works (B @ [(i, t)]) s' \<and> continues {} s s' \<and> sp_num_buffers p' = sp_num_buffers p"
  using queued_submit [OF assms(1,4-6,3), of direct] pending_one [OF assms(2)] by (fastforce simp: queued_def)

lemma queued_submit_layer:
  assumes "queued n cuda pin p worksA A works B s" "i < length worksA" "work_ok (worksA ! i)"
    "slot < sp_num_buffers p" "slot \<notin> tf_slot ` snd ` set A" "slot \<notin> tf_slot ` snd ` set B"
  shows "\<exists>t p' s'. submit_work direct (worksA ! i) (int slot) p = (Inr t, p') \<and> tf_slot t = slot
    \<and> queued n cuda pin p' worksA (A @ [(i, t)]) works B s' \<and> continues {} s s' \<and> sp_num_buffers p' = sp_num_buffers p"
proof -
  obtain t p' s' where r: "submit_work direct (worksA ! i) (int slot) p = (Inr t, p')" "tf_slot t = slot"
    "backed n cuda pin p' ((map snd A @ map snd B) @ [t]) s'" "pending worksA A s'" "pending works B s'"
    "fills_work (worksA ! i) t"
    "(work_request direct (worksA ! i), t) \<in> sr_live s'" "continues {} s s'" "sp_num_buffers p' = sp_num_buffers p"
    using queued_submit [OF assms(1,4-6,3), of direct] by blast
  have "backed n cuda pin p' (map snd (A @ [(i, t)]) @ map snd B) s'"
    by (rule backed_cong [THEN iffD1, OF _ r(3)]) simp
  then have "queued n cuda pin p' worksA (A @ [(i, t)]) works B s'"
    using r(4,5) pending_one [OF assms(2) r(6,7)] by (simp add: queued_def)
  then show ?thesis using r by blast
qed

section \<open>Prefetching\<close>

text \<open>
  A cache for the transfers of the next layer: \<open>keep\<close> writes them, \<open>holds\<close> says that the verifier
  has them.
\<close>

locale prefetch_cache =
  fixes keep :: "(nat, transfer) dict \<Rightarrow> 'k stream_verifier \<Rightarrow> 'k stream_verifier"
    and holds :: "(nat, transfer) dict \<Rightarrow> 'k stream_verifier \<Rightarrow> bool"
  assumes keep_staging: "vf_staging (keep d v) = vf_staging v"
    and keep_holds: "holds d v \<Longrightarrow> holds d' (keep d' v)"
    and holds_staging: "holds d v \<Longrightarrow> holds d (v\<lparr>vf_staging := p\<rparr>)"
begin

lemma prefetch_loop_ok:
  assumes "queued n cuda pin (vf_staging v) worksA A works B s" "map fst B = [0..<k]" "k \<le> limit" "limit \<le> length works"
    "\<forall>w \<in> set works. work_ok w" "set used = set (slots_of B)" "unused A (vf_staging v) slots" "holds B v"
    "\<forall>i \<in> fst ` set new. i < k"
  shows "\<exists>E v' s'. prefetch_loop direct works keep limit slots used B new v = (Inr (new @ E), v')
    \<and> map fst (B @ E) = [0..<k + length E] \<and> k + length E \<le> limit
    \<and> (k + length E = limit \<or> set slots \<subseteq> set (slots_of (B @ E)))
    \<and> queued n cuda pin (vf_staging v') worksA A works (B @ E) s' \<and> holds (B @ E) v' \<and> continues {} s s'"
  using assms
proof (induction slots arbitrary: used B k new v s)
  case Nil
  then show ?case by (intro exI [of _ "[]"] exI [of _ v] exI [of _ s]) (auto simp: py_basic continues_def)
next
  case (Cons slot slots)
  have slots: "unused A (vf_staging v) slots" using Cons.prems(7) by (simp add: unused_def)
  show ?case
  proof (cases "slot \<in> set used")
    case True
    obtain E v' s' where IH: "prefetch_loop direct works keep limit slots used B new v = (Inr (new @ E), v')"
        "map fst (B @ E) = [0..<k + length E]" "k + length E \<le> limit"
        "k + length E = limit \<or> set slots \<subseteq> set (slots_of (B @ E))"
        "queued n cuda pin (vf_staging v') worksA A works (B @ E) s'" "holds (B @ E) v'" "continues {} s s'"
      using Cons.IH [OF Cons.prems(1-6) slots Cons.prems(8,9)] by blast
    have "slot \<in> set (slots_of (B @ E))" using True Cons.prems(6) by (simp add: slots_of_def)
    then show ?thesis using True IH by (intro exI [of _ E] exI [of _ v'] exI [of _ s']) auto
  next
    case False
    note find = find_missing [OF Cons.prems(2), of limit]
    show ?thesis
    proof (cases "k < limit")
      case k: False
      then have "prefetch_loop direct works keep limit (slot # slots) used B new v = (Inr new, v)"
        using False find by (simp add: py_basic)
      then show ?thesis
        using Cons.prems k by (intro exI [of _ "[]"] exI [of _ v] exI [of _ s]) (auto simp: continues_def)
    next
      case True
      have slot: "0 \<le> slot" "nat slot < sp_num_buffers (vf_staging v)" "nat slot \<notin> tf_slot ` snd ` set A"
        using Cons.prems(7) by (simp_all add: unused_def)
      moreover have "nat slot \<notin> tf_slot ` snd ` set B"
        using False Cons.prems(6) slot(1) by (force simp: slots_of_def)
      moreover have w: "work_ok (works ! k)" using Cons.prems(4,5) True by simp
      ultimately obtain t p' s1 where sub: "submit_work direct (works ! k) (int (nat slot)) (vf_staging v) = (Inr t, p')"
          "tf_slot t = nat slot" "queued n cuda pin p' worksA A works (B @ [(k, t)]) s1" "continues {} s s1"
          "sp_num_buffers p' = sp_num_buffers (vf_staging v)"
        using queued_submit_next [OF Cons.prems(1) _ w, of "nat slot" direct] True Cons.prems(4) by auto
      let ?B = "B @ [(k, t)]" and ?v = "keep (B @ [(k, t)]) (v\<lparr>vf_staging := p'\<rparr>)"
      have new: "dset k t B = ?B" "dset k t new = new @ [(k, t)]"
        using arg_cong [OF Cons.prems(2), of set] Cons.prems(9) by (auto intro!: dset_new)
      have run: "prefetch_loop direct works keep limit (slot # slots) used B new v
          = prefetch_loop direct works keep limit slots (slot # used) ?B (new @ [(k, t)]) ?v"
        using False find True sub(1) slot(1) new by (simp add: on_staging_def py_basic)
      have state: "queued n cuda pin (vf_staging ?v) worksA A works ?B s1" "unused A (vf_staging ?v) slots" "holds ?B ?v"
        using sub(3,5) slots keep_holds [OF holds_staging [OF Cons.prems(8)]] by (simp_all add: keep_staging unused_def)
      have keys: "map fst ?B = [0..<Suc k]" "set (slot # used) = set (slots_of ?B)" "\<forall>i \<in> fst ` set (new @ [(k, t)]). i < Suc k"
        using Cons.prems(2,6,9) sub(2) slot(1) by (auto simp: slots_of_def)
      obtain E v' s' where IH: "prefetch_loop direct works keep limit slots (slot # used) ?B (new @ [(k, t)]) ?v
            = (Inr ((new @ [(k, t)]) @ E), v')"
          "map fst (?B @ E) = [0..<Suc k + length E]" "Suc k + length E \<le> limit"
          "Suc k + length E = limit \<or> set slots \<subseteq> set (slots_of (?B @ E))"
          "queued n cuda pin (vf_staging v') worksA A works (?B @ E) s'" "holds (?B @ E) v'" "continues {} s1 s'"
        using Cons.IH [OF state(1) keys(1) Suc_leI [OF True] Cons.prems(4,5) keys(2) state(2,3) keys(3)] by blast
      have "slot \<in> set (slots_of (?B @ E))" using sub(2) slot(1) by (simp add: slots_of_def)
      then show ?thesis
        using run IH continues_trans [OF sub(4) IH(7)]
        by (intro exI [of _ "(k, t) # E"] exI [of _ v'] exI [of _ s']) auto
    qed
  qed
qed

end

section \<open>The ring over one layer\<close>

lemma py_bind_Inr: "m s = (Inr x, s') \<Longrightarrow> py_bind m k s = k x s'"
  by (simp add: py_basic)

lemma consume_queued:
  assumes q: "queued n cuda pin p worksA ((i, t) # A) works B s"
  shows "\<exists>s'. queued n cuda pin (consume t p) worksA A works B s'
    \<and> launched worksA i (length (sp_trace (wait_ready t p)), t) s' \<and> continues {t} s s'
    \<and> sp_num_buffers (consume t p) = sp_num_buffers p \<and> tf_slot t < sp_num_buffers p
    \<and> tf_slot t \<notin> tf_slot ` snd ` set A \<and> tf_slot t \<notin> tf_slot ` snd ` set B"
proof -
  have b: "backed n cuda pin p (map snd ((i, t) # A) @ map snd B) s" using q by (simp add: queued_def)
  obtain direct where live: "(work_request direct (worksA ! i), t) \<in> sr_live s" and cnt: "fills_work (worksA ! i) t"
    using q by (auto simp: queued_def pending_def)
  have slot: "tf_slot t < sp_num_buffers p" "tf_slot t \<notin> tf_slot ` snd ` set A" "tf_slot t \<notin> tf_slot ` snd ` set B"
    using b by (auto simp: backed_def image_image)
  then have "t \<notin> snd ` set A" "t \<notin> snd ` set B" by auto
  then have rest: "removeAll t (map snd ((i, t) # A) @ map snd B) = map snd A @ map snd B"
    by (simp add: removeAll_id)
  obtain s' where s': "backed n cuda pin (consume t p) (map snd A @ map snd B) s'"
      "(length (sp_trace (wait_ready t p)), work_request direct (worksA ! i), t) \<in> sr_reads s'" "continues {t} s s'"
      "sp_num_buffers (consume t p) = sp_num_buffers p"
    using run_launch [OF b live] unfolding rest by blast
  have other: "\<forall>(j, u) \<in> set A. u \<notin> {t}" "\<forall>(j, u) \<in> set B. u \<notin> {t}"
    using \<open>t \<notin> snd ` set A\<close> \<open>t \<notin> snd ` set B\<close> by force+
  have "pending worksA A s" "pending works B s" using q by (simp_all add: queued_def pending_def)
  then have "pending worksA A s'" "pending works B s'"
    using pending_continues [OF _ s'(3) other(1)] pending_continues [OF _ s'(3) other(2)] by blast+
  then have "queued n cuda pin (consume t p) worksA A works B s'" using s'(1) by (simp add: queued_def)
  moreover have "launched worksA i (length (sp_trace (wait_ready t p)), t) s'" using s'(2) cnt by (auto simp: launched_def)
  ultimately show ?thesis using s'(3,4) slot by blast
qed

definition ring_state ::
    "'k work list \<Rightarrow> ((nat, transfer) dict \<Rightarrow> 'k stream_verifier \<Rightarrow> bool) \<Rightarrow> int \<Rightarrow> bool \<Rightarrow> bool \<Rightarrow> nat \<Rightarrow> 'k work list \<Rightarrow> (nat, transfer) dict \<Rightarrow> (nat, transfer) dict
      \<Rightarrow> 'k stream_verifier \<Rightarrow> 'k staging_run \<Rightarrow> bool" where
  "ring_state works holds n cuda pin m worksA A B v s \<longleftrightarrow>
     queued n cuda pin (vf_staging v) worksA A works B s \<and> holds B v \<and> map fst B = [0..<length B]
   \<and> sp_num_buffers (vf_staging v) = m \<and> length B \<le> min m (length works)"

text \<open>
  What a layer needs of the prefetch of the next one: it may be called with slots that hold no
  transfer of the running layer, it adds transfers in the order of the next queue, and it stops
  only when the first windows are all there or the slots it was given are taken.
\<close>

locale layer_ring =
  fixes prefetch_next :: "int list option \<Rightarrow> ('k stream_verifier, unit) py"
    and holds :: "(nat, transfer) dict \<Rightarrow> 'k stream_verifier \<Rightarrow> bool"
    and works :: "'k work list"
  assumes holds_run: "holds B v \<Longrightarrow> holds B (v\<lparr>vf_staging := p\<rparr>)"
    and prefetch_next: "queued n cuda pin (vf_staging v) worksA A works B s \<Longrightarrow> holds B v
      \<Longrightarrow> map fst B = [0..<length B] \<Longrightarrow> length B \<le> min (sp_num_buffers (vf_staging v)) (length works)
      \<Longrightarrow> unused A (vf_staging v) (all_slots av v) \<Longrightarrow>
      \<exists>B' v' s'. prefetch_next av v = (Inr (), v') \<and> map fst B' = [0..<length B']
        \<and> length B' \<le> min (sp_num_buffers (vf_staging v)) (length works)
        \<and> (length B' = min (sp_num_buffers (vf_staging v)) (length works) \<or> set (all_slots av v) \<subseteq> set (slots_of B'))
        \<and> queued n cuda pin (vf_staging v') worksA A works B' s' \<and> holds B' v' \<and> continues {} s s'"
begin

lemma ring_prefetch:
  assumes "ring_state works holds n cuda pin m worksA A B v s" "unused A (vf_staging v) (all_slots av v)"
  shows "\<exists>B' v' s'. prefetch_next av v = (Inr (), v') \<and> ring_state works holds n cuda pin m worksA A B' v' s' \<and> continues {} s s'
    \<and> (length B' = min m (length works) \<or> set (all_slots av v) \<subseteq> set (slots_of B'))"
proof -
  have st: "queued n cuda pin (vf_staging v) worksA A works B s" "holds B v" "map fst B = [0..<length B]"
      "length B \<le> min (sp_num_buffers (vf_staging v)) (length works)" and m: "sp_num_buffers (vf_staging v) = m"
    using assms(1) by (simp_all add: ring_state_def)
  obtain B' v' s' where p: "prefetch_next av v = (Inr (), v')" "map fst B' = [0..<length B']" "length B' \<le> min m (length works)"
      "length B' = min m (length works) \<or> set (all_slots av v) \<subseteq> set (slots_of B')"
      "queued n cuda pin (vf_staging v') worksA A works B' s'" "holds B' v'" "continues {} s s'"
    using prefetch_next [OF st assms(2)] m by auto
  have "sp_num_buffers (vf_staging v') = m"
    using p(5,7) st(1) m by (simp add: queued_def backed_def continues_def)
  then show ?thesis using p unfolding ring_state_def by blast
qed

lemma ring_loop_ok:
  assumes "ring_state works holds n cuda pin m worksA A B v s" "map fst A = [i..<min (length worksA) (i + m)]" "0 < m"
    "\<forall>w \<in> set worksA. work_ok w" "i \<le> length worksA"
  shows "\<exists>ks B' v' s'. ring_loop m worksA prefetch_next on [i..<length worksA] A v = (Inr ks, v')
    \<and> length ks = length worksA - i \<and> (\<forall>j < length ks. launched worksA (i + j) (ks ! j) s')
    \<and> ring_state works holds n cuda pin m worksA [] B' v' s' \<and> continues UNIV s s' \<and> (\<not> on \<longrightarrow> B' = B)"
  using assms
proof (induction "length worksA - i" arbitrary: i A B v s)
  case 0
  then have "[i..<length worksA] = []" "A = []" by simp_all
  then show ?case using 0 by (intro exI [of _ "[]"] exI [of _ B] exI [of _ v] exI [of _ s]) (auto simp: py_basic continues_def)
next
  case (Suc x)
  let ?M = "length worksA"
  have i: "i < ?M" "i < min ?M (i + m)" using Suc.hyps(2) Suc.prems(3) by simp_all
  then have keys: "map fst A = i # [Suc i..<min ?M (i + m)]" using Suc.prems(2) by (simp add: upt_rec)
  then obtain t A' where A: "A = (i, t) # A'" "map fst A' = [Suc i..<min ?M (i + m)]" by (cases A) auto
  have st: "queued n cuda pin (vf_staging v) worksA ((i, t) # A') works B s" "holds B v" "map fst B = [0..<length B]"
      "sp_num_buffers (vf_staging v) = m" "length B \<le> min m (length works)"
    using Suc.prems(1) unfolding A(1) by (simp_all add: ring_state_def)
  obtain s1 where s1: "queued n cuda pin (consume t (vf_staging v)) worksA A' works B s1"
      "launched worksA i (length (sp_trace (wait_ready t (vf_staging v))), t) s1" "continues {t} s s1"
      "sp_num_buffers (consume t (vf_staging v)) = m" "tf_slot t < m"
      "tf_slot t \<notin> tf_slot ` snd ` set A'" "tf_slot t \<notin> tf_slot ` snd ` set B"
    using consume_queued [OF st(1)] st(4) by auto
  let ?k = "(length (sp_trace (wait_ready t (vf_staging v))), t)" and ?v1 = "v\<lparr>vf_staging := consume t (vf_staging v)\<rparr>"
  have st1: "ring_state works holds n cuda pin m worksA A' B ?v1 s1"
    using s1(1,4) st(3,5) holds_run [OF st(2)] by (simp add: ring_state_def)
  have "i \<notin> fst ` set A'" using arg_cong [OF A(2), of set] by auto
  then have del: "ddel i A = A'" by (simp add: A(1) ddel_notin)
  let ?refill = "refill m worksA prefetch_next on i t (ddel i A)"
  have "\<exists>A2 B2 v2 s2. ?refill ?v1 = (Inr A2, v2) \<and> ring_state works holds n cuda pin m worksA A2 B2 v2 s2
      \<and> map fst A2 = [Suc i..<min ?M (Suc i + m)] \<and> continues {} s1 s2 \<and> (\<not> on \<longrightarrow> B2 = B)"
  proof (cases "i + m < ?M")
    case True
    obtain t' p' s2 where sub: "submit_work False (worksA ! (i + m)) (int (tf_slot t)) (consume t (vf_staging v)) = (Inr t', p')"
        "queued n cuda pin p' worksA (A' @ [(i + m, t')]) works B s2" "continues {} s1 s2" "sp_num_buffers p' = m"
      using queued_submit_layer [OF s1(1) True _ _ s1(6,7), of False] Suc.prems(4) True s1(4,5) by auto
    have "i + m \<notin> fst ` set A'" using arg_cong [OF A(2), of set] by auto
    then have "?refill ?v1 = (Inr (A' @ [(i + m, t')]), v\<lparr>vf_staging := p'\<rparr>)"
      using True sub(1) del by (simp add: refill_def on_staging_def py_basic dset_new)
    moreover have "ring_state works holds n cuda pin m worksA (A' @ [(i + m, t')]) B (v\<lparr>vf_staging := p'\<rparr>) s2"
      using sub(2,4) st(3,5) holds_run [OF st(2)] by (simp add: ring_state_def)
    moreover have "map fst (A' @ [(i + m, t')]) = [Suc i..<min ?M (Suc i + m)]" using A(2) True Suc.prems(3) by simp
    ultimately show ?thesis using sub(3) by blast
  next
    case False
    then have A': "map fst A' = [Suc i..<min ?M (Suc i + m)]" using A(2) by simp
    show ?thesis
    proof (cases on)
      case True
      have "unused A' (vf_staging ?v1) (all_slots (Some [int (tf_slot t)]) ?v1)"
        using s1(4,5,6) by (simp add: unused_def all_slots_def)
      from ring_prefetch [OF st1 this] obtain B2 v2 s2 where
          p: "prefetch_next (Some [int (tf_slot t)]) ?v1 = (Inr (), v2)" "ring_state works holds n cuda pin m worksA A' B2 v2 s2" "continues {} s1 s2"
        by blast
      have "?refill ?v1 = (Inr A', v2)" using False True p(1) del by (simp add: refill_def py_basic)
      then show ?thesis using p(2,3) A' True by blast
    next
      case False: False
      have "?refill ?v1 = (Inr A', ?v1)" using False \<open>\<not> i + m < ?M\<close> del by (simp add: refill_def py_basic)
      then show ?thesis using st1 A' by (auto simp: continues_def)
    qed
  qed
  then obtain A2 B2 v2 s2 where r: "?refill ?v1 = (Inr A2, v2)" "ring_state works holds n cuda pin m worksA A2 B2 v2 s2"
      "map fst A2 = [Suc i..<min ?M (Suc i + m)]" "continues {} s1 s2" "\<not> on \<longrightarrow> B2 = B"
    by blast
  have x: "x = ?M - Suc i" using Suc.hyps(2) by simp
  obtain ks B' v' s' where IH: "ring_loop m worksA prefetch_next on [Suc i..<?M] A2 v2 = (Inr ks, v')"
      "length ks = ?M - Suc i" "\<forall>j < length ks. launched worksA (Suc i + j) (ks ! j) s'"
      "ring_state works holds n cuda pin m worksA [] B' v' s'" "continues UNIV s2 s'" "\<not> on \<longrightarrow> B' = B2"
    using Suc.hyps(1) [OF x r(2,3) Suc.prems(3,4)] i(1) by (meson Suc_leI)
  have get: "dget A i = Some t" and go: "launch_window t v = (Inr ?k, ?v1)" by (simp_all add: A(1) launch_window_def)
  have "ring_loop m worksA prefetch_next on [i..<?M] A v = (Inr (?k # ks), v')"
    unfolding upt_conv_Cons [OF i(1)] ring_loop.simps get option.case py_bind_Inr [of "launch_window t" v, OF go]
      py_bind_Inr [of ?refill ?v1, OF r(1)] py_bind_Inr [of "ring_loop m worksA prefetch_next on [Suc i..<?M] A2" v2, OF IH(1)]
    by (simp add: py_basic)
  moreover have "continues UNIV s1 s'" using continues_trans [OF r(4) IH(5)] by simp
  then have "launched worksA i ?k s'" "continues UNIV s s'"
    using launched_continues [OF s1(2)] continues_trans [OF s1(3)] by fastforce+
  moreover have "launched worksA (i + j) ((?k # ks) ! j) s'" if "j < length (?k # ks)" for j
    using that IH(3) \<open>launched worksA i ?k s'\<close> by (cases j) auto
  ultimately show ?case
    using IH(2,4,6) r(5) i(1) by (intro exI [of _ "?k # ks"] exI [of _ B'] exI [of _ v'] exI [of _ s']) auto
qed

lemma ring_fill_ok:
  assumes "ring_state works holds n cuda pin m worksA A [] v s" "map fst A = [0..<a]" "\<forall>(j, t) \<in> set A. tf_slot t = j"
    "a \<le> b" "b \<le> m" "b \<le> length worksA" "\<forall>w \<in> set worksA. work_ok w"
  shows "\<exists>A' v' s'. ring_fill worksA [a..<b] A v = (Inr A', v') \<and> map fst A' = [0..<b]
    \<and> ring_state works holds n cuda pin m worksA A' [] v' s' \<and> continues {} s s'"
  using assms
proof (induction "b - a" arbitrary: a A v s)
  case 0
  then show ?case by (intro exI [of _ A] exI [of _ v] exI [of _ s]) (auto simp: py_basic continues_def)
next
  case (Suc x)
  have a: "a < b" using Suc.hyps(2) by simp
  have none: "a \<notin> fst ` set A" using arg_cong [OF Suc.prems(2), of set] by auto
  have st: "queued n cuda pin (vf_staging v) worksA A works [] s" "holds [] v" "sp_num_buffers (vf_staging v) = m"
    using Suc.prems(1) by (simp_all add: ring_state_def)
  have slot: "a \<notin> tf_slot ` snd ` set A" using none Suc.prems(3) by force
  obtain t p' s1 where sub: "submit_work False (worksA ! a) (int a) (vf_staging v) = (Inr t, p')" "tf_slot t = a"
      "queued n cuda pin p' worksA (A @ [(a, t)]) works [] s1" "continues {} s s1" "sp_num_buffers p' = m"
    using queued_submit_layer [OF st(1) _ _ _ slot, of a False] Suc.prems(5-7) a st(3) by auto
  let ?v1 = "v\<lparr>vf_staging := p'\<rparr>" and ?A1 = "A @ [(a, t)]"
  have st1: "ring_state works holds n cuda pin m worksA ?A1 [] ?v1 s1"
    using sub(3,5) holds_run [OF st(2)] by (simp add: ring_state_def)
  have keys: "map fst ?A1 = [0..<Suc a]" "\<forall>(j, t) \<in> set ?A1. tf_slot t = j" using Suc.prems(2,3) sub(2) by auto
  have x: "x = b - Suc a" using Suc.hyps(2) by simp
  obtain A' v' s' where IH: "ring_fill worksA [Suc a..<b] ?A1 ?v1 = (Inr A', v')" "map fst A' = [0..<b]"
      "ring_state works holds n cuda pin m worksA A' [] v' s'" "continues {} s1 s'"
    using Suc.hyps(1) [OF x st1 keys Suc_leI [OF a] Suc.prems(5-7)] by blast
  have "ring_fill worksA [a..<b] A v = (Inr A', v')"
    using none sub(1) IH(1) by (simp add: upt_conv_Cons [OF a] on_staging_def py_basic dset_new map_of_eq_None_iff)
  then show ?case using IH(2,3) continues_trans [OF sub(4) IH(4)] by auto
qed

lemma ring_fill_full: "map fst A = [0..<b] \<Longrightarrow> set is \<subseteq> {..<b} \<Longrightarrow> ring_fill worksA is A v = (Inr A, v)"
proof (induction "is")
  case (Cons i "is")
  have "i \<in> fst ` set A" using arg_cong [OF Cons.prems(1), of set] Cons.prems(2) by auto
  then show ?case using Cons by (simp add: map_of_eq_None_iff)
qed (simp add: py_basic)

text \<open>
  One layer: every window is used once, in order, and with prefetching the first windows of the
  next layer are pending at its end.
\<close>

lemma ring_layer_ok:
  assumes st: "ring_state works holds n cuda pin m worksA A [] v s" and m: "0 < m" and ok: "\<forall>w \<in> set worksA. work_ok w"
    and A: "A = [] \<or> map fst A = [0..<min m (length worksA)]"
  shows "\<exists>ks B v' s'.
    py_bind (ring_fill worksA [0..<min m (length worksA)] A) (\<lambda>transfers.
      py_bind (ring_loop m worksA prefetch_next on [0..<length worksA] transfers) (\<lambda>kernels.
      py_bind (if on then prefetch_next None else py_return ()) (\<lambda>_. py_return kernels))) v = (Inr ks, v')
    \<and> length ks = length worksA \<and> (\<forall>j < length ks. launched worksA j (ks ! j) s')
    \<and> ring_state works holds n cuda pin m worksA [] B v' s' \<and> continues UNIV s s'
    \<and> (if on then length B = min m (length works) else B = [])"
proof -
  let ?b = "min m (length worksA)"
  have "\<exists>A1 v1 s1. ring_fill worksA [0..<?b] A v = (Inr A1, v1) \<and> map fst A1 = [0..<?b]
      \<and> ring_state works holds n cuda pin m worksA A1 [] v1 s1 \<and> continues {} s s1"
    using A
  proof
    assume "A = []"
    then show ?thesis using ring_fill_ok [of n cuda pin m worksA A v s 0 ?b] st ok by auto
  next
    assume full: "map fst A = [0..<?b]"
    then have "ring_fill worksA [0..<?b] A v = (Inr A, v)" by (rule ring_fill_full) auto
    then show ?thesis using full st by (auto simp: continues_def)
  qed
  then obtain A1 v1 s1 where f: "ring_fill worksA [0..<?b] A v = (Inr A1, v1)" "map fst A1 = [0..<?b]"
      "ring_state works holds n cuda pin m worksA A1 [] v1 s1" "continues {} s s1"
    by blast
  have keys: "map fst A1 = [0..<min (length worksA) (0 + m)]" using f(2) by (simp add: min.commute)
  obtain ks B2 v2 s2 where l: "ring_loop m worksA prefetch_next on [0..<length worksA] A1 v1 = (Inr ks, v2)"
      "length ks = length worksA" "\<forall>j < length ks. launched worksA j (ks ! j) s2"
      "ring_state works holds n cuda pin m worksA [] B2 v2 s2" "continues UNIV s1 s2" "\<not> on \<longrightarrow> B2 = []"
    using ring_loop_ok [OF f(3) keys m ok le0, of on, unfolded add_0 diff_zero] by blast
  have c: "continues UNIV s s2" using continues_trans [OF f(4) l(5)] by simp
  have "\<exists>B3 v3 s3. (if on then prefetch_next None else py_return ()) v2 = (Inr (), v3)
      \<and> ring_state works holds n cuda pin m worksA [] B3 v3 s3 \<and> continues {} s2 s3
      \<and> (if on then length B3 = min m (length works) else B3 = [])"
  proof (cases on)
    case True
    have num: "sp_num_buffers (vf_staging v2) = m" using l(4) by (simp add: ring_state_def)
    have "unused [] (vf_staging v2) (all_slots None v2)" by (auto simp: unused_def all_slots_def)
    from ring_prefetch [OF l(4) this] obtain B3 v3 s3 where p: "prefetch_next None v2 = (Inr (), v3)"
        "ring_state works holds n cuda pin m worksA [] B3 v3 s3" "continues {} s2 s3"
        "length B3 = min m (length works) \<or> set (all_slots None v2) \<subseteq> set (slots_of B3)"
      by blast
    have "length B3 = min m (length works)"
      using p(4)
    proof
      assume sub: "set (all_slots None v2) \<subseteq> set (slots_of B3)"
      have "m = card (set (all_slots None v2))" by (simp add: all_slots_def num card_image)
      also have "\<dots> \<le> length (slots_of B3)" using card_mono [OF _ sub] card_length [of "slots_of B3"] by simp
      finally show ?thesis using p(2) by (simp add: slots_of_def ring_state_def)
    qed
    then show ?thesis using True p by auto
  next
    case False
    then show ?thesis using l(4,6) by (auto simp: py_basic continues_def)
  qed
  then obtain B3 v3 s3 where p: "(if on then prefetch_next None else py_return ()) v2 = (Inr (), v3)"
      "ring_state works holds n cuda pin m worksA [] B3 v3 s3" "continues {} s2 s3"
      "if on then length B3 = min m (length works) else B3 = []"
    by blast
  have "continues UNIV s s3" using continues_trans [OF c p(3)] by simp
  moreover have "\<forall>j < length ks. launched worksA j (ks ! j) s3" using l(3) launched_continues [OF _ p(3)] by blast
  moreover have "py_bind (ring_fill worksA [0..<?b] A) (\<lambda>transfers.
      py_bind (ring_loop m worksA prefetch_next on [0..<length worksA] transfers) (\<lambda>kernels.
      py_bind (if on then prefetch_next None else py_return ()) (\<lambda>_. py_return kernels))) v = (Inr ks, v3)"
    unfolding py_bind_Inr [of "ring_fill worksA [0..<?b] A" v, OF f(1)]
      py_bind_Inr [of "ring_loop m worksA prefetch_next on [0..<length worksA] A1" v1, OF l(1)]
      py_bind_Inr [of "if on then prefetch_next None else py_return ()" v2, OF p(1)]
    by (simp add: py_basic)
  ultimately show ?thesis using l(2) p(2,4) by blast
qed

end

section \<open>All layers\<close>

definition kernels_ok :: "'k work list \<Rightarrow> (nat \<times> transfer) list \<Rightarrow> 'k staging_run \<Rightarrow> bool" where
  "kernels_ok works ks s \<longleftrightarrow> length ks = length works \<and> (\<forall>j < length ks. launched works j (ks ! j) s)"

lemma kernels_ok_continues: "kernels_ok works ks s \<Longrightarrow> continues gone s s' \<Longrightarrow> kernels_ok works ks s'"
  using launched_continues unfolding kernels_ok_def by blast

text \<open>
  What a round needs of a layer: from the state in which it may start it uses its windows and leaves
  the state in which the next layer may start.
\<close>

locale layer_pipeline =
  fixes n :: int and cuda pin :: bool and ids :: "int list"
    and stream :: "int \<Rightarrow> ('k stream_verifier, 'r) py"
    and entry :: "int \<Rightarrow> 'k stream_verifier \<Rightarrow> 'k staging_run \<Rightarrow> bool"
    and finished :: "int \<Rightarrow> 'r \<Rightarrow> 'k staging_run \<Rightarrow> bool"
  assumes finished_later: "finished layer r s \<Longrightarrow> continues gone s s' \<Longrightarrow> finished layer r s'"
    and stream_layer: "entry (ids ! i) v s \<Longrightarrow> i < length ids \<Longrightarrow>
    \<exists>ks v' s'. stream (ids ! i) v = (Inr ks, v') \<and> finished (ids ! i) ks s'
      \<and> reaches (staging_init n cuda pin) staging_step s' \<and> sr_pool s' = vf_staging v' \<and> continues UNIV s s'
      \<and> (Suc i < length ids \<longrightarrow> entry (ids ! Suc i) v' s')"
begin

lemma over_layers_ok:
  assumes "entry (ids ! i) v s" "i < length ids"
  shows "\<exists>kss v' s'. over_layers stream (drop i ids) v = (Inr kss, v') \<and> length kss = length ids - i
    \<and> (\<forall>off < length kss. finished (ids ! (i + off)) (kss ! off) s')
    \<and> reaches (staging_init n cuda pin) staging_step s' \<and> sr_pool s' = vf_staging v' \<and> continues UNIV s s'"
  using assms
proof (induction "length ids - i" arbitrary: i v s)
  case 0
  then show ?case by simp
next
  case (Suc x)
  obtain ks v1 s1 where k: "stream (ids ! i) v = (Inr ks, v1)" "finished (ids ! i) ks s1"
      "reaches (staging_init n cuda pin) staging_step s1" "sr_pool s1 = vf_staging v1" "continues UNIV s s1"
      "Suc i < length ids \<longrightarrow> entry (ids ! Suc i) v1 s1"
    using stream_layer [OF Suc.prems] by blast
  have drop: "drop i ids = ids ! i # drop (Suc i) ids" using Suc.prems(2) by (simp add: Cons_nth_drop_Suc)
  show ?case
  proof (cases "Suc i < length ids")
    case False
    then have "over_layers stream (drop i ids) v = (Inr [ks], v1)" "length ids - i = 1"
      using k(1) Suc.prems(2) by (simp_all add: drop py_basic)
    then show ?thesis
      using k(2-5) by (intro exI [of _ "[ks]"] exI [of _ v1] exI [of _ s1]) simp
  next
    case True
    have x: "x = length ids - Suc i" using Suc.hyps(2) by simp
    obtain kss v' s' where IH: "over_layers stream (drop (Suc i) ids) v1 = (Inr kss, v')" "length kss = length ids - Suc i"
        "\<forall>off < length kss. finished (ids ! (Suc i + off)) (kss ! off) s'"
        "reaches (staging_init n cuda pin) staging_step s'" "sr_pool s' = vf_staging v'" "continues UNIV s1 s'"
      using Suc.hyps(1) [OF x k(6) [rule_format, OF True] True] by blast
    have "over_layers stream (drop i ids) v = (Inr (ks # kss), v')" using k(1) IH(1) by (simp add: drop py_basic)
    moreover have "finished (ids ! (i + off)) ((ks # kss) ! off) s'" if "off < length (ks # kss)" for off
      using that IH(3) finished_later [OF k(2) IH(6)] by (cases off) auto
    moreover have "continues UNIV s s'" using continues_trans [OF k(5) IH(6)] by simp
    ultimately show ?thesis
      using IH(2,4,5) True by (intro exI [of _ "ks # kss"] exI [of _ v'] exI [of _ s']) auto
  qed
qed

end

end
