(* ===== verification/LayerHistory.thy ===== *)
theory LayerHistory
  imports LayerStream
begin

text \<open>
  Streaming reads the history: the layer streams of \<open>LayerStream\<close> on the chunks of the CPU history
  store.  Both caches of prefetched transfers, the one for a single request and the one for a
  batch, satisfy the contract of the ring, so a round over all layers launches kernels that find
  the sealed keys and values of every layer, in order.
\<close>

section \<open>Reading the history store\<close>

text \<open>Reading clears ready events and nothing else.\<close>

definition strip :: "'k packed_slab option \<Rightarrow> 'k packed_slab option" where
  "strip sl = map_option (\<lambda>sl. sl\<lparr>sl_ready_event := None\<rparr>) sl"

definition steady :: "'k history_store \<Rightarrow> 'k history_store \<Rightarrow> bool" where
  "steady st st' \<longleftrightarrow>
     hs_layer_ids st' = hs_layer_ids st \<and> hs_request_slabs st' = hs_request_slabs st
   \<and> hs_kv_heads st' = hs_kv_heads st \<and> hs_head_dim st' = hs_head_dim st \<and> hs_element_size st' = hs_element_size st
   \<and> (\<forall>k. strip (dget (hs_slabs st') k) = strip (dget (hs_slabs st) k))"

lemma steady_refl [simp]: "steady st st"
  by (simp add: steady_def)

lemma steady_trans: "steady a b \<Longrightarrow> steady b c \<Longrightarrow> steady a c"
  by (simp add: steady_def)

lemma steady_set_ready: "steady st (set_ready ev st k)"
  by (auto simp: steady_def set_ready_def strip_def split: option.splits)

lemma strip_Some:
  assumes "strip (Some a) = strip (Some b)"
  shows "sl_abs_start a = sl_abs_start b" "sl_used_tokens a = sl_used_tokens b" "sl_tensor a = sl_tensor b" "sl_pinned a = sl_pinned b"
proof -
  have e: "a\<lparr>sl_ready_event := None\<rparr> = b\<lparr>sl_ready_event := None\<rparr>" using assms by (simp add: strip_def)
  show "sl_abs_start a = sl_abs_start b" "sl_used_tokens a = sl_used_tokens b" "sl_tensor a = sl_tensor b" "sl_pinned a = sl_pinned b"
    using arg_cong [OF e, of sl_abs_start] arg_cong [OF e, of sl_used_tokens] arg_cong [OF e, of sl_tensor]
      arg_cong [OF e, of sl_pinned] by simp_all
qed

lemma iter_loop_steady: "iter_loop rid off hend ks e st = (r, st') \<Longrightarrow> steady st st'"
proof (induction ks arbitrary: e st r)
  case (Cons k ks)
  show ?case
  proof (cases "dget (hs_slabs st) k")
    case (Some sl)
    define st1 where "st1 = (if sl_ready_event sl \<noteq> None then set_ready None st k else st)"
    have st1: "steady st st1" by (simp add: st1_def steady_set_ready)
    consider "st' = st1" | r2 where "iter_loop rid off hend ks (sl_abs_start sl + sl_used_tokens sl) st1 = (r2, st')"
      using Cons.prems unfolding iter_loop.simps Some option.case Let_def st1_def [symmetric]
      by (auto split: if_splits prod.splits)
    then show ?thesis using st1 Cons.IH steady_trans by cases blast+
  qed (use Cons.prems in simp)
qed simp

lemma iter_loop_cong: "steady st st2 \<Longrightarrow> fst (iter_loop rid off hend ks e st2) = fst (iter_loop rid off hend ks e st)"
proof (induction ks arbitrary: e st st2)
  case (Cons k ks)
  have eq: "strip (dget (hs_slabs st2) k) = strip (dget (hs_slabs st) k)" using Cons.prems by (simp add: steady_def)
  show ?case
  proof (cases "dget (hs_slabs st) k")
    case None
    then have "dget (hs_slabs st2) k = None" using eq by (simp add: strip_def)
    then show ?thesis using None by simp
  next
    case (Some sl)
    then obtain sl2 where sl2: "dget (hs_slabs st2) k = Some sl2" using eq by (auto simp: strip_def)
    note same = strip_Some [of sl2 sl, OF eq [unfolded Some sl2]]
    define a where "a = (if sl_ready_event sl \<noteq> None then set_ready None st k else st)"
    define b where "b = (if sl_ready_event sl2 \<noteq> None then set_ready None st2 k else st2)"
    have "steady st a" "steady st2 b" by (simp_all add: a_def b_def steady_set_ready)
    then have "steady a b" using Cons.prems by (simp add: steady_def)
    then have IH: "fst (iter_loop rid off hend ks e' b) = fst (iter_loop rid off hend ks e' a)" for e' by (rule Cons.IH)
    show ?thesis
      unfolding iter_loop.simps Some sl2 option.case Let_def a_def [symmetric] b_def [symmetric] same
      using IH [of "sl_abs_start sl + sl_used_tokens sl"] by (auto split: prod.split)
  qed
qed simp

lemma iter_chunks_cong:
  assumes "steady st st2"
  shows "fst (iter_layer_chunks rid layer hend st2) = fst (iter_layer_chunks rid layer hend st)"
  using assms iter_loop_cong [OF assms] by (auto simp: iter_layer_chunks_def steady_def split: option.split)

lemma iter_loop_chunks:
  assumes "slabs_ok st" "off < length (hs_layer_ids st)" "iter_loop rid off hend ks e st = (Inr cs, st')" "c \<in> set cs"
  shows "lc_length c = int (length (lc_tensor c)) \<and> 0 < lc_length c"
  using assms
proof (induction ks arbitrary: e st cs)
  case (Cons k ks)
  obtain sl where sl: "dget (hs_slabs st) k = Some sl" using Cons.prems(3) by (auto split: option.splits)
  define st1 where "st1 = (if sl_ready_event sl \<noteq> None then set_ready None st k else st)"
  have st1: "slabs_ok st1" "off < length (hs_layer_ids st1)"
    using Cons.prems(1,2) by (simp_all add: st1_def set_ready_ok)
  define len where "len = (case hend of None \<Rightarrow> sl_used_tokens sl
    | Some h \<Rightarrow> min (sl_used_tokens sl) (max 0 (h - sl_abs_start sl)))"
  have t: "int (length (sl_tensor sl ! off)) = sl_used_tokens sl"
    using slabs_ok_get [OF Cons.prems(1) sl] Cons.prems(2) by (auto simp: slab_ok_def)
  have len: "len \<le> int (length (sl_tensor sl ! off))" using t by (simp add: len_def split: option.split)
  define c0 where "c0 = \<lparr>lc_slab_id = k, lc_abs_start = sl_abs_start sl, lc_length = len,
    lc_tensor = take (nat len) (sl_tensor sl ! off), lc_pinned = sl_pinned sl\<rparr>"
  have c0: "lc_length c0 = int (length (lc_tensor c0)) \<and> 0 < lc_length c0" if "\<not> len \<le> 0"
    using that len by (auto simp: c0_def min_def)
  have "\<not> len \<le> 0 \<and> (c = c0 \<or> (\<exists>cs1 e'. c \<in> set cs1 \<and> iter_loop rid off hend ks e' st1 = (Inr cs1, st')))"
    using Cons.prems(3,4) unfolding iter_loop.simps sl option.case Let_def st1_def [symmetric] len_def [symmetric] c0_def [symmetric]
    by (auto split: if_splits prod.splits sum.splits simp: rbind_def)
  then show ?case using c0 Cons.IH [OF st1] by blast
qed simp


text \<open>The store has the history of a request in every layer.\<close>

definition history_ready :: "stream_item \<Rightarrow> 'k history_store \<Rightarrow> bool" where
  "history_ready item st \<longleftrightarrow>
     distinct (hs_layer_ids st) \<and> 0 \<le> si_history_len item
   \<and> (\<forall>off < length (hs_layer_ids st). log_ok off st \<and> si_history_len item \<le> int (length (contents off st (si_rid item))))"

text \<open>A store after reads.\<close>

definition reread :: "'k history_store \<Rightarrow> 'k history_store \<Rightarrow> bool" where
  "reread st st' \<longleftrightarrow> steady st st' \<and> (\<forall>item. history_ready item st \<longrightarrow> history_ready item st')"

lemma reread_refl [simp]: "reread st st"
  by (simp add: reread_def)

lemma reread_trans: "reread a b \<Longrightarrow> reread b c \<Longrightarrow> reread a c"
  by (auto simp: reread_def intro: steady_trans)

lemma rereadD:
  assumes "reread st st'"
  shows "steady st st'" "hs_layer_ids st' = hs_layer_ids st" "history_ready item st \<Longrightarrow> history_ready item st'"
  using assms by (simp_all add: reread_def steady_def)

definition chunks_of :: "stream_item \<Rightarrow> int \<Rightarrow> 'k history_store \<Rightarrow> 'k layer_chunk list" where
  "chunks_of item layer st = projr (fst (iter_layer_chunks (si_rid item) layer (Some (si_history_len item)) st))"

definition works_of :: "nat \<Rightarrow> stream_item \<Rightarrow> int \<Rightarrow> 'k history_store \<Rightarrow> 'k work list" where
  "works_of sz item layer st = map (\<lambda>g. ChunkWork (map (chunk_tensor st) g)) (windows sz (chunks_of item layer st))"

lemma index_of_mem: "x \<in> set ls \<Longrightarrow> \<exists>i. index_of ls x = Some i"
  by (induction ls) auto

lemma index_of_nth: "distinct ls \<Longrightarrow> i < length ls \<Longrightarrow> index_of ls (ls ! i) = Some i"
proof (induction ls arbitrary: i)
  case (Cons a ls)
  then show ?case by (cases i) auto
qed simp

lemma iter_ready:
  assumes "history_ready item st" "index_of (hs_layer_ids st) layer = Some off"
  shows "\<exists>st'. iter_layer_chunks (si_rid item) layer (Some (si_history_len item)) st = (Inr (chunks_of item layer st), st')
    \<and> reread st st'
    \<and> concat (map lc_tensor (chunks_of item layer st)) = take (nat (si_history_len item)) (contents off st (si_rid item))
    \<and> (\<forall>c \<in> set (chunks_of item layer st). lc_length c = int (length (lc_tensor c)) \<and> 0 < lc_length c)"
proof -
  have off: "off < length (hs_layer_ids st)" using index_of_Some [OF assms(2)] by simp
  have ok: "log_ok off st" "store_ok st" "slabs_ok st"
    using assms(1) off by (simp_all add: history_ready_def log_ok_def store_ok_def)
  obtain cs st' where it: "iter_layer_chunks (si_rid item) layer (Some (si_history_len item)) st = (Inr cs, st')"
      "concat (map lc_tensor cs) = upto_end (Some (si_history_len item)) 0 (contents off st (si_rid item))"
    using read_contents [OF ok(1) assms(2)] by blast
  have cs: "chunks_of item layer st = cs" using it(1) by (simp add: chunks_of_def)
  have loop: "iter_loop (si_rid item) off (Some (si_history_len item)) (dget_or (hs_request_slabs st) (si_rid item) []) 0 st = (Inr cs, st')"
    using it(1) assms(2) by (simp add: iter_layer_chunks_def)
  have silent: "store_ok st'" "views st' = views st" "hs_request_slabs st' = hs_request_slabs st" "hs_layer_ids st' = hs_layer_ids st"
    using iter_silent [OF it(1) ok(2)] by simp_all
  have same: "contents o' st' = contents o' st" "log_ok o' st \<Longrightarrow> log_ok o' st'" for o'
    using silent by (simp_all add: contents_def [abs_def] log_ok_def request_block_ids_def)
  have "history_ready it st'" if "history_ready it st" for it using that same silent(4) by (simp add: history_ready_def)
  then have "reread st st'" using iter_loop_steady [OF loop] by (simp add: reread_def)
  moreover have "\<forall>c \<in> set cs. lc_length c = int (length (lc_tensor c)) \<and> 0 < lc_length c"
    using iter_loop_chunks [OF ok(3) off loop] by blast
  moreover have "concat (map lc_tensor cs) = take (nat (si_history_len item)) (contents off st (si_rid item))"
    using it(2) by (simp add: upto_end_def)
  ultimately show ?thesis using it(1) unfolding cs by blast
qed

lemma chunks_of_cong: "steady st st2 \<Longrightarrow> chunks_of item layer st2 = chunks_of item layer st"
  by (simp add: chunks_of_def iter_chunks_cong)

lemma works_of_cong: "steady st st2 \<Longrightarrow> works_of sz item layer st2 = works_of sz item layer st"
  using chunks_of_cong [of st st2 item layer] by (simp add: works_of_def chunk_tensor_def steady_def)

lemma concat_pairs_length: "length (concat (map (\<lambda>(k, v). [k, v]) xs)) = length xs * 2"
  by (induction xs) auto

lemma chunks_work_ok: "cs \<noteq> [] \<Longrightarrow> work_ok (ChunkWork (map (chunk_tensor st) cs))"
  by (cases cs) (auto simp: work_ok_def uniform_def chunk_tensor_def tensor_ok_def concat_pairs_length)

lemma works_of_ok: "w \<in> set (works_of sz item layer st) \<Longrightarrow> work_ok w"
  by (auto simp: works_of_def dest!: windows_bounded intro!: chunks_work_ok)

lemma works_of_data:
  assumes "0 < sz"
  shows "concat (map (group_data \<circ> work_tensors) (works_of sz item layer st))
    = concat (map (\<lambda>(k, v). [k, v]) (concat (map lc_tensor (chunks_of item layer st))))"
proof -
  have "concat (map (group_data \<circ> work_tensors) (map (\<lambda>g. ChunkWork (map (chunk_tensor st) g)) gs))
      = concat (map (\<lambda>(k, v). [k, v]) (concat (map lc_tensor (concat gs))))" for gs
  proof (induction gs)
    case (Cons g gs)
    have "group_data (map (chunk_tensor st) g) = concat (map (\<lambda>(k, v). [k, v]) (concat (map lc_tensor g)))"
      by (induction g) (simp_all add: group_data_def chunk_tensor_def)
    then show ?case using Cons by simp
  qed simp
  then show ?thesis using concat_windows [OF assms, of "chunks_of item layer st"] by (simp add: works_of_def)
qed


section \<open>The queue of the next layer\<close>

definition next_works :: "(int \<Rightarrow> 'k work list) \<Rightarrow> 'k history_store \<Rightarrow> int \<Rightarrow> 'k work list" where
  "next_works W st0 layer = (case next_history_layer_id (hs_layer_ids st0) layer of None \<Rightarrow> [] | Some nl \<Rightarrow> W nl)"

text \<open>
  The store is the one at the start of the layer up to reads, the next queue is prepared or not, and
  the cache has the transfers \<open>B\<close>.
\<close>

definition next_holds ::
    "bool \<Rightarrow> (int \<Rightarrow> 'k work list) \<Rightarrow> (int \<Rightarrow> task_key list) \<Rightarrow> (int \<Rightarrow> (nat, transfer) dict \<Rightarrow> 'k stream_verifier \<Rightarrow> bool)
      \<Rightarrow> 'k history_store \<Rightarrow> int \<Rightarrow> (nat, transfer) dict \<Rightarrow> 'k stream_verifier \<Rightarrow> bool" where
  "next_holds good W K cache st0 layer B v \<longleftrightarrow>
     good \<and> reread st0 (vf_store v)
   \<and> vf_next_prefetch v \<in> {None, Some (map_option (\<lambda>nl. (nl, W nl, K nl)) (next_history_layer_id (hs_layer_ids st0) layer))}
   \<and> (\<forall>nl. next_history_layer_id (hs_layer_ids st0) layer = Some nl \<longrightarrow> cache nl B v)"

lemma next_layer_mem: "next_history_layer_id ls l = Some nl \<Longrightarrow> nl \<in> set ls"
  by (auto simp: next_history_layer_id_def split: option.splits if_splits)

text \<open>
  The two prefetch closures: \<open>build\<close> makes the queue of a layer, \<open>prefetch_layer\<close> submits from it.
\<close>

locale next_layer =
  fixes good :: bool and W :: "int \<Rightarrow> 'k work list" and K :: "int \<Rightarrow> task_key list"
    and cache :: "int \<Rightarrow> (nat, transfer) dict \<Rightarrow> 'k stream_verifier \<Rightarrow> bool"
    and build :: "int \<Rightarrow> ('k stream_verifier, 'k work list \<times> task_key list) py"
    and prefetch_layer :: "int list option \<Rightarrow> (int \<times> 'k work list \<times> task_key list) option \<Rightarrow> ('k stream_verifier, unit) py"
    and st0 :: "'k history_store" and layer :: int
  assumes build: "good \<Longrightarrow> reread st0 (vf_store v) \<Longrightarrow> nl \<in> set (hs_layer_ids st0) \<Longrightarrow> 0 < sp_num_buffers (vf_staging v)
      \<Longrightarrow> \<exists>st'. build nl v = (Inr (W nl, K nl), v\<lparr>vf_store := st'\<rparr>) \<and> reread (vf_store v) st'"
    and cache_frame: "cache nl B v \<Longrightarrow> cache nl B (v\<lparr>vf_store := st, vf_next_prefetch := q\<rparr>)"
    and cache_run: "cache nl B v \<Longrightarrow> cache nl B (v\<lparr>vf_staging := p\<rparr>)"
    and prefetch_none: "prefetch_layer av None v = (Inr (), v)"
    and prefetch_some: "good \<Longrightarrow> nl \<in> set (hs_layer_ids st0) \<Longrightarrow> queued n cuda pin (vf_staging v) worksA A (W nl) B s \<Longrightarrow> map fst B = [0..<length B]
      \<Longrightarrow> length B \<le> min (sp_num_buffers (vf_staging v)) (length (W nl)) \<Longrightarrow> unused A (vf_staging v) (all_slots av v)
      \<Longrightarrow> cache nl B v \<Longrightarrow>
      \<exists>B' v' s'. prefetch_layer av (Some (nl, W nl, K nl)) v = (Inr (), v') \<and> map fst B' = [0..<length B']
        \<and> length B' \<le> min (sp_num_buffers (vf_staging v)) (length (W nl))
        \<and> (length B' = min (sp_num_buffers (vf_staging v)) (length (W nl)) \<or> set (all_slots av v) \<subseteq> set (slots_of B'))
        \<and> queued n cuda pin (vf_staging v') worksA A (W nl) B' s' \<and> cache nl B' v' \<and> continues {} s s'
        \<and> vf_store v' = vf_store v \<and> vf_next_prefetch v' = vf_next_prefetch v"
begin

lemma prepare_ok:
  assumes h: "next_holds good W K cache st0 layer B v" and m: "0 < sp_num_buffers (vf_staging v)"
  shows "\<exists>v1. prepare_next layer build v = (Inr (), v1) \<and> vf_staging v1 = vf_staging v \<and> next_holds good W K cache st0 layer B v1
    \<and> vf_next_prefetch v1 = Some (map_option (\<lambda>nl. (nl, W nl, K nl)) (next_history_layer_id (hs_layer_ids st0) layer))"
proof (cases "vf_next_prefetch v")
  case (Some x)
  then show ?thesis using h by (intro exI [of _ v]) (auto simp: prepare_next_def next_holds_def)
next
  case None
  have g: good and r: "reread st0 (vf_store v)" using h by (simp_all add: next_holds_def)
  note ids = rereadD(2) [OF r]
  show ?thesis
  proof (cases "next_history_layer_id (hs_layer_ids st0) layer")
    case None': None
    then show ?thesis using h None ids by (auto simp: prepare_next_def next_holds_def)
  next
    case (Some nl)
    obtain st' where b: "build nl v = (Inr (W nl, K nl), v\<lparr>vf_store := st'\<rparr>)" "reread (vf_store v) st'"
      using build [OF g r next_layer_mem [OF Some] m] by blast
    let ?v1 = "v\<lparr>vf_store := st', vf_next_prefetch := Some (Some (nl, W nl, K nl))\<rparr>"
    have "prepare_next layer build v = (Inr (), ?v1)" using None Some b(1) ids by (simp add: prepare_next_def py_basic)
    moreover have "next_holds good W K cache st0 layer B ?v1"
      using h Some reread_trans [OF r b(2)] cache_frame by (auto simp: next_holds_def)
    ultimately show ?thesis using Some by auto
  qed
qed

lemma queued_buffers: "queued n cuda pin p worksA A works B s \<Longrightarrow> 0 < sp_num_buffers p"
  using staging.reaches_inv [of n cuda pin s] by (auto simp: queued_def backed_def run_ok_def buffers_ok_def)

lemma prefetch_next_ok:
  assumes q: "queued n cuda pin (vf_staging v) worksA A (next_works W st0 layer) B s"
    and h: "next_holds good W K cache st0 layer B v" and keys: "map fst B = [0..<length B]"
    and len: "length B \<le> min (sp_num_buffers (vf_staging v)) (length (next_works W st0 layer))"
    and free: "unused A (vf_staging v) (all_slots av v)"
  shows "\<exists>B' v' s'. py_bind (prepare_next layer build) (\<lambda>_ v. prefetch_layer av (the (vf_next_prefetch v)) v) v = (Inr (), v')
    \<and> map fst B' = [0..<length B'] \<and> length B' \<le> min (sp_num_buffers (vf_staging v)) (length (next_works W st0 layer))
    \<and> (length B' = min (sp_num_buffers (vf_staging v)) (length (next_works W st0 layer)) \<or> set (all_slots av v) \<subseteq> set (slots_of B'))
    \<and> queued n cuda pin (vf_staging v') worksA A (next_works W st0 layer) B' s' \<and> next_holds good W K cache st0 layer B' v'
    \<and> continues {} s s'"
proof -
  obtain v1 where p: "prepare_next layer build v = (Inr (), v1)" "vf_staging v1 = vf_staging v"
      "next_holds good W K cache st0 layer B v1"
      "vf_next_prefetch v1 = Some (map_option (\<lambda>nl. (nl, W nl, K nl)) (next_history_layer_id (hs_layer_ids st0) layer))"
    using prepare_ok [OF h queued_buffers [OF q]] by blast
  have run: "py_bind (prepare_next layer build) (\<lambda>_ v. prefetch_layer av (the (vf_next_prefetch v)) v) v
      = prefetch_layer av (the (vf_next_prefetch v1)) v1"
    using p(1) by (simp add: py_basic)
  show ?thesis
  proof (cases "next_history_layer_id (hs_layer_ids st0) layer")
    case None
    then show ?thesis
      unfolding run p(4) using len keys q p(2,3) prefetch_none
      by (intro exI [of _ B] exI [of _ v1] exI [of _ s]) (simp add: continues_def next_works_def)
  next
    case (Some nl)
    then have W: "next_works W st0 layer = W nl" by (simp add: next_works_def)
    have g: good using h by (simp add: next_holds_def)
    have slots: "all_slots av v1 = all_slots av v" by (cases av) (simp_all add: all_slots_def p(2))
    have free1: "unused A (vf_staging v1) (all_slots av v1)" using free p(2) slots by simp
    have cached: "cache nl B v1" using p(3) Some by (simp add: next_holds_def)
    obtain B' v' s' where l: "prefetch_layer av (Some (nl, W nl, K nl)) v1 = (Inr (), v')"
        "map fst B' = [0..<length B']" "length B' \<le> min (sp_num_buffers (vf_staging v)) (length (W nl))"
        "length B' = min (sp_num_buffers (vf_staging v)) (length (W nl)) \<or> set (all_slots av v) \<subseteq> set (slots_of B')"
        "queued n cuda pin (vf_staging v') worksA A (W nl) B' s'" "cache nl B' v'" "continues {} s s'"
        "vf_store v' = vf_store v1" "vf_next_prefetch v' = vf_next_prefetch v1"
      using prefetch_some [OF g next_layer_mem [OF Some] q [unfolded W, folded p(2)] keys len [unfolded W, folded p(2)] free1 cached]
      unfolding p(2) slots by blast
    have "next_holds good W K cache st0 layer B' v'" using p(3,4) l(6,8,9) Some by (auto simp: next_holds_def)
    then show ?thesis unfolding run p(4) W using Some l by auto
  qed
qed

lemma next_holds_run: "next_holds good W K cache st0 layer B v \<Longrightarrow> next_holds good W K cache st0 layer B (v\<lparr>vf_staging := p\<rparr>)"
  using cache_run by (auto simp: next_holds_def)

end

sublocale next_layer \<subseteq> ring: layer_ring
    "\<lambda>av. py_bind (prepare_next layer build) (\<lambda>_ v. prefetch_layer av (the (vf_next_prefetch v)) v)"
    "next_holds good W K cache st0 layer" "next_works W st0 layer"
  by unfold_locales (rule next_holds_run, assumption, rule prefetch_next_ok)


section \<open>One request\<close>

lemma layer_chunks_ready:
  assumes "history_ready item (vf_store v)" "layer \<in> set (hs_layer_ids (vf_store v))"
  shows "\<exists>st'. layer_chunks item layer v = (Inr (chunks_of item layer (vf_store v)), v\<lparr>vf_store := st'\<rparr>)
    \<and> reread (vf_store v) st'"
proof -
  obtain off where "index_of (hs_layer_ids (vf_store v)) layer = Some off" using index_of_mem [OF assms(2)] by blast
  from iter_ready [OF assms(1) this] show ?thesis by (auto simp: layer_chunks_def on_store_def)
qed

lemma chunk_works_steady:
  "steady st (vf_store v) \<Longrightarrow> chunk_works (windows sz (chunks_of item layer st)) v = (Inr (works_of sz item layer st), v)"
  by (simp add: chunk_works_def works_of_def chunk_tensor_def steady_def)

lemma group_chunks: "1 \<le> group_size \<Longrightarrow> group_adjacent_chunks cs group_size = Inr (windows (nat group_size) cs)"
  by (simp add: group_adjacent_chunks_def)

lemma single_works_ready:
  assumes h: "history_ready item st0" and r: "reread st0 (vf_store v)" and layer: "layer \<in> set (hs_layer_ids st0)"
    and sz: "1 \<le> group_size"
  shows "\<exists>st'. single_works group_size item layer v
      = (Inr (works_of (nat group_size) item layer st0, []), v\<lparr>vf_store := st'\<rparr>) \<and> reread (vf_store v) st'"
proof -
  obtain st' where st': "layer_chunks item layer v = (Inr (chunks_of item layer (vf_store v)), v\<lparr>vf_store := st'\<rparr>)"
      "reread (vf_store v) st'"
    using layer_chunks_ready [of item v layer] rereadD(2,3) [OF r] h layer by auto
  have "steady st0 st'" by (rule steady_trans [OF rereadD(1) [OF r] rereadD(1) [OF st'(2)]])
  then show ?thesis
    using st' chunk_works_steady [of st0 "v\<lparr>vf_store := st'\<rparr>" "nat group_size" item layer]
      group_chunks [OF sz, of "chunks_of item layer st0"]
      chunks_of_cong [OF rereadD(1) [OF r], of item layer]
    by (auto simp: single_works_def py_basic)
qed

definition single_cache ::
    "int \<times> string \<times> int \<Rightarrow> 'k stream_verifier \<Rightarrow> (nat, transfer) dict \<Rightarrow> 'k stream_verifier \<Rightarrow> bool" where
  "single_cache key v0 B v \<longleftrightarrow>
     vf_store v = vf_store v0 \<and> vf_next_prefetch v = vf_next_prefetch v0 \<and> dget (vf_single v) key = Some B
   \<and> (\<forall>key'. key' \<noteq> key \<longrightarrow> dget (vf_single v) key' = dget (vf_single v0) key')"

interpretation single_kept: prefetch_cache "keep_single key" "single_cache key v0"
  by unfold_locales (simp_all add: keep_single_def single_cache_def)

definition single_next :: "int \<Rightarrow> stream_item \<Rightarrow> int \<Rightarrow> (nat, transfer) dict \<Rightarrow> 'k stream_verifier \<Rightarrow> bool" where
  "single_next round_id item nl B v \<longleftrightarrow>
     dget_or (vf_single v) (round_id, si_rid item, nl) [] = B
   \<and> (\<forall>key. fst key = round_id \<and> key \<noteq> (round_id, si_rid item, nl) \<longrightarrow> dget (vf_single v) key = None)"

lemma prefetch_single_layer:
  assumes q: "queued n cuda pin (vf_staging v) worksA A works B s" and keys: "map fst B = [0..<length B]"
    and len: "length B \<le> min (sp_num_buffers (vf_staging v)) (length works)" and free: "unused A (vf_staging v) (all_slots av v)"
    and B: "single_next round_id item nl B v" and ok: "\<forall>w \<in> set works. work_ok w"
  shows "\<exists>B' v' s'. prefetch_next_single_layer round_id item av (Some (nl, works, [])) v = (Inr (), v')
    \<and> map fst B' = [0..<length B'] \<and> length B' \<le> min (sp_num_buffers (vf_staging v)) (length works)
    \<and> (length B' = min (sp_num_buffers (vf_staging v)) (length works) \<or> set (all_slots av v) \<subseteq> set (slots_of B'))
    \<and> queued n cuda pin (vf_staging v') worksA A works B' s' \<and> single_next round_id item nl B' v'
    \<and> continues {} s s' \<and> vf_store v' = vf_store v \<and> vf_next_prefetch v' = vf_next_prefetch v"
proof (cases "works = []")
  case True
  then have "prefetch_next_single_layer round_id item av (Some (nl, works, [])) v = (Inr (), v)"
    by (simp add: prefetch_next_single_layer_def py_basic)
  then show ?thesis using True q keys len B by (intro exI [of _ B] exI [of _ v] exI [of _ s]) (simp add: continues_def)
next
  case False
  let ?key = "(round_id, si_rid item, nl)" and ?limit = "min (sp_num_buffers (vf_staging v)) (length works)"
  let ?v0 = "keep_single (round_id, si_rid item, nl) B v"
  have v0: "queued n cuda pin (vf_staging ?v0) worksA A works B s" "unused A (vf_staging ?v0) (all_slots av v)" "single_cache ?key v B ?v0"
    using q free by (simp_all add: keep_single_def single_cache_def)
  obtain E v' s' where e: "prefetch_loop False works (keep_single ?key) ?limit (all_slots av v) (slots_of B) B [] ?v0 = (Inr ([] @ E), v')"
      "map fst (B @ E) = [0..<length B + length E]" "length B + length E \<le> ?limit"
      "length B + length E = ?limit \<or> set (all_slots av v) \<subseteq> set (slots_of (B @ E))"
      "queued n cuda pin (vf_staging v') worksA A works (B @ E) s'" "single_cache ?key v (B @ E) v'" "continues {} s s'"
    using single_kept.prefetch_loop_ok [OF v0(1) keys len min.cobounded2 ok refl v0(2,3), of "[]" False] by auto
  have "prefetch_next_single_layer round_id item av (Some (nl, works, [])) v = (Inr (), v')"
    using e(1) False B by (simp add: single_next_def prefetch_next_single_layer_def Let_def py_basic)
  moreover have "single_next round_id item nl (B @ E) v'" "vf_store v' = vf_store v" "vf_next_prefetch v' = vf_next_prefetch v"
    using e(6) B by (auto simp: single_cache_def single_next_def dget_or_def)
  ultimately show ?thesis using e(2-5,7) by (intro exI [of _ "B @ E"] exI [of _ v'] exI [of _ s']) simp
qed


interpretation single: next_layer "1 \<le> cf_chunks_per_transfer cfg \<and> history_ready item st0"
    "\<lambda>nl. works_of (nat (cf_chunks_per_transfer cfg)) item nl st0" "\<lambda>_. []" "single_next round_id item"
    "single_works (cf_chunks_per_transfer cfg) item" "prefetch_next_single_layer round_id item" st0 layer
  for cfg :: specstream_config and item :: stream_item and round_id layer :: int and st0 :: "'k history_store"
proof (unfold_locales, goal_cases)
  case (1 v nl)
  then show ?case using single_works_ready [of item st0 v nl] by blast
next
  case (5 nl n cuda pin v worksA A B s av)
  show ?case by (rule prefetch_single_layer [OF 5(3-7)]) (use works_of_ok in blast)
qed (auto simp: single_next_def prefetch_next_single_layer_def py_basic intro: works_of_ok)


text \<open>The transfers with which a layer starts: its first windows are all prefetched, or none is.\<close>

definition starts ::
    "int \<Rightarrow> bool \<Rightarrow> bool \<Rightarrow> 'k work list \<Rightarrow> (nat, transfer) dict \<Rightarrow> 'k staging_pool \<Rightarrow> 'k staging_run \<Rightarrow> bool" where
  "starts n cuda pin works A p s \<longleftrightarrow>
     0 < sp_num_buffers p \<and> backed n cuda pin p (map snd A) s \<and> pending works A s
   \<and> (A = [] \<or> map fst A = [0..<min (sp_num_buffers p) (length works)])"

definition layer_group_size :: "specstream_config \<Rightarrow> nat" where
  "layer_group_size cfg = (if cf_reference_attention cfg then 1 else nat (cf_chunks_per_transfer cfg))"

definition single_entry ::
    "int \<Rightarrow> bool \<Rightarrow> bool \<Rightarrow> specstream_config \<Rightarrow> int \<Rightarrow> stream_item \<Rightarrow> 'k history_store \<Rightarrow> int \<Rightarrow> 'k stream_verifier
      \<Rightarrow> 'k staging_run \<Rightarrow> bool" where
  "single_entry n cuda pin cfg round_id item st0 layer v s \<longleftrightarrow>
     1 \<le> cf_chunks_per_transfer cfg \<and> 0 < si_history_len item \<and> history_ready item st0
   \<and> layer \<in> set (hs_layer_ids st0) \<and> reread st0 (vf_store v)
   \<and> (\<exists>A. single_next round_id item layer A v \<and> starts n cuda pin (works_of (layer_group_size cfg) item layer st0) A (vf_staging v) s)"

lemma chunks_sum:
  assumes "history_ready item st" "layer \<in> set (hs_layer_ids st)"
  shows "sum_list (map lc_length (chunks_of item layer st)) = si_history_len item"
proof -
  obtain off where off: "index_of (hs_layer_ids st) layer = Some off" using index_of_mem [OF assms(2)] by blast
  let ?cs = "chunks_of item layer st"
  have "concat (map lc_tensor ?cs) = take (nat (si_history_len item)) (contents off st (si_rid item))"
      and len: "\<forall>c \<in> set ?cs. lc_length c = int (length (lc_tensor c)) \<and> 0 < lc_length c"
    using iter_ready [OF assms(1) off] by blast+
  then have "length (concat (map lc_tensor ?cs)) = nat (si_history_len item)"
    using assms(1) index_of_Some [OF off] by (auto simp: history_ready_def)
  moreover have "int (length (concat (map lc_tensor cs))) = sum_list (map lc_length cs)"
    if "\<forall>c \<in> set cs. lc_length c = int (length (lc_tensor c))" for cs :: "'a layer_chunk list"
    using that by (induction cs) simp_all
  ultimately show ?thesis using len assms(1) by (fastforce simp: history_ready_def)
qed


lemma next_layer_nth: "distinct ls \<Longrightarrow> Suc i < length ls \<Longrightarrow> next_history_layer_id ls (ls ! i) = Some (ls ! Suc i)"
  by (simp add: next_history_layer_id_def index_of_nth)

lemma ring_started:
  assumes "ring_state works holds n cuda pin m worksA [] B v s" "0 < m" "B = [] \<or> length B = min m (length works)"
  shows "starts n cuda pin works B (vf_staging v) s"
  using assms by (auto simp: ring_state_def queued_def starts_def)

lemma stream_single_ok:
  assumes e: "single_entry n cuda pin cfg round_id item st0 layer v s"
  defines "W \<equiv> \<lambda>nl. works_of (nat (cf_chunks_per_transfer cfg)) item nl st0"
    and "works \<equiv> works_of (layer_group_size cfg) item layer st0"
  shows "\<exists>ks B v' s'. stream_history_single cfg round_id item layer pre v = (Inr ks, v') \<and> kernels_ok works ks s'
    \<and> ring_state (next_works W st0 layer)
        (next_holds (1 \<le> cf_chunks_per_transfer cfg \<and> history_ready item st0) W (\<lambda>_. []) (single_next round_id item) st0 layer)
        n cuda pin (sp_num_buffers (vf_staging v)) works [] B v' s'
    \<and> continues UNIV s s'
    \<and> (if pre \<and> \<not> cf_reference_attention cfg
       then length B = min (sp_num_buffers (vf_staging v)) (length (next_works W st0 layer)) else B = [])"
proof -
  let ?m = "sp_num_buffers (vf_staging v)" and ?key = "(round_id, si_rid item, layer)"
  let ?on = "pre \<and> \<not> cf_reference_attention cfg"
  let ?holds = "next_holds (1 \<le> cf_chunks_per_transfer cfg \<and> history_ready item st0) W (\<lambda>_. []) (single_next round_id item) st0 layer"
  have en: "1 \<le> cf_chunks_per_transfer cfg" "0 < si_history_len item" "history_ready item st0" "layer \<in> set (hs_layer_ids st0)"
      "reread st0 (vf_store v)"
    using e by (simp_all add: single_entry_def)
  obtain A where A: "single_next round_id item layer A v" "starts n cuda pin works A (vf_staging v) s"
    using e by (auto simp: single_entry_def works_def)
  note chunks = chunks_of_cong [OF rereadD(1) [OF en(5)], of item layer]
  obtain st' where ch: "layer_chunks item layer v = (Inr (chunks_of item layer st0), v\<lparr>vf_store := st'\<rparr>)" "reread (vf_store v) st'"
    using layer_chunks_ready [of item v layer] rereadD(2,3) [OF en(5)] en(3,4) chunks by auto
  have st': "reread st0 st'" by (rule reread_trans [OF en(5) ch(2)])
  define v1 where "v1 = v\<lparr>vf_store := st', vf_next_prefetch := None, vf_single := ddel ?key (vf_single v)\<rparr>"
  have sum: "sum_list (map lc_length (chunks_of item layer st0)) = si_history_len item" by (rule chunks_sum [OF en(3,4)])
  have grp: "group_adjacent_chunks (chunks_of item layer st0) (if cf_reference_attention cfg then 1 else cf_chunks_per_transfer cfg)
      = Inr (windows (layer_group_size cfg) (chunks_of item layer st0))"
    using en(1) by (simp add: group_adjacent_chunks_def layer_group_size_def)
  have cw: "chunk_works (windows (layer_group_size cfg) (chunks_of item layer st0)) (v\<lparr>vf_store := st', vf_next_prefetch := None\<rparr>)
      = (Inr works, v\<lparr>vf_store := st', vf_next_prefetch := None\<rparr>)"
    unfolding works_def using rereadD(1) [OF st'] by (intro chunk_works_steady) simp
  have run: "stream_history_single cfg round_id item layer pre v =
      py_bind (ring_fill works [0..<min ?m (length works)] A) (\<lambda>transfers.
      py_bind (ring_loop ?m works (prefetch_next_single cfg round_id item layer) ?on [0..<length works] transfers) (\<lambda>kernels.
      py_bind (if ?on then prefetch_next_single cfg round_id item layer None else py_return ()) (\<lambda>_. py_return kernels))) v1"
  proof -
    have "chunks_of item layer st0 \<noteq> []" using sum en(2) by auto
    moreover have "A = dget_or (vf_single v) ?key []" using A(1) by (simp add: single_next_def)
    moreover have "vf_staging v1 = vf_staging v" by (simp add: v1_def)
    ultimately show ?thesis
      using sum by (simp add: stream_history_single_def py_bind_Inr ch(1) grp cw Let_def v1_def [symmetric])
  qed
  have closure: "prefetch_next_single cfg round_id item layer = (\<lambda>av. py_bind (prepare_next layer (single_works (cf_chunks_per_transfer cfg) item))
      (\<lambda>_ v. prefetch_next_single_layer round_id item av (the (vf_next_prefetch v)) v))"
    by (simp add: fun_eq_iff prefetch_next_single_def)
  have "?holds [] v1" using en(1,3) st' A(1) by (auto simp: next_holds_def v1_def single_next_def dget_or_def)
  then have st: "ring_state (next_works W st0 layer) ?holds n cuda pin ?m works A [] v1 s"
    using A(2) by (simp add: ring_state_def queued_def v1_def pending_def starts_def)
  have A': "A = [] \<or> map fst A = [0..<min ?m (length works)]" "0 < ?m" using A(2) by (simp_all add: starts_def)
  have ok: "\<forall>w \<in> set works. work_ok w" using works_of_ok by (auto simp: works_def)
  show ?thesis
    unfolding run closure kernels_ok_def
    using single.ring.ring_layer_ok [OF st [unfolded W_def] A'(2) ok A'(1), of ?on] unfolding W_def by blast
qed


lemma dget_filter_key: "P k \<Longrightarrow> dget (filter (\<lambda>(key, _). P key) d) k = dget d k"
  by (induction d) auto

lemma single_entry_purge:
  "single_entry n cuda pin cfg round_id item st0 layer v s
     \<Longrightarrow> single_entry n cuda pin cfg round_id item st0 layer (purge_stale_prefetch round_id v) s"
  using dget_filter_key [of "\<lambda>key. fst key = round_id" _ "vf_single v"]
  by (auto simp: single_entry_def purge_stale_prefetch_def single_next_def dget_or_def)

lemma single_layer_ok:
  assumes e: "single_entry n cuda pin cfg round_id item st0 (hs_layer_ids st0 ! i) v s" and i: "i < length (hs_layer_ids st0)"
  shows "\<exists>ks v' s'. stream_history_single cfg round_id item (hs_layer_ids st0 ! i) (cf_layer_prefetch cfg) v = (Inr ks, v')
    \<and> kernels_ok (works_of (layer_group_size cfg) item (hs_layer_ids st0 ! i) st0) ks s'
    \<and> reaches (staging_init n cuda pin) staging_step s' \<and> sr_pool s' = vf_staging v' \<and> continues UNIV s s'
    \<and> (Suc i < length (hs_layer_ids st0) \<longrightarrow> single_entry n cuda pin cfg round_id item st0 (hs_layer_ids st0 ! Suc i) v' s')"
proof -
  let ?layer = "hs_layer_ids st0 ! i"
  let ?W = "\<lambda>nl. works_of (nat (cf_chunks_per_transfer cfg)) item nl st0" and ?pre = "cf_layer_prefetch cfg"
  let ?m = "sp_num_buffers (vf_staging v)" and ?works = "works_of (layer_group_size cfg) item ?layer st0"
  obtain ks B v' s' where k: "stream_history_single cfg round_id item ?layer ?pre v = (Inr ks, v')" "kernels_ok ?works ks s'"
      "ring_state (next_works ?W st0 ?layer)
         (next_holds (1 \<le> cf_chunks_per_transfer cfg \<and> history_ready item st0) ?W (\<lambda>_. []) (single_next round_id item) st0 ?layer)
         n cuda pin ?m ?works [] B v' s'" "continues UNIV s s'"
      "if ?pre \<and> \<not> cf_reference_attention cfg then length B = min ?m (length (next_works ?W st0 ?layer)) else B = []"
    using stream_single_ok [OF e, of ?pre] by blast
  have run: "reaches (staging_init n cuda pin) staging_step s'" "sr_pool s' = vf_staging v'"
    using k(3) by (simp_all add: ring_state_def queued_def backed_def)
  have en: "1 \<le> cf_chunks_per_transfer cfg" "0 < si_history_len item" "history_ready item st0" "0 < ?m"
    using e by (auto simp: single_entry_def starts_def)
  have "single_entry n cuda pin cfg round_id item st0 (hs_layer_ids st0 ! Suc i) v' s'" if Suc: "Suc i < length (hs_layer_ids st0)"
  proof -
    let ?nl = "hs_layer_ids st0 ! Suc i"
    have nl: "next_history_layer_id (hs_layer_ids st0) ?layer = Some ?nl"
      using en(3) Suc by (intro next_layer_nth) (simp_all add: history_ready_def)
    have h: "reread st0 (vf_store v')" "single_next round_id item ?nl B v'"
      using k(3) nl by (simp_all add: ring_state_def next_holds_def)
    have "B = [] \<or> length B = min ?m (length (next_works ?W st0 ?layer))" using k(5) by (auto split: if_splits)
    from ring_started [OF k(3) en(4) this] have st: "starts n cuda pin (?W ?nl) B (vf_staging v') s'"
      using nl by (simp add: next_works_def)
    have "starts n cuda pin (works_of (layer_group_size cfg) item ?nl st0) B (vf_staging v') s'"
    proof (cases "cf_reference_attention cfg")
      case True
      then show ?thesis using st k(5) by (simp add: starts_def pending_def)
    qed (use st in \<open>simp add: layer_group_size_def\<close>)
    then show ?thesis using en(1-3) h Suc by (auto simp: single_entry_def)
  qed
  then show ?thesis using k(1,2,4) run by blast
qed

text \<open>
  Without prefetching the cache is not written, so requests can follow one another in a layer.
\<close>

definition uncached :: "('k stream_verifier, 'a) py \<Rightarrow> bool" where
  "uncached f \<longleftrightarrow> (\<forall>v r v'. f v = (r, v') \<longrightarrow> (\<forall>key. dget (vf_single v) key = None \<longrightarrow> dget (vf_single v') key = None))"

lemma uncached_bind: "uncached f \<Longrightarrow> (\<And>x. uncached (g x)) \<Longrightarrow> uncached (py_bind f g)"
  unfolding uncached_def py_bind_def by (fastforce split: prod.splits sum.splits)

lemma uncached_basic:
  "uncached (py_return x)" "uncached (py_raise e)" "uncached (on_staging h)" "uncached (on_store h')" "uncached (launch_window t)"
  by (auto simp: uncached_def py_basic on_staging_def on_store_def launch_window_def split: prod.splits)

lemma uncached_fill: "uncached (ring_fill works is transfers)"
  by (induction works "is" transfers rule: ring_fill.induct) (auto intro!: uncached_bind uncached_basic)

lemma uncached_ring: "uncached (ring_loop n works prefetch_next False is transfers)"
  by (induction "is" arbitrary: transfers) (auto simp: refill_def split: option.split intro!: uncached_bind uncached_basic)

lemma uncached_state: "(\<And>v0. uncached (F v0)) \<Longrightarrow> uncached (\<lambda>v. F v v)"
  unfolding uncached_def by blast

lemma uncached_if: "uncached f \<Longrightarrow> uncached g \<Longrightarrow> uncached (if b then f else g)"
  by simp

lemma uncached_reset: "uncached (\<lambda>v. (r, v\<lparr>vf_next_prefetch := None\<rparr>))"
  by (simp add: uncached_def)

lemma uncached_single: "uncached (stream_history_single cfg round_id item layer False)"
proof -
  have take: "uncached (\<lambda>v. (Inr (dget_or (vf_single v) key []), v\<lparr>vf_single := ddel key (vf_single v)\<rparr>))" for key
    by (auto simp: uncached_def)
  have works: "uncached (chunk_works gs)" for gs by (simp add: uncached_def chunk_works_def)
  have ring: "uncached (\<lambda>v. py_bind (ring_fill ws [0..<min (sp_num_buffers (vf_staging v)) k] cached) (\<lambda>transfers.
      py_bind (ring_loop (sp_num_buffers (vf_staging v)) ws pf False js transfers) (\<lambda>kernels.
      py_bind (py_return ()) (\<lambda>_. py_return kernels))) v)" for ws k cached pf js
    by (rule uncached_state) (intro uncached_bind uncached_fill uncached_ring uncached_basic)
  show ?thesis
    unfolding stream_history_single_def layer_chunks_def Let_def
    by (auto simp: uncached_basic intro!: uncached_bind take uncached_reset works ring)
qed

definition each_done ::
    "specstream_config \<Rightarrow> stream_item list \<Rightarrow> 'k history_store \<Rightarrow> int \<Rightarrow> (nat \<times> transfer) list list \<Rightarrow> 'k staging_run \<Rightarrow> bool" where
  "each_done cfg items st0 layer kss s \<longleftrightarrow>
     list_all2 (\<lambda>item ks. kernels_ok (works_of (layer_group_size cfg) item layer st0) ks s) items kss"

lemma each_done_later: "each_done cfg items st0 layer kss s \<Longrightarrow> continues gone s s' \<Longrightarrow> each_done cfg items st0 layer kss s'"
  unfolding each_done_def by (erule list_all2_mono) (rule kernels_ok_continues)

text \<open>What a layer of several requests needs at its start when nothing is prefetched.\<close>

definition plain_entry ::
    "int \<Rightarrow> bool \<Rightarrow> bool \<Rightarrow> specstream_config \<Rightarrow> int \<Rightarrow> stream_item list \<Rightarrow> 'k history_store \<Rightarrow> int \<Rightarrow> 'k stream_verifier
      \<Rightarrow> 'k staging_run \<Rightarrow> bool" where
  "plain_entry n cuda pin cfg round_id items st0 layer v s \<longleftrightarrow>
     1 \<le> cf_chunks_per_transfer cfg \<and> (\<forall>item \<in> set items. 0 < si_history_len item \<and> history_ready item st0)
   \<and> layer \<in> set (hs_layer_ids st0) \<and> reread st0 (vf_store v)
   \<and> (\<forall>key. fst key = round_id \<longrightarrow> dget (vf_single v) key = None)
   \<and> 0 < sp_num_buffers (vf_staging v) \<and> backed n cuda pin (vf_staging v) [] s"

lemma stream_each_ok:
  assumes "plain_entry n cuda pin cfg round_id items st0 layer v s"
  shows "\<exists>kss v' s'. stream_each cfg round_id layer False items v = (Inr kss, v') \<and> each_done cfg items st0 layer kss s'
    \<and> plain_entry n cuda pin cfg round_id items st0 layer v' s' \<and> continues UNIV s s'"
  using assms
proof (induction items arbitrary: v s)
  case Nil
  then show ?case by (auto simp: py_basic each_done_def continues_def)
next
  case (Cons item items)
  let ?W = "\<lambda>nl. works_of (nat (cf_chunks_per_transfer cfg)) item nl st0"
  have "single_next round_id item layer [] v" using Cons.prems by (simp add: plain_entry_def single_next_def dget_or_def)
  then have "single_entry n cuda pin cfg round_id item st0 layer v s"
    using Cons.prems by (auto simp: plain_entry_def single_entry_def starts_def pending_def)
  from stream_single_ok [OF this, of False] obtain ks v1 s1 where
      k: "stream_history_single cfg round_id item layer False v = (Inr ks, v1)"
      "kernels_ok (works_of (layer_group_size cfg) item layer st0) ks s1"
      "ring_state (next_works ?W st0 layer) (next_holds (1 \<le> cf_chunks_per_transfer cfg \<and> history_ready item st0) ?W (\<lambda>_. []) (single_next round_id item) st0 layer)
         n cuda pin (sp_num_buffers (vf_staging v)) (works_of (layer_group_size cfg) item layer st0) [] [] v1 s1"
      "continues UNIV s s1"
    by auto
  have none: "\<forall>key. fst key = round_id \<longrightarrow> dget (vf_single v1) key = None"
    using uncached_single [of cfg round_id item layer] k(1) Cons.prems unfolding uncached_def plain_entry_def by blast
  have st1: "reread st0 (vf_store v1)" "backed n cuda pin (vf_staging v1) [] s1" "sp_num_buffers (vf_staging v1) = sp_num_buffers (vf_staging v)"
    using k(3) by (simp_all add: ring_state_def next_holds_def queued_def)
  then have "plain_entry n cuda pin cfg round_id items st0 layer v1 s1"
    using Cons.prems none by (simp add: plain_entry_def)
  from Cons.IH [OF this] obtain kss v' s' where
      IH: "stream_each cfg round_id layer False items v1 = (Inr kss, v')" "each_done cfg items st0 layer kss s'"
      "plain_entry n cuda pin cfg round_id items st0 layer v' s'" "continues UNIV s1 s'"
    by blast
  have "stream_each cfg round_id layer False (item # items) v = (Inr (ks # kss), v')" using k(1) IH(1) by (simp add: py_basic)
  moreover have "each_done cfg (item # items) st0 layer (ks # kss) s'"
    using IH(2) kernels_ok_continues [OF k(2) IH(4)] by (simp add: each_done_def)
  moreover have "plain_entry n cuda pin cfg round_id (item # items) st0 layer v' s'"
    using IH(3) Cons.prems by (simp add: plain_entry_def)
  moreover have "continues UNIV s s'" using continues_trans [OF k(4) IH(4)] by simp
  ultimately show ?case by blast
qed

definition each_entry ::
    "int \<Rightarrow> bool \<Rightarrow> bool \<Rightarrow> specstream_config \<Rightarrow> int \<Rightarrow> stream_item list \<Rightarrow> 'k history_store \<Rightarrow> int \<Rightarrow> 'k stream_verifier
      \<Rightarrow> 'k staging_run \<Rightarrow> bool" where
  "each_entry n cuda pin cfg round_id items st0 layer v s =
     (if length items = 1 then single_entry n cuda pin cfg round_id (hd items) st0 layer v s
      else plain_entry n cuda pin cfg round_id items st0 layer v s)"

lemma plain_entry_purge:
  "plain_entry n cuda pin cfg round_id items st0 layer v s
     \<Longrightarrow> plain_entry n cuda pin cfg round_id items st0 layer (purge_stale_prefetch round_id v) s"
  using dget_filter_key [of "\<lambda>key. fst key = round_id" _ "vf_single v"]
  by (auto simp: plain_entry_def purge_stale_prefetch_def)

lemma forward_each_ok:
  assumes e: "each_entry n cuda pin cfg round_id items st0 (hs_layer_ids st0 ! i) v s" and i: "i < length (hs_layer_ids st0)"
  shows "\<exists>kss v' s'. forward_each cfg round_id items (hs_layer_ids st0 ! i) v = (Inr kss, v')
    \<and> each_done cfg items st0 (hs_layer_ids st0 ! i) kss s'
    \<and> reaches (staging_init n cuda pin) staging_step s' \<and> sr_pool s' = vf_staging v' \<and> continues UNIV s s'
    \<and> (Suc i < length (hs_layer_ids st0) \<longrightarrow> each_entry n cuda pin cfg round_id items st0 (hs_layer_ids st0 ! Suc i) v' s')"
proof (cases "length items = 1")
  case True
  then obtain item where items: "items = [item]" by (cases items) auto
  have "single_entry n cuda pin cfg round_id item st0 (hs_layer_ids st0 ! i) (purge_stale_prefetch round_id v) s"
    using e by (simp add: each_entry_def items single_entry_purge)
  from single_layer_ok [OF this i] obtain ks v' s' where
      "stream_history_single cfg round_id item (hs_layer_ids st0 ! i) (cf_layer_prefetch cfg) (purge_stale_prefetch round_id v) = (Inr ks, v')"
      "kernels_ok (works_of (layer_group_size cfg) item (hs_layer_ids st0 ! i) st0) ks s'"
      "reaches (staging_init n cuda pin) staging_step s'" "sr_pool s' = vf_staging v'" "continues UNIV s s'"
      "Suc i < length (hs_layer_ids st0) \<longrightarrow> single_entry n cuda pin cfg round_id item st0 (hs_layer_ids st0 ! Suc i) v' s'"
    by blast
  then show ?thesis
    by (intro exI [of _ "[ks]"] exI [of _ v'] exI [of _ s']) (simp add: items forward_each_def py_basic each_done_def each_entry_def)
next
  case False
  have "plain_entry n cuda pin cfg round_id items st0 (hs_layer_ids st0 ! i) (purge_stale_prefetch round_id v) s"
    using e False by (simp add: each_entry_def plain_entry_purge)
  from stream_each_ok [OF this] obtain kss v' s' where
      k: "stream_each cfg round_id (hs_layer_ids st0 ! i) False items (purge_stale_prefetch round_id v) = (Inr kss, v')"
      "each_done cfg items st0 (hs_layer_ids st0 ! i) kss s'" "plain_entry n cuda pin cfg round_id items st0 (hs_layer_ids st0 ! i) v' s'"
      "continues UNIV s s'"
    by blast
  have "reaches (staging_init n cuda pin) staging_step s'" "sr_pool s' = vf_staging v'" using k(3) by (simp_all add: plain_entry_def backed_def)
  moreover have "Suc i < length (hs_layer_ids st0) \<longrightarrow> each_entry n cuda pin cfg round_id items st0 (hs_layer_ids st0 ! Suc i) v' s'"
    using k(3) False by (simp add: plain_entry_def each_entry_def)
  ultimately show ?thesis
    using k(1,2,4) False by (intro exI [of _ kss] exI [of _ v'] exI [of _ s']) (simp add: forward_each_def py_basic)
qed

interpretation each_round: layer_pipeline n cuda pin "hs_layer_ids st0" "forward_each cfg round_id items"
    "each_entry n cuda pin cfg round_id items st0" "each_done cfg items st0"
  for n :: int and cuda pin :: bool and cfg :: specstream_config and round_id :: int and items :: "stream_item list"
    and st0 :: "'k history_store"
  by unfold_locales (erule (1) each_done_later, rule forward_each_ok)


section \<open>Several requests\<close>

definition batch_works :: "nat \<Rightarrow> stream_item list \<Rightarrow> int \<Rightarrow> 'k history_store \<Rightarrow> 'k work list" where
  "batch_works sz items layer st = concat (map (\<lambda>item. works_of sz item layer st) items)"

definition queue_keys :: "nat \<Rightarrow> stream_item list \<Rightarrow> int \<Rightarrow> 'k history_store \<Rightarrow> task_key list" where
  "queue_keys sz items layer st =
     concat (map (\<lambda>item. map (RequestKey (si_rid item)) [0..<length (works_of sz item layer st)]) items)"

lemma batch_works_ok: "w \<in> set (batch_works sz items layer st) \<Longrightarrow> work_ok w"
  using works_of_ok by (auto simp: batch_works_def)

lemma independent_works_ready:
  assumes "\<forall>item \<in> set items. history_ready item st0" "reread st0 (vf_store v)" "layer \<in> set (hs_layer_ids st0)" "1 \<le> group_size"
  shows "\<exists>st'. independent_works group_size items layer v
      = (Inr (batch_works (nat group_size) items layer st0, queue_keys (nat group_size) items layer st0), v\<lparr>vf_store := st'\<rparr>)
    \<and> reread (vf_store v) st'"
  using assms
proof (induction items arbitrary: v)
  case Nil
  then show ?case by (intro exI [of _ "vf_store v"]) (simp add: py_basic batch_works_def queue_keys_def)
next
  case (Cons item items)
  note chunks = chunks_of_cong [OF rereadD(1) [OF Cons.prems(2)], of item layer]
  obtain st1 where ch: "layer_chunks item layer v = (Inr (chunks_of item layer st0), v\<lparr>vf_store := st1\<rparr>)" "reread (vf_store v) st1"
    using layer_chunks_ready [of item v layer] rereadD(2,3) [OF Cons.prems(2)] Cons.prems(1,3) chunks by auto
  have st1: "reread st0 st1" by (rule reread_trans [OF Cons.prems(2) ch(2)])
  have sum: "sum_list (map lc_length (chunks_of item layer st0)) = si_history_len item"
    using Cons.prems(1,3) by (intro chunks_sum) simp_all
  have cw: "chunk_works (windows (nat group_size) (chunks_of item layer st0)) (v\<lparr>vf_store := st1\<rparr>)
      = (Inr (works_of (nat group_size) item layer st0), v\<lparr>vf_store := st1\<rparr>)"
    using rereadD(1) [OF st1] by (intro chunk_works_steady) simp
  obtain st' where IH: "independent_works group_size items layer (v\<lparr>vf_store := st1\<rparr>)
      = (Inr (batch_works (nat group_size) items layer st0, queue_keys (nat group_size) items layer st0), v\<lparr>vf_store := st'\<rparr>)"
      "reread st1 st'"
    using Cons.IH [of "v\<lparr>vf_store := st1\<rparr>"] Cons.prems(1,3,4) st1 by auto
  have "length (windows (nat group_size) (chunks_of item layer st0)) = length (works_of (nat group_size) item layer st0)"
    by (simp add: works_of_def)
  then have "independent_works group_size (item # items) layer v
      = (Inr (batch_works (nat group_size) (item # items) layer st0, queue_keys (nat group_size) (item # items) layer st0), v\<lparr>vf_store := st'\<rparr>)"
    using sum group_chunks [OF Cons.prems(4), of "chunks_of item layer st0"]
    by (simp add: py_bind_Inr ch(1) cw IH(1) py_basic batch_works_def queue_keys_def)
  then show ?case using reread_trans [OF ch(2) IH(2)] by blast
qed

definition batch_kept_from :: "'k stream_verifier \<Rightarrow> (nat, transfer) dict \<Rightarrow> 'k stream_verifier \<Rightarrow> bool" where
  "batch_kept_from v0 B v \<longleftrightarrow>
     vf_store v = vf_store v0 \<and> vf_next_prefetch v = vf_next_prefetch v0 \<and> vf_batched v = vf_batched v0"

interpretation batch_kept: prefetch_cache "\<lambda>_. id" "batch_kept_from v0"
  by unfold_locales (simp_all add: batch_kept_from_def)

definition batch_next ::
    "string \<Rightarrow> int \<Rightarrow> stream_item list \<Rightarrow> (int \<Rightarrow> task_key list) \<Rightarrow> int \<Rightarrow> (nat, transfer) dict \<Rightarrow> 'k stream_verifier \<Rightarrow> bool" where
  "batch_next mode round_id items K nl B v \<longleftrightarrow>
     cached_transfers (batched_prefetch_key round_id nl mode items) (K nl) v = B
   \<and> (\<forall>key. fst key = round_id \<and> key \<noteq> batched_prefetch_key round_id nl mode items \<longrightarrow> dget (vf_batched v) key = None)"

lemma merge_new:
  "distinct (map fst (B @ E)) \<Longrightarrow> foldl (\<lambda>d (i, t). if dget d i = None then dset i t d else d) B E = B @ E"
proof (induction E arbitrary: B)
  case (Cons it E)
  obtain i t where it: "it = (i, t)" by (cases it)
  have "i \<notin> fst ` set B" using Cons.prems by (auto simp: it)
  then have "foldl (\<lambda>d (i, t). if dget d i = None then dset i t d else d) B (it # E)
      = foldl (\<lambda>d (i, t). if dget d i = None then dset i t d else d) (B @ [it]) E"
    by (simp add: it dset_new map_of_eq_None_iff)
  then show ?case using Cons.IH [of "B @ [it]"] Cons.prems by simp
qed simp

lemma batch_next_store:
  assumes "batch_next mode round_id items K nl B v" "distinct (map fst (B @ E))"
  shows "batch_next mode round_id items K nl (B @ E) (store_batched_prefetch (batched_prefetch_key round_id nl mode items) (K nl) E v)"
  using assms merge_new [OF assms(2)]
  by (cases "E = []") (auto simp: batch_next_def store_batched_prefetch_def cached_transfers_def Let_def)

lemma prefetch_batched_layer:
  assumes q: "queued n cuda pin (vf_staging v) worksA A works B s" and keys: "map fst B = [0..<length B]"
    and len: "length B \<le> min (sp_num_buffers (vf_staging v)) (length works)" and free: "unused A (vf_staging v) (all_slots av v)"
    and B: "batch_next mode round_id items K nl B v" and ok: "\<forall>w \<in> set works. work_ok w"
  shows "\<exists>B' v' s'. prefetch_next_batched_layer direct mode round_id items av (Some (nl, works, K nl)) v = (Inr (), v')
    \<and> map fst B' = [0..<length B'] \<and> length B' \<le> min (sp_num_buffers (vf_staging v)) (length works)
    \<and> (length B' = min (sp_num_buffers (vf_staging v)) (length works) \<or> set (all_slots av v) \<subseteq> set (slots_of B'))
    \<and> queued n cuda pin (vf_staging v') worksA A works B' s' \<and> batch_next mode round_id items K nl B' v'
    \<and> continues {} s s' \<and> vf_store v' = vf_store v \<and> vf_next_prefetch v' = vf_next_prefetch v"
proof -
  let ?key = "batched_prefetch_key round_id nl mode items" and ?limit = "min (sp_num_buffers (vf_staging v)) (length works)"
  have same: "batch_kept_from v B v" by (simp add: batch_kept_from_def)
  obtain E v1 s' where e: "prefetch_loop direct works (\<lambda>_. id) ?limit (all_slots av v) (slots_of B) B [] v = (Inr E, v1)"
      "map fst (B @ E) = [0..<length B + length E]" "length B + length E \<le> ?limit"
      "length B + length E = ?limit \<or> set (all_slots av v) \<subseteq> set (slots_of (B @ E))"
      "queued n cuda pin (vf_staging v1) worksA A works (B @ E) s'" "batch_kept_from v (B @ E) v1" "continues {} s s'"
    using batch_kept.prefetch_loop_ok [OF q keys len min.cobounded2 ok refl free same, of "[]" direct] by auto
  let ?v' = "store_batched_prefetch ?key (K nl) E v1"
  have cached: "cached_transfers ?key (K nl) v = B" using B by (simp add: batch_next_def)
  have "prefetch_next_batched_layer direct mode round_id items av (Some (nl, works, K nl)) v = (Inr (), ?v')"
    using e(1) cached by (simp add: prefetch_next_batched_layer_def Let_def py_basic)
  moreover have "batch_next mode round_id items K nl B v1"
    using B e(6) by (simp add: batch_next_def batch_kept_from_def cached_transfers_def)
  then have "batch_next mode round_id items K nl (B @ E) ?v'" by (rule batch_next_store) (simp only: e(2) distinct_upt)
  moreover have "vf_staging ?v' = vf_staging v1" "vf_store ?v' = vf_store v1" "vf_next_prefetch ?v' = vf_next_prefetch v1"
    by (simp_all add: store_batched_prefetch_def Let_def)
  ultimately show ?thesis
    using e(2-7) by (intro exI [of _ "B @ E"] exI [of _ ?v'] exI [of _ s']) (simp add: batch_kept_from_def)
qed

interpretation batch: next_layer "1 \<le> cf_chunks_per_transfer cfg \<and> (\<forall>item \<in> set items. history_ready item st0)"
    "\<lambda>nl. batch_works (nat (cf_chunks_per_transfer cfg)) items nl st0"
    "\<lambda>nl. queue_keys (nat (cf_chunks_per_transfer cfg)) items nl st0"
    "batch_next ''independent'' round_id items (\<lambda>nl. queue_keys (nat (cf_chunks_per_transfer cfg)) items nl st0)"
    "independent_works (cf_chunks_per_transfer cfg) items"
    "prefetch_next_batched_layer False ''independent'' round_id items" st0 layer
  for cfg :: specstream_config and items :: "stream_item list" and round_id layer :: int and st0 :: "'k history_store"
proof (unfold_locales, goal_cases)
  case (1 v nl)
  then show ?case using independent_works_ready [of items st0 v nl] by blast
next
  case (5 nl n cuda pin v worksA A B s av)
  show ?case
    by (rule prefetch_batched_layer [where K = "\<lambda>nl. queue_keys (nat (cf_chunks_per_transfer cfg)) items nl st0", OF 5(3-7)])
       (use batch_works_ok in blast)
qed (auto simp: batch_next_def cached_transfers_def prefetch_next_batched_layer_def py_basic intro: batch_works_ok)


text \<open>
  What a layer with one work queue needs at its start, and how it gets the transfers that were
  prefetched for it and hands on those of the next layer.
\<close>

definition queue_entry ::
    "int \<Rightarrow> bool \<Rightarrow> bool \<Rightarrow> string \<Rightarrow> int \<Rightarrow> stream_item list \<Rightarrow> bool \<Rightarrow> (int \<Rightarrow> 'k work list) \<Rightarrow> (int \<Rightarrow> task_key list)
      \<Rightarrow> 'k history_store \<Rightarrow> int \<Rightarrow> 'k stream_verifier \<Rightarrow> 'k staging_run \<Rightarrow> bool" where
  "queue_entry n cuda pin mode round_id items good W K st0 layer v s \<longleftrightarrow>
     good \<and> distinct (hs_layer_ids st0) \<and> layer \<in> set (hs_layer_ids st0) \<and> reread st0 (vf_store v)
   \<and> (\<exists>A. batch_next mode round_id items K layer A v \<and> starts n cuda pin (W layer) A (vf_staging v) s)"

lemma queue_entry_purge:
  "queue_entry n cuda pin mode round_id items good W K st0 layer v s
     \<Longrightarrow> queue_entry n cuda pin mode round_id items good W K st0 layer (purge_stale_prefetch round_id v) s"
  using dget_filter_key [of "\<lambda>key. fst key = round_id" _ "vf_batched v"]
  by (auto simp: queue_entry_def purge_stale_prefetch_def batch_next_def cached_transfers_def batched_prefetch_key_def)

lemma queue_take:
  assumes e: "queue_entry n cuda pin mode round_id items good W K st0 layer v s" and r: "reread (vf_store v) st'"
  defines "v0 \<equiv> v\<lparr>vf_store := st', vf_next_prefetch := None\<rparr>" and "m \<equiv> sp_num_buffers (vf_staging v)"
  shows "\<exists>A v1. take_batched_prefetch (batched_prefetch_key round_id layer mode items) (K layer) v0 = (Inr A, v1)
    \<and> ring_state (next_works W st0 layer) (next_holds good W K (batch_next mode round_id items K) st0 layer)
        n cuda pin m (W layer) A [] v1 s
    \<and> (A = [] \<or> map fst A = [0..<min m (length (W layer))]) \<and> 0 < m \<and> vf_staging v1 = vf_staging v \<and> vf_store v1 = st'"
proof -
  let ?key = "batched_prefetch_key round_id layer mode items"
  have en: good "reread st0 (vf_store v)" using e by (simp_all add: queue_entry_def)
  obtain A where A: "batch_next mode round_id items K layer A v" "starts n cuda pin (W layer) A (vf_staging v) s"
    using e unfolding queue_entry_def by blast
  define v1 where "v1 = v0\<lparr>vf_batched := ddel ?key (vf_batched v)\<rparr>"
  have take: "take_batched_prefetch ?key (K layer) v0 = (Inr A, v1)"
    using A(1) by (auto simp: take_batched_prefetch_def batch_next_def cached_transfers_def v1_def v0_def split: option.splits)
  have "next_holds good W K (batch_next mode round_id items K) st0 layer [] v1"
    using en(1) reread_trans [OF en(2) r] A(1)
    by (auto simp: next_holds_def v1_def v0_def batch_next_def cached_transfers_def batched_prefetch_key_def)
  then have "ring_state (next_works W st0 layer) (next_holds good W K (batch_next mode round_id items K) st0 layer)
      n cuda pin m (W layer) A [] v1 s"
    using A(2) by (simp add: ring_state_def queued_def v1_def v0_def m_def pending_def starts_def)
  moreover have "A = [] \<or> map fst A = [0..<min m (length (W layer))]" "0 < m" using A(2) by (simp_all add: starts_def m_def)
  ultimately show ?thesis using take by (auto simp: v1_def v0_def)
qed

lemma queue_next:
  assumes st: "ring_state (next_works W st0 (hs_layer_ids st0 ! i))
      (next_holds good W K (batch_next mode round_id items K) st0 (hs_layer_ids st0 ! i)) n cuda pin m works [] B v s"
    and B: "B = [] \<or> length B = min m (length (next_works W st0 (hs_layer_ids st0 ! i)))" "0 < m"
    and i: "distinct (hs_layer_ids st0)" "Suc i < length (hs_layer_ids st0)"
  shows "queue_entry n cuda pin mode round_id items good W K st0 (hs_layer_ids st0 ! Suc i) v s"
proof -
  let ?nl = "hs_layer_ids st0 ! Suc i"
  have nl: "next_history_layer_id (hs_layer_ids st0) (hs_layer_ids st0 ! i) = Some ?nl" by (rule next_layer_nth [OF i])
  have h: good "reread st0 (vf_store v)" "batch_next mode round_id items K ?nl B v"
    using st nl by (simp_all add: ring_state_def next_holds_def)
  have "starts n cuda pin (W ?nl) B (vf_staging v) s"
    using ring_started [OF st B(2,1)] nl by (simp add: next_works_def)
  then show ?thesis using h i unfolding queue_entry_def by auto
qed

definition batch_entry ::
    "int \<Rightarrow> bool \<Rightarrow> bool \<Rightarrow> specstream_config \<Rightarrow> int \<Rightarrow> stream_item list \<Rightarrow> 'k history_store \<Rightarrow> int \<Rightarrow> 'k stream_verifier
      \<Rightarrow> 'k staging_run \<Rightarrow> bool" where
  "batch_entry n cuda pin cfg round_id items st0 =
     queue_entry n cuda pin ''independent'' round_id items
       (1 \<le> cf_chunks_per_transfer cfg \<and> (\<forall>item \<in> set items. history_ready item st0))
       (\<lambda>nl. batch_works (nat (cf_chunks_per_transfer cfg)) items nl st0)
       (\<lambda>nl. queue_keys (nat (cf_chunks_per_transfer cfg)) items nl st0) st0"

lemma stream_independent_ok:
  assumes e: "batch_entry n cuda pin cfg round_id items st0 layer v s"
  defines "W \<equiv> \<lambda>nl. batch_works (nat (cf_chunks_per_transfer cfg)) items nl st0"
    and "K \<equiv> \<lambda>nl. queue_keys (nat (cf_chunks_per_transfer cfg)) items nl st0"
  shows "\<exists>ks B v' s'. stream_history_independent cfg round_id items layer v = (Inr ks, v') \<and> kernels_ok (W layer) ks s'
    \<and> ring_state (next_works W st0 layer)
        (next_holds (1 \<le> cf_chunks_per_transfer cfg \<and> (\<forall>item \<in> set items. history_ready item st0)) W K
           (batch_next ''independent'' round_id items K) st0 layer)
        n cuda pin (sp_num_buffers (vf_staging v)) (W layer) [] B v' s'
    \<and> continues UNIV s s' \<and> length B = min (sp_num_buffers (vf_staging v)) (length (next_works W st0 layer))"
proof -
  let ?m = "sp_num_buffers (vf_staging v)" and ?key = "batched_prefetch_key round_id layer ''independent'' items"
  have en: "1 \<le> cf_chunks_per_transfer cfg" "\<forall>item \<in> set items. history_ready item st0" "layer \<in> set (hs_layer_ids st0)"
      "reread st0 (vf_store v)"
    using e by (simp_all add: batch_entry_def queue_entry_def)
  obtain st' where w: "independent_works (cf_chunks_per_transfer cfg) items layer v = (Inr (W layer, K layer), v\<lparr>vf_store := st'\<rparr>)"
      "reread (vf_store v) st'"
    using independent_works_ready [OF en(2,4,3,1)] unfolding W_def K_def by blast
  obtain A v1 where A: "take_batched_prefetch ?key (K layer) (v\<lparr>vf_store := st', vf_next_prefetch := None\<rparr>) = (Inr A, v1)"
      "ring_state (next_works W st0 layer)
        (next_holds (1 \<le> cf_chunks_per_transfer cfg \<and> (\<forall>item \<in> set items. history_ready item st0)) W K
           (batch_next ''independent'' round_id items K) st0 layer) n cuda pin ?m (W layer) A [] v1 s"
      "A = [] \<or> map fst A = [0..<min ?m (length (W layer))]" "0 < ?m" "vf_staging v1 = vf_staging v"
    using queue_take [OF e [unfolded batch_entry_def] w(2)] unfolding W_def K_def by blast
  have run: "stream_history_independent cfg round_id items layer v =
      py_bind (ring_fill (W layer) [0..<min ?m (length (W layer))] A) (\<lambda>transfers.
      py_bind (ring_loop ?m (W layer) (prefetch_next_independent cfg round_id items layer) True [0..<length (W layer)] transfers) (\<lambda>kernels.
      py_bind (if True then prefetch_next_independent cfg round_id items layer None else py_return ()) (\<lambda>_. py_return kernels))) v1"
    using A(5) by (simp add: stream_history_independent_def py_bind_Inr w(1) py_update_def A(1) Let_def)
  have closure: "prefetch_next_independent cfg round_id items layer = (\<lambda>av. py_bind (prepare_next layer (independent_works (cf_chunks_per_transfer cfg) items))
      (\<lambda>_ v. prefetch_next_batched_layer False ''independent'' round_id items av (the (vf_next_prefetch v)) v))"
    by (simp add: fun_eq_iff prefetch_next_independent_def)
  have ok: "\<forall>w \<in> set (W layer). work_ok w" using batch_works_ok by (auto simp: W_def)
  show ?thesis
    unfolding run closure kernels_ok_def
    using batch.ring.ring_layer_ok [OF A(2) [unfolded W_def K_def] A(4) ok [unfolded W_def] A(3) [unfolded W_def], of True]
    unfolding W_def K_def if_True by blast
qed

lemma forward_independent_ok:
  assumes e: "batch_entry n cuda pin cfg round_id items st0 (hs_layer_ids st0 ! i) v s" and i: "i < length (hs_layer_ids st0)"
  shows "\<exists>ks v' s'. forward_independent cfg round_id items (hs_layer_ids st0 ! i) v = (Inr ks, v')
    \<and> kernels_ok (batch_works (nat (cf_chunks_per_transfer cfg)) items (hs_layer_ids st0 ! i) st0) ks s'
    \<and> reaches (staging_init n cuda pin) staging_step s' \<and> sr_pool s' = vf_staging v' \<and> continues UNIV s s'
    \<and> (Suc i < length (hs_layer_ids st0) \<longrightarrow> batch_entry n cuda pin cfg round_id items st0 (hs_layer_ids st0 ! Suc i) v' s')"
proof -
  let ?v0 = "purge_stale_prefetch round_id v" and ?layer = "hs_layer_ids st0 ! i"
  have e0: "batch_entry n cuda pin cfg round_id items st0 ?layer ?v0 s"
    using e unfolding batch_entry_def by (rule queue_entry_purge)
  have en: "distinct (hs_layer_ids st0)" "0 < sp_num_buffers (vf_staging ?v0)"
    using e0 by (auto simp: batch_entry_def queue_entry_def starts_def)
  from stream_independent_ok [OF e0] obtain ks B v' s' where
      k: "stream_history_independent cfg round_id items ?layer ?v0 = (Inr ks, v')"
      "kernels_ok (batch_works (nat (cf_chunks_per_transfer cfg)) items ?layer st0) ks s'"
      "ring_state (next_works (\<lambda>nl. batch_works (nat (cf_chunks_per_transfer cfg)) items nl st0) st0 ?layer)
        (next_holds (1 \<le> cf_chunks_per_transfer cfg \<and> (\<forall>item \<in> set items. history_ready item st0))
           (\<lambda>nl. batch_works (nat (cf_chunks_per_transfer cfg)) items nl st0)
           (\<lambda>nl. queue_keys (nat (cf_chunks_per_transfer cfg)) items nl st0)
           (batch_next ''independent'' round_id items (\<lambda>nl. queue_keys (nat (cf_chunks_per_transfer cfg)) items nl st0)) st0 ?layer)
        n cuda pin (sp_num_buffers (vf_staging ?v0)) (batch_works (nat (cf_chunks_per_transfer cfg)) items ?layer st0) [] B v' s'"
      "continues UNIV s s'"
      "length B = min (sp_num_buffers (vf_staging ?v0))
         (length (next_works (\<lambda>nl. batch_works (nat (cf_chunks_per_transfer cfg)) items nl st0) st0 ?layer))"
    by blast
  have "reaches (staging_init n cuda pin) staging_step s'" "sr_pool s' = vf_staging v'"
    using k(3) by (simp_all add: ring_state_def queued_def backed_def)
  moreover have "batch_entry n cuda pin cfg round_id items st0 (hs_layer_ids st0 ! Suc i) v' s'" if "Suc i < length (hs_layer_ids st0)"
    unfolding batch_entry_def by (rule queue_next [OF k(3) disjI2 [OF k(5)] en(2,1) that])
  ultimately show ?thesis using k(1,2,4) by (auto simp: forward_independent_def py_basic)
qed

interpretation batch_round: layer_pipeline n cuda pin "hs_layer_ids st0" "forward_independent cfg round_id items"
    "batch_entry n cuda pin cfg round_id items st0"
    "\<lambda>layer. kernels_ok (batch_works (nat (cf_chunks_per_transfer cfg)) items layer st0)"
  for n :: int and cuda pin :: bool and cfg :: specstream_config and round_id :: int and items :: "stream_item list"
    and st0 :: "'k history_store"
  by unfold_locales (erule (1) kernels_ok_continues, rule forward_independent_ok)

section \<open>What the kernels read\<close>

text \<open>What a kernel finds in the window it was given.\<close>

definition window_contents :: "'k trace \<Rightarrow> nat list \<Rightarrow> nat \<times> transfer \<Rightarrow> 'k elem option list" where
  "window_contents tr sch k =
     map (\<lambda>c. mem_before tr sch (fst k) (wi_buf (tf_window (snd k)), c)) [0..<tf_count (snd k)]"

lemma launched_contents:
  assumes l: "launched works j k s" and w: "works ! j = ChunkWork ss"
    and r: "reaches (staging_init n cuda pin) staging_step s" and sch: "cuda_schedule (sp_trace (sr_pool s)) sch"
  shows "window_contents (sp_trace (sr_pool s)) sch k = map (Some \<circ> Elem) (group_data ss)"
proof -
  have cnt: "tf_count (snd k) = length (group_data ss)" and rd: "(fst k, Many ss, snd k) \<in> sr_reads s"
    using l w by (auto simp: launched_def fills_work_def work_request_def)
  have "mem_before (sp_trace (sr_pool s)) sch (fst k) (wi_buf (tf_window (snd k)), c) = Some (Elem (group_data ss ! c))"
    if "c < length (group_data ss)" for c
    using that by (intro read_delivered [OF r rd sch]) (auto simp: window_cells_def)
  then show ?thesis by (intro nth_equalityI) (simp_all add: window_contents_def cnt)
qed

lemma kernels_contents:
  assumes "kernels_ok (map ChunkWork sss) ks s" and r: "reaches (staging_init n cuda pin) staging_step s"
    and sch: "cuda_schedule (sp_trace (sr_pool s)) sch"
  shows "concat (map (window_contents (sp_trace (sr_pool s)) sch) ks) = map (Some \<circ> Elem) (concat (map group_data sss))"
proof -
  have len: "length ks = length sss" and k: "\<forall>j < length ks. launched (map ChunkWork sss) j (ks ! j) s"
    using assms(1) by (simp_all add: kernels_ok_def)
  have "window_contents (sp_trace (sr_pool s)) sch (ks ! j) = map (Some \<circ> Elem) (group_data (sss ! j))" if "j < length ks" for j
    using that k len launched_contents [OF k [rule_format, OF that] _ r sch] by simp
  then have "map (window_contents (sp_trace (sr_pool s)) sch) ks = map (map (Some \<circ> Elem) \<circ> group_data) sss"
    by (intro nth_equalityI [of "map _ ks"]) (simp_all add: len)
  then show ?thesis by (simp add: map_concat)
qed


definition fresh_round :: "int \<Rightarrow> 'k stream_verifier \<Rightarrow> bool" where
  "fresh_round round_id v \<longleftrightarrow>
     (\<forall>(key, _) \<in> set (vf_single v). fst key \<noteq> round_id) \<and> (\<forall>(key, _) \<in> set (vf_batched v). fst key \<noteq> round_id)"

lemma fresh_none:
  assumes "fresh_round round_id v"
  shows "fst key = round_id \<Longrightarrow> dget (vf_single v) key = None" "fst key' = round_id \<Longrightarrow> dget (vf_batched v) key' = None"
  using assms by (auto simp: fresh_round_def map_of_eq_None_iff)

lemma fresh_start:
  assumes r: "reaches (staging_init n cuda pin) staging_step s" and p: "sr_pool s = p"
  shows "\<exists>s'. starts n cuda pin works [] p s'"
proof -
  obtain s0 where "backed n cuda pin p [] s0" using run_forget [OF r p, of "[]"] by auto
  moreover have "0 < sp_num_buffers p" using staging.reaches_inv [OF r] p by (simp add: run_ok_def buffers_ok_def)
  ultimately show ?thesis by (auto simp: starts_def pending_def)
qed

text \<open>The keys and values of a request in a layer, as the kernels see them.\<close>

definition history_elems :: "stream_item \<Rightarrow> nat \<Rightarrow> 'k history_store \<Rightarrow> 'k list" where
  "history_elems item off st =
     concat (map (\<lambda>(k, v). [k, v]) (take (nat (si_history_len item)) (contents off st (si_rid item))))"

lemma works_history:
  assumes "history_ready item st" "off < length (hs_layer_ids st)" "0 < sz"
  shows "\<exists>sss. works_of sz item (hs_layer_ids st ! off) st = map ChunkWork sss \<and> concat (map group_data sss) = history_elems item off st"
proof -
  let ?l = "hs_layer_ids st ! off"
  let ?sss = "map (map (chunk_tensor st)) (windows sz (chunks_of item ?l st))"
  have works: "works_of sz item ?l st = map ChunkWork ?sss" by (simp add: works_of_def)
  have "index_of (hs_layer_ids st) ?l = Some off" using assms(1,2) by (intro index_of_nth) (simp_all add: history_ready_def)
  then have "concat (map lc_tensor (chunks_of item ?l st)) = take (nat (si_history_len item)) (contents off st (si_rid item))"
    using iter_ready [OF assms(1)] by blast
  moreover have "concat (map group_data ?sss) = concat (map (\<lambda>(k, v). [k, v]) (concat (map lc_tensor (chunks_of item ?l st))))"
    using works_of_data [OF assms(3), of item ?l st] by (simp add: works o_def)
  ultimately have "concat (map group_data ?sss) = history_elems item off st" by (simp add: history_elems_def)
  then show ?thesis using works by blast
qed

lemma batch_works_history:
  assumes "\<forall>item \<in> set items. history_ready item st" "off < length (hs_layer_ids st)" "0 < sz"
  shows "\<exists>sss. batch_works sz items (hs_layer_ids st ! off) st = map ChunkWork sss
    \<and> concat (map group_data sss) = concat (map (\<lambda>item. history_elems item off st) items)"
  using assms(1)
proof (induction items)
  case (Cons item items)
  obtain sss where "batch_works sz items (hs_layer_ids st ! off) st = map ChunkWork sss"
      "concat (map group_data sss) = concat (map (\<lambda>item. history_elems item off st) items)"
    using Cons by auto
  moreover obtain ts where "works_of sz item (hs_layer_ids st ! off) st = map ChunkWork ts"
      "concat (map group_data ts) = history_elems item off st"
    using works_history [of item st off sz] Cons.prems assms(2,3) by auto
  ultimately show ?case by (intro exI [of _ "ts @ sss"]) (simp add: batch_works_def)
qed (simp add: batch_works_def)

text \<open>What the kernels of all layers read, from what the layers' work lists hold.\<close>

lemma round_contents:
  assumes "\<forall>off < length kss. kernels_ok (W (ids ! off)) (kss ! off) s" "length kss = length ids"
    and "\<forall>off < length ids. \<exists>sss. W (ids ! off) = map ChunkWork sss \<and> concat (map group_data sss) = H off"
    and "reaches (staging_init n cuda pin) staging_step s" "sr_pool s = p"
  shows "\<forall>sch off. cuda_schedule (sp_trace p) sch \<and> off < length kss \<longrightarrow>
    concat (map (window_contents (sp_trace p) sch) (kss ! off)) = map (Some \<circ> Elem) (H off)"
proof (intro allI impI, elim conjE)
  fix sch off
  assume sch: "cuda_schedule (sp_trace p) sch" and off: "off < length kss"
  then obtain sss where w: "W (ids ! off) = map ChunkWork sss" "concat (map group_data sss) = H off"
    using assms(2,3) by auto
  show "concat (map (window_contents (sp_trace p) sch) (kss ! off)) = map (Some \<circ> Elem) (H off)"
    using kernels_contents [OF assms(1) [rule_format, OF off, unfolded w(1)] assms(4)] sch assms(5) w(2) by simp
qed

text \<open>
  C6: A round that streams its requests one by one never raises, be it one request whose next layer is
  prefetched into whatever slots became free, or several without prefetching.  In every
  execution order that the streams and events allow, the attention kernels of each layer find in
  their windows, one after the other, exactly the keys and values that were sealed for the request in
  that layer, up to its history length.
\<close>

theorem layers_read_history:
  assumes "reaches (staging_init n cuda pin) staging_step s" "sr_pool s = vf_staging v"
    "\<forall>item \<in> set items. 0 < si_history_len item \<and> history_ready item (vf_store v)"
    "1 \<le> cf_chunks_per_transfer cfg" "fresh_round round_id v"
  shows "\<exists>ksss v'. over_layers (forward_each cfg round_id items) (hs_layer_ids (vf_store v)) v = (Inr ksss, v')
    \<and> length ksss = length (hs_layer_ids (vf_store v)) \<and> (\<forall>kss \<in> set ksss. length kss = length items)
    \<and> (\<forall>sch off j. cuda_schedule (sp_trace (vf_staging v')) sch \<and> off < length ksss \<and> j < length items \<longrightarrow>
        concat (map (window_contents (sp_trace (vf_staging v')) sch) (ksss ! off ! j))
        = map (Some \<circ> Elem) (history_elems (items ! j) off (vf_store v)))"
proof (cases "hs_layer_ids (vf_store v) = []")
  case True
  then show ?thesis by (simp add: py_basic)
next
  case ids: False
  let ?st = "vf_store v" and ?ids = "hs_layer_ids (vf_store v)"
  obtain s0 where s0: "\<And>works. starts n cuda pin works [] (vf_staging v) s0"
    using fresh_start [OF assms(1,2)] by (auto simp: starts_def pending_def)
  have none: "\<forall>key. fst key = round_id \<longrightarrow> dget (vf_single v) key = None" using fresh_none(1) [OF assms(5)] by blast
  have "each_entry n cuda pin cfg round_id items ?st (?ids ! 0) v s0"
  proof (cases "length items = 1")
    case True
    then obtain item where items: "items = [item]" by (cases items) auto
    have "single_next round_id item (?ids ! 0) [] v" using none by (simp add: single_next_def dget_or_def)
    then have "single_entry n cuda pin cfg round_id item ?st (?ids ! 0) v s0"
      using assms(3,4) ids s0 unfolding single_entry_def items by auto
    then show ?thesis by (simp add: each_entry_def items)
  next
    case False
    then show ?thesis
      using assms(3,4) ids none s0 by (auto simp: each_entry_def plain_entry_def starts_def)
  qed
  from each_round.over_layers_ok [OF this] ids
  obtain ksss v' s' where k: "over_layers (forward_each cfg round_id items) ?ids v = (Inr ksss, v')" "length ksss = length ?ids"
      "\<forall>off < length ksss. each_done cfg items ?st (?ids ! off) (ksss ! off) s'"
      "reaches (staging_init n cuda pin) staging_step s'" "sr_pool s' = vf_staging v'"
    by auto
  have "concat (map (window_contents (sp_trace (vf_staging v')) sch) (ksss ! off ! j)) = map (Some \<circ> Elem) (history_elems (items ! j) off ?st)"
    if sch: "cuda_schedule (sp_trace (vf_staging v')) sch" and off: "off < length ksss" and j: "j < length items" for sch off j
  proof -
    have "0 < layer_group_size cfg" using assms(4) by (simp add: layer_group_size_def)
    then obtain sss where w: "works_of (layer_group_size cfg) (items ! j) (?ids ! off) ?st = map ChunkWork sss"
        "concat (map group_data sss) = history_elems (items ! j) off ?st"
      using works_history [of "items ! j" ?st off] assms(3) off k(2) j by auto
    have "kernels_ok (map ChunkWork sss) (ksss ! off ! j) s'"
      using k(3) off j unfolding each_done_def w(1) [symmetric] by (auto dest: list_all2_nthD)
    from kernels_contents [OF this k(4)] show ?thesis using sch k(5) w(2) by simp
  qed
  moreover have "\<forall>kss \<in> set ksss. length kss = length items"
    using k(3) list_all2_lengthD [of _ items] by (fastforce simp: in_set_conv_nth each_done_def)
  ultimately show ?thesis using k(1,2) by blast
qed

text \<open>
  C7: A round that streams several requests as one work queue per layer never raises either: the
  transfers queued for the next layer are found under its queue's key with the same tasks, the
  slots they occupy are never claimed twice, and in every execution order that the streams and events allow the kernels of
  each layer find, one request after the other, exactly the keys and values sealed for it in that
  layer, up to its history length.
\<close>

theorem batch_layers_read_history:
  assumes "reaches (staging_init n cuda pin) staging_step s" "sr_pool s = vf_staging v"
    "\<forall>item \<in> set items. history_ready item (vf_store v)" "distinct (hs_layer_ids (vf_store v))"
    "1 \<le> cf_chunks_per_transfer cfg" "fresh_round round_id v"
  shows "\<exists>kss v'. over_layers (forward_independent cfg round_id items) (hs_layer_ids (vf_store v)) v = (Inr kss, v')
    \<and> length kss = length (hs_layer_ids (vf_store v))
    \<and> (\<forall>sch off. cuda_schedule (sp_trace (vf_staging v')) sch \<and> off < length kss \<longrightarrow>
        concat (map (window_contents (sp_trace (vf_staging v')) sch) (kss ! off))
        = map (Some \<circ> Elem) (concat (map (\<lambda>item. history_elems item off (vf_store v)) items)))"
proof (cases "hs_layer_ids (vf_store v) = []")
  case True
  then show ?thesis by (simp add: py_basic)
next
  case ids: False
  let ?st = "vf_store v" and ?ids = "hs_layer_ids (vf_store v)" and ?sz = "nat (cf_chunks_per_transfer cfg)"
  obtain s0 where s0: "starts n cuda pin (batch_works ?sz items (?ids ! 0) ?st) [] (vf_staging v) s0"
    using fresh_start [OF assms(1,2)] by blast
  moreover have "batch_next ''independent'' round_id items (\<lambda>nl. queue_keys ?sz items nl ?st) (?ids ! 0) [] v"
    using fresh_none(2) [OF assms(6)] by (simp add: batch_next_def cached_transfers_def batched_prefetch_key_def)
  ultimately have "batch_entry n cuda pin cfg round_id items ?st (?ids ! 0) v s0"
    using assms(3-5) ids by (auto simp: batch_entry_def queue_entry_def)
  from batch_round.over_layers_ok [OF this] ids
  obtain kss v' s' where k: "over_layers (forward_independent cfg round_id items) ?ids v = (Inr kss, v')" "length kss = length ?ids"
      "\<forall>off < length kss. kernels_ok (batch_works ?sz items (?ids ! off) ?st) (kss ! off) s'"
      "reaches (staging_init n cuda pin) staging_step s'" "sr_pool s' = vf_staging v'"
    by auto
  have "\<forall>off < length ?ids. \<exists>sss. batch_works ?sz items (?ids ! off) ?st = map ChunkWork sss
      \<and> concat (map group_data sss) = concat (map (\<lambda>item. history_elems item off ?st) items)"
    using batch_works_history [OF assms(3), of _ ?sz] assms(5) by simp
  from round_contents [OF k(3,2) this k(4,5)] show ?thesis using k(1,2) by blast
qed

text \<open>Two requests with sealed history, and a verifier about to stream them.\<close>

definition demo_base :: "int history_store" where
  "demo_base = ex_store\<lparr>hs_max_memory_bytes := 600\<rparr>"

definition demo_first :: "int history_store" where
  "demo_first = snd (seal_slots_async ex_env ex_pool True ''r'' 0 [5, 6, 7] demo_base)"

definition demo_store :: "int history_store" where
  "demo_store = snd (seal_slots_async ex_env ex_pool True ''s'' 0 [3, 4] demo_first)"

definition demo_verifier :: "int stream_verifier" where
  "demo_verifier = \<lparr> vf_store = demo_store, vf_staging = projr (staging_new 2 True True), vf_single = [], vf_batched = [],
     vf_next_prefetch = None \<rparr>"

lemma demo_base_init: "store_init demo_base"
  unfolding store_init_def
  by (rule exI [of _ ex_env], rule exI [of _ 600], rule exI [of _ 2], rule exI [of _ "[0, 1]"],
      rule exI [of _ 1], rule exI [of _ 4], rule exI [of _ 2], rule exI [of _ True])
     (simp add: history_new_def demo_base_def ex_env_def ex_store_def)

lemma demo_log:
  assumes "off < 2"
  shows "log_ok off demo_store" "contents off demo_store ''r'' = pool_rows ex_pool (int off) [5, 6, 7]"
    "contents off demo_store ''s'' = pool_rows ex_pool (int off) [3, 4]"
proof -
  have off: "off < length (hs_layer_ids demo_base)" and ids: "hs_layer_ids demo_base ! off = int off"
    using assms by (auto simp: demo_base_def ex_store_def less_Suc_eq numeral_2_eq_2)
  have init: "log_ok off demo_base" "contents off demo_base = (\<lambda>_. [])" using log_ok_init [OF demo_base_init off] by auto
  obtain t where r: "seal_slots_async ex_env ex_pool True ''r'' 0 [5, 6, 7] demo_base = (Inr t, demo_first)"
    by (simp add: demo_first_def demo_base_def ex_simps)
  obtain u where u: "seal_slots_async ex_env ex_pool True ''s'' 0 [3, 4] demo_first = (Inr u, demo_store)"
    by (simp add: demo_store_def demo_first_def demo_base_def ex_simps)
  have ids': "hs_layer_ids demo_first ! off = int off"
    using ids by (simp add: demo_first_def demo_base_def ex_simps)
  have st: "log_ok off demo_first" "contents off demo_first = (contents off demo_base)(''r'' := pool_rows ex_pool (int off) [5, 6, 7])"
    using log_ok_seal [OF init(1), of ex_env ex_pool True "''r''" "[5, 6, 7]" t demo_first] r init(2) ids by simp_all
  show "log_ok off demo_store" "contents off demo_store ''r'' = pool_rows ex_pool (int off) [5, 6, 7]"
      "contents off demo_store ''s'' = pool_rows ex_pool (int off) [3, 4]"
    using log_ok_seal [OF st(1), of ex_env ex_pool True "''s''" "[3, 4]" u demo_store] u st(2) init(2) ids' by simp_all
qed

lemma demo_ids: "hs_layer_ids demo_store = [0, 1]"
  by (simp add: demo_store_def demo_first_def demo_base_def ex_simps)

lemma demo_contents:
  "contents 0 demo_store ''r'' = [(5, - 5), (6, - 6), (7, - 7)]" "contents (Suc 0) demo_store ''r'' = [(105, - 105), (106, - 106), (107, - 107)]"
  "contents 0 demo_store ''s'' = [(3, - 3), (4, - 4)]" "contents (Suc 0) demo_store ''s'' = [(103, - 103), (104, - 104)]"
  using demo_log [of 0] demo_log [of 1] by (simp_all add: pool_rows_def ex_pool_def)

lemma demo_history:
  "history_ready \<lparr> si_rid = ''r'', si_history_len = 3 \<rparr> demo_store" "history_ready \<lparr> si_rid = ''s'', si_history_len = 2 \<rparr> demo_store"
  using demo_log(1) demo_contents by (auto simp: history_ready_def demo_ids less_Suc_eq numeral_2_eq_2)

lemma demo_staging_run:
  "reaches (staging_init 2 True True) staging_step \<lparr> sr_pool = vf_staging demo_verifier, sr_live = {}, sr_reads = {} \<rparr>"
  by (rule reaches_init) (simp add: staging_init_def demo_verifier_def staging_new_def Let_def)

lemma demo_fresh: "vf_store demo_verifier = demo_store" "fresh_round round_id demo_verifier"
  by (simp_all add: demo_verifier_def fresh_round_def)

theorem layers_read_history_witness:
  "\<exists>ksss v'. over_layers (forward_each (config_defaults\<lparr>cf_reference_attention := False, cf_chunks_per_transfer := 1\<rparr>) 7
      [\<lparr> si_rid = ''r'', si_history_len = 3 \<rparr>]) [0, 1] demo_verifier = (Inr ksss, v')
    \<and> concat (map (window_contents (sp_trace (vf_staging v')) [0..<length (sp_trace (vf_staging v'))]) (ksss ! 1 ! 0))
      = map (Some \<circ> Elem) [105, - 105, 106, - 106, 107, - 107]"
proof -
  let ?cfg = "config_defaults\<lparr>cf_reference_attention := False, cf_chunks_per_transfer := 1\<rparr>"
    and ?item = "\<lparr> si_rid = ''r'', si_history_len = 3 \<rparr>"
  obtain ksss v' where k: "over_layers (forward_each ?cfg 7 [?item]) [0, 1] demo_verifier = (Inr ksss, v')" "length ksss = 2"
      "\<forall>sch off j. cuda_schedule (sp_trace (vf_staging v')) sch \<and> off < length ksss \<and> j < length [?item] \<longrightarrow>
        concat (map (window_contents (sp_trace (vf_staging v')) sch) (ksss ! off ! j))
        = map (Some \<circ> Elem) (history_elems ([?item] ! j) off demo_store)"
    using layers_read_history [OF demo_staging_run, of demo_verifier "[?item]" ?cfg 7] demo_history(1)
    unfolding demo_fresh(1) demo_ids by (auto simp: demo_fresh)
  have "history_elems ?item 1 demo_store = [105, - 105, 106, - 106, 107, - 107]" by (simp add: history_elems_def demo_contents)
  then show ?thesis
    using k(1) k(3) [rule_format, OF conjI, OF issue_order_schedule, of 1 0] k(2) by auto
qed

theorem batch_layers_read_history_witness:
  "\<exists>kss v'. over_layers (forward_independent (config_defaults\<lparr>cf_chunks_per_transfer := 1\<rparr>) 7
      [\<lparr> si_rid = ''r'', si_history_len = 3 \<rparr>, \<lparr> si_rid = ''s'', si_history_len = 2 \<rparr>]) [0, 1] demo_verifier = (Inr kss, v')
    \<and> concat (map (window_contents (sp_trace (vf_staging v')) [0..<length (sp_trace (vf_staging v'))]) (kss ! 1))
      = map (Some \<circ> Elem) [105, - 105, 106, - 106, 107, - 107, 103, - 103, 104, - 104]"
proof -
  let ?cfg = "config_defaults\<lparr>cf_chunks_per_transfer := 1\<rparr>"
    and ?items = "[\<lparr> si_rid = ''r'', si_history_len = 3 \<rparr>, \<lparr> si_rid = ''s'', si_history_len = 2 \<rparr>]"
  obtain kss v' where k: "over_layers (forward_independent ?cfg 7 ?items) [0, 1] demo_verifier = (Inr kss, v')" "length kss = 2"
      "\<forall>sch off. cuda_schedule (sp_trace (vf_staging v')) sch \<and> off < length kss \<longrightarrow>
        concat (map (window_contents (sp_trace (vf_staging v')) sch) (kss ! off))
        = map (Some \<circ> Elem) (concat (map (\<lambda>item. history_elems item off demo_store) ?items))"
    using batch_layers_read_history [OF demo_staging_run, of demo_verifier ?items ?cfg 7] demo_history
    by (auto simp: demo_fresh demo_ids)
  have "concat (map (\<lambda>item. history_elems item 1 demo_store) ?items) = [105, - 105, 106, - 106, 107, - 107, 103, - 103, 104, - 104]"
    by (simp add: history_elems_def demo_contents)
  then show ?thesis
    using k(1) k(3) [rule_format, OF conjI, OF issue_order_schedule, of 1] k(2) by auto
qed

end
