(* ===== verification/CohortScheduler.thy ===== *)
theory CohortScheduler
  imports Prelude
begin

text \<open>
  The grouping of history transfers of several requests into packed cohorts
  (\<open>specstream/cohort_scheduler.py\<close>): work items whose deadline has passed go first and alone,
  the others are bucketed by a compatibility key and cut into groups of bounded size; plans are
  numbered round-robin over the staging slots.  The theorem is that the plans are a partition of
  the work items with these properties, and that a plan list is always returned.
\<close>

section \<open>Work items, keys and plans\<close>

text \<open>What the code reads of a host tensor, and the three forms the CPU descriptor takes.\<close>

record host_tensor =
  ht_dtype :: string
  ht_shape :: "nat list"

datatype cpu_descriptor = NoDescriptor | OneDescriptor host_tensor | Descriptors "host_tensor option list"

record work_item =
  w_rid :: string
  w_round_id :: int
  w_layer_id :: int
  w_q_len :: int
  w_chunk_idx :: int
  w_token_begin :: int
  w_token_end :: int
  w_bytes :: int
  w_deadline_ns :: int
  w_descriptor :: cpu_descriptor

definition token_count :: "work_item \<Rightarrow> int" where
  "token_count item = w_token_end item - w_token_begin item"

record cohort_key =
  k_layer_id :: int
  k_q_bucket :: int
  k_dtype :: string
  k_head_dim :: nat
  k_local_kv_heads :: nat
  k_chunk_tokens :: nat

record cohort_plan =
  c_key :: cohort_key
  c_items :: "work_item list"
  c_packed_bytes :: int
  c_staging_slot :: nat

definition descriptors_of :: "cpu_descriptor \<Rightarrow> host_tensor option list" where
  "descriptors_of d =
     (case d of NoDescriptor \<Rightarrow> [None] | OneDescriptor t \<Rightarrow> [Some t] | Descriptors ts \<Rightarrow> ts)"

text \<open>\<open>d.tensor\<close>, and \<open>shape[-i]\<close> for a positive \<open>i\<close>.\<close>

definition tensor_attr :: "host_tensor option \<Rightarrow> host_tensor res" where
  "tensor_attr d = (case d of None \<Rightarrow> Inl AttributeError | Some t \<Rightarrow> Inr t)"

definition shape_from_end :: "nat \<Rightarrow> nat list \<Rightarrow> nat res" where
  "shape_from_end i sh = (if i \<le> length sh then Inr (sh ! (length sh - i)) else Inl IndexError)"

definition first_dim :: "host_tensor option \<Rightarrow> nat res" where
  "first_dim d = rbind (tensor_attr d)
     (\<lambda>t. case ht_shape t of [] \<Rightarrow> Inl IndexError | n # _ \<Rightarrow> Inr n)"

definition compatibility_key :: "work_item \<Rightarrow> cohort_key res" where
  "compatibility_key item =
     (let descriptors = descriptors_of (w_descriptor item) in
      case descriptors of [] \<Rightarrow> Inl ValueError
      | d # _ \<Rightarrow>
          rbind (tensor_attr d) (\<lambda>first_tensor.
          rbind (shape_from_end 1 (ht_shape first_tensor)) (\<lambda>head_dim.
          rbind (shape_from_end 2 (ht_shape first_tensor)) (\<lambda>kv_heads.
          rbind (rmap first_dim descriptors) (\<lambda>ns.
          Inr \<lparr> k_layer_id = w_layer_id item, k_q_bucket = w_q_len item,
                k_dtype = ht_dtype first_tensor, k_head_dim = head_dim,
                k_local_kv_heads = kv_heads, k_chunk_tokens = sum_list ns \<rparr>)))))"

section \<open>Building the plans\<close>

text \<open>The loop over the work items: expired items, and a dictionary of buckets.\<close>

definition classify ::
  "int \<Rightarrow> work_item list \<times> (cohort_key, work_item list) dict \<Rightarrow> work_item
   \<Rightarrow> (work_item list \<times> (cohort_key, work_item list) dict) res" where
  "classify now_ns st item =
     (case st of (immediate, buckets) \<Rightarrow>
        if w_deadline_ns item \<le> now_ns then Inr (immediate @ [item], buckets)
        else rbind (compatibility_key item)
          (\<lambda>key. Inr (immediate, dset key (dget_or buckets key [] @ [item]) buckets)))"

definition emit_plan ::
  "nat \<Rightarrow> cohort_key \<Rightarrow> work_item list \<Rightarrow> int \<Rightarrow> cohort_plan list \<times> nat \<Rightarrow> cohort_plan list \<times> nat" where
  "emit_plan slots key items packed st =
     (case st of (plans, slot) \<Rightarrow>
        (plans @ [\<lparr> c_key = key, c_items = items, c_packed_bytes = packed, c_staging_slot = slot mod slots \<rparr>],
         Suc slot))"

definition urgency :: "work_item \<Rightarrow> int \<times> int" where
  "urgency item = (w_deadline_ns item, w_bytes item)"

definition key_order :: "cohort_key \<Rightarrow> int \<times> int \<times> string \<times> nat \<times> nat \<times> nat" where
  "key_order key = (k_layer_id key, k_q_bucket key, k_dtype key, k_head_dim key, k_local_kv_heads key,
     k_chunk_tokens key)"

definition emit_immediate ::
  "nat \<Rightarrow> cohort_plan list \<times> nat \<Rightarrow> work_item \<Rightarrow> (cohort_plan list \<times> nat) res" where
  "emit_immediate slots st item =
     rbind (compatibility_key item) (\<lambda>key. Inr (emit_plan slots key [item] (w_bytes item) st))"

definition emit_bucket ::
  "nat \<Rightarrow> nat \<Rightarrow> cohort_key \<times> work_item list \<Rightarrow> cohort_plan list \<times> nat \<Rightarrow> cohort_plan list \<times> nat" where
  "emit_bucket max_size slots bucket st =
     fold (\<lambda>group. emit_plan slots (fst bucket) group (sum_list (map w_bytes group)))
       (windows max_size (sort_key urgency (snd bucket))) st"

definition build_cohort_plans ::
  "work_item list \<Rightarrow> int \<Rightarrow> int \<Rightarrow> real \<Rightarrow> int \<Rightarrow> cohort_plan list res" where
  "build_cohort_plans work_items max_cohort_size num_staging_slots max_cohort_delay_us now_ns =
     rbind (raise_first
       [(max_cohort_size < 1 \<or> num_staging_slots < 1, ValueError),
        (max_cohort_delay_us < 0, ValueError)]) (\<lambda>_.
     rbind (rfold (classify now_ns) ([], []) work_items) (\<lambda>(immediate, buckets).
     rbind (rfold (emit_immediate (nat num_staging_slots)) ([], 0) (sort_key urgency immediate)) (\<lambda>st.
     Inr (fst (fold (emit_bucket (nat max_cohort_size) (nat num_staging_slots))
                 (sort_key (\<lambda>b. key_order (fst b)) buckets) st)))))"

section \<open>The plans as a numbered list of jobs\<close>

text \<open>A job is a group of items with its key; the plans are the jobs numbered over the slots.\<close>

definition plan_of :: "nat \<Rightarrow> nat \<Rightarrow> cohort_key \<times> work_item list \<Rightarrow> cohort_plan" where
  "plan_of slots i job = \<lparr> c_key = fst job, c_items = snd job,
     c_packed_bytes = sum_list (map w_bytes (snd job)), c_staging_slot = i mod slots \<rparr>"

definition number_jobs :: "nat \<Rightarrow> nat \<Rightarrow> (cohort_key \<times> work_item list) list \<Rightarrow> cohort_plan list" where
  "number_jobs slots n jobs = map (\<lambda>(i, job). plan_of slots i job) (enumerate n jobs)"

lemma number_jobs_simps [simp]:
  "number_jobs slots n [] = []"
  "number_jobs slots n (j # js) = plan_of slots n j # number_jobs slots (Suc n) js"
  by (simp_all add: number_jobs_def)

lemma length_number_jobs [simp]: "length (number_jobs slots n js) = length js"
  by (simp add: number_jobs_def)

lemma nth_number_jobs: "i < length js \<Longrightarrow> number_jobs slots n js ! i = plan_of slots (n + i) (js ! i)"
  by (simp add: number_jobs_def nth_enumerate_eq)

lemma number_jobs_append:
  "number_jobs slots n (xs @ ys) = number_jobs slots n xs @ number_jobs slots (n + length xs) ys"
  by (induction xs arbitrary: n) simp_all

lemma items_number_jobs: "concat (map c_items (number_jobs slots n js)) = concat (map snd js)"
  by (induction js arbitrary: n) (simp_all add: plan_of_def)

lemma emit_plan_job:
  "packed = sum_list (map w_bytes g) \<Longrightarrow>
   emit_plan slots k g packed (plans, n) = (plans @ [plan_of slots n (k, g)], Suc n)"
  by (simp add: emit_plan_def plan_of_def)

lemma fold_emit:
  "fold (\<lambda>g. emit_plan slots k g (sum_list (map w_bytes g))) gs (plans, n)
     = (plans @ number_jobs slots n (map (Pair k) gs), n + length gs)"
  by (induction gs arbitrary: plans n) (simp_all add: emit_plan_job)

definition bucket_jobs :: "nat \<Rightarrow> cohort_key \<times> work_item list \<Rightarrow> (cohort_key \<times> work_item list) list" where
  "bucket_jobs max_size b = map (Pair (fst b)) (windows max_size (sort_key urgency (snd b)))"

lemma fold_emit_bucket:
  "fold (emit_bucket max_size slots) bs (plans, n)
     = (plans @ number_jobs slots n (concat (map (bucket_jobs max_size) bs)),
        n + length (concat (map (bucket_jobs max_size) bs)))"
  by (induction bs arbitrary: plans n)
    (simp_all add: emit_bucket_def fold_emit bucket_jobs_def number_jobs_append add.assoc)

lemma rfold_emit_immediate:
  "rmap compatibility_key items = Inr keys \<Longrightarrow>
   rfold (emit_immediate slots) (plans, n) items
     = Inr (plans @ number_jobs slots n (zip keys (map (\<lambda>x. [x]) items)), n + length items)"
  by (induction items arbitrary: plans n keys)
    (auto simp: emit_immediate_def emit_plan_job res_simps)

section \<open>The classification\<close>

text \<open>Every item is in the list of expired items or in the bucket of its key.\<close>

definition buckets_ok :: "work_item list \<Rightarrow> (cohort_key, work_item list) dict \<Rightarrow> bool" where
  "buckets_ok live buckets \<longleftrightarrow>
     dict_ok buckets \<and> mset (concat (map snd buckets)) = mset live
   \<and> (\<forall>k items. dget buckets k = Some items \<longrightarrow> (\<forall>x \<in> set items. compatibility_key x = Inr k))"

lemma bucket_append_mset:
  "dict_ok d \<Longrightarrow> mset (concat (map snd (dset k (dget_or d k [] @ [x]) d))) = add_mset x (mset (concat (map snd d)))"
proof (induction d)
  case (Cons e d)
  then show ?case
    by (cases e) (auto simp: dget_or_def)
qed (simp add: dget_or_def)

lemma classify_ok:
  assumes "\<forall>x \<in> set items. \<exists>k. compatibility_key x = Inr k"
  shows "\<exists>buckets. rfold (classify now_ns) ([], []) items
      = Inr (filter (\<lambda>x. w_deadline_ns x \<le> now_ns) items, buckets)
    \<and> buckets_ok (filter (\<lambda>x. \<not> w_deadline_ns x \<le> now_ns) items) buckets"
  using assms
proof (induction items rule: rev_induct)
  case Nil
  then show ?case by (simp add: buckets_ok_def)
next
  case (snoc x items)
  then obtain buckets k where run: "rfold (classify now_ns) ([], []) items
      = Inr (filter (\<lambda>x. w_deadline_ns x \<le> now_ns) items, buckets)"
    and ok: "buckets_ok (filter (\<lambda>x. \<not> w_deadline_ns x \<le> now_ns) items) buckets"
    and k: "compatibility_key x = Inr k"
    by auto
  have "buckets_ok (live @ [x]) (dset k (dget_or buckets k [] @ [x]) buckets)"
    if "buckets_ok live buckets" for live
    using that k bucket_append_mset [of buckets k x]
    by (auto simp: buckets_ok_def dget_or_def split: option.splits)
  with ok show ?case
    by (simp add: rfold_append run) (simp add: classify_def k)
qed

section \<open>Every job is well formed\<close>

definition job_ok :: "nat \<Rightarrow> cohort_key \<times> work_item list \<Rightarrow> bool" where
  "job_ok max_size job \<longleftrightarrow> snd job \<noteq> [] \<and> length (snd job) \<le> max_size \<and> sorted (map urgency (snd job))
     \<and> (\<forall>x \<in> set (snd job). compatibility_key x = Inr (fst job))"

lemma windows_sorted:
  "ys \<in> set (windows n xs) \<Longrightarrow> sorted (map f xs) \<Longrightarrow> sorted (map f ys) \<and> set ys \<subseteq> set xs"
proof (induction n xs rule: windows.induct)
  case (1 n xs)
  note IH = 1(1) and sorted = 1(3)
  consider (first) "ys = take n xs" | (rest) "ys \<in> set (windows n (drop n xs))" "\<not> (n = 0 \<or> xs = [])"
    using 1(2) by (auto simp: windows.simps [of n xs] split: if_splits)
  then show ?case
  proof cases
    case first
    then show ?thesis
      using sorted by (auto simp: sorted_wrt_take simp flip: take_map dest: in_set_takeD)
  next
    case rest
    have "sorted (map f (drop n xs))"
      using sorted by (simp add: sorted_wrt_drop flip: drop_map)
    with IH [OF rest(2,1)] show ?thesis
      using set_drop_subset by fast
  qed
qed

lemma bucket_jobs_ok:
  assumes "\<forall>x \<in> set (snd b). compatibility_key x = Inr (fst b)" and "job \<in> set (bucket_jobs n b)"
  shows "job_ok n job \<and> set (snd job) \<subseteq> set (snd b)"
  using assms windows_bounded [of "snd job" n "sort_key urgency (snd b)"]
    windows_sorted [of "snd job" n "sort_key urgency (snd b)" urgency]
  by (auto simp: job_ok_def bucket_jobs_def subset_iff)

lemma bucket_jobs_items: "0 < n \<Longrightarrow> concat (map snd (bucket_jobs n b)) = sort_key urgency (snd b)"
  by (simp add: bucket_jobs_def comp_def concat_windows)

lemma mset_all_buckets:
  "0 < n \<Longrightarrow> mset (concat (map snd (concat (map (bucket_jobs n) bs)))) = mset (concat (map snd bs))"
  by (induction bs) (simp_all add: bucket_jobs_items)

lemma mset_concat_sort_key: "mset (concat (map snd (sort_key f bs))) = mset (concat (map snd bs))"
  by (simp add: mset_concat flip: sum_mset_sum_list)

lemma rmap_keys:
  "\<forall>x \<in> set items. \<exists>k. compatibility_key x = Inr k \<Longrightarrow>
   \<exists>keys. rmap compatibility_key items = Inr keys \<and> length keys = length items
     \<and> (\<forall>i<length items. compatibility_key (items ! i) = Inr (keys ! i))"
proof (induction items)
  case (Cons x items)
  then obtain k keys where "compatibility_key x = Inr k" "rmap compatibility_key items = Inr keys"
    "length keys = length items" "\<forall>i<length items. compatibility_key (items ! i) = Inr (keys ! i)"
    by auto
  then show ?case
    by (auto simp: nth_Cons split: nat.splits)
qed simp

definition expired_items :: "int \<Rightarrow> work_item list \<Rightarrow> work_item list" where
  "expired_items now_ns items = filter (\<lambda>x. w_deadline_ns x \<le> now_ns) items"

lemma plans_partition:
  assumes "1 \<le> max_cohort_size" "1 \<le> num_staging_slots" "0 \<le> max_cohort_delay_us"
    and keys: "\<forall>x \<in> set items. \<exists>k. compatibility_key x = Inr k"
  shows "\<exists>plans. build_cohort_plans items max_cohort_size num_staging_slots max_cohort_delay_us now_ns = Inr plans
    \<and> mset (concat (map c_items plans)) = mset items
    \<and> (\<forall>i<length plans. job_ok (nat max_cohort_size) (c_key (plans ! i), c_items (plans ! i))
         \<and> c_packed_bytes (plans ! i) = sum_list (map w_bytes (c_items (plans ! i)))
         \<and> c_staging_slot (plans ! i) = i mod nat num_staging_slots)
    \<and> map c_items (take (length (expired_items now_ns items)) plans) = map (\<lambda>x. [x]) (sort_key urgency (expired_items now_ns items))
    \<and> (\<forall>p \<in> set (drop (length (expired_items now_ns items)) plans). \<forall>x \<in> set (c_items p). now_ns < w_deadline_ns x)"
proof -
  let ?n = "nat max_cohort_size" and ?slots = "nat num_staging_slots"
  define expired where "expired = expired_items now_ns items"
  let ?live = "filter (\<lambda>x. \<not> w_deadline_ns x \<le> now_ns) items"
  have n: "0 < ?n" using assms by simp
  obtain buckets where run: "rfold (classify now_ns) ([], []) items = Inr (expired, buckets)"
    and ok: "buckets_ok ?live buckets"
    using classify_ok [OF keys] unfolding expired_def expired_items_def by blast
  have "\<forall>x \<in> set (sort_key urgency expired). \<exists>k. compatibility_key x = Inr k"
    using keys by (simp add: expired_def expired_items_def)
  then obtain ks where ks: "rmap compatibility_key (sort_key urgency expired) = Inr ks" "length ks = length expired"
      "\<forall>i<length expired. compatibility_key (sort_key urgency expired ! i) = Inr (ks ! i)"
    using rmap_keys [of "sort_key urgency expired"] by auto
  define early where "early = zip ks (map (\<lambda>x. [x]) (sort_key urgency expired))"
  define late where "late = concat (map (bucket_jobs ?n) (sort_key (\<lambda>b. key_order (fst b)) buckets))"
  define plans where "plans = number_jobs ?slots 0 (early @ late)"
  have early: "length early = length expired" "map snd early = map (\<lambda>x. [x]) (sort_key urgency expired)"
    using ks(2) by (simp_all add: early_def)
  have build: "build_cohort_plans items max_cohort_size num_staging_slots max_cohort_delay_us now_ns = Inr plans"
    using assms(1-3)
    by (simp add: build_cohort_plans_def run rfold_emit_immediate [OF ks(1)] fold_emit_bucket plans_def
        number_jobs_append ks(2) flip: early_def late_def) (simp add: early)
  have late_ok: "job_ok ?n job \<and> set (snd job) \<subseteq> set ?live" if "job \<in> set late" for job
  proof -
    obtain k xs where b: "(k, xs) \<in> set buckets" "job \<in> set (bucket_jobs ?n (k, xs))"
      using \<open>job \<in> set late\<close> by (auto simp: late_def)
    then have "\<forall>x \<in> set xs. compatibility_key x = Inr k"
      using ok by (auto simp: buckets_ok_def dget_iff)
    moreover have "set xs \<subseteq> set (concat (map snd buckets))"
      using b(1) by force
    moreover have "set (concat (map snd buckets)) = set ?live"
      using ok unfolding buckets_ok_def by (metis set_mset_mset)
    ultimately show ?thesis
      using bucket_jobs_ok [of "(k, xs)" job ?n] b(2) by auto
  qed
  have early_ok: "job_ok ?n job" if "job \<in> set early" for job
  proof -
    obtain i where "i < length expired" "job = (ks ! i, [sort_key urgency expired ! i])"
      using \<open>job \<in> set early\<close> ks(2) unfolding early_def set_zip by auto
    then show ?thesis
      using ks(3) n by (simp add: job_ok_def)
  qed
  have "mset (concat (map c_items plans)) = mset items"
    using ok n early
    by (simp add: plans_def items_number_jobs late_def mset_all_buckets mset_concat_sort_key buckets_ok_def
        expired_def expired_items_def)
  moreover have "job_ok ?n (c_key (plans ! i), c_items (plans ! i))
         \<and> c_packed_bytes (plans ! i) = sum_list (map w_bytes (c_items (plans ! i)))
         \<and> c_staging_slot (plans ! i) = i mod ?slots" if "i < length plans" for i
  proof -
    have "(early @ late) ! i \<in> set early \<union> set late"
      using that nth_mem [of i "early @ late"] by (simp add: plans_def)
    then have "job_ok ?n ((early @ late) ! i)"
      using early_ok late_ok by blast
    then show ?thesis
      using that by (simp add: plans_def nth_number_jobs) (simp add: plan_of_def)
  qed
  moreover have "map c_items (number_jobs ?slots m js) = map snd js" for m js
    by (induction js arbitrary: m) (simp_all add: plan_of_def)
  then have "map c_items (take (length expired) plans) = map (\<lambda>x. [x]) (sort_key urgency expired)"
    and "map c_items (drop (length expired) plans) = map snd late"
    by (simp_all add: plans_def number_jobs_append early)
  moreover have "\<forall>p \<in> set (drop (length expired) plans). \<forall>x \<in> set (c_items p). now_ns < w_deadline_ns x"
  proof (intro ballI)
    fix p x assume p: "p \<in> set (drop (length expired) plans)" "x \<in> set (c_items p)"
    then have "c_items p \<in> set (map snd late)"
      by (simp flip: \<open>map c_items (drop (length expired) plans) = map snd late\<close>)
    then show "now_ns < w_deadline_ns x"
      using late_ok p(2) by fastforce
  qed
  ultimately show ?thesis
    using build unfolding expired_def by blast
qed

section \<open>Plans at another time\<close>

text \<open>
  When all items have one deadline that has not passed, the plans depend on the deadline only in
  the deadlines of their items: building them again later groups the same requests.
\<close>

definition with_deadline :: "int \<Rightarrow> work_item \<Rightarrow> work_item" where
  "with_deadline d x = x\<lparr>w_deadline_ns := d\<rparr>"

definition plan_deadline :: "int \<Rightarrow> cohort_plan \<Rightarrow> cohort_plan" where
  "plan_deadline d p = p\<lparr>c_items := map (with_deadline d) (c_items p)\<rparr>"

definition buckets_deadline :: "int \<Rightarrow> (cohort_key, work_item list) dict \<Rightarrow> (cohort_key, work_item list) dict" where
  "buckets_deadline d bs = map (\<lambda>(k, xs). (k, map (with_deadline d) xs)) bs"

definition add_to_bucket :: "(cohort_key, work_item list) dict \<Rightarrow> work_item \<Rightarrow> (cohort_key, work_item list) dict res" where
  "add_to_bucket bs x = rbind (compatibility_key x) (\<lambda>k. Inr (dset k (dget_or bs k [] @ [x]) bs))"

definition size_jobs :: "nat \<Rightarrow> cohort_key \<times> work_item list \<Rightarrow> (cohort_key \<times> work_item list) list" where
  "size_jobs n b = map (Pair (fst b)) (windows n (sort_key w_bytes (snd b)))"

lemma with_deadline_simps [simp]:
  "compatibility_key (with_deadline d x) = compatibility_key x" "w_bytes (with_deadline d x) = w_bytes x"
  "urgency (with_deadline d x) = (d, w_bytes x)" "w_rid (with_deadline d x) = w_rid x" "w_deadline_ns (with_deadline d x) = d"
  by (simp_all add: with_deadline_def compatibility_key_def urgency_def Let_def split: list.split)

lemma buckets_deadline_dset:
  "dset k (map (with_deadline d) xs) (buckets_deadline d bs) = buckets_deadline d (dset k xs bs)"
  by (induction bs) (auto simp: buckets_deadline_def)

lemma buckets_deadline_dget: "dget_or (buckets_deadline d bs) k [] = map (with_deadline d) (dget_or bs k [])"
  by (induction bs) (auto simp: buckets_deadline_def dget_or_def)

lemma classify_deadline:
  "rfold (classify (d - 1)) ([], buckets_deadline d bs) (map (with_deadline d) xs)
     = map_sum id (\<lambda>bs. ([], buckets_deadline d bs)) (rfold add_to_bucket bs xs)"
proof (induction xs arbitrary: bs)
  case (Cons x xs)
  have "dset k (dget_or (buckets_deadline d bs) k [] @ [with_deadline d x]) (buckets_deadline d bs)
      = buckets_deadline d (dset k (dget_or bs k [] @ [x]) bs)" for k
    by (simp add: buckets_deadline_dget flip: buckets_deadline_dset)
  then show ?case
    using Cons by (cases "compatibility_key x") (simp_all add: classify_def add_to_bucket_def)
qed simp

lemma sort_key_map: "sort_key f (map g xs) = map g (sort_key (f \<circ> g) xs)"
proof (induction xs)
  case (Cons x xs)
  have "insort_key f (g x) (map g ys) = map g (insort_key (f \<circ> g) x ys)" for ys by (induction ys) simp_all
  then show ?case using Cons by (simp add: o_def)
qed simp

lemma sort_key_pair: "sort_key (\<lambda>x. (d :: int, f x :: int)) xs = sort_key f xs"
proof (induction xs)
  case (Cons x xs)
  have "insort_key (\<lambda>x. (d, f x)) x ys = insort_key f x ys" for ys by (induction ys) simp_all
  then show ?case using Cons by simp
qed simp

lemma windows_map: "windows n (map f xs) = map (map f) (windows n xs)"
proof (induction n xs rule: windows.induct)
  case (1 n xs)
  then show ?case
    by (cases "n = 0 \<or> xs = []")
      (simp_all add: windows.simps [of n "map f xs"] windows.simps [of n xs] take_map drop_map)
qed

lemma bucket_jobs_deadline:
  "bucket_jobs n (k, map (with_deadline d) xs) = map (map_prod id (map (with_deadline d))) (size_jobs n (k, xs))"
proof -
  have "urgency \<circ> with_deadline d = (\<lambda>x. (d, w_bytes x))" by (simp add: fun_eq_iff)
  then show ?thesis by (simp add: bucket_jobs_def size_jobs_def sort_key_map sort_key_pair windows_map)
qed

lemma number_jobs_deadline:
  "number_jobs slots i (map (map_prod id (map (with_deadline d))) js) = map (plan_deadline d) (number_jobs slots i js)"
  by (induction js arbitrary: i) (simp_all add: plan_of_def plan_deadline_def map_prod_def o_def split: prod.split)

lemma jobs_deadline:
  "concat (map (bucket_jobs n) (sort_key (\<lambda>b. key_order (fst b)) (buckets_deadline d bs)))
     = map (map_prod id (map (with_deadline d))) (concat (map (size_jobs n) (sort_key (\<lambda>b. key_order (fst b)) bs)))"
proof -
  have "(\<lambda>b. key_order (fst b)) \<circ> (\<lambda>(k, xs). (k, map (with_deadline d) xs)) = (\<lambda>b. key_order (fst b))"
    by (simp add: fun_eq_iff)
  then have "sort_key (\<lambda>b. key_order (fst b)) (buckets_deadline d bs) = buckets_deadline d (sort_key (\<lambda>b. key_order (fst b)) bs)"
    by (simp add: buckets_deadline_def sort_key_map)
  moreover have "concat (map (bucket_jobs n) (buckets_deadline d bs))
      = map (map_prod id (map (with_deadline d))) (concat (map (size_jobs n) bs))" for bs
    by (induction bs) (auto simp: buckets_deadline_def bucket_jobs_deadline)
  ultimately show ?thesis by simp
qed

definition timeless_plans :: "work_item list \<Rightarrow> int \<Rightarrow> int \<Rightarrow> real \<Rightarrow> cohort_plan list res" where
  "timeless_plans items max_cohort_size num_staging_slots max_cohort_delay_us =
     rbind (raise_first
       [(max_cohort_size < 1 \<or> num_staging_slots < 1, ValueError),
        (max_cohort_delay_us < 0, ValueError)]) (\<lambda>_.
     rbind (rfold add_to_bucket [] items) (\<lambda>buckets.
     Inr (number_jobs (nat num_staging_slots) 0
            (concat (map (size_jobs (nat max_cohort_size)) (sort_key (\<lambda>b. key_order (fst b)) buckets))))))"

lemma plans_deadline:
  "build_cohort_plans (map (with_deadline d) items) max_cohort_size num_staging_slots max_cohort_delay_us (d - 1)
     = map_sum id (map (plan_deadline d)) (timeless_plans items max_cohort_size num_staging_slots max_cohort_delay_us)"
proof -
  have [simp]: "buckets_deadline d [] = []" by (simp add: buckets_deadline_def)
  have [simp]: "map_sum f g (rbind m h) = rbind (map_sum f id m) (\<lambda>x. map_sum f g (h x))" for f g h and m :: "'b res"
    by (cases m) simp_all
  show ?thesis
    using classify_deadline [of d "[]" items]
    by (cases "rfold add_to_bucket [] items")
      (auto simp: build_cohort_plans_def timeless_plans_def fold_emit_bucket jobs_deadline number_jobs_deadline)
qed

lemma same_cohorts_later:
  assumes "build_cohort_plans (map (with_deadline d) items) max_cohort_size num_staging_slots max_cohort_delay_us (d - 1) = Inr plans"
    and "1 \<le> slots"
  shows "\<exists>plans'. build_cohort_plans (map (with_deadline e) items) max_cohort_size slots max_cohort_delay_us (e - 1) = Inr plans'
    \<and> map (map w_rid \<circ> c_items) plans' = map (map w_rid \<circ> c_items) plans"
proof -
  obtain js where js: "timeless_plans items max_cohort_size num_staging_slots max_cohort_delay_us = Inr (number_jobs (nat num_staging_slots) 0 js)"
      "timeless_plans items max_cohort_size slots max_cohort_delay_us = Inr (number_jobs (nat slots) 0 js)"
    using assms by (auto simp: plans_deadline timeless_plans_def rbind_def split: sum.splits if_splits)
  have "map (map w_rid \<circ> c_items) (map (plan_deadline d) (number_jobs k i js)) = map (map w_rid \<circ> snd) js" for d k i
    by (induction js arbitrary: i) (simp_all add: plan_of_def plan_deadline_def)
  then show ?thesis using assms(1) js by (auto simp: plans_deadline)
qed

text \<open>
  C24: Building cohorts partitions the work.  With positive sizes and items that have a
  compatibility key the call returns, every item is in exactly one plan, the items of a plan
  share its key, a plan has between one and \<open>max_cohort_size\<close> items in order of urgency and the
  sum of their bytes, the plans use the staging slots round-robin, and the items whose deadline has passed
  come first, one per plan, by urgency.
\<close>

theorem cohort_plans_partition:
  assumes "1 \<le> max_cohort_size" "1 \<le> num_staging_slots" "0 \<le> max_cohort_delay_us"
    and keys: "\<forall>x \<in> set items. \<exists>k. compatibility_key x = Inr k"
  shows "\<exists>plans. build_cohort_plans items max_cohort_size num_staging_slots max_cohort_delay_us now_ns = Inr plans
    \<and> mset (concat (map c_items plans)) = mset items
    \<and> (\<forall>i<length plans. job_ok (nat max_cohort_size) (c_key (plans ! i), c_items (plans ! i))
         \<and> c_packed_bytes (plans ! i) = sum_list (map w_bytes (c_items (plans ! i)))
         \<and> c_staging_slot (plans ! i) = i mod nat num_staging_slots)
    \<and> map c_items (take (length (expired_items now_ns items)) plans) = map (\<lambda>x. [x]) (sort_key urgency (expired_items now_ns items))
    \<and> (\<forall>p \<in> set (drop (length (expired_items now_ns items)) plans). \<forall>x \<in> set (c_items p). now_ns < w_deadline_ns x)"
  using assms by (rule plans_partition)

definition demo_item :: "string \<Rightarrow> int \<Rightarrow> work_item" where
  "demo_item rid deadline = \<lparr> w_rid = rid, w_round_id = 1, w_layer_id = 0, w_q_len = 5, w_chunk_idx = 0,
     w_token_begin = 0, w_token_end = 2048, w_bytes = 4096, w_deadline_ns = deadline,
     w_descriptor = OneDescriptor \<lparr> ht_dtype = ''bf16'', ht_shape = [2048, 8, 128] \<rparr> \<rparr>"

text \<open>Three items, one of them expired: two plans.\<close>

theorem cohort_plans_partition_witness:
  "\<exists>plans. build_cohort_plans [demo_item ''a'' 90, demo_item ''b'' 10, demo_item ''c'' 80] 8 2 200 50 = Inr plans
     \<and> map (map w_rid \<circ> c_items) (take 1 plans) = [[''b'']]
     \<and> mset (concat (map c_items plans)) = {#demo_item ''a'' 90, demo_item ''b'' 10, demo_item ''c'' 80#}"
proof -
  have "\<exists>k. compatibility_key (demo_item rid d) = Inr k" for rid d
    by (simp add: compatibility_key_def demo_item_def descriptors_of_def tensor_attr_def shape_from_end_def first_dim_def)
  moreover have "expired_items 50 [demo_item ''a'' 90, demo_item ''b'' 10, demo_item ''c'' 80] = [demo_item ''b'' 10]"
    by (simp add: expired_items_def demo_item_def)
  ultimately obtain plans where
    "build_cohort_plans [demo_item ''a'' 90, demo_item ''b'' 10, demo_item ''c'' 80] 8 2 200 50 = Inr plans"
    "mset (concat (map c_items plans)) = {#demo_item ''a'' 90, demo_item ''b'' 10, demo_item ''c'' 80#}"
    "map c_items (take 1 plans) = [[demo_item ''b'' 10]]"
    using cohort_plans_partition [of 8 2 200 "[demo_item ''a'' 90, demo_item ''b'' 10, demo_item ''c'' 80]" 50]
    by auto
  then show ?thesis
    by (intro exI [of _ plans]) (auto simp: demo_item_def simp flip: map_map)
qed

end
