(* ===== verification/CohortStream.thy ===== *)
theory CohortStream
  imports LayerHistory CohortScheduler
begin

text \<open>
  History streaming in cohorts (\<open>_build_cohort_layer_work\<close>, \<open>_submit_cohort_task\<close>,
  \<open>_stream_history_cohorts\<close> and \<open>_prefetch_next_cohort_layer\<close> in \<open>specstream/verifier.py\<close>): the
  requests of a batch are grouped into plans, a window holds one group of chunks of every request
  of a plan, padded to the longest, and the kernels take the valid lengths from the device.  The
  plans are built twice, when a layer is prefetched and when it is streamed, at different times;
  the theorem includes that both agree.
\<close>

section \<open>The work of a layer\<close>

fun chunks_by_rid ::
    "stream_item list \<Rightarrow> int \<Rightarrow> (string, 'k layer_chunk list) dict
      \<Rightarrow> ('k stream_verifier, (string, 'k layer_chunk list) dict) py" where
  "chunks_by_rid [] layer_id d = py_return d"
| "chunks_by_rid (item # items) layer_id d =
     py_bind (layer_chunks item layer_id) (\<lambda>chunks. chunks_by_rid items layer_id (dset (si_rid item) chunks d))"

definition check_lengths :: "stream_item list \<Rightarrow> (string, 'k layer_chunk list) dict \<Rightarrow> unit res" where
  "check_lengths items chunks =
     (if \<exists>item \<in> set items. sum_list (map lc_length (dget_or chunks (si_rid item) [])) \<noteq> si_history_len item
      then Inl AssertionError else Inr ())"

definition groups_by_rid ::
    "int \<Rightarrow> (string, 'k layer_chunk list) dict \<Rightarrow> (string, 'k layer_chunk list list) dict res" where
  "groups_by_rid group_size chunks =
     rmap (\<lambda>(rid, cs). rbind (group_adjacent_chunks cs group_size) (\<lambda>groups. Inr (rid, groups))) chunks"

text \<open>What a plan reads of a chunk: a slab slice of tokens, keys and values, heads and head dimension.\<close>

definition chunk_descriptor :: "'k history_store \<Rightarrow> 'k layer_chunk \<Rightarrow> host_tensor" where
  "chunk_descriptor st c =
     \<lparr> ht_dtype = ''kv'', ht_shape = [length (lc_tensor c), 2, nat (hs_kv_heads st), nat (hs_head_dim st)] \<rparr>"

definition cohort_item ::
    "'k history_store \<Rightarrow> int \<Rightarrow> int \<Rightarrow> int \<Rightarrow> int \<Rightarrow> stream_item \<Rightarrow> 'k layer_chunk list \<Rightarrow> work_item" where
  "cohort_item st round_id layer_id q_len deadline_ns item first_group =
     \<lparr> w_rid = si_rid item, w_round_id = round_id, w_layer_id = layer_id, w_q_len = q_len, w_chunk_idx = 0,
       w_token_begin = lc_abs_start (hd first_group),
       w_token_end = lc_abs_start (last first_group) + lc_length (last first_group),
       w_bytes = int (sum_list (map (\<lambda>c. nbytes_of (chunk_tensor st c)) first_group)), w_deadline_ns = deadline_ns,
       w_descriptor = Descriptors (map (\<lambda>c. Some (chunk_descriptor st c)) first_group) \<rparr>"

definition cohort_items ::
    "'k history_store \<Rightarrow> int \<Rightarrow> int \<Rightarrow> int \<Rightarrow> int \<Rightarrow> (string, 'k layer_chunk list list) dict \<Rightarrow> stream_item list
      \<Rightarrow> work_item list" where
  "cohort_items st round_id layer_id q_len deadline_ns groups items =
     concat (map (\<lambda>item. case dget_or groups (si_rid item) [] of
                           [] \<Rightarrow> []
                         | first_group # _ \<Rightarrow> [cohort_item st round_id layer_id q_len deadline_ns item first_group]) items)"

text \<open>\<open>max_plan_groups\<close>, and the loops over the plans and their groups; a task is a plan and a group index.\<close>

definition plan_size :: "(string, 'k layer_chunk list list) dict \<Rightarrow> cohort_plan \<Rightarrow> nat res" where
  "plan_size groups plan =
     (if c_items plan = [] then Inl ValueError
      else Inr (Max (set (map (\<lambda>w. length (dget_or groups (w_rid w) [])) (c_items plan)))))"

definition plan_tasks ::
    "(string, 'k layer_chunk list list) dict \<Rightarrow> cohort_plan list \<Rightarrow> (nat \<times> nat) list res" where
  "plan_tasks groups plans =
     rbind (rmap (plan_size groups) plans) (\<lambda>sizes.
     Inr (concat (map (\<lambda>(i, k). map (Pair i) [0..<k]) (enumerate 0 sizes))))"

definition plan_rids :: "cohort_plan \<Rightarrow> string list" where
  "plan_rids plan = map w_rid (c_items plan)"

record 'k cohort_layer =
  cl_groups :: "(string, 'k layer_chunk list list) dict"
  cl_plans :: "cohort_plan list"
  cl_tasks :: "(nat \<times> nat) list"
  cl_task_keys :: "task_key list"

definition cohort_layer_work ::
    "specstream_config \<Rightarrow> int \<Rightarrow> nat \<Rightarrow> int \<Rightarrow> int \<Rightarrow> stream_item list \<Rightarrow> int \<Rightarrow> 'k history_store
      \<Rightarrow> (string, 'k layer_chunk list) dict \<Rightarrow> 'k cohort_layer res" where
  "cohort_layer_work cfg q_len num_buffers round_id now_ns items layer_id st chunks =
     rbind (check_lengths items chunks) (\<lambda>_.
     rbind (groups_by_rid (if cf_reference_attention cfg then 1 else cf_chunks_per_transfer cfg) chunks) (\<lambda>groups.
     let deadline_ns = now_ns + py_int (cf_max_cohort_delay_us cfg * 1000) in
     rbind (build_cohort_plans (cohort_items st round_id layer_id q_len deadline_ns groups items)
              (cf_max_cohort_size cfg) (int num_buffers) (cf_max_cohort_delay_us cfg) (deadline_ns - 1)) (\<lambda>plans.
     rbind (plan_tasks groups plans) (\<lambda>tasks.
     Inr \<lparr> cl_groups = groups, cl_plans = plans, cl_tasks = tasks,
           cl_task_keys = map (\<lambda>(i, g). CohortKey (plan_rids (plans ! i)) g) tasks \<rparr>))))"

definition build_cohort_layer_work ::
    "specstream_config \<Rightarrow> int \<Rightarrow> int \<Rightarrow> int \<Rightarrow> stream_item list \<Rightarrow> int \<Rightarrow> ('k stream_verifier, 'k cohort_layer) py" where
  "build_cohort_layer_work cfg q_len round_id now_ns items layer_id =
     py_bind (chunks_by_rid items layer_id [])
       (\<lambda>chunks v. (cohort_layer_work cfg q_len (sp_num_buffers (vf_staging v)) round_id now_ns items layer_id (vf_store v) chunks, v))"

text \<open>The sources of a task: for every request of its plan the group with its index, if it has one.\<close>

definition cohort_task ::
    "'k history_store \<Rightarrow> (string, 'k layer_chunk list list) dict \<Rightarrow> cohort_plan list \<Rightarrow> nat \<times> nat \<Rightarrow> 'k work" where
  "cohort_task st groups plans task =
     CohortWork (map (\<lambda>w. let request_groups = dget_or groups (w_rid w) [] in
                          if snd task < length request_groups then map (chunk_tensor st) (request_groups ! snd task) else [])
                   (c_items (plans ! fst task)))"

definition cohort_tasks :: "'k history_store \<Rightarrow> 'k cohort_layer \<Rightarrow> 'k work list" where
  "cohort_tasks st l = map (cohort_task st (cl_groups l) (cl_plans l)) (cl_tasks l)"

definition cohort_queue ::
    "specstream_config \<Rightarrow> int \<Rightarrow> int \<Rightarrow> int \<Rightarrow> stream_item list \<Rightarrow> int
      \<Rightarrow> ('k stream_verifier, 'k work list \<times> task_key list) py" where
  "cohort_queue cfg q_len round_id now_ns items layer_id =
     py_bind (build_cohort_layer_work cfg q_len round_id now_ns items layer_id)
       (\<lambda>l v. (Inr (cohort_tasks (vf_store v) l, cl_task_keys l), v))"

section \<open>Streaming\<close>

text \<open>
  The loops over the plans and their groups: \<open>visits\<close> are the remaining plan and group pairs.  Each
  kernel is returned with the requests of its plan.
\<close>

fun cohort_loop ::
    "bool \<Rightarrow> nat \<Rightarrow> 'k work list \<Rightarrow> 'k cohort_layer \<Rightarrow> (int list option \<Rightarrow> ('k stream_verifier, unit) py) \<Rightarrow> bool
      \<Rightarrow> (nat \<times> nat) list \<Rightarrow> nat \<Rightarrow> (nat, transfer) dict
      \<Rightarrow> ('k stream_verifier, (string list \<times> nat \<times> transfer) list \<times> nat) py" where
  "cohort_loop reference n works l prefetch_next on [] task_index transfers = py_return ([], task_index)"
| "cohort_loop reference n works l prefetch_next on (visit # visits) task_index transfers =
     (if length (cl_tasks l) \<le> task_index then py_raise IndexError
      else if cl_tasks l ! task_index \<noteq> visit then py_raise AssertionError
      else
       case dget transfers task_index of
         None \<Rightarrow> py_raise KeyError
       | Some t \<Rightarrow>
           if \<not> reference \<and> tf_valid_tokens t = None
           then py_bind (py_update (\<lambda>v. v\<lparr>vf_staging := wait_ready t (vf_staging v)\<rparr>)) (\<lambda>_. py_raise AssertionError)
           else
             py_bind (launch_window t) (\<lambda>k.
             py_bind (refill n works prefetch_next on task_index t (ddel task_index transfers)) (\<lambda>transfers'.
             py_bind (cohort_loop reference n works l prefetch_next on visits (Suc task_index) transfers') (\<lambda>(ks, i).
             py_return ((plan_rids (cl_plans l ! fst visit), k) # ks, i)))))"

definition prefetch_next_cohort ::
    "specstream_config \<Rightarrow> int \<Rightarrow> int \<Rightarrow> int \<Rightarrow> stream_item list \<Rightarrow> int \<Rightarrow> int list option
      \<Rightarrow> ('k stream_verifier, unit) py" where
  "prefetch_next_cohort cfg q_len round_id now_ns items layer_id available_slots =
     py_bind (prepare_next layer_id (cohort_queue cfg q_len round_id now_ns items))
       (\<lambda>_ v. prefetch_next_batched_layer True ''cohort'' round_id items available_slots (the (vf_next_prefetch v)) v)"

text \<open>The clock gives the times at which the plans of the layer and those of the next one are built.\<close>

definition stream_history_cohorts ::
    "specstream_config \<Rightarrow> int \<Rightarrow> (int \<Rightarrow> int \<times> int) \<Rightarrow> int \<Rightarrow> stream_item list \<Rightarrow> int \<Rightarrow> bool
      \<Rightarrow> ('k stream_verifier, (string list \<times> nat \<times> transfer) list) py" where
  "stream_history_cohorts cfg q_len clock round_id items layer_id prefetch_next_layer =
     py_bind (build_cohort_layer_work cfg q_len round_id (fst (clock layer_id)) items layer_id) (\<lambda>l.
     py_bind (py_update (\<lambda>v. v\<lparr>vf_next_prefetch := None\<rparr>)) (\<lambda>_.
     py_bind (take_batched_prefetch (batched_prefetch_key round_id layer_id ''cohort'' items) (cl_task_keys l)) (\<lambda>cached v.
     let n = sp_num_buffers (vf_staging v);
         works = cohort_tasks (vf_store v) l;
         prefetch_next = prefetch_next_cohort cfg q_len round_id (snd (clock layer_id)) items layer_id
     in
     py_bind (ring_fill works [0..<min n (length works)] cached) (\<lambda>transfers.
     py_bind (\<lambda>v. (plan_tasks (cl_groups l) (cl_plans l), v)) (\<lambda>visits.
     py_bind (cohort_loop (cf_reference_attention cfg) n works l prefetch_next prefetch_next_layer visits 0 transfers)
       (\<lambda>(kernels, task_index).
     py_bind (if task_index \<noteq> length (cl_tasks l) then py_raise AssertionError else py_return ()) (\<lambda>_.
     py_bind (if prefetch_next_layer then prefetch_next None else py_return ()) (\<lambda>_. py_return kernels))))) v)))"

definition forward_cohorts ::
    "specstream_config \<Rightarrow> int \<Rightarrow> (int \<Rightarrow> int \<times> int) \<Rightarrow> int \<Rightarrow> stream_item list \<Rightarrow> int
      \<Rightarrow> ('k stream_verifier, (string list \<times> nat \<times> transfer) list) py" where
  "forward_cohorts cfg q_len clock round_id items layer_id =
     py_bind (py_update (purge_stale_prefetch round_id))
       (\<lambda>_. stream_history_cohorts cfg q_len clock round_id items layer_id
          (cf_layer_prefetch cfg \<and> \<not> cf_reference_attention cfg))"

section \<open>The plans of a layer\<close>

definition chunk_table :: "stream_item list \<Rightarrow> int \<Rightarrow> 'k history_store \<Rightarrow> (string, 'k layer_chunk list) dict" where
  "chunk_table items layer st = map (\<lambda>item. (si_rid item, chunks_of item layer st)) items"

definition group_table :: "nat \<Rightarrow> stream_item list \<Rightarrow> int \<Rightarrow> 'k history_store \<Rightarrow> (string, 'k layer_chunk list list) dict" where
  "group_table sz items layer st = map (\<lambda>item. (si_rid item, windows sz (chunks_of item layer st))) items"

text \<open>Distinct requests with history in the store: what \<open>forward\<close> passes to the cohort path.\<close>

definition cohort_ready :: "stream_item list \<Rightarrow> 'k history_store \<Rightarrow> bool" where
  "cohort_ready items st \<longleftrightarrow>
     distinct (map si_rid items) \<and> (\<forall>item \<in> set items. history_ready item st \<and> 0 < si_history_len item)"

lemma dget_table:
  assumes "distinct (map si_rid items)" "item \<in> set items"
  shows "dget_or (map (\<lambda>item. (si_rid item, f item)) items) (si_rid item) [] = f item"
  using assms by (induction items) (auto simp: dget_or_def image_iff)

lemma dget_chunk_table: "cohort_ready items st \<Longrightarrow> item \<in> set items \<Longrightarrow>
    dget_or (chunk_table items layer st) (si_rid item) [] = chunks_of item layer st"
  by (simp add: chunk_table_def cohort_ready_def dget_table)

lemma dget_group_table: "cohort_ready items st \<Longrightarrow> item \<in> set items \<Longrightarrow>
    dget_or (group_table sz items layer st) (si_rid item) [] = windows sz (chunks_of item layer st)"
  by (simp add: group_table_def cohort_ready_def dget_table)

lemma chunks_by_rid_ready:
  assumes "\<forall>item \<in> set items. history_ready item st0" "distinct (map si_rid items)" "reread st0 (vf_store v)"
    "layer \<in> set (hs_layer_ids st0)" "\<forall>item \<in> set items. si_rid item \<notin> fst ` set d"
  shows "\<exists>st'. chunks_by_rid items layer d v = (Inr (d @ chunk_table items layer st0), v\<lparr>vf_store := st'\<rparr>) \<and> reread (vf_store v) st'"
  using assms
proof (induction items arbitrary: d v)
  case Nil
  then show ?case by (intro exI [of _ "vf_store v"]) (simp add: py_basic chunk_table_def)
next
  case (Cons item items)
  note chunks = chunks_of_cong [OF rereadD(1) [OF Cons.prems(3)], of item layer]
  obtain st1 where ch: "layer_chunks item layer v = (Inr (chunks_of item layer st0), v\<lparr>vf_store := st1\<rparr>)" "reread (vf_store v) st1"
    using layer_chunks_ready [of item v layer] rereadD(2,3) [OF Cons.prems(3)] Cons.prems(1,4) chunks by auto
  have new: "dset (si_rid item) (chunks_of item layer st0) d = d @ [(si_rid item, chunks_of item layer st0)]"
    using Cons.prems(5) by (intro dset_new) simp
  have free: "\<forall>it \<in> set items. si_rid it \<notin> fst ` set (d @ [(si_rid item, chunks_of item layer st0)])"
    using Cons.prems(2,5) by (auto simp: image_iff)
  obtain st' where IH: "chunks_by_rid items layer (d @ [(si_rid item, chunks_of item layer st0)]) (v\<lparr>vf_store := st1\<rparr>)
      = (Inr ((d @ [(si_rid item, chunks_of item layer st0)]) @ chunk_table items layer st0), v\<lparr>vf_store := st'\<rparr>)" "reread st1 st'"
    using Cons.IH [OF _ _ _ Cons.prems(4) free, of "v\<lparr>vf_store := st1\<rparr>"] Cons.prems(1,2)
      reread_trans [OF Cons.prems(3) ch(2)] by auto
  then show ?case
    using ch(1) reread_trans [OF ch(2) IH(2)] new by (intro exI [of _ st']) (simp add: py_basic chunk_table_def)
qed

lemma check_lengths_ready:
  assumes "cohort_ready items st" "layer \<in> set (hs_layer_ids st)"
  shows "check_lengths items (chunk_table items layer st) = Inr ()"
  using assms chunks_sum [of _ st layer] by (auto simp: check_lengths_def dget_chunk_table cohort_ready_def)

lemma groups_by_rid_ready: "1 \<le> sz \<Longrightarrow> groups_by_rid sz (chunk_table items layer st) = Inr (group_table (nat sz) items layer st)"
  by (induction items) (simp_all add: groups_by_rid_def chunk_table_def group_table_def group_chunks)

lemma first_group:
  assumes "cohort_ready items st" "item \<in> set items" "layer \<in> set (hs_layer_ids st)" "0 < sz"
  shows "windows sz (chunks_of item layer st) \<noteq> [] \<and> hd (windows sz (chunks_of item layer st)) \<noteq> []"
proof -
  have "chunks_of item layer st \<noteq> []"
    using chunks_sum [of item st layer] assms by (auto simp: cohort_ready_def)
  then show ?thesis using assms(4) by (simp add: windows.simps [of sz "chunks_of item layer st"])
qed

lemma cohort_items_ready:
  assumes "cohort_ready items st" "layer \<in> set (hs_layer_ids st)" "0 < sz"
  shows "cohort_items st round_id layer q_len d (group_table sz items layer st) items
    = map (\<lambda>item. cohort_item st round_id layer q_len d item (hd (windows sz (chunks_of item layer st)))) items"
proof -
  have "(case dget_or (group_table sz items layer st) (si_rid item) [] of [] \<Rightarrow> []
      | g # _ \<Rightarrow> [cohort_item st round_id layer q_len d item g])
      = [cohort_item st round_id layer q_len d item (hd (windows sz (chunks_of item layer st)))]" if "item \<in> set items" for item
    using first_group [OF assms(1) that assms(2,3)] dget_group_table [OF assms(1) that, of sz layer]
    by (simp split: list.split)
  then have "cohort_items st round_id layer q_len d (group_table sz items layer st) items
      = concat (map (\<lambda>item. [cohort_item st round_id layer q_len d item (hd (windows sz (chunks_of item layer st)))]) items)"
    unfolding cohort_items_def by (intro arg_cong [of _ _ concat] map_cong refl)
  then show ?thesis by (simp add: concat_map_singleton)
qed

lemma cohort_item_key: "g \<noteq> [] \<Longrightarrow> \<exists>k. compatibility_key (cohort_item st round_id layer q_len d item g) = Inr k"
proof -
  assume "g \<noteq> []"
  then obtain c cs where g: "g = c # cs" by (cases g) auto
  have "\<exists>ns. rmap first_dim (map (\<lambda>c. Some (chunk_descriptor st c)) cs) = Inr ns" for cs
    by (induction cs) (auto simp: first_dim_def tensor_attr_def chunk_descriptor_def)
  then obtain ns where "rmap first_dim (map (\<lambda>c. Some (chunk_descriptor st c)) g) = Inr ns" by blast
  then show ?thesis
    by (simp add: g compatibility_key_def cohort_item_def descriptors_of_def tensor_attr_def chunk_descriptor_def shape_from_end_def)
qed

definition cohort_good :: "specstream_config \<Rightarrow> stream_item list \<Rightarrow> 'k history_store \<Rightarrow> bool" where
  "cohort_good cfg items st \<longleftrightarrow>
     1 \<le> cf_chunks_per_transfer cfg \<and> 1 \<le> cf_max_cohort_size cfg \<and> 0 \<le> cf_max_cohort_delay_us cfg \<and> cohort_ready items st"

text \<open>The requests of the plans, whenever they are built.\<close>

definition layer_rids ::
    "specstream_config \<Rightarrow> int \<Rightarrow> int \<Rightarrow> stream_item list \<Rightarrow> int \<Rightarrow> 'k history_store \<Rightarrow> string list list" where
  "layer_rids cfg q_len round_id items layer st =
     map plan_rids (projr (build_cohort_plans
       (cohort_items st round_id layer q_len 0 (group_table (layer_group_size cfg) items layer st) items)
       (cf_max_cohort_size cfg) 1 (cf_max_cohort_delay_us cfg) (- 1)))"

lemma group_size_pos: "cohort_good cfg items st \<Longrightarrow> 0 < layer_group_size cfg"
  by (simp add: cohort_good_def layer_group_size_def)

lemma cohort_items_deadline:
  assumes "cohort_good cfg items st" "layer \<in> set (hs_layer_ids st)"
  shows "cohort_items st round_id layer q_len d (group_table (layer_group_size cfg) items layer st) items
    = map (with_deadline d) (cohort_items st round_id layer q_len 0 (group_table (layer_group_size cfg) items layer st) items)"
  using assms group_size_pos [OF assms(1)]
  by (simp add: cohort_good_def cohort_items_ready) (simp add: cohort_item_def with_deadline_def)

lemma layer_plans:
  fixes q_len round_id :: int
  assumes "cohort_good cfg items st" "layer \<in> set (hs_layer_ids st)"
  defines "ws \<equiv> cohort_items st round_id layer q_len 0 (group_table (layer_group_size cfg) items layer st) items"
    and "rss \<equiv> layer_rids cfg q_len round_id items layer st"
  shows "\<exists>plans. build_cohort_plans (map (with_deadline 0) ws) (cf_max_cohort_size cfg) 1 (cf_max_cohort_delay_us cfg) (0 - 1) = Inr plans
      \<and> map plan_rids plans = rss"
    and "distinct (concat rss)" and "set (concat rss) = si_rid ` set items" and "[] \<notin> set rss"
proof -
  have ready: "cohort_ready items st" and sz: "0 < layer_group_size cfg"
    using assms(1) group_size_pos [OF assms(1)] by (simp_all add: cohort_good_def)
  have ws: "ws = map (\<lambda>item. cohort_item st round_id layer q_len 0 item (hd (windows (layer_group_size cfg) (chunks_of item layer st)))) items"
    unfolding ws_def by (rule cohort_items_ready [OF ready assms(2) sz])
  have same: "map (with_deadline 0) ws = ws" unfolding ws by (simp add: cohort_item_def with_deadline_def)
  have rids: "map w_rid ws = map si_rid items" unfolding ws by (simp add: cohort_item_def)
  have "\<forall>x \<in> set ws. \<exists>k. compatibility_key x = Inr k"
    using first_group [OF ready _ assms(2) sz] by (auto simp: ws intro!: cohort_item_key)
  then obtain plans where p: "build_cohort_plans ws (cf_max_cohort_size cfg) 1 (cf_max_cohort_delay_us cfg) (- 1) = Inr plans"
      "mset (concat (map c_items plans)) = mset ws"
      "\<forall>i < length plans. job_ok (nat (cf_max_cohort_size cfg)) (c_key (plans ! i), c_items (plans ! i))"
    using plans_partition [of "cf_max_cohort_size cfg" 1 "cf_max_cohort_delay_us cfg" ws "- 1"] assms(1)
    by (auto simp: cohort_good_def)
  have rss: "rss = map plan_rids plans" using p(1) by (simp add: rss_def layer_rids_def ws_def)
  show "\<exists>plans. build_cohort_plans (map (with_deadline 0) ws) (cf_max_cohort_size cfg) 1 (cf_max_cohort_delay_us cfg) (0 - 1) = Inr plans
      \<and> map plan_rids plans = rss"
    using p(1) rss same by simp
  have "concat rss = map w_rid (concat (map c_items plans))" by (simp add: rss plan_rids_def [abs_def] map_concat o_def)
  then have mset: "mset (concat rss) = mset (map si_rid items)" using arg_cong [OF p(2), of "image_mset w_rid"] rids
    by (metis mset_map)
  show "distinct (concat rss)" using mset_eq_imp_distinct_iff [OF mset] ready by (simp add: cohort_ready_def)
  show "set (concat rss) = si_rid ` set items" using mset_eq_setD [OF mset] by simp
  show "[] \<notin> set rss" using p(3) by (auto simp: rss plan_rids_def job_ok_def in_set_conv_nth)
qed

section \<open>The tasks of a layer\<close>

definition rids_size :: "(string, 'k layer_chunk list list) dict \<Rightarrow> string list \<Rightarrow> nat" where
  "rids_size groups rs = Max (set (map (\<lambda>r. length (dget_or groups r [])) rs))"

definition cohort_slots :: "(string, 'k layer_chunk list list) dict \<Rightarrow> string list list \<Rightarrow> (string list \<times> nat) list" where
  "cohort_slots groups rss = concat (map (\<lambda>rs. map (Pair rs) [0..<rids_size groups rs]) rss)"

definition slot_group :: "(string, 'k layer_chunk list list) dict \<Rightarrow> nat \<Rightarrow> string \<Rightarrow> 'k layer_chunk list" where
  "slot_group groups g r = (if g < length (dget_or groups r []) then dget_or groups r [] ! g else [])"

definition slot_work ::
    "'k history_store \<Rightarrow> (string, 'k layer_chunk list list) dict \<Rightarrow> string list \<times> nat \<Rightarrow> 'k work" where
  "slot_work st groups x = CohortWork (map (\<lambda>r. map (chunk_tensor st) (slot_group groups (snd x) r)) (fst x))"

lemma plan_sizes: "[] \<notin> set (map plan_rids plans) \<Longrightarrow> rmap (plan_size groups) plans = Inr (map (rids_size groups) (map plan_rids plans))"
proof (induction plans)
  case (Cons p plans)
  then have "c_items p \<noteq> []" by (auto simp: plan_rids_def)
  then have "plan_size groups p = Inr (rids_size groups (plan_rids p))"
    by (simp add: plan_size_def rids_size_def plan_rids_def image_image)
  then show ?case using Cons by simp
qed simp

lemma enumerate_nths: "enumerate 0 xs = map (\<lambda>i. (i, xs ! i)) [0..<length xs]"
  by (intro nth_equalityI) (simp_all add: nth_enumerate_eq)

lemma plan_tasks_slots:
  assumes "[] \<notin> set (map plan_rids plans)"
  shows "\<exists>tasks. plan_tasks groups plans = Inr tasks
    \<and> map (\<lambda>(i, g). (plan_rids (plans ! i), g)) tasks = cohort_slots groups (map plan_rids plans)"
proof -
  let ?rss = "map plan_rids plans"
  let ?tasks = "concat (map (\<lambda>i. map (Pair i) [0..<rids_size groups (?rss ! i)]) [0..<length plans])"
  have "concat (map (\<lambda>(i, k). map (Pair i) [0..<k]) (enumerate 0 (map (rids_size groups) ?rss))) = ?tasks"
    unfolding enumerate_nths map_map by (intro arg_cong [of _ _ concat] map_cong) simp_all
  then have "plan_tasks groups plans = Inr ?tasks"
    unfolding plan_tasks_def plan_sizes [OF assms, of groups] by simp
  moreover have "cohort_slots groups (map (\<lambda>i. ?rss ! i) [0..<length plans]) = map (\<lambda>(i, g). (plan_rids (plans ! i), g)) ?tasks"
    unfolding cohort_slots_def map_concat map_map by (intro arg_cong [of _ _ concat] map_cong) simp_all
  then have "map (\<lambda>(i, g). (plan_rids (plans ! i), g)) ?tasks = cohort_slots groups ?rss"
    using map_nth [of ?rss] by simp
  ultimately show ?thesis by blast
qed

definition cohort_works :: "specstream_config \<Rightarrow> int \<Rightarrow> int \<Rightarrow> stream_item list \<Rightarrow> int \<Rightarrow> 'k history_store \<Rightarrow> 'k work list" where
  "cohort_works cfg q_len round_id items layer st =
     (let groups = group_table (layer_group_size cfg) items layer st
      in map (slot_work st groups) (cohort_slots groups (layer_rids cfg q_len round_id items layer st)))"

definition cohort_rids :: "specstream_config \<Rightarrow> int \<Rightarrow> int \<Rightarrow> stream_item list \<Rightarrow> int \<Rightarrow> 'k history_store \<Rightarrow> string list list" where
  "cohort_rids cfg q_len round_id items layer st =
     map fst (cohort_slots (group_table (layer_group_size cfg) items layer st) (layer_rids cfg q_len round_id items layer st))"

definition cohort_keys :: "specstream_config \<Rightarrow> int \<Rightarrow> int \<Rightarrow> stream_item list \<Rightarrow> int \<Rightarrow> 'k history_store \<Rightarrow> task_key list" where
  "cohort_keys cfg q_len round_id items layer st =
     map (\<lambda>(rs, g). CohortKey rs g)
       (cohort_slots (group_table (layer_group_size cfg) items layer st) (layer_rids cfg q_len round_id items layer st))"

text \<open>The work of a layer as built at some time, on a store that was read meanwhile.\<close>

definition layer_built ::
    "specstream_config \<Rightarrow> int \<Rightarrow> int \<Rightarrow> stream_item list \<Rightarrow> int \<Rightarrow> 'k history_store \<Rightarrow> 'k history_store \<Rightarrow> 'k cohort_layer \<Rightarrow> bool" where
  "layer_built cfg q_len round_id items layer st0 st l \<longleftrightarrow>
     cohort_tasks st l = cohort_works cfg q_len round_id items layer st0
   \<and> cl_task_keys l = cohort_keys cfg q_len round_id items layer st0
   \<and> map (\<lambda>(i, g). plan_rids (cl_plans l ! i)) (cl_tasks l) = cohort_rids cfg q_len round_id items layer st0
   \<and> plan_tasks (cl_groups l) (cl_plans l) = Inr (cl_tasks l)"

lemma steady_views: "steady st0 st \<Longrightarrow> chunk_tensor st = chunk_tensor st0 \<and> chunk_descriptor st = chunk_descriptor st0"
  by (simp add: fun_eq_iff chunk_tensor_def chunk_descriptor_def steady_def)

lemma steady_items: "steady st0 st \<Longrightarrow> cohort_items st = cohort_items st0"
proof -
  assume "steady st0 st"
  from steady_views [OF this] have "cohort_item st = cohort_item st0" by (auto simp: fun_eq_iff cohort_item_def)
  then show ?thesis by (intro ext) (simp only: cohort_items_def)
qed

lemma layer_work_ready:
  assumes good: "cohort_good cfg items st0" and layer: "layer \<in> set (hs_layer_ids st0)" and st: "steady st0 st" and m: "0 < m"
  shows "\<exists>l. cohort_layer_work cfg q_len m round_id now_ns items layer st (chunk_table items layer st0) = Inr l
    \<and> layer_built cfg q_len round_id items layer st0 st l"
proof -
  let ?groups = "group_table (layer_group_size cfg) items layer st0" and ?d = "now_ns + py_int (cf_max_cohort_delay_us cfg * 1000)"
  let ?ws = "cohort_items st0 round_id layer q_len 0 ?groups items" and ?rss = "layer_rids cfg q_len round_id items layer st0"
  have "cohort_ready items st0" using good by (simp add: cohort_good_def)
  note check = check_lengths_ready [OF this layer]
  have groups: "groups_by_rid (if cf_reference_attention cfg then 1 else cf_chunks_per_transfer cfg) (chunk_table items layer st0) = Inr ?groups"
    using good groups_by_rid_ready [of "if cf_reference_attention cfg then 1 else cf_chunks_per_transfer cfg" items layer st0]
    by (auto simp: cohort_good_def layer_group_size_def split: if_splits)
  obtain plans0 where p0: "build_cohort_plans (map (with_deadline 0) ?ws) (cf_max_cohort_size cfg) 1 (cf_max_cohort_delay_us cfg) (0 - 1) = Inr plans0"
      "map plan_rids plans0 = ?rss"
    using layer_plans(1) [OF good layer] by blast
  have "1 \<le> int m" using m by simp
  from same_cohorts_later [OF p0(1) this] obtain plans where
      p: "build_cohort_plans (map (with_deadline ?d) ?ws) (cf_max_cohort_size cfg) (int m) (cf_max_cohort_delay_us cfg) (?d - 1) = Inr plans"
      "map (map w_rid \<circ> c_items) plans = map (map w_rid \<circ> c_items) plans0"
    by blast
  have rss: "map plan_rids plans = ?rss" using p(2) p0(2) by (simp add: plan_rids_def [abs_def] o_def)
  obtain tasks where t: "plan_tasks ?groups plans = Inr tasks"
      "map (\<lambda>(i, g). (plan_rids (plans ! i), g)) tasks = cohort_slots ?groups ?rss"
    using plan_tasks_slots [of plans ?groups] layer_plans(4) [OF good layer] rss by auto
  let ?l = "\<lparr> cl_groups = ?groups, cl_plans = plans, cl_tasks = tasks,
    cl_task_keys = map (\<lambda>(i, g). CohortKey (plan_rids (plans ! i)) g) tasks \<rparr>"
  have "cohort_items st round_id layer q_len ?d ?groups items = map (with_deadline ?d) ?ws"
    using cohort_items_deadline [OF good layer, of round_id q_len ?d] steady_items [OF st] by simp
  then have "cohort_layer_work cfg q_len m round_id now_ns items layer st (chunk_table items layer st0) = Inr ?l"
    using p(1) t(1) by (simp add: cohort_layer_work_def check groups Let_def)
  moreover have "cohort_task st ?groups plans task = slot_work st0 ?groups (plan_rids (plans ! fst task), snd task)" for task
    using steady_views [OF st] by (simp add: cohort_task_def slot_work_def slot_group_def plan_rids_def Let_def)
  then have "layer_built cfg q_len round_id items layer st0 st ?l"
    using t(1) by (simp add: layer_built_def cohort_tasks_def cohort_works_def cohort_keys_def cohort_rids_def Let_def
        case_prod_beta o_def flip: t(2))
  ultimately show ?thesis by blast
qed

lemma cohort_layer_ready:
  assumes "cohort_good cfg items st0" "layer \<in> set (hs_layer_ids st0)" "reread st0 (vf_store v)" "0 < sp_num_buffers (vf_staging v)"
  shows "\<exists>l st'. build_cohort_layer_work cfg q_len round_id now_ns items layer v = (Inr l, v\<lparr>vf_store := st'\<rparr>)
    \<and> reread (vf_store v) st' \<and> layer_built cfg q_len round_id items layer st0 st' l"
proof -
  have "\<forall>item \<in> set items. history_ready item st0" "distinct (map si_rid items)"
    using assms(1) by (simp_all add: cohort_good_def cohort_ready_def)
  from chunks_by_rid_ready [OF this assms(3,2), of "[]"] obtain st' where
      c: "chunks_by_rid items layer [] v = (Inr (chunk_table items layer st0), v\<lparr>vf_store := st'\<rparr>)" "reread (vf_store v) st'"
    by auto
  have "steady st0 st'" using reread_trans [OF assms(3) c(2)] by (rule rereadD(1))
  from layer_work_ready [OF assms(1,2) this assms(4)] c show ?thesis
    by (fastforce simp: build_cohort_layer_work_def py_basic)
qed

lemma cohort_queue_ready:
  assumes "cohort_good cfg items st0" "reread st0 (vf_store v)" "layer \<in> set (hs_layer_ids st0)" "0 < sp_num_buffers (vf_staging v)"
  shows "\<exists>st'. cohort_queue cfg q_len round_id now_ns items layer v
      = (Inr (cohort_works cfg q_len round_id items layer st0, cohort_keys cfg q_len round_id items layer st0), v\<lparr>vf_store := st'\<rparr>)
    \<and> reread (vf_store v) st'"
  using cohort_layer_ready [OF assms(1,3,2,4), of q_len round_id now_ns]
  by (fastforce simp: cohort_queue_def layer_built_def py_basic)

section \<open>What a cohort holds\<close>

lemma slot_work_ok:
  assumes "(rs, g) \<in> set (cohort_slots (group_table sz items layer st) rss)" "[] \<notin> set rss"
  shows "work_ok (slot_work st (group_table sz items layer st) (rs, g))"
proof -
  let ?groups = "group_table sz items layer st"
  let ?lens = "map (\<lambda>r. length (dget_or ?groups r [])) rs"
  have rs: "rs \<noteq> []" "g < Max (set ?lens)" using assms by (auto simp: cohort_slots_def rids_size_def)
  then have "Max (set ?lens) \<in> set ?lens" by (intro Max_in) auto
  then obtain r where r: "r \<in> set rs" "g < length (dget_or ?groups r [])" using rs(2) by auto
  then have "dget_or ?groups r [] ! g \<in> set (dget_or ?groups r [])" by simp
  moreover have "\<exists>cs. dget_or ?groups r [] = windows sz cs" using r(2)
    by (auto simp: dget_or_def group_table_def split: option.splits dest!: map_of_SomeD)
  ultimately have "slot_group ?groups g r \<noteq> []" using r(2) windows_bounded by (fastforce simp: slot_group_def)
  then have "concat (map (slot_group ?groups g) rs) \<noteq> []" using r(1) by auto
  from chunks_work_ok [OF this, of st] show ?thesis
    by (simp add: work_ok_def slot_work_def map_concat o_def)
qed

lemma cohort_works_ok:
  assumes "cohort_good cfg items st" "layer \<in> set (hs_layer_ids st)" "w \<in> set (cohort_works cfg q_len round_id items layer st)"
  shows "work_ok w"
  using assms(3) slot_work_ok layer_plans(4) [OF assms(1,2)] by (force simp: cohort_works_def Let_def)

text \<open>The part of a request in a work entry.\<close>

definition request_part :: "string \<Rightarrow> string list \<times> 'k work \<Rightarrow> 'k list" where
  "request_part rid x =
     (case snd x of
        ChunkWork _ \<Rightarrow> []
      | CohortWork gs \<Rightarrow> (case index_of (fst x) rid of None \<Rightarrow> [] | Some r \<Rightarrow> group_data (gs ! r)))"

lemma index_of_None: "index_of xs x = None \<longleftrightarrow> x \<notin> set xs"
  by (induction xs) auto

lemma index_of_at: "index_of xs x = Some i \<Longrightarrow> i < length xs \<and> xs ! i = x"
proof (induction xs arbitrary: i)
  case (Cons y ys)
  then show ?case by (cases "y = x") auto
qed simp

lemma request_part_slot:
  "request_part rid (rs, slot_work st groups (rs, g))
     = (if rid \<in> set rs then group_data (map (chunk_tensor st) (slot_group groups g rid)) else [])"
  using index_of_None [of rs rid] index_of_at [of rs rid]
  by (auto simp: request_part_def slot_work_def split: option.split)

lemma slots_of_plan:
  assumes "length (dget_or groups rid []) \<le> k"
  shows "concat (map (\<lambda>g. group_data (map (chunk_tensor st) (slot_group groups g rid))) [0..<k])
    = concat (map (\<lambda>cs. group_data (map (chunk_tensor st) cs)) (dget_or groups rid []))"
proof -
  let ?gs = "dget_or groups rid []" and ?f = "\<lambda>cs. group_data (map (chunk_tensor st) cs)"
  have up: "[0..<k] = [0..<length ?gs] @ [length ?gs..<k]" using assms upt_add_eq_append [of 0 "length ?gs" "k - length ?gs"] by simp
  have "concat (map (\<lambda>g. ?f (slot_group groups g rid)) [length ?gs..<k]) = []"
    by (auto simp: slot_group_def group_data_def)
  moreover have "map (\<lambda>g. ?f (slot_group groups g rid)) [0..<length ?gs] = map ?f ?gs"
    by (intro nth_equalityI) (simp_all add: slot_group_def)
  ultimately show ?thesis unfolding up by simp
qed

lemma request_parts:
  assumes "distinct (concat rss)" "rid \<in> set (concat rss)"
  shows "concat (map (request_part rid) (map (\<lambda>x. (fst x, slot_work st groups x)) (cohort_slots groups rss)))
    = concat (map (\<lambda>cs. group_data (map (chunk_tensor st) cs)) (dget_or groups rid []))"
  using assms
proof (induction rss)
  case (Cons rs rss)
  let ?part = "\<lambda>rss. concat (map (request_part rid) (map (\<lambda>x. (fst x, slot_work st groups x)) (cohort_slots groups rss)))"
  have none: "?part rss = []" if "rid \<notin> set (concat rss)" for rss
    using that by (auto simp: cohort_slots_def request_part_slot)
  have split: "?part (rs # rss) = ?part [rs] @ ?part rss" by (simp add: cohort_slots_def)
  show ?case
  proof (cases "rid \<in> set rs")
    case True
    have "length (dget_or groups rid []) \<le> rids_size groups rs"
      unfolding rids_size_def using True by (intro Max_ge) auto
    then have "?part [rs] = concat (map (\<lambda>cs. group_data (map (chunk_tensor st) cs)) (dget_or groups rid []))"
      using slots_of_plan [of groups rid "rids_size groups rs" st] True
      by (simp add: cohort_slots_def o_def request_part_slot)
    moreover have "rid \<notin> set (concat rss)" using True Cons.prems(1) by auto
    ultimately show ?thesis unfolding split none [OF \<open>rid \<notin> set (concat rss)\<close>] by simp
  next
    case False
    then have "?part rss = concat (map (\<lambda>cs. group_data (map (chunk_tensor st) cs)) (dget_or groups rid []))"
      using Cons by auto
    moreover have "?part [rs] = []" by (rule none) (use False in simp)
    ultimately show ?thesis unfolding split by simp
  qed
qed simp

lemma cohort_history:
  assumes good: "cohort_good cfg items st" and off: "off < length (hs_layer_ids st)" and item: "item \<in> set items"
  shows "concat (map (request_part (si_rid item))
      (zip (cohort_rids cfg q_len round_id items (hs_layer_ids st ! off) st) (cohort_works cfg q_len round_id items (hs_layer_ids st ! off) st)))
    = history_elems item off st"
proof -
  let ?l = "hs_layer_ids st ! off" and ?sz = "layer_group_size cfg"
  let ?groups = "group_table ?sz items ?l st" and ?rss = "layer_rids cfg q_len round_id items ?l st"
  have ready: "cohort_ready items st" and h: "history_ready item st" and sz: "0 < ?sz" and l: "?l \<in> set (hs_layer_ids st)"
    using good item off group_size_pos [OF good] by (auto simp: cohort_good_def cohort_ready_def)
  have "si_rid item \<in> set (concat ?rss)" using layer_plans(3) [OF good l, of q_len round_id] item by auto
  note parts = request_parts [OF layer_plans(2) [OF good l] this, of st ?groups]
  obtain sss where w: "works_of ?sz item ?l st = map ChunkWork sss" "concat (map group_data sss) = history_elems item off st"
    using works_history [OF h off sz] by blast
  have "sss = map (map (chunk_tensor st)) (windows ?sz (chunks_of item ?l st))"
    using arg_cong [OF w(1), of "map work_tensors"] by (simp add: works_of_def o_def)
  then have "concat (map (\<lambda>cs. group_data (map (chunk_tensor st) cs)) (dget_or ?groups (si_rid item) [])) = history_elems item off st"
    using w(2) by (simp add: dget_group_table [OF ready item] o_def)
  moreover have "zip (cohort_rids cfg q_len round_id items ?l st) (cohort_works cfg q_len round_id items ?l st)
      = map (\<lambda>x. (fst x, slot_work st ?groups x)) (cohort_slots ?groups ?rss)"
    by (simp add: cohort_rids_def cohort_works_def Let_def zip_map_map zip_same_conv_map)
  ultimately show ?thesis using parts by simp
qed

section \<open>The cohort loop is the ring\<close>

lemma py_bind_InrE:
  assumes "py_bind m k s = (Inr y, s'')"
  obtains x s' where "m s = (Inr x, s')" "k x s' = (Inr y, s'')"
  using assms by (auto simp: py_basic split: prod.splits sum.splits)

lemma cohort_loop_ring:
  assumes "ring_loop n works prefetch_next on [i..<length works] transfers v = (Inr ks, v')"
    "\<forall>k \<in> set ks. tf_valid_tokens (snd k) \<noteq> None" "length (cl_tasks l) = length works" "i \<le> length works"
  shows "cohort_loop reference n works l prefetch_next on (drop i (cl_tasks l)) i transfers v
    = (Inr (zip (map (\<lambda>(j, g). plan_rids (cl_plans l ! j)) (drop i (cl_tasks l))) ks, length works), v')"
  using assms
proof (induction "length works - i" arbitrary: i transfers v ks)
  case 0
  then show ?case by (simp add: py_basic)
next
  case (Suc x)
  have i: "i < length works" using Suc.hyps(2) by simp
  then have up: "[i..<length works] = i # [Suc i..<length works]" by (simp add: upt_conv_Cons)
  have visits: "drop i (cl_tasks l) = cl_tasks l ! i # drop (Suc i) (cl_tasks l)"
    using i Suc.prems(3) by (simp add: Cons_nth_drop_Suc)
  obtain t where t: "dget transfers i = Some t"
    using Suc.prems(1) unfolding up by (auto simp: py_basic split: option.splits)
  obtain k v1 where k: "launch_window t v = (Inr k, v1)" and
      r1: "py_bind (refill n works prefetch_next on i t (ddel i transfers)) (\<lambda>transfers'.
        py_bind (ring_loop n works prefetch_next on [Suc i..<length works] transfers') (\<lambda>ks. py_return (k # ks))) v1 = (Inr ks, v')"
    using Suc.prems(1) unfolding up ring_loop.simps t option.case by (rule py_bind_InrE)
  obtain d v2 where d: "refill n works prefetch_next on i t (ddel i transfers) v1 = (Inr d, v2)" and
      r2: "py_bind (ring_loop n works prefetch_next on [Suc i..<length works] d) (\<lambda>ks. py_return (k # ks)) v2 = (Inr ks, v')"
    using r1 by (rule py_bind_InrE)
  obtain ks' v3 where r3: "ring_loop n works prefetch_next on [Suc i..<length works] d v2 = (Inr ks', v3)"
      and "py_return (k # ks') v3 = (Inr ks, v')"
    using r2 by (rule py_bind_InrE)
  then have ks: "ks = k # ks'" "v3 = v'" by (simp_all add: py_basic)
  have "snd k = t" using k by (auto simp: launch_window_def)
  then have valid: "tf_valid_tokens t \<noteq> None" using Suc.prems(2) by (simp add: ks)
  have IH: "cohort_loop reference n works l prefetch_next on (drop (Suc i) (cl_tasks l)) (Suc i) d v2
      = (Inr (zip (map (\<lambda>(j, g). plan_rids (cl_plans l ! j)) (drop (Suc i) (cl_tasks l))) ks', length works), v')"
    using Suc.hyps r3 Suc.prems(2,3) i by (intro Suc.hyps(1)) (auto simp: ks)
  show ?case
    unfolding visits cohort_loop.simps t option.case
    using i Suc.prems(3) valid
    by (simp add: py_bind_Inr [of "launch_window t" v, OF k] py_bind_Inr [of "refill n works prefetch_next on i t (ddel i transfers)" v1, OF d]
        py_bind_Inr [of "cohort_loop reference n works l prefetch_next on (drop (Suc i) (cl_tasks l)) (Suc i) d" v2, OF IH] ks case_prod_beta)
      (simp add: py_basic)
qed

interpretation cohort: next_layer "cohort_good cfg items st0" "\<lambda>nl. cohort_works cfg q_len round_id items nl st0"
    "\<lambda>nl. cohort_keys cfg q_len round_id items nl st0"
    "batch_next ''cohort'' round_id items (\<lambda>nl. cohort_keys cfg q_len round_id items nl st0)"
    "cohort_queue cfg q_len round_id now_ns items" "prefetch_next_batched_layer True ''cohort'' round_id items" st0 layer
  for cfg :: specstream_config and q_len round_id now_ns :: int and items :: "stream_item list" and layer :: int
    and st0 :: "'k history_store"
proof (unfold_locales, goal_cases)
  case (1 v nl)
  then show ?case by (rule cohort_queue_ready)
next
  case (5 nl n cuda pin v worksA A B s av)
  show ?case
    by (rule prefetch_batched_layer [where K = "\<lambda>nl. cohort_keys cfg q_len round_id items nl st0", OF 5(3-7)])
       (use cohort_works_ok [OF 5(1,2)] in blast)
qed (auto simp: batch_next_def cached_transfers_def prefetch_next_batched_layer_def py_basic)

section \<open>All layers in cohorts\<close>

definition cohort_entry ::
    "int \<Rightarrow> bool \<Rightarrow> bool \<Rightarrow> specstream_config \<Rightarrow> int \<Rightarrow> int \<Rightarrow> stream_item list \<Rightarrow> 'k history_store \<Rightarrow> int \<Rightarrow> 'k stream_verifier
      \<Rightarrow> 'k staging_run \<Rightarrow> bool" where
  "cohort_entry n cuda pin cfg q_len round_id items st0 =
     queue_entry n cuda pin ''cohort'' round_id items (cohort_good cfg items st0)
       (\<lambda>nl. cohort_works cfg q_len round_id items nl st0) (\<lambda>nl. cohort_keys cfg q_len round_id items nl st0) st0"

text \<open>The kernels of a layer with the requests of their cohorts.\<close>

definition cohorts_done ::
    "specstream_config \<Rightarrow> int \<Rightarrow> int \<Rightarrow> stream_item list \<Rightarrow> 'k history_store \<Rightarrow> int \<Rightarrow> (string list \<times> nat \<times> transfer) list
      \<Rightarrow> 'k staging_run \<Rightarrow> bool" where
  "cohorts_done cfg q_len round_id items st0 layer rks s \<longleftrightarrow>
     kernels_ok (cohort_works cfg q_len round_id items layer st0) (map snd rks) s
   \<and> map fst rks = cohort_rids cfg q_len round_id items layer st0"

lemma cohorts_done_later:
  "cohorts_done cfg q_len round_id items st0 layer rks s \<Longrightarrow> continues gone s s' \<Longrightarrow> cohorts_done cfg q_len round_id items st0 layer rks s'"
  using kernels_ok_continues by (auto simp: cohorts_done_def)

lemma cohort_kernels_valid:
  assumes "kernels_ok (cohort_works cfg q_len round_id items layer st0) ks s" "k \<in> set ks"
  shows "tf_valid_tokens (snd k) \<noteq> None"
proof -
  obtain j where j: "j < length ks" "k = ks ! j" using assms(2) by (auto simp: in_set_conv_nth)
  then have "fills_work (cohort_works cfg q_len round_id items layer st0 ! j) (snd k)"
      "j < length (cohort_works cfg q_len round_id items layer st0)"
    using assms(1) by (auto simp: kernels_ok_def launched_def)
  then show ?thesis by (auto simp: cohort_works_def Let_def slot_work_def fills_work_def)
qed

lemma length_cohort_rids: "length (cohort_rids cfg q_len round_id items layer st) = length (cohort_works cfg q_len round_id items layer st)"
  by (simp add: cohort_rids_def cohort_works_def Let_def)

lemma stream_cohorts_ok:
  assumes e: "cohort_entry n cuda pin cfg q_len round_id items st0 layer v s"
  defines "W \<equiv> \<lambda>nl. cohort_works cfg q_len round_id items nl st0" and "K \<equiv> \<lambda>nl. cohort_keys cfg q_len round_id items nl st0"
  shows "\<exists>rks B v' s'. stream_history_cohorts cfg q_len clock round_id items layer on v = (Inr rks, v')
    \<and> cohorts_done cfg q_len round_id items st0 layer rks s'
    \<and> ring_state (next_works W st0 layer) (next_holds (cohort_good cfg items st0) W K (batch_next ''cohort'' round_id items K) st0 layer)
        n cuda pin (sp_num_buffers (vf_staging v)) (W layer) [] B v' s'
    \<and> continues UNIV s s' \<and> (B = [] \<or> length B = min (sp_num_buffers (vf_staging v)) (length (next_works W st0 layer)))"
proof -
  let ?m = "sp_num_buffers (vf_staging v)" and ?key = "batched_prefetch_key round_id layer ''cohort'' items"
  let ?pf = "prefetch_next_cohort cfg q_len round_id (snd (clock layer)) items layer"
  have en: "cohort_good cfg items st0" "layer \<in> set (hs_layer_ids st0)" "reread st0 (vf_store v)" "0 < ?m"
    using e by (auto simp: cohort_entry_def queue_entry_def starts_def)
  obtain l st' where l: "build_cohort_layer_work cfg q_len round_id (fst (clock layer)) items layer v = (Inr l, v\<lparr>vf_store := st'\<rparr>)"
      "reread (vf_store v) st'" "layer_built cfg q_len round_id items layer st0 st' l"
    using cohort_layer_ready [OF en] by blast
  have built: "cohort_tasks st' l = W layer" "cl_task_keys l = K layer" "plan_tasks (cl_groups l) (cl_plans l) = Inr (cl_tasks l)"
      "map (\<lambda>(i, g). plan_rids (cl_plans l ! i)) (cl_tasks l) = cohort_rids cfg q_len round_id items layer st0"
    using l(3) by (simp_all add: layer_built_def W_def K_def)
  have len: "length (cl_tasks l) = length (W layer)"
    using arg_cong [OF built(4), of length] length_cohort_rids [of cfg q_len round_id items layer st0] by (simp add: W_def)
  obtain A v1 where A: "take_batched_prefetch ?key (K layer) (v\<lparr>vf_store := st', vf_next_prefetch := None\<rparr>) = (Inr A, v1)"
      "ring_state (next_works W st0 layer) (next_holds (cohort_good cfg items st0) W K (batch_next ''cohort'' round_id items K) st0 layer)
         n cuda pin ?m (W layer) A [] v1 s"
      "A = [] \<or> map fst A = [0..<min ?m (length (W layer))]" "vf_staging v1 = vf_staging v" "vf_store v1 = st'"
    using queue_take [OF e [unfolded cohort_entry_def] l(2)] unfolding W_def K_def by blast
  have ok: "\<forall>w \<in> set (W layer). work_ok w" using cohort_works_ok [OF en(1,2)] by (auto simp: W_def)
  have closure: "?pf = (\<lambda>av. py_bind (prepare_next layer (cohort_queue cfg q_len round_id (snd (clock layer)) items))
      (\<lambda>_ v. prefetch_next_batched_layer True ''cohort'' round_id items av (the (vf_next_prefetch v)) v))"
    by (simp add: fun_eq_iff prefetch_next_cohort_def)
  obtain ks B v' s' where ring: "py_bind (ring_fill (W layer) [0..<min ?m (length (W layer))] A) (\<lambda>transfers.
      py_bind (ring_loop ?m (W layer) ?pf on [0..<length (W layer)] transfers) (\<lambda>kernels.
      py_bind (if on then ?pf None else py_return ()) (\<lambda>_. py_return kernels))) v1 = (Inr ks, v')"
      "kernels_ok (W layer) ks s'"
      "ring_state (next_works W st0 layer) (next_holds (cohort_good cfg items st0) W K (batch_next ''cohort'' round_id items K) st0 layer)
         n cuda pin ?m (W layer) [] B v' s'" "continues UNIV s s'"
      "if on then length B = min ?m (length (next_works W st0 layer)) else B = []"
    using cohort.ring.ring_layer_ok [OF A(2) [unfolded W_def K_def] en(4) ok [unfolded W_def] A(3) [unfolded W_def], of "snd (clock layer)" on]
    unfolding closure kernels_ok_def W_def K_def by blast
  obtain tr v2 where tr: "ring_fill (W layer) [0..<min ?m (length (W layer))] A v1 = (Inr tr, v2)"
      "py_bind (ring_loop ?m (W layer) ?pf on [0..<length (W layer)] tr) (\<lambda>kernels.
      py_bind (if on then ?pf None else py_return ()) (\<lambda>_. py_return kernels)) v2 = (Inr ks, v')"
    using ring(1) by (rule py_bind_InrE)
  obtain ks' v3 where loop: "ring_loop ?m (W layer) ?pf on [0..<length (W layer)] tr v2 = (Inr ks', v3)"
      "py_bind (if on then ?pf None else py_return ()) (\<lambda>_. py_return ks') v3 = (Inr ks, v')"
    using tr(2) by (rule py_bind_InrE)
  obtain v4 where last: "(if on then ?pf None else py_return ()) v3 = (Inr (), v4)" "py_return ks' v4 = (Inr ks, v')"
    using loop(2) by (rule py_bind_InrE) simp
  have ks: "ks' = ks" "v4 = v'" using last(2) by (simp_all add: py_basic)
  let ?rks = "zip (cohort_rids cfg q_len round_id items layer st0) ks"
  have valid: "\<forall>k \<in> set ks. tf_valid_tokens (snd k) \<noteq> None" using cohort_kernels_valid ring(2) by (fastforce simp: W_def)
  have cloop: "cohort_loop (cf_reference_attention cfg) ?m (W layer) l ?pf on (cl_tasks l) 0 tr v2 = (Inr (?rks, length (W layer)), v3)"
    using cohort_loop_ring [OF loop(1) [unfolded ks] valid len le0] built(4) by simp
  have "stream_history_cohorts cfg q_len clock round_id items layer on v = (Inr ?rks, v')"
    unfolding stream_history_cohorts_def py_bind_Inr [of "build_cohort_layer_work cfg q_len round_id (fst (clock layer)) items layer" v, OF l(1)]
    using A(1,4,5) built len last(1) ks
    by (simp add: py_bind_Inr py_update_def Let_def tr(1) cloop, cases on) (simp_all add: py_basic)
  moreover have "cohorts_done cfg q_len round_id items st0 layer ?rks s'"
    using ring(2) length_cohort_rids [of cfg q_len round_id items layer st0] by (simp add: cohorts_done_def kernels_ok_def W_def)
  ultimately show ?thesis using ring(3,4,5) by (cases on) auto
qed

lemma forward_cohorts_ok:
  assumes e: "cohort_entry n cuda pin cfg q_len round_id items st0 (hs_layer_ids st0 ! i) v s" and i: "i < length (hs_layer_ids st0)"
  shows "\<exists>rks v' s'. forward_cohorts cfg q_len clock round_id items (hs_layer_ids st0 ! i) v = (Inr rks, v')
    \<and> cohorts_done cfg q_len round_id items st0 (hs_layer_ids st0 ! i) rks s'
    \<and> reaches (staging_init n cuda pin) staging_step s' \<and> sr_pool s' = vf_staging v' \<and> continues UNIV s s'
    \<and> (Suc i < length (hs_layer_ids st0) \<longrightarrow> cohort_entry n cuda pin cfg q_len round_id items st0 (hs_layer_ids st0 ! Suc i) v' s')"
proof -
  let ?v0 = "purge_stale_prefetch round_id v" and ?layer = "hs_layer_ids st0 ! i" and ?on = "cf_layer_prefetch cfg \<and> \<not> cf_reference_attention cfg"
  let ?W = "\<lambda>nl. cohort_works cfg q_len round_id items nl st0" and ?K = "\<lambda>nl. cohort_keys cfg q_len round_id items nl st0"
  let ?m = "sp_num_buffers (vf_staging ?v0)"
  have e0: "cohort_entry n cuda pin cfg q_len round_id items st0 ?layer ?v0 s"
    using e unfolding cohort_entry_def by (rule queue_entry_purge)
  have en: "distinct (hs_layer_ids st0)" "0 < ?m" using e0 by (auto simp: cohort_entry_def queue_entry_def starts_def)
  obtain rks B v' s' where k: "stream_history_cohorts cfg q_len clock round_id items ?layer ?on ?v0 = (Inr rks, v')"
      "cohorts_done cfg q_len round_id items st0 ?layer rks s'"
      "ring_state (next_works ?W st0 ?layer) (next_holds (cohort_good cfg items st0) ?W ?K (batch_next ''cohort'' round_id items ?K) st0 ?layer)
        n cuda pin ?m (?W ?layer) [] B v' s'"
      "continues UNIV s s'" "B = [] \<or> length B = min ?m (length (next_works ?W st0 ?layer))"
    using stream_cohorts_ok [OF e0, of clock ?on] by blast
  have "reaches (staging_init n cuda pin) staging_step s'" "sr_pool s' = vf_staging v'"
    using k(3) by (simp_all add: ring_state_def queued_def backed_def)
  moreover have "cohort_entry n cuda pin cfg q_len round_id items st0 (hs_layer_ids st0 ! Suc i) v' s'" if "Suc i < length (hs_layer_ids st0)"
    unfolding cohort_entry_def by (rule queue_next [OF k(3,5) en(2,1) that])
  ultimately show ?thesis using k(1,2,4) by (auto simp: forward_cohorts_def py_basic)
qed

interpretation cohort_round: layer_pipeline n cuda pin "hs_layer_ids st0" "forward_cohorts cfg q_len clock round_id items"
    "cohort_entry n cuda pin cfg q_len round_id items st0" "cohorts_done cfg q_len round_id items st0"
  for n :: int and cuda pin :: bool and cfg :: specstream_config and q_len :: int and clock :: "int \<Rightarrow> int \<times> int" and round_id :: int
    and items :: "stream_item list" and st0 :: "'k history_store"
  by unfold_locales (erule (1) cohorts_done_later, rule forward_cohorts_ok)

section \<open>What the cohort kernels read\<close>

text \<open>
  What a cohort kernel reads for request number \<open>r\<close> of its plan: as many tokens as the valid length on
  the device says (a key and a value each), from the start of that request's part of the window.
\<close>

definition cohort_part :: "'k trace \<Rightarrow> nat list \<Rightarrow> string \<Rightarrow> string list \<times> nat \<times> transfer \<Rightarrow> 'k elem option list" where
  "cohort_part tr sch rid x =
     (case x of (rids, k, t) \<Rightarrow>
       case index_of rids rid of
         None \<Rightarrow> []
       | Some r \<Rightarrow>
           (case tf_valid_tokens t of
              None \<Rightarrow> []
            | Some (valid, cnt) \<Rightarrow>
                (case mem_before tr sch k (wi_buf valid, r) of
                   Some (Len len) \<Rightarrow>
                     map (\<lambda>c. mem_before tr sch k (wi_buf (tf_window t), r * (tf_count t div cnt) + c)) [0..<len * 2]
                 | _ \<Rightarrow> [])))"

lemma slot_tensors: "g \<in> set gs \<Longrightarrow> slot_work st groups x = CohortWork gs \<Longrightarrow> \<exists>cs. g = map (chunk_tensor st) cs"
  by (auto simp: slot_work_def)

lemma chunk_group_data: "length (group_data (map (chunk_tensor st) cs)) = group_length (map (chunk_tensor st) cs) * 2"
  by (induction cs) (simp_all add: group_data_def group_length_def chunk_tensor_def concat_pairs_length)

lemma cohort_part_read:
  assumes l: "launched works j (k, t) s" and w: "works ! j = slot_work st groups (rs, g)" "work_ok (works ! j)"
    and r: "reaches (staging_init n cuda pin) staging_step s" and sch: "cuda_schedule (sp_trace (sr_pool s)) sch"
  shows "cohort_part (sp_trace (sr_pool s)) sch rid (rs, k, t) = map (Some \<circ> Elem) (request_part rid (rs, works ! j))"
proof (cases "index_of rs rid")
  case None
  then show ?thesis by (simp add: cohort_part_def request_part_def w(1) slot_work_def)
next
  case (Some r)
  let ?tr = "sp_trace (sr_pool s)"
  define gs where "gs = map (\<lambda>r. map (chunk_tensor st) (slot_group groups g r)) rs"
  have work: "works ! j = CohortWork gs" by (simp add: w(1) slot_work_def gs_def)
  have r': "r < length gs" using index_of_at [OF Some] by (simp add: gs_def)
  obtain valid where t: "tf_valid_tokens t = Some (valid, length gs)" "tf_count t = window_size (works ! j)"
    using l by (auto simp: launched_def fills_work_def work)
  obtain direct where rd: "(k, work_request direct (works ! j), t) \<in> sr_reads s" using l by (auto simp: launched_def)
  have cells: "promised (work_request direct (works ! j)) t = cohort_cells (wi_buf (tf_window t)) (wi_buf valid) gs"
    by (simp add: work work_request_def t(1))
  note read = read_delivered [OF r rd sch, unfolded cells]
  have "concat gs \<noteq> []" using w(2) by (simp add: work_ok_def work)
  then obtain h where h: "hd (concat gs) = h" "h \<in> set (concat gs)" by (cases "concat gs") auto
  then have row: "row_elems (hd (concat gs)) = 2" by (auto simp: gs_def row_elems_def chunk_tensor_def)
  have stride: "tf_count t div length gs = Max (set (map group_length gs)) * 2" using r' by (cases "gs = []") (simp_all add: t(2) work row)
  have size: "length (group_data (gs ! r)) = group_length (gs ! r) * 2" using r' by (simp add: gs_def chunk_group_data)
  have "mem_before ?tr sch k (wi_buf valid, r) = Some (Len (group_length (gs ! r)))"
    by (rule read) (use r' in \<open>auto simp: cohort_cells_def\<close>)
  moreover have "mem_before ?tr sch k (wi_buf (tf_window t), r * (tf_count t div length gs) + c) = Some (Elem (group_data (gs ! r) ! c))"
    if "c < group_length (gs ! r) * 2" for c
    by (rule read) (use that r' size in \<open>auto simp: cohort_cells_def window_cells_def stride row mult.assoc intro!: bexI [of _ r]\<close>)
  ultimately show ?thesis
    using Some size by (intro nth_equalityI) (simp_all add: cohort_part_def request_part_def work t(1))
qed

lemma cohort_kernels_contents:
  assumes d: "cohorts_done cfg q_len round_id items st0 layer rks s" and good: "cohort_good cfg items st0" "layer \<in> set (hs_layer_ids st0)"
    and r: "reaches (staging_init n cuda pin) staging_step s" and sch: "cuda_schedule (sp_trace (sr_pool s)) sch"
  shows "concat (map (cohort_part (sp_trace (sr_pool s)) sch rid) rks)
    = map (Some \<circ> Elem) (concat (map (request_part rid)
        (zip (cohort_rids cfg q_len round_id items layer st0) (cohort_works cfg q_len round_id items layer st0))))"
proof -
  let ?works = "cohort_works cfg q_len round_id items layer st0" and ?rids = "cohort_rids cfg q_len round_id items layer st0"
  have len: "length rks = length ?works" and k: "\<And>j. j < length rks \<Longrightarrow> launched ?works j (snd (rks ! j)) s"
      and rids: "map fst rks = ?rids"
    using d by (simp_all add: cohorts_done_def kernels_ok_def)
  have "cohort_part (sp_trace (sr_pool s)) sch rid (rks ! j) = map (Some \<circ> Elem) (request_part rid (zip ?rids ?works ! j))"
    if j: "j < length rks" for j
  proof -
    let ?slots = "cohort_slots (group_table (layer_group_size cfg) items layer st0) (layer_rids cfg q_len round_id items layer st0)"
    have jw: "j < length ?works" "j < length ?slots" "j < length ?rids" using j len length_cohort_rids [of cfg q_len round_id items layer st0]
      by (simp_all add: cohort_works_def Let_def)
    obtain rs g where x: "?slots ! j = (rs, g)" by (cases "?slots ! j")
    have rs: "?rids ! j = rs" and w: "?works ! j = slot_work st0 (group_table (layer_group_size cfg) items layer st0) (rs, g)"
      using jw(2) x by (simp_all add: cohort_rids_def cohort_works_def Let_def)
    have fst: "fst (rks ! j) = rs" using arg_cong [OF rids, of "\<lambda>xs. xs ! j"] j rs by simp
    obtain k' t where kt: "snd (rks ! j) = (k', t)" by (cases "snd (rks ! j)")
    have ok: "work_ok (?works ! j)" by (rule cohort_works_ok [OF good nth_mem [OF jw(1)]])
    have "cohort_part (sp_trace (sr_pool s)) sch rid (rs, k', t) = map (Some \<circ> Elem) (request_part rid (rs, ?works ! j))"
      by (rule cohort_part_read [OF k [OF j, unfolded kt] w ok r sch])
    moreover have "rks ! j = (rs, k', t)" using fst kt by (cases "rks ! j") simp
    ultimately show ?thesis using jw rs by simp
  qed
  then have "map (cohort_part (sp_trace (sr_pool s)) sch rid) rks = map (map (Some \<circ> Elem) \<circ> request_part rid) (zip ?rids ?works)"
    using len length_cohort_rids [of cfg q_len round_id items layer st0]
    by (intro nth_equalityI [of "map _ rks"]) simp_all
  then show ?thesis by (simp add: map_concat o_def)
qed

text \<open>
  C8: A round that streams several requests in cohorts never raises, whatever the clock says when the
  plans of a layer are built, and whether its windows were prefetched by direct copies or packed
  on the host.  In every execution order that the streams and events allow, the kernels of each layer
  read for every request, one group after the other and up to the valid lengths on the device, exactly
  the keys and values sealed for it in that layer, up to its history length.
\<close>

theorem cohort_layers_read_history:
  assumes "reaches (staging_init n cuda pin) staging_step s" "sr_pool s = vf_staging v"
    "cohort_good cfg items (vf_store v)" "distinct (hs_layer_ids (vf_store v))" "fresh_round round_id v"
  shows "\<exists>rkss v'. over_layers (forward_cohorts cfg q_len clock round_id items) (hs_layer_ids (vf_store v)) v = (Inr rkss, v')
    \<and> length rkss = length (hs_layer_ids (vf_store v))
    \<and> (\<forall>sch off item. cuda_schedule (sp_trace (vf_staging v')) sch \<and> off < length rkss \<and> item \<in> set items \<longrightarrow>
        concat (map (cohort_part (sp_trace (vf_staging v')) sch (si_rid item)) (rkss ! off))
        = map (Some \<circ> Elem) (history_elems item off (vf_store v)))"
proof (cases "hs_layer_ids (vf_store v) = []")
  case True
  then show ?thesis by (simp add: py_basic)
next
  case ids: False
  let ?st = "vf_store v" and ?ids = "hs_layer_ids (vf_store v)"
  obtain s0 where s0: "starts n cuda pin (cohort_works cfg q_len round_id items (?ids ! 0) ?st) [] (vf_staging v) s0"
    using fresh_start [OF assms(1,2)] by blast
  moreover have "batch_next ''cohort'' round_id items (\<lambda>nl. cohort_keys cfg q_len round_id items nl ?st) (?ids ! 0) [] v"
    using fresh_none(2) [OF assms(5)] by (simp add: batch_next_def cached_transfers_def batched_prefetch_key_def)
  ultimately have "cohort_entry n cuda pin cfg q_len round_id items ?st (?ids ! 0) v s0"
    using assms(3,4) ids by (auto simp: cohort_entry_def queue_entry_def)
  from cohort_round.over_layers_ok [OF this, of clock] ids
  obtain rkss v' s' where k: "over_layers (forward_cohorts cfg q_len clock round_id items) ?ids v = (Inr rkss, v')" "length rkss = length ?ids"
      "\<forall>off < length rkss. cohorts_done cfg q_len round_id items ?st (?ids ! off) (rkss ! off) s'"
      "reaches (staging_init n cuda pin) staging_step s'" "sr_pool s' = vf_staging v'"
    by auto
  have "concat (map (cohort_part (sp_trace (vf_staging v')) sch (si_rid item)) (rkss ! off)) = map (Some \<circ> Elem) (history_elems item off ?st)"
    if sch: "cuda_schedule (sp_trace (vf_staging v')) sch" and off: "off < length rkss" and item: "item \<in> set items" for sch off item
  proof -
    have l: "off < length ?ids" "?ids ! off \<in> set ?ids" using off k(2) by simp_all
    show ?thesis
      using cohort_kernels_contents [OF k(3) [rule_format, OF off] assms(3) l(2) k(4), unfolded k(5), OF sch, of "si_rid item"]
        cohort_history [OF assms(3) l(1) item, of q_len round_id] by simp
  qed
  then show ?thesis using k(1,2) by blast
qed

theorem cohort_layers_read_history_witness:
  "\<exists>rkss v'. over_layers (forward_cohorts (config_defaults\<lparr>cf_chunks_per_transfer := 1, cf_max_cohort_size := 2\<rparr>) 4 (\<lambda>layer. (1000 * layer, 7)) 7
      [\<lparr> si_rid = ''r'', si_history_len = 3 \<rparr>, \<lparr> si_rid = ''s'', si_history_len = 2 \<rparr>]) [0, 1] demo_verifier = (Inr rkss, v')
    \<and> concat (map (cohort_part (sp_trace (vf_staging v')) [0..<length (sp_trace (vf_staging v'))] ''s'') (rkss ! 1))
      = map (Some \<circ> Elem) [103, - 103, 104, - 104]"
proof -
  let ?cfg = "config_defaults\<lparr>cf_chunks_per_transfer := 1, cf_max_cohort_size := 2\<rparr>" and ?clock = "\<lambda>layer. (1000 * layer, 7)"
    and ?item = "\<lparr> si_rid = ''s'', si_history_len = 2 \<rparr>"
  let ?items = "[\<lparr> si_rid = ''r'', si_history_len = 3 \<rparr>, ?item]"
  have good: "cohort_good ?cfg ?items demo_store"
    using demo_history by (simp add: cohort_good_def cohort_ready_def config_defaults_def)
  obtain rkss v' where k: "over_layers (forward_cohorts ?cfg 4 ?clock 7 ?items) [0, 1] demo_verifier = (Inr rkss, v')" "length rkss = 2"
      "\<forall>sch off item. cuda_schedule (sp_trace (vf_staging v')) sch \<and> off < length rkss \<and> item \<in> set ?items \<longrightarrow>
        concat (map (cohort_part (sp_trace (vf_staging v')) sch (si_rid item)) (rkss ! off))
        = map (Some \<circ> Elem) (history_elems item off demo_store)"
    using cohort_layers_read_history [OF demo_staging_run, of demo_verifier ?cfg ?items 7 4 ?clock] good
    unfolding demo_fresh(1) demo_ids by (auto simp: demo_fresh)
  have "history_elems ?item 1 demo_store = [103, - 103, 104, - 104]" by (simp add: history_elems_def demo_contents)
  then show ?thesis
    using k(1) k(3) [rule_format, OF conjI, OF issue_order_schedule, of 1 ?item] k(2) by auto
qed

end
