(* ===== verification/SealRuntime.thy ===== *)
theory SealRuntime
  imports TieredKV HistoryStore KVPool
begin

text \<open>
  The tiered-KV half of \<open>SpecStreamTargetRuntime\<close> (\<open>specstream/verifier.py\<close>): it tracks the
  lifecycle of every request, seals committed prefixes to the CPU history store, retires the
  completed copies by freeing and tombstoning their GPU slots, and drains a request before the
  engine releases it.  The state composes the tiered states, the history store, the GPU slot
  memory and the request objects; the published \<open>specstream_*\<close> attributes are fields of the
  request.  The GPU pool, the host and the completion of CUDA events are parameters as in
  \<open>HistoryStore\<close>.
\<close>

section \<open>State\<close>

record seal_config =
  sg_enabled :: bool
  sg_active_tail_tokens :: int
  sg_chunk_tokens :: int
  sg_min_history_tokens :: int
  sg_strict_invariants :: bool

text \<open>The request of the Target, with the attributes \<open>_publish_req_state\<close> writes.\<close>

record target_req = kv_req +
  tq_history_len :: int
  tq_committed_len :: int
  tq_logical_len :: int
  tq_round_id :: int
  tq_mode :: string
  tq_q :: int
  tq_seal_inflight :: bool

record pending_seal =
  ps_req_pool_idx :: nat
  ps_history_start :: int
  ps_seal_end :: int
  ps_slots :: "nat list"
  ps_ticket :: seal_ticket

record 'k seal_runtime =
  tr_config :: seal_config
  tr_states :: "(string, tiered_state) dict"
  tr_pending_seals :: "(string, pending_seal) dict"
  tr_history :: "'k history_store"
  tr_mem :: kv_mem
  tr_reqs :: "target_req heap"
  tr_round :: int

text \<open>What the methods read of the outside: the host, the GPU pool, whether slots are on CUDA, which events are done.\<close>

record 'k seal_env =
  ev_host :: host_env
  ev_pool :: "'k kv_pool"
  ev_slots_cuda :: bool
  ev_done :: "nat \<Rightarrow> bool"

section \<open>Operations\<close>

definition put_state :: "string \<Rightarrow> tiered_state \<Rightarrow> ('k, 'z) seal_runtime_scheme \<Rightarrow> ('k, 'z) seal_runtime_scheme" where
  "put_state rid st rt = rt\<lparr>tr_states := dset rid st (tr_states rt)\<rparr>"

definition publish_req_state ::
    "nat \<Rightarrow> string \<Rightarrow> int \<Rightarrow> ('k, 'z) seal_runtime_scheme \<Rightarrow> ('k, 'z) seal_runtime_scheme" where
  "publish_req_state i mode q rt =
     (let r = obj (tr_reqs rt) i in
      case dget (tr_states rt) (kr_rid r) of
        None \<Rightarrow> rt
      | Some st \<Rightarrow>
         rt\<lparr>tr_reqs := dset i (r\<lparr>tq_history_len := ts_history_len st, tq_committed_len := ts_committed_len st,
              tq_logical_len := ts_logical_len st, kr_stream_enabled := ts_stream_enabled st,
              tq_round_id := ts_round_id st, tq_mode := mode, tq_q := q,
              tq_seal_inflight := ts_seal_inflight st\<rparr>) (tr_reqs rt)\<rparr>)"

text \<open>One entry of the loop of \<open>_poll_pending_seals\<close>.\<close>

definition poll_one ::
    "'k seal_env \<Rightarrow> bool \<Rightarrow> string \<Rightarrow> (('k, 'z) seal_runtime_scheme, bool) py" where
  "poll_one ev wait rid rt =
     (case dget (tr_pending_seals rt) rid of
        None \<Rightarrow> (Inr False, rt)
      | Some p \<Rightarrow>
         (case complete_seal (ev_done ev) wait (ps_ticket p) (tr_history rt) of
            (False, t, hs) \<Rightarrow> (Inr False, rt\<lparr>tr_history := hs\<rparr>)
          | (True, t, hs) \<Rightarrow>
             (let rt1 = rt\<lparr>tr_history := hs,
                           tr_pending_seals := dset rid (p\<lparr>ps_ticket := t\<rparr>) (tr_pending_seals rt)\<rparr>
              in case dget (tr_states rt) rid of
                   None \<Rightarrow> (Inl AssertionError, rt1)
                 | Some st \<Rightarrow>
                    (let rt2 = rt1\<lparr>tr_mem := free_and_tombstone (ps_slots p) (ps_req_pool_idx p)
                                     (nat (ps_history_start p)) (nat (ps_seal_end p)) (tr_mem rt)\<rparr>
                     in case mark_sealed st (ps_seal_end p) (tk_block_ids t) of
                          Inl e \<Rightarrow> (Inl e, rt2)
                        | Inr st' \<Rightarrow>
                            (Inr True, (put_state rid st' rt2)
                               \<lparr>tr_pending_seals := ddel rid (tr_pending_seals rt2)\<rparr>)))))"

fun poll_loop ::
    "'k seal_env \<Rightarrow> bool \<Rightarrow> string option \<Rightarrow> string list \<Rightarrow> (('k, 'z) seal_runtime_scheme, int) py" where
  "poll_loop ev wait only [] = py_return 0"
| "poll_loop ev wait only (rid # rids) =
     (if only \<noteq> None \<and> only \<noteq> Some rid then poll_loop ev wait only rids
      else py_bind (poll_one ev wait rid) (\<lambda>b.
           py_bind (poll_loop ev wait only rids) (\<lambda>n.
           py_return (if b then n + 1 else n))))"

definition poll_pending_seals ::
    "'k seal_env \<Rightarrow> bool \<Rightarrow> string option \<Rightarrow> (('k, 'z) seal_runtime_scheme, int) py" where
  "poll_pending_seals ev wait only rt =
     poll_loop ev wait only (map fst (tr_pending_seals rt)) rt"

text \<open>\<open>seal_end\<close> of \<open>_maybe_seal\<close>.\<close>

definition seal_end_of :: "seal_config \<Rightarrow> int \<Rightarrow> int" where
  "seal_end_of c committed =
     (max 0 (committed - sg_active_tail_tokens c) div sg_chunk_tokens c) * sg_chunk_tokens c"

definition maybe_seal :: "'k seal_env \<Rightarrow> nat \<Rightarrow> (('k, 'z) seal_runtime_scheme, unit) py" where
  "maybe_seal ev i rt =
     (let r = obj (tr_reqs rt) i; rid = kr_rid r; c = tr_config rt in
      case dget (tr_states rt) rid of
        None \<Rightarrow> (Inl KeyError, rt)
      | Some st \<Rightarrow>
         if \<not> sg_enabled c \<or> ts_seal_inflight st \<or> dget (tr_pending_seals rt) rid \<noteq> None
         then (Inr (), rt)
         else
          let seal_end = seal_end_of c (ts_committed_len st) in
          if seal_end < sg_min_history_tokens c \<or> seal_end \<le> ts_history_len st then (Inr (), rt)
          else
           let row = the (kr_req_pool_idx r);
               slots = pool_read row (nat (ts_history_len st)) (nat seal_end) (km_pool (tr_mem rt))
           in if slots = [] then (Inr (), rt)
              else case start_seal st of
                Inl e \<Rightarrow> (Inl e, rt)
              | Inr st1 \<Rightarrow>
                 (case seal_slots_async (ev_host ev) (ev_pool ev) (ev_slots_cuda ev) rid
                         (ts_history_len st) slots (tr_history rt) of
                    (Inl e, hs) \<Rightarrow>
                      (Inl e, (put_state rid (st1\<lparr>ts_seal_inflight := False\<rparr>) rt)\<lparr>tr_history := hs\<rparr>)
                  | (Inr t, hs) \<Rightarrow>
                      (Inr (), (put_state rid st1 rt)
                         \<lparr>tr_history := hs,
                          tr_pending_seals := dset rid \<lparr>ps_req_pool_idx = row,
                            ps_history_start = ts_history_len st, ps_seal_end = seal_end,
                            ps_slots = slots, ps_ticket = t\<rparr> (tr_pending_seals rt)\<rparr>)))"

text \<open>\<open>if strict_invariants: state.check(chunk_tokens)\<close>.\<close>

definition strict_check :: "nat \<Rightarrow> (('k, 'z) seal_runtime_scheme, unit) py" where
  "strict_check i rt =
     (if sg_strict_invariants (tr_config rt)
      then case dget (tr_states rt) (kr_rid (obj (tr_reqs rt) i)) of
             None \<Rightarrow> (Inl KeyError, rt)
           | Some st \<Rightarrow> (tiered_check (sg_chunk_tokens (tr_config rt)) st, rt)
      else (Inr (), rt))"

text \<open>\<open>states.setdefault(rid, TargetTieredKVState(rid, n, n))\<close>.\<close>

definition setdefault_state :: "nat \<Rightarrow> int \<Rightarrow> (('k, 'z) seal_runtime_scheme, unit) py" where
  "setdefault_state i n =
     py_update (\<lambda>rt. let rid = kr_rid (obj (tr_reqs rt) i) in
       case dget (tr_states rt) rid of
         None \<Rightarrow> put_state rid (tiered_new rid n n) rt
       | Some _ \<Rightarrow> rt)"

text \<open>A method of the state object of a request.\<close>

definition on_state ::
    "nat \<Rightarrow> (tiered_state \<Rightarrow> tiered_state res) \<Rightarrow> (('k, 'z) seal_runtime_scheme, unit) py" where
  "on_state i f rt =
     (let rid = kr_rid (obj (tr_reqs rt) i) in
      case dget (tr_states rt) rid of
        None \<Rightarrow> (Inl KeyError, rt)
      | Some st \<Rightarrow> (case f st of Inl e \<Rightarrow> (Inl e, rt) | Inr st' \<Rightarrow> (Inr (), put_state rid st' rt)))"

text \<open>A batch is the list of its requests with their \<open>seq_lens_cpu\<close>.\<close>

type_synonym batch = "(nat \<times> int) list"

record request_meta =
  rm_rid :: string
  rm_req_pool_idx :: nat
  rm_query_begin :: int
  rm_query_end :: int
  rm_committed_len :: int
  rm_history_len :: int
  rm_logical_len :: int
  rm_stream_enabled :: bool

definition rm_q_len :: "request_meta \<Rightarrow> int" where
  "rm_q_len x = rm_query_end x - rm_query_begin x"

definition rm_tail_tokens :: "request_meta \<Rightarrow> int" where
  "rm_tail_tokens x = rm_logical_len x - rm_history_len x"

text \<open>The loop body of \<open>build_round_meta\<close>.\<close>

definition meta_one ::
    "string \<Rightarrow> int \<Rightarrow> int \<Rightarrow> nat \<times> int \<Rightarrow> (('k, 'z) seal_runtime_scheme, request_meta) py" where
  "meta_one mode q_len index b =
     (case b of (i, committed) \<Rightarrow>
       py_bind (setdefault_state i committed) (\<lambda>_.
       py_bind (on_state i (\<lambda>st. rbind (begin_round st committed (committed + q_len)) (\<lambda>(st', _). Inr st'))) (\<lambda>_.
       py_bind (strict_check i) (\<lambda>_ rt.
         let r = obj (tr_reqs rt) i; st = the (dget (tr_states rt) (kr_rid r)) in
         (Inr \<lparr>rm_rid = kr_rid r, rm_req_pool_idx = the (kr_req_pool_idx r),
               rm_query_begin = index * q_len, rm_query_end = index * q_len + q_len,
               rm_committed_len = committed, rm_history_len = ts_history_len st,
               rm_logical_len = committed + q_len, rm_stream_enabled = ts_stream_enabled st\<rparr>,
          publish_req_state i mode q_len rt)))))"

fun meta_loop ::
    "string \<Rightarrow> int \<Rightarrow> int \<Rightarrow> batch \<Rightarrow> (('k, 'z) seal_runtime_scheme, request_meta list) py" where
  "meta_loop mode q_len index [] = py_return []"
| "meta_loop mode q_len index (b # bs) =
     py_bind (meta_one mode q_len index b) (\<lambda>x.
     py_bind (meta_loop mode q_len (index + 1) bs) (\<lambda>xs.
     py_return (x # xs)))"

text \<open>\<open>build_round_meta\<close>, without the fields it copies from the batch for the profiler.\<close>

definition build_round_meta ::
    "'k seal_env \<Rightarrow> string \<Rightarrow> int \<Rightarrow> batch \<Rightarrow> (('k, 'z) seal_runtime_scheme, int \<times> request_meta list \<times> bool) py" where
  "build_round_meta ev mode q_len bs =
     py_bind (poll_pending_seals ev False None) (\<lambda>_.
     py_bind (py_update (\<lambda>rt. rt\<lparr>tr_round := tr_round rt + 1\<rparr>)) (\<lambda>_.
     py_bind (meta_loop mode q_len 0 bs) (\<lambda>items rt.
       (Inr (tr_round rt, items, sg_enabled (tr_config rt) \<and> list_ex rm_stream_enabled items), rt))))"

definition batch_requires_streaming ::
    "'k seal_env \<Rightarrow> batch \<Rightarrow> (('k, 'z) seal_runtime_scheme, bool) py" where
  "batch_requires_streaming ev bs =
     py_bind (poll_pending_seals ev False None) (\<lambda>_ rt.
       (Inr (list_ex (\<lambda>(i, _). case dget (tr_states rt) (kr_rid (obj (tr_reqs rt) i)) of
                 None \<Rightarrow> False | Some st \<Rightarrow> ts_stream_enabled st) bs), rt))"

definition after_verify_one ::
    "'k seal_env \<Rightarrow> string \<Rightarrow> int \<Rightarrow> nat \<times> int \<Rightarrow> (('k, 'z) seal_runtime_scheme, unit) py" where
  "after_verify_one ev mode q_len b =
     (case b of (i, committed) \<Rightarrow>
       py_bind (on_state i (\<lambda>st. finish_round st committed)) (\<lambda>_.
       py_bind (maybe_seal ev i) (\<lambda>_.
       py_bind (strict_check i) (\<lambda>_.
       py_update (publish_req_state i mode q_len)))))"

definition after_verify ::
    "'k seal_env \<Rightarrow> string \<Rightarrow> int \<Rightarrow> batch \<Rightarrow> (('k, 'z) seal_runtime_scheme, int) py" where
  "after_verify ev mode q_len bs =
     py_bind (poll_pending_seals ev False None) (\<lambda>_.
     py_bind (py_for bs (after_verify_one ev mode q_len)) (\<lambda>_.
     poll_pending_seals ev False None))"

definition set_committed :: "int \<Rightarrow> tiered_state \<Rightarrow> tiered_state res" where
  "set_committed n st = Inr (st\<lparr>ts_committed_len := n, ts_logical_len := n\<rparr>)"

definition after_normal_one ::
    "'k seal_env \<Rightarrow> nat \<times> int \<Rightarrow> (('k, 'z) seal_runtime_scheme, unit) py" where
  "after_normal_one ev b =
     (case b of (i, committed) \<Rightarrow>
       py_bind (setdefault_state i committed) (\<lambda>_.
       py_bind (on_state i (set_committed committed)) (\<lambda>_.
       py_bind (maybe_seal ev i) (\<lambda>_.
       py_update (publish_req_state i ''ordinary'' 1)))))"

definition after_normal_decode ::
    "'k seal_env \<Rightarrow> batch \<Rightarrow> (('k, 'z) seal_runtime_scheme, int) py" where
  "after_normal_decode ev bs =
     py_bind (poll_pending_seals ev False None) (\<lambda>_.
     py_bind (py_for bs (after_normal_one ev)) (\<lambda>_.
     poll_pending_seals ev False None))"

text \<open>
  The branch of \<open>after_extend\<close> for a request that already has a state: its re-prefilled copy of
  the sealed prefix is dropped from the GPU.
\<close>

definition drop_sealed_copy :: "nat \<Rightarrow> int \<Rightarrow> (('k, 'z) seal_runtime_scheme, unit) py" where
  "drop_sealed_copy i committed rt =
     (let r = obj (tr_reqs rt) i; row = the (kr_req_pool_idx r) in
      case dget (tr_states rt) (kr_rid r) of
        None \<Rightarrow> (Inr (), rt)
      | Some st \<Rightarrow>
         if committed < ts_history_len st then (Inl AssertionError, rt)
         else if ts_history_len st = 0 then (Inr (), rt)
         else
           let live = filter (\<lambda>s. s \<noteq> 0) (pool_read row 0 (nat (ts_history_len st)) (km_pool (tr_mem rt)))
           in (Inr (), rt\<lparr>tr_mem := free_and_tombstone live row 0 (nat (ts_history_len st)) (tr_mem rt)\<rparr>))"

definition after_extend_one ::
    "'k seal_env \<Rightarrow> nat \<times> int \<Rightarrow> (('k, 'z) seal_runtime_scheme, unit) py" where
  "after_extend_one ev b =
     (case b of (i, committed) \<Rightarrow>
       py_bind (drop_sealed_copy i committed) (\<lambda>_.
       py_bind (setdefault_state i committed) (\<lambda>_.
       py_bind (on_state i (set_committed committed)) (\<lambda>_.
       py_bind (\<lambda>rt. if kr_is_chunked (obj (tr_reqs rt) i) \<le> 0 then maybe_seal ev i rt else (Inr (), rt)) (\<lambda>_.
       py_update (publish_req_state i ''parallel'' 1))))))"

definition after_extend ::
    "'k seal_env \<Rightarrow> batch \<Rightarrow> (('k, 'z) seal_runtime_scheme, int) py" where
  "after_extend ev bs =
     py_bind (poll_pending_seals ev False None) (\<lambda>_.
     py_bind (py_for bs (after_extend_one ev)) (\<lambda>_.
     poll_pending_seals ev False None))"

definition prepare_request_release ::
    "'k seal_env \<Rightarrow> string \<Rightarrow> (('k, 'z) seal_runtime_scheme, unit) py" where
  "prepare_request_release ev rid rt =
     (if dget (tr_pending_seals rt) rid = None then (Inr (), rt)
      else py_bind (poll_pending_seals ev True (Some rid)) (\<lambda>_. py_return ()) rt)"

text \<open>The tiered-KV part of \<open>release_request\<close> and \<open>clear\<close>.\<close>

definition release_tiered ::
    "'k seal_env \<Rightarrow> string \<Rightarrow> (('k, 'z) seal_runtime_scheme, unit) py" where
  "release_tiered ev rid =
     py_bind (prepare_request_release ev rid) (\<lambda>_.
     py_bind (py_update (\<lambda>rt. rt\<lparr>tr_states := ddel rid (tr_states rt)\<rparr>)) (\<lambda>_ rt.
       case release rid (tr_history rt) of (res, hs) \<Rightarrow> (res, rt\<lparr>tr_history := hs\<rparr>)))"

definition clear_tiered :: "'k seal_env \<Rightarrow> (('k, 'z) seal_runtime_scheme, unit) py" where
  "clear_tiered ev =
     py_bind (poll_pending_seals ev True None) (\<lambda>_.
     py_bind (py_update (\<lambda>rt. rt\<lparr>tr_pending_seals := [], tr_states := []\<rparr>)) (\<lambda>_ rt.
       case clear (tr_history rt) of (res, hs) \<Rightarrow> (res, rt\<lparr>tr_history := hs\<rparr>)))"

section \<open>The engine around the runtime\<close>

text \<open>
  What the output processor does with a finished request: drain its seal, release its KV, then
  (\<open>notify_draft_request_finished_or_aborted\<close>) release it in the runtime.
\<close>

definition release_slots :: "nat \<Rightarrow> (('k, 'z) seal_runtime_scheme, unit) py" where
  "release_slots i rt =
     (case release_kv_cache True (obj (tr_reqs rt) i) (tr_mem rt) of
        Inl e \<Rightarrow> (Inl e, rt)
      | Inr (r, m) \<Rightarrow> (Inr (), rt\<lparr>tr_reqs := dset i r (tr_reqs rt), tr_mem := m\<rparr>))"

definition finish_request :: "'k seal_env \<Rightarrow> nat \<Rightarrow> (('k, 'z) seal_runtime_scheme, unit) py" where
  "finish_request ev i rt =
     (let rid = kr_rid (obj (tr_reqs rt) i) in
      py_bind (prepare_request_release ev rid) (\<lambda>_.
      py_bind (release_slots i) (\<lambda>_.
      release_tiered ev rid)) rt)"

text \<open>\<open>ScheduleBatch.release_req\<close> with \<open>Req.reset_for_retract\<close>: the runtime is not told.\<close>

definition retract_request :: "nat \<Rightarrow> (('k, 'z) seal_runtime_scheme, unit) py" where
  "retract_request i =
     py_bind (release_slots i) (\<lambda>_.
     py_update (\<lambda>rt. let r = obj (tr_reqs rt) i in
       rt\<lparr>tr_reqs := dset i (r\<lparr>kr_prefix_indices := [], kr_extend_input_len := 0, kr_is_chunked := 0,
            kr_kv_allocated_len := 0, kr_kv_committed_len := 0, kr_kv_committed_freed := False,
            kr_kv_overallocated_freed := False\<rparr>) (tr_reqs rt)\<rparr>))"


section \<open>The invariant\<close>

definition stream_of :: "('k, 'z) seal_runtime_scheme \<Rightarrow> string \<Rightarrow> bool" where
  "stream_of rt rid = (case dget (tr_states rt) rid of None \<Rightarrow> False | Some st \<Rightarrow> ts_stream_enabled st)"

definition hist_of :: "('k, 'z) seal_runtime_scheme \<Rightarrow> string \<Rightarrow> nat" where
  "hist_of rt rid = (case dget (tr_states rt) rid of None \<Rightarrow> 0 | Some st \<Rightarrow> nat (ts_history_len st))"

text \<open>The request objects as they would be with the stream flag published.\<close>

definition pub_req :: "('k, 'z) seal_runtime_scheme \<Rightarrow> target_req \<Rightarrow> target_req" where
  "pub_req rt r = r\<lparr>kr_stream_enabled := stream_of rt (kr_rid r)\<rparr>"

definition pub :: "('k, 'z) seal_runtime_scheme \<Rightarrow> target_req heap" where
  "pub rt = map (\<lambda>(i, r). (i, pub_req rt r)) (tr_reqs rt)"

lemma dget_pub: "dget (pub rt) i = map_option (pub_req rt) (dget (tr_reqs rt) i)"
  by (simp add: pub_def map_of_map)

lemma ids_pub [simp]: "ids (pub rt) = ids (tr_reqs rt)"
  by (force simp: pub_def)

text \<open>A pending seal covers a chunk-aligned range of committed, still resident tokens that starts where the history ends.\<close>

definition seal_fits :: "int \<Rightarrow> req_pool \<Rightarrow> target_req \<Rightarrow> tiered_state \<Rightarrow> pending_seal \<Rightarrow> bool" where
  "seal_fits chunk pool r st p \<longleftrightarrow> kr_req_pool_idx r = Some (ps_req_pool_idx p)
     \<and> ps_history_start p = ts_history_len st \<and> ts_history_len st < ps_seal_end p
     \<and> ps_seal_end p \<le> ts_committed_len st \<and> chunk dvd ps_seal_end p
     \<and> nat (ps_seal_end p) \<le> kr_kv_committed_len r
     \<and> ps_slots p = pool_read (ps_req_pool_idx p) (nat (ps_history_start p)) (nat (ps_seal_end p)) pool"

definition pending_fits :: "('k, 'z) seal_runtime_scheme \<Rightarrow> string \<Rightarrow> pending_seal \<Rightarrow> bool" where
  "pending_fits rt rid p \<longleftrightarrow> (\<exists>i r st. dget (tr_reqs rt) i = Some r \<and> kr_rid r = rid
     \<and> dget (tr_states rt) rid = Some st
     \<and> seal_fits (sg_chunk_tokens (tr_config rt)) (km_pool (tr_mem rt)) r st p)"

definition state_fits :: "('k, 'z) seal_runtime_scheme \<Rightarrow> string \<Rightarrow> tiered_state \<Rightarrow> bool" where
  "state_fits rt rid st \<longleftrightarrow> tiered_ok (sg_chunk_tokens (tr_config rt)) st
     \<and> (ts_seal_inflight st \<longleftrightarrow> dget (tr_pending_seals rt) rid \<noteq> None)
     \<and> (ts_stream_enabled st \<longleftrightarrow> 0 < ts_history_len st)"

definition resident :: "('k, 'z) seal_runtime_scheme \<Rightarrow> target_req \<Rightarrow> bool" where
  "resident rt r \<longleftrightarrow> (case kr_req_pool_idx r of None \<Rightarrow> True
     | Some x \<Rightarrow> 0 \<notin> set (drop (hist_of rt (kr_rid r)) (take (kr_kv_allocated_len r) (row (km_pool (tr_mem rt)) x))))"

definition unique_rids :: "target_req heap \<Rightarrow> bool" where
  "unique_rids h \<longleftrightarrow> (\<forall>i j r s. dget h i = Some r \<longrightarrow> dget h j = Some s \<longrightarrow> kr_rid r = kr_rid s \<longrightarrow> i = j)"

definition seal_inv :: "('k, 'z) seal_runtime_scheme \<Rightarrow> bool" where
  "seal_inv rt \<longleftrightarrow> kv_ok (pub rt) (tr_mem rt) \<and> unique_rids (tr_reqs rt)
     \<and> 0 < sg_chunk_tokens (tr_config rt)
     \<and> (\<forall>rid st. dget (tr_states rt) rid = Some st \<longrightarrow> state_fits rt rid st)
     \<and> (\<forall>rid p. dget (tr_pending_seals rt) rid = Some p \<longrightarrow> pending_fits rt rid p)
     \<and> (\<forall>i r. dget (tr_reqs rt) i = Some r \<longrightarrow> resident rt r)"

lemma seal_invD:
  assumes "seal_inv rt"
  shows "kv_ok (pub rt) (tr_mem rt)" and "unique_rids (tr_reqs rt)" and "0 < sg_chunk_tokens (tr_config rt)"
    and "dget (tr_states rt) rid = Some st \<Longrightarrow> state_fits rt rid st"
    and "dget (tr_pending_seals rt) rid = Some p \<Longrightarrow> pending_fits rt rid p"
    and "dget (tr_reqs rt) i = Some r \<Longrightarrow> resident rt r"
  using assms unfolding seal_inv_def by blast+

lemma pub_cong:
  assumes "tr_reqs rt' = tr_reqs rt" and "\<And>rid. stream_of rt' rid = stream_of rt rid"
  shows "pub rt' = pub rt"
  using assms by (simp add: pub_def pub_req_def)

text \<open>Fields the invariant does not depend on.\<close>

lemma seal_inv_history [simp]:
  "seal_inv (rt\<lparr>tr_history := hs\<rparr>) = seal_inv rt"
  "seal_inv (rt\<lparr>tr_round := n\<rparr>) = seal_inv rt"
  by (simp_all add: seal_inv_def pub_def pub_req_def stream_of_def hist_of_def state_fits_def
      pending_fits_def resident_def cong: option.case_cong)

lemma put_state_fields [simp]:
  "tr_states (put_state rid st rt) = dset rid st (tr_states rt)"
  "tr_config (put_state rid st rt) = tr_config rt"
  "tr_pending_seals (put_state rid st rt) = tr_pending_seals rt"
  "tr_history (put_state rid st rt) = tr_history rt"
  "tr_mem (put_state rid st rt) = tr_mem rt"
  "tr_reqs (put_state rid st rt) = tr_reqs rt"
  by (simp_all add: put_state_def)

text \<open>
  Replacing the state of one request: the sealed length and the stream flag stay, and the
  pending seal, if any, still fits.
\<close>

lemma seal_inv_put_state:
  assumes inv: "seal_inv rt"
    and old: "case dget (tr_states rt) rid of
        None \<Rightarrow> ts_history_len st = 0 \<and> \<not> ts_stream_enabled st
      | Some st0 \<Rightarrow> ts_history_len st = ts_history_len st0 \<and> ts_stream_enabled st = ts_stream_enabled st0
          \<and> (dget (tr_pending_seals rt) rid \<noteq> None \<longrightarrow> ts_committed_len st0 \<le> ts_committed_len st)"
    and new: "state_fits rt rid st"
  shows "seal_inv (put_state rid st rt)"
proof -
  let ?rt = "put_state rid st rt"
  have str: "stream_of ?rt q = stream_of rt q" and his: "hist_of ?rt q = hist_of rt q" for q
    using old by (auto simp: stream_of_def hist_of_def split: option.splits)
  have "pub ?rt = pub rt" by (rule pub_cong) (simp_all add: str)
  moreover have "state_fits ?rt q s" if "dget (tr_states ?rt) q = Some s" for q s
    using that new seal_invD(4) [OF inv, of q s]
    by (auto simp: state_fits_def split: if_splits)
  moreover have "pending_fits ?rt q p" if "dget (tr_pending_seals ?rt) q = Some p" for q p
  proof -
    have p: "dget (tr_pending_seals rt) q = Some p" using that by simp
    from seal_invD(5) [OF inv p] obtain i r st0 where f: "dget (tr_reqs rt) i = Some r" "kr_rid r = q"
      "dget (tr_states rt) q = Some st0"
      "seal_fits (sg_chunk_tokens (tr_config rt)) (km_pool (tr_mem rt)) r st0 p"
      unfolding pending_fits_def by blast
    show ?thesis
    proof (cases "q = rid")
      case True
      with f old p have "seal_fits (sg_chunk_tokens (tr_config rt)) (km_pool (tr_mem rt)) r st p"
        by (auto simp: seal_fits_def)
      with f True show ?thesis unfolding pending_fits_def by auto
    qed (use f in \<open>auto simp: pending_fits_def\<close>)
  qed
  moreover have "resident ?rt r" if "dget (tr_reqs ?rt) i = Some r" for i r
    using seal_invD(6) [OF inv, of i r] that his
    by (auto simp: resident_def split: option.splits)
  ultimately show ?thesis using seal_invD(1-3) [OF inv] by (simp add: seal_inv_def)
qed


subsection \<open>Sealing\<close>

lemma seal_end_props:
  assumes "0 < sg_chunk_tokens c" and "0 \<le> n" and "0 \<le> sg_active_tail_tokens c"
  shows "sg_chunk_tokens c dvd seal_end_of c n" and "0 \<le> seal_end_of c n" and "seal_end_of c n \<le> n"
proof -
  let ?e = "max 0 (n - sg_active_tail_tokens c)" and ?g = "sg_chunk_tokens c"
  show "?g dvd seal_end_of c n" by (simp add: seal_end_of_def)
  show "0 \<le> seal_end_of c n" using assms by (simp add: seal_end_of_def pos_imp_zdiv_nonneg_iff)
  have "?e div ?g * ?g \<le> ?e" using assms(1) by (simp add: minus_mod_eq_div_mult [symmetric])
  then show "seal_end_of c n \<le> n" using assms(2,3) by (simp add: seal_end_of_def)
qed

text \<open>What the engine guarantees about a batch entry when a handler runs.\<close>

definition entry_ok :: "('k, 'z) seal_runtime_scheme \<Rightarrow> nat \<times> int \<Rightarrow> bool" where
  "entry_ok rt b \<longleftrightarrow> (\<exists>r. dget (tr_reqs rt) (fst b) = Some r \<and> kr_req_pool_idx r \<noteq> None
     \<and> 0 \<le> snd b \<and> nat (snd b) \<le> kr_kv_committed_len r
     \<and> (\<forall>st. dget (tr_states rt) (kr_rid r) = Some st \<longrightarrow> ts_committed_len st \<le> snd b))"

lemma maybe_seal_inv:
  assumes inv: "seal_inv rt" and tail: "0 \<le> sg_active_tail_tokens (tr_config rt)"
    and r: "dget (tr_reqs rt) i = Some r" "kr_req_pool_idx r \<noteq> None"
    and c: "\<forall>st. dget (tr_states rt) (kr_rid r) = Some st \<longrightarrow> nat (ts_committed_len st) \<le> kr_kv_committed_len r"
  shows "seal_inv (snd (maybe_seal ev i rt))"
proof (cases "dget (tr_states rt) (kr_rid r)")
  case None
  with inv r show ?thesis by (simp add: maybe_seal_def Let_def)
next
  case (Some st)
  let ?rid = "kr_rid r" and ?g = "sg_chunk_tokens (tr_config rt)"
  define e where "e = seal_end_of (tr_config rt) (ts_committed_len st)"
  obtain x where x: "kr_req_pool_idx r = Some x" using r(2) by auto
  define slots where "slots = pool_read x (nat (ts_history_len st)) (nat e) (km_pool (tr_mem rt))"
  note sf = seal_invD(4) [OF inv Some]
  have tk: "tiered_ok ?g st" using sf by (simp add: state_fits_def)
  then have n0: "0 \<le> ts_committed_len st" by (simp add: tiered_ok_def)
  note e = seal_end_props [OF seal_invD(3) [OF inv] n0 tail, folded e_def]
  show ?thesis
  proof (cases "\<not> sg_enabled (tr_config rt) \<or> ts_seal_inflight st \<or> dget (tr_pending_seals rt) ?rid \<noteq> None
      \<or> e < sg_min_history_tokens (tr_config rt) \<or> e \<le> ts_history_len st \<or> slots = []")
    case True
    with inv r Some x show ?thesis
      by (auto simp: maybe_seal_def Let_def e_def [symmetric] slots_def [symmetric])
  next
    case False
    then have np: "dget (tr_pending_seals rt) ?rid = None" and ni: "\<not> ts_seal_inflight st"
      and lt: "ts_history_len st < e" by auto
    define st1 where "st1 = st\<lparr>ts_seal_inflight := True\<rparr>"
    obtain res hs where sl: "seal_slots_async (ev_host ev) (ev_pool ev) (ev_slots_cuda ev) ?rid
        (ts_history_len st) slots (tr_history rt) = (res, hs)" by fastforce
    show ?thesis
    proof (cases res)
      case (Inl er)
      have "seal_inv (put_state ?rid (st1\<lparr>ts_seal_inflight := False\<rparr>) rt)"
        using Some np sf ni by (intro seal_inv_put_state [OF inv])
          (auto simp: st1_def state_fits_def tiered_ok_def)
      with False Inl sl Some r x show ?thesis
        by (simp add: maybe_seal_def Let_def e_def [symmetric] slots_def [symmetric] start_seal_def st1_def)
    next
      case (Inr t)
      define p where "p = \<lparr>ps_req_pool_idx = x, ps_history_start = ts_history_len st, ps_seal_end = e,
        ps_slots = slots, ps_ticket = t\<rparr>"
      define rt' where "rt' = put_state ?rid st1 (rt\<lparr>tr_pending_seals := dset ?rid p (tr_pending_seals rt)\<rparr>)"
      have run: "snd (maybe_seal ev i rt) = rt'\<lparr>tr_history := hs\<rparr>"
        using False Inr sl Some r x
        by (simp add: maybe_seal_def Let_def e_def [symmetric] slots_def [symmetric] start_seal_def
            st1_def rt'_def p_def put_state_def)
      have eqs: "stream_of rt' q = stream_of rt q" "hist_of rt' q = hist_of rt q" for q
        using Some by (auto simp: rt'_def st1_def stream_of_def hist_of_def)
      have "pub rt' = pub rt" by (rule pub_cong [OF _ eqs(1)]) (simp add: rt'_def)
      moreover have "state_fits rt' q s" if "dget (tr_states rt') q = Some s" for q s
        using that sf seal_invD(4) [OF inv, of q s]
        by (auto simp: rt'_def state_fits_def st1_def tiered_ok_def split: if_splits)
      moreover have "pending_fits rt' q p'" if "dget (tr_pending_seals rt') q = Some p'" for q p'
      proof (cases "q = ?rid")
        case True
        then have "p' = p" using that by (simp add: rt'_def)
        moreover have "seal_fits ?g (km_pool (tr_mem rt)) r st1 p"
          using x lt e c Some nat_mono [OF e(3)] by (auto simp: seal_fits_def p_def st1_def slots_def)
        ultimately show ?thesis using r True unfolding pending_fits_def by (auto simp: rt'_def)
      next
        case False
        with that seal_invD(5) [OF inv, of q p'] show ?thesis by (auto simp: rt'_def pending_fits_def)
      qed
      moreover have "resident rt' s" if "dget (tr_reqs rt') j = Some s" for j s
        using that seal_invD(6) [OF inv, of j s] eqs
        by (auto simp: rt'_def resident_def split: option.splits)
      ultimately have "seal_inv rt'" using seal_invD(1-3) [OF inv] by (simp add: seal_inv_def rt'_def)
      then show ?thesis by (simp add: run)
    qed
  qed
qed

subsection \<open>Retiring completed seals\<close>

lemma pool_read_subset: "hi \<le> n \<Longrightarrow> set (pool_read x lo hi p) \<subseteq> set (drop lo (take n (row p x)))"
  unfolding pool_read_def by (metis drop_take set_take_subset_set_take diff_le_mono)

lemma pool_read_other: "y \<noteq> x \<Longrightarrow> pool_read y a b (km_pool (free_and_tombstone sl x lo hi m)) = pool_read y a b (km_pool m)"
  by (simp add: pool_read_def free_and_tombstone_def)

lemma unique_ridsD: "unique_rids h \<Longrightarrow> dget h i = Some r \<Longrightarrow> dget h j = Some s \<Longrightarrow> kr_rid r = kr_rid s \<Longrightarrow> i = j"
  unfolding unique_rids_def by blast

text \<open>
  A range at or below the new history length of one request is freed and tombstoned and its
  state moved on: the shared core of retiring a seal and of dropping a re-prefilled copy.
\<close>

lemma tombstone_keeps:
  assumes inv: "seal_inv rt" and r: "dget (tr_reqs rt) i = Some r" and x: "kr_req_pool_idx r = Some x"
    and slots: "slots = filter (\<lambda>s. s \<noteq> 0) (pool_read x lo hi (km_pool (tr_mem rt)))"
    and rng: "lo \<le> hi" "hi \<le> kr_kv_committed_len r" "hi \<le> hist_of rt' (kr_rid r)"
    and rt': "tr_mem rt' = free_and_tombstone slots x lo hi (tr_mem rt)" "tr_reqs rt' = tr_reqs rt"
      "stream_of rt' (kr_rid r)" "hist_of rt (kr_rid r) \<le> hist_of rt' (kr_rid r)"
      "\<forall>q. q \<noteq> kr_rid r \<longrightarrow> stream_of rt' q = stream_of rt q \<and> hist_of rt' q = hist_of rt q"
  shows "kv_ok (pub rt') (tr_mem rt')" and "dget (tr_reqs rt') j = Some s \<Longrightarrow> resident rt' s"
    and "dget (tr_reqs rt) j = Some s \<Longrightarrow> j \<noteq> i \<Longrightarrow> kr_req_pool_idx s = Some y \<Longrightarrow> y \<noteq> x"
proof -
  let ?m = "tr_mem rt" and ?p = "km_pool (tr_mem rt)"
  note ok = seal_invD(1) [OF inv]
  have pr: "dget (pub rt) i = Some (pub_req rt r)" using r by (simp add: dget_pub)
  have other: "kr_rid s \<noteq> kr_rid r" if "dget (tr_reqs rt) j = Some s" "j \<noteq> i" for j s
    using unique_ridsD [OF seal_invD(2) [OF inv] that(1) r] that(2) by auto
  have "kv_ok (dset i ((pub_req rt r)\<lparr>kr_stream_enabled := True\<rparr>) (pub rt)) (tr_mem rt')"
    unfolding rt'(1) using x slots rng
    by (intro free_and_tombstone_ok [OF ok pr]) (simp_all add: pub_req_def)
  then show "kv_ok (pub rt') (tr_mem rt')"
  proof (rule kv_inv_cong [rotated])
    fix j
    show "dget (pub rt') j = dget (dset i ((pub_req rt r)\<lparr>kr_stream_enabled := True\<rparr>) (pub rt)) j"
      using r rt'(2,3) rt'(5) other
      by (cases "j = i"; cases "dget (tr_reqs rt) j") (auto simp: dget_pub pub_req_def)
  qed
  show rows: "dget (tr_reqs rt) j = Some s \<Longrightarrow> j \<noteq> i \<Longrightarrow> kr_req_pool_idx s = Some y \<Longrightarrow> y \<noteq> x" for j s y
    using rows_distinct [OF ok pr, of j "pub_req rt s" x y] x by (auto simp: dget_pub pub_req_def)
  show "resident rt' s" if s: "dget (tr_reqs rt') j = Some s" for j s
  proof (cases "j = i")
    case False
    with s rt'(2) rows [of j s] other [of j s] spec [OF rt'(5), of "kr_rid s"] seal_invD(6) [OF inv, of j s] show ?thesis
      by (cases "kr_req_pool_idx s") (auto simp: resident_def rt'(1) free_and_tombstone_def)
  next
    case True
    then have sr: "s = r" using s r rt'(2) by simp
    have sh: "shape_ok ?p" by (rule kv_invD(3) [OF ok])
    have xb: "x < rp_size ?p" using rows_bound [OF ok pr] x by (simp add: pub_req_def)
    have al: "kr_kv_committed_len r \<le> kr_kv_allocated_len r" "kr_kv_allocated_len r \<le> length (row ?p x)"
      using kv_invD(5) [OF ok pr] x row_length [OF sh xb] by (simp_all add: req_ok_def pub_req_def)
    define n h' where "n = kr_kv_allocated_len r" and "h' = hist_of rt' (kr_rid r)"
    have "row (km_pool (tr_mem rt')) x = take lo (row ?p x) @ replicate (hi - lo) 0 @ drop hi (row ?p x)"
      using sh xb rng(1) by (simp add: rt'(1) free_and_tombstone_def pool_write_row shape_ok_def write_row_def)
    moreover have "lo \<le> length (row ?p x)" using rng al by linarith
    ultimately have "drop hi (row (km_pool (tr_mem rt')) x) = drop hi (row ?p x)"
      using rng by (simp add: min_absorb2)
    then have "drop (h' - hi) (drop hi (row (km_pool (tr_mem rt')) x)) = drop (h' - hi) (drop hi (row ?p x))"
      by simp
    then have "drop h' (row (km_pool (tr_mem rt')) x) = drop h' (row ?p x)"
      using rng(3) by (simp add: h'_def)
    then have "drop h' (take n (row (km_pool (tr_mem rt')) x)) = drop h' (take n (row ?p x))"
      by (simp add: drop_take)
    moreover have "set (drop h' (take n (row ?p x))) \<subseteq> set (drop (hist_of rt (kr_rid r)) (take n (row ?p x)))"
      using rt'(4) by (simp add: h'_def set_drop_subset_set_drop)
    ultimately show ?thesis
      using seal_invD(6) [OF inv r] x by (auto simp: resident_def sr n_def h'_def)
  qed
qed


text \<open>What the handlers never change besides their own bookkeeping.\<close>

definition will_stream :: "('k, 'z) seal_runtime_scheme \<Rightarrow> string \<Rightarrow> bool" where
  "will_stream rt rid \<longleftrightarrow> stream_of rt rid \<or> dget (tr_pending_seals rt) rid \<noteq> None"

definition quiet :: "('k, 'z) seal_runtime_scheme \<Rightarrow> ('k, 'z) seal_runtime_scheme \<Rightarrow> bool" where
  "quiet rt rt' \<longleftrightarrow> tr_reqs rt' = tr_reqs rt \<and> tr_config rt' = tr_config rt
     \<and> (\<forall>q. map_option ts_committed_len (dget (tr_states rt') q) = map_option ts_committed_len (dget (tr_states rt) q))
     \<and> (\<forall>q. will_stream rt' q = will_stream rt q)"

lemma quiet_refl [simp]: "quiet rt rt"
  by (simp add: quiet_def)

lemma quiet_trans: "quiet a b \<Longrightarrow> quiet b c \<Longrightarrow> quiet a c"
  by (simp add: quiet_def)

lemma quiet_committed:
  "quiet rt rt' \<Longrightarrow> dget (tr_states rt') q = Some st' \<Longrightarrow>
     \<exists>st. dget (tr_states rt) q = Some st \<and> ts_committed_len st = ts_committed_len st'"
  unfolding quiet_def by (metis map_option_eq_Some)

lemma quiet_entry: "quiet rt rt' \<Longrightarrow> entry_ok rt b \<Longrightarrow> entry_ok rt' b"
  unfolding entry_ok_def using quiet_committed [of rt rt'] by (fastforce simp: quiet_def)

lemma seal_poll_state:
  assumes inv: "seal_inv rt" and p: "dget (tr_pending_seals rt) rid = Some p"
  obtains i r st st' where "dget (tr_reqs rt) i = Some r" "kr_rid r = rid" "dget (tr_states rt) rid = Some st"
    "seal_fits (sg_chunk_tokens (tr_config rt)) (km_pool (tr_mem rt)) r st p" "state_fits rt rid st"
    "mark_sealed st (ps_seal_end p) bs = Inr st'"
    "st' = st\<lparr>ts_cpu_blocks := ts_cpu_blocks st @ bs, ts_history_len := ps_seal_end p,
       ts_tail_start := ps_seal_end p, ts_stream_enabled := True, ts_seal_inflight := False\<rparr>"
proof -
  from seal_invD(5) [OF inv p] obtain i r st where f: "dget (tr_reqs rt) i = Some r" "kr_rid r = rid"
    "dget (tr_states rt) rid = Some st"
    "seal_fits (sg_chunk_tokens (tr_config rt)) (km_pool (tr_mem rt)) r st p"
    unfolding pending_fits_def by blast
  note sf = seal_invD(4) [OF inv f(3)]
  have "mark_sealed st (ps_seal_end p) bs = Inr (st\<lparr>ts_cpu_blocks := ts_cpu_blocks st @ bs,
       ts_history_len := ps_seal_end p, ts_tail_start := ps_seal_end p, ts_stream_enabled := True,
       ts_seal_inflight := False\<rparr>)"
    using f(4) sf p by (simp add: mark_sealed_def seal_fits_def state_fits_def)
  with that f sf show thesis by blast
qed

text \<open>The state after the retirement of the seal of \<open>rid\<close>.\<close>

lemma retire_inv:
  assumes inv: "seal_inv rt" and p: "dget (tr_pending_seals rt) rid = Some p"
    and st: "dget (tr_states rt) rid = Some st" "mark_sealed st (ps_seal_end p) bs = Inr st'"
    and rt': "tr_reqs rt' = tr_reqs rt" "tr_config rt' = tr_config rt"
      "tr_states rt' = dset rid st' (tr_states rt)" "tr_pending_seals rt' = ddel rid (tr_pending_seals rt)"
      "tr_mem rt' = free_and_tombstone (ps_slots p) (ps_req_pool_idx p) (nat (ps_history_start p))
         (nat (ps_seal_end p)) (tr_mem rt)"
  shows "seal_inv rt'" and "quiet rt rt'"
proof -
  let ?g = "sg_chunk_tokens (tr_config rt)" and ?p = "km_pool (tr_mem rt)"
  obtain i r st0 st1 where f: "dget (tr_reqs rt) i = Some r" "kr_rid r = rid" "dget (tr_states rt) rid = Some st0"
    "seal_fits ?g ?p r st0 p" "state_fits rt rid st0" "mark_sealed st0 (ps_seal_end p) bs = Inr st1"
    "st1 = st0\<lparr>ts_cpu_blocks := ts_cpu_blocks st0 @ bs, ts_history_len := ps_seal_end p,
       ts_tail_start := ps_seal_end p, ts_stream_enabled := True, ts_seal_inflight := False\<rparr>"
    by (rule seal_poll_state [OF inv p])
  have st': "st0 = st" "st1 = st'" using f(3,6) st by auto
  define x where "x = ps_req_pool_idx p"
  have x: "kr_req_pool_idx r = Some x" and e: "ts_history_len st < ps_seal_end p" "ps_seal_end p \<le> ts_committed_len st"
    "?g dvd ps_seal_end p" "nat (ps_seal_end p) \<le> kr_kv_committed_len r"
    "ps_slots p = pool_read x (nat (ts_history_len st)) (nat (ps_seal_end p)) ?p"
    "ps_history_start p = ts_history_len st"
    using f(4) st' by (auto simp: seal_fits_def x_def)
  have h0: "0 \<le> ts_history_len st" using f(5) st' by (simp add: state_fits_def tiered_ok_def)
  have al: "kr_kv_committed_len r \<le> kr_kv_allocated_len r"
    using kv_invD(5) [OF seal_invD(1) [OF inv], of i "pub_req rt r"] f(1) x
    by (simp add: dget_pub req_ok_def pub_req_def)
  have "0 \<notin> set (ps_slots p)"
    using pool_read_subset [of "nat (ps_seal_end p)" "kr_kv_allocated_len r" x "nat (ts_history_len st)" ?p]
      seal_invD(6) [OF inv f(1)] x st f(2) e(4,5) al by (auto simp: resident_def hist_of_def)
  then have "filter (\<lambda>s. s \<noteq> 0) (ps_slots p) = ps_slots p" by (intro filter_True) metis
  then have sl: "ps_slots p = filter (\<lambda>s. s \<noteq> 0) (pool_read x (nat (ts_history_len st)) (nat (ps_seal_end p)) ?p)"
    by (simp only: e(5))
  have hs: "stream_of rt' rid" "hist_of rt' rid = nat (ps_seal_end p)" "hist_of rt rid = nat (ts_history_len st)"
    "\<And>q. q \<noteq> rid \<Longrightarrow> stream_of rt' q = stream_of rt q \<and> hist_of rt' q = hist_of rt q"
    using f(7) st' st rt'(3) by (auto simp: stream_of_def hist_of_def)
  have rng: "nat (ts_history_len st) \<le> nat (ps_seal_end p)" using e(1) by simp
  have m: "tr_mem rt' = free_and_tombstone (ps_slots p) x (nat (ts_history_len st)) (nat (ps_seal_end p)) (tr_mem rt)"
    using rt'(5) e(6) by (simp add: x_def)
  have h: "nat (ps_seal_end p) \<le> hist_of rt' (kr_rid r)" "stream_of rt' (kr_rid r)"
    "hist_of rt (kr_rid r) \<le> hist_of rt' (kr_rid r)" using hs rng f(2) by simp_all
  have h4: "\<forall>q. q \<noteq> kr_rid r \<longrightarrow> stream_of rt' q = stream_of rt q \<and> hist_of rt' q = hist_of rt q"
    using hs(4) f(2) by simp
  note tk = tombstone_keeps [OF inv f(1) x sl rng e(4) h(1) m rt'(1) h(2,3) h4]
  have "state_fits rt' q s" if "dget (tr_states rt') q = Some s" for q s
    using that f(5,7) st' e rt'(2-4) seal_invD(4) [OF inv, of q s] h0
    by (cases "q = rid") (auto simp: state_fits_def tiered_ok_def)
  moreover have "pending_fits rt' q p'" if q: "dget (tr_pending_seals rt') q = Some p'" for q p'
  proof -
    have nq: "q \<noteq> rid" "dget (tr_pending_seals rt) q = Some p'" using q rt'(4) by (auto split: if_splits)
    from seal_invD(5) [OF inv nq(2)] obtain j s sj where j: "dget (tr_reqs rt) j = Some s" "kr_rid s = q"
      "dget (tr_states rt) q = Some sj" "seal_fits ?g ?p s sj p'" unfolding pending_fits_def by blast
    have "j \<noteq> i" using j(1,2) f(1,2) nq(1) by auto
    with tk(3) [OF j(1)] j(4) have "ps_req_pool_idx p' \<noteq> x" by (simp add: seal_fits_def)
    then have "seal_fits ?g (km_pool (tr_mem rt')) s sj p'"
      using j(4) unfolding seal_fits_def m by (simp add: pool_read_other)
    with j nq(1) rt' show ?thesis unfolding pending_fits_def by auto
  qed
  ultimately show "seal_inv rt'" using tk(1,2) seal_invD(2,3) [OF inv] rt'(1,2) by (simp add: seal_inv_def)
  show "quiet rt rt'" using rt' st f(7) st' p hs by (auto simp: quiet_def will_stream_def)
qed

lemma complete_wait: "fst (complete_seal done True t hs)"
  by (auto simp: complete_seal_def split: option.splits)

lemma poll_one_inv:
  assumes inv: "seal_inv rt"
  shows "\<exists>b rt'. poll_one ev wait rid rt = (Inr b, rt') \<and> seal_inv rt' \<and> quiet rt rt'
    \<and> (\<forall>q. q \<noteq> rid \<longrightarrow> dget (tr_pending_seals rt') q = dget (tr_pending_seals rt) q)
    \<and> (wait \<longrightarrow> dget (tr_pending_seals rt') rid = None)
    \<and> (dget (tr_pending_seals rt) rid = None \<longrightarrow> dget (tr_pending_seals rt') rid = None)"
proof (cases "dget (tr_pending_seals rt) rid")
  case None
  with inv show ?thesis by (auto simp: poll_one_def)
next
  case (Some p)
  obtain b t hs where c: "complete_seal (ev_done ev) wait (ps_ticket p) (tr_history rt) = (b, t, hs)"
    by (cases "complete_seal (ev_done ev) wait (ps_ticket p) (tr_history rt)") auto
  show ?thesis
  proof (cases b)
    case False
    then have "\<not> wait" using complete_wait [of "ev_done ev" "ps_ticket p" "tr_history rt"] c by auto
    with False Some c inv show ?thesis 
      by (auto simp: poll_one_def quiet_def will_stream_def stream_of_def)
  next
    case True
    obtain i r st st' where f: "dget (tr_states rt) rid = Some st"
      "mark_sealed st (ps_seal_end p) (tk_block_ids t) = Inr st'"
      by (rule seal_poll_state [OF inv Some, of "tk_block_ids t"])
    define rt' where "rt' = (put_state rid st' (rt\<lparr>tr_history := hs,
        tr_pending_seals := dset rid (p\<lparr>ps_ticket := t\<rparr>) (tr_pending_seals rt),
        tr_mem := free_and_tombstone (ps_slots p) (ps_req_pool_idx p) (nat (ps_history_start p))
          (nat (ps_seal_end p)) (tr_mem rt)\<rparr>))
      \<lparr>tr_pending_seals := ddel rid (dset rid (p\<lparr>ps_ticket := t\<rparr>) (tr_pending_seals rt))\<rparr>"
    have run: "poll_one ev wait rid rt = (Inr True, rt')"
      using True Some c f by (simp add: poll_one_def Let_def rt'_def)
    let ?rt = "rt'\<lparr>tr_pending_seals := ddel rid (tr_pending_seals rt)\<rparr>"
    have "seal_inv ?rt" "quiet rt ?rt"
      by (rule retire_inv [OF inv Some f]; simp add: rt'_def)+
    moreover have dg: "dget (ddel rid (dset rid q d)) y = dget (ddel rid d) y" for q y and d :: "(string, pending_seal) dict"
      by simp
    have "seal_inv rt' = seal_inv ?rt"
      by (simp add: seal_inv_def state_fits_def pending_fits_def resident_def pub_def pub_req_def stream_of_def
          hist_of_def rt'_def dg cong: option.case_cong)
    moreover have "quiet rt rt' = quiet rt ?rt"
      by (simp add: quiet_def will_stream_def stream_of_def rt'_def dg)
    ultimately show ?thesis using run by (auto simp: rt'_def)
  qed
qed

lemma poll_loop_inv:
  assumes "seal_inv rt"
  shows "\<exists>n rt'. poll_loop ev wait only rids rt = (Inr n, rt') \<and> seal_inv rt' \<and> quiet rt rt'
    \<and> (\<forall>q. dget (tr_pending_seals rt) q = None \<longrightarrow> dget (tr_pending_seals rt') q = None)
    \<and> (\<forall>q. only \<noteq> None \<and> only \<noteq> Some q \<longrightarrow> dget (tr_pending_seals rt') q = dget (tr_pending_seals rt) q)
    \<and> (wait \<longrightarrow> (\<forall>q \<in> set rids. only = None \<or> only = Some q \<longrightarrow> dget (tr_pending_seals rt') q = None))"
  using assms
proof (induction rids arbitrary: rt)
  case Nil
  then show ?case by (simp add: py_basic)
next
  case (Cons rid rids)
  show ?case
  proof (cases "only \<noteq> None \<and> only \<noteq> Some rid")
    case True
    with Cons.IH [OF Cons.prems] show ?thesis by auto
  next
    case False
    obtain b rt1 where 1: "poll_one ev wait rid rt = (Inr b, rt1)" "seal_inv rt1" "quiet rt rt1"
      "\<forall>q. q \<noteq> rid \<longrightarrow> dget (tr_pending_seals rt1) q = dget (tr_pending_seals rt) q"
      "wait \<longrightarrow> dget (tr_pending_seals rt1) rid = None"
      "dget (tr_pending_seals rt) rid = None \<longrightarrow> dget (tr_pending_seals rt1) rid = None"
      using poll_one_inv [OF Cons.prems, of ev wait rid] by (elim exE conjE) (rule that)
    obtain n rt2 where 2: "poll_loop ev wait only rids rt1 = (Inr n, rt2)" "seal_inv rt2" "quiet rt1 rt2"
      "\<forall>q. dget (tr_pending_seals rt1) q = None \<longrightarrow> dget (tr_pending_seals rt2) q = None"
      "\<forall>q. only \<noteq> None \<and> only \<noteq> Some q \<longrightarrow> dget (tr_pending_seals rt2) q = dget (tr_pending_seals rt1) q"
      "wait \<longrightarrow> (\<forall>q \<in> set rids. only = None \<or> only = Some q \<longrightarrow> dget (tr_pending_seals rt2) q = None)"
      using Cons.IH [OF 1(2)] by (elim exE conjE) (rule that)
    have "poll_loop ev wait only (rid # rids) rt = (Inr (if b then n + 1 else n), rt2)"
      using False 1(1) 2(1) by (auto simp: py_basic)
    moreover have "\<forall>q. dget (tr_pending_seals rt) q = None \<longrightarrow> dget (tr_pending_seals rt2) q = None"
      using 1(4,6) 2(4) by metis
    moreover have "\<forall>q. only \<noteq> None \<and> only \<noteq> Some q \<longrightarrow> dget (tr_pending_seals rt2) q = dget (tr_pending_seals rt) q"
      using 1(4) 2(5) False by (auto; metis)
    moreover have "wait \<longrightarrow> (\<forall>q \<in> set (rid # rids). only = None \<or> only = Some q \<longrightarrow> dget (tr_pending_seals rt2) q = None)"
      using 1(5) 2(4,6) by auto
    ultimately show ?thesis using 2(2) quiet_trans [OF 1(3) 2(3)] by blast
  qed
qed

lemma poll_inv:
  assumes "seal_inv rt"
  shows "\<exists>n rt'. poll_pending_seals ev wait only rt = (Inr n, rt') \<and> seal_inv rt' \<and> quiet rt rt'
    \<and> (\<forall>q. dget (tr_pending_seals rt) q = None \<longrightarrow> dget (tr_pending_seals rt') q = None)
    \<and> (\<forall>q. only \<noteq> None \<and> only \<noteq> Some q \<longrightarrow> dget (tr_pending_seals rt') q = dget (tr_pending_seals rt) q)
    \<and> (wait \<longrightarrow> (\<forall>q. only = None \<or> only = Some q \<longrightarrow> dget (tr_pending_seals rt') q = None))"
proof -
  from poll_loop_inv [OF assms, of ev wait only "map fst (tr_pending_seals rt)",
      folded poll_pending_seals_def] obtain n rt' where
    r: "poll_pending_seals ev wait only rt = (Inr n, rt')" "seal_inv rt'" "quiet rt rt'"
    "\<forall>q. dget (tr_pending_seals rt) q = None \<longrightarrow> dget (tr_pending_seals rt') q = None"
    "\<forall>q. only \<noteq> None \<and> only \<noteq> Some q \<longrightarrow> dget (tr_pending_seals rt') q = dget (tr_pending_seals rt) q"
    "wait \<longrightarrow> (\<forall>q \<in> set (map fst (tr_pending_seals rt)). only = None \<or> only = Some q \<longrightarrow> dget (tr_pending_seals rt') q = None)"
    by (elim exE conjE) (rule that)
  have "dget (tr_pending_seals rt') q = None" if "wait" "only = None \<or> only = Some q" for q
    using r(4,6) that by (cases "q \<in> set (map fst (tr_pending_seals rt))") (auto simp: map_of_eq_None_iff)
  with r show ?thesis by blast
qed


subsection \<open>The handlers\<close>

text \<open>The request object changes in nothing the memory sees but the stream flag.\<close>

definition same_kv :: "target_req \<Rightarrow> target_req \<Rightarrow> bool" where
  "same_kv r s \<longleftrightarrow> kr_rid s = kr_rid r \<and> kr_req_pool_idx s = kr_req_pool_idx r
     \<and> kr_kv_committed_len s = kr_kv_committed_len r \<and> kr_kv_allocated_len s = kr_kv_allocated_len r
     \<and> kr_kv_committed_freed s = kr_kv_committed_freed r
     \<and> kr_kv_overallocated_freed s = kr_kv_overallocated_freed r"

lemma seal_inv_req:
  assumes inv: "seal_inv rt" and r: "dget (tr_reqs rt) i = Some r" and s: "same_kv r s"
  shows "seal_inv (rt\<lparr>tr_reqs := dset i s (tr_reqs rt)\<rparr>)"
proof -
  let ?rt = "rt\<lparr>tr_reqs := dset i s (tr_reqs rt)\<rparr>"
  note s = s [unfolded same_kv_def]
  have eqs: "stream_of ?rt q = stream_of rt q" "hist_of ?rt q = hist_of rt q" for q
    by (simp_all add: stream_of_def hist_of_def)
  have pr: "dget (pub rt) i = Some (pub_req rt r)" using r by (simp add: dget_pub)
  have "kv_ok (dset i (pub_req rt s) (pub rt)) (tr_mem rt)"
    using s kv_invD(5) [OF seal_invD(1) [OF inv] pr]
    by (intro kv_same_ok [OF seal_invD(1) [OF inv] pr])
      (auto simp: pub_req_def held_n_def row_of_def req_ok_def split: option.splits)
  then have "kv_ok (pub ?rt) (tr_mem rt)"
  proof (rule kv_inv_cong [rotated])
    have "pub_req ?rt = pub_req rt" by (rule ext) (simp add: pub_req_def eqs)
    then show "dget (pub ?rt) j = dget (dset i (pub_req rt s) (pub rt)) j" for j by (simp add: dget_pub)
  qed
  moreover have "unique_rids (tr_reqs ?rt)"
    using seal_invD(2) [OF inv] r s unfolding unique_rids_def by (auto split: if_splits)
  moreover have "state_fits ?rt q st" if "dget (tr_states ?rt) q = Some st" for q st
    using seal_invD(4) [OF inv, of q st] that by (simp add: state_fits_def)
  moreover have "pending_fits ?rt q p" if "dget (tr_pending_seals ?rt) q = Some p" for q p
  proof -
    from seal_invD(5) [OF inv, of q p] that obtain j t st where
      "dget (tr_reqs rt) j = Some t" "kr_rid t = q" "dget (tr_states rt) q = Some st"
      "seal_fits (sg_chunk_tokens (tr_config rt)) (km_pool (tr_mem rt)) t st p"
      unfolding pending_fits_def by auto
    then show ?thesis using r s unfolding pending_fits_def
      by (intro exI [of _ j] exI [of _ "if j = i then s else t"] exI [of _ st]) (auto simp: seal_fits_def)
  qed
  moreover have "resident ?rt t" if t: "dget (tr_reqs ?rt) j = Some t" for j t
  proof (cases "j = i")
    case True
    then have "t = s" using t by simp
    with seal_invD(6) [OF inv r] s eqs show ?thesis
      by (cases "kr_req_pool_idx r") (simp_all add: resident_def)
  next
    case False
    then have "resident rt t" using t seal_invD(6) [OF inv, of j t] by simp
    then show ?thesis by (cases "kr_req_pool_idx t") (simp_all add: resident_def eqs)
  qed
  ultimately show ?thesis using seal_invD(3) [OF inv] by (simp add: seal_inv_def)
qed

definition ready_batch :: "batch \<Rightarrow> ('k, 'z) seal_runtime_scheme \<Rightarrow> bool" where
  "ready_batch bs rt \<longleftrightarrow> seal_inv rt \<and> 0 \<le> sg_active_tail_tokens (tr_config rt) \<and> distinct (map fst bs)
     \<and> (\<forall>b \<in> set bs. entry_ok rt b)"

lemma ready_quiet:
  assumes "ready_batch bs rt" and "seal_inv rt'" and "quiet rt rt'"
  shows "ready_batch bs rt'"
proof -
  have "tr_config rt' = tr_config rt" using assms(3) by (simp add: quiet_def)
  moreover have "\<forall>b \<in> set bs. entry_ok rt' b"
    using assms(1) quiet_entry [OF assms(3)] by (simp add: ready_batch_def)
  ultimately show ?thesis using assms(1,2) by (simp add: ready_batch_def)
qed

lemma poll_ready:
  assumes "ready_batch bs rt"
  shows "ready_batch bs (snd (poll_pending_seals ev wait only rt))"
proof -
  have "seal_inv rt" using assms by (simp add: ready_batch_def)
  from poll_inv [OF this, of ev wait only] obtain n rt' where
    "poll_pending_seals ev wait only rt = (Inr n, rt')" "seal_inv rt'" "quiet rt rt'" by (elim exE conjE)
  with ready_quiet [OF assms] show ?thesis by simp
qed

lemma ready_entry:
  assumes "ready_batch bs rt" and "(i, c) \<in> set bs"
  shows "\<exists>r. dget (tr_reqs rt) i = Some r \<and> kr_req_pool_idx r \<noteq> None \<and> 0 \<le> c
    \<and> nat c \<le> kr_kv_committed_len r
    \<and> (\<forall>st. dget (tr_states rt) (kr_rid r) = Some st \<longrightarrow> ts_committed_len st \<le> c)"
proof -
  have "entry_ok rt (i, c)" using assms by (simp add: ready_batch_def)
  then show ?thesis by (simp add: entry_ok_def)
qed

lemma publish_ready:
  assumes "ready_batch bs rt" and "(i, c) \<in> set bs"
  shows "ready_batch bs (publish_req_state i mode q rt)"
proof -
  obtain r where r: "dget (tr_reqs rt) i = Some r" using ready_entry [OF assms] by blast
  show ?thesis
  proof (cases "dget (tr_states rt) (kr_rid r)")
    case None
    with r assms(1) show ?thesis by (simp add: publish_req_state_def Let_def)
  next
    case (Some st)
    define s where "s = r\<lparr>tq_history_len := ts_history_len st, tq_committed_len := ts_committed_len st,
              tq_logical_len := ts_logical_len st, kr_stream_enabled := ts_stream_enabled st,
              tq_round_id := ts_round_id st, tq_mode := mode, tq_q := q,
              tq_seal_inflight := ts_seal_inflight st\<rparr>"
    have run: "publish_req_state i mode q rt = rt\<lparr>tr_reqs := dset i s (tr_reqs rt)\<rparr>"
      using r Some by (simp add: publish_req_state_def Let_def s_def)
    have k: "same_kv r s" by (simp add: same_kv_def s_def)
    have "seal_inv (publish_req_state i mode q rt)"
      unfolding run using assms(1) by (intro seal_inv_req [OF _ r k]) (simp add: ready_batch_def)
    moreover have "entry_ok (publish_req_state i mode q rt) b" if "b \<in> set bs" for b
    proof -
      have "entry_ok rt b" using that assms(1) by (simp add: ready_batch_def)
      then show ?thesis using r k unfolding entry_ok_def run same_kv_def
        by (cases "fst b = i") auto
    qed
    ultimately show ?thesis using assms(1) by (simp add: ready_batch_def run)
  qed
qed

text \<open>Replacing the state of the request of one entry, by one whose committed length is the entry's.\<close>

lemma put_state_ready:
  assumes rb: "ready_batch bs rt" and b: "(i, c) \<in> set bs" and r: "dget (tr_reqs rt) i = Some r"
    and inv: "seal_inv (put_state (kr_rid r) st rt)" and c: "ts_committed_len st \<le> c"
  shows "ready_batch bs (put_state (kr_rid r) st rt)"
proof -
  have "entry_ok (put_state (kr_rid r) st rt) e" if e: "e \<in> set bs" for e
  proof -
    have ok: "entry_ok rt e" using e rb by (simp add: ready_batch_def)
    show ?thesis
    proof (cases "fst e = i")
      case True
      then have "e = (i, c)" using b e rb by (metis eq_key_imp_eq_value prod.collapse ready_batch_def)
      with ok r c show ?thesis by (auto simp: entry_ok_def)
    next
      case False
      obtain s where s: "dget (tr_reqs rt) (fst e) = Some s" using ok by (auto simp: entry_ok_def)
      then have "kr_rid s \<noteq> kr_rid r"
        using unique_ridsD [OF seal_invD(2) s r] False rb by (auto simp: ready_batch_def)
      with ok s show ?thesis by (auto simp: entry_ok_def)
    qed
  qed
  with inv rb show ?thesis by (simp add: ready_batch_def)
qed

lemma set_state_ready:
  assumes rb: "ready_batch bs rt" and b: "(i, c) \<in> set bs"
    and f: "\<And>st. case f st of Inl e \<Rightarrow> True
      | Inr st' \<Rightarrow> \<exists>n. st' = st\<lparr>ts_committed_len := c, ts_logical_len := c + n, ts_round_id := k st\<rparr> \<and> 0 \<le> n"
  shows "ready_batch bs (snd (on_state i f rt))"
proof -
  obtain r where r: "dget (tr_reqs rt) i = Some r"
    and cm: "\<forall>st. dget (tr_states rt) (kr_rid r) = Some st \<longrightarrow> ts_committed_len st \<le> c"
    using ready_entry [OF rb b] by blast
  show ?thesis
  proof (cases "dget (tr_states rt) (kr_rid r)")
    case None
    with r rb show ?thesis by (simp add: on_state_def Let_def)
  next
    case (Some st)
    show ?thesis
    proof (cases "f st")
      case (Inl e)
      with Some r rb show ?thesis by (simp add: on_state_def Let_def)
    next
      case (Inr st')
      then obtain n where st': "st' = st\<lparr>ts_committed_len := c, ts_logical_len := c + n, ts_round_id := k st\<rparr>" "0 \<le> n"
        using f [of st] by auto
      have iv: "seal_inv rt" using rb by (simp add: ready_batch_def)
      have "seal_inv (put_state (kr_rid r) st' rt)"
        using seal_invD(4) [OF iv Some] cm Some st'(2)
        by (intro seal_inv_put_state [OF iv]) (auto simp: st'(1) state_fits_def tiered_ok_def)
      from put_state_ready [OF rb b r this] st' Inr Some r show ?thesis
        by (simp add: on_state_def Let_def)
    qed
  qed
qed

lemma setdefault_ready:
  assumes rb: "ready_batch bs rt" and b: "(i, c) \<in> set bs"
  shows "ready_batch bs (snd (setdefault_state i c rt))"
proof -
  obtain r where r: "dget (tr_reqs rt) i = Some r" "0 \<le> c" using ready_entry [OF rb b] by blast
  show ?thesis
  proof (cases "dget (tr_states rt) (kr_rid r)")
    case None
    have iv: "seal_inv rt" using rb by (simp add: ready_batch_def)
    have "dget (tr_pending_seals rt) (kr_rid r) = None"
      using seal_invD(5) [OF iv, of "kr_rid r"] None
      by (cases "dget (tr_pending_seals rt) (kr_rid r)") (auto simp: pending_fits_def)
    then have "seal_inv (put_state (kr_rid r) (tiered_new (kr_rid r) c c) rt)"
      using None r(2) seal_invD(3) [OF iv]
      by (intro seal_inv_put_state [OF iv]) (auto simp: tiered_new_def state_fits_def tiered_ok_def)
    from put_state_ready [OF rb b r(1) this] None r show ?thesis
      by (simp add: setdefault_state_def py_basic Let_def tiered_new_def)
  qed (use rb r in \<open>simp add: setdefault_state_def py_basic Let_def\<close>)
qed

lemma maybe_seal_ready:
  assumes rb: "ready_batch bs rt" and b: "(i, c) \<in> set bs"
  shows "ready_batch bs (snd (maybe_seal ev i rt))"
proof -
  obtain r where r: "dget (tr_reqs rt) i = Some r" "kr_req_pool_idx r \<noteq> None" "nat c \<le> kr_kv_committed_len r"
    "\<forall>st. dget (tr_states rt) (kr_rid r) = Some st \<longrightarrow> ts_committed_len st \<le> c"
    using ready_entry [OF rb b] by blast
  have "\<forall>st. dget (tr_states rt) (kr_rid r) = Some st \<longrightarrow> nat (ts_committed_len st) \<le> kr_kv_committed_len r"
    using r(3,4) by (meson nat_mono order_trans)
  then have "seal_inv (snd (maybe_seal ev i rt))"
    using rb by (intro maybe_seal_inv [OF _ _ r(1,2)]) (simp_all add: ready_batch_def)
  moreover have "tr_reqs (snd (maybe_seal ev i rt)) = tr_reqs rt \<and> tr_config (snd (maybe_seal ev i rt)) = tr_config rt
    \<and> (\<forall>q. map_option ts_committed_len (dget (tr_states (snd (maybe_seal ev i rt))) q)
         = map_option ts_committed_len (dget (tr_states rt) q))"
    unfolding maybe_seal_def Let_def start_seal_def
    by (auto split: option.splits prod.splits sum.splits)
  then have "entry_ok rt e \<Longrightarrow> entry_ok (snd (maybe_seal ev i rt)) e" for e
    unfolding entry_ok_def by (metis (no_types, lifting) map_option_eq_Some)
  ultimately show ?thesis using rb \<open>_ \<and> _ \<and> _\<close> by (simp add: ready_batch_def)
qed


lemma pool_read_above:
  assumes "shape_ok (km_pool m)" and "x < rp_size (km_pool m)" and "lo \<le> hi" and "hi \<le> a"
    and "hi \<le> rp_max_context_len (km_pool m)"
  shows "pool_read x a b (km_pool (free_and_tombstone sl x lo hi m)) = pool_read x a b (km_pool m)"
proof -
  let ?p = "km_pool m" and ?q = "km_pool (free_and_tombstone sl x lo hi m)"
  have len: "hi \<le> length (row ?p x)" using assms(2,5) row_length [OF assms(1,2)] by simp
  have "row ?q x = take lo (row ?p x) @ replicate (hi - lo) 0 @ drop hi (row ?p x)"
    using assms(1-3) by (simp add: free_and_tombstone_def pool_write_row shape_ok_def write_row_def)
  then have "drop hi (row ?q x) = drop hi (row ?p x)" using len assms(3) by (simp add: min_absorb2)
  then have "drop (a - hi) (drop hi (row ?q x)) = drop (a - hi) (drop hi (row ?p x))" by simp
  then have "drop a (row ?q x) = drop a (row ?p x)" using assms(4) by simp
  then show ?thesis by (simp add: pool_read_def drop_take)
qed

lemma drop_copy_ready:
  assumes rb: "ready_batch bs rt" and b: "(i, c) \<in> set bs"
  shows "ready_batch bs (snd (drop_sealed_copy i c rt))"
proof -
  obtain r x where r: "dget (tr_reqs rt) i = Some r" and x: "kr_req_pool_idx r = Some x"
    and cc: "nat c \<le> kr_kv_committed_len r"
      "\<forall>st. dget (tr_states rt) (kr_rid r) = Some st \<longrightarrow> ts_committed_len st \<le> c"
    using ready_entry [OF rb b] by blast
  have inv: "seal_inv rt" using rb by (simp add: ready_batch_def)
  show ?thesis
  proof (cases "\<exists>st. dget (tr_states rt) (kr_rid r) = Some st \<and> ts_history_len st \<le> c \<and> ts_history_len st \<noteq> 0")
    case False
    then have "snd (drop_sealed_copy i c rt) = rt"
      using r by (auto simp: drop_sealed_copy_def Let_def split: option.splits)
    with rb show ?thesis by simp
  next
    case True
    then obtain st where st: "dget (tr_states rt) (kr_rid r) = Some st" "ts_history_len st \<le> c" "ts_history_len st \<noteq> 0"
      by blast
    define hi where "hi = nat (ts_history_len st)"
    define slots where "slots = filter (\<lambda>s. s \<noteq> 0) (pool_read x 0 hi (km_pool (tr_mem rt)))"
    define rt' where "rt' = rt\<lparr>tr_mem := free_and_tombstone slots x 0 hi (tr_mem rt)\<rparr>"
    have run: "snd (drop_sealed_copy i c rt) = rt'"
      using r x st by (simp add: drop_sealed_copy_def Let_def rt'_def slots_def hi_def)
    have eqs: "stream_of rt' q = stream_of rt q" "hist_of rt' q = hist_of rt q" for q
      by (simp_all add: rt'_def stream_of_def hist_of_def)
    have hist: "hist_of rt (kr_rid r) = hi" using st(1) by (simp add: hist_of_def hi_def)
    note sf = seal_invD(4) [OF inv st(1)]
    have h: "hi \<le> kr_kv_committed_len r" using st(2) cc(1) by (simp add: hi_def)
    have s: "stream_of rt' (kr_rid r)"
      unfolding eqs using sf st by (simp add: stream_of_def state_fits_def tiered_ok_def)
    have m: "tr_mem rt' = free_and_tombstone slots x 0 hi (tr_mem rt)" "tr_reqs rt' = tr_reqs rt" by (simp_all add: rt'_def)
    have le: "hi \<le> hist_of rt' (kr_rid r)" "hist_of rt (kr_rid r) \<le> hist_of rt' (kr_rid r)"
      by (simp_all add: eqs hist)
    have oth: "\<forall>q. q \<noteq> kr_rid r \<longrightarrow> stream_of rt' q = stream_of rt q \<and> hist_of rt' q = hist_of rt q" by (simp add: eqs)
    note tk = tombstone_keeps [OF inv r x slots_def le0 h le(1) m s le(2) oth]
    have ok: "kv_ok (pub rt) (tr_mem rt)" by (rule seal_invD(1) [OF inv])
    have pr: "dget (pub rt) i = Some (pub_req rt r)" using r by (simp add: dget_pub)
    have xb: "x < rp_size (km_pool (tr_mem rt))" using rows_bound [OF ok pr] x by (simp add: pub_req_def)
    have mx: "hi \<le> rp_max_context_len (km_pool (tr_mem rt))"
      using kv_invD(5) [OF ok pr] x h by (simp add: req_ok_def pub_req_def)
    have "pending_fits rt' q p" if q: "dget (tr_pending_seals rt') q = Some p" for q p
    proof -
      have q': "dget (tr_pending_seals rt) q = Some p" using q by (simp add: rt'_def)
      from seal_invD(5) [OF inv q'] obtain j s' sj where j: "dget (tr_reqs rt) j = Some s'" "kr_rid s' = q"
        "dget (tr_states rt) q = Some sj"
        "seal_fits (sg_chunk_tokens (tr_config rt)) (km_pool (tr_mem rt)) s' sj p" unfolding pending_fits_def by blast
      have "pool_read (ps_req_pool_idx p) (nat (ps_history_start p)) (nat (ps_seal_end p)) (km_pool (tr_mem rt'))
          = pool_read (ps_req_pool_idx p) (nat (ps_history_start p)) (nat (ps_seal_end p)) (km_pool (tr_mem rt))"
      proof (cases "j = i")
        case True
        then have e: "s' = r" "sj = st" using j r st(1) by auto
        then have "ps_req_pool_idx p = x" "hi \<le> nat (ps_history_start p)"
          using j(4) x by (auto simp: seal_fits_def hi_def)
        then show ?thesis unfolding m(1)
          using pool_read_above [OF kv_invD(3) [OF ok] xb le0 _ mx] by simp
      next
        case False
        then show ?thesis unfolding m(1) using tk(3) [OF j(1) False] j(4)
          by (intro pool_read_other) (simp add: seal_fits_def)
      qed
      then have "seal_fits (sg_chunk_tokens (tr_config rt)) (km_pool (tr_mem rt')) s' sj p"
        using j(4) by (simp add: seal_fits_def)
      with j show ?thesis unfolding pending_fits_def by (auto simp: rt'_def)
    qed
    moreover have "state_fits rt' q s'" if "dget (tr_states rt') q = Some s'" for q s'
      using seal_invD(4) [OF inv, of q s'] that by (simp add: rt'_def state_fits_def)
    ultimately have iv: "seal_inv rt'"
      using tk(1,2) seal_invD(2,3) [OF inv] by (simp add: seal_inv_def m(2)) (simp add: rt'_def)
    have "quiet rt rt'" by (simp add: quiet_def will_stream_def eqs) (simp add: rt'_def)
    from ready_quiet [OF rb iv this] show ?thesis by (simp add: run)
  qed
qed

lemma strict_check_same [simp]: "snd (strict_check i rt) = rt"
  by (simp add: strict_check_def split: option.splits)

lemmas handler_ready = setdefault_ready maybe_seal_ready publish_ready drop_copy_ready

text \<open>Every handler keeps the invariant of the runtime, also when it raises.\<close>

lemma set_committed_ready:
  "ready_batch bs rt \<Longrightarrow> (i, c) \<in> set bs \<Longrightarrow> ready_batch bs (snd (on_state i (set_committed c) rt))"
  by (rule set_state_ready [where k = ts_round_id]) (auto simp: set_committed_def intro: exI [of _ 0])

lemma finish_round_ready:
  "ready_batch bs rt \<Longrightarrow> (i, c) \<in> set bs \<Longrightarrow> ready_batch bs (snd (on_state i (\<lambda>st. finish_round st c) rt))"
  by (rule set_state_ready [where k = ts_round_id]) (auto simp: finish_round_def intro: exI [of _ 0])

lemma begin_round_ready:
  "ready_batch bs rt \<Longrightarrow> (i, c) \<in> set bs \<Longrightarrow>
     ready_batch bs (snd (on_state i (\<lambda>st. rbind (begin_round st c (c + q)) (\<lambda>(st', _). Inr st')) rt))"
  by (rule set_state_ready [where k = "\<lambda>st. ts_round_id st + 1"])
    (auto simp: begin_round_def Let_def intro: exI [of _ q])

lemma after_verify_one_ready:
  "ready_batch bs rt \<Longrightarrow> b \<in> set bs \<Longrightarrow> ready_batch bs (snd (after_verify_one ev mode q b rt))"
  unfolding after_verify_one_def
  by (cases b) (auto intro!: py_bind_keeps [where P = "ready_batch bs"] finish_round_ready handler_ready)

lemma after_normal_one_ready:
  "ready_batch bs rt \<Longrightarrow> b \<in> set bs \<Longrightarrow> ready_batch bs (snd (after_normal_one ev b rt))"
  unfolding after_normal_one_def
  by (cases b) (auto intro!: py_bind_keeps [where P = "ready_batch bs"] set_committed_ready handler_ready)

lemma after_extend_one_ready:
  "ready_batch bs rt \<Longrightarrow> b \<in> set bs \<Longrightarrow> ready_batch bs (snd (after_extend_one ev b rt))"
  unfolding after_extend_one_def
  by (cases b) (auto intro!: py_bind_keeps [where P = "ready_batch bs"] set_committed_ready handler_ready)

lemma handlers_ready:
  assumes "ready_batch bs rt"
  shows "ready_batch bs (snd (after_verify ev mode q bs rt))"
    and "ready_batch bs (snd (after_normal_decode ev bs rt))"
    and "ready_batch bs (snd (after_extend ev bs rt))"
  unfolding after_verify_def after_normal_decode_def after_extend_def
  using assms
  by (auto intro!: py_bind_keeps [where P = "ready_batch bs"] py_for_keeps [where P = "ready_batch bs"] poll_ready
      after_verify_one_ready after_normal_one_ready after_extend_one_ready)


subsection \<open>Draining and releasing a request\<close>

text \<open>The request a pending seal belongs to, and that none of its slots is the padding slot.\<close>

lemma seal_owner:
  assumes inv: "seal_inv rt" and r: "dget (tr_reqs rt) i = Some r"
    and p: "dget (tr_pending_seals rt) (kr_rid r) = Some p"
  shows "\<exists>st. dget (tr_states rt) (kr_rid r) = Some st \<and> 0 \<le> ts_history_len st
    \<and> seal_fits (sg_chunk_tokens (tr_config rt)) (km_pool (tr_mem rt)) r st p \<and> 0 \<notin> set (ps_slots p)"
proof -
  obtain j t st where j: "dget (tr_reqs rt) j = Some t" "kr_rid t = kr_rid r" "dget (tr_states rt) (kr_rid r) = Some st"
    "seal_fits (sg_chunk_tokens (tr_config rt)) (km_pool (tr_mem rt)) t st p"
    using seal_invD(5) [OF inv p] unfolding pending_fits_def by blast
  have "j = i" using unique_ridsD [OF seal_invD(2) [OF inv] j(1) r j(2)] .
  then have tr: "t = r" using j(1) r by simp
  have "0 \<le> ts_history_len st" using seal_invD(4) [OF inv j(3)] by (simp add: state_fits_def tiered_ok_def)
  moreover have al: "kr_kv_committed_len r \<le> kr_kv_allocated_len r"
    using kv_invD(5) [OF seal_invD(1) [OF inv], of i "pub_req rt r"] r j(4) tr
    by (simp add: dget_pub req_ok_def pub_req_def seal_fits_def)
  have "0 \<notin> set (ps_slots p)"
    using pool_read_subset [of "nat (ps_seal_end p)" "kr_kv_allocated_len r" "ps_req_pool_idx p"
        "nat (ts_history_len st)" "km_pool (tr_mem rt)"] seal_invD(6) [OF inv r] j(3,4) tr al
    by (auto simp: resident_def hist_of_def seal_fits_def)
  ultimately show ?thesis using j(3,4) tr by blast
qed

lemma poll_one_mem:
  assumes "dget (tr_pending_seals rt) rid = Some p" and "dget (tr_states rt) rid = Some st"
    and "fst (complete_seal (ev_done ev) wait (ps_ticket p) (tr_history rt))"
  shows "tr_mem (snd (poll_one ev wait rid rt)) = free_and_tombstone (ps_slots p) (ps_req_pool_idx p)
    (nat (ps_history_start p)) (nat (ps_seal_end p)) (tr_mem rt)"
  using assms by (auto simp: poll_one_def Let_def split: prod.splits sum.splits)

lemma poll_loop_idle:
  "dget (tr_pending_seals rt) rid = None \<Longrightarrow> poll_loop ev wait (Some rid) rids rt = (Inr 0, rt)"
  by (induction rids) (auto simp: py_basic poll_one_def)

lemma poll_loop_mem:
  assumes "seal_inv rt" and "dget (tr_pending_seals rt) rid = Some p" and "rid \<in> set rids"
  shows "tr_mem (snd (poll_loop ev True (Some rid) rids rt)) = free_and_tombstone (ps_slots p)
    (ps_req_pool_idx p) (nat (ps_history_start p)) (nat (ps_seal_end p)) (tr_mem rt)"
  using assms(3)
proof (induction rids)
  case (Cons q rids)
  show ?case
  proof (cases "q = rid")
    case True
    obtain st where st: "dget (tr_states rt) rid = Some st"
      using seal_invD(5) [OF assms(1,2)] by (auto simp: pending_fits_def)
    obtain b rt1 where 1: "poll_one ev True rid rt = (Inr b, rt1)" "dget (tr_pending_seals rt1) rid = None"
      using poll_one_inv [OF assms(1), of ev True rid] by blast
    have "tr_mem rt1 = free_and_tombstone (ps_slots p) (ps_req_pool_idx p)
        (nat (ps_history_start p)) (nat (ps_seal_end p)) (tr_mem rt)"
      using poll_one_mem [OF assms(2) st complete_wait, of ev] 1(1) by simp
    with True 1 show ?thesis by (simp add: py_basic poll_loop_idle)
  qed (use Cons in auto)
qed simp

lemma drain_ok:
  assumes "seal_inv rt"
  obtains rt' where "prepare_request_release ev rid rt = (Inr (), rt')" "seal_inv rt'" "quiet rt rt'"
    "dget (tr_pending_seals rt') rid = None"
    "tr_mem rt' = (case dget (tr_pending_seals rt) rid of None \<Rightarrow> tr_mem rt
       | Some p \<Rightarrow> free_and_tombstone (ps_slots p) (ps_req_pool_idx p) (nat (ps_history_start p))
           (nat (ps_seal_end p)) (tr_mem rt))"
proof (cases "dget (tr_pending_seals rt) rid")
  case None
  with that [of rt] assms show thesis by (simp add: prepare_request_release_def)
next
  case (Some p)
  obtain n rt' where 1: "poll_pending_seals ev True (Some rid) rt = (Inr n, rt')" "seal_inv rt'" "quiet rt rt'"
    "dget (tr_pending_seals rt') rid = None"
    using poll_inv [OF assms, of ev True "Some rid"] by blast
  have "rid \<in> set (map fst (tr_pending_seals rt))" using dget_set [OF Some] by force
  note mem = poll_loop_mem [OF assms Some this, of ev, folded poll_pending_seals_def, unfolded 1(1) snd_conv]
  have "prepare_request_release ev rid rt = (Inr (), rt')"
    using Some 1(1) by (simp add: prepare_request_release_def py_basic)
  then show thesis by (rule that [OF _ 1(2-4)]) (simp add: Some mem)
qed

lemma kv_ok_nonzero: "kv_ok h m \<Longrightarrow> 0 \<notin># all_free (km_alloc m)"
proof
  assume "kv_ok h m" "0 \<in># all_free (km_alloc m)"
  then have "0 \<in># mset [1..<ka_size (km_alloc m) + 1]" using kv_invD(1) [of "{}" "{#}" "{#}" h m] by (metis union_iff)
  then show False by auto
qed

text \<open>Releasing the slots of a request whose published flag agrees with its state.\<close>

lemma release_slots_inv:
  assumes inv: "seal_inv rt" and r: "dget (tr_reqs rt) i = Some r" and x: "kr_req_pool_idx r = Some x"
    and idle: "dget (tr_pending_seals rt) (kr_rid r) = None"
    and flag: "kr_stream_enabled r = stream_of rt (kr_rid r)"
  obtains rt' r' where "release_slots i rt = (Inr (), rt')" "seal_inv rt'" "dget (tr_reqs rt') i = Some r'"
    "kr_req_pool_idx r' = None" "kr_rid r' = kr_rid r" "tr_states rt' = tr_states rt"
    "tr_pending_seals rt' = tr_pending_seals rt"
    "all_free (km_alloc (tr_mem rt')) = all_free (km_alloc (tr_mem rt)) + held (km_pool (tr_mem rt)) r"
proof -
  let ?m = "tr_mem rt"
  have same: "pub_req rt r = r" using flag by (simp add: pub_req_def)
  have pr: "dget (pub rt) i = Some r" using r same by (simp add: dget_pub)
  obtain r' m' where run: "release_kv_cache True r ?m = Inr (r', m')" "kv_ok (dset i r' (pub rt)) m'"
    "kr_req_pool_idx r' = None" "all_free (km_alloc m') = all_free (km_alloc ?m) + held (km_pool ?m) r"
    using release_kv_cache_ok [OF seal_invD(1) [OF inv] pr x, of True] by blast
  have k: "kr_rid r' = kr_rid r" "kr_stream_enabled r' = kr_stream_enabled r" "rp_req_to_token (km_pool m') = rp_req_to_token (km_pool ?m)"
    using run(1) x by (auto simp: release_kv_cache_def cache_finished_req_def req_pool_free_def Let_def split: if_splits)
  define rt' where "rt' = rt\<lparr>tr_reqs := dset i r' (tr_reqs rt), tr_mem := m'\<rparr>"
  have eqs: "stream_of rt' q = stream_of rt q" "hist_of rt' q = hist_of rt q" for q
    by (simp_all add: rt'_def stream_of_def hist_of_def)
  have "kv_ok (pub rt') (tr_mem rt')"
  proof (rule kv_inv_cong)
    show "kv_ok (dset i r' (pub rt)) (tr_mem rt')" using run(2) by (simp add: rt'_def)
    have "pub_req rt' = pub_req rt" by (rule ext) (simp add: pub_req_def eqs)
    moreover have "pub_req rt r' = r'" using k flag by (simp add: pub_req_def)
    ultimately show "dget (pub rt') j = dget (dset i r' (pub rt)) j" for j by (simp add: dget_pub rt'_def)
  qed
  moreover have "unique_rids (tr_reqs rt')"
    using seal_invD(2) [OF inv] r k(1) unfolding unique_rids_def rt'_def by (auto split: if_splits)
  moreover have "state_fits rt' q st" if "dget (tr_states rt') q = Some st" for q st
    using seal_invD(4) [OF inv, of q st] that by (simp add: state_fits_def rt'_def)
  moreover have "pending_fits rt' q p" if q: "dget (tr_pending_seals rt') q = Some p" for q p
  proof -
    from seal_invD(5) [OF inv, of q p] q obtain j t st where j:
      "dget (tr_reqs rt) j = Some t" "kr_rid t = q" "dget (tr_states rt) q = Some st"
      "seal_fits (sg_chunk_tokens (tr_config rt)) (km_pool (tr_mem rt)) t st p"
      unfolding pending_fits_def rt'_def by auto
    have "j \<noteq> i" using q idle j r by (auto simp: rt'_def)
    with j k(3) show ?thesis unfolding pending_fits_def rt'_def by (auto simp: seal_fits_def pool_read_def)
  qed
  moreover have "resident rt' t" if t: "dget (tr_reqs rt') j = Some t" for j t
  proof -
    have "tr_reqs rt' = dset i r' (tr_reqs rt)" "row (km_pool (tr_mem rt')) y = row (km_pool ?m) y" for y
      using k(3) by (simp_all add: rt'_def)
    then show ?thesis using t seal_invD(6) [OF inv, of j t] run(3)
      by (cases "j = i"; cases "kr_req_pool_idx t") (auto simp: resident_def eqs)
  qed
  ultimately have "seal_inv rt'" using seal_invD(3) [OF inv] by (simp add: seal_inv_def rt'_def)
  then show thesis using that [of rt' r'] run k r by (simp add: release_slots_def rt'_def)
qed

text \<open>Forgetting a request that no longer owns a row.\<close>

lemma forget_inv:
  assumes inv: "seal_inv rt" and r: "dget (tr_reqs rt) i = Some r" and none: "kr_req_pool_idx r = None"
    and idle: "dget (tr_pending_seals rt) (kr_rid r) = None"
  shows "seal_inv (rt\<lparr>tr_states := ddel (kr_rid r) (tr_states rt)\<rparr>)"
proof -
  let ?rt = "rt\<lparr>tr_states := ddel (kr_rid r) (tr_states rt)\<rparr>"
  have eqs: "stream_of ?rt q = stream_of rt q" "hist_of ?rt q = hist_of rt q" if "q \<noteq> kr_rid r" for q
    using that by (simp_all add: stream_of_def hist_of_def)
  have pr: "dget (pub rt) i = Some (pub_req rt r)" using r by (simp add: dget_pub)
  have other: "kr_rid s \<noteq> kr_rid r" if "dget (tr_reqs rt) j = Some s" "j \<noteq> i" for j s
    using unique_ridsD [OF seal_invD(2) [OF inv] that(1) r] that(2) by auto
  have "kv_ok (dset i (pub_req ?rt r) (pub rt)) (tr_mem rt)"
    using none by (intro kv_same_ok [OF seal_invD(1) [OF inv] pr])
      (simp_all add: pub_req_def held_n_def row_of_def req_ok_def)
  then have "kv_ok (pub ?rt) (tr_mem rt)"
  proof (rule kv_inv_cong [rotated])
    fix j show "dget (pub ?rt) j = dget (dset i (pub_req ?rt r) (pub rt)) j"
      using r other [of j] eqs by (cases "j = i"; cases "dget (tr_reqs rt) j") (simp_all add: dget_pub pub_req_def)
  qed
  moreover have "state_fits ?rt q st" if "dget (tr_states ?rt) q = Some st" for q st
    using that seal_invD(4) [OF inv, of q st] by (auto simp: state_fits_def split: if_splits)
  moreover have "pending_fits ?rt q p" if q: "dget (tr_pending_seals ?rt) q = Some p" for q p
    using q idle seal_invD(5) [OF inv, of q p] by (auto simp: pending_fits_def)
  moreover have "resident ?rt t" if t: "dget (tr_reqs ?rt) j = Some t" for j t
    using t seal_invD(6) [OF inv, of j t] none r other [of j t] eqs [of "kr_rid t"]
    by (cases "j = i"; cases "kr_req_pool_idx t") (auto simp: resident_def)
  ultimately show ?thesis using seal_invD(2,3) [OF inv] by (simp add: seal_inv_def)
qed


lemma meta_one_ready:
  assumes "ready_batch bs rt" and "b \<in> set bs" and "0 \<le> q"
  shows "ready_batch bs (snd (meta_one mode q k b rt))"
  unfolding meta_one_def using assms
  by (cases b) (auto simp: Let_def intro!: py_bind_keeps [where P = "ready_batch bs"] begin_round_ready handler_ready)

lemma py_return_keeps [simp]: "snd (py_return x s) = s"
  by (simp add: py_return_def)

lemma meta_loop_ready:
  assumes "ready_batch bs rt" and "set cs \<subseteq> set bs" and "0 \<le> q"
  shows "ready_batch bs (snd (meta_loop mode q k cs rt))"
  using assms(1,2)
proof (induction cs arbitrary: k rt)
  case (Cons b cs)
  show ?case using Cons.prems Cons.IH assms(3)
    by (auto intro!: py_bind_keeps [where P = "ready_batch bs"] meta_one_ready)
qed simp

lemma set_round_ready: "ready_batch bs (rt\<lparr>tr_round := n\<rparr>) = ready_batch bs rt"
  by (simp add: ready_batch_def entry_ok_def)

lemma build_round_meta_ready:
  assumes "ready_batch bs rt" and "0 \<le> q"
  shows "ready_batch bs (snd (build_round_meta ev mode q bs rt))"
  unfolding build_round_meta_def using assms
  by (auto intro!: py_bind_keeps [where P = "ready_batch bs"] poll_ready meta_loop_ready simp: set_round_ready)

lemma seal_inv_conserves:
  assumes "seal_inv rt"
  shows "all_free (km_alloc (tr_mem rt)) + (\<Sum>i \<in> ids (tr_reqs rt). held (km_pool (tr_mem rt)) (obj (tr_reqs rt) i))
      = mset [1..<ka_size (km_alloc (tr_mem rt)) + 1]"
proof -
  have "held_at {} (km_pool (tr_mem rt)) i (obj (pub rt) i) = held (km_pool (tr_mem rt)) (obj (tr_reqs rt) i)"
    if i: "i \<in> ids (tr_reqs rt)" for i
  proof -
    obtain r where "dget (tr_reqs rt) i = Some r" using ids_dget [OF i] by blast
    then show ?thesis
      by (cases "kr_req_pool_idx r") (simp_all add: held_at_def held_n_def dget_pub pub_req_def)
  qed
  with kv_invD(1) [OF seal_invD(1) [OF assms]] show ?thesis by simp
qed

section \<open>Properties\<close>

text \<open>
  C12: the round handlers of the Target runtime are safe.  For a batch of requests with committed
  lengths within their KV, building the round metadata and the bookkeeping after a
  verification, a normal decode or a prefill keep the invariant of the runtime, also when they
  raise: every GPU slot is free or held by one request, a pending seal covers committed resident
  tokens that begin where the history ends, and the in-flight flag of a state says whether a
  seal is pending.
\<close>

theorem seal_handlers_safe:
  assumes "ready_batch bs rt" and "0 \<le> q"
    and "rt' = snd (build_round_meta ev mode q bs rt) \<or> rt' = snd (after_verify ev mode q bs rt)
      \<or> rt' = snd (after_normal_decode ev bs rt) \<or> rt' = snd (after_extend ev bs rt)"
  shows "seal_inv rt' \<and> all_free (km_alloc (tr_mem rt'))
      + (\<Sum>i \<in> ids (tr_reqs rt'). held (km_pool (tr_mem rt')) (obj (tr_reqs rt') i))
      = mset [1..<ka_size (km_alloc (tr_mem rt')) + 1]"
proof -
  have "ready_batch bs rt'"
    using assms(3) build_round_meta_ready [OF assms(1,2)] handlers_ready [OF assms(1)] by auto
  then have "seal_inv rt'" by (simp add: ready_batch_def)
  with seal_inv_conserves [OF this] show ?thesis by blast
qed

text \<open>
  A request of four committed tokens whose first two are being copied, in a pool of six slots;
  the second request is short.
\<close>

definition ex_target :: "string \<Rightarrow> nat \<Rightarrow> target_req" where
  "ex_target rid n = \<lparr>kr_rid = rid, kr_is_draft = False, kr_fill_ids = [], kr_prefix_indices = [],
     kr_extend_input_len = 0, kr_is_chunked = 0, kr_req_pool_idx = Some 0, kr_kv_committed_len = n,
     kr_kv_allocated_len = n, kr_kv_committed_freed = False, kr_kv_overallocated_freed = False,
     kr_stream_enabled = False, tq_history_len = 0, tq_committed_len = int n, tq_logical_len = int n,
     tq_round_id = 0, tq_mode = '''', tq_q = 1, tq_seal_inflight = False\<rparr>"

definition ex_history :: "int history_store" where
  "ex_history = \<lparr>hs_max_memory_bytes = 1000, hs_chunk_tokens = 2, hs_layer_ids = [0], hs_kv_heads = 1,
     hs_head_dim = 1, hs_element_size = 1, hs_d2h_stream = True, hs_next_id = 1, hs_next_event = 1,
     hs_slabs = [], hs_request_slabs = [], hs_bytes_reserved = 0, hs_bytes_used = 0\<rparr>"

definition ex_seal :: pending_seal where
  "ex_seal = \<lparr>ps_req_pool_idx = 0, ps_history_start = 0, ps_seal_end = 2, ps_slots = [1, 2],
     ps_ticket = \<lparr>tk_block_ids = [], tk_event = Some 0, tk_dependency_event = None, tk_completed = False\<rparr>\<rparr>"

definition ex_state :: tiered_state where
  "ex_state = (tiered_new ''a'' 4 4)\<lparr>ts_seal_inflight := True\<rparr>"

definition ex_runtime :: "int seal_runtime" where
  "ex_runtime = \<lparr>tr_config = \<lparr>sg_enabled = True, sg_active_tail_tokens = 1, sg_chunk_tokens = 2,
       sg_min_history_tokens = 2, sg_strict_invariants = True\<rparr>,
     tr_states = [(''a'', ex_state)], tr_pending_seals = [(''a'', ex_seal)],
     tr_history = ex_history,
     tr_mem = \<lparr>km_alloc = (allocator_new 6 False)\<lparr>ka_free_pages := [5, 6]\<rparr>,
       km_pool = \<lparr>rp_size = 1, rp_max_context_len = 5, rp_req_to_token = [[1, 2, 3, 4, 0]], rp_free_slots = []\<rparr>\<rparr>,
     tr_reqs = [(7, ex_target ''a'' 4)], tr_round = 0\<rparr>"

definition ex_env :: "int seal_env" where
  "ex_env = \<lparr>ev_host = \<lparr>he_cuda = True, he_pin_ok = True\<rparr>,
     ev_pool = \<lparr>kp_key = (\<lambda>_ _. 0), kp_value = (\<lambda>_ _. 0), kp_key_shape = (\<lambda>_. (1, 1)),
       kp_value_shape = (\<lambda>_. (1, 1)), kp_fails = (\<lambda>_ _. False)\<rparr>,
     ev_slots_cuda = True, ev_done = (\<lambda>_. True)\<rparr>"

lemmas ex_seal_defs = ex_target_def ex_history_def ex_seal_def ex_state_def ex_runtime_def ex_env_def tiered_new_def

lemma ex_runtime_inv: "seal_inv ex_runtime"
proof -
  have "kv_ok (pub ex_runtime) (tr_mem ex_runtime)"
    by (simp add: kv_inv_def all_free_def held_at_def held_n_def row_of_def shape_ok_def req_ok_def
        pub_def pub_req_def stream_of_def allocator_new_def upt_rec numeral_eq_Suc ex_seal_defs)
  moreover have "pending_fits ex_runtime rid p" if "dget (tr_pending_seals ex_runtime) rid = Some p" for rid p
    using that by (auto simp: pending_fits_def seal_fits_def pool_read_def ex_seal_defs split: if_splits)
  ultimately show ?thesis
    by (auto simp: seal_inv_def unique_rids_def state_fits_def tiered_ok_def resident_def hist_of_def
        numeral_eq_Suc ex_seal_defs split: if_splits)
qed

theorem seal_handlers_safe_witness:
  "ready_batch [(7, 4)] ex_runtime \<and> seal_inv (snd (after_verify ex_env ''parallel'' 1 [(7, 4)] ex_runtime))"
proof -
  have "ready_batch [(7, 4)] ex_runtime"
    using ex_runtime_inv by (simp add: ready_batch_def entry_ok_def) (simp add: ex_seal_defs)
  with seal_handlers_safe [OF this zero_le_one, of "snd (after_verify ex_env ''parallel'' 1 [(7, 4)] ex_runtime)" ex_env "''parallel''"]
  show ?thesis by blast
qed

text \<open>
  C14: a sealed prefix stays on the GPU until its copy is complete.  Polling a pending seal whose
  copy event has not fired changes neither the memory nor any state; once it has fired (or the
  poll waits), exactly the slots of the sealed tokens go back to the allocator, the table entries
  of the sealed range become 0, and the history of the request grows to the sealed length.
\<close>

theorem poll_retires_exactly_once:
  assumes "seal_inv rt" and "dget (tr_pending_seals rt) rid = Some p" and "dget (tr_states rt) rid = Some st"
  shows "\<exists>rt'. poll_one ev wait rid rt = (Inr (fst (complete_seal (ev_done ev) wait (ps_ticket p) (tr_history rt))), rt')
    \<and> (if fst (complete_seal (ev_done ev) wait (ps_ticket p) (tr_history rt))
       then all_free (km_alloc (tr_mem rt')) = all_free (km_alloc (tr_mem rt)) + mset (ps_slots p)
         \<and> set (pool_read (ps_req_pool_idx p) (nat (ps_history_start p)) (nat (ps_seal_end p)) (km_pool (tr_mem rt'))) = {0}
         \<and> dget (tr_pending_seals rt') rid = None \<and> hist_of rt' rid = nat (ps_seal_end p)
         \<and> hist_of rt rid < hist_of rt' rid
       else tr_mem rt' = tr_mem rt \<and> tr_states rt' = tr_states rt \<and> tr_pending_seals rt' = tr_pending_seals rt)"
proof -
  let ?done = "fst (complete_seal (ev_done ev) wait (ps_ticket p) (tr_history rt))"
  let ?lo = "nat (ps_history_start p)" and ?hi = "nat (ps_seal_end p)" and ?x = "ps_req_pool_idx p"
  obtain b t hs where c: "complete_seal (ev_done ev) wait (ps_ticket p) (tr_history rt) = (b, t, hs)"
    by (cases "complete_seal (ev_done ev) wait (ps_ticket p) (tr_history rt)") auto
  obtain i r s0 st' where f: "dget (tr_reqs rt) i = Some r" "dget (tr_states rt) rid = Some s0"
    "seal_fits (sg_chunk_tokens (tr_config rt)) (km_pool (tr_mem rt)) r s0 p" "state_fits rt rid s0"
    "mark_sealed s0 (ps_seal_end p) (tk_block_ids t) = Inr st'" "ts_history_len st' = ps_seal_end p"
    by (rule seal_poll_state [OF assms(1,2), of "tk_block_ids t"]) auto
  have "0 \<le> ts_history_len st" using f(2,4) assms(3) by (simp add: state_fits_def tiered_ok_def)
  then have lt: "?lo < ?hi" "ps_history_start p = ts_history_len st"
    using f(2,3) assms(3) by (auto simp: seal_fits_def)
  show ?thesis
  proof (cases b)
    case False
    with c assms(2) show ?thesis by (simp add: poll_one_def)
  next
    case True
    have pr: "dget (pub rt) i = Some (pub_req rt r)" using f(1) by (simp add: dget_pub)
    have x: "kr_req_pool_idx (pub_req rt r) = Some ?x" "?hi \<le> kr_kv_committed_len (pub_req rt r)"
      using f(3) by (simp_all add: pub_req_def seal_fits_def)
    have sh: "shape_ok (km_pool (tr_mem rt))" and xb: "?x < rp_size (km_pool (tr_mem rt))"
      using kv_invD(3) [OF seal_invD(1) [OF assms(1)]] rows_bound [OF seal_invD(1) [OF assms(1)] pr x(1)] by auto
    have len: "?hi \<le> length (row (km_pool (tr_mem rt)) ?x)"
      using kv_invD(5) [OF seal_invD(1) [OF assms(1)] pr] x row_length [OF sh xb] by (simp add: req_ok_def)
    have "pool_read ?x ?lo ?hi (km_pool (free_and_tombstone (ps_slots p) ?x ?lo ?hi (tr_mem rt)))
        = replicate (?hi - ?lo) 0"
      using sh xb lt len by (simp add: free_and_tombstone_def pool_read_def pool_write_row shape_ok_def write_row_def)
    then have "set (pool_read ?x ?lo ?hi (km_pool (free_and_tombstone (ps_slots p) ?x ?lo ?hi (tr_mem rt)))) = {0}"
      using lt(1) by (auto simp: set_replicate_conv_if)
    then show ?thesis using True c f assms(2,3) lt
      by (simp add: poll_one_def Let_def hist_of_def) (simp add: free_and_tombstone_def)
  qed
qed

theorem poll_retires_exactly_once_witness:
  "\<exists>rt'. poll_one ex_env False ''a'' ex_runtime = (Inr True, rt') \<and> all_free (km_alloc (tr_mem rt')) = {#5, 6, 1, 2#}
     \<and> hist_of rt' ''a'' = 2"
proof -
  have p: "dget (tr_pending_seals ex_runtime) ''a'' = Some ex_seal" "dget (tr_states ex_runtime) ''a'' = Some ex_state"
    by (simp_all add: ex_runtime_def)
  have c: "fst (complete_seal (ev_done ex_env) False (ps_ticket ex_seal) (tr_history ex_runtime))"
    by (simp add: complete_seal_def ex_seal_defs)
  have "all_free (km_alloc (tr_mem ex_runtime)) + mset (ps_slots ex_seal) = {#5, 6, 1, 2#}"
    by (simp add: ex_seal_defs all_free_def allocator_new_def)
  moreover have "nat (ps_seal_end ex_seal) = 2" by (simp add: ex_seal_defs)
  ultimately show ?thesis
    using poll_retires_exactly_once [OF ex_runtime_inv p, of ex_env False] c by auto
qed


text \<open>What draining one request's seal leaves alone: everything the runtime keeps for the others.\<close>

definition others_kept ::
    "string \<Rightarrow> ('k, 'z) seal_runtime_scheme \<Rightarrow> ('k, 'z) seal_runtime_scheme \<Rightarrow> bool" where
  "others_kept rid rt rt' \<longleftrightarrow>
     (\<forall>q. q \<noteq> rid \<longrightarrow> dget (tr_states rt') q = dget (tr_states rt) q
        \<and> dget (tr_pending_seals rt') q = dget (tr_pending_seals rt) q)
     \<and> (store_ok (tr_history rt) \<longrightarrow> store_ok (tr_history rt'))
     \<and> hs_request_slabs (tr_history rt') = hs_request_slabs (tr_history rt)
     \<and> views (tr_history rt') = views (tr_history rt)"

lemma others_kept_refl [simp]: "others_kept rid rt rt"
  by (simp add: others_kept_def)

lemma others_kept_trans: "others_kept rid a b \<Longrightarrow> others_kept rid b c \<Longrightarrow> others_kept rid a c"
  by (simp add: others_kept_def)

lemma poll_one_others: "others_kept rid rt (snd (poll_one ev wait rid rt))"
proof (cases "dget (tr_pending_seals rt) rid")
  case (Some p)
  obtain b t hs where c: "complete_seal (ev_done ev) wait (ps_ticket p) (tr_history rt) = (b, t, hs)"
    by (cases "complete_seal (ev_done ev) wait (ps_ticket p) (tr_history rt)") auto
  have "hs_request_slabs hs = hs_request_slabs (tr_history rt)" "views hs = views (tr_history rt)"
      "store_ok (tr_history rt) \<longrightarrow> store_ok hs"
    using c complete_silent [OF c] by (auto simp: complete_seal_def split: if_splits)
  with Some c show ?thesis
    by (auto simp: poll_one_def others_kept_def Let_def put_state_def split: bool.splits option.splits sum.splits)
qed (simp add: poll_one_def)

lemma poll_loop_others: "others_kept rid rt (snd (poll_loop ev wait (Some rid) rids rt))"
proof (induction rids arbitrary: rt)
  case (Cons q rids)
  show ?case
  proof (cases "q = rid")
    case True
    obtain x rt1 where 1: "poll_one ev wait rid rt = (x, rt1)" by force
    obtain y rt2 where 2: "poll_loop ev wait (Some rid) rids rt1 = (y, rt2)" by force
    have k1: "others_kept rid rt rt1" using poll_one_others [of rid rt ev wait] 1 by simp
    have "others_kept rid rt1 rt2" using Cons.IH [of rt1] 2 by simp
    then have "others_kept rid rt rt2" by (rule others_kept_trans [OF k1])
    with k1 True 1 2 show ?thesis by (auto simp: py_basic split: sum.splits)
  qed (use Cons in auto)
qed (simp add: py_basic)

lemma drain_others:
  "prepare_request_release ev rid rt = (x, rt') \<Longrightarrow> others_kept rid rt rt'"
  using poll_loop_others [of rid rt ev True "map fst (tr_pending_seals rt)"]
  by (auto simp: prepare_request_release_def poll_pending_seals_def py_basic split: if_splits sum.splits prod.splits)

text \<open>The drain touches no row but the one of the request, and no free row.\<close>

lemma drain_rows:
  assumes "seal_inv rt" and "dget (tr_reqs rt) i = Some r" and "kr_req_pool_idx r = Some x"
    and "prepare_request_release ev (kr_rid r) rt = (res, rt')"
  shows "y \<noteq> x \<Longrightarrow> row (km_pool (tr_mem rt')) y = row (km_pool (tr_mem rt)) y"
    and "rp_free_slots (km_pool (tr_mem rt')) = rp_free_slots (km_pool (tr_mem rt))"
    and "ka_size (km_alloc (tr_mem rt')) = ka_size (km_alloc (tr_mem rt))"
proof -
  obtain rt1 where run: "prepare_request_release ev (kr_rid r) rt = (Inr (), rt1)"
    and m: "tr_mem rt1 = (case dget (tr_pending_seals rt) (kr_rid r) of None \<Rightarrow> tr_mem rt
       | Some p \<Rightarrow> free_and_tombstone (ps_slots p) (ps_req_pool_idx p) (nat (ps_history_start p))
           (nat (ps_seal_end p)) (tr_mem rt))"
    by (rule drain_ok [OF assms(1), of ev "kr_rid r"]) blast
  have eq: "rt' = rt1" using run assms(4) by simp
  have own: "ps_req_pool_idx p = x" if "dget (tr_pending_seals rt) (kr_rid r) = Some p" for p
    using seal_owner [OF assms(1,2) that] assms(3) by (auto simp: seal_fits_def)
  show "y \<noteq> x \<Longrightarrow> row (km_pool (tr_mem rt')) y = row (km_pool (tr_mem rt)) y"
    using m own by (cases "dget (tr_pending_seals rt) (kr_rid r)") (simp_all add: eq free_and_tombstone_def)
  show "rp_free_slots (km_pool (tr_mem rt')) = rp_free_slots (km_pool (tr_mem rt))"
      "ka_size (km_alloc (tr_mem rt')) = ka_size (km_alloc (tr_mem rt))"
    using m by (cases "dget (tr_pending_seals rt) (kr_rid r)"; simp add: eq free_and_tombstone_def)+
qed

text \<open>
  Conservation gives what a request returned: when only its object and its row changed, and it
  owns no row afterwards, the free slots grew by exactly what it held.
\<close>

lemma returned_slots:
  assumes inv: "seal_inv rt" "seal_inv rt'" and r: "dget (tr_reqs rt) i = Some r" "kr_req_pool_idx r = Some x"
    and reqs: "tr_reqs rt' = dset i r' (tr_reqs rt)" "kr_req_pool_idx r' = None"
    and rows: "\<And>y. y \<noteq> x \<Longrightarrow> row (km_pool (tr_mem rt')) y = row (km_pool (tr_mem rt)) y"
    and sz: "ka_size (km_alloc (tr_mem rt')) = ka_size (km_alloc (tr_mem rt))"
  shows "all_free (km_alloc (tr_mem rt')) = all_free (km_alloc (tr_mem rt)) + held (km_pool (tr_mem rt)) r"
proof -
  note ok = seal_invD(1) [OF inv(1)] and ok' = seal_invD(1) [OF inv(2)]
  let ?f = "\<lambda>j. held_at {} (km_pool (tr_mem rt)) j (obj (pub rt) j)"
  let ?g = "\<lambda>j. held_at {} (km_pool (tr_mem rt')) j (obj (pub rt') j)"
  have K: "ids (tr_reqs rt') = ids (tr_reqs rt)" "i \<in> ids (tr_reqs rt)" "finite (ids (tr_reqs rt))"
    using ids_dset [OF r(1), of r'] in_ids [OF r(1)] by (auto simp: reqs(1))
  have pr: "dget (pub rt) i = Some (pub_req rt r)" using r(1) by (simp add: dget_pub)
  have "?g j = ?f j" if j: "j \<in> ids (tr_reqs rt)" "j \<noteq> i" for j
  proof -
    obtain t where t: "dget (tr_reqs rt) j = Some t" using ids_dget [OF j(1)] by blast
    have "kr_req_pool_idx t \<noteq> Some x"
      using rows_distinct [OF ok pr, of j "pub_req rt t" x x] t j(2) r(2) by (auto simp: dget_pub pub_req_def)
    then show ?thesis using t j(2) rows
      by (cases "kr_req_pool_idx t") (auto simp: dget_pub reqs(1) held_at_def held_n_def pub_req_def)
  qed
  then have "sum ?g (ids (tr_reqs rt)) + ?f i = sum ?f (ids (tr_reqs rt)) + ?g i"
    by (rule sum_ids_change [OF K(3,2)])
  moreover have "?g i = {#}" using reqs by (simp add: dget_pub held_at_def held_n_def pub_req_def)
  moreover have "?f i = held (km_pool (tr_mem rt)) r"
    using r by (simp add: dget_pub held_at_def held_n_def pub_req_def)
  ultimately have s: "sum ?g (ids (tr_reqs rt)) + held (km_pool (tr_mem rt)) r = sum ?f (ids (tr_reqs rt))"
    by simp
  have "all_free (km_alloc (tr_mem rt')) + sum ?g (ids (tr_reqs rt))
      = all_free (km_alloc (tr_mem rt)) + sum ?f (ids (tr_reqs rt))"
    using kv_invD(1) [OF ok] kv_invD(1) [OF ok'] sz K(1) by simp
  then show ?thesis unfolding s [symmetric] by (simp add: add.assoc [symmetric] add.commute)
qed

text \<open>
  C19: finishing a request returns all it holds and nothing else.  In a runtime whose invariant
  and whose history store's invariant hold, for a request that owns a row and whose published
  stream flag agrees with its state and its pending seal, draining the seal, releasing the KV and
  releasing the request in the runtime succeeds, keeps both invariants, and returns exactly the
  slots the request held and its row; it is left with no row, no state, no pending seal and no
  history, and the padding slot 0 is not free.  Every other request keeps its object, its row of
  the table, its state, its pending seal, and the slabs of its history with their contents.
\<close>

theorem finish_request_conserves:
  assumes inv: "seal_inv rt" and r: "dget (tr_reqs rt) i = Some r" and x: "kr_req_pool_idx r = Some x"
    and flag: "kr_stream_enabled r = will_stream rt (kr_rid r)" and hist: "store_ok (tr_history rt)"
  shows "\<exists>rt'. finish_request ev i rt = (Inr (), rt') \<and> seal_inv rt' \<and> store_ok (tr_history rt')
    \<and> all_free (km_alloc (tr_mem rt')) = all_free (km_alloc (tr_mem rt)) + held (km_pool (tr_mem rt)) r
    \<and> rp_free_slots (km_pool (tr_mem rt')) = rp_free_slots (km_pool (tr_mem rt)) @ [x]
    \<and> kr_req_pool_idx (obj (tr_reqs rt') i) = None \<and> dget (tr_states rt') (kr_rid r) = None
    \<and> dget (tr_pending_seals rt') (kr_rid r) = None \<and> request_block_ids (kr_rid r) (tr_history rt') = []
    \<and> 0 \<notin># all_free (km_alloc (tr_mem rt'))
    \<and> (\<forall>j. j \<noteq> i \<longrightarrow> dget (tr_reqs rt') j = dget (tr_reqs rt) j)
    \<and> (\<forall>y. y \<noteq> x \<longrightarrow> row (km_pool (tr_mem rt')) y = row (km_pool (tr_mem rt)) y)
    \<and> (\<forall>q. q \<noteq> kr_rid r \<longrightarrow> dget (tr_states rt') q = dget (tr_states rt) q
         \<and> dget (tr_pending_seals rt') q = dget (tr_pending_seals rt) q
         \<and> request_block_ids q (tr_history rt') = request_block_ids q (tr_history rt)
         \<and> (\<forall>k \<in> set (request_block_ids q (tr_history rt)).
              views (tr_history rt') k = views (tr_history rt) k))"
proof -
  let ?rid = "kr_rid r"
  obtain rt1 where 1: "prepare_request_release ev ?rid rt = (Inr (), rt1)" "seal_inv rt1" "quiet rt rt1"
    "dget (tr_pending_seals rt1) ?rid = None" by (rule drain_ok [OF inv, of ev ?rid]) blast
  note kept = drain_others [OF 1(1)] and rows1 = drain_rows [OF inv r x 1(1)]
  have r1: "tr_reqs rt1 = tr_reqs rt" and w: "will_stream rt1 ?rid = will_stream rt ?rid"
    using 1(3) by (simp_all add: quiet_def)
  have "kr_stream_enabled r = stream_of rt1 ?rid" using flag w 1(4) by (simp add: will_stream_def)
  then obtain rt2 r' where 2: "release_slots i rt1 = (Inr (), rt2)" "seal_inv rt2" "dget (tr_reqs rt2) i = Some r'"
    "kr_req_pool_idx r' = None" "kr_rid r' = ?rid" "tr_pending_seals rt2 = tr_pending_seals rt1"
    "tr_states rt2 = tr_states rt1"
    using release_slots_inv [of rt1 i r x] 1(2,4) r r1 x by metis
  obtain s m where rel: "release_kv_cache True r (tr_mem rt1) = Inr (s, m)"
      "rt2 = rt1\<lparr>tr_reqs := dset i s (tr_reqs rt), tr_mem := m\<rparr>"
    using 2(1) r r1 by (auto simp: release_slots_def split: sum.splits prod.splits)
  have s: "s = r'" using 2(3) rel(2) by simp
  note pool = release_pool [OF rel(1) x]
  have sz: "ka_size (km_alloc m) = ka_size (km_alloc (tr_mem rt1))" by (rule release_size [OF rel(1) x])
  have free: "all_free (km_alloc (tr_mem rt2)) = all_free (km_alloc (tr_mem rt)) + held (km_pool (tr_mem rt)) r"
    by (rule returned_slots [OF inv 2(2) r x _ 2(4)]) (use rel(2) s pool sz rows1 in simp_all)
  define rt3 where "rt3 = rt2\<lparr>tr_states := ddel ?rid (tr_states rt2)\<rparr>"
  have h3: "tr_history rt3 = tr_history rt1" by (simp add: rt3_def rel(2))
  have ok3: "store_ok (tr_history rt3)" using kept hist by (simp add: h3 others_kept_def)
  obtain hs where hs: "release ?rid (tr_history rt3) = (Inr (), hs)" "store_ok hs"
      "hs_request_slabs hs = ddel ?rid (hs_request_slabs (tr_history rt3))"
      "views hs = (\<lambda>k. if k \<in> set (request_block_ids ?rid (tr_history rt3)) then None else views (tr_history rt3) k)"
    using release_spec [OF ok3, of ?rid] by blast
  have ids: "request_block_ids q (tr_history rt3) = request_block_ids q (tr_history rt)" for q
    using kept by (simp add: h3 others_kept_def request_block_ids_def)
  have ids': "request_block_ids q hs = (if q = ?rid then [] else request_block_ids q (tr_history rt))" for q
    using hs(3) ids [of q] by (simp add: request_block_ids_def)
  have vw: "views hs k = views (tr_history rt) k"
    if "q \<noteq> ?rid" "k \<in> set (request_block_ids q (tr_history rt))" for q k
  proof -
    have "k \<notin> set (request_block_ids ?rid (tr_history rt3))"
      using owned_disjoint [OF ok3 that(1)] that(2) unfolding ids by blast
    moreover have "views (tr_history rt3) = views (tr_history rt)" using kept by (simp add: h3 others_kept_def)
    ultimately show ?thesis using hs(4) by simp
  qed
  have p2: "dget (tr_pending_seals rt2) ?rid = None" using 1(4) 2(6) by simp
  have run: "finish_request ev i rt = (Inr (), rt3\<lparr>tr_history := hs\<rparr>)"
    using r 1(1) 2(1) p2 hs(1)
    by (simp add: finish_request_def release_tiered_def prepare_request_release_def py_basic rt3_def)
  have inv3: "seal_inv rt3" unfolding rt3_def using forget_inv [OF 2(2,3,4)] 2(5) p2 by simp
  have z: "0 \<notin># all_free (km_alloc (tr_mem rt2))"
    using kv_ok_nonzero [OF seal_invD(1) [OF 2(2)]] .
  have rows: "row (km_pool (tr_mem rt2)) y = row (km_pool (tr_mem rt)) y" if "y \<noteq> x" for y
    using rel(2) pool rows1(1) [OF that] by simp
  have fs: "rp_free_slots (km_pool (tr_mem rt2)) = rp_free_slots (km_pool (tr_mem rt)) @ [x]"
    using rel(2) pool rows1(2) by simp
  have oth: "dget (tr_states rt2) q = dget (tr_states rt) q" "dget (tr_pending_seals rt2) q = dget (tr_pending_seals rt) q"
    if "q \<noteq> ?rid" for q
    using kept that 2(6,7) by (simp_all add: others_kept_def)
  have objs: "dget (tr_reqs rt2) j = dget (tr_reqs rt) j" if "j \<noteq> i" for j using rel(2) that by simp
  show ?thesis
    by (intro exI conjI allI impI ballI, rule run)
      (use inv3 hs(2) free fs 2(3,4) p2 ids' z objs rows oth vw in \<open>simp_all add: rt3_def\<close>)
qed

definition ex_published :: "int seal_runtime" where
  "ex_published = ex_runtime\<lparr>tr_reqs := [(7, (ex_target ''a'' 4)\<lparr>kr_stream_enabled := True\<rparr>)]\<rparr>"

lemma ex_published_inv: "seal_inv ex_published"
proof -
  have "seal_inv (ex_runtime\<lparr>tr_reqs := dset 7 ((ex_target ''a'' 4)\<lparr>kr_stream_enabled := True\<rparr>) (tr_reqs ex_runtime)\<rparr>)"
    by (rule seal_inv_req [OF ex_runtime_inv]) (simp_all add: ex_runtime_def same_kv_def)
  then show ?thesis by (simp add: ex_published_def ex_runtime_def)
qed

theorem finish_request_conserves_witness:
  "\<exists>rt'. finish_request ex_env 7 ex_published = (Inr (), rt') \<and> seal_inv rt'
    \<and> kr_req_pool_idx (obj (tr_reqs rt') 7) = None \<and> rp_free_slots (km_pool (tr_mem rt')) = [0]
    \<and> all_free (km_alloc (tr_mem rt')) = {#1, 2, 3, 4, 5, 6#}"
proof -
  have r: "dget (tr_reqs ex_published) 7 = Some ((ex_target ''a'' 4)\<lparr>kr_stream_enabled := True\<rparr>)"
    by (simp add: ex_published_def)
  have h: "store_ok (tr_history ex_published)"
    by (simp add: ex_published_def ex_seal_defs store_ok_def slabs_ok_def owned_ok_def geometry_ok_def
        dsum_def dkeys_def)
  have f: "kr_stream_enabled ((ex_target ''a'' 4)\<lparr>kr_stream_enabled := True\<rparr>)
      = will_stream ex_published (kr_rid ((ex_target ''a'' 4)\<lparr>kr_stream_enabled := True\<rparr>))"
    by (simp add: will_stream_def ex_published_def ex_seal_defs)
  have x: "kr_req_pool_idx ((ex_target ''a'' 4)\<lparr>kr_stream_enabled := True\<rparr>) = Some 0" by (simp add: ex_target_def)
  have v: "all_free (km_alloc (tr_mem ex_published))
        + held (km_pool (tr_mem ex_published)) ((ex_target ''a'' 4)\<lparr>kr_stream_enabled := True\<rparr>) = {#1, 2, 3, 4, 5, 6#}"
      "rp_free_slots (km_pool (tr_mem ex_published)) = []"
    by (simp_all add: ex_published_def ex_seal_defs all_free_def allocator_new_def held_n_def)
  from finish_request_conserves [OF ex_published_inv r x f h, of ex_env, unfolded v] show ?thesis by auto
qed

text \<open>
  C34: the padding slot is freed when a request finishes while its first seal is in flight.  The
  drain before the release tombstones the sealed entries with 0, but the stream flag of the
  request is published only by the round handlers, so the chunk cache releases the row without
  filtering and puts slot 0 into the free list.
\<close>

theorem finish_during_first_seal_frees_padding:
  assumes inv: "seal_inv rt" and r: "dget (tr_reqs rt) i = Some r"
    and p: "dget (tr_pending_seals rt) (kr_rid r) = Some p" and flag: "\<not> kr_stream_enabled r"
  shows "0 \<in># all_free (km_alloc (tr_mem (snd (finish_request ev i rt))))"
proof -
  let ?rid = "kr_rid r" and ?x = "ps_req_pool_idx p" and ?m = "tr_mem rt"
  let ?lo = "nat (ps_history_start p)" and ?hi = "nat (ps_seal_end p)"
  obtain rt1 where 1: "prepare_request_release ev ?rid rt = (Inr (), rt1)" "quiet rt rt1" "dget (tr_pending_seals rt1) ?rid = None"
    "tr_mem rt1 = (case dget (tr_pending_seals rt) ?rid of None \<Rightarrow> ?m
       | Some p \<Rightarrow> free_and_tombstone (ps_slots p) (ps_req_pool_idx p) (nat (ps_history_start p)) (nat (ps_seal_end p)) ?m)"
    by (rule drain_ok [OF inv, of ev ?rid]) blast
  obtain st where st: "0 \<le> ts_history_len st"
    "seal_fits (sg_chunk_tokens (tr_config rt)) (km_pool ?m) r st p"
    using seal_owner [OF inv r p] by blast
  have x: "kr_req_pool_idx r = Some ?x" "?lo < ?hi" "?hi \<le> kr_kv_committed_len r"
    using st by (auto simp: seal_fits_def)
  note ok = seal_invD(1) [OF inv]
  have pr: "dget (pub rt) i = Some (pub_req rt r)" using r by (simp add: dget_pub)
  have sh: "shape_ok (km_pool ?m)" and xb: "?x < rp_size (km_pool ?m)"
    using kv_invD(3) [OF ok] rows_bound [OF ok pr] x(1) by (auto simp: pub_req_def)
  have rk: "kr_kv_committed_len r \<le> rp_max_context_len (km_pool ?m)" "\<not> kr_kv_committed_freed r" "\<not> kr_kv_overallocated_freed r"
    using kv_invD(5) [OF ok pr] x by (auto simp: req_ok_def pub_req_def)
  have "row (km_pool (tr_mem rt1)) ?x = take ?lo (row (km_pool ?m) ?x) @ replicate (?hi - ?lo) 0 @ drop ?hi (row (km_pool ?m) ?x)"
    using sh xb less_imp_le [OF x(2)] le_add_diff_inverse [OF less_imp_le [OF x(2)]]
    by (simp only: 1(4) p option.case) (simp add: free_and_tombstone_def pool_write_row shape_ok_def write_row_def)
  then have z: "0 \<in> set (take (kr_kv_committed_len r) (row (km_pool (tr_mem rt1)) ?x))"
    using x(2,3) rk(1) row_length [OF sh xb] by (auto simp: set_replicate_conv_if take_replicate)
  have r1: "dget (tr_reqs rt1) i = Some r" using 1(2) r by (simp add: quiet_def)
  obtain r2 m2 where rel: "release_kv_cache True r (tr_mem rt1) = Inr (r2, m2)" "0 \<in># all_free (km_alloc m2)" "kr_rid r2 = ?rid"
    using x(1) rk z flag
    by (auto simp: release_kv_cache_def cache_finished_req_def req_pool_free_def pool_read_def Let_def)
  have "tr_mem (snd (finish_request ev i rt)) = m2"
    using r 1(1,3) r1 rel
    by (simp add: finish_request_def release_slots_def release_tiered_def prepare_request_release_def py_basic
        Let_def split: prod.splits)
  with rel(2) show ?thesis by simp
qed

theorem finish_during_first_seal_frees_padding_witness:
  "0 \<in># all_free (km_alloc (tr_mem (snd (finish_request ex_env 7 ex_runtime))))"
  by (rule finish_during_first_seal_frees_padding [OF ex_runtime_inv, of 7 "ex_target ''a'' 4" ex_seal])
    (simp_all add: ex_runtime_def ex_target_def)

text \<open>
  C35: retracting a request while its seal is in flight frees slots twice.  The scheduler's
  retraction releases the KV of the request without draining its seal; when the copy completes,
  the poll returns the sealed slots to the allocator a second time.
\<close>

theorem retract_during_seal_double_frees:
  assumes inv: "seal_inv rt" and r: "dget (tr_reqs rt) i = Some r"
    and p: "tr_pending_seals rt = [(kr_rid r, p)]" and s: "s \<in> set (ps_slots p)"
  shows "2 \<le> count (all_free (km_alloc (tr_mem
    (snd (poll_pending_seals ev True None (snd (retract_request i rt))))))) s"
proof -
  let ?rid = "kr_rid r" and ?x = "ps_req_pool_idx p" and ?m = "tr_mem rt"
  let ?lo = "nat (ps_history_start p)" and ?hi = "nat (ps_seal_end p)"
  have p': "dget (tr_pending_seals rt) ?rid = Some p" using p by simp
  obtain st where st: "dget (tr_states rt) ?rid = Some st"
    "seal_fits (sg_chunk_tokens (tr_config rt)) (km_pool ?m) r st p" "0 \<notin> set (ps_slots p)"
    using seal_owner [OF inv r p'] by blast
  have x: "kr_req_pool_idx r = Some ?x" "?hi \<le> kr_kv_committed_len r" "ps_slots p = pool_read ?x ?lo ?hi (km_pool ?m)"
    using st(2) by (auto simp: seal_fits_def)
  have pr: "dget (pub rt) i = Some (pub_req rt r)" using r by (simp add: dget_pub)
  have rk: "\<not> kr_kv_committed_freed r" "\<not> kr_kv_overallocated_freed r"
    using kv_invD(5) [OF seal_invD(1) [OF inv] pr] x by (auto simp: req_ok_def pub_req_def)
  have "s \<noteq> 0" using s st(3) by metis
  moreover have "s \<in> set (take (kr_kv_committed_len r) (row (km_pool ?m) ?x))"
    using s pool_read_subset [OF x(2), of ?x ?lo "km_pool ?m"] x(3) by (auto dest: in_set_dropD)
  ultimately obtain r2 m2 where rel: "release_kv_cache True r ?m = Inr (r2, m2)" "s \<in># all_free (km_alloc m2)"
    using x(1) rk by (auto simp: release_kv_cache_def cache_finished_req_def req_pool_free_def pool_read_def Let_def)
  define rt1 where "rt1 = snd (retract_request i rt)"
  have rt1: "tr_mem rt1 = m2" "tr_pending_seals rt1 = [(?rid, p)]" "tr_states rt1 = tr_states rt"
    using r rel p by (simp_all add: rt1_def retract_request_def release_slots_def py_basic Let_def)
  have "tr_mem (snd (poll_one ev True ?rid rt1)) = free_and_tombstone (ps_slots p) ?x ?lo ?hi m2"
    using poll_one_mem [of rt1 ?rid p st ev True, OF _ _ complete_wait] rt1 st(1) by simp
  moreover have "snd (poll_pending_seals ev True None rt1) = snd (poll_one ev True ?rid rt1)"
    by (simp add: poll_pending_seals_def rt1(2) py_basic split: prod.split sum.split)
  ultimately have "all_free (km_alloc (tr_mem (snd (poll_pending_seals ev True None rt1)))) = all_free (km_alloc m2) + mset (ps_slots p)"
    by (simp add: free_and_tombstone_def)
  moreover have "1 \<le> count (all_free (km_alloc m2)) s" "1 \<le> count (mset (ps_slots p)) s"
    using rel(2) s by (simp_all add: Suc_le_eq)
  ultimately show ?thesis unfolding rt1_def [symmetric] by (simp only: count_union)
qed

theorem retract_during_seal_double_frees_witness:
  "2 \<le> count (all_free (km_alloc (tr_mem
    (snd (poll_pending_seals ex_env True None (snd (retract_request 7 ex_runtime))))))) 1"
  by (rule retract_during_seal_double_frees [OF ex_runtime_inv, of 7 "ex_target ''a'' 4" ex_seal])
    (simp_all add: ex_runtime_def ex_target_def ex_seal_def)

end
