(* ===== verification/VerifierForward.thy ===== *)
theory VerifierForward
  imports CohortStream SealRuntime
begin

text \<open>
  \<open>SpecStreamVerifier.forward\<close> (\<open>specstream/verifier.py\<close>) around its attention kernels: the stale
  prefetches, the checks of the layer and of the packing of the queries, the choice of the streaming
  path, the full-restore baseline and the check of the tails.  A layer that passes the checks is
  streamed by the operation whose theorem is in \<open>LayerHistory\<close> or \<open>CohortStream\<close>; the queries of a
  round that the runtime built pass theirs.  The kernels themselves and the layout of their outputs
  are left out.
\<close>

section \<open>Inputs\<close>

text \<open>
  What \<open>forward\<close> reads of the layer and the batch: the dimensions of its KV buffers, whether the query
  is on the device of the staging windows, the rows of the query and the width of \<open>req_to_token\<close>.
\<close>

record forward_layer =
  fl_layer_id :: int
  fl_cross_attention :: bool
  fl_sliding_window_size :: "int option"
  fl_same_device :: bool
  fl_cache_ndims :: "nat \<times> nat"
  fl_query_rows :: nat
  fl_context_rows :: nat

record round_meta =
  md_round_id :: int
  md_q_len :: int
  md_items :: "request_meta list"
  md_cohort_enabled :: bool
  md_full_restore_baseline :: bool

text \<open>The number of elements of the Python slice \<open>xs[low:high]\<close> of \<open>n\<close> elements.\<close>

definition slice_len :: "nat \<Rightarrow> int \<Rightarrow> int \<Rightarrow> nat" where
  "slice_len n low high = slice_bound n high - slice_bound n low"

section \<open>The checks\<close>

definition layer_checks :: "forward_layer \<Rightarrow> unit res" where
  "layer_checks fl =
     raise_first
       [(fl_cross_attention fl, RuntimeError),
        (case fl_sliding_window_size fl of None \<Rightarrow> False | Some w \<Rightarrow> - 1 < w, RuntimeError),
        (\<not> fl_same_device fl, RuntimeError),
        (fst (fl_cache_ndims fl) \<noteq> 3 \<or> snd (fl_cache_ndims fl) \<noteq> 3, RuntimeError)]"

definition query_checks :: "round_meta \<Rightarrow> forward_layer \<Rightarrow> unit res" where
  "query_checks m fl =
     raise_first (map (\<lambda>x. (int (slice_len (fl_query_rows fl) (rm_query_begin x) (rm_query_end x)) \<noteq> md_q_len m,
       AssertionError)) (md_items m))"

definition tail_checks :: "round_meta \<Rightarrow> forward_layer \<Rightarrow> unit res" where
  "tail_checks m fl =
     raise_first (map (\<lambda>x. (slice_len (fl_context_rows fl) (rm_history_len x) (rm_logical_len x) = 0,
       AssertionError)) (md_items m))"

section \<open>The full-restore baseline\<close>

text \<open>
  \<open>host[cursor : cursor + chunk.length].copy_(chunk.tensor)\<close> for every chunk: a slice cut off at the end
  of the buffer has another shape than the chunk, which raises unless a single row is broadcast to
  none.  A row not written is \<open>None\<close>.
\<close>

fun copy_chunks :: "'a option list \<Rightarrow> nat \<Rightarrow> 'a list list \<Rightarrow> 'a option list res" where
  "copy_chunks host cursor [] = Inr host"
| "copy_chunks host cursor (c # cs) =
     (if cursor + length c \<le> length host
      then copy_chunks (take cursor host @ map Some c @ drop (cursor + length c) host) (cursor + length c) cs
      else if length c = 1 then copy_chunks host (cursor + 1) cs
      else Inl RuntimeError)"

definition restore_history :: "stream_item \<Rightarrow> int \<Rightarrow> ('k stream_verifier, ('k \<times> 'k) option list) py" where
  "restore_history item layer_id =
     py_bind (layer_chunks item layer_id) (\<lambda>chunks.
     if chunks = [] then py_return []
     else (\<lambda>v. (copy_chunks (replicate (nat (si_history_len item)) None) 0 (map lc_tensor chunks), v)))"

fun restore_each :: "int \<Rightarrow> stream_item list \<Rightarrow> ('k stream_verifier, ('k \<times> 'k) option list list) py" where
  "restore_each layer_id [] = py_return []"
| "restore_each layer_id (item # items) =
     py_bind (restore_history item layer_id) (\<lambda>rows.
     py_bind (restore_each layer_id items) (\<lambda>rest. py_return (rows # rest)))"

section \<open>Forward\<close>

text \<open>What the kernels of a layer were given: restored rows, or the windows of one of three paths.\<close>

datatype 'k layer_input =
    Restored "('k \<times> 'k) option list list"
  | Cohorts "(string list \<times> nat \<times> transfer) list"
  | Independent "(nat \<times> transfer) list"
  | OneByOne "(nat \<times> transfer) list list"

definition stream_items :: "round_meta \<Rightarrow> stream_item list" where
  "stream_items m =
     map (\<lambda>x. \<lparr> si_rid = rm_rid x, si_history_len = rm_history_len x \<rparr>)
       (filter (\<lambda>x. rm_stream_enabled x \<and> 0 < rm_history_len x) (md_items m))"

definition stream_layer ::
    "specstream_config \<Rightarrow> (int \<Rightarrow> int \<times> int) \<Rightarrow> round_meta \<Rightarrow> int \<Rightarrow> ('k stream_verifier, 'k layer_input) py" where
  "stream_layer cfg clock m layer_id =
     (let items = stream_items m; prefetch = (cf_layer_prefetch cfg \<and> \<not> cf_reference_attention cfg) in
      if md_full_restore_baseline m
      then py_bind (restore_each layer_id items) (\<lambda>rows. py_return (Restored rows))
      else if md_cohort_enabled m \<and> 1 < length items
      then py_bind (stream_history_cohorts cfg (md_q_len m) clock (md_round_id m) items layer_id prefetch)
             (\<lambda>k. py_return (Cohorts k))
      else if prefetch \<and> 1 < length items
      then py_bind (stream_history_independent cfg (md_round_id m) items layer_id) (\<lambda>k. py_return (Independent k))
      else py_bind (stream_each cfg (md_round_id m) layer_id (cf_layer_prefetch cfg \<and> length items = 1) items)
             (\<lambda>k. py_return (OneByOne k)))"

definition verifier_forward ::
    "specstream_config \<Rightarrow> (int \<Rightarrow> int \<times> int) \<Rightarrow> round_meta \<Rightarrow> forward_layer \<Rightarrow> ('k stream_verifier, 'k layer_input) py" where
  "verifier_forward cfg clock m fl =
     py_bind (py_update (purge_stale_prefetch (md_round_id m))) (\<lambda>_.
     py_bind (\<lambda>v. (layer_checks fl, v)) (\<lambda>_.
     py_bind (\<lambda>v. (query_checks m fl, v)) (\<lambda>_.
     py_bind (stream_layer cfg clock m (fl_layer_id fl)) (\<lambda>k.
     py_bind (\<lambda>v. (tail_checks m fl, v)) (\<lambda>_. py_return k)))))"

section \<open>The paths of forward\<close>

definition checks_pass :: "round_meta \<Rightarrow> forward_layer \<Rightarrow> bool" where
  "checks_pass m fl \<longleftrightarrow> layer_checks fl = Inr () \<and> query_checks m fl = Inr () \<and> tail_checks m fl = Inr ()"

lemma forward_streams:
  assumes "checks_pass m fl"
  shows "verifier_forward cfg clock m fl v = stream_layer cfg clock m (fl_layer_id fl) (purge_stale_prefetch (md_round_id m) v)"
proof -
  obtain r v' where "stream_layer cfg clock m (fl_layer_id fl) (purge_stale_prefetch (md_round_id m) v) = (r, v')" by force
  with assms show ?thesis by (cases r) (simp_all add: verifier_forward_def checks_pass_def py_basic)
qed

text \<open>Each path is the operation that the theorems on streaming are about.\<close>

lemma forward_paths:
  assumes "checks_pass m fl" "\<not> md_full_restore_baseline m"
  shows "md_cohort_enabled m \<Longrightarrow> 1 < length (stream_items m) \<Longrightarrow>
      verifier_forward cfg clock m fl v =
      py_bind (forward_cohorts cfg (md_q_len m) clock (md_round_id m) (stream_items m) (fl_layer_id fl))
        (\<lambda>k. py_return (Cohorts k)) v"
    and "\<not> (md_cohort_enabled m \<and> 1 < length (stream_items m)) \<Longrightarrow>
      cf_layer_prefetch cfg \<Longrightarrow> \<not> cf_reference_attention cfg \<Longrightarrow> 1 < length (stream_items m) \<Longrightarrow>
      verifier_forward cfg clock m fl v =
      py_bind (forward_independent cfg (md_round_id m) (stream_items m) (fl_layer_id fl)) (\<lambda>k. py_return (Independent k)) v"
    and "\<not> (md_cohort_enabled m \<and> 1 < length (stream_items m)) \<Longrightarrow>
      \<not> (cf_layer_prefetch cfg \<and> \<not> cf_reference_attention cfg \<and> 1 < length (stream_items m)) \<Longrightarrow>
      verifier_forward cfg clock m fl v =
      py_bind (forward_each cfg (md_round_id m) (stream_items m) (fl_layer_id fl)) (\<lambda>k. py_return (OneByOne k)) v"
  using assms(2) unfolding forward_streams [OF assms(1)]
  by (auto simp: stream_layer_def forward_cohorts_def forward_independent_def forward_each_def Let_def py_basic)

text \<open>A layer that fails its checks is not streamed.\<close>

lemma forward_rejects:
  assumes "layer_checks fl = Inl e \<or> layer_checks fl = Inr () \<and> query_checks m fl = Inl e"
  shows "verifier_forward cfg clock m fl v = (Inl e, purge_stale_prefetch (md_round_id m) v)"
  using assms by (auto simp: verifier_forward_def py_basic)

lemma copy_chunks_exact:
  "cursor + sum_list (map length cs) = length host \<Longrightarrow>
     copy_chunks host cursor cs = Inr (take cursor host @ map Some (concat cs))"
proof (induction cs arbitrary: host cursor)
  case (Cons c cs)
  let ?host = "take cursor host @ map Some c @ drop (cursor + length c) host"
  have "copy_chunks ?host (cursor + length c) cs = Inr (take (cursor + length c) ?host @ map Some (concat cs))"
    by (rule Cons.IH) (use Cons.prems in simp)
  with Cons.prems show ?case by simp
qed simp

text \<open>The baseline restores exactly the sealed rows of a request.\<close>

lemma restore_history_exact:
  assumes "history_ready item (vf_store v)" "off < length (hs_layer_ids (vf_store v))"
  shows "\<exists>v'. restore_history item (hs_layer_ids (vf_store v) ! off) v
      = (Inr (map Some (take (nat (si_history_len item)) (contents off (vf_store v) (si_rid item)))), v')"
proof -
  let ?st = "vf_store v" and ?layer = "hs_layer_ids (vf_store v) ! off"
  let ?cs = "chunks_of item ?layer ?st" and ?n = "nat (si_history_len item)"
  have idx: "index_of (hs_layer_ids ?st) ?layer = Some off"
    using assms by (intro index_of_nth) (simp_all add: history_ready_def)
  obtain st' where run: "layer_chunks item ?layer v = (Inr ?cs, v\<lparr>vf_store := st'\<rparr>)"
    using layer_chunks_ready [OF assms(1) nth_mem [OF assms(2)]] by blast
  have rows: "concat (map lc_tensor ?cs) = take ?n (contents off ?st (si_rid item))"
    using iter_ready [OF assms(1) idx] by blast
  then have "length (concat (map lc_tensor ?cs)) = ?n"
    using assms by (auto simp: history_ready_def)
  then have "copy_chunks (replicate ?n None) 0 (map lc_tensor ?cs) = Inr (map Some (concat (map lc_tensor ?cs)))"
    by (subst copy_chunks_exact) (simp_all add: length_concat comp_def)
  with run rows show ?thesis by (cases "?cs = []") (simp_all add: restore_history_def py_basic)
qed

section \<open>Rounds built by the runtime\<close>

text \<open>Request \<open>k\<close> of a round takes rows \<open>k * q_len\<close> to \<open>(k + 1) * q_len\<close> of the query.\<close>

lemma meta_loop_queries:
  "meta_loop mode q index bs rt = (Inr xs, rt') \<Longrightarrow>
     length xs = length bs
   \<and> (\<forall>k < length xs. rm_query_begin (xs ! k) = (index + int k) * q \<and> rm_query_end (xs ! k) = (index + int k) * q + q)"
proof (induction bs arbitrary: index rt xs)
  case (Cons b bs)
  from Cons.prems obtain x rt1 ys where x: "meta_one mode q index b rt = (Inr x, rt1)"
    and ys: "meta_loop mode q (index + 1) bs rt1 = (Inr ys, rt')" and xs: "xs = x # ys"
    by (auto simp: py_basic split: prod.splits sum.splits)
  have "rm_query_begin x = index * q \<and> rm_query_end x = index * q + q"
    using x by (auto simp: meta_one_def py_basic Let_def split: prod.splits sum.splits)
  with Cons.IH [OF ys] show ?case
    by (auto simp: xs nth_Cons algebra_simps split: nat.splits)
qed (simp add: py_basic)

lemma built_round_packs:
  assumes run: "build_round_meta ev mode q bs rt = (Inr (round_id, xs, on), rt')" and q: "0 \<le> q"
    and m: "md_items m = xs" "md_q_len m = q" and rows: "int (fl_query_rows fl) = int (length bs) * q"
  shows "query_checks m fl = Inr ()"
proof -
  obtain rt1 where "meta_loop mode q 0 bs rt1 = (Inr xs, rt')"
    using run by (auto simp: build_round_meta_def py_basic split: prod.splits sum.splits)
  note xs = meta_loop_queries [OF this]
  have "int (slice_len (fl_query_rows fl) (rm_query_begin x) (rm_query_end x)) = q" if x: "x \<in> set xs" for x
  proof -
    obtain k where "k < length xs" "x = xs ! k" using x unfolding in_set_conv_nth by blast
    then have k: "k < length bs" "x = xs ! k" using xs by simp_all
    define low where "low = int k * q"
    have "(int k + 1) * q \<le> int (length bs) * q" using k(1) q by (intro mult_right_mono) simp_all
    then have "low + q \<le> int (fl_query_rows fl)" by (simp add: rows low_def algebra_simps)
    moreover have "0 \<le> low" using q by (simp add: low_def)
    moreover have "rm_query_begin x = low" "rm_query_end x = low + q" using xs k by (simp_all add: low_def)
    ultimately show ?thesis using q by (simp add: slice_len_def slice_bound_def)
  qed
  then show ?thesis by (auto simp: query_checks_def m)
qed

end
