(* ===== verification/OnlineSoftmax.thy ===== *)
theory OnlineSoftmax
  imports Prelude
begin

text \<open>
  The attention the Target computes over a history it streams back chunk by chunk
  (\<open>specstream/online_softmax.py\<close>).  A tensor is its shape, its device and the function from
  indices to entries; entries are reals, and the masked scores, which are minus infinity, are
  values of \<open>pyfloat\<close>.  The online state keeps, for every query, key-value head and group, the
  largest score seen, the normalizer and the weighted values relative to it.  The main theorem
  is that the state merges chunks exactly: for every chunk size the result is the softmax
  attention over all keys at once, with the same exceptions.
\<close>

section \<open>Tensors\<close>

record 'a tensor =
  t_shape :: "nat list"
  t_device :: nat
  t_at :: "nat list \<Rightarrow> 'a"

text \<open>\<open>t[start:stop]\<close> along the first axis, with \<open>start \<le> stop\<close> inside the tensor.\<close>

definition t_slice :: "nat \<Rightarrow> nat \<Rightarrow> 'a tensor \<Rightarrow> 'a tensor" where
  "t_slice start stop t = t\<lparr>
     t_shape := (stop - start) # tl (t_shape t),
     t_at := \<lambda>idx. t_at t ((start + hd idx) # tl idx) \<rparr>"

definition tensor3 :: "nat list \<Rightarrow> nat \<Rightarrow> (nat \<Rightarrow> nat \<Rightarrow> nat \<Rightarrow> 'a) \<Rightarrow> 'a tensor" where
  "tensor3 sh dev f = \<lparr> t_shape = sh, t_device = dev, t_at = \<lambda>idx. f (idx ! 0) (idx ! 1) (idx ! 2) \<rparr>"

definition tensor2 :: "nat list \<Rightarrow> nat \<Rightarrow> (nat \<Rightarrow> nat \<Rightarrow> 'a) \<Rightarrow> 'a tensor" where
  "tensor2 sh dev f = \<lparr> t_shape = sh, t_device = dev, t_at = \<lambda>idx. f (idx ! 0) (idx ! 1) \<rparr>"

definition tensor4 :: "nat list \<Rightarrow> nat \<Rightarrow> (nat \<Rightarrow> nat \<Rightarrow> nat \<Rightarrow> nat \<Rightarrow> 'a) \<Rightarrow> 'a tensor" where
  "tensor4 sh dev f = \<lparr> t_shape = sh, t_device = dev,
     t_at = \<lambda>idx. f (idx ! 0) (idx ! 1) (idx ! 2) (idx ! 3) \<rparr>"

lemma tensor2_simps [simp]:
  "t_shape (tensor2 sh dev f) = sh" "t_device (tensor2 sh dev f) = dev"
  "t_at (tensor2 sh dev f) [i, j] = f i j"
  by (simp_all add: tensor2_def)

lemma tensor3_simps [simp]:
  "t_shape (tensor3 sh dev f) = sh" "t_device (tensor3 sh dev f) = dev"
  "t_at (tensor3 sh dev f) [i, h, g] = f i h g"
  by (simp_all add: tensor3_def)

lemma tensor4_simps [simp]:
  "t_shape (tensor4 sh dev f) = sh" "t_device (tensor4 sh dev f) = dev"
  "t_at (tensor4 sh dev f) [i, h, g, v] = f i h g v"
  by (simp_all add: tensor4_def)

lemma t_slice_simps [simp]:
  "t_shape (t_slice a b t) = (b - a) # tl (t_shape t)" "t_device (t_slice a b t) = t_device t"
  "t_at (t_slice a b t) (k # idx) = t_at t ((a + k) # idx)"
  by (simp_all add: t_slice_def)

text \<open>\<open>torch.maximum\<close>, which propagates NaN, and \<open>amax\<close> over a nonempty axis.\<close>

fun pf_max :: "pyfloat \<Rightarrow> pyfloat \<Rightarrow> pyfloat" where
  "pf_max NaN y = NaN"
| "pf_max x NaN = NaN"
| "pf_max PInf y = PInf"
| "pf_max x PInf = PInf"
| "pf_max NInf y = y"
| "pf_max x NInf = x"
| "pf_max (Fin a) (Fin b) = Fin (max a b)"

definition amax :: "pyfloat list \<Rightarrow> pyfloat" where
  "amax xs = foldr pf_max xs NInf"

fun pf_add :: "pyfloat \<Rightarrow> real \<Rightarrow> pyfloat" where
  "pf_add (Fin a) r = Fin (a + r)"
| "pf_add x r = x"

text \<open>\<open>torch.where(isfinite(x), exp(x - safe), 0)\<close>, the shape of the three rescaling lines.\<close>

definition masked_exp :: "real \<Rightarrow> pyfloat \<Rightarrow> real" where
  "masked_exp safe x = (if isfinite x then exp (fin_val x - safe) else 0)"

lemma masked_exp_simps [simp]:
  "masked_exp m (Fin a) = exp (a - m)" "masked_exp m NInf = 0"
  by (simp_all add: masked_exp_def)

section \<open>The online state\<close>

record online_state =
  os_max :: "pyfloat tensor"
  os_norm :: "real tensor"
  os_weighted :: "real tensor"

text \<open>\<open>_validate_inputs\<close>: the sizes \<open>(Q, K, Hq, Hkv, D, Dv)\<close> or a \<open>ValueError\<close>.\<close>

definition validate_inputs ::
  "real tensor \<Rightarrow> real tensor \<Rightarrow> real tensor \<Rightarrow> (nat \<times> nat \<times> nat \<times> nat \<times> nat \<times> nat) res" where
  "validate_inputs query key val =
     (case (t_shape query, t_shape key, t_shape val) of
        ([query_count, num_query_heads, head_dim], [key_count, num_kv_heads, key_dim], [vc, vh, vd]) \<Rightarrow>
          rbind (raise_first
            [([vc, vh] \<noteq> [key_count, num_kv_heads], ValueError),
             (key_dim \<noteq> head_dim, ValueError),
             (num_kv_heads < 1 \<or> num_query_heads mod num_kv_heads \<noteq> 0, ValueError),
             (t_device query \<noteq> t_device key \<or> t_device query \<noteq> t_device val, ValueError)])
          (\<lambda>_. Inr (query_count, key_count, num_query_heads, num_kv_heads, head_dim, vd))
      | _ \<Rightarrow> Inl ValueError)"

definition check_positions :: "int list \<Rightarrow> nat \<Rightarrow> int list res" where
  "check_positions values expected = (if length values \<noteq> expected then Inl ValueError else Inr values)"

definition init_online_softmax_state ::
  "real tensor \<Rightarrow> nat \<Rightarrow> nat option \<Rightarrow> online_state res" where
  "init_online_softmax_state query num_kv_heads value_head_dim =
     (case t_shape query of
        [query_count, num_query_heads, head_dim] \<Rightarrow>
          if num_kv_heads < 1 \<or> num_query_heads mod num_kv_heads \<noteq> 0 then Inl ValueError
          else
            let groups = num_query_heads div num_kv_heads;
                vd = (case value_head_dim of None \<Rightarrow> head_dim | Some n \<Rightarrow> n);
                shape = [query_count, num_kv_heads, groups]
            in Inr \<lparr> os_max = tensor3 shape (t_device query) (\<lambda>i h g. NInf),
                     os_norm = tensor3 shape (t_device query) (\<lambda>i h g. 0),
                     os_weighted = tensor4 (shape @ [vd]) (t_device query) (\<lambda>i h g v. 0) \<rparr>
      | _ \<Rightarrow> Inl ValueError)"

text \<open>
  The score of a key for a query head: the scaled dot product, optionally soft-capped, and minus
  infinity for a key after the query when the attention is causal.  Query head \<open>h * groups + g\<close>
  is group \<open>g\<close> of key-value head \<open>h\<close>.
\<close>

definition scale_of :: "real option \<Rightarrow> nat \<Rightarrow> real res" where
  "scale_of scale head_dim =
     (case scale of Some s \<Rightarrow> Inr s
      | None \<Rightarrow> if head_dim = 0 then Inl ZeroDivisionError else Inr (1 / sqrt (real head_dim)))"

definition score ::
  "real tensor \<Rightarrow> real tensor \<Rightarrow> int list \<Rightarrow> int list \<Rightarrow> nat \<Rightarrow> nat \<Rightarrow> real \<Rightarrow> bool \<Rightarrow> real
   \<Rightarrow> nat \<Rightarrow> nat \<Rightarrow> nat \<Rightarrow> nat \<Rightarrow> pyfloat" where
  "score query key q_pos k_pos groups head_dim scale causal softcap i h g k =
     (let s = (\<Sum>d<head_dim. t_at query [i, h * groups + g, d] * t_at key [k, h, d]) * scale;
          s = (if softcap > 0 then softcap * tanh (s / softcap) else s)
      in if causal \<and> \<not> k_pos ! k \<le> q_pos ! i then NInf else Fin s)"

text \<open>The merge of one region, given the scores of its keys.\<close>

definition merge_region ::
  "online_state \<Rightarrow> nat list \<Rightarrow> nat \<Rightarrow> nat \<Rightarrow> nat \<Rightarrow> (nat \<Rightarrow> nat \<Rightarrow> nat \<Rightarrow> nat \<Rightarrow> pyfloat) \<Rightarrow> real tensor
   \<Rightarrow> online_state" where
  "merge_region st expected_state value_head_dim dev key_count scores val =
     (let chunk_max = (\<lambda>i h g. amax (map (scores i h g) [0..<key_count]));
          weights = (\<lambda>i h g k. masked_exp (fin_val (chunk_max i h g)) (scores i h g k));
          chunk_normalizer = (\<lambda>i h g. \<Sum>k<key_count. weights i h g k);
          chunk_weighted_value = (\<lambda>i h g v. \<Sum>k<key_count. weights i h g k * t_at val [k, h, v]);
          merged_max = (\<lambda>i h g. pf_max (t_at (os_max st) [i, h, g]) (chunk_max i h g));
          old_scale = (\<lambda>i h g. masked_exp (fin_val (merged_max i h g)) (t_at (os_max st) [i, h, g]));
          chunk_scale = (\<lambda>i h g. masked_exp (fin_val (merged_max i h g)) (chunk_max i h g))
      in \<lparr> os_max = tensor3 expected_state dev merged_max,
           os_norm = tensor3 expected_state dev
             (\<lambda>i h g. old_scale i h g * t_at (os_norm st) [i, h, g]
                    + chunk_scale i h g * chunk_normalizer i h g),
           os_weighted = tensor4 (expected_state @ [value_head_dim]) dev
             (\<lambda>i h g v. old_scale i h g * t_at (os_weighted st) [i, h, g, v]
                    + chunk_scale i h g * chunk_weighted_value i h g v) \<rparr>)"

text \<open>\<open>update_online_softmax_state\<close>: check the shapes, score the keys and merge the region.\<close>

definition update_online_softmax_state ::
  "online_state \<Rightarrow> real tensor \<Rightarrow> real tensor \<Rightarrow> real tensor \<Rightarrow> int list \<Rightarrow> int list
   \<Rightarrow> real option \<Rightarrow> bool \<Rightarrow> real \<Rightarrow> online_state res" where
  "update_online_softmax_state st query key val query_positions key_positions scale causal softcap =
     rbind (validate_inputs query key val)
       (\<lambda>(query_count, key_count, num_query_heads, num_kv_heads, head_dim, value_head_dim).
     let groups = num_query_heads div num_kv_heads;
         expected_state = [query_count, num_kv_heads, groups] in
     rbind (raise_first
       [(t_shape (os_max st) \<noteq> expected_state, ValueError),
        (t_shape (os_norm st) \<noteq> expected_state, ValueError),
        (t_shape (os_weighted st) \<noteq> expected_state @ [value_head_dim], ValueError)]) (\<lambda>_.
     if key_count = 0 then Inr st
     else
       rbind (check_positions query_positions query_count) (\<lambda>q_pos.
       rbind (check_positions key_positions key_count) (\<lambda>k_pos.
       rbind (scale_of scale head_dim) (\<lambda>sc.
       Inr (merge_region st expected_state value_head_dim (t_device query) key_count
              (score query key q_pos k_pos groups head_dim sc causal softcap) val))))))"

text \<open>\<open>torch.finfo(torch.float32).tiny\<close>.\<close>

definition tiny :: real where
  "tiny = 1 / 2 ^ 126"

definition finalize_online_softmax_state ::
  "online_state \<Rightarrow> (real tensor \<times> pyfloat tensor) res" where
  "finalize_online_softmax_state st =
     (case t_shape (os_weighted st) of
        [query_count, num_kv_heads, groups, value_head_dim] \<Rightarrow>
          let norm = (\<lambda>i h g. t_at (os_norm st) [i, h, g]);
              output = (\<lambda>i h g v. if norm i h g > 0
                          then t_at (os_weighted st) [i, h, g, v] / max (norm i h g) tiny else 0);
              lse = (\<lambda>i h g. if norm i h g > 0
                       then pf_add (t_at (os_max st) [i, h, g]) (ln (max (norm i h g) tiny)) else NInf)
          in Inr (tensor3 [query_count, num_kv_heads * groups, value_head_dim] (t_device (os_weighted st))
                    (\<lambda>i j v. output i (j div groups) (j mod groups) v),
                  tensor2 [query_count, num_kv_heads * groups] (t_device (os_norm st))
                    (\<lambda>i j. lse i (j div groups) (j mod groups)))
      | _ \<Rightarrow> Inl ValueError)"

definition range_starts :: "nat \<Rightarrow> nat \<Rightarrow> nat list" where
  "range_starts n step = map (\<lambda>i. i * step) [0..<(n + step - 1) div step]"

definition online_attention_reference ::
  "real tensor \<Rightarrow> real tensor \<Rightarrow> real tensor \<Rightarrow> int list \<Rightarrow> int list \<Rightarrow> int
   \<Rightarrow> real option \<Rightarrow> bool \<Rightarrow> real \<Rightarrow> (real tensor \<times> pyfloat tensor) res" where
  "online_attention_reference query key val query_positions key_positions chunk_size scale causal softcap =
     (if chunk_size < 1 then Inl ValueError
      else
        rbind (validate_inputs query key val) (\<lambda>(_, key_count, _, num_kv_heads, _, value_head_dim).
        rbind (check_positions key_positions key_count) (\<lambda>key_pos.
        rbind (init_online_softmax_state query num_kv_heads (Some value_head_dim)) (\<lambda>st0.
        rbind (rfold (\<lambda>st start.
            let stop = min (start + nat chunk_size) key_count in
            update_online_softmax_state st query (t_slice start stop key) (t_slice start stop val)
              query_positions (take (stop - start) (drop start key_pos)) scale causal softcap)
          st0 (range_starts key_count (nat chunk_size)))
        finalize_online_softmax_state))))"

definition full_attention_reference ::
  "real tensor \<Rightarrow> real tensor \<Rightarrow> real tensor \<Rightarrow> int list \<Rightarrow> int list
   \<Rightarrow> real option \<Rightarrow> bool \<Rightarrow> real \<Rightarrow> (real tensor \<times> pyfloat tensor) res" where
  "full_attention_reference query key val query_positions key_positions scale causal softcap =
     (case t_shape key of [] \<Rightarrow> Inl IndexError
      | key_count # _ \<Rightarrow> online_attention_reference query key val query_positions key_positions
          (max 1 (int key_count)) scale causal softcap)"

section \<open>The reference: softmax attention over all keys\<close>

text \<open>The mass and the weighted sum of the visible keys among a set of key indices.\<close>

definition visible :: "(nat \<Rightarrow> pyfloat) \<Rightarrow> nat \<Rightarrow> nat set" where
  "visible s n = {k. k < n \<and> isfinite (s k)}"

definition softmax_mass :: "(nat \<Rightarrow> pyfloat) \<Rightarrow> nat \<Rightarrow> real" where
  "softmax_mass s n = (\<Sum>k \<in> visible s n. exp (fin_val (s k)))"

definition softmax_sum :: "(nat \<Rightarrow> pyfloat) \<Rightarrow> (nat \<Rightarrow> real) \<Rightarrow> nat \<Rightarrow> real" where
  "softmax_sum s w n = (\<Sum>k \<in> visible s n. exp (fin_val (s k)) * w k)"

text \<open>
  The attention and its log-sum-exp as defined in mathematics, with the checks the program
  makes: no key means no check of the query positions.
\<close>

definition exact_attention ::
  "real tensor \<Rightarrow> real tensor \<Rightarrow> real tensor \<Rightarrow> int list \<Rightarrow> int list
   \<Rightarrow> real option \<Rightarrow> bool \<Rightarrow> real \<Rightarrow> (real tensor \<times> pyfloat tensor) res" where
  "exact_attention query key val q_pos k_pos scale causal softcap =
     rbind (validate_inputs query key val) (\<lambda>(qc, kc, hq, hk, hd, vd).
     if length k_pos \<noteq> kc \<or> (0 < kc \<and> length q_pos \<noteq> qc) then Inl ValueError
     else if 0 < kc \<and> scale = None \<and> hd = 0 then Inl ZeroDivisionError
     else
       let groups = hq div hk;
           sc = (case scale of Some s \<Rightarrow> s | None \<Rightarrow> 1 / sqrt (real hd));
           s = (\<lambda>i j. score query key q_pos k_pos groups hd sc causal softcap i (j div groups) (j mod groups))
       in Inr (tensor3 [qc, hk * groups, vd] (t_device query)
                 (\<lambda>i j v. if visible (s i j) kc = {} then 0
                    else softmax_sum (s i j) (\<lambda>k. t_at val [k, j div groups, v]) kc / softmax_mass (s i j) kc),
               tensor2 [qc, hk * groups] (t_device query)
                 (\<lambda>i j. if visible (s i j) kc = {} then NInf else Fin (ln (softmax_mass (s i j) kc)))))"

section \<open>One cell of the state\<close>

text \<open>Partial sums over the first keys; a masked key contributes nothing.\<close>

definition exp_mass :: "(nat \<Rightarrow> pyfloat) \<Rightarrow> nat \<Rightarrow> real" where
  "exp_mass s n = (\<Sum>k<n. masked_exp 0 (s k))"

definition exp_sum :: "(nat \<Rightarrow> pyfloat) \<Rightarrow> (nat \<Rightarrow> real) \<Rightarrow> nat \<Rightarrow> real" where
  "exp_sum s w n = (\<Sum>k<n. masked_exp 0 (s k) * w k)"

lemma softmax_mass_eq: "softmax_mass s n = exp_mass s n"
  unfolding softmax_mass_def exp_mass_def
  by (rule sum.mono_neutral_cong_left) (auto simp: visible_def masked_exp_def)

lemma softmax_sum_eq: "softmax_sum s w n = exp_sum s w n"
  unfolding softmax_sum_def exp_sum_def
  by (rule sum.mono_neutral_cong_left) (auto simp: visible_def masked_exp_def)

lemma masked_exp_shift: "masked_exp c x = exp (- c) * masked_exp 0 x"
  by (simp add: masked_exp_def exp_diff exp_minus field_simps)

lemma masked_exp_nonneg [simp]: "0 \<le> masked_exp c x"
  by (simp add: masked_exp_def)

lemma sum_shift: "(\<Sum>k<n + l. f k) = (\<Sum>k<n. f k) + (\<Sum>k<l. f (n + k))" for f :: "nat \<Rightarrow> real"
  by (induction l) (simp_all add: add.assoc)

lemma exp_mass_add: "exp_mass s (n + l) = exp_mass s n + exp_mass (\<lambda>k. s (n + k)) l"
  by (simp add: exp_mass_def sum_shift)

lemma exp_sum_add: "exp_sum s w (n + l) = exp_sum s w n + exp_sum (\<lambda>k. s (n + k)) (\<lambda>k. w (n + k)) l"
  by (simp add: exp_sum_def sum_shift)

text \<open>Scores are finite or minus infinity.\<close>

definition scores_ok :: "(nat \<Rightarrow> pyfloat) \<Rightarrow> bool" where
  "scores_ok s \<longleftrightarrow> (\<forall>k. s k = NInf \<or> isfinite (s k))"

lemma isfinite_iff: "isfinite x \<longleftrightarrow> (\<exists>a. x = Fin a)"
  by (cases x) auto

lemma amax_cases:
  assumes "\<forall>x \<in> set xs. x = NInf \<or> isfinite x"
  shows "amax xs = NInf \<and> (\<forall>x \<in> set xs. x = NInf) \<or> (\<exists>c. amax xs = Fin c \<and> Fin c \<in> set xs)"
  using assms by (induction xs) (auto simp: amax_def isfinite_iff max_def split: if_splits)

text \<open>
  What a cell knows after the first \<open>n\<close> keys: nothing when all are masked, otherwise a finite
  reference point and the partial sums relative to it.  The reference point is one of the
  scores, so the normalizer is at least one and the guard against division by a tiny number
  never changes it.
\<close>

definition cell_ok ::
  "(nat \<Rightarrow> pyfloat) \<Rightarrow> (nat \<Rightarrow> real) \<Rightarrow> nat \<Rightarrow> pyfloat \<Rightarrow> real \<Rightarrow> real \<Rightarrow> bool" where
  "cell_ok s w n m z x \<longleftrightarrow>
     (m = NInf \<and> z = 0 \<and> x = 0 \<and> (\<forall>k<n. s k = NInf)) \<or>
     (\<exists>a. m = Fin a \<and> (\<exists>k<n. isfinite (s k)) \<and> 1 \<le> z
        \<and> z = exp (- a) * exp_mass s n \<and> x = exp (- a) * exp_sum s w n)"

lemma chunk_cell:
  assumes "scores_ok s" and c_def: "c = amax (map s [0..<l])"
  shows "cell_ok s w l c (\<Sum>k<l. masked_exp (fin_val c) (s k)) (\<Sum>k<l. masked_exp (fin_val c) (s k) * w k)"
proof -
  have "\<forall>x \<in> set (map s [0..<l]). x = NInf \<or> isfinite x"
    using assms(1) by (simp add: scores_ok_def)
  then consider (masked) "c = NInf" "\<forall>k<l. s k = NInf"
    | (seen) a k where "c = Fin a" "k < l" "s k = Fin a"
    using amax_cases [of "map s [0..<l]"] unfolding c_def [symmetric] by fastforce
  then show ?thesis
  proof cases
    case masked
    then show ?thesis by (simp add: cell_ok_def)
  next
    case seen
    have "1 \<le> (\<Sum>j<l. masked_exp a (s j))"
      using member_le_sum [of k "{..<l}" "\<lambda>j. masked_exp a (s j)"] seen by simp
    moreover have "(\<Sum>j<l. masked_exp a (s j)) = exp (- a) * exp_mass s l"
      unfolding exp_mass_def sum_distrib_left by (rule sum.cong) (simp_all flip: masked_exp_shift)
    moreover have "(\<Sum>j<l. masked_exp a (s j) * w j) = exp (- a) * exp_sum s w l"
      unfolding exp_sum_def sum_distrib_left
      by (rule sum.cong) (simp_all add: masked_exp_shift [of a])
    ultimately show ?thesis
      using seen by (auto simp: cell_ok_def)
  qed
qed

lemma masked_sums:
  "\<forall>k<n. s k = NInf \<Longrightarrow> exp_mass s n = 0" "\<forall>k<n. s k = NInf \<Longrightarrow> exp_sum s w n = 0"
  by (simp_all add: exp_mass_def exp_sum_def)

lemma scaled_ge_one: "(1::real) \<le> z \<Longrightarrow> 1 \<le> y \<Longrightarrow> 1 \<le> exp (a - max a b) * z + exp (b - max a b) * y"
  by (cases "a \<le> b") (auto simp: max_def intro: add_increasing add_increasing2)

lemma rescale: "exp (a - c) * (exp (- a) * z) = exp (- c) * z" for a c z :: real
  by (simp add: mult.assoc [symmetric] exp_add [symmetric])

text \<open>Merging two regions gives the region of both.\<close>

lemma merge_cell:
  assumes "cell_ok s w n m z x"
    and "cell_ok (\<lambda>k. s (n + k)) (\<lambda>k. w (n + k)) l c y u"
  defines "mm \<equiv> pf_max m c"
  shows "cell_ok s w (n + l) mm
     (masked_exp (fin_val mm) m * z + masked_exp (fin_val mm) c * y)
     (masked_exp (fin_val mm) m * x + masked_exp (fin_val mm) c * u)"
proof -
  note sums = exp_mass_add exp_sum_add masked_sums
  have ex: "(\<exists>k<n + l. isfinite (s k)) \<longleftrightarrow> (\<exists>k<n. isfinite (s k)) \<or> (\<exists>k<l. isfinite (s (n + k)))"
    by (metis add_less_cancel_left le_add_diff_inverse not_less trans_less_add1)
  consider (none) "m = NInf" "c = NInf" | (old) a where "m = Fin a" "c = NInf"
    | (new) b where "m = NInf" "c = Fin b" | (both) a b where "m = Fin a" "c = Fin b"
    using assms(1,2) by (auto simp: cell_ok_def)
  then show ?thesis
  proof cases
    case none
    have "\<forall>k<n + l. s k = NInf"
      using assms(1,2) none
      by (simp add: cell_ok_def) (metis add_less_cancel_left le_add_diff_inverse not_less)
    with none assms(1,2) show ?thesis by (simp add: cell_ok_def mm_def)
  next
    case old
    with assms(1,2) show ?thesis by (auto simp: cell_ok_def mm_def sums ex)
  next
    case new
    with assms(1,2) show ?thesis by (auto simp: cell_ok_def mm_def sums ex)
  next
    case both
    with assms(1,2) show ?thesis
      unfolding mm_def
      by (simp add: cell_ok_def scaled_ge_one ex)
        (simp only: rescale exp_mass_add exp_sum_add distrib_left)
  qed
qed

lemma finish_cell:
  assumes "cell_ok s w n m z x"
  shows "(if z > 0 then x / max z tiny else 0)
           = (if visible s n = {} then 0 else softmax_sum s w n / softmax_mass s n)"
    and "(if z > 0 then pf_add m (ln (max z tiny)) else NInf)
           = (if visible s n = {} then NInf else Fin (ln (softmax_mass s n)))"
proof -
  have tiny: "max z tiny = z" if "1 \<le> z"
    using that by (simp add: tiny_def max_def)
  consider (masked) "m = NInf" "z = 0" "visible s n = {}"
    | (seen) a where "m = Fin a" "1 \<le> z" "visible s n \<noteq> {}" "z = exp (- a) * exp_mass s n"
        "x = exp (- a) * exp_sum s w n"
    using assms by (auto simp: cell_ok_def visible_def isfinite_iff)
  then have "(if z > 0 then x / max z tiny else 0)
           = (if visible s n = {} then 0 else softmax_sum s w n / softmax_mass s n)
     \<and> (if z > 0 then pf_add m (ln (max z tiny)) else NInf)
           = (if visible s n = {} then NInf else Fin (ln (softmax_mass s n)))"
  proof cases
    case masked
    then show ?thesis by simp
  next
    case seen
    have "max z tiny = z" "0 < z"
      using seen(2) by (simp_all add: tiny_def max_def)
    moreover have "0 < exp_mass s n"
      using seen(4) \<open>0 < z\<close> by (simp add: zero_less_mult_iff)
    moreover have "x / z = exp_sum s w n / exp_mass s n" "ln z = - a + ln (exp_mass s n)"
      using seen(4,5) \<open>0 < exp_mass s n\<close> by (simp_all add: ln_mult)
    ultimately show ?thesis
      using seen(1,3) by (simp add: softmax_mass_eq softmax_sum_eq)
  qed
  then show "(if z > 0 then x / max z tiny else 0)
           = (if visible s n = {} then 0 else softmax_sum s w n / softmax_mass s n)"
    and "(if z > 0 then pf_add m (ln (max z tiny)) else NInf)
           = (if visible s n = {} then NInf else Fin (ln (softmax_mass s n)))"
    by simp_all
qed

section \<open>Chunked attention is exact\<close>

text \<open>The state after the first \<open>n\<close> keys, for every query, head and group.\<close>

definition state_ok ::
  "(nat \<Rightarrow> nat \<Rightarrow> nat \<Rightarrow> nat \<Rightarrow> pyfloat) \<Rightarrow> real tensor \<Rightarrow> nat list \<Rightarrow> nat \<Rightarrow> nat \<Rightarrow> nat \<Rightarrow> online_state \<Rightarrow> bool" where
  "state_ok s val sh vd dev n st \<longleftrightarrow>
     t_shape (os_max st) = sh \<and> t_shape (os_norm st) = sh \<and> t_shape (os_weighted st) = sh @ [vd]
   \<and> t_device (os_norm st) = dev \<and> t_device (os_weighted st) = dev
   \<and> (\<forall>i h g v. cell_ok (s i h g) (\<lambda>k. t_at val [k, h, v]) n (t_at (os_max st) [i, h, g])
        (t_at (os_norm st) [i, h, g]) (t_at (os_weighted st) [i, h, g, v]))"

lemma scores_ok_score [simp]: "scores_ok (score query key qp kp groups hdim sc causal softcap i h g)"
  by (simp add: scores_ok_def score_def Let_def)

lemma score_slice:
  assumes "stop \<le> length kp" "k < stop - start"
  shows "score query (t_slice start stop key) qp (take (stop - start) (drop start kp)) groups hdim sc causal softcap i h g k
       = score query key qp kp groups hdim sc causal softcap i h g (start + k)"
  using assms by (simp add: score_def)

lemma validate_iff:
  "validate_inputs query key val = Inr (qc, kc, hq, hk, hdim, vd) \<longleftrightarrow>
     t_shape query = [qc, hq, hdim] \<and> t_shape key = [kc, hk, hdim] \<and> t_shape val = [kc, hk, vd]
   \<and> 0 < hk \<and> hq mod hk = 0 \<and> t_device query = t_device key \<and> t_device query = t_device val"
proof (cases "length (t_shape query) = 3 \<and> length (t_shape key) = 3 \<and> length (t_shape val) = 3")
  case True
  then show ?thesis
    by (auto simp: validate_inputs_def res_simps length_Suc_conv numeral_3_eq_3)
next
  case False
  then show ?thesis
    by (auto simp: validate_inputs_def split: list.split)
qed

lemma validate_slice:
  assumes "validate_inputs query key val = Inr (qc, kc, hq, hk, hdim, vd)"
  shows "validate_inputs query (t_slice a b key) (t_slice a b val) = Inr (qc, b - a, hq, hk, hdim, vd)"
  using assms by (simp add: validate_iff)

lemma merge_region_cong:
  assumes "\<And>i h g k. k < n \<Longrightarrow> f i h g k = f' i h g k"
  shows "merge_region st sh vd dev n f val = merge_region st sh vd dev n f' val"
proof -
  have maps: "map (f i h g) [0..<n] = map (f' i h g) [0..<n]" for i h g
    using assms by simp
  show ?thesis
    unfolding merge_region_def Let_def maps using assms by simp
qed

lemma merge_region_ok:
  assumes st: "state_ok s val sh vd dev n st" and "\<And>i h g. scores_ok (s i h g)" and "n + l = n'"
  shows "state_ok s val sh vd dev n' (merge_region st sh vd dev l (\<lambda>i h g k. s i h g (n + k)) (t_slice n n' val))"
proof -
  have "scores_ok (\<lambda>k. s i h g (n + k))" for i h g
    using assms(2) by (simp add: scores_ok_def)
  note merge = merge_cell [OF _ chunk_cell [OF this refl]]
  have "cell_ok (s i h g) (\<lambda>k. t_at val [k, h, v]) n (t_at (os_max st) [i, h, g])
        (t_at (os_norm st) [i, h, g]) (t_at (os_weighted st) [i, h, g, v])" for i h g v
    using st by (simp add: state_ok_def)
  note merge [OF this]
  then show ?thesis
    using st unfolding assms(3) [symmetric] by (simp add: state_ok_def merge_region_def Let_def)
qed

lemma update_keeps_state_ok:
  fixes causal :: bool and softcap :: real
  assumes valid: "validate_inputs query key val = Inr (qc, kc, hq, hk, hdim, vd)"
    and region: "start < stop" "stop \<le> kc" "length k_pos = kc" "length q_pos = qc"
    and sc: "scale_of scale hdim = Inr sc"
  defines "s \<equiv> score query key q_pos k_pos (hq div hk) hdim sc causal softcap"
    and "sh \<equiv> [qc, hk, hq div hk]"
  assumes st: "state_ok s val sh vd (t_device query) start st"
  shows "\<exists>st'. update_online_softmax_state st query (t_slice start stop key) (t_slice start stop val)
      q_pos (take (stop - start) (drop start k_pos)) scale causal softcap = Inr st'
      \<and> state_ok s val sh vd (t_device query) stop st'"
proof -
  let ?k = "take (stop - start) (drop start k_pos)"
  have "merge_region st sh vd (t_device query) (stop - start)
        (score query (t_slice start stop key) q_pos ?k (hq div hk) hdim sc causal softcap) (t_slice start stop val)
      = merge_region st sh vd (t_device query) (stop - start) (\<lambda>i h g k. s i h g (start + k)) (t_slice start stop val)"
    using region by (intro merge_region_cong) (simp add: s_def score_slice)
  moreover have "update_online_softmax_state st query (t_slice start stop key) (t_slice start stop val)
      q_pos ?k scale causal softcap = Inr (merge_region st sh vd (t_device query) (stop - start)
        (score query (t_slice start stop key) q_pos ?k (hq div hk) hdim sc causal softcap) (t_slice start stop val))"
    using st region sc
    by (simp add: update_online_softmax_state_def validate_slice [OF valid] check_positions_def state_ok_def sh_def Let_def)
  moreover have "state_ok s val sh vd (t_device query) stop
      (merge_region st sh vd (t_device query) (stop - start) (\<lambda>i h g k. s i h g (start + k)) (t_slice start stop val))"
    using region by (intro merge_region_ok [OF st]) (simp_all add: s_def)
  ultimately show ?thesis by simp
qed

definition chunk_update ::
  "real tensor \<Rightarrow> real tensor \<Rightarrow> real tensor \<Rightarrow> int list \<Rightarrow> int list \<Rightarrow> nat \<Rightarrow> nat
   \<Rightarrow> real option \<Rightarrow> bool \<Rightarrow> real \<Rightarrow> online_state \<Rightarrow> nat \<Rightarrow> online_state res" where
  "chunk_update query key val q_pos k_pos chunk kc scale causal softcap st start =
     update_online_softmax_state st query (t_slice start (min (start + chunk) kc) key)
       (t_slice start (min (start + chunk) kc) val) q_pos
       (take (min (start + chunk) kc - start) (drop start k_pos)) scale causal softcap"

lemma loop_keeps_state_ok:
  fixes causal :: bool and softcap :: real
  assumes valid: "validate_inputs query key val = Inr (qc, kc, hq, hk, hdim, vd)"
    and pos: "length k_pos = kc" "length q_pos = qc" and sc: "scale_of scale hdim = Inr sc" and chunk: "0 < chunk"
  defines "s \<equiv> score query key q_pos k_pos (hq div hk) hdim sc causal softcap"
    and "sh \<equiv> [qc, hk, hq div hk]"
  assumes st: "state_ok s val sh vd (t_device query) 0 st"
  shows "m \<le> (kc + chunk - 1) div chunk \<Longrightarrow>
    \<exists>st'. rfold (chunk_update query key val q_pos k_pos chunk kc scale causal softcap) st
            (map (\<lambda>i. i * chunk) [0..<m]) = Inr st'
      \<and> state_ok s val sh vd (t_device query) (min (m * chunk) kc) st'"
proof (induction m)
  case 0
  then show ?case using st by simp
next
  case (Suc m)
  then obtain st1 where st1: "rfold (chunk_update query key val q_pos k_pos chunk kc scale causal softcap) st
            (map (\<lambda>i. i * chunk) [0..<m]) = Inr st1"
      "state_ok s val sh vd (t_device query) (min (m * chunk) kc) st1"
    by auto
  have "Suc m * chunk \<le> (kc + chunk - 1) div chunk * chunk"
    using Suc.prems by (rule mult_le_mono1)
  also have "\<dots> \<le> kc + chunk - 1"
    by (rule div_times_less_eq_dividend)
  finally have "m * chunk < kc"
    using chunk by simp
  then have "m * chunk < min (m * chunk + chunk) kc" and m: "min (m * chunk) kc = m * chunk"
    using chunk by simp_all
  from update_keeps_state_ok [OF valid this(1) min.cobounded2 pos sc st1(2) [unfolded m s_def sh_def]]
  obtain st2 where "chunk_update query key val q_pos k_pos chunk kc scale causal softcap st1 (m * chunk) = Inr st2"
      "state_ok s val sh vd (t_device query) (min (m * chunk + chunk) kc) st2"
    unfolding chunk_update_def s_def sh_def by auto
  with st1(1) show ?case
    by (simp add: rfold_append add.commute)
qed

lemma init_state_ok:
  assumes "validate_inputs query key val = Inr (qc, kc, hq, hk, hdim, vd)"
  shows "\<exists>st. init_online_softmax_state query hk (Some vd) = Inr st
     \<and> state_ok s val [qc, hk, hq div hk] vd (t_device query) 0 st"
  using assms
  by (simp add: validate_iff init_online_softmax_state_def state_ok_def cell_ok_def Let_def)

lemma finalize_exact:
  assumes "state_ok s val [qc, hk, g] vd dev n st"
  shows "finalize_online_softmax_state st = Inr
    (tensor3 [qc, hk * g, vd] dev
       (\<lambda>i j v. if visible (s i (j div g) (j mod g)) n = {} then 0
          else softmax_sum (s i (j div g) (j mod g)) (\<lambda>k. t_at val [k, j div g, v]) n
             / softmax_mass (s i (j div g) (j mod g)) n),
     tensor2 [qc, hk * g] dev
       (\<lambda>i j. if visible (s i (j div g) (j mod g)) n = {} then NInf
          else Fin (ln (softmax_mass (s i (j div g) (j mod g)) n))))"
proof -
  have cells: "cell_ok (s i h g') (\<lambda>k. t_at val [k, h, v]) n (t_at (os_max st) [i, h, g'])
        (t_at (os_norm st) [i, h, g']) (t_at (os_weighted st) [i, h, g', v])" for i h g' v
    using assms by (simp add: state_ok_def)
  show ?thesis
    using assms unfolding finalize_online_softmax_state_def Let_def finish_cell [OF cells]
    by (simp add: state_ok_def)
qed

lemma first_chunk_raises:
  assumes valid: "validate_inputs query key val = Inr (qc, kc, hq, hk, hdim, vd)"
    and "0 < chunk" "0 < kc" "length k_pos = kc"
    and st: "state_ok s val [qc, hk, hq div hk] vd (t_device query) 0 st"
  shows "length q_pos \<noteq> qc \<Longrightarrow>
      rfold (chunk_update query key val q_pos k_pos chunk kc scale causal softcap) st (range_starts kc chunk) = Inl ValueError"
    and "length q_pos = qc \<Longrightarrow> scale_of scale hdim = Inl e \<Longrightarrow>
      rfold (chunk_update query key val q_pos k_pos chunk kc scale causal softcap) st (range_starts kc chunk) = Inl e"
proof -
  have "0 < (kc + chunk - 1) div chunk"
    using assms(2,3) by (simp add: div_greater_zero_iff)
  then obtain xs where starts: "range_starts kc chunk = 0 # xs"
    unfolding range_starts_def by (cases "(kc + chunk - 1) div chunk") (simp_all add: upt_rec)
  have size: "(min chunk kc = 0) = False"
    using assms(2,3) by simp
  note update = update_online_softmax_state_def validate_slice [OF valid] check_positions_def Let_def
  show "length q_pos \<noteq> qc \<Longrightarrow>
      rfold (chunk_update query key val q_pos k_pos chunk kc scale causal softcap) st (range_starts kc chunk) = Inl ValueError"
    using st by (simp add: starts chunk_update_def update state_ok_def size)
  show "length q_pos = qc \<Longrightarrow> scale_of scale hdim = Inl e \<Longrightarrow>
      rfold (chunk_update query key val q_pos k_pos chunk kc scale causal softcap) st (range_starts kc chunk) = Inl e"
    using st assms(4) by (simp add: starts chunk_update_def update state_ok_def size)
qed

lemma online_exact:
  assumes "0 < chunk_size"
  shows "online_attention_reference query key val q_pos k_pos chunk_size scale causal softcap
       = exact_attention query key val q_pos k_pos scale causal softcap"
proof (cases "validate_inputs query key val")
  case (Inl e)
  then show ?thesis
    using assms by (simp add: online_attention_reference_def exact_attention_def)
next
  case (Inr sizes)
  obtain qc kc hq hk hdim vd where valid: "validate_inputs query key val = Inr (qc, kc, hq, hk, hdim, vd)"
    using Inr by (cases sizes) auto
  define chunk where "chunk = nat chunk_size"
  define upd where "upd = chunk_update query key val q_pos k_pos chunk kc scale causal softcap"
  define s where "s sc = score query key q_pos k_pos (hq div hk) hdim sc causal softcap" for sc
  have chunk: "0 < chunk"
    using assms by (simp add: chunk_def)
  obtain st where init: "init_online_softmax_state query hk (Some vd) = Inr st"
    and st: "\<And>s. state_ok s val [qc, hk, hq div hk] vd (t_device query) 0 st"
    using init_state_ok [OF valid] by (metis Inr_inject)
  have run: "online_attention_reference query key val q_pos k_pos chunk_size scale causal softcap
      = (if length k_pos \<noteq> kc then Inl ValueError
         else rbind (rfold upd st (range_starts kc chunk)) finalize_online_softmax_state)"
    using assms valid init
    by (simp add: online_attention_reference_def check_positions_def upd_def chunk_update_def [abs_def] chunk_def Let_def)
  consider (lengths) "length k_pos \<noteq> kc" | (queries) "length k_pos = kc" "0 < kc" "length q_pos \<noteq> qc"
    | (scale) "length k_pos = kc" "0 < kc" "length q_pos = qc" "scale = None" "hdim = 0"
    | (no_keys) "length k_pos = kc" "kc = 0"
    | (good) sc where "length k_pos = kc" "0 < kc" "length q_pos = qc" "scale_of scale hdim = Inr sc"
    by (cases "scale_of scale hdim") (auto simp: scale_of_def split: option.splits if_splits)
  then show ?thesis
  proof cases
    case good
    have "\<exists>st'. rfold upd st (range_starts kc chunk) = Inr st'
        \<and> state_ok (s sc) val [qc, hk, hq div hk] vd (t_device query)
            (min ((kc + chunk - 1) div chunk * chunk) kc) st'"
      unfolding upd_def range_starts_def s_def
      by (rule loop_keeps_state_ok [OF valid good(1,3,4) chunk st order.refl])
    moreover have "kc \<le> (kc + chunk - 1) div chunk * chunk"
      using div_mult_mod_eq [of "kc + chunk - 1" chunk] mod_less_divisor [OF chunk, of "kc + chunk - 1"] by linarith
    ultimately obtain st' where "rfold upd st (range_starts kc chunk) = Inr st'"
      and "state_ok (s sc) val [qc, hk, hq div hk] vd (t_device query) kc st'"
      by (auto simp: min_absorb2)
    then show ?thesis
      using good by (auto simp: run exact_attention_def valid finalize_exact s_def scale_of_def Let_def
          split: option.splits if_splits)
  next
    case no_keys
    then have "rfold upd st (range_starts kc chunk) = Inr st"
      using chunk by (simp add: range_starts_def)
    then show ?thesis
      unfolding run using no_keys by (simp add: exact_attention_def valid finalize_exact [OF st [of "s 0"]] visible_def Let_def)
  qed (unfold run, simp_all add: exact_attention_def valid upd_def first_chunk_raises [OF valid chunk _ _ st] scale_of_def)
qed

text \<open>
  C4: Streaming the history is exact.  For every chunk size the online attention is the softmax
  attention over all keys at once, output and log-sum-exp, masked keys, heads without any visible
  key and exceptions included; the one-chunk \<open>full_attention_reference\<close> is the same function.
\<close>

theorem online_attention_exact:
  assumes "1 \<le> chunk_size" and "t_shape key \<noteq> []"
  shows "online_attention_reference query key val q_pos k_pos chunk_size scale causal softcap
       = exact_attention query key val q_pos k_pos scale causal softcap
     \<and> full_attention_reference query key val q_pos k_pos scale causal softcap
       = exact_attention query key val q_pos k_pos scale causal softcap"
  using assms by (auto simp: full_attention_reference_def online_exact split: list.splits)

definition demo_query :: "real tensor" where
  "demo_query = \<lparr> t_shape = [1, 1, 1], t_device = 0, t_at = \<lambda>_. 0 \<rparr>"

definition demo_key :: "real tensor" where
  "demo_key = \<lparr> t_shape = [3, 1, 1], t_device = 0, t_at = \<lambda>_. 7 \<rparr>"

definition demo_value :: "real tensor" where
  "demo_value = \<lparr> t_shape = [3, 1, 1], t_device = 0, t_at = \<lambda>idx. [1, 2, 6] ! hd idx \<rparr>"

text \<open>Three keys in chunks of two, the last key after the query: the output averages the first two values.\<close>

theorem online_attention_exact_witness:
  "\<exists>out lse. online_attention_reference demo_query demo_key demo_value [1] [0, 1, 5] 2 None True 0 = Inr (out, lse)
     \<and> t_at out [0, 0, 0] = 3 / 2 \<and> t_at lse [0, 0] = Fin (ln 2)"
proof -
  have score: "score demo_query demo_key [1] [0, 1, 5] (Suc 0) (Suc 0) 1 True 0 0 0 0
      = (\<lambda>k. if [0, 1, 5] ! k \<le> (1::int) then Fin 0 else NInf)" (is "_ = ?s")
    by (rule ext) (simp add: score_def demo_query_def demo_key_def)
  have "visible ?s 3 = {0, 1}"
    by (auto simp: visible_def less_Suc_eq numeral_3_eq_3 split: if_splits)
  moreover have "t_shape demo_query = [1, 1, 1]" "t_shape demo_key = [3, 1, 1]" "t_shape demo_value = [3, 1, 1]"
    "t_device demo_query = 0" "t_device demo_key = 0" "t_device demo_value = 0"
    by (simp_all add: demo_query_def demo_key_def demo_value_def)
  moreover have "t_at demo_value [0, 0, 0] = 1" "t_at demo_value [Suc 0, 0, 0] = 2"
    by (simp_all add: demo_value_def)
  ultimately show ?thesis
    using online_attention_exact [of 2 demo_key demo_query demo_value "[1]" "[0, 1, 5]" None True 0]
    by (simp add: exact_attention_def validate_inputs_def score softmax_sum_def softmax_mass_def Let_def)
qed

end
