(* ===== verification/Spec2Isabelle.thy ===== *)
theory Spec2Isabelle
  imports DraftRound TargetPartition DraftGate VerifierForward OnlineSoftmax
begin

text \<open>
  SpecStream on SPECTRE: speculative decoding with a remote Drafter, in the serving engine under
  \<^verbatim>\<open>src/python/sglang\<close>.

  \<^bold>\<open>The program.\<close>  Two processes share one GPU or several.  The \<^emph>\<open>Target\<close> serves requests; for each
  decoding round it asks the \<^emph>\<open>Drafter\<close>, a second process with a small model, for draft tokens and
  verifies them in one forward pass.  Both keep the KV cache of their requests in GPU slots.  The
  Target moves old KV rows to CPU memory (it \<^emph>\<open>seals\<close> them) and streams them back chunk by chunk during
  attention.  While the Target computes, it may grant the Drafter single decoding steps on a range
  of TPCs of the same GPU.  The processes exchange messages that may be lost, duplicated or
  reordered.  Paths below are relative to \<^verbatim>\<open>src/python/sglang/srt/\<close>, and \<^verbatim>\<open>spectre/\<close> stands for
  \<^verbatim>\<open>speculative/spectre/\<close>.

  \<^bold>\<open>Shared vocabulary\<close> (\<^verbatim>\<open>Prelude\<close>): exceptions as the left side of a sum (\<open>res\<close>), stateful code that may
  raise as a function to a result and a state (\<open>py\<close>; the state at the raise is kept), the
  insertion-ordered dictionary, slices and windows of lists, floats with infinities where they
  occur, reachable states (\<open>reaches\<close>) and the locale \<open>invariant_system\<close>, the contract of an inductive
  invariant.  It is interpreted on the history store, the GPU memory, the grant protocol, the grant
  sequencer, the circuit breaker, the Drafter's gate and the staging pool, whose properties rest on the interpretations.

  \<^bold>\<open>KV memory of the Target.\<close>
  \<^item> \<^verbatim>\<open>TieredKV\<close>: \<^verbatim>\<open>spectre/specstream/state.py\<close>, the lengths of one request through rounds and seals; error-free
    sequences keep the strict check and never shrink the history.
  \<^item> \<^verbatim>\<open>HistoryStore\<close>: \<^verbatim>\<open>spectre/specstream/cpu_history_store.py\<close>, slabs of sealed rows under a byte budget.  Both byte
    counters exact and slabs owned once in every reachable state; refinement of an append-only log per request
    (locale \<open>history_log\<close>); transactional behaviour of a failed copy, and the slabs that a seal over
    the budget leaves behind when it raises.
  \<^item> \<^verbatim>\<open>KVPool\<close>: the slot allocator, the request-to-token table and the allocation, release and rollback paths
    (\<^verbatim>\<open>mem_cache/allocator.py\<close>, \<^verbatim>\<open>memory_pool.py\<close>, \<^verbatim>\<open>common.py\<close>, \<^verbatim>\<open>chunk_cache.py\<close>, \<^verbatim>\<open>managers/schedule_batch.py\<close>,
    \<^verbatim>\<open>spectre/drafter/spectre_kv_rollbacker.py\<close>).  On the Drafter, whose requests never stream, slots and
    rows are conserved in every state reached without a raised allocation and a release returns
    exactly what a request holds; a rollback frees exactly the suffix.  The Target, whose requests
    stream, is the subject of \<^verbatim>\<open>SealRuntime\<close>.
  \<^item> \<^verbatim>\<open>SealRuntime\<close>: the tiered half of \<open>SpecStreamTargetRuntime\<close> (\<^verbatim>\<open>spectre/specstream/verifier.py\<close>), over the three
    theories above, with the release and retraction of the engine around it.  The round handlers
    keep slots conserved and pending seals inside committed resident tokens; a poll retires a seal once; finishing a request returns
    exactly what it held and touches nothing of any other; two theorems show where a release or a retraction during a seal frees a slot it must not.
  \<^item> \<^verbatim>\<open>OnlineSoftmax\<close>: \<^verbatim>\<open>spectre/specstream/online_softmax.py\<close>, the attention over streamed chunks; equal to the
    softmax attention over all keys for every chunk size.
  \<^item> \<^verbatim>\<open>CohortScheduler\<close>: \<^verbatim>\<open>spectre/specstream/cohort_scheduler.py\<close>; the plans partition the transfers, and plans of
    unexpired items are the same whenever they are built.
  \<^item> \<^verbatim>\<open>Staging\<close>, \<^verbatim>\<open>StagingSafety\<close>: \<^verbatim>\<open>spectre/specstream/staging_runtime.py\<close>, the windows through which history returns to the
    GPU.  An operation appends what it issues to the copy and compute streams to a trace; an
    execution is any order of the trace that respects streams and events.  Every kernel finds the data submitted for it.
  \<^item> \<^verbatim>\<open>LayerStream\<close>, \<^verbatim>\<open>LayerHistory\<close>, \<^verbatim>\<open>CohortStream\<close>: the history side of \<open>SpecStreamVerifier\<close>
    (\<^verbatim>\<open>spectre/specstream/verifier.py\<close>), over the history store and the staging windows: a ring of windows over a
    layer, the prefetch of the next layer into slots that become free, and its cache, for requests
    one by one, for several in one queue and for cohorts.  The ring relies on the prefetch through
    the locale \<open>layer_ring\<close>, which the locale \<open>next_layer\<close> gives for every cache with the
    contract of \<open>prefetch_cache\<close>; \<open>layer_pipeline\<close> goes from one layer to a round.  On all
    three paths a round never raises and its kernels read exactly the sealed history, layer by layer.
  \<^item> \<^verbatim>\<open>VerifierForward\<close>: \<open>SpecStreamVerifier.forward\<close> itself, with its checks of the layer, of the query packing and
    of the tails, its choice among these paths and the full-restore baseline.  A layer that passes
    the checks takes one of the three paths above or restores exactly the sealed rows; the rounds
    the runtime builds pass the check of the packing.

  \<^bold>\<open>Exchange of drafts.\<close>
  \<^item> \<^verbatim>\<open>Protocol\<close>: the messages (\<^verbatim>\<open>spectre/spectre_protocol.py\<close>).
  \<^item> \<^verbatim>\<open>DraftState\<close>, \<^verbatim>\<open>DraftScheduler\<close>: the Drafter (\<^verbatim>\<open>spectre/drafter/spectre_state_manager.py\<close>,
    \<^verbatim>\<open>spectre_draft_scheduler_mixin.py\<close>): deduplication, the comparison of the two token sequences, every
    divergence case, re-prefill, responses, control messages, release.  After a message on a
    request whose prefilled tokens the Target still has, the Drafter's tokens extend the Target's; two
    theorems show cases outside of this in which they do not.
  \<^item> \<^verbatim>\<open>TargetScheduler\<close>: the Target's side (\<^verbatim>\<open>spectre/verifier/spectre_target_scheduler_mixin.py\<close>,
    \<^verbatim>\<open>spectre_worker.py\<close>, \<^verbatim>\<open>spectre/draft_delivery.py\<close>): the circuit breaker, the round cache, requests, retries and the
    bookkeeping after a forward pass.  A draft is used once and only for its round; the breaker probes again.
  \<^item> \<^verbatim>\<open>DraftRound\<close>: one round across both processes; the Target keeps drafts exactly when both sequences agree.

  \<^bold>\<open>Sharing the GPU.\<close>
  \<^item> \<^verbatim>\<open>GrantTable\<close>, \<^verbatim>\<open>CoexecRuntime\<close>, \<^verbatim>\<open>GrantProtocol\<close>: one-token grants, on the Drafter
    (\<^verbatim>\<open>spectre/specstream/gpu_grant.py\<close>; locale \<open>one_shot_gate\<close>), on the Target (\<^verbatim>\<open>coexec_runtime.py\<close>), and end to end over
    a lossy channel.  The Drafter consumes grants of its table in its prefill pass: never more
    granted prefills in a round than asked for, never two under one grant.  The protocol theorem
    covers the life of a request up to its release, which resets the epochs on both sides.  On the
    Target a continuation grant has the range and the deadline of the first grant of its own round.
  \<^item> \<^verbatim>\<open>ResourceProfile\<close>, \<^verbatim>\<open>GrantController\<close>: measured profiles, the gate that decides on a grant and the complementary
    partition (\<^verbatim>\<open>resource_profile.py\<close>, \<^verbatim>\<open>gpu_grant_controller.py\<close>, \<^verbatim>\<open>tpc_partition.py\<close>).
  \<^item> \<^verbatim>\<open>TargetPartition\<close>: the grants and the partition around a forward pass of the Target (\<^verbatim>\<open>verifier.py\<close>,
    \<^verbatim>\<open>coexec_runtime.py\<close>): no grant lets the Drafter onto the TPCs the Target runs on.
  \<^item> \<^verbatim>\<open>DraftGate\<close>: the gate in front of the Drafter's forward passes (\<^verbatim>\<open>spectre_draft_scheduler_mixin.py\<close>): every
    decode step and prefill under SM control runs under a grant on its TPCs, a grant that is not
    persistent within its budget; under calibration the one persistent grant is the only one, and
    without calibration the gate never opens.  The ordinary batches of the event loop do not pass
    the gate.
  \<^item> \<^verbatim>\<open>SMControl\<close>: \<^verbatim>\<open>sm_controller.py\<close> and the mask construction of the C library at word width; a mask enables
    exactly its range.

  \<^bold>\<open>Control.\<close>
  \<^item> \<^verbatim>\<open>Trackers\<close>, \<^verbatim>\<open>IOController\<close>: online statistics (locales \<open>smoothing\<close> and \<open>smoothing_factor\<close>) and the choice of mode and
    draft length (\<^verbatim>\<open>controller.py\<close>, \<^verbatim>\<open>cost_model.py\<close>, the two policies): estimates stay in range; a choice
    is near-optimal among the admissible ones, the fallback, or raises when an estimate is not finite;
    a lost draft backs off for a bounded number of healthy rounds.
  \<^item> \<^verbatim>\<open>Config\<close>, \<^verbatim>\<open>TargetControl\<close>: \<^verbatim>\<open>config.py\<close> and the control half of \<open>SpecStreamTargetRuntime\<close>; an accepted
    configuration builds the runtime exactly when its surroundings (TPC library, MPS, TP group, KV
    pool, profile file) allow it.

  \<^bold>\<open>Reading the model.\<close>  Integers of the program are unbounded Python integers (\<open>int\<close>, or \<open>nat\<close> where the code
  indexes); floats are reals, rounding is not modelled; where the code tests a computed cost for
  \<open>math.isfinite\<close>, the model tests the range of binary64; masks are words.  Clocks, CUDA events,
  the GPU pool, the driver and files are arguments.  Recursion is structural or has a termination proof;
  no function uses fuel.  Log output, profiler and diagnostics calls are left out of every operation.

  \<^bold>\<open>Not modelled.\<close>  The engine around SPECTRE apart from the parts named above; CUDA and Triton kernels
  and the tensor layouts they consume (\<^verbatim>\<open>triton_stream_attn.py\<close>, the tensors \<open>SpecStreamVerifier.forward\<close> passes to them): a kernel is a read of its window; the socket layer and its background
  thread (\<^verbatim>\<open>spectre/spectre_communication.py\<close>); profiler and diagnostics, which only record; the in-process
  variant (\<^verbatim>\<open>speculative/specstream_inproc\<close>); the admission of prefills and the tensors of batches on the
  Drafter; the bandwidth measurement of \<^verbatim>\<open>staging_runtime.py\<close>.  In the staging model an allocation succeeds and is a new buffer (memory that
  the caching allocator hands out again is not tracked), and the sources of a copy do not change while it is pending: slabs are written before they are
  sealed and freed after their request has left the batch.  The Drafter's \<open>_run_granted_draft_step\<close>
  has no caller in the program and is left out.
\<close>

end
